(* ===== verification/Prelude.thy ===== *)
theory Prelude
  imports Main "HOL-Library.Word"
begin

text \<open>
  Shared vocabulary of the development: bytes, C's unsigned integer conversions, little-endian
  fields, overwriting a part of a buffer, and the generic lemmas on lists, naturals and words
  that the component theories use.

  A C variable of type \<open>uint16_t\<close> or \<open>uint8_t\<close> that is used as an offset, a length, an identifier
  or a page number is a \<^typ>\<open>nat\<close>; wherever the source stores a computed value in such a variable
  and the value may not fit, the conversion is written out with \<open>u16\<close>, \<open>u8\<close> or \<open>sub16\<close>. Bytes of
  Flash memory, status codes and page states are \<^typ>\<open>8 word\<close>.
\<close>

unbundle bit_operations_syntax

type_synonym byte = "8 word"

text \<open>The memory behind a pointer of the caller, from offset 0 on, and copying bytes to its start.\<close>

type_synonym cmem = "nat \<Rightarrow> byte"

definition mem_write :: "byte list \<Rightarrow> cmem \<Rightarrow> cmem" where
  "mem_write bs m = (\<lambda>i. if i < length bs then bs ! i else m i)"

definition u8 :: "nat \<Rightarrow> nat" where
  "u8 x = x mod 256"

definition u16 :: "nat \<Rightarrow> nat" where
  "u16 x = x mod 65536"

definition sub16 :: "nat \<Rightarrow> nat \<Rightarrow> nat" where
  "sub16 a b = (a + 65536 - b mod 65536) mod 65536"

definition s16 :: "int \<Rightarrow> int" where
  "s16 x = (x + 32768) mod 65536 - 32768"

definition le16 :: "nat \<Rightarrow> byte list" where
  "le16 x = [of_nat (x mod 256), of_nat (x div 256 mod 256)]"

definition of_le16 :: "byte list \<Rightarrow> nat" where
  "of_le16 bs = unat (bs ! 0) + 256 * unat (bs ! 1)"

definition list_write :: "nat \<Rightarrow> 'a list \<Rightarrow> 'a list \<Rightarrow> 'a list" where
  "list_write off bs xs = take off xs @ bs @ drop (off + length bs) xs"

named_theorems c_arith \<open>unsigned conversions that are the identity in range\<close>

lemma u8_id [c_arith]: "x < 256 \<Longrightarrow> u8 x = x"
  by (simp add: u8_def)

lemma u16_id [c_arith]: "x < 65536 \<Longrightarrow> u16 x = x"
  by (simp add: u16_def)

lemma u16_less [simp]: "u16 x < 65536"
  by (simp add: u16_def)

lemma u8_less [simp]: "u8 x < 256"
  by (simp add: u8_def)

lemma sub16_less [simp]: "sub16 a b < 65536"
  by (simp add: sub16_def)

lemma sub16_le [c_arith]:
  assumes "b \<le> a" and "a < 65536"
  shows "sub16 a b = a - b"
proof -
  have "a + 65536 - b mod 65536 = (a - b) + 65536"
    using assms by simp
  then have "sub16 a b = ((a - b) + 65536) mod 65536"
    by (simp only: sub16_def)
  also have "\<dots> = (a - b) mod 65536"
    by (rule mod_add_self2)
  also have "\<dots> = a - b"
    using assms by simp
  finally show ?thesis .
qed

lemma sub16_wraps: "a < b \<Longrightarrow> b < 65536 \<Longrightarrow> sub16 a b = a + 65536 - b"
  by (simp add: sub16_def)

lemma s16_id [c_arith]: "- 32768 \<le> x \<Longrightarrow> x < 32768 \<Longrightarrow> s16 x = x"
  by (simp add: s16_def)

lemma of_le16_le16 [simp]: "x < 65536 \<Longrightarrow> of_le16 (le16 x) = x"
  by (simp add: of_le16_def le16_def unsigned_of_nat take_bit_nat_def)

lemma length_le16 [simp]: "length (le16 x) = 2"
  by (simp add: le16_def)

lemma length_list_write [simp]:
  "off + length bs \<le> length xs \<Longrightarrow> length (list_write off bs xs) = length xs"
  by (simp add: list_write_def)

lemma nth_list_write:
  assumes "off + length bs \<le> length xs" and "i < length xs"
  shows "list_write off bs xs ! i =
    (if off \<le> i \<and> i < off + length bs then bs ! (i - off) else xs ! i)"
  using assms by (auto simp: list_write_def nth_append)

lemma map_nth_upt_shift: "map (\<lambda>i. f (a + i)) [0..<n] = map f [a..<a + n]"
  by (rule nth_equalityI) simp_all

lemma upt_append_split: "a \<le> b \<Longrightarrow> b \<le> c \<Longrightarrow> [a..<c] = [a..<b] @ [b..<c]"
  by (metis le_add_diff_inverse upt_add_eq_append)

text \<open>Bits of a natural number above a bound are clear.\<close>

lemma bit_nat_less: "bit (x::nat) n \<Longrightarrow> x < 2 ^ k \<Longrightarrow> n < k"
  by (metis bit_take_bit_iff take_bit_nat_eq_self_iff)

lemma nat_masks: "(0x3::nat) = mask 2" "(0x3F::nat) = mask 6" "(0xFF::nat) = mask 8"
    "(0x3FF::nat) = mask 10"
  by (simp_all add: mask_eq_exp_minus_1)

lemma byte_masks: "(0x3::byte) = mask 2" "(0x3F::byte) = mask 6"
  by (simp_all add: mask_eq_exp_minus_1)

end
