(* ===== verification/Nvs.thy ===== *)
theory Nvs
  imports Prelude
begin

text \<open>
  The data of the TI NV driver \<^verbatim>\<open>src/src/platform/ti/cc13xx_26xx/nvocmp.c\<close> and its access to the
  Flash device. The build defines \<^verbatim>\<open>NVOCMP_NVPAGES=12\<close>, \<^verbatim>\<open>NVOCMP_NWSAMEITEM=1\<close>,
  \<^verbatim>\<open>NVOCMP_POSIX_MUTEX\<close> and \<^verbatim>\<open>DeviceFamily_CC13X4\<close> or \<^verbatim>\<open>CC26X4\<close>
  (\<^verbatim>\<open>third_party/ti_simplelink_sdk/ti_simplelink_sdk.gni\<close>), so the model is of the code for more
  than two pages of 2048 bytes, without RAM optimisation, migration, statistics and debugging.

  The NVS driver, the CRC routine of \<^verbatim>\<open>crc.h\<close> and the status codes of \<^verbatim>\<open>nvintf.h\<close> are not part of
  the repository. They are the fields of a record \<open>nvs_env\<close> that every operation takes; what the
  driver relies on is stated by the locales at the end of this theory. \<open>nor_env\<close> is a concrete
  environment (NOR Flash with verified writes) on which these locales are interpreted.
\<close>

subsection \<open>The environment: NVS, CRC, status codes\<close>

record 'f nvs_env =
  NVS_read :: "'f \<Rightarrow> nat \<Rightarrow> nat \<Rightarrow> byte list"
  NVS_write :: "'f \<Rightarrow> nat \<Rightarrow> byte list \<Rightarrow> int \<times> 'f"
  NVS_erase :: "'f \<Rightarrow> nat \<Rightarrow> nat \<Rightarrow> int \<times> 'f"
  crc_update :: "byte \<Rightarrow> byte list \<Rightarrow> byte"
  sectorSize :: nat
  regionSize :: nat
  handle_null :: bool
  mutex_ok :: bool
  NVINTF_SUCCESS :: byte
  NVINTF_FAILURE :: byte
  NVINTF_CORRUPT :: byte
  NVINTF_NOTREADY :: byte
  NVINTF_BADPARAM :: byte
  NVINTF_BADLENGTH :: byte
  NVINTF_BADOFFSET :: byte
  NVINTF_BADITEMID :: byte
  NVINTF_BADSUBID :: byte
  NVINTF_BADSYSID :: byte
  NVINTF_NOTFOUND :: byte
  NVINTF_LOWPOWER :: byte
  NVINTF_BADVERSION :: byte
  NVINTF_EXIST :: byte
  NVINTF_DOSTART :: byte
  NVINTF_DOSYSID :: byte
  NVINTF_DOITMID :: byte
  NVINTF_DOANYID :: byte
  NVINTF_DOFIND :: byte
  NVINTF_DOREAD :: byte
  NVINTF_DODELETE :: byte
  NVINTF_SYSID_NVDRVR :: nat

subsection \<open>Constants\<close>

definition FLASH_PAGE_SIZE :: nat where [simp]: "FLASH_PAGE_SIZE = 2048"
definition NVOCMP_NVPAGES :: nat where [simp]: "NVOCMP_NVPAGES = 12"
definition NVOCMP_VERSION :: byte where [simp]: "NVOCMP_VERSION = 0x03"
definition NVOCMP_SIGNATURE :: byte where [simp]: "NVOCMP_SIGNATURE = 0x96"
definition NVOCMP_PGHDROFS :: nat where [simp]: "NVOCMP_PGHDROFS = 0"
definition NVOCMP_PGHDRLEN :: nat where [simp]: "NVOCMP_PGHDRLEN = 4"
definition NVOCMP_PGHDRVER :: nat where [simp]: "NVOCMP_PGHDRVER = 2"
definition NVOCMP_COMPACTHDRLEN :: nat where [simp]: "NVOCMP_COMPACTHDRLEN = 4"
definition NVOCMP_COMPMODEOFS :: nat where [simp]: "NVOCMP_COMPMODEOFS = 6"
definition NVOCMP_PGDATAOFS :: nat where
  [simp]: "NVOCMP_PGDATAOFS = 16"  \<comment> \<open>page header and three compact headers\<close>
definition NVOCMP_ITEMHDRLEN :: nat where [simp]: "NVOCMP_ITEMHDRLEN = 7"
definition NVOCMP_HDRVLDOFS :: nat where [simp]: "NVOCMP_HDRVLDOFS = 5"
definition NVOCMP_HDRCRCINC :: nat where [simp]: "NVOCMP_HDRCRCINC = 5"
definition NVOCMP_XFERBLKMAX :: nat where [simp]: "NVOCMP_XFERBLKMAX = 32"
definition NVOCMP_SMALLITEM :: nat where [simp]: "NVOCMP_SMALLITEM = 12"
definition NVOCMP_MAXSYSID :: nat where [simp]: "NVOCMP_MAXSYSID = 0x003F"
definition NVOCMP_MAXITEMID :: nat where [simp]: "NVOCMP_MAXITEMID = 0x03FF"
definition NVOCMP_MAXSUBID :: nat where [simp]: "NVOCMP_MAXSUBID = 0x03FF"
definition NVOCMP_MAXLEN :: nat where [simp]: "NVOCMP_MAXLEN = 0x0FFF"
definition NVOCMP_INVALIDSUBID :: nat where [simp]: "NVOCMP_INVALIDSUBID = 0xFFFF"
definition NVOCMP_NULLPAGE :: nat where [simp]: "NVOCMP_NULLPAGE = 0xFF"
definition NVOCMP_NULLOFFSET :: nat where [simp]: "NVOCMP_NULLOFFSET = 0xFFFF"
definition NVOCMP_ERASEDBYTE :: byte where [simp]: "NVOCMP_ERASEDBYTE = 0xFF"
definition NVOCMP_ACTIVEIDBIT :: byte where [simp]: "NVOCMP_ACTIVEIDBIT = 0x2"
definition NVOCMP_VALIDIDBIT :: byte where [simp]: "NVOCMP_VALIDIDBIT = 0x1"
definition NVOCMP_FOLLOWBIT :: byte where [simp]: "NVOCMP_FOLLOWBIT = 0x4"
definition NVOCMP_ALLACTIVE :: byte where [simp]: "NVOCMP_ALLACTIVE = 0x3"
definition NVOCMP_SOMEINACTIVE :: byte where [simp]: "NVOCMP_SOMEINACTIVE = 0x0"
definition NVOCMP_MINCYCLE :: byte where [simp]: "NVOCMP_MINCYCLE = 0x01"
definition NVOCMP_MAXCYCLE :: byte where [simp]: "NVOCMP_MAXCYCLE = 0xFE"

text \<open>Page states and page modes; a transition clears bits only.\<close>

definition NVOCMP_PGNACT :: byte where [simp]: "NVOCMP_PGNACT = 0xFF"
definition NVOCMP_PGXDST :: byte where [simp]: "NVOCMP_PGXDST = 0xFE"
definition NVOCMP_PGRDY :: byte where [simp]: "NVOCMP_PGRDY = 0x7E"
definition NVOCMP_PGACT :: byte where [simp]: "NVOCMP_PGACT = 0x7C"
definition NVOCMP_PGFULL :: byte where [simp]: "NVOCMP_PGFULL = 0x78"
definition NVOCMP_PGXSRC :: byte where [simp]: "NVOCMP_PGXSRC = 0x70"
definition NVOCMP_PGNORMAL :: byte where [simp]: "NVOCMP_PGNORMAL = 0xFF"
definition NVOCMP_PGCDST :: byte where [simp]: "NVOCMP_PGCDST = 0xFE"
definition NVOCMP_PGCDONE :: byte where [simp]: "NVOCMP_PGCDONE = 0xFC"
definition NVOCMP_PGCSRC :: byte where [simp]: "NVOCMP_PGCSRC = 0xF8"
definition THISPAGEHDR :: nat where [simp]: "THISPAGEHDR = 0"
definition XSRCSTARTHDR :: nat where [simp]: "XSRCSTARTHDR = 1"
definition XSRCENDHDR :: nat where [simp]: "XSRCENDHDR = 2"

definition NVOCMP_FINDANY :: nat where [simp]: "NVOCMP_FINDANY = 0x00"
definition NVOCMP_FINDSYSID :: nat where [simp]: "NVOCMP_FINDSYSID = 0x01"
definition NVOCMP_FINDITMID :: nat where [simp]: "NVOCMP_FINDITMID = 0x02"
definition NVOCMP_FINDSTRICT :: nat where [simp]: "NVOCMP_FINDSTRICT = 0x03"
definition NVOCMP_FINDCONTENT :: nat where [simp]: "NVOCMP_FINDCONTENT = 0x10"

subsection \<open>Structures\<close>

record NVOCMP_pageHdr_t =
  ph_state :: byte
  ph_cycle :: byte
  ph_allActive :: byte
  ph_version :: byte
  ph_signature :: byte

record NVOCMP_compactHdr_t =
  ch_pageOffset :: nat
  ch_page :: nat
  ch_signature :: byte

record NVOCMP_itemHdr_t =
  cmpid :: nat
  subid :: nat
  itemid :: nat
  sysid :: nat
  crc8 :: byte
  sig :: byte
  stats :: byte
  hofs :: nat
  len :: nat
  hpage :: nat

record NVOCMP_itemInfo_t =
  cBuf :: "byte list"
  coff :: nat
  rBuf :: cmem
  rlength :: nat

datatype NVOCMP_initAction_t =
  NVOCMP_NORMAL_INIT | NVOCMP_NORMAL_RESUME | NVOCMP_RECOVER_COMPACT | NVOCMP_RECOVER_ERASE |
  NVOCMP_FORCE_CLEAN | NVOCMP_NORMAL_MIGRATE | NVOCMP_ERROR_UNKNOWN

datatype NVOCMP_writeMode_t = NVOCMP_WRITE | NVOCMP_CREATE | NVOCMP_UPDATE

record NVOCMP_pageInfo_t =
  pi_state :: byte
  pi_cycle :: byte
  pi_mode :: byte
  pi_allActive :: byte
  pi_sPage :: nat
  pi_ePage :: nat
  pi_offset :: nat
  pi_sOffset :: nat
  pi_eOffset :: nat

record NVOCMP_compactInfo_t =
  xDstPage :: nat
  xSrcSPage :: nat
  xSrcEPage :: nat
  xSrcPages :: nat
  xDstOffset :: nat
  xSrcSOffset :: nat
  xSrcEOffset :: nat

text \<open>
  The driver's global state: \<^verbatim>\<open>NVOCMP_nvHandle\<close>, the fail flags, the voltage check hook and the
  Flash device itself. \<open>pageInfo\<close> is indexed by page numbers; the driver's pages are those below
  \<open>nvSize\<close>. The voltage hook is called before every write and erase and may answer differently
  each time: \<open>voltCheckFptr\<close> is \<open>None\<close> for a null pointer, otherwise the answer of the \<open>k\<close>-th call,
  and \<open>vcalls\<close> counts the calls.
\<close>

record 'f nv =
  flash :: 'f
  failF :: byte
  failW :: byte
  nvSize :: nat
  headPage :: nat
  tailPage :: nat
  actPage :: nat
  forceCompact :: bool
  actOffset :: nat
  compactInfo :: NVOCMP_compactInfo_t
  pageInfo :: "nat \<Rightarrow> NVOCMP_pageInfo_t"
  voltCheckFptr :: "(nat \<Rightarrow> bool) option"
  vcalls :: nat
  gAction :: NVOCMP_initAction_t

definition upd_page :: "nat \<Rightarrow> (NVOCMP_pageInfo_t \<Rightarrow> NVOCMP_pageInfo_t) \<Rightarrow> 'f nv \<Rightarrow> 'f nv" where
  "upd_page pg f s = s\<lparr>pageInfo := (pageInfo s)(pg := f (pageInfo s pg))\<rparr>"

definition offset_of :: "'f nv \<Rightarrow> nat \<Rightarrow> nat" where
  "offset_of s pg = pi_offset (pageInfo s pg)"

definition NVOCMP_ADDPAGE :: "'f nv \<Rightarrow> nat \<Rightarrow> nat \<Rightarrow> nat" where
  "NVOCMP_ADDPAGE s p n = (p + n) mod nvSize s"

definition NVOCMP_INCPAGE :: "'f nv \<Rightarrow> nat \<Rightarrow> nat" where
  "NVOCMP_INCPAGE s p = NVOCMP_ADDPAGE s p 1"

definition NVOCMP_DECPAGE :: "'f nv \<Rightarrow> nat \<Rightarrow> nat" where
  "NVOCMP_DECPAGE s p = NVOCMP_ADDPAGE s p (nvSize s - 1)"

definition NVOCMP_FLASHOFFSET :: "nat \<Rightarrow> nat \<Rightarrow> nat" where
  "NVOCMP_FLASHOFFSET pg ofs = push_bit 11 pg + ofs"

definition NVOCMP_CMPRID :: "nat \<Rightarrow> nat \<Rightarrow> nat \<Rightarrow> nat" where
  "NVOCMP_CMPRID s i b =
    push_bit 12 (push_bit 12 (s AND NVOCMP_MAXSYSID) OR (i AND NVOCMP_MAXITEMID)) OR
    (b AND NVOCMP_MAXSUBID)"

subsection \<open>Flash access\<close>

definition NVOCMP_FLASHACCESS :: "'f nvs_env \<Rightarrow> 'f nv \<Rightarrow> byte \<times> 'f nv" where
  "NVOCMP_FLASHACCESS E s =
    (case voltCheckFptr s of
       None \<Rightarrow> (NVINTF_SUCCESS E, s)
     | Some vc \<Rightarrow>
         (if \<not> vc (vcalls s) then NVINTF_LOWPOWER E else NVINTF_SUCCESS E,
          s\<lparr>vcalls := Suc (vcalls s)\<rparr>))"

definition NVOCMP_setCheckVoltage :: "(nat \<Rightarrow> bool) option \<Rightarrow> 'f nv \<Rightarrow> 'f nv" where
  "NVOCMP_setCheckVoltage funcPtr s = s\<lparr>voltCheckFptr := funcPtr\<rparr>"

definition NVOCMP_read :: "'f nvs_env \<Rightarrow> 'f nv \<Rightarrow> nat \<Rightarrow> nat \<Rightarrow> nat \<Rightarrow> byte list" where
  "NVOCMP_read E s pg off n = NVS_read E (flash s) (NVOCMP_FLASHOFFSET pg off) n"

definition NVOCMP_write :: "'f nvs_env \<Rightarrow> nat \<Rightarrow> nat \<Rightarrow> byte list \<Rightarrow> 'f nv \<Rightarrow> byte \<times> 'f nv" where
  "NVOCMP_write E dstPg off pBuf s =
    (case NVOCMP_FLASHACCESS E s of (err, s) \<Rightarrow>
       if err = NVINTF_SUCCESS E then
         (case NVS_write E (flash s) (NVOCMP_FLASHOFFSET dstPg off) pBuf of (nvsRes, f) \<Rightarrow>
            (if nvsRes < 0 then NVINTF_FAILURE E else err, s\<lparr>flash := f\<rparr>))
       else (NVINTF_LOWPOWER E, s))"

definition NVOCMP_readByte :: "'f nvs_env \<Rightarrow> 'f nv \<Rightarrow> nat \<Rightarrow> nat \<Rightarrow> byte" where
  "NVOCMP_readByte E s pg ofs = NVOCMP_read E s pg ofs 1 ! 0"

definition NVOCMP_writeByte :: "'f nvs_env \<Rightarrow> nat \<Rightarrow> nat \<Rightarrow> byte \<Rightarrow> 'f nv \<Rightarrow> 'f nv" where
  "NVOCMP_writeByte E pg ofs bwv s =
    (case NVOCMP_write E pg ofs [bwv] s of (err, s) \<Rightarrow> s\<lparr>failW := err\<rparr>)"

subsection \<open>A concrete environment: NOR Flash with verified writes\<close>

text \<open>
  The memory is a function from addresses to bytes. Programming can only clear bits; a write
  whose data needs a bit set reports an error, as the verification after the write does. The CRC
  is the bitwise CRC-8 with polynomial \<open>0x07\<close>, one byte at a time.
\<close>

definition nor_program :: "(nat \<Rightarrow> byte) \<Rightarrow> nat \<Rightarrow> byte list \<Rightarrow> nat \<Rightarrow> byte" where
  "nor_program f a bs x = (if a \<le> x \<and> x < a + length bs then f x AND bs ! (x - a) else f x)"

definition nor_write :: "(nat \<Rightarrow> byte) \<Rightarrow> nat \<Rightarrow> byte list \<Rightarrow> int \<times> (nat \<Rightarrow> byte)" where
  "nor_write f a bs =
    (let f' = nor_program f a bs
     in (if list_all (\<lambda>i. f' (a + i) = bs ! i) [0..<length bs] then 0 else - 1, f'))"

definition nor_erase :: "(nat \<Rightarrow> byte) \<Rightarrow> nat \<Rightarrow> nat \<Rightarrow> int \<times> (nat \<Rightarrow> byte)" where
  "nor_erase f a n = (0, \<lambda>x. if a \<le> x \<and> x < a + n then NVOCMP_ERASEDBYTE else f x)"

definition crc8_bit :: "byte \<Rightarrow> byte" where
  "crc8_bit c = (if bit c 7 then push_bit 1 c XOR 0x07 else push_bit 1 c)"

definition crc8_byte :: "byte \<Rightarrow> byte \<Rightarrow> byte" where
  "crc8_byte c b = (crc8_bit ^^ 8) (c XOR b)"

definition nor_env :: "(nat \<Rightarrow> byte) nvs_env" where
  "nor_env =
    \<lparr>NVS_read = (\<lambda>f a n. map f [a..<a + n]), NVS_write = nor_write, NVS_erase = nor_erase,
     crc_update = (\<lambda>c bs. foldl crc8_byte c bs),
     sectorSize = 2048, regionSize = 24576, handle_null = False, mutex_ok = True,
     NVINTF_SUCCESS = 0, NVINTF_FAILURE = 1, NVINTF_CORRUPT = 2, NVINTF_NOTREADY = 3,
     NVINTF_BADPARAM = 4, NVINTF_BADLENGTH = 5, NVINTF_BADOFFSET = 6, NVINTF_BADITEMID = 7,
     NVINTF_BADSUBID = 8, NVINTF_BADSYSID = 9, NVINTF_NOTFOUND = 10, NVINTF_LOWPOWER = 11,
     NVINTF_BADVERSION = 12, NVINTF_EXIST = 13,
     NVINTF_DOSTART = 0x01, NVINTF_DOSYSID = 0x02, NVINTF_DOITMID = 0x04, NVINTF_DOANYID = 0x08,
     NVINTF_DOFIND = 0x10, NVINTF_DOREAD = 0x20, NVINTF_DODELETE = 0x40, NVINTF_SYSID_NVDRVR = 1\<rparr>"

subsection \<open>What the driver relies on\<close>

text \<open>The byte a device holds at an address, and the byte at an offset of a page.\<close>

definition nvs_byte :: "'f nvs_env \<Rightarrow> 'f \<Rightarrow> nat \<Rightarrow> byte" where
  "nvs_byte E f a = NVS_read E f a 1 ! 0"

definition fbyte :: "'f nvs_env \<Rightarrow> 'f nv \<Rightarrow> nat \<Rightarrow> nat \<Rightarrow> byte" where
  "fbyte E s pg ofs = nvs_byte E (flash s) (NVOCMP_FLASHOFFSET pg ofs)"

definition fbytes :: "'f nvs_env \<Rightarrow> 'f nv \<Rightarrow> nat \<Rightarrow> nat \<Rightarrow> nat \<Rightarrow> byte list" where
  "fbytes E s pg a b = map (fbyte E s pg) [a..<b]"

text \<open>
  The NVS interface: a read returns the bytes stored; a write requested with
  \<^verbatim>\<open>NVS_WRITE_POST_VERIFY\<close> that reports no error has stored its data; an erase that reports no
  error has set the sector to \<open>0xFF\<close>; neither changes memory outside its range.
\<close>

locale nvs_device =
  fixes E :: "'f nvs_env"
  assumes NVS_read_bytes: "NVS_read E f a n = map (nvs_byte E f) [a..<a + n]"
    and NVS_write_verified:
      "NVS_write E f a bs = (r, f') \<Longrightarrow> 0 \<le> r \<Longrightarrow> i < length bs \<Longrightarrow> nvs_byte E f' (a + i) = bs ! i"
    and NVS_write_frame:
      "NVS_write E f a bs = (r, f') \<Longrightarrow> x < a \<or> a + length bs \<le> x \<Longrightarrow>
       nvs_byte E f' x = nvs_byte E f x"
    and NVS_erase_done:
      "NVS_erase E f a n = (r, f') \<Longrightarrow> 0 \<le> r \<Longrightarrow> a \<le> x \<Longrightarrow> x < a + n \<Longrightarrow> nvs_byte E f' x = 0xFF"
    and NVS_erase_frame:
      "NVS_erase E f a n = (r, f') \<Longrightarrow> x < a \<or> a + n \<le> x \<Longrightarrow> nvs_byte E f' x = nvs_byte E f x"

text \<open>\<^verbatim>\<open>crc_update\<close> is incremental.\<close>

locale crc_incremental =
  fixes E :: "'f nvs_env"
  assumes crc_update_Nil: "crc_update E c [] = c"
    and crc_update_append: "crc_update E c (xs @ ys) = crc_update E (crc_update E c xs) ys"

text \<open>Status codes: success is zero, as \<^verbatim>\<open>if (err)\<close> needs, and the codes are distinct.\<close>

locale nvintf_codes =
  fixes E :: "'f nvs_env"
  assumes SUCCESS_zero: "NVINTF_SUCCESS E = 0"
    and codes_distinct:
      "distinct [NVINTF_SUCCESS E, NVINTF_FAILURE E, NVINTF_CORRUPT E, NVINTF_NOTREADY E,
         NVINTF_BADPARAM E, NVINTF_BADLENGTH E, NVINTF_BADOFFSET E, NVINTF_BADITEMID E,
         NVINTF_BADSUBID E, NVINTF_BADSYSID E, NVINTF_NOTFOUND E, NVINTF_LOWPOWER E,
         NVINTF_BADVERSION E, NVINTF_EXIST E]"

locale nvs = nvs_device E + crc_incremental E + nvintf_codes E for E :: "'f nvs_env"

lemma nvs_byte_nor [simp]: "nvs_byte nor_env f a = f a"
  by (simp add: nvs_byte_def nor_env_def)

lemma nor_write_ok:
  assumes "NVS_write nor_env f a bs = (r, f')" and "0 \<le> r" and "i < length bs"
  shows "f' (a + i) = bs ! i"
  using assms by (auto simp: nor_env_def nor_write_def Let_def list_all_iff split: if_splits)

interpretation nor: nvs nor_env
proof unfold_locales
  fix f f' :: "nat \<Rightarrow> byte" and a n x i :: nat and bs xs ys :: "byte list" and r :: int and c :: byte
  show "NVS_read nor_env f a n = map (nvs_byte nor_env f) [a..<a + n]"
    by (simp add: nor_env_def cong: map_cong) (simp add: nor_env_def nvs_byte_def)
  show "NVS_write nor_env f a bs = (r, f') \<Longrightarrow> 0 \<le> r \<Longrightarrow> i < length bs \<Longrightarrow>
      nvs_byte nor_env f' (a + i) = bs ! i"
    using nor_write_ok by simp
  show "NVS_write nor_env f a bs = (r, f') \<Longrightarrow> x < a \<or> a + length bs \<le> x \<Longrightarrow>
      nvs_byte nor_env f' x = nvs_byte nor_env f x"
    by (auto simp: nor_env_def nor_write_def nor_program_def nvs_byte_def Let_def)
  show "NVS_erase nor_env f a n = (r, f') \<Longrightarrow> 0 \<le> r \<Longrightarrow> a \<le> x \<Longrightarrow> x < a + n \<Longrightarrow>
      nvs_byte nor_env f' x = 0xFF"
    by (auto simp: nor_env_def nor_erase_def nvs_byte_def)
  show "NVS_erase nor_env f a n = (r, f') \<Longrightarrow> x < a \<or> a + n \<le> x \<Longrightarrow>
      nvs_byte nor_env f' x = nvs_byte nor_env f x"
    by (auto simp: nor_env_def nor_erase_def nvs_byte_def)
  show "crc_update nor_env c [] = c"
    by (simp add: nor_env_def)
  show "crc_update nor_env c (xs @ ys) = crc_update nor_env (crc_update nor_env c xs) ys"
    by (simp add: nor_env_def)
qed (simp_all add: nor_env_def)

subsection \<open>Reading and writing pages\<close>

lemma FLASHOFFSET_eq: "NVOCMP_FLASHOFFSET pg ofs = 2048 * pg + ofs"
  by (simp add: NVOCMP_FLASHOFFSET_def push_bit_nat_def)

lemma length_fbytes [simp]: "length (fbytes E s pg a b) = b - a"
  by (simp add: fbytes_def)

lemma nth_fbytes [simp]: "i < b - a \<Longrightarrow> fbytes E s pg a b ! i = fbyte E s pg (a + i)"
  by (simp add: fbytes_def)

lemma fbytes_append: "a \<le> b \<Longrightarrow> b \<le> c \<Longrightarrow> fbytes E s pg a b @ fbytes E s pg b c = fbytes E s pg a c"
  by (simp add: fbytes_def upt_append_split [of a b c])

lemma take_fbytes: "a + k \<le> b \<Longrightarrow> take k (fbytes E s pg a b) = fbytes E s pg a (a + k)"
  by (simp add: fbytes_def take_map)

lemma drop_fbytes: "drop k (fbytes E s pg a b) = fbytes E s pg (a + k) b"
  by (simp add: fbytes_def drop_map)

lemma fbytes_cong:
  "(\<And>x. a \<le> x \<Longrightarrow> x < b \<Longrightarrow> fbyte E s' pg x = fbyte E s pg x) \<Longrightarrow>
   fbytes E s' pg a b = fbytes E s pg a b"
  by (simp add: fbytes_def)

lemma fbyte_flash_cong: "flash s' = flash s \<Longrightarrow> fbyte E s' pg x = fbyte E s pg x"
  by (simp add: fbyte_def)

lemma fbytes_flash_cong: "flash s' = flash s \<Longrightarrow> fbytes E s' pg a b = fbytes E s pg a b"
  by (simp add: fbytes_def fbyte_def)

lemma FLASHACCESS_state:
  "NVOCMP_FLASHACCESS E s = (err, s') \<Longrightarrow> \<exists>v. s' = s\<lparr>vcalls := v\<rparr>"
  by (auto simp: NVOCMP_FLASHACCESS_def split: option.splits if_splits)
     (metis nv.surjective nv.update_convs(13))

text \<open>A write changes the device and the number of voltage checks, nothing else.\<close>

lemma write_state:
  assumes "NVOCMP_write E pg off bs s = (err, s')"
  shows "\<exists>f v. s' = s\<lparr>flash := f, vcalls := v\<rparr>"
proof -
  obtain e s1 where a: "NVOCMP_FLASHACCESS E s = (e, s1)" by (cases "NVOCMP_FLASHACCESS E s")
  then obtain v where s1: "s1 = s\<lparr>vcalls := v\<rparr>" using FLASHACCESS_state by blast
  show ?thesis
    using assms a s1 by (auto simp: NVOCMP_write_def split: prod.splits if_splits)
       (metis nv.surjective nv.update_convs(1,13))+
qed

context nvs
begin

lemma code_neq [simp]:
  "NVINTF_FAILURE E \<noteq> NVINTF_SUCCESS E" "NVINTF_LOWPOWER E \<noteq> NVINTF_SUCCESS E"
  "NVINTF_CORRUPT E \<noteq> NVINTF_SUCCESS E" "NVINTF_NOTFOUND E \<noteq> NVINTF_SUCCESS E"
  "NVINTF_BADPARAM E \<noteq> NVINTF_SUCCESS E" "NVINTF_BADLENGTH E \<noteq> NVINTF_SUCCESS E"
  "NVINTF_BADOFFSET E \<noteq> NVINTF_SUCCESS E" "NVINTF_EXIST E \<noteq> NVINTF_SUCCESS E"
  "NVINTF_NOTFOUND E \<noteq> NVINTF_EXIST E" "NVINTF_FAILURE E \<noteq> NVINTF_EXIST E"
  "NVINTF_NOTREADY E \<noteq> NVINTF_SUCCESS E" "NVINTF_BADSYSID E \<noteq> NVINTF_SUCCESS E"
  "NVINTF_BADITEMID E \<noteq> NVINTF_SUCCESS E" "NVINTF_BADSUBID E \<noteq> NVINTF_SUCCESS E"
  using codes_distinct by auto

lemma read_eq: "NVOCMP_read E s pg off n = fbytes E s pg off (off + n)"
  by (rule nth_equalityI)
     (simp_all add: NVOCMP_read_def NVS_read_bytes fbytes_def fbyte_def FLASHOFFSET_eq add.assoc)

lemma readByte_eq: "NVOCMP_readByte E s pg ofs = fbyte E s pg ofs"
  by (simp add: NVOCMP_readByte_def read_eq)

lemma write_success:
  assumes "NVOCMP_write E pg off bs s = (err, s')" and "err = NVINTF_SUCCESS E" and "i < length bs"
  shows "fbyte E s' pg (off + i) = bs ! i"
  using assms NVS_write_verified [of _ "2048 * pg + off" bs _ _ i]
  by (auto simp: NVOCMP_write_def fbyte_def FLASHOFFSET_eq add.assoc split: prod.splits if_splits)

lemma write_frame:
  assumes w: "NVOCMP_write E pg off bs s = (err, s')"
    and x: "(p = pg \<and> (x < off \<or> off + length bs \<le> x)) \<or>
            (p \<noteq> pg \<and> x < 2048 \<and> off + length bs \<le> 2048)"
  shows "fbyte E s' p x = fbyte E s p x"
proof -
  obtain e s1 where a: "NVOCMP_FLASHACCESS E s = (e, s1)" by (cases "NVOCMP_FLASHACCESS E s")
  then have fl: "flash s1 = flash s" using FLASHACCESS_state by fastforce
  have out: "2048 * p + x < 2048 * pg + off \<or> 2048 * pg + off + length bs \<le> 2048 * p + x"
  proof (cases "p = pg")
    case False
    then have "p < pg \<or> pg < p" by auto
    then show ?thesis using x False by auto
  qed (use x in auto)
  show ?thesis
    using w a fl NVS_write_frame [OF _ out]
    by (auto simp: NVOCMP_write_def fbyte_def FLASHOFFSET_eq split: prod.splits if_splits)
qed

lemma write_fbytes:
  assumes "NVOCMP_write E pg off bs s = (err, s')" and "err = NVINTF_SUCCESS E"
  shows "fbytes E s' pg off (off + length bs) = bs"
  by (rule nth_equalityI) (simp_all add: write_success [OF assms])

end

subsection \<open>A healthy device\<close>

text \<open>
  The laws of a device that does not fail: inside the region, a write that only clears bits and an
  erase succeed. The sector is the page size the driver is built for.
\<close>

locale nor_flash = nvs E for E :: "'f nvs_env" +
  assumes NVS_write_clears:
      "a + length bs \<le> regionSize E \<Longrightarrow> (\<And>i. i < length bs \<Longrightarrow> nvs_byte E f (a + i) AND bs ! i = bs ! i) \<Longrightarrow>
       0 \<le> fst (NVS_write E f a bs)"
    and NVS_erase_ok: "a + n \<le> regionSize E \<Longrightarrow> 0 \<le> fst (NVS_erase E f a n)"
    and sector_size: "sectorSize E = 2048"

interpretation norf: nor_flash nor_env
  by unfold_locales (auto simp: nor_env_def nor_write_def nor_program_def nvs_byte_def Let_def list_all_iff nor_erase_def)

definition volt_ok :: "'f nv \<Rightarrow> bool" where
  "volt_ok s \<longleftrightarrow> (case voltCheckFptr s of None \<Rightarrow> True | Some vc \<Rightarrow> \<forall>k. vc k)"

text \<open>A state that differs from another by bytes programmed into a page, and by nothing the driver keeps in RAM.\<close>

definition programmed :: "'f nvs_env \<Rightarrow> nat \<Rightarrow> nat \<Rightarrow> byte list \<Rightarrow> 'f nv \<Rightarrow> 'f nv \<Rightarrow> bool" where
  "programmed E pg off bs s s' \<longleftrightarrow> (\<exists>f v. s' = s\<lparr>flash := f, vcalls := v\<rparr>) \<and>
     (\<forall>i<length bs. fbyte E s' pg (off + i) = bs ! i) \<and>
     (\<forall>p x. (p = pg \<and> (x < off \<or> off + length bs \<le> x)) \<or> (p \<noteq> pg \<and> x < 2048) \<longrightarrow>
        fbyte E s' p x = fbyte E s p x)"

lemma volt_ok_FLASHACCESS:
  "volt_ok s \<Longrightarrow> \<exists>v. NVOCMP_FLASHACCESS E s = (NVINTF_SUCCESS E, s\<lparr>vcalls := v\<rparr>)"
  by (cases "voltCheckFptr s")
     (auto simp: volt_ok_def NVOCMP_FLASHACCESS_def intro: exI [of _ "vcalls s"])

context nor_flash
begin

lemma write_ok:
  assumes "volt_ok s" and fit: "off + length bs \<le> 2048" and page: "2048 * Suc pg \<le> regionSize E"
    and clear: "\<And>i. i < length bs \<Longrightarrow> fbyte E s pg (off + i) AND bs ! i = bs ! i"
  obtains s' where "NVOCMP_write E pg off bs s = (NVINTF_SUCCESS E, s')" and "programmed E pg off bs s s'"
proof -
  obtain v where v: "NVOCMP_FLASHACCESS E s = (NVINTF_SUCCESS E, s\<lparr>vcalls := v\<rparr>)"
    using volt_ok_FLASHACCESS [OF assms(1)] by blast
  obtain r f where w: "NVS_write E (flash s) (2048 * pg + off) bs = (r, f)"
    by (cases "NVS_write E (flash s) (2048 * pg + off) bs")
  have "0 \<le> fst (NVS_write E (flash s) (2048 * pg + off) bs)"
    by (rule NVS_write_clears) (use fit page clear in \<open>auto simp: fbyte_def FLASHOFFSET_eq add.assoc\<close>)
  then have r: "0 \<le> r" by (simp add: w)
  have eq: "NVOCMP_write E pg off bs s = (NVINTF_SUCCESS E, s\<lparr>vcalls := v, flash := f\<rparr>)"
    using v w r by (simp add: NVOCMP_write_def FLASHOFFSET_eq)
  show thesis
  proof (rule that [OF eq])
    show "programmed E pg off bs s (s\<lparr>vcalls := v, flash := f\<rparr>)"
      unfolding programmed_def
    proof (intro conjI allI impI)
      show "\<exists>fa va. s\<lparr>vcalls := v, flash := f\<rparr> = s\<lparr>flash := fa, vcalls := va\<rparr>"
        by (intro exI [of _ f] exI [of _ v]) simp
    qed (use write_success [OF eq refl] write_frame [OF eq] fit in auto)
  qed
qed

lemma programmed_fbytes:
  "programmed E pg off bs s s' \<Longrightarrow> fbytes E s' pg off (off + length bs) = bs"
  by (rule nth_equalityI) (auto simp: programmed_def)

lemma programmed_frame:
  "programmed E pg off bs s s' \<Longrightarrow> (p = pg \<and> (x < off \<or> off + length bs \<le> x)) \<or> (p \<noteq> pg \<and> x < 2048) \<Longrightarrow>
   fbyte E s' p x = fbyte E s p x"
  unfolding programmed_def by blast

lemma writeByte_ok:
  assumes "volt_ok s" and "ofs < 2048" and "2048 * Suc pg \<le> regionSize E"
    and "fbyte E s pg ofs AND b = b"
  obtains s' where "NVOCMP_writeByte E pg ofs b s = s'\<lparr>failW := NVINTF_SUCCESS E\<rparr>"
    and "programmed E pg ofs [b] s s'"
proof -
  have "ofs + length [b] \<le> 2048" using assms(2) by simp
  from write_ok [OF assms(1) this assms(3)] assms(4) obtain s'
    where "NVOCMP_write E pg ofs [b] s = (NVINTF_SUCCESS E, s')" and "programmed E pg ofs [b] s s'"
    by auto
  then show thesis using that by (simp add: NVOCMP_writeByte_def)
qed

end

end
