(* ===== verification/NvItem.thy ===== *)
theory NvItem
  imports Nvs
begin

text \<open>
  Items of the NV driver: the compressed seven byte header that follows the data of an item, its
  CRC, and reading an item (\<^verbatim>\<open>NVOCMP_readHeader\<close>, \<^verbatim>\<open>NVOCMP_doNVCRC\<close>, \<^verbatim>\<open>NVOCMP_doRAMCRC\<close>,
  \<^verbatim>\<open>NVOCMP_verifyCRC\<close>, \<^verbatim>\<open>NVOCMP_readItem\<close>, and the part of \<^verbatim>\<open>NVOCMP_writeItem\<close> that builds a header).
  The lemmas relate the bytes on Flash to an abstract item.
\<close>

subsection \<open>Operations\<close>

text \<open>\<^verbatim>\<open>cHdr[0]\<close> to \<^verbatim>\<open>cHdr[4]\<close> as \<^verbatim>\<open>NVOCMP_writeItem\<close> builds them, before the CRC is inserted.\<close>

definition cmpIH :: "NVOCMP_itemHdr_t \<Rightarrow> byte list" where
  "cmpIH h =
    [of_nat (push_bit 2 (sysid h) OR (drop_bit 8 (itemid h) AND 0x3)),
     of_nat (itemid h AND 0xFF),
     of_nat (drop_bit 2 (subid h) AND 0xFF),
     of_nat (push_bit 6 (subid h AND 0x3) OR (drop_bit 6 (len h) AND 0x3F)),
     of_nat (push_bit 2 (len h AND 0x3F))]"

text \<open>The whole header: CRC, active mark (the valid mark is zero) and signature.\<close>

definition cmpIH_crc :: "byte list \<Rightarrow> byte \<Rightarrow> byte list" where
  "cmpIH_crc cHdr newCRC =
    [cHdr ! 0, cHdr ! 1, cHdr ! 2, cHdr ! 3, cHdr ! 4 OR (drop_bit 6 newCRC AND 0x3),
     push_bit 2 (newCRC AND 0x3F) OR NVOCMP_ACTIVEIDBIT, NVOCMP_SIGNATURE]"

definition expandHdr :: "nat \<Rightarrow> nat \<Rightarrow> byte list \<Rightarrow> NVOCMP_itemHdr_t" where
  "expandHdr pg ofs cHdr =
    (let sysid = unat (drop_bit 2 (cHdr ! 0) AND 0x3F);
         itemid = push_bit 8 (unat (cHdr ! 0 AND 0x3)) OR unat (cHdr ! 1);
         subid = push_bit 2 (unat (cHdr ! 2)) OR unat (drop_bit 6 (cHdr ! 3) AND 0x3);
         len = push_bit 6 (unat (cHdr ! 3 AND 0x3F)) OR unat (drop_bit 2 (cHdr ! 4) AND 0x3F);
         crc8 = push_bit 6 (cHdr ! 4 AND 0x3) OR (drop_bit 2 (cHdr ! 5) AND 0x3F);
         stats = cHdr ! 5 AND (NVOCMP_VALIDIDBIT OR NVOCMP_ACTIVEIDBIT);
         sig = cHdr ! 6
     in \<lparr>cmpid = NVOCMP_CMPRID sysid itemid subid, subid = subid, itemid = itemid, sysid = sysid,
         crc8 = crc8, sig = sig,
         stats = (if sig \<noteq> NVOCMP_SIGNATURE then stats OR NVOCMP_VALIDIDBIT
                  else stats OR NVOCMP_FOLLOWBIT),
         hofs = ofs, len = len, hpage = pg\<rparr>)"

definition NVOCMP_readHeader :: "'f nvs_env \<Rightarrow> 'f nv \<Rightarrow> nat \<Rightarrow> nat \<Rightarrow> NVOCMP_itemHdr_t" where
  "NVOCMP_readHeader E s pg ofs = expandHdr pg ofs (NVOCMP_read E s pg ofs NVOCMP_ITEMHDRLEN)"

definition NVOCMP_doRAMCRC :: "'f nvs_env \<Rightarrow> byte list \<Rightarrow> byte \<Rightarrow> byte" where
  "NVOCMP_doRAMCRC E input crc = crc_update E crc input"

fun NVOCMP_doNVCRC :: "'f nvs_env \<Rightarrow> 'f nv \<Rightarrow> nat \<Rightarrow> nat \<Rightarrow> nat \<Rightarrow> byte \<Rightarrow> byte" where
  "NVOCMP_doNVCRC E s pg ofs n crc =
    (if 0 < n then
       (let rdLen = (if n < NVOCMP_XFERBLKMAX then n else NVOCMP_XFERBLKMAX)
        in NVOCMP_doNVCRC E s pg (u16 (ofs + rdLen)) (n - rdLen)
             (crc_update E crc (NVOCMP_read E s pg ofs rdLen)))
     else crc)"

declare NVOCMP_doNVCRC.simps [simp del]

definition NVOCMP_verifyCRC :: "'f nvs_env \<Rightarrow> 'f nv \<Rightarrow> nat \<Rightarrow> nat \<Rightarrow> byte \<Rightarrow> nat \<Rightarrow> byte" where
  "NVOCMP_verifyCRC E s iOfs n crc pg =
    (let crcLen = u16 (n + NVOCMP_HDRCRCINC - 1);
         finalByte = of_nat (push_bit 2 (n AND 0x3F));
         newCRC = NVOCMP_doNVCRC E s pg iOfs crcLen 0;
         newCRC = NVOCMP_doRAMCRC E [finalByte] newCRC
     in if newCRC = crc then NVINTF_SUCCESS E else NVINTF_CORRUPT E)"

text \<open>
  The result is the status and the bytes copied to the caller's buffer (none on an error). The
  offsets are \<open>uint16_t\<close> in the source: \<open>iOfs\<close> and \<open>dOfs\<close> wrap around.
\<close>

definition NVOCMP_readItem ::
  "'f nvs_env \<Rightarrow> 'f nv \<Rightarrow> NVOCMP_itemHdr_t \<Rightarrow> nat \<Rightarrow> nat \<Rightarrow> byte \<times> byte list" where
  "NVOCMP_readItem E s iHdr ofs n =
    (let iOfs = sub16 (hofs iHdr) (len iHdr);
         err = NVOCMP_verifyCRC E s iOfs (len iHdr) (crc8 iHdr) (hpage iHdr)
     in if err = NVINTF_SUCCESS E then
          (let dOfs = u16 (iOfs + ofs)
           in if dOfs + n \<le> hofs iHdr then (err, NVOCMP_read E s (hpage iHdr) dOfs n)
              else (if len iHdr < n then NVINTF_BADLENGTH E else NVINTF_BADOFFSET E, []))
        else (err, []))"

subsection \<open>Abstract items\<close>

record nv_item =
  it_sysid :: nat
  it_itemid :: nat
  it_subid :: nat
  it_data :: "byte list"
  it_active :: bool

type_synonym nv_id = "nat \<times> nat \<times> nat"

definition it_id :: "nv_item \<Rightarrow> nv_id" where
  "it_id it = (it_sysid it, it_itemid it, it_subid it)"

definition item_ok :: "nv_item \<Rightarrow> bool" where
  "item_ok it \<longleftrightarrow> it_sysid it < 64 \<and> it_itemid it < 1024 \<and> it_subid it < 1024 \<and>
     0 < length (it_data it) \<and> length (it_data it) < 4096"

definition item_hdr :: "nv_item \<Rightarrow> NVOCMP_itemHdr_t" where
  "item_hdr it =
    \<lparr>cmpid = 0, subid = it_subid it, itemid = it_itemid it, sysid = it_sysid it, crc8 = 0, sig = 0,
     stats = 0, hofs = 0, len = length (it_data it), hpage = 0\<rparr>"

definition item_crc :: "'f nvs_env \<Rightarrow> nv_item \<Rightarrow> byte" where
  "item_crc E it = crc_update E 0 (it_data it @ cmpIH (item_hdr it))"

definition enc_hdr :: "'f nvs_env \<Rightarrow> nv_item \<Rightarrow> byte list" where
  "enc_hdr E it =
    (let c = cmpIH_crc (cmpIH (item_hdr it)) (item_crc E it)
     in if it_active it then c else c[5 := c ! 5 AND NOT NVOCMP_ACTIVEIDBIT])"

definition enc_item :: "'f nvs_env \<Rightarrow> nv_item \<Rightarrow> byte list" where
  "enc_item E it = it_data it @ enc_hdr E it"

definition item_size :: "nv_item \<Rightarrow> nat" where
  "item_size it = length (it_data it) + NVOCMP_ITEMHDRLEN"

text \<open>The expanded header of an item stored with its header at \<open>ofs\<close> of page \<open>pg\<close>.\<close>

definition stored_hdr :: "'f nvs_env \<Rightarrow> nat \<Rightarrow> nat \<Rightarrow> nv_item \<Rightarrow> NVOCMP_itemHdr_t" where
  "stored_hdr E pg ofs it =
    \<lparr>cmpid = NVOCMP_CMPRID (it_sysid it) (it_itemid it) (it_subid it), subid = it_subid it,
     itemid = it_itemid it, sysid = it_sysid it, crc8 = item_crc E it, sig = NVOCMP_SIGNATURE,
     stats = (if it_active it then 0x6 else 0x4), hofs = ofs, len = length (it_data it), hpage = pg\<rparr>"

text \<open>An item is stored at \<open>ofs\<close> of a page when the bytes there are its encoding.\<close>

definition item_at :: "'f nvs_env \<Rightarrow> 'f nv \<Rightarrow> nat \<Rightarrow> nat \<Rightarrow> nv_item \<Rightarrow> bool" where
  "item_at E s pg ofs it \<longleftrightarrow> item_ok it \<and> fbytes E s pg ofs (ofs + item_size it) = enc_item E it"

subsection \<open>The header codec\<close>

lemmas field_bound =
  bit_nat_less [of _ _ 6, simplified] bit_nat_less [of _ _ 10, simplified]
  bit_nat_less [of _ _ 12, simplified]

lemma Suc_Suc_minus_2: "\<not> n < 2 \<Longrightarrow> Suc (Suc (n - 2)) = n"
  by auto

lemma bit_3_int: "bit (3::int) n \<longleftrightarrow> n < 2"
proof -
  have "(3::int) = mask 2" by (simp add: mask_eq_exp_minus_1)
  then show ?thesis by (simp only: bit_mask_iff) simp
qed

lemma dec_sysid:
  "s < 64 \<Longrightarrow> unat (drop_bit 2 (of_nat (push_bit 2 s OR (drop_bit 8 i AND 0x3)) :: byte) AND 0x3F) = s"
  unfolding nat_masks byte_masks by (rule bit_eqI) (auto simp: bit_simps dest: field_bound)

lemma dec_itemid:
  "i < 1024 \<Longrightarrow>
    push_bit 8 (unat ((of_nat (push_bit 2 s OR (drop_bit 8 i AND 0x3)) :: byte) AND 0x3)) OR
      unat (of_nat (i AND 0xFF) :: byte) = i"
  unfolding nat_masks byte_masks by (rule bit_eqI) (auto simp: bit_simps dest: field_bound)

lemma dec_subid:
  assumes "b < 1024"
  shows "push_bit 2 (unat (of_nat (drop_bit 2 b AND 0xFF) :: byte)) OR
    unat (drop_bit 6 (of_nat (push_bit 6 (b AND 0x3) OR (drop_bit 6 l AND 0x3F)) :: byte) AND 0x3) = b"
  unfolding nat_masks byte_masks
proof (rule bit_eqI)
  fix n
  show "bit (push_bit 2 (unat (of_nat (drop_bit 2 b AND mask 8) :: byte)) OR
      unat (drop_bit 6 (of_nat (push_bit 6 (b AND mask 2) OR (drop_bit 6 l AND mask 6)) :: byte)
        AND mask 2)) n \<longleftrightarrow> bit b n"
    using assms by (cases "n < 2") (auto simp: bit_simps Suc_Suc_minus_2 dest: field_bound)
qed

lemma dec_len:
  "l < 4096 \<Longrightarrow>
    push_bit 6 (unat ((of_nat (push_bit 6 (b AND 0x3) OR (drop_bit 6 l AND 0x3F)) :: byte) AND 0x3F)) OR
      unat (drop_bit 2 ((of_nat (push_bit 2 (l AND 0x3F)) :: byte) OR (drop_bit 6 c AND 0x3)) AND 0x3F) = l"
  unfolding nat_masks byte_masks by (rule bit_eqI) (auto simp: bit_simps dest: field_bound)

lemma dec_crc:
  "push_bit 6 (((of_nat (push_bit 2 (l AND 0x3F)) :: byte) OR (drop_bit 6 c AND 0x3)) AND 0x3) OR
     (drop_bit 2 (push_bit 2 (c AND 0x3F) OR 0x2) AND 0x3F) = c"
  unfolding nat_masks byte_masks by (rule bit_eqI) (auto simp: bit_simps)

lemma not_2: "(- 3 :: byte) = NOT 0x2"
  by simp

lemma dec_stats: "(push_bit 2 (c AND 0x3F) OR 0x2) AND 0x3 = (0x2::byte)"
  by (rule bit_word_eqI) (auto simp: bit_simps bit_3_int)

lemma dec_stats_inactive: "((push_bit 2 (c AND 0x3F) OR 0x2) AND - 3) AND 0x3 = (0::byte)"
  unfolding not_2 by (rule bit_word_eqI) (auto simp: bit_simps bit_3_int)

lemma drop_inactive: "drop_bit 2 (x AND - 3) AND 0x3F = (drop_bit 2 x AND 0x3F :: byte)"
proof -
  have "drop_bit 2 (x AND NOT 0x2) = (drop_bit 2 x :: byte)"
    by (rule bit_word_eqI, unfold bit_drop_bit_eq comp_def bit_and_iff bit_not_iff)
       (auto simp: bit_imp_possible_bit bit_simps dest: bit_imp_le_length)
  then show ?thesis by (simp only: not_2)
qed

lemma length_cmpIH [simp]: "length (cmpIH h) = 5"
  by (simp add: cmpIH_def)

lemma length_cmpIH_crc [simp]: "length (cmpIH_crc c x) = 7"
  by (simp add: cmpIH_crc_def)

lemma length_enc_hdr [simp]: "length (enc_hdr E it) = 7"
  by (simp add: enc_hdr_def Let_def)

lemma length_enc_item [simp]: "length (enc_item E it) = length (it_data it) + 7"
  by (simp add: enc_item_def)

lemma expandHdr_enc:
  assumes "item_ok it"
  shows "expandHdr pg ofs (enc_hdr E it) = stored_hdr E pg ofs it"
  using assms
  by (cases "it_active it")
     (simp_all add: expandHdr_def enc_hdr_def cmpIH_crc_def cmpIH_def item_hdr_def stored_hdr_def
       item_ok_def Let_def dec_sysid dec_itemid dec_subid dec_len dec_crc dec_stats drop_inactive
       dec_stats_inactive
       del: push_bit_and push_bit_or drop_bit_and drop_bit_or push_bit_of_nat)

lemma last_enc_hdr: "enc_hdr E it ! 6 = 0x96"
  by (simp add: enc_hdr_def cmpIH_crc_def Let_def)

lemma NVOCMP_CMPRID_inj:
  assumes eq: "NVOCMP_CMPRID s i b = NVOCMP_CMPRID s' i' b'"
    and "s < 64" "s' < 64" "i < 1024" "i' < 1024" "b < 1024" "b' < 1024"
  shows "s = s' \<and> i = i' \<and> b = b'"
proof -
  have bits: "bit (NVOCMP_CMPRID x y z) n \<longleftrightarrow>
      (if n < 12 then n < 10 \<and> bit z n else if n < 24 then n < 22 \<and> bit y (n - 12)
       else n < 30 \<and> bit x (n - 24))" for x y z n
    unfolding NVOCMP_CMPRID_def NVOCMP_MAXSYSID_def NVOCMP_MAXITEMID_def NVOCMP_MAXSUBID_def nat_masks
    by (auto simp: bit_simps)
  have "bit s n \<longleftrightarrow> bit s' n" for n
    using bits [of s i b "n + 24"] bits [of s' i' b' "n + 24"] eq assms(2,3) field_bound(1)
    by fastforce
  moreover have "bit i n \<longleftrightarrow> bit i' n" for n
    using bits [of s i b "n + 12"] bits [of s' i' b' "n + 12"] eq assms(4,5) field_bound(2)
    by fastforce
  moreover have "bit b n \<longleftrightarrow> bit b' n" for n
    using bits [of s i b n] bits [of s' i' b' n] eq assms(6,7) field_bound(2)
    by fastforce
  ultimately show ?thesis by (auto intro: bit_eqI)
qed

subsection \<open>CRC and reading\<close>

context nvs
begin

lemma doNVCRC_eq:
  "ofs + n \<le> 65536 \<Longrightarrow> NVOCMP_doNVCRC E s pg ofs n crc = crc_update E crc (fbytes E s pg ofs (ofs + n))"
proof (induction n arbitrary: ofs crc rule: less_induct)
  case (less n)
  let ?r = "if n < 32 then n else 32"
  show ?case
  proof (cases "0 < n")
    case True
    then have r: "0 < ?r" "?r \<le> n" by auto
    have next_eq: "NVOCMP_doNVCRC E s pg (u16 (ofs + ?r)) (n - ?r) c =
        crc_update E c (fbytes E s pg (ofs + ?r) (ofs + n))" for c
    proof (cases "n = ?r")
      case True
      then show ?thesis
        by (simp add: NVOCMP_doNVCRC.simps [of _ _ _ _ 0] crc_update_Nil fbytes_def)
    next
      case False
      then have lt: "ofs + ?r < 65536" using r less.prems by linarith
      have "NVOCMP_doNVCRC E s pg (ofs + ?r) (n - ?r) c =
          crc_update E c (fbytes E s pg (ofs + ?r) (ofs + ?r + (n - ?r)))"
        by (rule less.IH) (use r less.prems in linarith)+
      then show ?thesis using lt r by (simp only: u16_id) simp
    qed
    have "NVOCMP_doNVCRC E s pg ofs n crc =
        NVOCMP_doNVCRC E s pg (u16 (ofs + ?r)) (n - ?r) (crc_update E crc (fbytes E s pg ofs (ofs + ?r)))"
      using True by (subst NVOCMP_doNVCRC.simps) (simp add: Let_def read_eq)
    also have "\<dots> = crc_update E crc (fbytes E s pg ofs (ofs + ?r) @ fbytes E s pg (ofs + ?r) (ofs + n))"
      by (simp only: next_eq crc_update_append)
    also have "fbytes E s pg ofs (ofs + ?r) @ fbytes E s pg (ofs + ?r) (ofs + n) = fbytes E s pg ofs (ofs + n)"
      by (rule fbytes_append) (use r in auto)
    finally show ?thesis .
  next
    case False
    then show ?thesis by (simp add: NVOCMP_doNVCRC.simps crc_update_Nil fbytes_def)
  qed
qed

text \<open>Header and CRC of a stored item.\<close>

lemma item_at_hdr_bytes:
  assumes "item_at E s pg ofs it" and "n = ofs + length (it_data it)"
  shows "fbytes E s pg n (n + 7) = enc_hdr E it"
proof -
  let ?n = "length (it_data it)"
  have "fbytes E s pg ofs (ofs + ?n) @ fbytes E s pg (ofs + ?n) (ofs + ?n + 7) = it_data it @ enc_hdr E it"
    using assms(1) by (simp add: item_at_def item_size_def enc_item_def fbytes_append add.assoc)
  then show ?thesis using assms(2) by (simp add: append_eq_append_conv)
qed

lemma item_at_data_bytes:
  assumes "item_at E s pg ofs it"
  shows "fbytes E s pg ofs (ofs + length (it_data it)) = it_data it"
proof -
  let ?n = "length (it_data it)"
  have "fbytes E s pg ofs (ofs + ?n) @ fbytes E s pg (ofs + ?n) (ofs + ?n + 7) = it_data it @ enc_hdr E it"
    using assms(1) by (simp add: item_at_def item_size_def enc_item_def fbytes_append add.assoc)
  then show ?thesis by (simp add: append_eq_append_conv)
qed

lemma readHeader_at:
  assumes "item_at E s pg ofs it" and "n = ofs + length (it_data it)"
  shows "NVOCMP_readHeader E s pg n = stored_hdr E pg n it"
  using item_at_hdr_bytes [OF assms] assms(1)
  by (simp add: NVOCMP_readHeader_def read_eq expandHdr_enc item_at_def)

lemma verifyCRC_at:
  assumes at: "item_at E s pg ofs it" and small: "ofs + item_size it \<le> 65536"
  shows "NVOCMP_verifyCRC E s ofs (length (it_data it)) (item_crc E it) pg = NVINTF_SUCCESS E"
proof -
  let ?n = "length (it_data it)"
  have hdr: "fbytes E s pg (ofs + ?n) (ofs + ?n + 7) = enc_hdr E it"
    by (rule item_at_hdr_bytes [OF at]) simp
  have four: "fbytes E s pg (ofs + ?n) (ofs + ?n + 4) = take 4 (enc_hdr E it)"
    by (simp add: hdr [symmetric] take_fbytes)
  have "fbytes E s pg ofs (ofs + (?n + 4)) = it_data it @ take 4 (enc_hdr E it)"
    using fbytes_append [of ofs "ofs + ?n" "ofs + ?n + 4" E s pg] item_at_data_bytes [OF at] four
    by (simp add: add.assoc)
  then have "NVOCMP_doNVCRC E s pg ofs (?n + 4) 0 = crc_update E 0 (it_data it @ take 4 (enc_hdr E it))"
    using small by (simp add: doNVCRC_eq item_size_def)
  moreover have "take 4 (enc_hdr E it) @ [of_nat (push_bit 2 (?n AND 0x3F))] = cmpIH (item_hdr it)"
    by (simp add: enc_hdr_def cmpIH_crc_def cmpIH_def item_hdr_def Let_def)
  ultimately show ?thesis
    using small
    by (simp add: NVOCMP_verifyCRC_def NVOCMP_doRAMCRC_def Let_def item_crc_def c_arith item_size_def add.commute
        crc_update_append [symmetric])
qed

text \<open>Reading a part of a stored item: every branch, for an offset that does not wrap around.\<close>

lemma readItem_at:
  assumes at: "item_at E s pg ofs it" and small: "ofs + item_size it \<le> 2048"
    and nowrap: "ofs + d < 65536" and h: "h = ofs + length (it_data it)"
  shows "NVOCMP_readItem E s (stored_hdr E pg h it) d n =
    (if d + n \<le> length (it_data it) then (NVINTF_SUCCESS E, take n (drop d (it_data it)))
     else (if length (it_data it) < n then NVINTF_BADLENGTH E else NVINTF_BADOFFSET E, []))"
proof -
  let ?l = "length (it_data it)"
  have io: "sub16 (ofs + ?l) ?l = ofs"
    using small by (subst sub16_le) (auto simp: item_size_def)
  have "take n (drop d (it_data it)) = fbytes E s pg (ofs + d) (ofs + d + n)" if "d + n \<le> ?l"
    using that item_at_data_bytes [OF at] by (metis add.assoc drop_fbytes nat_add_left_cancel_le take_fbytes)
  then show ?thesis
    using verifyCRC_at [OF at] small nowrap h
    by (auto simp: NVOCMP_readItem_def stored_hdr_def Let_def io u16_id read_eq)
qed

text \<open>An offset that wraps around the 16 bit sum passes the bounds check.\<close>

lemma readItem_wrap:
  assumes at: "item_at E s pg ofs it" and small: "ofs + item_size it \<le> 2048"
    and k: "0 < k" "k \<le> ofs" and n: "n \<le> k + length (it_data it)"
    and h: "h = ofs + length (it_data it)"
  shows "NVOCMP_readItem E s (stored_hdr E pg h it) (65536 - k) n =
    (NVINTF_SUCCESS E, fbytes E s pg (ofs - k) (ofs - k + n))"
proof -
  let ?l = "length (it_data it)"
  have io: "sub16 (ofs + ?l) ?l = ofs"
    using small by (subst sub16_le) (auto simp: item_size_def)
  have "ofs + (65536 - k) = (ofs - k) + 65536"
    using k small by simp
  then have "u16 (ofs + (65536 - k)) = (ofs - k) mod 65536"
    by (simp only: u16_def mod_add_self2)
  then have "u16 (ofs + (65536 - k)) = ofs - k"
    using small by simp
  then show ?thesis
    using verifyCRC_at [OF at] small n k h
    by (simp add: NVOCMP_readItem_def stored_hdr_def Let_def io read_eq)
qed

end

end
