(* ===== verification/NvPage.thy ===== *)
theory NvPage
  imports NvItem
begin

text \<open>
  Pages of the NV driver: page and compact headers, erasing a page, page states, marking an item
  inactive, finding the end of the used part of a page, searching for a signature, and scanning a
  page at start-up.
\<close>

subsection \<open>Page and compact headers\<close>

text \<open>The bit fields of \<^verbatim>\<open>NVOCMP_pageHdr_t\<close> in memory order, least significant field first.\<close>

definition pageHdr_bytes :: "NVOCMP_pageHdr_t \<Rightarrow> byte list" where
  "pageHdr_bytes h =
    [ph_state h, ph_cycle h, (ph_allActive h AND 0x3) OR push_bit 2 (ph_version h), ph_signature h]"

definition pageHdr_of :: "byte list \<Rightarrow> NVOCMP_pageHdr_t" where
  "pageHdr_of bs =
    \<lparr>ph_state = bs ! 0, ph_cycle = bs ! 1, ph_allActive = bs ! 2 AND 0x3,
     ph_version = drop_bit 2 (bs ! 2), ph_signature = bs ! 3\<rparr>"

definition NVOCMP_readPageHdr :: "'f nvs_env \<Rightarrow> 'f nv \<Rightarrow> nat \<Rightarrow> NVOCMP_pageHdr_t" where
  "NVOCMP_readPageHdr E s pg = pageHdr_of (NVOCMP_read E s pg NVOCMP_PGHDROFS NVOCMP_PGHDRLEN)"

definition NVOCMP_setCompactHdr ::
  "'f nvs_env \<Rightarrow> nat \<Rightarrow> nat \<Rightarrow> nat \<Rightarrow> nat \<Rightarrow> 'f nv \<Rightarrow> 'f nv" where
  "NVOCMP_setCompactHdr E dstPg pg offset location s =
    (case NVOCMP_write E dstPg ((location + 1) * NVOCMP_COMPACTHDRLEN)
        (le16 offset @ [of_nat pg, NVOCMP_SIGNATURE]) s of (err, s) \<Rightarrow> s\<lparr>failW := err\<rparr>)"

definition NVOCMP_getCompactHdr :: "'f nvs_env \<Rightarrow> 'f nv \<Rightarrow> nat \<Rightarrow> nat \<Rightarrow> NVOCMP_compactHdr_t" where
  "NVOCMP_getCompactHdr E s dstPg location =
    (let bs = NVOCMP_read E s dstPg ((location + 1) * NVOCMP_COMPACTHDRLEN) NVOCMP_COMPACTHDRLEN
     in \<lparr>ch_pageOffset = of_le16 bs, ch_page = unat (bs ! 2), ch_signature = bs ! 3\<rparr>)"

definition NVOCMP_setPageState :: "'f nvs_env \<Rightarrow> nat \<Rightarrow> byte \<Rightarrow> 'f nv \<Rightarrow> 'f nv" where
  "NVOCMP_setPageState E pg state s =
    (case NVOCMP_write E pg 0
        (pageHdr_bytes \<lparr>ph_state = state, ph_cycle = pi_cycle (pageInfo s pg),
           ph_allActive = NVOCMP_ALLACTIVE, ph_version = NVOCMP_VERSION,
           ph_signature = NVOCMP_SIGNATURE\<rparr>) s of
       (err, s) \<Rightarrow>
         let s = s\<lparr>failW := err\<rparr>
         in if failW s = NVINTF_SUCCESS E then
              (let s = (if state = NVOCMP_PGACT then s\<lparr>actPage := pg\<rparr> else s)
               in upd_page pg (\<lambda>p. p\<lparr>pi_state := state, pi_allActive := NVOCMP_ALLACTIVE\<rparr>) s)
            else s)"

definition NVOCMP_changePageState :: "'f nvs_env \<Rightarrow> nat \<Rightarrow> byte \<Rightarrow> 'f nv \<Rightarrow> 'f nv" where
  "NVOCMP_changePageState E pg state s =
    (let s = NVOCMP_writeByte E pg NVOCMP_PGHDROFS state s
     in if failW s = NVINTF_SUCCESS E then
          (let s = (if state = NVOCMP_PGACT then s\<lparr>actPage := pg\<rparr> else s)
           in upd_page pg (\<lambda>p. p\<lparr>pi_state := state\<rparr>) s)
        else s)"

definition next_cycle :: "byte \<Rightarrow> byte" where
  "next_cycle c = (if c < NVOCMP_MAXCYCLE then c + 1 else NVOCMP_MINCYCLE)"

definition NVOCMP_erase :: "'f nvs_env \<Rightarrow> nat \<Rightarrow> 'f nv \<Rightarrow> byte \<times> 'f nv" where
  "NVOCMP_erase E dstPg s =
    (case NVOCMP_FLASHACCESS E s of (err, s) \<Rightarrow>
       if err = NVINTF_SUCCESS E then
         (case NVS_erase E (flash s) (NVOCMP_FLASHOFFSET dstPg 0) (sectorSize E) of (nvsRes, f) \<Rightarrow>
            let s = s\<lparr>flash := f\<rparr>
            in if nvsRes < 0 then (NVINTF_FAILURE E, s)
               else
                 (let s = upd_page dstPg (\<lambda>p. p\<lparr>pi_cycle := next_cycle (pi_cycle p)\<rparr>) s;
                      s = NVOCMP_setPageState E dstPg NVOCMP_PGNACT s;
                      s = NVOCMP_setCompactHdr E dstPg NVOCMP_NULLPAGE NVOCMP_NULLOFFSET THISPAGEHDR s;
                      s = NVOCMP_setCompactHdr E dstPg NVOCMP_NULLPAGE NVOCMP_NULLOFFSET XSRCSTARTHDR s;
                      s = NVOCMP_setCompactHdr E dstPg NVOCMP_NULLPAGE NVOCMP_NULLOFFSET XSRCENDHDR s
                  in (err, upd_page dstPg
                        (\<lambda>p. p\<lparr>pi_offset := NVOCMP_PGDATAOFS, pi_mode := NVOCMP_PGNORMAL\<rparr>) s)))
       else (NVINTF_LOWPOWER E, s))"

definition NVOCMP_setItemInactive :: "'f nvs_env \<Rightarrow> nat \<Rightarrow> nat \<Rightarrow> 'f nv \<Rightarrow> 'f nv" where
  "NVOCMP_setItemInactive E pg iOfs s =
    (let tmp = NVOCMP_readByte E s pg (iOfs + NVOCMP_HDRVLDOFS) AND NOT NVOCMP_ACTIVEIDBIT;
         s = NVOCMP_writeByte E pg (iOfs + NVOCMP_HDRVLDOFS) tmp s
     in if pi_allActive (pageInfo s pg) \<noteq> 0 then
          (let tmp = NVOCMP_readByte E s pg NVOCMP_PGHDRVER AND NOT NVOCMP_ALLACTIVE;
               s = NVOCMP_writeByte E pg NVOCMP_PGHDRVER tmp s
           in upd_page pg (\<lambda>p. p\<lparr>pi_allActive := NVOCMP_SOMEINACTIVE\<rparr>) s)
        else s)"

subsection \<open>The end of the used part of a page\<close>

text \<open>
  \<^verbatim>\<open>NVOCMP_findOffset\<close> copies the page into the RAM buffer and looks at it in words of four bytes,
  from the end; a word is the list of its bytes, least significant byte first. The result of the
  word loop is the offset and the word \<^verbatim>\<open>*tmp\<close>.
\<close>

definition word_at :: "byte list \<Rightarrow> nat \<Rightarrow> byte list" where
  "word_at buf ofs = take 4 (drop ofs buf)"

fun findOffset_words :: "byte list \<Rightarrow> nat \<Rightarrow> byte list \<Rightarrow> nat \<times> byte list" where
  "findOffset_words buf ofs tmp =
    (if 4 \<le> ofs then
       (let ofs = ofs - 4; tmp = word_at buf ofs
        in if tmp \<noteq> replicate 4 NVOCMP_ERASEDBYTE then (ofs, tmp)
           else findOffset_words buf ofs tmp)
     else (ofs, tmp))"

declare findOffset_words.simps [simp del]

fun findOffset_bytes :: "nat \<Rightarrow> nat \<Rightarrow> byte list \<Rightarrow> nat" where
  "findOffset_bytes i j [] = j"
| "findOffset_bytes i j (b # tmp) =
    findOffset_bytes (Suc i) (if b \<noteq> NVOCMP_ERASEDBYTE then i else j) tmp"

definition NVOCMP_findOffset :: "'f nvs_env \<Rightarrow> 'f nv \<Rightarrow> nat \<Rightarrow> nat \<Rightarrow> nat" where
  "NVOCMP_findOffset E s pg ofs =
    (let pTBuffer = NVOCMP_read E s pg 0 FLASH_PAGE_SIZE
     in case findOffset_words pTBuffer ofs (word_at pTBuffer 0) of
          (ofs, tmp) \<Rightarrow> u16 (ofs + findOffset_bytes 1 1 tmp))"

subsection \<open>Searching for a signature\<close>

text \<open>The inner loop looks for the signature from the end of the block read.\<close>

fun findSignature_block :: "byte list \<Rightarrow> nat \<Rightarrow> nat option" where
  "findSignature_block readBuffer 0 = None"
| "findSignature_block readBuffer (Suc i) =
    (if readBuffer ! i = NVOCMP_SIGNATURE then Some (Suc i) else findSignature_block readBuffer i)"

text \<open>The result is the new value of \<^verbatim>\<open>*pSrcOff\<close>, \<open>None\<close> where the source returns false.\<close>

fun NVOCMP_findSignature :: "'f nvs_env \<Rightarrow> 'f nv \<Rightarrow> nat \<Rightarrow> nat \<Rightarrow> nat option" where
  "NVOCMP_findSignature E s pg srcOff =
    (let endOff = NVOCMP_PGDATAOFS + NVOCMP_ITEMHDRLEN - 1
     in if endOff < srcOff then
          (let rdLen = (if endOff + NVOCMP_XFERBLKMAX < srcOff then NVOCMP_XFERBLKMAX
                        else srcOff - endOff);
               srcOff' = srcOff - rdLen;
               readBuffer = NVOCMP_read E s pg srcOff' rdLen
           in case findSignature_block readBuffer rdLen of
                Some i \<Rightarrow> Some (srcOff' + i)
              | None \<Rightarrow> NVOCMP_findSignature E s pg srcOff')
        else None)"

declare NVOCMP_findSignature.simps [simp del]

subsection \<open>Finding and scanning pages\<close>

fun findPage_loop :: "'f nvs_env \<Rightarrow> 'f nv \<Rightarrow> byte \<Rightarrow> nat list \<Rightarrow> nat" where
  "findPage_loop E s state [] = NVOCMP_NULLPAGE"
| "findPage_loop E s state (pg # pgs) =
    (if ph_state (NVOCMP_readPageHdr E s pg) = state then pg else findPage_loop E s state pgs)"

definition NVOCMP_findPage :: "'f nvs_env \<Rightarrow> 'f nv \<Rightarrow> byte \<Rightarrow> nat" where
  "NVOCMP_findPage E s state = findPage_loop E s state [0..<nvSize s]"

fun findDstPage_loop :: "'f nv \<Rightarrow> nat list \<Rightarrow> nat" where
  "findDstPage_loop s [] = nvSize s"
| "findDstPage_loop s (pg # pgs) =
    (if pi_mode (pageInfo s pg) = NVOCMP_PGCDST then pg else findDstPage_loop s pgs)"

definition NVOCMP_findDstPage :: "'f nv \<Rightarrow> nat" where
  "NVOCMP_findDstPage s = findDstPage_loop s [0..<nvSize s]"

definition known_state :: "byte \<Rightarrow> bool" where
  "known_state st \<longleftrightarrow> st = NVOCMP_PGNACT \<or> st = NVOCMP_PGXDST \<or> st = NVOCMP_PGRDY \<or>
     st = NVOCMP_PGACT \<or> st = NVOCMP_PGFULL \<or> st = NVOCMP_PGXSRC"

definition scanPage_info :: "'f nvs_env \<Rightarrow> nat \<Rightarrow> 'f nv \<Rightarrow> 'f nv" where
  "scanPage_info E pg s =
    (let pHdr = NVOCMP_readPageHdr E s pg;
         thisHdr = NVOCMP_getCompactHdr E s pg THISPAGEHDR;
         startHdr = NVOCMP_getCompactHdr E s pg XSRCSTARTHDR;
         endHdr = NVOCMP_getCompactHdr E s pg XSRCENDHDR;
         offset = (if ph_state pHdr = NVOCMP_PGNACT \<or> ph_state pHdr = NVOCMP_PGXDST
                   then NVOCMP_PGDATAOFS
                   else if ch_pageOffset thisHdr \<noteq> NVOCMP_NULLOFFSET then ch_pageOffset thisHdr
                   else NVOCMP_findOffset E s pg FLASH_PAGE_SIZE)
     in upd_page pg (\<lambda>p. p\<lparr>pi_state := ph_state pHdr, pi_cycle := ph_cycle pHdr,
          pi_allActive := ph_allActive pHdr, pi_mode := of_nat (ch_page thisHdr),
          pi_offset := offset, pi_sPage := ch_page startHdr, pi_sOffset := ch_pageOffset startHdr,
          pi_ePage := ch_page endHdr, pi_eOffset := ch_pageOffset endHdr\<rparr>) s)"

definition NVOCMP_scanPage :: "'f nvs_env \<Rightarrow> nat \<Rightarrow> 'f nv \<Rightarrow> byte \<times> 'f nv" where
  "NVOCMP_scanPage E pg s =
    (let pHdr = NVOCMP_readPageHdr E s pg
     in if \<not> known_state (ph_state pHdr) \<or> ph_version pHdr \<noteq> NVOCMP_VERSION \<or>
           ph_signature pHdr \<noteq> NVOCMP_SIGNATURE
        then
          (case NVOCMP_erase E pg s of (err, s) \<Rightarrow>
             let s = s\<lparr>failW := err\<rparr>
             in if failW s = NVINTF_SUCCESS E then (NVINTF_SUCCESS E, scanPage_info E pg s)
                else if failW s = NVINTF_LOWPOWER E then (NVINTF_LOWPOWER E, s)
                else (NVINTF_FAILURE E, s))
        else (NVINTF_SUCCESS E, scanPage_info E pg s))"

subsection \<open>Headers\<close>

lemma pageHdr_roundtrip:
  assumes "ph_allActive h < 4" and "ph_version h < 64"
  shows "pageHdr_of (pageHdr_bytes h) = h"
proof -
  have a: "bit (ph_allActive h) n \<Longrightarrow> n < 2" and v: "bit (ph_version h) n \<Longrightarrow> n < 6" for n
    using assms bit_nat_less [of "unat (ph_allActive h)" n 2] bit_nat_less [of "unat (ph_version h)" n 6]
    by (simp_all add: word_less_nat_alt bit_unsigned_iff bit_imp_possible_bit)
  have "((ph_allActive h AND mask 2) OR push_bit 2 (ph_version h)) AND mask 2 = ph_allActive h"
    by (rule bit_word_eqI) (auto simp: bit_simps dest: a)
  moreover have "drop_bit 2 ((ph_allActive h AND mask 2) OR push_bit 2 (ph_version h)) = ph_version h"
    by (rule bit_word_eqI) (auto simp: bit_simps dest: v a)
  ultimately show ?thesis
    by (simp add: pageHdr_of_def pageHdr_bytes_def byte_masks)
qed

lemma next_cycle_valid: "next_cycle c \<noteq> 0 \<and> next_cycle c \<noteq> 0xFF"
  unfolding next_cycle_def by (simp; unat_arith; simp)

subsection \<open>The end of the used part of a page\<close>



lemma findOffset_bytes_inv:
  assumes "findOffset_bytes i j tmp = r" and "j \<le> i"
  shows "(r = j \<and> (\<forall>k<length tmp. tmp ! k = 0xFF)) \<or>
    (i \<le> r \<and> r < i + length tmp \<and> tmp ! (r - i) \<noteq> 0xFF \<and>
     (\<forall>k<length tmp. r - i < k \<longrightarrow> tmp ! k = 0xFF))"
  using assms
proof (induction tmp arbitrary: i j)
  case (Cons b tmp)
  let ?j = "if b \<noteq> 0xFF then i else j"
  have "findOffset_bytes (Suc i) ?j tmp = r" and "?j \<le> Suc i"
    using Cons.prems by auto
  from Cons.IH [OF this] show ?case
  proof
    assume "r = ?j \<and> (\<forall>k<length tmp. tmp ! k = 0xFF)"
    then show ?thesis
      by (cases "b = 0xFF") (auto simp: nth_Cons split: nat.splits)
  next
    assume *: "Suc i \<le> r \<and> r < Suc i + length tmp \<and> tmp ! (r - Suc i) \<noteq> 0xFF \<and>
      (\<forall>k<length tmp. r - Suc i < k \<longrightarrow> tmp ! k = 0xFF)"
    then have "r - i = Suc (r - Suc i)" by linarith
    then show ?thesis using * by (auto simp: nth_Cons split: nat.splits)
  qed
qed simp

lemma findOffset_words_spec:
  assumes "findOffset_words buf ofs tmp = (o', w)" and "ofs mod 4 = 0" and "ofs \<le> length buf"
    and "0 < ofs"
  shows "o' + 4 \<le> ofs \<and> w = word_at buf o' \<and> o' mod 4 = 0 \<and>
    (\<forall>x. o' + 4 \<le> x \<and> x < ofs \<longrightarrow> buf ! x = 0xFF) \<and>
    (o' = 0 \<or> w \<noteq> replicate 4 0xFF)"
  using assms
proof (induction buf ofs tmp rule: findOffset_words.induct)
  case (1 buf ofs tmp)
  have four: "4 \<le> ofs" using "1.prems"(2,4) by presburger
  show ?case
  proof (cases "word_at buf (ofs - 4) \<noteq> replicate 4 0xFF")
    case True
    then have "o' = ofs - 4" "w = word_at buf o'"
      using "1.prems"(1) four by (auto simp: findOffset_words.simps [of buf ofs] Let_def)
    then show ?thesis using four True "1.prems"(2) by (auto simp: le_mod_geq)
  next
    case False
    then have erased: "buf ! x = 0xFF" if "ofs - 4 \<le> x" "x < ofs" for x
    proof -
      have "buf ! x = word_at buf (ofs - 4) ! (x - (ofs - 4))"
        using that four "1.prems"(3) by (simp add: word_at_def)
      then show ?thesis using False that four by simp
    qed
    have rec: "findOffset_words buf (ofs - 4) (word_at buf (ofs - 4)) = (o', w)"
      using "1.prems"(1) four False by (simp add: findOffset_words.simps [of buf ofs] Let_def)
    have m: "(ofs - 4) mod 4 = 0" using four "1.prems"(2) by (simp add: le_mod_geq)
    show ?thesis
    proof (cases "ofs = 4")
      case True
      then have "(o', w) = (0, word_at buf 0)"
        using rec by (simp add: findOffset_words.simps)
      then show ?thesis using True by auto
    next
      case neq: False
      have "o' + 4 \<le> ofs - 4 \<and> w = word_at buf o' \<and> o' mod 4 = 0 \<and>
          (\<forall>x. o' + 4 \<le> x \<and> x < ofs - 4 \<longrightarrow> buf ! x = 0xFF) \<and> (o' = 0 \<or> w \<noteq> replicate 4 0xFF)"
        by (rule "1.IH" [OF four refl refl _ rec m]) (use False four neq "1.prems"(3) in auto)
      moreover from this have "\<forall>x. o' + 4 \<le> x \<and> x < ofs \<longrightarrow> buf ! x = 0xFF"
        using erased by (metis not_less)
      ultimately show ?thesis by auto
    qed
  qed
qed


lemma findSignature_block_spec:
  "(case findSignature_block buf n of
      None \<Rightarrow> \<forall>k<n. buf ! k \<noteq> 0x96
    | Some i \<Rightarrow> 0 < i \<and> i \<le> n \<and> buf ! (i - 1) = 0x96 \<and> (\<forall>k. i \<le> k \<and> k < n \<longrightarrow> buf ! k \<noteq> 0x96))"
  by (induction n) (auto split: option.splits simp: less_Suc_eq)

context nvs
begin

lemma findOffset_spec:
  assumes "NVOCMP_findOffset E s pg 2048 = r"
  shows "1 \<le> r \<and> r \<le> 2048 \<and> (\<forall>x. r \<le> x \<and> x < 2048 \<longrightarrow> fbyte E s pg x = 0xFF) \<and>
    (fbyte E s pg (r - 1) \<noteq> 0xFF \<or> r = 1)"
proof -
  let ?buf = "fbytes E s pg 0 2048"
  obtain o' w where ow: "findOffset_words ?buf 2048 (word_at ?buf 0) = (o', w)"
    by (cases "findOffset_words ?buf 2048 (word_at ?buf 0)")
  have spec: "o' + 4 \<le> 2048" "w = word_at ?buf o'" "o' = 0 \<or> w \<noteq> replicate 4 0xFF"
    "\<forall>x. o' + 4 \<le> x \<and> x < 2048 \<longrightarrow> ?buf ! x = 0xFF"
    using findOffset_words_spec [OF ow] by auto
  have wn: "w ! k = fbyte E s pg (o' + k)" if "k < 4" for k
    using that spec(1,2) by (simp add: word_at_def)
  have lw: "length w = 4" using spec(1,2) by (simp add: word_at_def)
  define j where "j = findOffset_bytes 1 1 w"
  have r: "r = o' + j" and j: "1 \<le> j" "j \<le> 4"
    "(j = 1 \<and> (\<forall>k<4. w ! k = 0xFF)) \<or> (w ! (j - 1) \<noteq> 0xFF \<and> (\<forall>k<4. j - 1 < k \<longrightarrow> w ! k = 0xFF))"
  proof -
    show j: "1 \<le> j" "j \<le> 4"
      "(j = 1 \<and> (\<forall>k<4. w ! k = 0xFF)) \<or> (w ! (j - 1) \<noteq> 0xFF \<and> (\<forall>k<4. j - 1 < k \<longrightarrow> w ! k = 0xFF))"
      using findOffset_bytes_inv [of 1 1 w j] lw by (auto simp: j_def)
    have "r = u16 (o' + j)"
      using assms ow by (simp add: NVOCMP_findOffset_def read_eq j_def Let_def)
    then show "r = o' + j" using spec(1) j(2) by (simp add: c_arith)
  qed
  have tail: "fbyte E s pg x = 0xFF" if "r \<le> x" "x < 2048" for x
  proof (cases "x < o' + 4")
    case True
    then have "x - o' < 4" "j - 1 < x - o'" using that r j(1) by auto
    then have "w ! (x - o') = 0xFF" using j(3) by blast
    then show ?thesis using True that r wn [of "x - o'"] by simp
  next
    case False
    then show ?thesis using spec(4) that by simp
  qed
  moreover have "fbyte E s pg (r - 1) \<noteq> 0xFF \<or> r = 1"
    using j(3)
  proof
    assume "j = 1 \<and> (\<forall>k<4. w ! k = 0xFF)"
    then have "w = replicate 4 0xFF" using lw by (intro nth_equalityI) auto
    then show ?thesis using spec(3) r \<open>j = 1 \<and> _\<close> by auto
  next
    assume "w ! (j - 1) \<noteq> 0xFF \<and> (\<forall>k<4. j - 1 < k \<longrightarrow> w ! k = 0xFF)"
    then show ?thesis using wn [of "j - 1"] j r by auto
  qed
  ultimately show ?thesis using r j spec(1) by auto
qed


lemma findSignature_spec:
  "(case NVOCMP_findSignature E s pg srcOff of
      None \<Rightarrow> \<forall>x. 22 \<le> x \<and> x < srcOff \<longrightarrow> fbyte E s pg x \<noteq> 0x96
    | Some ofs \<Rightarrow> 22 < ofs \<and> ofs \<le> srcOff \<and> fbyte E s pg (ofs - 1) = 0x96 \<and>
        (\<forall>x. ofs \<le> x \<and> x < srcOff \<longrightarrow> fbyte E s pg x \<noteq> 0x96))"
proof (induction srcOff rule: less_induct)
  case (less srcOff)
  show ?case
  proof (cases "22 < srcOff")
    case False
    then show ?thesis by (subst NVOCMP_findSignature.simps) auto
  next
    case True
    define rdLen where "rdLen = (if 54 < srcOff then 32 else srcOff - 22)"
    define lo where "lo = srcOff - rdLen"
    have lo: "22 \<le> lo" "lo < srcOff" "lo + rdLen = srcOff"
      using True by (auto simp: rdLen_def lo_def)
    define buf where "buf = fbytes E s pg lo (lo + rdLen)"
    have bufn: "buf ! k = fbyte E s pg (lo + k)" if "k < rdLen" for k
      using that by (simp add: buf_def)
    have unfold: "NVOCMP_findSignature E s pg srcOff =
        (case findSignature_block buf rdLen of Some i \<Rightarrow> Some (lo + i)
         | None \<Rightarrow> NVOCMP_findSignature E s pg lo)"
      using True by (subst NVOCMP_findSignature.simps)
        (simp add: Let_def read_eq rdLen_def lo_def buf_def cong: if_cong option.case_cong)
    show ?thesis
    proof (cases "findSignature_block buf rdLen")
      case None
      then have none: "fbyte E s pg x \<noteq> 0x96" if "lo \<le> x" "x < srcOff" for x
        using findSignature_block_spec [of rdLen buf] bufn [of "x - lo"] that lo by force
      show ?thesis
        using less.IH [OF lo(2)] none lo by (auto simp: unfold None split: option.splits) (meson not_less)+
    next
      case (Some i)
      then have i: "0 < i" "i \<le> rdLen" "buf ! (i - 1) = 0x96" "\<forall>k. i \<le> k \<and> k < rdLen \<longrightarrow> buf ! k \<noteq> 0x96"
        using findSignature_block_spec [of rdLen buf] by auto
      have "fbyte E s pg x \<noteq> 0x96" if "lo + i \<le> x" "x < srcOff" for x
        using i(4) [rule_format, of "x - lo"] bufn [of "x - lo"] that lo by force
      then show ?thesis using i lo bufn [of "i - 1"] by (simp add: unfold Some)
    qed
  qed
qed

end

end
