(* ===== verification/NvCompact.thy ===== *)
theory NvCompact
  imports NvPage "HOL-Library.Monad_Syntax"
begin

text \<open>
  Compaction of the NV driver: \<^verbatim>\<open>NVOCMP_compact\<close> copies the active, valid items of the source pages
  into the destination page, \<^verbatim>\<open>NVOCMP_cleanPage\<close> erases or trims the source pages, and
  \<^verbatim>\<open>NVOCMP_compactPage\<close> repeats this over the pages. The result \<open>None\<close> of an operation means that
  the source does not return: the loop of \<^verbatim>\<open>NVOCMP_compactPage\<close> runs forever or an
  \<^verbatim>\<open>NVOCMP_ASSERT1\<close> stops the system.
\<close>

definition NVOCMP_COMPACT_SUCCESS :: nat where [simp]: "NVOCMP_COMPACT_SUCCESS = 0x00"
definition NVOCMP_COMPACT_SRCDONE :: nat where [simp]: "NVOCMP_COMPACT_SRCDONE = 0x01"
definition NVOCMP_COMPACT_DSTDONE :: nat where [simp]: "NVOCMP_COMPACT_DSTDONE = 0x02"
definition NVOCMP_COMPACT_FAILURE :: nat where [simp]: "NVOCMP_COMPACT_FAILURE = 0x10"

subsection \<open>Cleaning the source pages\<close>

text \<open>
  The pages a loop \<^verbatim>\<open>for (pg = first; pg != stop; pg = NVOCMP_INCPAGE(pg))\<close> visits. One page more
  than the region has is enough to reach a \<open>stop\<close> that is a page.
\<close>

fun page_range :: "nat \<Rightarrow> 'f nv \<Rightarrow> nat \<Rightarrow> nat \<Rightarrow> nat list" where
  "page_range 0 s pg stop = []"
| "page_range (Suc fuel) s pg stop =
    (if pg = stop then [] else pg # page_range fuel s (NVOCMP_INCPAGE s pg) stop)"

fun cleanPage_offsets :: "NVOCMP_compactHdr_t \<Rightarrow> nat list \<Rightarrow> 'f nv \<Rightarrow> 'f nv" where
  "cleanPage_offsets endHdr [] s = s"
| "cleanPage_offsets endHdr (pg # pgs) s =
    cleanPage_offsets endHdr pgs
      (upd_page pg (\<lambda>p. p\<lparr>pi_offset :=
         (if pg = ch_page endHdr then ch_pageOffset endHdr else NVOCMP_PGDATAOFS)\<rparr>) s)"

fun cleanPage_loop :: "'f nvs_env \<Rightarrow> nat list \<Rightarrow> nat \<Rightarrow> 'f nv \<Rightarrow> (nat \<times> 'f nv) option" where
  "cleanPage_loop E [] pages s = Some (pages, s)"
| "cleanPage_loop E (pg # pgs) pages s =
    (if offset_of s pg = NVOCMP_PGDATAOFS then
       (case NVOCMP_erase E pg s of (err, s) \<Rightarrow> cleanPage_loop E pgs (u8 (pages + 1)) (s\<lparr>failW := err\<rparr>))
     else
       (case NVOCMP_write E pg ((THISPAGEHDR + 1) * NVOCMP_COMPACTHDRLEN) (le16 (offset_of s pg)) s of
          (err, s) \<Rightarrow>
            let s = s\<lparr>failW := err\<rparr>;
                pageHdr = NVOCMP_readPageHdr E s pg
            in if ph_state pageHdr = NVOCMP_PGACT then
                 cleanPage_loop E pgs pages (NVOCMP_changePageState E pg NVOCMP_PGFULL s)
               else if ph_state pageHdr = NVOCMP_PGXDST then None
               else cleanPage_loop E pgs pages s))"

definition NVOCMP_cleanPage :: "'f nvs_env \<Rightarrow> 'f nv \<Rightarrow> (nat \<times> 'f nv) option" where
  "NVOCMP_cleanPage E s =
    (let endHdr = NVOCMP_getCompactHdr E s (xDstPage (compactInfo s)) XSRCENDHDR;
         pgs = page_range (Suc (nvSize s)) s (xSrcSPage (compactInfo s))
                 (NVOCMP_INCPAGE s (xSrcEPage (compactInfo s)));
         s = cleanPage_offsets endHdr pgs s
     in cleanPage_loop E pgs 0 s)"

subsection \<open>Copying the items of the source pages\<close>

text \<open>The variables of the loop of \<^verbatim>\<open>NVOCMP_compact\<close>; \<open>c_buf\<close> is the RAM buffer.\<close>

record 'f compact_vars =
  c_nv :: "'f nv"
  c_srcPg :: nat
  c_srcOff :: nat
  c_dstOff :: nat
  c_dstFull :: bool
  c_aItem :: nat
  c_buf :: "byte list"

datatype 'a loop_step = Continue 'a | Break 'a | Abort 'a

definition save_srcOff :: "'f compact_vars \<Rightarrow> 'f compact_vars" where
  "save_srcOff c =
    (if c_aItem c \<noteq> 0
     then c\<lparr>c_nv := upd_page (c_srcPg c) (\<lambda>p. p\<lparr>pi_offset := c_srcOff c\<rparr>) (c_nv c)\<rparr> else c)"

text \<open>One item of the source page: the part of the loop body under \<^verbatim>\<open>NVOCMP_failW == NVINTF_SUCCESS\<close>.\<close>

definition compact_item :: "'f nvs_env \<Rightarrow> 'f compact_vars \<Rightarrow> 'f compact_vars loop_step" where
  "compact_item E c =
    (let s = c_nv c; srcPg = c_srcPg c; srcOff = c_srcOff c; dstOff = c_dstOff c;
         srcHdr = NVOCMP_readHeader E s srcPg (sub16 srcOff NVOCMP_ITEMHDRLEN);
         dataLen = len srcHdr;
         itemSize = u16 (NVOCMP_ITEMHDRLEN + dataLen);
         crcOff = sub16 srcOff (NVOCMP_ITEMHDRLEN + dataLen)
     in if srcOff < dataLen + NVOCMP_PGDATAOFS \<or> sig srcHdr \<noteq> NVOCMP_SIGNATURE \<or>
           NVOCMP_verifyCRC E s crcOff dataLen (crc8 srcHdr) srcPg \<noteq> NVINTF_SUCCESS E
        then
          (case NVOCMP_findSignature E s srcPg (srcOff - 1) of
             None \<Rightarrow> Break (c\<lparr>c_srcOff := srcOff - 1\<rparr>)
           | Some srcOff \<Rightarrow> Continue (c\<lparr>c_srcOff := srcOff\<rparr>))
        else if stats srcHdr AND NVOCMP_VALIDIDBIT = 0 \<and> stats srcHdr AND NVOCMP_ACTIVEIDBIT \<noteq> 0 then
          (if FLASH_PAGE_SIZE < dstOff + itemSize then Continue (c\<lparr>c_dstFull := True\<rparr>)
           else Continue (c\<lparr>
             c_buf := list_write (FLASH_PAGE_SIZE - dstOff - itemSize)
                        (NVOCMP_read E s srcPg crcOff itemSize) (c_buf c),
             c_dstOff := u16 (dstOff + itemSize),
             c_aItem := c_aItem c + 1,
             c_dstFull := (if dstOff + itemSize = FLASH_PAGE_SIZE then True else c_dstFull c),
             c_srcOff := sub16 srcOff (NVOCMP_ITEMHDRLEN + dataLen)\<rparr>))
        else Continue (c\<lparr>c_srcOff := sub16 srcOff (NVOCMP_ITEMHDRLEN + dataLen)\<rparr>))"

definition compact_body ::
  "'f nvs_env \<Rightarrow> nat \<Rightarrow> 'f compact_vars \<Rightarrow> 'f compact_vars loop_step" where
  "compact_body E srcEndPg c =
    (let endOff = NVOCMP_PGDATAOFS + NVOCMP_ITEMHDRLEN - 1
     in if c_dstFull c then Break (save_srcOff c)
        else if c_srcOff c \<le> endOff then
          (let c = save_srcOff c
           in if c_srcPg c = srcEndPg then Break c
              else (let srcPg = NVOCMP_INCPAGE (c_nv c) (c_srcPg c)
                    in Continue (c\<lparr>c_srcPg := srcPg, c_srcOff := offset_of (c_nv c) srcPg,
                                   c_aItem := 0\<rparr>)))
        else if failW (c_nv c) = NVINTF_SUCCESS E then compact_item E c
        else Abort c)"

partial_function (option) compact_loop ::
  "'f nvs_env \<Rightarrow> nat \<Rightarrow> nat \<Rightarrow> 'f compact_vars \<Rightarrow> (bool \<times> 'f compact_vars) option" where
  "compact_loop E srcEndPg dstPg c =
    (if c_srcPg c = dstPg then Some (True, c)
     else (case compact_body E srcEndPg c of
             Continue c' \<Rightarrow> compact_loop E srcEndPg dstPg c'
           | Break c' \<Rightarrow> Some (True, c')
           | Abort c' \<Rightarrow> Some (False, c')))"

text \<open>After the loop: write the RAM buffer to the destination page and record what was copied.\<close>

definition compact_close :: "'f nvs_env \<Rightarrow> nat \<Rightarrow> 'f compact_vars \<Rightarrow> nat \<times> 'f nv" where
  "compact_close E dstPg c =
    (let s = c_nv c; dstOff = c_dstOff c
     in case NVOCMP_write E dstPg NVOCMP_PGDATAOFS
          (take (sub16 dstOff NVOCMP_PGDATAOFS) (drop (FLASH_PAGE_SIZE - dstOff) (c_buf c))) s of
         (err, s) \<Rightarrow>
           let s = s\<lparr>failW := failW s OR err\<rparr>;
               srcPg = (if c_srcPg c = dstPg then NVOCMP_DECPAGE s (c_srcPg c) else c_srcPg c);
               srcOff = (if c_srcPg c = dstPg then offset_of s srcPg else c_srcOff c);
               s = s\<lparr>compactInfo := (compactInfo s)\<lparr>xDstOffset := dstOff,
                      xSrcEOffset := srcOff, xSrcEPage := srcPg\<rparr>\<rparr>;
               s = upd_page dstPg (\<lambda>p. p\<lparr>pi_offset := dstOff\<rparr>) s;
               s = NVOCMP_setCompactHdr E dstPg (xSrcSPage (compactInfo s))
                     (xSrcSOffset (compactInfo s)) XSRCSTARTHDR s;
               s = NVOCMP_setCompactHdr E dstPg (xSrcEPage (compactInfo s))
                     (xSrcEOffset (compactInfo s)) XSRCENDHDR s
           in ((if srcOff \<le> NVOCMP_PGDATAOFS + NVOCMP_ITEMHDRLEN - 1
                then NVOCMP_COMPACT_SRCDONE else NVOCMP_COMPACT_SUCCESS) OR
               (if FLASH_PAGE_SIZE \<le> dstOff
                then NVOCMP_COMPACT_DSTDONE else NVOCMP_COMPACT_SUCCESS), s))"

definition NVOCMP_compact :: "'f nvs_env \<Rightarrow> 'f nv \<Rightarrow> (nat \<times> 'f nv) option" where
  "NVOCMP_compact E s =
    (let s = s\<lparr>failW := NVINTF_SUCCESS E\<rparr>;
         srcStartPg = xSrcSPage (compactInfo s);
         srcEndPg = NVOCMP_ADDPAGE s srcStartPg (xSrcPages (compactInfo s) - 1);
         dstPg = xDstPage (compactInfo s)
     in do {
       (ok, c) \<leftarrow> compact_loop E srcEndPg dstPg
              \<lparr>c_nv = s, c_srcPg = srcStartPg, c_srcOff = offset_of s srcStartPg,
               c_dstOff = offset_of s dstPg, c_dstFull = False, c_aItem = 0,
               c_buf = replicate FLASH_PAGE_SIZE 0\<rparr>;
       Some (if \<not> ok \<or> failW (c_nv c) \<noteq> NVINTF_SUCCESS E then (NVOCMP_COMPACT_FAILURE, c_nv c)
             else compact_close E dstPg c)
     })"

subsection \<open>The compaction loop over pages\<close>

fun mark_pages :: "'f nvs_env \<Rightarrow> nat \<Rightarrow> nat list \<Rightarrow> nat \<Rightarrow> 'f nv \<Rightarrow> nat \<times> 'f nv" where
  "mark_pages E dstPg [] allActivePages s = (allActivePages, s)"
| "mark_pages E dstPg (pg # pgs) allActivePages s =
    (if pg = dstPg then mark_pages E dstPg pgs allActivePages s
     else
       (let pageHdr = NVOCMP_readPageHdr E s pg;
            allActivePages = (if ph_allActive pageHdr \<noteq> 0 then allActivePages + 1 else allActivePages);
            s = (if ph_state pageHdr = NVOCMP_PGACT \<or> ph_state pageHdr = NVOCMP_PGFULL
                 then upd_page pg (\<lambda>p. p\<lparr>pi_mode := NVOCMP_PGCSRC\<rparr>)
                        (NVOCMP_writeByte E pg NVOCMP_COMPMODEOFS NVOCMP_PGCSRC s)
                 else s)
        in mark_pages E dstPg pgs allActivePages s))"

text \<open>The variables of the loop of \<^verbatim>\<open>NVOCMP_compactPage\<close>.\<close>

record 'f compactPage_vars =
  p_nv :: "'f nv"
  p_srcPg :: nat
  p_dstPg :: nat
  p_compactPages :: nat
  p_skipPages :: nat
  p_foundRoom :: bool

definition upd_cinfo :: "(NVOCMP_compactInfo_t \<Rightarrow> NVOCMP_compactInfo_t) \<Rightarrow> 'f nv \<Rightarrow> 'f nv" where
  "upd_cinfo f s = s\<lparr>compactInfo := f (compactInfo s)\<rparr>"

text \<open>Marking the source and the destination page and setting up \<^verbatim>\<open>compactInfo\<close>.\<close>

definition compactPage_begin :: "'f nvs_env \<Rightarrow> nat \<Rightarrow> nat \<Rightarrow> 'f nv \<Rightarrow> 'f nv" where
  "compactPage_begin E srcPg dstPg s =
    (let s = (if ph_state (NVOCMP_readPageHdr E s srcPg) \<noteq> NVOCMP_PGXSRC
              then NVOCMP_changePageState E srcPg NVOCMP_PGXSRC s else s);
         s = (if ph_state (NVOCMP_readPageHdr E s dstPg) \<noteq> NVOCMP_PGXDST
              then NVOCMP_changePageState E dstPg NVOCMP_PGXDST s else s);
         s = NVOCMP_writeByte E dstPg NVOCMP_COMPMODEOFS NVOCMP_PGCDST s;
         s = upd_page dstPg (\<lambda>p. p\<lparr>pi_mode := NVOCMP_PGCDST\<rparr>) s
     in upd_cinfo (\<lambda>i. i\<lparr>xDstPage := dstPg, xDstOffset := FLASH_PAGE_SIZE, xSrcSPage := srcPg,
          xSrcSOffset := offset_of s srcPg, xSrcEPage := NVOCMP_NULLPAGE, xSrcEOffset := 0\<rparr>) s)"

text \<open>Closing the destination page, cleaning the source pages and moving tail and head.\<close>

definition compactPage_end ::
  "'f nvs_env \<Rightarrow> nat \<Rightarrow> 'f compactPage_vars \<Rightarrow> 'f compactPage_vars loop_step option" where
  "compactPage_end E nBytes v =
    (let s = p_nv v; dstPg = p_dstPg v;
         needBytes = (if nBytes \<noteq> 0 then nBytes else 16);
         room = (xDstOffset (compactInfo s) + needBytes \<le> FLASH_PAGE_SIZE);
         foundRoom = (if nBytes \<noteq> 0 \<and> room then True else p_foundRoom v);
         s = NVOCMP_changePageState E dstPg (if room then NVOCMP_PGACT else NVOCMP_PGFULL) s
     in do {
       (cleanPages, s) \<leftarrow> NVOCMP_cleanPage E s;
       let compactPages = sub16 (p_compactPages v) cleanPages;
       let s = upd_cinfo (\<lambda>i. i\<lparr>xSrcPages := u8 (xSrcPages i + 256 - cleanPages)\<rparr>) s;
       let s = NVOCMP_writeByte E dstPg NVOCMP_COMPMODEOFS NVOCMP_PGCDONE s;
       let s = upd_page dstPg (\<lambda>p. p\<lparr>pi_mode := NVOCMP_PGCDONE\<rparr>) s;
       let s = s\<lparr>tailPage := NVOCMP_ADDPAGE s (tailPage s) (cleanPages + p_skipPages v)\<rparr>;
       let s = s\<lparr>headPage := NVOCMP_INCPAGE s (tailPage s)\<rparr>;
       let srcPg = (if offset_of s (xSrcEPage (compactInfo s)) = NVOCMP_PGDATAOFS
                    then NVOCMP_INCPAGE s (xSrcEPage (compactInfo s)) else xSrcEPage (compactInfo s));
       let v = \<lparr>p_nv = s, p_srcPg = srcPg, p_dstPg = tailPage s, p_compactPages = compactPages,
                p_skipPages = 0, p_foundRoom = foundRoom\<rparr>;
       Some (if nBytes \<noteq> 0 \<and> foundRoom then Break v else Continue v)
     })"

text \<open>One round of the loop: skip a page whose items are all active, or compact into the destination.\<close>

definition compactPage_body ::
  "'f nvs_env \<Rightarrow> nat \<Rightarrow> 'f compactPage_vars \<Rightarrow> 'f compactPage_vars loop_step option" where
  "compactPage_body E nBytes v =
    (let s = p_nv v; srcPg = p_srcPg v;
         s = (if xSrcPages (compactInfo s) = 0 then upd_cinfo (\<lambda>i. i\<lparr>xSrcPages := 1\<rparr>) s else s);
         pageHdr = NVOCMP_readPageHdr E s srcPg
     in if nBytes \<noteq> 0 \<and> ph_allActive pageHdr \<noteq> 0 then
          (let srcPg = NVOCMP_INCPAGE s srcPg
           in Some (Continue (v\<lparr>
                p_nv := upd_cinfo (\<lambda>i. i\<lparr>xDstOffset := FLASH_PAGE_SIZE, xSrcSPage := srcPg,
                          xSrcPages := xSrcPages i - 1\<rparr>) s,
                p_srcPg := srcPg, p_compactPages := sub16 (p_compactPages v) 1,
                p_skipPages := p_skipPages v + 1\<rparr>)))
        else do {
          (status, s) \<leftarrow> NVOCMP_compact E (compactPage_begin E srcPg (p_dstPg v) s);
          if status = NVOCMP_COMPACT_FAILURE then Some (Abort (v\<lparr>p_nv := s\<rparr>))
          else compactPage_end E nBytes (v\<lparr>p_nv := s\<rparr>)
        })"

partial_function (option) compactPage_loop ::
  "'f nvs_env \<Rightarrow> nat \<Rightarrow> 'f compactPage_vars \<Rightarrow> (bool \<times> 'f nv) option" where
  "compactPage_loop E nBytes v =
    (if p_compactPages v = 0 then Some (True, p_nv v)
     else do {
       r \<leftarrow> compactPage_body E nBytes v;
       case r of
         Continue v \<Rightarrow> compactPage_loop E nBytes v
       | Break v \<Rightarrow> Some (True, p_nv v)
       | Abort v \<Rightarrow> Some (False, p_nv v)
     })"

text \<open>After the loop: the new active page and its offset, and the new destination page.\<close>

definition compactPage_finish :: "'f nvs_env \<Rightarrow> 'f nv \<Rightarrow> int \<times> 'f nv" where
  "compactPage_finish E s =
    (let pg = NVOCMP_findPage E s NVOCMP_PGACT;
         pg = (if pg = NVOCMP_NULLPAGE then NVOCMP_findPage E s NVOCMP_PGRDY else pg);
         (pg, s) =
           (if pg = NVOCMP_NULLPAGE then
              (if pi_state (pageInfo s (headPage s)) = NVOCMP_PGNACT
               then (headPage s, NVOCMP_changePageState E (headPage s) NVOCMP_PGRDY s)
               else (NVOCMP_DECPAGE s (tailPage s), s))
            else (pg, s));
         s = s\<lparr>actPage := pg, actOffset := offset_of s pg\<rparr>;
         s = NVOCMP_changePageState E (tailPage s) NVOCMP_PGXDST s;
         s = s\<lparr>forceCompact := False\<rparr>
     in (s16 (int FLASH_PAGE_SIZE - int (xDstOffset (compactInfo s))), s))"

definition NVOCMP_compactPage :: "'f nvs_env \<Rightarrow> nat \<Rightarrow> 'f nv \<Rightarrow> (int \<times> 'f nv) option" where
  "NVOCMP_compactPage E nBytes s =
    (case NVOCMP_FLASHACCESS E s of (err, s) \<Rightarrow>
       if err \<noteq> NVINTF_SUCCESS E then Some (0, s)
       else
         (let srcPg = headPage s; dstPg = tailPage s;
              s = upd_cinfo (\<lambda>i. i\<lparr>xSrcPages := (if nBytes \<noteq> 0 then 1 else nvSize s - 1)\<rparr>) s
          in case mark_pages E dstPg [0..<nvSize s] 0 s of (allActivePages, s) \<Rightarrow>
               if allActivePages = nvSize s - 1 \<and> \<not> forceCompact s then Some (0, s)
               else do {
                 (ok, s) \<leftarrow> compactPage_loop E nBytes
                    \<lparr>p_nv = s, p_srcPg = srcPg, p_dstPg = dstPg, p_compactPages = nvSize s - 1,
                     p_skipPages = 0, p_foundRoom = False\<rparr>;
                 Some (if ok then compactPage_finish E s else (0, s))
               }))"

end
