(* ===== verification/NvFind.thy ===== *)
theory NvFind
  imports NvCompact
begin

text \<open>
  Finding items (\<^verbatim>\<open>NVOCMP_findItem\<close>) and adding items (\<^verbatim>\<open>NVOCMP_checkItem\<close>, \<^verbatim>\<open>NVOCMP_getDstPage\<close>,
  \<^verbatim>\<open>NVOCMP_writeItem\<close>, \<^verbatim>\<open>NVOCMP_addItem\<close>) of the NV driver. A search starts at the newest item of a
  page and goes to lower addresses and then to the pages before; corruption met on the way starts
  a compaction and restarts the search, which may go on forever: the result is then \<open>None\<close>.

  A data buffer of the caller is the memory that starts at the pointer, a function from offsets to
  bytes, so that reading past the caller's data is part of the model.
\<close>

subsection \<open>NVOCMP_findItem\<close>

definition find_match :: "nat \<Rightarrow> NVOCMP_itemHdr_t \<Rightarrow> NVOCMP_itemHdr_t \<Rightarrow> bool option" where
  "find_match flag pHdr iHdr =
    (let mode = flag AND 0x0F
     in if mode = NVOCMP_FINDANY then Some True
        else if mode = NVOCMP_FINDSTRICT then
          Some (NVOCMP_CMPRID (sysid pHdr) (itemid pHdr) (subid pHdr) = cmpid iHdr)
        else if mode = NVOCMP_FINDSYSID then Some (sysid pHdr = sysid iHdr)
        else if mode = NVOCMP_FINDITMID then
          Some (sysid pHdr = sysid iHdr \<and> itemid pHdr = itemid iHdr)
        else None)"

text \<open>
  The test on a matching item: with \<^verbatim>\<open>NVOCMP_FINDCONTENT\<close> the item is read into \<^verbatim>\<open>rBuf\<close> and a part
  of it compared with \<^verbatim>\<open>cBuf\<close>; the new contents of \<^verbatim>\<open>rBuf\<close> are part of the result.
\<close>

definition content_match ::
  "'f nvs_env \<Rightarrow> 'f nv \<Rightarrow> nat \<Rightarrow> NVOCMP_itemHdr_t \<Rightarrow> NVOCMP_itemInfo_t option \<Rightarrow>
   bool \<times> NVOCMP_itemInfo_t option" where
  "content_match E s flag iHdr pInfo =
    (case pInfo of
       Some i \<Rightarrow>
         (if flag AND 0xF0 = NVOCMP_FINDCONTENT then
            (case NVOCMP_readItem E s iHdr 0 (rlength i) of (err, bs) \<Rightarrow>
               if err = NVINTF_SUCCESS E then
                 (let rBuf' = mem_write bs (rBuf i)
                  in (map rBuf' [coff i..<coff i + length (cBuf i)] = cBuf i, Some (i\<lparr>rBuf := rBuf'\<rparr>)))
               else (False, pInfo))
          else (True, pInfo))
     | None \<Rightarrow> (True, pInfo))"

datatype scan_result =
  Found NVOCMP_itemHdr_t "NVOCMP_itemInfo_t option"
| PageDone "NVOCMP_itemInfo_t option"
| LengthCorrupt nat "NVOCMP_itemInfo_t option"
| NotFollowed "NVOCMP_itemInfo_t option"
| BadFlag "NVOCMP_itemInfo_t option"

definition item_live :: "NVOCMP_itemHdr_t \<Rightarrow> bool" where
  "item_live h \<longleftrightarrow> stats h AND NVOCMP_ACTIVEIDBIT \<noteq> 0 \<and> stats h AND NVOCMP_VALIDIDBIT = 0"

text \<open>The inner \<^verbatim>\<open>while\<close> loop, on one page.\<close>

fun findItem_scan ::
  "'f nvs_env \<Rightarrow> 'f nv \<Rightarrow> nat \<Rightarrow> NVOCMP_itemHdr_t \<Rightarrow> nat \<Rightarrow> NVOCMP_itemInfo_t option \<Rightarrow> nat \<Rightarrow>
   scan_result" where
  "findItem_scan E s p pHdr flag pInfo ofs =
    (if NVOCMP_PGDATAOFS + NVOCMP_ITEMHDRLEN \<le> ofs then
       (let ofs = ofs - NVOCMP_ITEMHDRLEN;
            iHdr = NVOCMP_readHeader E s p ofs
        in if item_live iHdr \<and> find_match flag pHdr iHdr = None then BadFlag pInfo
           else
             (case (if item_live iHdr \<and> find_match flag pHdr iHdr = Some True
                    then content_match E s flag iHdr pInfo else (False, pInfo)) of
                (found, pInfo) \<Rightarrow>
                  if found then Found iHdr pInfo
                  else if stats iHdr AND NVOCMP_FOLLOWBIT \<noteq> 0 then
                    (if len iHdr < ofs then findItem_scan E s p pHdr flag pInfo (ofs - len iHdr)
                     else LengthCorrupt ofs pInfo)
                  else NotFollowed pInfo))
     else PageDone pInfo)"

declare findItem_scan.simps [simp del]

text \<open>The loop over the pages; \<open>nvSearched\<close> counts the pages since the last restart.\<close>

partial_function (option) findItem_loop ::
  "'f nvs_env \<Rightarrow> NVOCMP_itemHdr_t \<Rightarrow> nat \<Rightarrow> nat \<Rightarrow> nat \<Rightarrow> nat \<Rightarrow> NVOCMP_itemInfo_t option \<Rightarrow> 'f nv \<Rightarrow>
   (byte \<times> NVOCMP_itemHdr_t \<times> NVOCMP_itemInfo_t option \<times> 'f nv) option" where
  "findItem_loop E pHdr flag p ofs nvSearched pInfo s =
    (if nvSearched < nvSize s then
       (let scan = (if p = tailPage s then PageDone pInfo
                    else findItem_scan E s p pHdr flag pInfo ofs)
        in case scan of
             Found iHdr pInfo \<Rightarrow> Some (NVINTF_SUCCESS E, iHdr, pInfo, s)
           | BadFlag pInfo \<Rightarrow> Some (NVINTF_BADPARAM E, pHdr, pInfo, s)
           | PageDone pInfo \<Rightarrow>
               (let p = NVOCMP_DECPAGE s p
                in findItem_loop E pHdr flag p (offset_of s p) (nvSearched + 1) pInfo s)
           | LengthCorrupt ofs pInfo \<Rightarrow> do {
               (n, s) \<leftarrow> NVOCMP_compactPage E 0 (NVOCMP_setItemInactive E p ofs s);
               let p = NVOCMP_DECPAGE s (NVOCMP_INCPAGE s (actPage s));
               findItem_loop E pHdr flag p (offset_of s p) 0 pInfo s
             }
           | NotFollowed pInfo \<Rightarrow> do {
               (n, s) \<leftarrow> NVOCMP_compactPage E 0 (s\<lparr>forceCompact := True\<rparr>);
               let p = NVOCMP_DECPAGE s (NVOCMP_INCPAGE s (actPage s));
               findItem_loop E pHdr flag p (offset_of s p) 0 pInfo s
             })
     else Some (NVINTF_NOTFOUND E, pHdr\<lparr>hofs := 0\<rparr>, pInfo, s))"

definition NVOCMP_findItem ::
  "'f nvs_env \<Rightarrow> nat \<Rightarrow> nat \<Rightarrow> NVOCMP_itemHdr_t \<Rightarrow> nat \<Rightarrow> NVOCMP_itemInfo_t option \<Rightarrow> 'f nv \<Rightarrow>
   (byte \<times> NVOCMP_itemHdr_t \<times> NVOCMP_itemInfo_t option \<times> 'f nv) option" where
  "NVOCMP_findItem E pg ofs pHdr flag pInfo s = findItem_loop E pHdr flag pg ofs 0 pInfo s"

subsection \<open>Adding an item\<close>

record NVINTF_itemID_t =
  systemID :: nat
  itemID :: nat
  subID :: nat

definition NVOCMP_checkItem ::
  "'f nvs_env \<Rightarrow> 'f nv \<Rightarrow> NVINTF_itemID_t \<Rightarrow> nat \<Rightarrow> byte + NVOCMP_itemHdr_t" where
  "NVOCMP_checkItem E s iid n =
    (if NVOCMP_MAXLEN < n then Inl (NVINTF_BADLENGTH E)
     else if NVOCMP_MAXSYSID < systemID iid then Inl (NVINTF_BADSYSID E)
     else if NVOCMP_MAXITEMID < itemID iid then Inl (NVINTF_BADITEMID E)
     else if NVOCMP_MAXSUBID < subID iid then Inl (NVINTF_BADSUBID E)
     else if failF s = NVINTF_NOTREADY E then Inl (NVINTF_NOTREADY E)
     else Inr \<lparr>cmpid = NVOCMP_CMPRID (systemID iid) (itemID iid) (subID iid), subid = subID iid,
                itemid = itemID iid, sysid = systemID iid, crc8 = 0, sig = NVOCMP_SIGNATURE,
                stats = 0, hofs = 0, len = n, hpage = 0\<rparr>)"

fun getDstPage_loop :: "'f nvs_env \<Rightarrow> nat \<Rightarrow> nat \<Rightarrow> nat \<Rightarrow> 'f nv \<Rightarrow> nat \<times> 'f nv" where
  "getDstPage_loop E n 0 pg s = (NVOCMP_NULLPAGE, s)"
| "getDstPage_loop E n (Suc left) pg s =
    (if pg = tailPage s then getDstPage_loop E n left (NVOCMP_INCPAGE s pg) s
     else
       (let pageHdr = NVOCMP_readPageHdr E s pg
        in if ph_state pageHdr = NVOCMP_PGFULL then getDstPage_loop E n left (NVOCMP_INCPAGE s pg) s
           else
             (let s = (if ph_state pageHdr = NVOCMP_PGNACT \<or> ph_state pageHdr = NVOCMP_PGRDY
                       then NVOCMP_changePageState E pg NVOCMP_PGACT s else s);
                  s = s\<lparr>actPage := pg, actOffset := offset_of s pg\<rparr>
              in if offset_of s pg + n \<le> FLASH_PAGE_SIZE then (pg, s)
                 else
                   (let s = NVOCMP_changePageState E pg NVOCMP_PGFULL s
                    in getDstPage_loop E n left (NVOCMP_INCPAGE s pg) s))))"

definition NVOCMP_getDstPage :: "'f nvs_env \<Rightarrow> nat \<Rightarrow> 'f nv \<Rightarrow> nat \<times> 'f nv" where
  "NVOCMP_getDstPage E n s = getDstPage_loop E n (nvSize s) (actPage s) s"

definition NVOCMP_writeItem ::
  "'f nvs_env \<Rightarrow> NVOCMP_itemHdr_t \<Rightarrow> nat \<Rightarrow> nat \<Rightarrow> cmem \<Rightarrow> 'f nv \<Rightarrow> 'f nv" where
  "NVOCMP_writeItem E pHdr dstPg dstOff pBuf s =
    (let pageHdr = NVOCMP_readPageHdr E s dstPg;
         s = (if ph_state pageHdr = NVOCMP_PGRDY then NVOCMP_changePageState E dstPg NVOCMP_PGACT s else s)
     in if ph_state pageHdr \<noteq> NVOCMP_PGACT then s\<lparr>failW := NVINTF_FAILURE E\<rparr>
        else
          (let iLen = u16 (NVOCMP_ITEMHDRLEN + len pHdr)
           in if dstOff + iLen \<le> FLASH_PAGE_SIZE then
                (let dLen = len pHdr;
                     hOfs = dstOff + dLen;
                     cHdr = cmpIH pHdr;
                     bytes = map pBuf [0..<dLen];
                     advance = (\<lambda>s. upd_page dstPg (\<lambda>p. p\<lparr>pi_offset := dstOff + iLen\<rparr>)
                                      (s\<lparr>actOffset := actOffset s + iLen\<rparr>))
                 in if iLen \<le> NVOCMP_SMALLITEM then
                      (let newCRC = NVOCMP_doRAMCRC E (bytes @ cHdr) 0
                       in case NVOCMP_write E dstPg dstOff (bytes @ cmpIH_crc cHdr newCRC) s of
                            (err, s) \<Rightarrow>
                              let s = advance (s\<lparr>failW := err\<rparr>)
                              in if failW s \<noteq> NVINTF_SUCCESS E
                                 then NVOCMP_setItemInactive E dstPg hOfs s else s)
                    else
                      (let newCRC = NVOCMP_doRAMCRC E cHdr (NVOCMP_doRAMCRC E bytes 0)
                       in case NVOCMP_write E dstPg dstOff bytes s of
                            (err, s) \<Rightarrow>
                              (let s = s\<lparr>failW := err\<rparr>
                               in case NVOCMP_write E dstPg hOfs (cmpIH_crc cHdr newCRC) s of
                                    (err, s) \<Rightarrow>
                                      let s = s\<lparr>failW := failW s OR err\<rparr>
                                      in if failW s = NVINTF_SUCCESS E then advance s else s)))
              else s\<lparr>failW := NVINTF_BADLENGTH E\<rparr>))"

text \<open>
  \<^verbatim>\<open>NVOCMP_NWSAMEITEM\<close>: the new data is compared, in blocks, with the bytes before the header of
  the old item, as many as the new length.
\<close>

function item_changed :: "'f nvs_env \<Rightarrow> 'f nv \<Rightarrow> nat \<Rightarrow> nat \<Rightarrow> nat \<Rightarrow> cmem \<Rightarrow> nat \<Rightarrow> bool" where
  "item_changed E s pg iOfs n pBuf dOfs =
    (let len2cmp = (if 32 < n - dOfs then 32 else n - dOfs)
     in if NVOCMP_read E s pg (u16 (iOfs + dOfs)) len2cmp \<noteq> map pBuf [dOfs..<dOfs + len2cmp] then True
        else if dOfs + len2cmp < n then item_changed E s pg iOfs n pBuf (dOfs + len2cmp)
        else False)"
  by pat_completeness auto
termination
  by (relation "measure (\<lambda>(E, s, pg, iOfs, n, pBuf, dOfs). n - dOfs)") (auto split: if_splits)

declare item_changed.simps [simp del]

definition NVOCMP_addItem ::
  "'f nvs_env \<Rightarrow> NVOCMP_itemHdr_t \<Rightarrow> cmem \<Rightarrow> NVOCMP_writeMode_t \<Rightarrow> 'f nv \<Rightarrow>
   (byte \<times> NVOCMP_itemHdr_t \<times> 'f nv) option" where
  "NVOCMP_addItem E iHdr pBuf wm s =
    (let iLen = u16 (NVOCMP_ITEMHDRLEN + len iHdr)
     in case NVOCMP_getDstPage E iLen s of (dstPg, s) \<Rightarrow>
       do {
         let compact = (dstPg = NVOCMP_NULLPAGE);
         (room, s) \<leftarrow> (if compact then NVOCMP_compactPage E iLen s else Some (int iLen, s));
         if room < int iLen then
           Some (if failW s \<noteq> NVINTF_SUCCESS E then failW s else NVINTF_BADLENGTH E, iHdr, s)
         else do {
           (iHdr, s) \<leftarrow>
             (if failW s = NVINTF_SUCCESS E \<and> (wm = NVOCMP_WRITE \<or> wm = NVOCMP_UPDATE \<and> compact)
              then do {
                (err, hdr, pInfo, s) \<leftarrow>
                  NVOCMP_findItem E (actPage s) (actOffset s) iHdr NVOCMP_FINDSTRICT None s;
                Some (iHdr\<lparr>hpage := hpage hdr, hofs := hofs hdr\<rparr>, s)
              }
              else Some (iHdr, s));
           let changed = (if hofs iHdr \<noteq> 0 \<and> len iHdr \<noteq> 0
                          then item_changed E s (hpage iHdr) (sub16 (hofs iHdr) (len iHdr))
                                 (len iHdr) pBuf 0
                          else True);
           let s = (if changed then NVOCMP_writeItem E iHdr (actPage s) (actOffset s) pBuf s else s);
           let iHdr = (if changed then iHdr else iHdr\<lparr>hofs := 0\<rparr>);
           Some (failW s, iHdr, s)
         }
       })"

end
