(* ===== verification/NvLayout.thy ===== *)
theory NvLayout
  imports NvFind
begin

text \<open>
  The layout of the items on the pages and the operations on it: searching
  (\<^verbatim>\<open>NVOCMP_findItem\<close>), marking an item inactive, choosing the page for a new item and writing it.
  A layout gives for each page the list of its items, oldest first.
\<close>

subsection \<open>Items on a page\<close>

definition items_size :: "nv_item list \<Rightarrow> nat" where
  "items_size its = sum_list (map item_size its)"

definition enc_items :: "'f nvs_env \<Rightarrow> nv_item list \<Rightarrow> byte list" where
  "enc_items E its = concat (map (enc_item E) its)"

definition items_at :: "'f nvs_env \<Rightarrow> 'f nv \<Rightarrow> nat \<Rightarrow> nv_item list \<Rightarrow> nat \<Rightarrow> bool" where
  "items_at E s pg its ofs \<longleftrightarrow> list_all item_ok its \<and> ofs = NVOCMP_PGDATAOFS + items_size its \<and>
     fbytes E s pg NVOCMP_PGDATAOFS ofs = enc_items E its"

text \<open>The offset of the header of an item that follows the items \<open>xs\<close>.\<close>

definition hdr_ofs :: "nv_item list \<Rightarrow> nv_item \<Rightarrow> nat" where
  "hdr_ofs xs it = NVOCMP_PGDATAOFS + items_size xs + length (it_data it)"

text \<open>Reading the items back: the item whose header ends at an offset, then those before it.\<close>

definition item_of_hdr :: "'f nvs_env \<Rightarrow> 'f nv \<Rightarrow> NVOCMP_itemHdr_t \<Rightarrow> nv_item" where
  "item_of_hdr E s h =
    \<lparr>it_sysid = sysid h, it_itemid = itemid h, it_subid = subid h,
     it_data = NVOCMP_read E s (hpage h) (hofs h - len h) (len h),
     it_active = (stats h AND NVOCMP_ACTIVEIDBIT \<noteq> 0)\<rparr>"

fun parse_items :: "'f nvs_env \<Rightarrow> 'f nv \<Rightarrow> nat \<Rightarrow> nat \<Rightarrow> nv_item list" where
  "parse_items E s pg ofs =
    (if NVOCMP_PGDATAOFS + NVOCMP_ITEMHDRLEN \<le> ofs then
       (let h = NVOCMP_readHeader E s pg (ofs - NVOCMP_ITEMHDRLEN)
        in if len h + NVOCMP_PGDATAOFS + NVOCMP_ITEMHDRLEN \<le> ofs
           then parse_items E s pg (ofs - NVOCMP_ITEMHDRLEN - len h) @ [item_of_hdr E s h]
           else [])
     else [])"

declare parse_items.simps [simp del]

lemma items_size_simps [simp]:
  "items_size [] = 0" "items_size (it # its) = item_size it + items_size its"
  "items_size (xs @ ys) = items_size xs + items_size ys"
  by (simp_all add: items_size_def)

lemma enc_items_simps [simp]:
  "enc_items E [] = []" "enc_items E (it # its) = enc_item E it @ enc_items E its"
  "enc_items E (xs @ ys) = enc_items E xs @ enc_items E ys"
  by (simp_all add: enc_items_def)

lemma length_enc_items [simp]: "length (enc_items E its) = items_size its"
  by (induction its) (simp_all add: item_size_def)

lemma items_at_Nil: "items_at E s pg [] 16"
  by (simp add: items_at_def fbytes_def)

lemma items_at_append:
  "items_at E s pg (xs @ ys) ofs \<longleftrightarrow>
    items_at E s pg xs (16 + items_size xs) \<and> list_all item_ok ys \<and>
    ofs = 16 + items_size xs + items_size ys \<and>
    fbytes E s pg (16 + items_size xs) ofs = enc_items E ys"
proof -
  let ?m = "16 + items_size xs"
  have "fbytes E s pg 16 (?m + items_size ys) = fbytes E s pg 16 ?m @ fbytes E s pg ?m (?m + items_size ys)"
    by (rule fbytes_append [symmetric]) auto
  then show ?thesis
    by (auto simp: items_at_def add.assoc append_eq_append_conv)
qed

lemma items_at_snoc:
  "items_at E s pg (xs @ [it]) ofs \<longleftrightarrow>
    items_at E s pg xs (16 + items_size xs) \<and> item_at E s pg (16 + items_size xs) it \<and>
    ofs = 16 + items_size xs + item_size it"
  by (auto simp: items_at_append item_at_def)

lemma items_at_mid:
  assumes "items_at E s pg (xs @ it # ys) ofs"
  shows "item_at E s pg (16 + items_size xs) it \<and> 16 + items_size xs + item_size it \<le> ofs"
  using assms items_at_append [of E s pg "xs @ [it]" ys] by (auto simp: items_at_snoc)

lemma items_at_cong:
  assumes "items_at E s pg its ofs" and "\<And>x. 16 \<le> x \<Longrightarrow> x < ofs \<Longrightarrow> fbyte E s' pg x = fbyte E s pg x"
  shows "items_at E s' pg its ofs"
  using assms fbytes_cong [of 16 ofs E s' pg s] by (auto simp: items_at_def)

lemma item_size_pos: "item_ok it \<Longrightarrow> 8 \<le> item_size it"
  by (cases "it_data it") (auto simp: item_ok_def item_size_def)

context nvs
begin

lemma parse_items_at:
  "items_at E s pg its ofs \<Longrightarrow> parse_items E s pg ofs = its"
proof (induction its arbitrary: ofs rule: rev_induct)
  case Nil
  then show ?case by (subst parse_items.simps) (simp add: items_at_def)
next
  case (snoc it xs)
  let ?l = "length (it_data it)" and ?b = "16 + items_size xs"
  define n where "n = ?b + ?l"
  have at: "item_at E s pg ?b it" and xs: "items_at E s pg xs ?b" and ofs: "ofs = n + 7"
    using snoc.prems by (auto simp: items_at_snoc item_size_def n_def)
  have n: "n - ?l = ?b" "?l + 16 \<le> n" by (simp_all add: n_def)
  have h: "NVOCMP_readHeader E s pg n = stored_hdr E pg n it"
    by (rule readHeader_at [OF at n_def])
  have "item_of_hdr E s (stored_hdr E pg n it) = it"
    using item_at_data_bytes [OF at] n by (simp add: item_of_hdr_def stored_hdr_def read_eq)
  then show ?case
    using h n snoc.IH [OF xs]
    by (subst parse_items.simps) (simp add: ofs Let_def, simp add: stored_hdr_def)
qed

end

subsection \<open>Searching\<close>

text \<open>What a search on the layout returns: the items before the newest match, and the match.\<close>

definition newest :: "(nv_item \<Rightarrow> bool) \<Rightarrow> nv_item list \<Rightarrow> (nv_item list \<times> nv_item) option" where
  "newest P its = (case dropWhile (\<lambda>it. \<not> P it) (rev its) of [] \<Rightarrow> None | it # ys \<Rightarrow> Some (rev ys, it))"

fun find_in ::
  "'f nv \<Rightarrow> (nat \<Rightarrow> nv_item list) \<Rightarrow> (nv_item \<Rightarrow> bool) \<Rightarrow> nat \<Rightarrow> nat \<Rightarrow> nv_item list \<Rightarrow>
   (nat \<times> nv_item list \<times> nv_item) option" where
  "find_in s L P 0 p its = None"
| "find_in s L P (Suc k) p its =
    (case (if p = tailPage s then None else newest P its) of
       Some (xs, it) \<Rightarrow> Some (p, xs, it)
     | None \<Rightarrow> find_in s L P k (NVOCMP_DECPAGE s p) (L (NVOCMP_DECPAGE s p)))"

definition item_matches :: "nat \<Rightarrow> NVOCMP_itemHdr_t \<Rightarrow> nv_item \<Rightarrow> bool" where
  "item_matches flag h it \<longleftrightarrow> it_active it \<and>
     (let mode = flag AND 0x0F
      in mode = NVOCMP_FINDANY \<or>
         mode = NVOCMP_FINDSTRICT \<and> it_id it = (sysid h, itemid h, subid h) \<or>
         mode = NVOCMP_FINDSYSID \<and> it_sysid it = sysid h \<or>
         mode = NVOCMP_FINDITMID \<and> it_sysid it = sysid h \<and> it_itemid it = itemid h)"

definition hdr_ok :: "NVOCMP_itemHdr_t \<Rightarrow> bool" where
  "hdr_ok h \<longleftrightarrow> sysid h < 64 \<and> itemid h < 1024 \<and> subid h < 1024"

lemma newest_Nil [simp]: "newest P [] = None"
  by (simp add: newest_def)

lemma newest_snoc [simp]: "newest P (xs @ [it]) = (if P it then Some (xs, it) else newest P xs)"
  by (simp add: newest_def)

lemma newest_None: "newest P its = None \<longleftrightarrow> (\<forall>it\<in>set its. \<not> P it)"
  by (induction its rule: rev_induct) auto

lemma newest_Some:
  "newest P its = Some (xs, it) \<Longrightarrow> P it \<and> (\<exists>ys. its = xs @ it # ys \<and> (\<forall>y\<in>set ys. \<not> P y))"
  by (induction its rule: rev_induct) (auto split: if_splits)

lemma item_live_stored: "item_live (stored_hdr E pg ofs it) = it_active it"
  by (simp add: item_live_def stored_hdr_def)

lemma find_match_stored:
  assumes "item_ok it" and "hdr_ok h" and "flag AND 0x0F \<le> 3"
  shows "it_active it \<Longrightarrow> find_match flag h (stored_hdr E pg ofs it) = Some (item_matches flag h it)"
proof -
  assume act: "it_active it"
  have "NVOCMP_CMPRID (sysid h) (itemid h) (subid h) = NVOCMP_CMPRID (it_sysid it) (it_itemid it) (it_subid it)
      \<longleftrightarrow> it_id it = (sysid h, itemid h, subid h)"
    using NVOCMP_CMPRID_inj [of "sysid h" "itemid h" "subid h" "it_sysid it" "it_itemid it" "it_subid it"] assms
    by (auto simp: it_id_def item_ok_def hdr_ok_def)
  moreover have "flag AND 0x0F = 0 \<or> flag AND 0x0F = 1 \<or> flag AND 0x0F = 2 \<or> flag AND 0x0F = 3"
    using assms(3) by arith
  ultimately show ?thesis
    using act by (auto simp: find_match_def item_matches_def stored_hdr_def Let_def)
qed

context nvs
begin

lemma scan_items:
  assumes "hdr_ok h" and "flag AND 0x0F \<le> 3"
  shows "items_at E s pg its ofs \<Longrightarrow>
    findItem_scan E s pg h flag None ofs =
      (case newest (item_matches flag h) its of
         None \<Rightarrow> PageDone None
       | Some (xs, it) \<Rightarrow> Found (stored_hdr E pg (hdr_ofs xs it) it) None)"
proof (induction its arbitrary: ofs rule: rev_induct)
  case Nil
  then show ?case by (subst findItem_scan.simps) (simp add: items_at_def)
next
  case (snoc it xs)
  let ?l = "length (it_data it)" and ?b = "16 + items_size xs"
  define n where "n = ?b + ?l"
  have at: "item_at E s pg ?b it" and xs: "items_at E s pg xs ?b" and ofs: "ofs = n + 7"
    using snoc.prems by (auto simp: items_at_snoc item_size_def n_def)
  have n: "n - ?l = ?b" "?l + 16 \<le> n" by (simp_all add: n_def)
  have ok: "item_ok it" using at by (simp add: item_at_def)
  have h: "NVOCMP_readHeader E s pg n = stored_hdr E pg n it"
    by (rule readHeader_at [OF at n_def])
  have m: "it_active it \<Longrightarrow> find_match flag h (stored_hdr E pg n it) = Some (item_matches flag h it)"
    by (rule find_match_stored [OF ok assms])
  have na: "\<not> it_active it \<Longrightarrow> \<not> item_matches flag h it"
    by (simp add: item_matches_def)
  have f: "stats (stored_hdr E pg n it) AND 4 \<noteq> 0" "len (stored_hdr E pg n it) = ?l"
    by (simp_all add: stored_hdr_def)
  show ?case
    using m na n snoc.IH [OF xs]
    by (subst findItem_scan.simps)
       (auto simp: ofs h Let_def item_live_stored content_match_def f hdr_ofs_def n_def [symmetric])
qed


text \<open>The search over the pages; it returns, and it does not change the state.\<close>

lemma findItem_loop_layout:
  assumes h: "hdr_ok h" and flag: "flag AND 0x0F \<le> 3"
    and L: "\<And>q. q < nvSize s \<Longrightarrow> q \<noteq> tailPage s \<Longrightarrow> items_at E s q (L q) (offset_of s q)"
  shows "n + k = nvSize s \<Longrightarrow> p < nvSize s \<Longrightarrow> (p \<noteq> tailPage s \<Longrightarrow> items_at E s p its ofs) \<Longrightarrow>
    findItem_loop E h flag p ofs n None s =
      Some (case find_in s L (item_matches flag h) k p its of
              None \<Rightarrow> (NVINTF_NOTFOUND E, h\<lparr>hofs := 0\<rparr>, None, s)
            | Some (q, xs, it) \<Rightarrow> (NVINTF_SUCCESS E, stored_hdr E q (hdr_ofs xs it) it, None, s))"
proof (induction k arbitrary: n p its ofs)
  case 0
  then show ?case by (subst findItem_loop.simps) simp
next
  case (Suc k)
  let ?q = "NVOCMP_DECPAGE s p"
  have q: "?q < nvSize s" using Suc.prems by (simp add: NVOCMP_DECPAGE_def NVOCMP_ADDPAGE_def)
  have next_page: "findItem_loop E h flag ?q (offset_of s ?q) (n + 1) None s =
      Some (case find_in s L (item_matches flag h) k ?q (L ?q) of
              None \<Rightarrow> (NVINTF_NOTFOUND E, h\<lparr>hofs := 0\<rparr>, None, s)
            | Some (q, xs, it) \<Rightarrow> (NVINTF_SUCCESS E, stored_hdr E q (hdr_ofs xs it) it, None, s))"
    by (rule Suc.IH) (use Suc.prems q L in auto)
  have scan: "p \<noteq> tailPage s \<Longrightarrow> findItem_scan E s p h flag None ofs =
      (case newest (item_matches flag h) its of None \<Rightarrow> PageDone None
       | Some (xs, it) \<Rightarrow> Found (stored_hdr E p (hdr_ofs xs it) it) None)"
    by (rule scan_items [OF h flag]) (rule Suc.prems(3))
  show ?case
    using Suc.prems(1) next_page scan
    by (subst findItem_loop.simps) (auto simp: Let_def split: option.splits)
qed

end

subsection \<open>Well-formed states\<close>

text \<open>The pages other than the destination page, and the items on them that are active.\<close>

definition data_pages :: "'f nv \<Rightarrow> nat list" where
  "data_pages s = filter (\<lambda>p. p \<noteq> tailPage s) [0..<nvSize s]"

definition live_items :: "'f nv \<Rightarrow> (nat \<Rightarrow> nv_item list) \<Rightarrow> nv_item list" where
  "live_items s L = concat (map (\<lambda>p. filter it_active (L p)) (data_pages s))"

text \<open>The contents of the store: a map from identifiers to data.\<close>

definition layout_map :: "'f nv \<Rightarrow> (nat \<Rightarrow> nv_item list) \<Rightarrow> nv_id \<rightharpoonup> byte list" where
  "layout_map s L = map_of (map (\<lambda>it. (it_id it, it_data it)) (live_items s L))"

definition page_state :: "'f nvs_env \<Rightarrow> 'f nv \<Rightarrow> nat \<Rightarrow> byte" where
  "page_state E s p = fbyte E s p 0"

definition page_wf :: "'f nvs_env \<Rightarrow> 'f nv \<Rightarrow> nat \<Rightarrow> nv_item list \<Rightarrow> bool" where
  "page_wf E s p its \<longleftrightarrow>
    items_at E s p its (offset_of s p) \<and> offset_of s p \<le> FLASH_PAGE_SIZE \<and>
    page_state E s p \<in> {NVOCMP_PGNACT, NVOCMP_PGRDY, NVOCMP_PGACT, NVOCMP_PGFULL} \<and>
    (page_state E s p \<noteq> NVOCMP_PGFULL \<longrightarrow>
       list_all (\<lambda>b. b = NVOCMP_ERASEDBYTE) (fbytes E s p (offset_of s p) FLASH_PAGE_SIZE))"

definition driver_wf :: "'f nvs_env \<Rightarrow> 'f nv \<Rightarrow> bool" where
  "driver_wf E s \<longleftrightarrow>
    3 \<le> nvSize s \<and> nvSize s \<le> NVOCMP_NVPAGES \<and> nvSize s * FLASH_PAGE_SIZE \<le> regionSize E \<and>
    actPage s < nvSize s \<and> tailPage s < nvSize s \<and> actPage s \<noteq> tailPage s \<and>
    actOffset s = offset_of s (actPage s) \<and>
    failF s = NVINTF_SUCCESS E \<and> failW s = NVINTF_SUCCESS E \<and> volt_ok s"

definition pages_wf :: "'f nvs_env \<Rightarrow> 'f nv \<Rightarrow> (nat \<Rightarrow> nv_item list) \<Rightarrow> bool" where
  "pages_wf E s L \<longleftrightarrow> list_all (\<lambda>p. page_wf E s p (L p)) (data_pages s)"

definition ids_distinct :: "'f nv \<Rightarrow> (nat \<Rightarrow> nv_item list) \<Rightarrow> bool" where
  "ids_distinct s L \<longleftrightarrow> distinct (map it_id (live_items s L))"

definition nv_wf :: "'f nvs_env \<Rightarrow> 'f nv \<Rightarrow> (nat \<Rightarrow> nv_item list) \<Rightarrow> bool" where
  "nv_wf E s L \<longleftrightarrow> driver_wf E s \<and> pages_wf E s L \<and> ids_distinct s L"

lemma set_data_pages [simp]: "p \<in> set (data_pages s) \<longleftrightarrow> p < nvSize s \<and> p \<noteq> tailPage s"
  by (auto simp: data_pages_def)

lemma set_live_items:
  "it \<in> set (live_items s L) \<longleftrightarrow> it_active it \<and> (\<exists>p<nvSize s. p \<noteq> tailPage s \<and> it \<in> set (L p))"
  by (auto simp: live_items_def)

lemma pages_wfD: "pages_wf E s L \<Longrightarrow> p < nvSize s \<Longrightarrow> p \<noteq> tailPage s \<Longrightarrow> page_wf E s p (L p)"
  by (simp add: pages_wf_def list_all_iff)

text \<open>Going back page by page visits every page.\<close>

lemma funpow_DECPAGE:
  "p < nvSize s \<Longrightarrow> (NVOCMP_DECPAGE s ^^ i) p = (p + i * (nvSize s - 1)) mod nvSize s"
proof (induction i)
  case (Suc i)
  let ?n = "nvSize s"
  have "(NVOCMP_DECPAGE s ^^ Suc i) p = ((p + i * (?n - 1)) mod ?n + (?n - 1)) mod ?n"
    using Suc by (simp only: funpow.simps comp_apply)
      (simp only: NVOCMP_DECPAGE_def NVOCMP_ADDPAGE_def)
  also have "\<dots> = (p + i * (?n - 1) + (?n - 1)) mod ?n" by (rule mod_add_left_eq)
  also have "p + i * (?n - 1) + (?n - 1) = p + Suc i * (?n - 1)" by simp
  finally show ?case .
qed simp

lemma DECPAGE_reaches:
  assumes "p < nvSize s" and "q < nvSize s"
  shows "\<exists>i<nvSize s. (NVOCMP_DECPAGE s ^^ i) p = q"
proof -
  let ?n = "nvSize s"
  let ?i = "(p + ?n - q) mod ?n"
  have i: "?i < ?n" using assms by simp
  have "int ((p + ?i * (?n - 1)) mod ?n) = (int p + int ?i * (int ?n - 1)) mod int ?n"
    using assms by (simp add: zmod_int of_nat_diff Suc_leI)
  also have "\<dots> = (int p + (int p + int ?n - int q) * (int ?n - 1)) mod int ?n"
    using assms by (simp add: zmod_int of_nat_diff) (metis mod_add_right_eq mod_mult_left_eq)
  also have "int p + (int p + int ?n - int q) * (int ?n - 1) = int q + int ?n * (int p + int ?n - int q - 1)"
    by (simp add: algebra_simps)
  also have "\<dots> mod int ?n = int q mod int ?n" by simp
  also have "\<dots> = int q" using assms by simp
  finally have "(p + ?i * (?n - 1)) mod ?n = q" by linarith
  then show ?thesis using funpow_DECPAGE [OF assms(1)] i by metis
qed

lemma find_in_None:
  "find_in s L P k p its = None \<Longrightarrow>
   (0 < k \<longrightarrow> p \<noteq> tailPage s \<longrightarrow> (\<forall>it\<in>set its. \<not> P it)) \<and>
   (\<forall>i. 0 < i \<and> i < k \<and> (NVOCMP_DECPAGE s ^^ i) p \<noteq> tailPage s \<longrightarrow>
      (\<forall>it\<in>set (L ((NVOCMP_DECPAGE s ^^ i) p)). \<not> P it))"
proof (induction k arbitrary: p its)
  case (Suc k)
  let ?q = "NVOCMP_DECPAGE s p"
  have here: "p \<noteq> tailPage s \<longrightarrow> newest P its = None" and rest: "find_in s L P k ?q (L ?q) = None"
    using Suc.prems by (auto split: option.splits if_splits)
  have "\<forall>it\<in>set (L ((NVOCMP_DECPAGE s ^^ i) p)). \<not> P it"
    if i: "0 < i" "i < Suc k" "(NVOCMP_DECPAGE s ^^ i) p \<noteq> tailPage s" for i
  proof -
    obtain j where j: "i = Suc j" using i(1) by (cases i) auto
    then have e: "(NVOCMP_DECPAGE s ^^ i) p = (NVOCMP_DECPAGE s ^^ j) ?q" by (simp add: funpow_swap1)
    show ?thesis
    proof (cases j)
      case 0
      then show ?thesis using Suc.IH [OF rest] i j by auto
    next
      case (Suc j')
      then show ?thesis using Suc.IH [OF rest] i j e by auto
    qed
  qed
  then show ?case using here by (auto simp: newest_None)
qed simp

lemma find_in_Some:
  "find_in s L P k p its = Some (q, xs, it) \<Longrightarrow> p < nvSize s \<Longrightarrow>
   P it \<and> q < nvSize s \<and> q \<noteq> tailPage s \<and>
   (\<exists>ys. (q = p \<and> its = xs @ it # ys) \<or> L q = xs @ it # ys)"
proof (induction k arbitrary: p its)
  case (Suc k)
  let ?q = "NVOCMP_DECPAGE s p"
  have lt: "?q < nvSize s" using Suc.prems(2) by (simp add: NVOCMP_DECPAGE_def NVOCMP_ADDPAGE_def)
  show ?case
  proof (cases "p \<noteq> tailPage s \<and> newest P its \<noteq> None")
    case True
    then show ?thesis using Suc.prems newest_Some [of P its xs it] by auto
  next
    case False
    then have "find_in s L P k ?q (L ?q) = Some (q, xs, it)"
      using Suc.prems(1) by (auto split: if_splits option.splits)
    from Suc.IH [OF this lt] show ?thesis by auto
  qed
qed simp

lemma find_in_all_pages:
  assumes "p < nvSize s"
  shows "(case find_in s L P (nvSize s) p (L p) of
      None \<Rightarrow> \<forall>q<nvSize s. q \<noteq> tailPage s \<longrightarrow> (\<forall>it\<in>set (L q). \<not> P it)
    | Some (q, xs, it) \<Rightarrow> P it \<and> q < nvSize s \<and> q \<noteq> tailPage s \<and> (\<exists>ys. L q = xs @ it # ys))"
proof (cases "find_in s L P (nvSize s) p (L p)")
  case None
  have "\<not> P it" if q: "q < nvSize s" "q \<noteq> tailPage s" "it \<in> set (L q)" for q it
  proof -
    obtain i where i: "i < nvSize s" "(NVOCMP_DECPAGE s ^^ i) p = q"
      using DECPAGE_reaches [OF assms q(1)] by blast
    show ?thesis using find_in_None [OF None] i q by (cases "i = 0") auto
  qed
  then show ?thesis using None by auto
next
  case (Some r)
  obtain q xs it where "r = (q, xs, it)" by (cases r)
  then show ?thesis using find_in_Some [of s L P "nvSize s" p "L p" q xs it] Some assms by auto
qed


subsection \<open>Changing the layout\<close>

lemma live_items_at:
  assumes "q < nvSize s" and "q \<noteq> tailPage s"
  shows "\<exists>A B. \<forall>M. (\<forall>p. p \<noteq> q \<longrightarrow> M p = L p) \<longrightarrow> live_items s M = A @ filter it_active (M q) @ B"
proof -
  have q: "q \<in> set (data_pages s)" and d: "distinct (data_pages s)"
    using assms by (simp_all add: data_pages_def)
  obtain us vs where uv: "data_pages s = us @ q # vs" using split_list [OF q] by blast
  then have n: "q \<notin> set us" "q \<notin> set vs" using d by auto
  have m: "map (\<lambda>p. filter it_active (M p)) ws = map (\<lambda>p. filter it_active (L p)) ws"
    if "\<forall>p. p \<noteq> q \<longrightarrow> M p = L p" "q \<notin> set ws" for M ws
    using that by (intro map_cong refl) auto
  have "live_items s M = concat (map (\<lambda>p. filter it_active (L p)) us) @ filter it_active (M q) @
      concat (map (\<lambda>p. filter it_active (L p)) vs)" if "\<forall>p. p \<noteq> q \<longrightarrow> M p = L p" for M
    by (simp only: live_items_def uv map_append list.map concat_append concat.simps
        m [OF that n(1)] m [OF that n(2)])
  then show ?thesis by blast
qed

lemma layout_map_Some:
  "ids_distinct s L \<Longrightarrow>
   layout_map s L i = Some d \<longleftrightarrow> (\<exists>it\<in>set (live_items s L). it_id it = i \<and> it_data it = d)"
  by (auto simp: layout_map_def ids_distinct_def map_of_eq_Some_iff o_def cong: map_cong)

lemma layout_map_None:
  "layout_map s L i = None \<longleftrightarrow> (\<forall>it\<in>set (live_items s L). it_id it \<noteq> i)"
  by (auto simp: layout_map_def map_of_eq_None_iff image_image)

lemma layout_inactivate:
  assumes q: "q < nvSize s" "q \<noteq> tailPage s" and L: "L q = xs @ it # ys" and act: "it_active it"
    and d: "ids_distinct s L"
  defines "L' \<equiv> L(q := xs @ it\<lparr>it_active := False\<rparr> # ys)"
  shows "ids_distinct s L'" and "layout_map s L' = (layout_map s L)(it_id it := None)"
proof -
  obtain A B where AB: "\<forall>M. (\<forall>p. p \<noteq> q \<longrightarrow> M p = L p) \<longrightarrow> live_items s M = A @ filter it_active (M q) @ B"
    using live_items_at [OF q] by blast
  let ?X = "A @ filter it_active xs" and ?Y = "filter it_active ys @ B"
  have l: "live_items s L = ?X @ it # ?Y" "live_items s L' = ?X @ ?Y"
    using AB [rule_format, of L] AB [rule_format, of L'] act by (simp_all add: L L'_def)
  then show "ids_distinct s L'" using d by (simp add: ids_distinct_def)
  have "map_of (map (\<lambda>it. (it_id it, it_data it)) ?X) (it_id it) = None"
    "map_of (map (\<lambda>it. (it_id it, it_data it)) ?Y) (it_id it) = None"
    using d l(1) by (auto simp: ids_distinct_def map_of_eq_None_iff)
  then show "layout_map s L' = (layout_map s L)(it_id it := None)"
    unfolding layout_map_def l by (auto simp: fun_eq_iff map_add_def split: option.splits)
qed

lemma layout_append:
  assumes q: "q < nvSize s" "q \<noteq> tailPage s" and act: "it_active it" and d: "ids_distinct s L"
    and fresh: "layout_map s L (it_id it) = None"
  defines "L' \<equiv> L(q := L q @ [it])"
  shows "ids_distinct s L'" and "layout_map s L' = (layout_map s L)(it_id it \<mapsto> it_data it)"
proof -
  obtain A B where AB: "\<forall>M. (\<forall>p. p \<noteq> q \<longrightarrow> M p = L p) \<longrightarrow> live_items s M = A @ filter it_active (M q) @ B"
    using live_items_at [OF q] by blast
  let ?X = "A @ filter it_active (L q)"
  have l: "live_items s L = ?X @ B" "live_items s L' = ?X @ it # B"
    using AB [rule_format, of L] AB [rule_format, of L'] act by (simp_all add: L'_def)
  have f: "\<forall>x\<in>set (?X @ B). it_id x \<noteq> it_id it"
    using fresh l(1) by (simp add: layout_map_None)
  then show "ids_distinct s L'" using d by (auto simp: ids_distinct_def l)
  have "map_of (map (\<lambda>it. (it_id it, it_data it)) B) (it_id it) = None"
    "map_of (map (\<lambda>it. (it_id it, it_data it)) ?X) (it_id it) = None"
    using f by (auto simp: map_of_eq_None_iff)
  then show "layout_map s L' = (layout_map s L)(it_id it \<mapsto> it_data it)"
    unfolding layout_map_def l by (auto simp: fun_eq_iff map_add_def split: option.splits)
qed

text \<open>Replacing an active item: the new one is appended first, then the old one is marked.\<close>

lemma layout_replace:
  assumes q: "q < nvSize s" "q \<noteq> tailPage s" and p: "p < nvSize s" "p \<noteq> tailPage s"
    and L: "L q = xs @ it # ys" and act: "it_active it"
    and new: "it_active it'" "it_id it' = it_id it"
    and d: "ids_distinct s L"
  defines "L1 \<equiv> L(p := L p @ [it'])"
  defines "L' \<equiv> L1(q := xs @ it\<lparr>it_active := False\<rparr> # drop (Suc (length xs)) (L1 q))"
  shows "ids_distinct s L'" and "layout_map s L' = (layout_map s L)(it_id it \<mapsto> it_data it')"
proof -
  let ?L0 = "L(q := xs @ it\<lparr>it_active := False\<rparr> # ys)"
  have d0: "ids_distinct s ?L0" and m0: "layout_map s ?L0 = (layout_map s L)(it_id it := None)"
    using layout_inactivate [OF q L act d] by auto
  have L': "L' = ?L0(p := ?L0 p @ [it'])"
    using L by (auto simp: L'_def L1_def fun_eq_iff)
  have fr: "layout_map s ?L0 (it_id it') = None" using m0 new by simp
  show "ids_distinct s L'" "layout_map s L' = (layout_map s L)(it_id it \<mapsto> it_data it')"
    using layout_append [OF p new(1) d0 fr] m0 new(2) by (simp_all add: L' fun_upd_upd)
qed


subsection \<open>Marking an item inactive\<close>

text \<open>Two states that agree on what the driver keeps in RAM about the pages.\<close>

definition same_ram :: "'f nv \<Rightarrow> 'f nv \<Rightarrow> bool" where
  "same_ram s s' \<longleftrightarrow> nvSize s' = nvSize s \<and> headPage s' = headPage s \<and> tailPage s' = tailPage s \<and>
     actPage s' = actPage s \<and> actOffset s' = actOffset s \<and> failF s' = failF s \<and>
     voltCheckFptr s' = voltCheckFptr s \<and> offset_of s' = offset_of s"

lemma same_ram_refl [simp]: "same_ram s s"
  by (simp add: same_ram_def)

lemma same_ram_trans: "same_ram s s1 \<Longrightarrow> same_ram s1 s2 \<Longrightarrow> same_ram s s2"
  by (simp add: same_ram_def)

lemma programmed_same_ram: "programmed E pg off bs s s' \<Longrightarrow> same_ram s s' \<and> pageInfo s' = pageInfo s"
  by (auto simp: programmed_def same_ram_def offset_of_def fun_eq_iff)

lemma same_ram_updates [simp]:
  "same_ram s (s'\<lparr>failW := e\<rparr>) = same_ram s s'"
  "fbyte E (s'\<lparr>failW := e\<rparr>) p x = fbyte E s' p x"
  by (simp_all add: same_ram_def offset_of_def fbyte_def fun_eq_iff)

lemma page_wf_cong:
  assumes "page_wf E s p its" and "offset_of s' p = offset_of s p"
    and "\<And>x. x < 2048 \<Longrightarrow> fbyte E s' p x = fbyte E s p x"
  shows "page_wf E s' p its"
proof -
  have "offset_of s p \<le> 2048" using assms(1) by (simp add: page_wf_def)
  then show ?thesis
    using assms items_at_cong [of E s p its "offset_of s p" s'] fbytes_cong [of "offset_of s p" 2048 E s' p s]
    by (auto simp: page_wf_def page_state_def)
qed

lemma data_pages_cong: "nvSize s' = nvSize s \<Longrightarrow> tailPage s' = tailPage s \<Longrightarrow> data_pages s' = data_pages s"
  by (simp add: data_pages_def)

lemma layout_cong:
  assumes "nvSize s' = nvSize s" and "tailPage s' = tailPage s"
  shows "live_items s' L = live_items s L" and "layout_map s' L = layout_map s L"
    and "ids_distinct s' L = ids_distinct s L"
  using assms by (simp_all add: live_items_def layout_map_def ids_distinct_def data_pages_cong [OF assms])

lemma inactive_byte: "(b AND - 3) AND b = b AND - (3::byte)" "b AND (b AND - 3) = b AND - (3::byte)"
  by (simp_all add: ac_simps)

lemma enc_hdr_inactive:
  "it_active it \<Longrightarrow> enc_hdr E (it\<lparr>it_active := False\<rparr>) = (enc_hdr E it)[5 := enc_hdr E it ! 5 AND - 3]"
  by (simp add: enc_hdr_def item_crc_def item_hdr_def Let_def)

lemma enc_items_inactive:
  assumes "it_active it"
  shows "enc_items E (xs @ it\<lparr>it_active := False\<rparr> # ys) =
    (enc_items E (xs @ it # ys))[items_size xs + length (it_data it) + 5 := enc_hdr E it ! 5 AND - 3]"
  using assms by (simp add: enc_item_def enc_hdr_inactive list_update_append)

context nor_flash
begin

lemma programmed_other:
  "programmed E pg off [b] s s' \<Longrightarrow> p \<noteq> pg \<or> x \<noteq> off \<Longrightarrow> x < 2048 \<Longrightarrow> fbyte E s' p x = fbyte E s p x"
  by (rule programmed_frame) auto

lemma setItemInactive_bytes:
  assumes v: "volt_ok s" and pg: "2048 * Suc pg \<le> regionSize E" and o: "o' + 5 < 2048" "2 < o'"
  obtains s' where "NVOCMP_setItemInactive E pg o' s = s'" and "same_ram s s'"
    and "failW s' = NVINTF_SUCCESS E"
    and "\<And>p x. x < 2048 \<Longrightarrow> p \<noteq> pg \<or> (x \<noteq> o' + 5 \<and> x \<noteq> 2) \<Longrightarrow> fbyte E s' p x = fbyte E s p x"
    and "fbyte E s' pg (o' + 5) = fbyte E s pg (o' + 5) AND - 3"
proof -
  let ?b = "fbyte E s pg (o' + 5) AND - 3"
  have "fbyte E s pg (o' + 5) AND ?b = ?b" by (rule inactive_byte)
  then obtain s1 where s1: "NVOCMP_writeByte E pg (o' + 5) ?b s = s1\<lparr>failW := NVINTF_SUCCESS E\<rparr>"
    and p1: "programmed E pg (o' + 5) [?b] s s1"
    using writeByte_ok [OF v o(1) pg] by blast
  have r1: "same_ram s s1" "pageInfo s1 = pageInfo s" using programmed_same_ram [OF p1] by auto
  have b1: "fbyte E s1 pg (o' + 5) = ?b" using p1 by (simp add: programmed_def)
  let ?s1 = "s1\<lparr>failW := NVINTF_SUCCESS E\<rparr>"
  have eq: "NVOCMP_setItemInactive E pg o' s =
      (if pi_allActive (pageInfo s pg) \<noteq> 0
       then upd_page pg (\<lambda>p. p\<lparr>pi_allActive := NVOCMP_SOMEINACTIVE\<rparr>)
              (NVOCMP_writeByte E pg 2 (fbyte E s1 pg 2 AND NOT NVOCMP_ALLACTIVE) ?s1)
       else ?s1)"
    unfolding NVOCMP_setItemInactive_def readByte_eq Let_def NVOCMP_HDRVLDOFS_def NVOCMP_PGHDRVER_def
    using s1 r1(2) by simp
  show thesis
  proof (cases "pi_allActive (pageInfo s pg) = 0")
    case True
    show thesis
      by (rule that [of ?s1]) (use eq True r1 b1 programmed_other [OF p1] in auto)
  next
    case False
    have two: "(2::nat) < 2048" by simp
    have v1: "volt_ok ?s1" using v r1(1) by (simp add: volt_ok_def same_ram_def)
    have "fbyte E ?s1 pg 2 AND (fbyte E s1 pg 2 AND NOT NVOCMP_ALLACTIVE) = fbyte E s1 pg 2 AND NOT NVOCMP_ALLACTIVE"
      by simp
    then obtain s2 where s2: "NVOCMP_writeByte E pg 2 (fbyte E s1 pg 2 AND NOT NVOCMP_ALLACTIVE) ?s1 =
        s2\<lparr>failW := NVINTF_SUCCESS E\<rparr>"
      and p2: "programmed E pg 2 [fbyte E s1 pg 2 AND NOT NVOCMP_ALLACTIVE] ?s1 s2"
      using writeByte_ok [OF v1 two pg] by blast
    let ?s2 = "upd_page pg (\<lambda>p. p\<lparr>pi_allActive := NVOCMP_SOMEINACTIVE\<rparr>) (s2\<lparr>failW := NVINTF_SUCCESS E\<rparr>)"
    have r2: "same_ram s s2" using programmed_same_ram [OF p2] r1(1) same_ram_trans [of s ?s1 s2] by simp
    show thesis
    proof (rule that [of ?s2])
      show "NVOCMP_setItemInactive E pg o' s = ?s2" using eq False s2 by simp
      show "same_ram s ?s2" using r2 by (auto simp: same_ram_def upd_page_def offset_of_def fun_eq_iff)
      show "failW ?s2 = NVINTF_SUCCESS E" by (simp add: upd_page_def)
      have f2: "fbyte E ?s2 p x = fbyte E s2 p x" for p x by (simp add: fbyte_def upd_page_def)
      show "fbyte E ?s2 pg (o' + 5) = ?b"
        using programmed_other [OF p2, of pg "o' + 5"] b1 o f2 by simp
      show "fbyte E ?s2 p x = fbyte E s p x" if "x < 2048" "p \<noteq> pg \<or> (x \<noteq> o' + 5 \<and> x \<noteq> 2)" for p x
        using programmed_other [OF p2, of p x] programmed_other [OF p1, of p x] that f2 by auto
    qed
  qed
qed

end

context nor_flash
begin

lemma setItemInactive_page:
  assumes s: "volt_ok s" "2048 * Suc q \<le> regionSize E"
    and wf: "page_wf E s q (xs @ it # ys)" and act: "it_active it"
  obtains s' where "NVOCMP_setItemInactive E q (hdr_ofs xs it) s = s'" and "same_ram s s'"
    and "failW s' = NVINTF_SUCCESS E"
    and "page_wf E s' q (xs @ it\<lparr>it_active := False\<rparr> # ys)"
    and "\<And>p x. p \<noteq> q \<Longrightarrow> x < 2048 \<Longrightarrow> fbyte E s' p x = fbyte E s p x"
proof -
  let ?o = "offset_of s q" and ?h = "hdr_ofs xs it"
  have at: "items_at E s q (xs @ it # ys) ?o" and o: "?o \<le> 2048" using wf by (simp_all add: page_wf_def)
  have mid: "item_at E s q (16 + items_size xs) it" and le: "?h + 7 \<le> ?o"
    using items_at_mid [OF at] by (auto simp: hdr_ofs_def item_size_def)
  obtain s' where s': "NVOCMP_setItemInactive E q ?h s = s'" "same_ram s s'" "failW s' = NVINTF_SUCCESS E"
    and fr: "\<And>p x. x < 2048 \<Longrightarrow> p \<noteq> q \<or> (x \<noteq> ?h + 5 \<and> x \<noteq> 2) \<Longrightarrow> fbyte E s' p x = fbyte E s p x"
    and b: "fbyte E s' q (?h + 5) = fbyte E s q (?h + 5) AND - 3"
    using setItemInactive_bytes [OF s, of ?h] le o by (auto simp: hdr_ofs_def)
  have h5: "fbyte E s q (?h + 5) = enc_hdr E it ! 5"
  proof -
    have "fbytes E s q ?h (?h + 7) = enc_hdr E it"
      by (rule item_at_hdr_bytes [OF mid]) (simp add: hdr_ofs_def)
    moreover have "fbytes E s q ?h (?h + 7) ! 5 = fbyte E s q (?h + 5)" by (rule nth_fbytes) simp
    ultimately show ?thesis by simp
  qed
  have off: "offset_of s' q = ?o" using s'(2) by (simp add: same_ram_def)
  have "fbytes E s' q 16 ?o = (fbytes E s q 16 ?o)[items_size xs + length (it_data it) + 5 := enc_hdr E it ! 5 AND - 3]"
    (is "?l = ?r")
  proof (rule nth_equalityI)
    fix i assume "i < length ?l"
    then show "?l ! i = ?r ! i"
      using fr [of "16 + i" q] b h5 o 
      by (cases "i = items_size xs + length (it_data it) + 5") (auto simp: hdr_ofs_def ac_simps)
  qed simp
  then have "items_at E s' q (xs @ it\<lparr>it_active := False\<rparr> # ys) ?o"
    using at unfolding items_at_def enc_items_inactive [OF act]
    by (auto simp: item_ok_def item_size_def)
  moreover have "page_state E s' q = page_state E s q"
    using fr [of 0 q] by (simp add: page_state_def hdr_ofs_def)
  moreover have "fbytes E s' q ?o 2048 = fbytes E s q ?o 2048"
    using fr le by (intro fbytes_cong) (auto simp: hdr_ofs_def)
  ultimately have "page_wf E s' q (xs @ it\<lparr>it_active := False\<rparr> # ys)"
    using wf off by (simp add: page_wf_def)
  then show thesis using that s' fr by blast
qed


text \<open>Changing the state of a page: only the first byte of its header changes.\<close>

lemma changePageState_ok:
  assumes v: "volt_ok s" and pg: "2048 * Suc pg \<le> regionSize E" and b: "fbyte E s pg 0 AND st = st"
  obtains s' where "NVOCMP_changePageState E pg st s = s'" and "failW s' = NVINTF_SUCCESS E"
    and "same_ram (if st = NVOCMP_PGACT then s\<lparr>actPage := pg\<rparr> else s) s'"
    and "page_state E s' pg = st"
    and "\<And>p x. x < 2048 \<Longrightarrow> p \<noteq> pg \<or> x \<noteq> 0 \<Longrightarrow> fbyte E s' p x = fbyte E s p x"
proof -
  have z: "(0::nat) < 2048" by simp
  obtain s1 where s1: "NVOCMP_writeByte E pg 0 st s = s1\<lparr>failW := NVINTF_SUCCESS E\<rparr>"
    and p1: "programmed E pg 0 [st] s s1"
    using writeByte_ok [OF v z pg b] by blast
  have r1: "same_ram s s1" using programmed_same_ram [OF p1] by simp
  let ?s1 = "s1\<lparr>failW := NVINTF_SUCCESS E\<rparr>"
  let ?s2 = "upd_page pg (\<lambda>p. p\<lparr>pi_state := st\<rparr>) (if st = NVOCMP_PGACT then ?s1\<lparr>actPage := pg\<rparr> else ?s1)"
  have f2: "fbyte E ?s2 p x = fbyte E s1 p x" for p x by (simp add: fbyte_def upd_page_def)
  show thesis
  proof (rule that [of ?s2])
    show "NVOCMP_changePageState E pg st s = ?s2"
      using s1 by (simp add: NVOCMP_changePageState_def Let_def)
    show "failW ?s2 = NVINTF_SUCCESS E" by (simp add: upd_page_def)
    show "same_ram (if st = NVOCMP_PGACT then s\<lparr>actPage := pg\<rparr> else s) ?s2"
      using r1 by (auto simp: same_ram_def upd_page_def offset_of_def fun_eq_iff)
    show "page_state E ?s2 pg = st" using p1 f2 by (simp add: page_state_def programmed_def)
    show "fbyte E ?s2 p x = fbyte E s p x" if "x < 2048" "p \<noteq> pg \<or> x \<noteq> 0" for p x
      using programmed_other [OF p1, of p x] that f2 by auto
  qed
qed

text \<open>The data of a page, apart from its state.\<close>

lemma page_wf_state:
  assumes "page_wf E s p its" and "offset_of s' p = offset_of s p"
    and "\<And>x. x < 2048 \<Longrightarrow> x \<noteq> 0 \<Longrightarrow> fbyte E s' p x = fbyte E s p x"
    and "page_state E s' p \<in> {NVOCMP_PGNACT, NVOCMP_PGRDY, NVOCMP_PGACT, NVOCMP_PGFULL}"
    and "page_state E s' p = NVOCMP_PGFULL \<or> page_state E s p \<noteq> NVOCMP_PGFULL"
  shows "page_wf E s' p its"
proof -
  have o: "offset_of s p \<le> 2048" "16 \<le> offset_of s p"
    using assms(1) by (auto simp: page_wf_def items_at_def)
  have "items_at E s' p its (offset_of s p)"
    by (rule items_at_cong [of E s]) (use assms(1,3) o in \<open>auto simp: page_wf_def\<close>)
  moreover have "fbytes E s' p (offset_of s p) 2048 = fbytes E s p (offset_of s p) 2048"
    by (rule fbytes_cong) (use assms(3) o in auto)
  ultimately show ?thesis
    using assms(1,2,4,5) by (auto simp: page_wf_def)
qed

end

subsection \<open>Choosing the page for a new item\<close>

definition same_geo :: "'f nv \<Rightarrow> 'f nv \<Rightarrow> bool" where
  "same_geo s s' \<longleftrightarrow> nvSize s' = nvSize s \<and> headPage s' = headPage s \<and> tailPage s' = tailPage s \<and>
     failF s' = failF s \<and> voltCheckFptr s' = voltCheckFptr s \<and> offset_of s' = offset_of s"

lemma same_geo_refl [simp]: "same_geo s s"
  by (simp add: same_geo_def)

lemma same_geo_trans: "same_geo s s1 \<Longrightarrow> same_geo s1 s2 \<Longrightarrow> same_geo s s2"
  by (simp add: same_geo_def)

lemma driver_wfI:
  assumes "driver_wf E s" and "same_geo s s'" and "actPage s' < nvSize s" and "actPage s' \<noteq> tailPage s"
    and "actOffset s' = offset_of s (actPage s')" and "failW s' = NVINTF_SUCCESS E"
  shows "driver_wf E s'"
  using assms by (auto simp: driver_wf_def same_geo_def volt_ok_def)

lemma driver_wf_region: "driver_wf E s \<Longrightarrow> p < nvSize s \<Longrightarrow> 2048 * Suc p \<le> regionSize E"
  by (simp add: driver_wf_def)

lemma pages_wfI:
  assumes "pages_wf E s L" and "same_geo s s'" and "page_wf E s' q (L q)"
    and "\<And>p x. p \<noteq> q \<Longrightarrow> x < 2048 \<Longrightarrow> fbyte E s' p x = fbyte E s p x"
  shows "pages_wf E s' L"
  unfolding pages_wf_def list_all_iff
proof
  fix p assume "p \<in> set (data_pages s')"
  then have p: "p < nvSize s" "p \<noteq> tailPage s" using assms(2) by (auto simp: same_geo_def)
  show "page_wf E s' p (L p)"
  proof (cases "p = q")
    case False
    show ?thesis
      by (rule page_wf_cong [OF pages_wfD [OF assms(1) p]]) (use assms(2,4) False in \<open>auto simp: same_geo_def\<close>)
  qed (use assms(3) in simp)
qed

text \<open>A page has room for \<open>n\<close> bytes.\<close>

definition page_room :: "'f nvs_env \<Rightarrow> 'f nv \<Rightarrow> nat \<Rightarrow> nat \<Rightarrow> bool" where
  "page_room E s n p \<longleftrightarrow> page_state E s p \<noteq> NVOCMP_PGFULL \<and> offset_of s p + n \<le> FLASH_PAGE_SIZE"

definition has_room :: "'f nvs_env \<Rightarrow> 'f nv \<Rightarrow> nat \<Rightarrow> bool" where
  "has_room E s n \<longleftrightarrow> list_ex (page_room E s n) (data_pages s)"

lemma INCPAGE_reaches:
  assumes "p < nvSize s" and "q < nvSize s"
  shows "\<exists>i<nvSize s. (NVOCMP_INCPAGE s ^^ i) p = q"
proof -
  have "(NVOCMP_INCPAGE s ^^ i) p = (p + i) mod nvSize s" for i
    using assms(1) by (induction i) (simp_all add: NVOCMP_INCPAGE_def NVOCMP_ADDPAGE_def mod_Suc_eq)
  moreover have "(p + (q + nvSize s - p) mod nvSize s) mod nvSize s = q"
    using assms by (simp add: mod_add_right_eq)
  ultimately show ?thesis
    using assms by (intro exI [of _ "(q + nvSize s - p) mod nvSize s"]) simp
qed

lemma all_less_Suc_funpow: "(\<forall>i<Suc k. Q ((f ^^ i) x)) \<longleftrightarrow> Q x \<and> (\<forall>i<k. Q ((f ^^ i) (f x)))"
  by (auto simp: less_Suc_eq_0_disj funpow_swap1)

lemma pages_wf_act [simp]:
  "pages_wf E (s\<lparr>actPage := a, actOffset := b\<rparr>) L = pages_wf E s L"
  "page_state E (s\<lparr>actPage := a, actOffset := b\<rparr>) p = page_state E s p"
  "same_geo s0 (s\<lparr>actPage := a, actOffset := b\<rparr>) = same_geo s0 s"
proof -
  let ?s = "s\<lparr>actPage := a, actOffset := b\<rparr>"
  have "fbyte E ?s = fbyte E s" "offset_of ?s = offset_of s"
    by (simp_all add: fbyte_def offset_of_def fun_eq_iff)
  then show "pages_wf E ?s L = pages_wf E s L" "page_state E ?s p = page_state E s p"
    "same_geo s0 ?s = same_geo s0 s"
    by (simp_all add: pages_wf_def data_pages_def page_wf_def items_at_def fbytes_def page_state_def
        same_geo_def cong: list.pred_cong)
qed

context nor_flash
begin

lemma ph_state_read: "ph_state (NVOCMP_readPageHdr E s pg) = page_state E s pg"
  by (simp add: NVOCMP_readPageHdr_def pageHdr_of_def read_eq page_state_def)


lemma changePageState_wf:
  assumes d: "driver_wf E s" and wf: "pages_wf E s L" and p: "pg < nvSize s" "pg \<noteq> tailPage s"
    and st: "st = NVOCMP_PGACT \<and> page_state E s pg \<noteq> NVOCMP_PGFULL \<or>
             st = NVOCMP_PGFULL \<and> page_state E s pg = NVOCMP_PGACT"
  obtains s' where "NVOCMP_changePageState E pg st s = s'" and "failW s' = NVINTF_SUCCESS E"
    and "same_ram (if st = NVOCMP_PGACT then s\<lparr>actPage := pg\<rparr> else s) s'" and "pages_wf E s' L"
    and "page_state E s' pg = st" and "\<And>p. p \<noteq> pg \<Longrightarrow> page_state E s' p = page_state E s p"
proof -
  have v: "volt_ok s" using d by (simp add: driver_wf_def)
  have pw: "page_wf E s pg (L pg)" by (rule pages_wfD [OF wf p])
  then have b: "fbyte E s pg 0 AND st = st" using st by (auto simp: page_wf_def page_state_def)
  obtain s' where s': "NVOCMP_changePageState E pg st s = s'" "failW s' = NVINTF_SUCCESS E"
    "same_ram (if st = NVOCMP_PGACT then s\<lparr>actPage := pg\<rparr> else s) s'" "page_state E s' pg = st"
    and fr: "\<And>p x. x < 2048 \<Longrightarrow> p \<noteq> pg \<or> x \<noteq> 0 \<Longrightarrow> fbyte E s' p x = fbyte E s p x"
    using changePageState_ok [OF v driver_wf_region [OF d p(1)] b] by blast
  have geo: "same_geo s s'"
    using s'(3) by (auto simp: same_geo_def same_ram_def offset_of_def split: if_splits)
  have "page_wf E s' pg (L pg)"
    by (rule page_wf_state [OF pw]) (use geo fr s'(4) st in \<open>auto simp: same_geo_def\<close>)
  then have "pages_wf E s' L" by (rule pages_wfI [OF wf geo]) (use fr in auto)
  then show thesis using that s' fr by (auto simp: page_state_def)
qed

lemma activate_page:
  assumes d: "driver_wf E s" and wf: "pages_wf E s L" and p: "pg < nvSize s" "pg \<noteq> tailPage s"
    and st: "page_state E s pg \<noteq> NVOCMP_PGFULL"
  obtains s' where "(if page_state E s pg = NVOCMP_PGNACT \<or> page_state E s pg = NVOCMP_PGRDY
          then NVOCMP_changePageState E pg NVOCMP_PGACT s else s) = s'"
    and "failW s' = NVINTF_SUCCESS E" and "same_geo s s'" and "pages_wf E s' L"
    and "page_state E s' pg = NVOCMP_PGACT" and "\<And>p. p \<noteq> pg \<Longrightarrow> page_state E s' p = page_state E s p"
proof (cases "page_state E s pg = NVOCMP_PGACT")
  case True
  show thesis by (rule that [of s]) (use True d wf in \<open>auto simp: driver_wf_def\<close>)
next
  case False
  obtain s' where s': "NVOCMP_changePageState E pg NVOCMP_PGACT s = s'" "failW s' = NVINTF_SUCCESS E"
    "same_ram (s\<lparr>actPage := pg\<rparr>) s'" "pages_wf E s' L" "page_state E s' pg = NVOCMP_PGACT"
    "\<And>p. p \<noteq> pg \<Longrightarrow> page_state E s' p = page_state E s p"
    using changePageState_wf [OF d wf p, of NVOCMP_PGACT] st by auto
  have "page_state E s pg = NVOCMP_PGNACT \<or> page_state E s pg = NVOCMP_PGRDY"
    using False st pages_wfD [OF wf p] by (auto simp: page_wf_def)
  moreover have "same_geo s s'" using s'(3) by (auto simp: same_geo_def same_ram_def offset_of_def)
  ultimately show thesis using that [of s'] s' by auto
qed

lemma getDstPage_loop_spec:
  assumes "driver_wf E s" and "pages_wf E s L" and "pg < nvSize s"
  shows "\<exists>r s'. getDstPage_loop E n k pg s = (r, s') \<and> driver_wf E s' \<and> pages_wf E s' L \<and> same_geo s s' \<and>
    (\<forall>p. page_state E s p = NVOCMP_PGFULL \<longrightarrow> page_state E s' p = NVOCMP_PGFULL) \<and>
    (r = NVOCMP_NULLPAGE \<and>
       (\<forall>i<k. (NVOCMP_INCPAGE s ^^ i) pg = tailPage s \<or> \<not> page_room E s n ((NVOCMP_INCPAGE s ^^ i) pg)) \<or>
     r = actPage s' \<and> page_state E s' r = NVOCMP_PGACT \<and> offset_of s' r + n \<le> FLASH_PAGE_SIZE)"
  using assms
proof (induction k arbitrary: pg s)
  case 0
  then show ?case by auto
next
  case (Suc k)
  let ?q = "NVOCMP_INCPAGE s pg"
  let ?Q = "\<lambda>p. p = tailPage s \<or> \<not> page_room E s n p"
  have q: "?q < nvSize s" using Suc.prems(3) by (simp add: NVOCMP_INCPAGE_def NVOCMP_ADDPAGE_def)
  show ?case
  proof (cases "pg = tailPage s \<or> page_state E s pg = NVOCMP_PGFULL")
    case True
    then have "getDstPage_loop E n (Suc k) pg s = getDstPage_loop E n k ?q s"
      by (auto simp: ph_state_read Let_def)
    then show ?thesis
      using Suc.IH [OF Suc.prems(1,2) q] True all_less_Suc_funpow [of k ?Q "NVOCMP_INCPAGE s" pg]
      by (auto simp: page_room_def)
  next
    case False
    then have pg: "pg \<noteq> tailPage s" "page_state E s pg \<noteq> NVOCMP_PGFULL" by auto
    obtain s1 where s1: "(if page_state E s pg = NVOCMP_PGNACT \<or> page_state E s pg = NVOCMP_PGRDY
          then NVOCMP_changePageState E pg NVOCMP_PGACT s else s) = s1"
      and f1: "failW s1 = NVINTF_SUCCESS E" "same_geo s s1" "pages_wf E s1 L" "page_state E s1 pg = NVOCMP_PGACT"
        "\<And>p. p \<noteq> pg \<Longrightarrow> page_state E s1 p = page_state E s p"
      using activate_page [OF Suc.prems pg] by blast
    define s2 where "s2 = s1\<lparr>actPage := pg, actOffset := offset_of s1 pg\<rparr>"
    have f2: "same_geo s s2" "pages_wf E s2 L" "page_state E s2 p = page_state E s1 p" for p
      using f1 by (simp_all add: s2_def)
    have d2: "driver_wf E s2"
      by (rule driver_wfI [OF Suc.prems(1) f2(1)]) (use Suc.prems(3) pg f1 in \<open>auto simp: s2_def same_geo_def\<close>)
    have unfold: "getDstPage_loop E n (Suc k) pg s =
        (if offset_of s2 pg + n \<le> FLASH_PAGE_SIZE then (pg, s2)
         else let s = NVOCMP_changePageState E pg NVOCMP_PGFULL s2
              in getDstPage_loop E n k (NVOCMP_INCPAGE s pg) s)"
      using pg by (simp only: getDstPage_loop.simps ph_state_read Let_def s1 s2_def if_False)
    show ?thesis
    proof (cases "offset_of s2 pg + n \<le> FLASH_PAGE_SIZE")
      case True
      moreover have "\<forall>p. page_state E s p = NVOCMP_PGFULL \<longrightarrow> page_state E s2 p = NVOCMP_PGFULL"
        using f2(3) f1(5) pg(2) by metis
      moreover have "actPage s2 = pg" by (simp add: s2_def)
      ultimately show ?thesis using unfold f2 f1(4) d2 by auto
    next
      case full: False
      have p2: "pg < nvSize s2" "pg \<noteq> tailPage s2" using Suc.prems(3) pg f2(1) by (auto simp: same_geo_def)
      obtain s3 where s3: "NVOCMP_changePageState E pg NVOCMP_PGFULL s2 = s3" "failW s3 = NVINTF_SUCCESS E"
        "same_ram s2 s3" "pages_wf E s3 L" "\<And>p. p \<noteq> pg \<Longrightarrow> page_state E s3 p = page_state E s2 p"
        using changePageState_wf [OF d2 f2(2) p2, of NVOCMP_PGFULL] f2(3) f1(4) by auto
      have g3: "same_geo s s3" using f2(1) s3(3) by (auto simp: same_geo_def same_ram_def)
      have d3: "driver_wf E s3"
        by (rule driver_wfI [OF d2]) (use s3 d2 in \<open>auto simp: same_geo_def same_ram_def driver_wf_def\<close>)
      have inc: "NVOCMP_INCPAGE s3 = NVOCMP_INCPAGE s"
        using g3 by (simp add: fun_eq_iff NVOCMP_INCPAGE_def NVOCMP_ADDPAGE_def same_geo_def)
      have room: "p = tailPage s \<or> \<not> page_room E s n p"
        if "p = tailPage s3 \<or> \<not> page_room E s3 n p" for p
        using that full g3 f1(5) f2(1,3) s3(5) by (cases "p = pg") (auto simp: page_room_def same_geo_def)
      have "?q < nvSize s3" using q g3 by (simp add: same_geo_def)
      from Suc.IH [OF d3 s3(4) this] obtain r s' where rs: "getDstPage_loop E n k ?q s3 = (r, s')"
        "driver_wf E s'" "pages_wf E s' L" "same_geo s3 s'"
        "\<forall>p. page_state E s3 p = NVOCMP_PGFULL \<longrightarrow> page_state E s' p = NVOCMP_PGFULL"
        and disj: "r = NVOCMP_NULLPAGE \<and> (\<forall>i<k. (NVOCMP_INCPAGE s ^^ i) ?q = tailPage s3 \<or>
             \<not> page_room E s3 n ((NVOCMP_INCPAGE s ^^ i) ?q)) \<or>
           r = actPage s' \<and> page_state E s' r = NVOCMP_PGACT \<and> offset_of s' r + n \<le> FLASH_PAGE_SIZE"
        unfolding inc by blast
      have "?Q pg" using full f2(1) by (auto simp: page_room_def same_geo_def)
      then have "r = NVOCMP_NULLPAGE \<and> (\<forall>i<Suc k. ?Q ((NVOCMP_INCPAGE s ^^ i) pg)) \<or>
          r = actPage s' \<and> page_state E s' r = NVOCMP_PGACT \<and> offset_of s' r + n \<le> FLASH_PAGE_SIZE"
        unfolding all_less_Suc_funpow [of k ?Q] using disj room by blast
      moreover have "getDstPage_loop E n (Suc k) pg s = (r, s')"
        using unfold full rs(1) s3(1) inc by (simp add: Let_def)
      moreover have "\<forall>p. page_state E s p = NVOCMP_PGFULL \<longrightarrow> page_state E s' p = NVOCMP_PGFULL"
        using rs(5) s3(5) f2(3) f1(5) pg(2) by metis
      ultimately show ?thesis using rs(2,3) same_geo_trans [OF g3 rs(4)] by blast
    qed
  qed
qed

lemma getDstPage_spec:
  assumes "driver_wf E s" and "pages_wf E s L"
  obtains r s' where "NVOCMP_getDstPage E n s = (r, s')" and "driver_wf E s'" and "pages_wf E s' L"
    and "same_geo s s'"
    and "r = NVOCMP_NULLPAGE \<longleftrightarrow> \<not> has_room E s n"
    and "has_room E s n \<Longrightarrow> r = actPage s'" and "has_room E s n \<Longrightarrow> page_state E s' r = NVOCMP_PGACT"
    and "has_room E s n \<Longrightarrow> offset_of s' r + n \<le> FLASH_PAGE_SIZE"
proof -
  have act: "actPage s < nvSize s" and n12: "nvSize s \<le> 12" using assms(1) by (simp_all add: driver_wf_def)
  obtain r s' where rs: "NVOCMP_getDstPage E n s = (r, s')" "driver_wf E s'" "pages_wf E s' L" "same_geo s s'"
    "\<forall>p. page_state E s p = NVOCMP_PGFULL \<longrightarrow> page_state E s' p = NVOCMP_PGFULL"
    and disj: "r = NVOCMP_NULLPAGE \<and> (\<forall>i<nvSize s. (NVOCMP_INCPAGE s ^^ i) (actPage s) = tailPage s \<or>
           \<not> page_room E s n ((NVOCMP_INCPAGE s ^^ i) (actPage s))) \<or>
        r = actPage s' \<and> page_state E s' r = NVOCMP_PGACT \<and> offset_of s' r + n \<le> FLASH_PAGE_SIZE"
    using getDstPage_loop_spec [OF assms act, of n "nvSize s"] unfolding NVOCMP_getDstPage_def by blast
  have "actPage s' \<noteq> NVOCMP_NULLPAGE" using rs(2) by (simp add: driver_wf_def)
  show thesis
  proof (cases "r = NVOCMP_NULLPAGE")
    case True
    have "\<not> has_room E s n"
    proof
      assume "has_room E s n"
      then obtain p where p: "p < nvSize s" "p \<noteq> tailPage s" "page_room E s n p"
        by (auto simp: has_room_def list_ex_iff)
      obtain i where "i < nvSize s" "(NVOCMP_INCPAGE s ^^ i) (actPage s) = p"
        using INCPAGE_reaches [OF act p(1)] by blast
      then show False using disj True p(2,3) \<open>actPage s' \<noteq> NVOCMP_NULLPAGE\<close> by auto
    qed
    then show thesis using that rs True by blast
  next
    case False
    then have a: "r = actPage s'" "page_state E s' r = NVOCMP_PGACT" "offset_of s' r + n \<le> FLASH_PAGE_SIZE"
      using disj by auto
    have "page_room E s n r" "r < nvSize s" "r \<noteq> tailPage s"
      using a rs(2,4,5) by (auto simp: page_room_def same_geo_def driver_wf_def)
    then have "has_room E s n" by (auto simp: has_room_def list_ex_iff)
    then show thesis using that rs False a by blast
  qed
qed

end

subsection \<open>Writing an item\<close>

definition new_item :: "NVOCMP_itemHdr_t \<Rightarrow> cmem \<Rightarrow> nv_item" where
  "new_item h buf =
    \<lparr>it_sysid = sysid h, it_itemid = itemid h, it_subid = subid h, it_data = map buf [0..<len h],
     it_active = True\<rparr>"

lemma new_item_simps [simp]:
  "it_active (new_item h buf)" "it_id (new_item h buf) = (sysid h, itemid h, subid h)"
  "length (it_data (new_item h buf)) = len h" "item_size (new_item h buf) = 7 + len h"
  "it_data (new_item h buf) = map buf [0..<len h]"
  by (simp_all add: new_item_def it_id_def item_size_def)

lemma new_item_ok: "hdr_ok h \<Longrightarrow> 0 < len h \<Longrightarrow> len h < 4096 \<Longrightarrow> item_ok (new_item h buf)"
  by (simp add: new_item_def item_ok_def hdr_ok_def)

lemma new_item_cmpIH: "cmpIH (item_hdr (new_item h buf)) = cmpIH h"
  by (simp add: cmpIH_def item_hdr_def new_item_def)

lemma enc_new_item:
  "enc_item E (new_item h buf) =
    map buf [0..<len h] @ cmpIH_crc (cmpIH h) (crc_update E 0 (map buf [0..<len h] @ cmpIH h))"
  by (simp add: enc_item_def enc_hdr_def item_crc_def new_item_cmpIH Let_def)

text \<open>The state after an item of \<open>n\<close> bytes was added to the active page.\<close>

definition advance :: "nat \<Rightarrow> nat \<Rightarrow> 'f nv \<Rightarrow> 'f nv" where
  "advance pg n s = upd_page pg (\<lambda>p. p\<lparr>pi_offset := offset_of s pg + n\<rparr>) (s\<lparr>actOffset := actOffset s + n\<rparr>)"

lemma advance_simps [simp]:
  "nvSize (advance q n s) = nvSize s" "tailPage (advance q n s) = tailPage s"
  "headPage (advance q n s) = headPage s" "actPage (advance q n s) = actPage s"
  "failW (advance q n s) = failW s" "failF (advance q n s) = failF s"
  "voltCheckFptr (advance q n s) = voltCheckFptr s" "actOffset (advance q n s) = actOffset s + n"
  "fbyte E (advance q n s) p x = fbyte E s p x"
  "offset_of (advance q n s) p = (if p = q then offset_of s q + n else offset_of s p)"
  by (simp_all add: advance_def upd_page_def fbyte_def offset_of_def)

lemma fbytes_advance [simp]: "fbytes E (advance q n s) p a b = fbytes E s p a b"
  by (simp add: fbytes_def)

lemma fbytes_failW [simp]: "fbytes E (s\<lparr>failW := e\<rparr>) p a b = fbytes E s p a b"
  by (simp add: fbytes_def)

lemma advance_wf:
  assumes d: "driver_wf E s" and wf: "pages_wf E s L" and q: "q = actPage s"
    and r: "same_ram s s1" "failW s1 = NVINTF_SUCCESS E"
    and it: "item_ok it" and fit: "offset_of s q + item_size it \<le> 2048"
    and new: "fbytes E s1 q (offset_of s q) (offset_of s q + item_size it) = enc_item E it"
    and fr: "\<And>p x. x < 2048 \<Longrightarrow> p \<noteq> q \<or> x < offset_of s q \<or> offset_of s q + item_size it \<le> x \<Longrightarrow>
               fbyte E s1 p x = fbyte E s p x"
  shows "driver_wf E (advance q (item_size it) s1)"
    and "pages_wf E (advance q (item_size it) s1) (L(q := L q @ [it]))"
proof -
  let ?s = "advance q (item_size it) s1" and ?o = "offset_of s q" and ?n = "item_size it"
  have ram: "nvSize s1 = nvSize s" "tailPage s1 = tailPage s" "offset_of s1 = offset_of s" "actPage s1 = q"
    "actOffset s1 = ?o" "failF s1 = failF s" "voltCheckFptr s1 = voltCheckFptr s"
    using r(1) d by (simp_all add: same_ram_def driver_wf_def q)
  show "driver_wf E ?s" using d r(2) ram by (simp add: driver_wf_def volt_ok_def q)
  have qp: "q < nvSize s" "q \<noteq> tailPage s" using d by (simp_all add: driver_wf_def q)
  have pw: "page_wf E s q (L q)" by (rule pages_wfD [OF wf qp])
  have o: "?o = 16 + items_size (L q)" "16 \<le> ?o" using pw by (simp_all add: page_wf_def items_at_def)
  have "items_at E s1 q (L q) ?o"
    by (rule items_at_cong [of E s]) (use pw fr fit in \<open>auto simp: page_wf_def\<close>)
  then have "items_at E s1 q (L q @ [it]) (?o + ?n)"
    using it new o by (simp add: items_at_snoc item_at_def)
  then have at: "items_at E ?s q (L q @ [it]) (?o + ?n)"
    by (auto simp: items_at_def)
  have "fbytes E s1 q (?o + ?n) 2048 = fbytes E s q (?o + ?n) 2048"
    by (rule fbytes_cong) (use fr in auto)
  also have "\<dots> = drop ?n (fbytes E s q ?o 2048)" by (simp add: drop_fbytes)
  finally have rest: "list_all P (fbytes E s q ?o 2048) \<Longrightarrow> list_all P (fbytes E s1 q (?o + ?n) 2048)" for P
    by (auto simp: list_all_iff dest: in_set_dropD)
  have st: "page_state E ?s q = page_state E s q" using fr [of 0 q] o by (simp add: page_state_def)
  have pq: "page_wf E ?s q (L q @ [it])"
    using pw at st fit rest ram(3) by (auto simp: page_wf_def)
  show "pages_wf E ?s (L(q := L q @ [it]))"
    unfolding pages_wf_def list_all_iff
  proof
    fix p assume "p \<in> set (data_pages ?s)"
    then have p: "p < nvSize s" "p \<noteq> tailPage s" using ram by auto
    show "page_wf E ?s p ((L(q := L q @ [it])) p)"
    proof (cases "p = q")
      case False
      have "page_wf E ?s p (L p)"
        by (rule page_wf_cong [OF pages_wfD [OF wf p]]) (use fr ram False in auto)
      then show ?thesis using False by simp
    qed (use pq in simp)
  qed
qed

lemma erased_and: "list_all (\<lambda>b. b = 0xFF) (fbytes E s q o' 2048) \<Longrightarrow> o' \<le> x \<Longrightarrow> x < 2048 \<Longrightarrow>
    fbyte E s q x AND b = (b :: byte)"
proof -
  assume "list_all (\<lambda>b. b = 0xFF) (fbytes E s q o' 2048)" "o' \<le> x" "x < 2048"
  then have "fbyte E s q x = 0xFF" by (auto simp: list_all_iff fbytes_def)
  moreover have "(0xFF::byte) = - 1" by simp
  ultimately show ?thesis by (metis and.left_neutral)
qed

context nor_flash
begin

lemma write_enc_ok:
  assumes v: "volt_ok s" and pg: "2048 * Suc q \<le> regionSize E" and o: "o' + length bs \<le> 2048"
    and erased: "list_all (\<lambda>b. b = 0xFF) (fbytes E s q o' 2048)"
  obtains s' where "NVOCMP_write E q o' bs s = (NVINTF_SUCCESS E, s')" and "same_ram s s'"
    and "failW s' = failW s"
    and "fbytes E s' q o' (o' + length bs) = bs"
    and "\<forall>p x. x < 2048 \<and> (p \<noteq> q \<or> x < o' \<or> o' + length bs \<le> x) \<longrightarrow> fbyte E s' p x = fbyte E s p x"
proof -
  have "fbyte E s q (o' + i) AND bs ! i = bs ! i" if "i < length bs" for i
    using erased_and [OF erased, of "o' + i"] o that by simp
  then obtain s' where w: "NVOCMP_write E q o' bs s = (NVINTF_SUCCESS E, s')" and p: "programmed E q o' bs s s'"
    using write_ok [OF v o pg] by blast
  show thesis
  proof (rule that [OF w])
    show "same_ram s s'" using programmed_same_ram [OF p] by simp
    show "failW s' = failW s" using p by (auto simp: programmed_def)
    show "fbytes E s' q o' (o' + length bs) = bs" by (rule programmed_fbytes [OF p])
    show "\<forall>p x. x < 2048 \<and> (p \<noteq> q \<or> x < o' \<or> o' + length bs \<le> x) \<longrightarrow> fbyte E s' p x = fbyte E s p x"
      using programmed_frame [OF p] by blast
  qed
qed

text \<open>The bytes of a small item go to Flash in one write, those of a large one in two.\<close>

lemma writeItem_bytes:
  assumes v: "volt_ok s" and pg: "2048 * Suc q \<le> regionSize E"
    and erased: "list_all (\<lambda>b. b = 0xFF) (fbytes E s q o' 2048)" and o: "offset_of s q = o'"
    and st: "page_state E s q = NVOCMP_PGACT" and fit: "o' + (7 + len h) \<le> 2048" and l: "len h < 4096"
  obtains s1 where "NVOCMP_writeItem E h q o' buf s = advance q (7 + len h) s1" and "same_ram s s1"
    and "failW s1 = NVINTF_SUCCESS E"
    and "fbytes E s1 q o' (o' + (7 + len h)) = enc_item E (new_item h buf)"
    and "\<And>p x. x < 2048 \<Longrightarrow> p \<noteq> q \<or> x < o' \<or> o' + (7 + len h) \<le> x \<Longrightarrow> fbyte E s1 p x = fbyte E s p x"
proof -
  let ?bytes = "map buf [0..<len h]" and ?n = "7 + len h"
  let ?hdr = "cmpIH_crc (cmpIH h) (crc_update E 0 (?bytes @ cmpIH h))"
  have u: "u16 (NVOCMP_ITEMHDRLEN + len h) = ?n" using l by (simp add: c_arith)
  have c: "(NVOCMP_PGACT = NVOCMP_PGRDY) = False" "(NVOCMP_PGACT \<noteq> NVOCMP_PGACT) = False"
    "(o' + ?n \<le> FLASH_PAGE_SIZE) = True" using fit by simp_all
  have fw: "failW (advance q ?n (s1\<lparr>failW := e\<rparr>)) = e" for s1 e by simp
  have adv: "upd_page q (\<lambda>p. p\<lparr>pi_offset := o' + ?n\<rparr>) (s1\<lparr>actOffset := actOffset s1 + ?n\<rparr>) = advance q ?n s1"
    if "same_ram s s1" for s1
    using that o by (simp add: advance_def same_ram_def)
  have or0: "NVINTF_SUCCESS E OR NVINTF_SUCCESS E = NVINTF_SUCCESS E" by simp
  show thesis
  proof (cases "?n \<le> 12")
    case True
    have len: "length (?bytes @ ?hdr) = ?n" by simp
    have fit0: "o' + length (?bytes @ ?hdr) \<le> 2048" using fit by simp
    obtain s1 where s1: "NVOCMP_write E q o' (?bytes @ ?hdr) s = (NVINTF_SUCCESS E, s1)" "same_ram s s1"
      "failW s1 = failW s"
      "fbytes E s1 q o' (o' + ?n) = ?bytes @ ?hdr"
      "\<forall>p x. x < 2048 \<and> (p \<noteq> q \<or> x < o' \<or> o' + ?n \<le> x) \<longrightarrow> fbyte E s1 p x = fbyte E s p x"
      by (rule write_enc_ok [OF v pg fit0 erased, unfolded len]) (rule that)
    have small: "(?n \<le> NVOCMP_SMALLITEM) = True" using True by simp
    have r1: "same_ram s (s1\<lparr>failW := NVINTF_SUCCESS E\<rparr>)" using s1(2) by simp
    have "NVOCMP_writeItem E h q o' buf s = advance q ?n (s1\<lparr>failW := NVINTF_SUCCESS E\<rparr>)"
      unfolding NVOCMP_writeItem_def Let_def ph_state_read st c u if_True if_False small
        NVOCMP_doRAMCRC_def s1(1) prod.case adv [OF r1] fw
      by simp
    then show thesis
      by (rule that) (use s1 in \<open>simp_all add: enc_new_item\<close>)
  next
    case False
    have l1: "length ?bytes = len h" and l2: "length ?hdr = 7" by simp_all
    have fit1: "o' + length ?bytes \<le> 2048" and fit2: "o' + len h + length ?hdr \<le> 2048"
      using fit by simp_all
    have crc: "crc_update E (crc_update E 0 ?bytes) (cmpIH h) = crc_update E 0 (?bytes @ cmpIH h)"
      by (simp add: crc_update_append)
    obtain s1 where s1: "NVOCMP_write E q o' ?bytes s = (NVINTF_SUCCESS E, s1)" "same_ram s s1"
      "failW s1 = failW s"
      "fbytes E s1 q o' (o' + len h) = ?bytes"
      "\<forall>p x. x < 2048 \<and> (p \<noteq> q \<or> x < o' \<or> o' + len h \<le> x) \<longrightarrow> fbyte E s1 p x = fbyte E s p x"
      by (rule write_enc_ok [OF v pg fit1 erased, unfolded l1]) (rule that)
    let ?s1 = "s1\<lparr>failW := NVINTF_SUCCESS E\<rparr>"
    have v1: "volt_ok ?s1" using v s1(2) by (simp add: volt_ok_def same_ram_def)
    have "fbytes E ?s1 q (o' + len h) 2048 = fbytes E s q (o' + len h) 2048"
      by (rule fbytes_cong) (use s1(5) in auto)
    also have "\<dots> = drop (len h) (fbytes E s q o' 2048)" by (simp add: drop_fbytes)
    finally have e1: "list_all (\<lambda>b. b = 0xFF) (fbytes E ?s1 q (o' + len h) 2048)"
      using erased by (auto simp: list_all_iff dest: in_set_dropD)
    obtain s2 where s2: "NVOCMP_write E q (o' + len h) ?hdr ?s1 = (NVINTF_SUCCESS E, s2)" "same_ram ?s1 s2"
      "failW s2 = failW ?s1" "fbytes E s2 q (o' + len h) (o' + len h + 7) = ?hdr"
      "\<forall>p x. x < 2048 \<and> (p \<noteq> q \<or> x < o' + len h \<or> o' + len h + 7 \<le> x) \<longrightarrow> fbyte E s2 p x = fbyte E ?s1 p x"
      by (rule write_enc_ok [OF v1 pg fit2 e1, unfolded l2]) (rule that)
    have r2: "same_ram s s2" using s1(2) s2(2) same_ram_trans [of s ?s1 s2] by simp
    let ?s2 = "s2\<lparr>failW := NVINTF_SUCCESS E\<rparr>"
    have "fbytes E s2 q o' (o' + len h) = fbytes E s1 q o' (o' + len h)"
      by (rule fbytes_cong) (use s2(5) fit in auto)
    then have "fbytes E ?s2 q o' (o' + ?n) = ?bytes @ ?hdr"
      using fbytes_append [of o' "o' + len h" "o' + ?n" E s2 q] s1(4) s2(4)
      by (simp add: fbytes_flash_cong [of ?s2 s2] ac_simps)
    moreover have large: "(?n \<le> NVOCMP_SMALLITEM) = False" using False by simp
    moreover have or0': "failW ?s1 OR NVINTF_SUCCESS E = NVINTF_SUCCESS E" by simp
    moreover have r2': "same_ram s ?s2" using r2 by simp
    moreover have "NVOCMP_writeItem E h q o' buf s = advance q ?n ?s2"
      unfolding NVOCMP_writeItem_def Let_def ph_state_read st c u if_True if_False large
        NVOCMP_doRAMCRC_def crc s1(1) s2(1) prod.case s2(3) or0' adv [OF r2']
      by simp
    moreover have "fbyte E ?s2 p x = fbyte E s p x" if "x < 2048" "p \<noteq> q \<or> x < o' \<or> o' + ?n \<le> x" for p x
      using s2(5) s1(5) that by auto
    ultimately show thesis
      by (intro that [of ?s2]) (use r2 in \<open>simp_all add: enc_new_item\<close>)
  qed
qed

lemma writeItem_ok:
  assumes d: "driver_wf E s" and wf: "pages_wf E s L" and q: "q = actPage s"
    and st: "page_state E s q = NVOCMP_PGACT" and fit: "offset_of s q + (7 + len h) \<le> FLASH_PAGE_SIZE"
    and h: "hdr_ok h" "0 < len h" "len h < 4096"
  obtains s' where "NVOCMP_writeItem E h q (actOffset s) buf s = s'" and "driver_wf E s'"
    and "pages_wf E s' (L(q := L q @ [new_item h buf]))"
    and "nvSize s' = nvSize s" and "tailPage s' = tailPage s"
proof -
  define o' where "o' = offset_of s q"
  define it where "it = new_item h buf"
  let ?bytes = "map buf [0..<len h]" and ?n = "7 + len h"
  let ?crc = "crc_update E 0 (?bytes @ cmpIH h)"
  have qp: "q < nvSize s" "q \<noteq> tailPage s" and v: "volt_ok s" and ao: "actOffset s = o'"
    using d by (simp_all add: driver_wf_def q o'_def)
  have pg: "2048 * Suc q \<le> regionSize E" by (rule driver_wf_region [OF d qp(1)])
  have erased: "list_all (\<lambda>b. b = 0xFF) (fbytes E s q o' 2048)"
    using pages_wfD [OF wf qp] st by (simp add: page_wf_def o'_def)
  have fit': "o' + ?n \<le> 2048" and u: "u16 ?n = ?n" using fit h(3) by (simp_all add: o'_def c_arith)
  have size: "item_size it = ?n" by (simp add: it_def)
  have enc: "enc_item E it = ?bytes @ cmpIH_crc (cmpIH h) ?crc" by (simp only: it_def enc_new_item)
  obtain s1 where s1: "NVOCMP_writeItem E h q (actOffset s) buf s = advance q ?n s1" "same_ram s s1"
    "failW s1 = NVINTF_SUCCESS E" "fbytes E s1 q o' (o' + ?n) = enc_item E it"
    and fr: "\<And>p x. x < 2048 \<Longrightarrow> p \<noteq> q \<or> x < o' \<or> o' + ?n \<le> x \<Longrightarrow> fbyte E s1 p x = fbyte E s p x"
    using writeItem_bytes [OF v pg erased o'_def [symmetric] st fit' h(3), of buf] unfolding ao it_def by blast
  have "driver_wf E (advance q (item_size it) s1)" "pages_wf E (advance q (item_size it) s1) (L(q := L q @ [it]))"
    by (rule advance_wf [OF d wf q s1(2,3)]; use h fit' s1(4) fr in \<open>simp add: size o'_def it_def new_item_ok\<close>)+
  then show thesis
    using that s1(1,2) unfolding size it_def by (auto simp: same_ram_def)
qed

end

end
