(* ===== verification/NvInit.thy ===== *)
theory NvInit
  imports NvLayout
begin

text \<open>
  Start-up of the NV driver (\<^verbatim>\<open>NVOCMP_initNv\<close> for more than two pages and \<^verbatim>\<open>NVOCMP_initNvApi\<close>): the
  pages are scanned and counted by state, the recovery action is chosen from the counts, and the
  action is carried out. \<open>None\<close> is the endless loop of \<^verbatim>\<open>NVOCMP_ASSERT1(0)\<close>, or a compaction that
  does not return.
\<close>

record init_counts =
  noPgNact :: nat
  noPgXdst :: nat
  noPgRdy :: nat
  noPgAct :: nat
  noPgFull :: nat
  noPgXsrc :: nat
  noPgNdef :: nat
  pgXdst :: nat
  pgRdy :: nat
  pgAct :: nat
  pgNact :: nat

definition init_counts0 :: init_counts where
  "init_counts0 =
    \<lparr>noPgNact = 0, noPgXdst = 0, noPgRdy = 0, noPgAct = 0, noPgFull = 0, noPgXsrc = 0, noPgNdef = 0,
     pgXdst = NVOCMP_NULLPAGE, pgRdy = NVOCMP_NULLPAGE, pgAct = NVOCMP_NULLPAGE,
     pgNact = NVOCMP_NULLPAGE\<rparr>"

definition count_page :: "nat \<Rightarrow> byte \<Rightarrow> init_counts \<Rightarrow> init_counts" where
  "count_page pg st k =
    (if st = NVOCMP_PGNACT then k\<lparr>noPgNact := noPgNact k + 1, pgNact := pg\<rparr>
     else if st = NVOCMP_PGXDST then k\<lparr>pgXdst := pg, noPgXdst := noPgXdst k + 1\<rparr>
     else if st = NVOCMP_PGRDY then k\<lparr>pgRdy := pg, noPgRdy := noPgRdy k + 1\<rparr>
     else if st = NVOCMP_PGACT then k\<lparr>pgAct := pg, noPgAct := noPgAct k + 1\<rparr>
     else if st = NVOCMP_PGFULL then k\<lparr>noPgFull := noPgFull k + 1\<rparr>
     else if st = NVOCMP_PGXSRC then k\<lparr>noPgXsrc := noPgXsrc k + 1\<rparr>
     else k\<lparr>noPgNdef := noPgNdef k + 1\<rparr>)"

text \<open>The scan loop; it stops at the first page whose scan fails.\<close>

fun initNv_scan ::
  "'f nvs_env \<Rightarrow> nat list \<Rightarrow> init_counts \<Rightarrow> 'f nv \<Rightarrow> init_counts option \<times> 'f nv" where
  "initNv_scan E [] k s = (Some k, s)"
| "initNv_scan E (pg # pgs) k s =
    (case NVOCMP_scanPage E pg s of (status, s) \<Rightarrow>
       if status \<noteq> NVINTF_SUCCESS E then (None, s)
       else initNv_scan E pgs (count_page pg (pi_state (pageInfo s pg)) k) s)"

text \<open>The choice of the action; it may set \<^verbatim>\<open>pgXdst\<close> and, in one branch, change a page state.\<close>

definition initNv_action ::
  "'f nvs_env \<Rightarrow> init_counts \<Rightarrow> 'f nv \<Rightarrow> NVOCMP_initAction_t \<times> nat \<times> 'f nv" where
  "initNv_action E k s =
    (if 0 < noPgNdef k \<or> 1 < noPgXdst k \<or> 1 < noPgXsrc k \<or> 1 < noPgRdy k
     then (NVOCMP_FORCE_CLEAN, pgXdst k, s)
     else if noPgNact k = nvSize s then (NVOCMP_NORMAL_INIT, pgXdst k, s)
     else if noPgXsrc k \<noteq> 0 then
       (if noPgXdst k \<noteq> 0 then (NVOCMP_RECOVER_COMPACT, pgXdst k, s)
        else if noPgNact k \<noteq> 0 then (NVOCMP_RECOVER_COMPACT, pgNact k, s)
        else if NVOCMP_findDstPage s < nvSize s then (NVOCMP_RECOVER_ERASE, pgXdst k, s)
        else (NVOCMP_ERROR_UNKNOWN, pgXdst k, s))
     else if noPgXdst k \<noteq> 0 then (NVOCMP_NORMAL_RESUME, pgXdst k, s)
     else if noPgAct k \<noteq> 0 \<or> noPgFull k \<noteq> 0 then
       (if NVOCMP_findDstPage s < nvSize s then (NVOCMP_RECOVER_ERASE, pgXdst k, s)
        else if noPgNact k \<noteq> 0 then
          (NVOCMP_NORMAL_RESUME, pgNact k, NVOCMP_changePageState E (tailPage s) NVOCMP_PGXDST s)
        else (NVOCMP_ERROR_UNKNOWN, pgXdst k, s))
     else (NVOCMP_FORCE_CLEAN, pgXdst k, s))"

text \<open>\<^verbatim>\<open>NVOCMP_failW |= NVOCMP_erase(pNvHandle, pg)\<close> for each page, the call before the read of the flag.\<close>

fun erase_pages :: "'f nvs_env \<Rightarrow> nat list \<Rightarrow> 'f nv \<Rightarrow> 'f nv" where
  "erase_pages E [] s = s"
| "erase_pages E (pg # pgs) s =
    (case NVOCMP_erase E pg s of (err, s) \<Rightarrow> erase_pages E pgs (s\<lparr>failW := failW s OR err\<rparr>))"

definition fresh_pages :: "'f nvs_env \<Rightarrow> 'f nv \<Rightarrow> 'f nv" where
  "fresh_pages E s =
    (let s = s\<lparr>headPage := 0, tailPage := nvSize s - 1, actPage := 0, actOffset := offset_of s 0\<rparr>;
         s = NVOCMP_changePageState E (headPage s) NVOCMP_PGRDY s
     in NVOCMP_changePageState E (tailPage s) NVOCMP_PGXDST s)"

definition initNv_resume :: "'f nvs_env \<Rightarrow> init_counts \<Rightarrow> nat \<Rightarrow> 'f nv \<Rightarrow> 'f nv option" where
  "initNv_resume E k xdst s =
    (let s = s\<lparr>tailPage := xdst\<rparr>;
         s = s\<lparr>headPage := NVOCMP_INCPAGE s xdst\<rparr>
     in if pgAct k \<noteq> NVOCMP_NULLPAGE then
          (let s = s\<lparr>actPage := pgAct k, actOffset := offset_of s (pgAct k)\<rparr>
           in if NVOCMP_PGDATAOFS + NVOCMP_ITEMHDRLEN < actOffset s then
                (let iHdr = NVOCMP_readHeader E s (actPage s) (actOffset s - NVOCMP_ITEMHDRLEN)
                 in if stats iHdr AND NVOCMP_FOLLOWBIT \<noteq> 0 then do {
                      (status, hdr, pInfo, s) \<leftarrow> NVOCMP_findItem E (actPage s)
                        (sub16 (actOffset s) (NVOCMP_ITEMHDRLEN + len iHdr)) iHdr NVOCMP_FINDSTRICT None s;
                      Some (if status = NVINTF_SUCCESS E \<and> 0 < hofs hdr
                            then NVOCMP_setItemInactive E (hpage hdr) (hofs hdr) s else s)
                    }
                    else map_option snd (NVOCMP_compactPage E 0 s))
              else Some s)
        else if pgRdy k \<noteq> NVOCMP_NULLPAGE then
          Some (s\<lparr>actPage := pgRdy k, actOffset := offset_of s (pgRdy k)\<rparr>)
        else Some (s\<lparr>actPage := headPage s, actOffset := offset_of s (headPage s)\<rparr>))"

definition initNv_recover_compact :: "'f nvs_env \<Rightarrow> nat \<Rightarrow> 'f nv \<Rightarrow> 'f nv option" where
  "initNv_recover_compact E xdst s =
    (let s = s\<lparr>tailPage := xdst\<rparr>;
         s = s\<lparr>headPage := NVOCMP_INCPAGE s xdst\<rparr>
     in case NVOCMP_erase E xdst s of (err, s) \<Rightarrow>
          let s = NVOCMP_changePageState E xdst NVOCMP_PGXDST (s\<lparr>failW := err\<rparr>)
          in map_option snd (NVOCMP_compactPage E 0 (s\<lparr>forceCompact := True\<rparr>)))"

definition first_page_in :: "'f nvs_env \<Rightarrow> 'f nv \<Rightarrow> byte list \<Rightarrow> nat" where
  "first_page_in E s sts =
    foldr (\<lambda>st rest. let pg = NVOCMP_findPage E s st in if pg = NVOCMP_NULLPAGE then rest else pg)
      sts (headPage s)"

definition initNv_recover_erase :: "'f nvs_env \<Rightarrow> 'f nv \<Rightarrow> 'f nv option" where
  "initNv_recover_erase E s =
    (let pg = NVOCMP_findDstPage s;
         s = upd_cinfo (\<lambda>i. i\<lparr>xDstPage := pg, xSrcSPage := pi_sPage (pageInfo s pg),
                              xSrcEPage := pi_ePage (pageInfo s pg)\<rparr>) s
     in do {
       (cleanPages, s) \<leftarrow> NVOCMP_cleanPage E s;
       let s = s\<lparr>tailPage := NVOCMP_ADDPAGE s pg cleanPages\<rparr>;
       let s = s\<lparr>headPage := NVOCMP_INCPAGE s (tailPage s)\<rparr>;
       let tmpPg = first_page_in E s [NVOCMP_PGACT, NVOCMP_PGRDY, NVOCMP_PGNACT, NVOCMP_PGFULL];
       let s = s\<lparr>actPage := tmpPg, actOffset := offset_of s tmpPg\<rparr>;
       Some (NVOCMP_changePageState E (tailPage s) NVOCMP_PGXDST s)
     })"

definition initNv_perform ::
  "'f nvs_env \<Rightarrow> init_counts \<Rightarrow> NVOCMP_initAction_t \<Rightarrow> nat \<Rightarrow> 'f nv \<Rightarrow> 'f nv option" where
  "initNv_perform E k action xdst s =
    (case action of
       NVOCMP_FORCE_CLEAN \<Rightarrow> Some (fresh_pages E (erase_pages E [0..<nvSize s] s))
     | NVOCMP_NORMAL_INIT \<Rightarrow> Some (fresh_pages E s)
     | NVOCMP_NORMAL_RESUME \<Rightarrow> initNv_resume E k xdst s
     | NVOCMP_RECOVER_COMPACT \<Rightarrow> initNv_recover_compact E xdst s
     | NVOCMP_RECOVER_ERASE \<Rightarrow> initNv_recover_erase E s
     | NVOCMP_NORMAL_MIGRATE \<Rightarrow> Some s
     | NVOCMP_ERROR_UNKNOWN \<Rightarrow> None)"

definition NVOCMP_initNv :: "'f nvs_env \<Rightarrow> 'f nv \<Rightarrow> 'f nv option" where
  "NVOCMP_initNv E s =
    (case initNv_scan E [0..<nvSize s] init_counts0 s of
       (None, s) \<Rightarrow> Some s
     | (Some k, s) \<Rightarrow>
         (case initNv_action E k s of (action, xdst, s) \<Rightarrow>
            initNv_perform E k action xdst (s\<lparr>gAction := action\<rparr>)))"

definition zero_pageInfo :: NVOCMP_pageInfo_t where
  "zero_pageInfo =
    \<lparr>pi_state = 0, pi_cycle = 0, pi_mode = 0, pi_allActive = 0, pi_sPage = 0, pi_ePage = 0,
     pi_offset = 0, pi_sOffset = 0, pi_eOffset = 0\<rparr>"

definition ff_compactInfo :: NVOCMP_compactInfo_t where
  "ff_compactInfo =
    \<lparr>xDstPage = 0xFF, xSrcSPage = 0xFF, xSrcEPage = 0xFF, xSrcPages = 0xFF, xDstOffset = 0xFFFF,
     xSrcSOffset = 0xFFFF, xSrcEOffset = 0xFFFF\<rparr>"

definition NVOCMP_initNvApi :: "'f nvs_env \<Rightarrow> 'f nv \<Rightarrow> (byte \<times> 'f nv) option" where
  "NVOCMP_initNvApi E s =
    (let s = s\<lparr>failW := failF s\<rparr>
     in if failF s = NVINTF_NOTREADY E then
          (let s = s\<lparr>failF := NVINTF_SUCCESS E, failW := NVINTF_SUCCESS E\<rparr>
           in if \<not> mutex_ok E then Some (NVINTF_FAILURE E, s\<lparr>failF := NVINTF_FAILURE E\<rparr>)
              else
                (let n = u8 (regionSize E div sectorSize E);
                     n = (if NVOCMP_NVPAGES < n then NVOCMP_NVPAGES else n);
                     s = s\<lparr>nvSize := n, headPage := 0, tailPage := 0, actPage := 0,
                           forceCompact := False, actOffset := 0, compactInfo := ff_compactInfo,
                           pageInfo := (\<lambda>_. zero_pageInfo)\<rparr>
                 in if FLASH_PAGE_SIZE \<noteq> sectorSize E \<or> regionSize E < n * FLASH_PAGE_SIZE \<or> handle_null E
                    then Some (NVINTF_FAILURE E, s\<lparr>failF := NVINTF_FAILURE E\<rparr>)
                    else do {
                      s \<leftarrow> NVOCMP_initNv E
                        (s\<lparr>actPage := NVOCMP_NULLPAGE, actOffset := FLASH_PAGE_SIZE\<rparr>);
                      Some (failW s, s)
                    }))
        else Some (failW s, s))"

end
