(* ===== verification/NvApi.thy ===== *)
theory NvApi
  imports NvInit
begin

text \<open>
  The API functions of the NV driver that \<^verbatim>\<open>NVOCMP_loadApiPtrsExt\<close> publishes, as functions on the
  driver state. A null pointer argument is \<open>None\<close>. Each function runs under the driver's mutex; the
  model is of the calls as they are serialised.
\<close>

definition NVOCMP_eraseNvApi :: "'f nvs_env \<Rightarrow> 'f nv \<Rightarrow> byte \<times> 'f nv" where
  "NVOCMP_eraseNvApi E s =
    (case NVOCMP_FLASHACCESS E s of (err, s) \<Rightarrow>
       if err \<noteq> NVINTF_SUCCESS E then (err, s)
       else (let s = erase_pages E [0..<nvSize s] s; err = failW s in (err, fresh_pages E s)))"

fun getFreeNv_loop :: "'f nvs_env \<Rightarrow> 'f nv \<Rightarrow> nat \<Rightarrow> nat \<Rightarrow> nat \<Rightarrow> nat" where
  "getFreeNv_loop E s 0 pg freespace = freespace"
| "getFreeNv_loop E s (Suc left) pg freespace =
    getFreeNv_loop E s left (NVOCMP_INCPAGE s pg)
      (let st = ph_state (NVOCMP_readPageHdr E s pg)
       in if pg \<noteq> tailPage s \<and> (st = NVOCMP_PGNACT \<or> st = NVOCMP_PGRDY \<or> st = NVOCMP_PGACT)
          then (freespace + 2 ^ 32 + FLASH_PAGE_SIZE - offset_of s pg) mod 2 ^ 32
          else freespace)"

definition NVOCMP_getFreeNvApi :: "'f nvs_env \<Rightarrow> 'f nv \<Rightarrow> nat" where
  "NVOCMP_getFreeNvApi E s = getFreeNv_loop E s (nvSize s) (actPage s) 0"

definition NVOCMP_compactNvApi :: "'f nvs_env \<Rightarrow> nat \<Rightarrow> 'f nv \<Rightarrow> (byte \<times> 'f nv) option" where
  "NVOCMP_compactNvApi E minAvail s =
    (case NVOCMP_FLASHACCESS E s of (err, s) \<Rightarrow>
       if err \<noteq> NVINTF_SUCCESS E then Some (err, s)
       else if failF s = NVINTF_SUCCESS E then
         (let left = s16 (int FLASH_PAGE_SIZE - int (actOffset s))
          in if left < int minAvail \<or> minAvail = 0 then do {
               (n, s) \<leftarrow> NVOCMP_compactPage E 0 s;
               Some (failW s, s)
             }
             else Some (NVINTF_BADPARAM E, s))
       else Some (failF s, s))"

definition NVOCMP_createItemApi ::
  "'f nvs_env \<Rightarrow> NVINTF_itemID_t \<Rightarrow> nat \<Rightarrow> cmem option \<Rightarrow> 'f nv \<Rightarrow> (byte \<times> 'f nv) option" where
  "NVOCMP_createItemApi E iid n pBuf s =
    (case pBuf of
       None \<Rightarrow> Some (NVINTF_BADPARAM E, s)
     | Some buf \<Rightarrow>
         if n = 0 then Some (NVINTF_BADPARAM E, s)
         else
           (case NVOCMP_checkItem E s iid (u16 n) of
              Inl err \<Rightarrow> Some (err, s)
            | Inr iHdr \<Rightarrow>
                (case NVOCMP_FLASHACCESS E s of (err, s) \<Rightarrow>
                   if err \<noteq> NVINTF_SUCCESS E then Some (err, s)
                   else do {
                     (err, iHdr, pInfo, s) \<leftarrow>
                       NVOCMP_findItem E (actPage s) (actOffset s) iHdr NVOCMP_FINDSTRICT None s;
                     if err = NVINTF_SUCCESS E then Some (NVINTF_EXIST E, s)
                     else if err = NVINTF_NOTFOUND E then do {
                       (err, iHdr, s) \<leftarrow> NVOCMP_addItem E iHdr buf NVOCMP_CREATE s;
                       Some (if err \<noteq> NVINTF_SUCCESS E then NVINTF_FAILURE E else err, s)
                     }
                     else Some (NVINTF_FAILURE E, s)
                   })))"

definition NVOCMP_updateItemApi ::
  "'f nvs_env \<Rightarrow> NVINTF_itemID_t \<Rightarrow> nat \<Rightarrow> cmem option \<Rightarrow> 'f nv \<Rightarrow> (byte \<times> 'f nv) option" where
  "NVOCMP_updateItemApi E iid n pBuf s =
    (case pBuf of
       None \<Rightarrow> Some (NVINTF_BADPARAM E, s)
     | Some buf \<Rightarrow>
         if n = 0 then Some (NVINTF_BADPARAM E, s)
         else
           (case NVOCMP_checkItem E s iid (u16 n) of
              Inl err \<Rightarrow> Some (err, s)
            | Inr iHdr \<Rightarrow>
                (case NVOCMP_FLASHACCESS E s of (err, s) \<Rightarrow>
                   if err \<noteq> NVINTF_SUCCESS E then Some (err, s)
                   else do {
                     (err, iHdr, pInfo, s) \<leftarrow>
                       NVOCMP_findItem E (actPage s) (actOffset s) iHdr NVOCMP_FINDSTRICT None s;
                     if err = NVINTF_SUCCESS E then do {
                       (err, iHdr, s) \<leftarrow> NVOCMP_addItem E iHdr buf NVOCMP_UPDATE s;
                       if err = NVINTF_SUCCESS E \<and> 0 < hofs iHdr then
                         (let s = NVOCMP_setItemInactive E (hpage iHdr) (hofs iHdr) s
                          in Some (failW s, s))
                       else Some (err, s)
                     }
                     else if err = NVINTF_NOTFOUND E then Some (NVINTF_NOTFOUND E, s)
                     else Some (NVINTF_FAILURE E, s)
                   })))"

definition NVOCMP_deleteItemApi ::
  "'f nvs_env \<Rightarrow> NVINTF_itemID_t \<Rightarrow> 'f nv \<Rightarrow> (byte \<times> 'f nv) option" where
  "NVOCMP_deleteItemApi E iid s =
    (case NVOCMP_checkItem E s iid 0 of
       Inl err \<Rightarrow> Some (err, s)
     | Inr iHdr \<Rightarrow>
         (case NVOCMP_FLASHACCESS E s of (err, s) \<Rightarrow>
            if err \<noteq> NVINTF_SUCCESS E then Some (err, s)
            else do {
              (err, iHdr, pInfo, s) \<leftarrow>
                NVOCMP_findItem E (actPage s) (actOffset s) iHdr NVOCMP_FINDSTRICT None s;
              if err = NVINTF_SUCCESS E then do {
                let s = NVOCMP_setItemInactive E (hpage iHdr) (hofs iHdr) s;
                (err, iHdr, pInfo, s) \<leftarrow>
                  NVOCMP_findItem E (actPage s) (actOffset s) iHdr NVOCMP_FINDSTRICT None s;
                Some (if err = NVINTF_NOTFOUND E then failW s else NVINTF_FAILURE E, s)
              }
              else Some (err, s)
            }))"

definition NVOCMP_getItemLenApi ::
  "'f nvs_env \<Rightarrow> NVINTF_itemID_t \<Rightarrow> 'f nv \<Rightarrow> (nat \<times> 'f nv) option" where
  "NVOCMP_getItemLenApi E iid s =
    (case NVOCMP_checkItem E s iid 0 of
       Inl err \<Rightarrow> Some (0, s)
     | Inr iHdr \<Rightarrow> do {
         (err, iHdr, pInfo, s) \<leftarrow>
           NVOCMP_findItem E (actPage s) (actOffset s) iHdr NVOCMP_FINDSTRICT None s;
         Some (if err \<noteq> NVINTF_SUCCESS E then 0 else len iHdr, s)
       })"

text \<open>
  The result of \<^verbatim>\<open>NVOCMP_readContItemApi\<close> holds \<^verbatim>\<open>*pSubId\<close> and the contents of \<^verbatim>\<open>rBuf\<close> too. Its
  parameter \<^verbatim>\<open>ofs\<close> is not used by the source.
\<close>

definition NVOCMP_readContItemApi ::
  "'f nvs_env \<Rightarrow> NVINTF_itemID_t \<Rightarrow> nat \<Rightarrow> cmem option \<Rightarrow> nat \<Rightarrow> byte list option \<Rightarrow> 'f nv \<Rightarrow>
   (byte \<times> nat \<times> cmem option \<times> 'f nv) option" where
  "NVOCMP_readContItemApi E iid rlen rbuf coff' cbuf s =
    (case (rbuf, cbuf) of
       (Some rb, Some cb) \<Rightarrow>
         if rlen = 0 \<or> length cb = 0 \<or> FLASH_PAGE_SIZE < coff'
         then Some (NVINTF_BADPARAM E, NVOCMP_INVALIDSUBID, rbuf, s)
         else
           (case NVOCMP_checkItem E s iid rlen of
              Inl err \<Rightarrow> Some (err, NVOCMP_INVALIDSUBID, rbuf, s)
            | Inr iHdr \<Rightarrow> do {
                (err, iHdr, pInfo, s) \<leftarrow>
                  NVOCMP_findItem E (actPage s) (actOffset s) iHdr
                    (NVOCMP_FINDITMID OR NVOCMP_FINDCONTENT)
                    (Some \<lparr>cBuf = cb, coff = coff', rBuf = rb, rlength = rlen\<rparr>) s;
                Some (err, if err = NVINTF_SUCCESS E then subid iHdr else NVOCMP_INVALIDSUBID,
                      map_option rBuf pInfo, s)
              })
     | _ \<Rightarrow> Some (NVINTF_BADPARAM E, NVOCMP_INVALIDSUBID, rbuf, s))"

definition NVOCMP_readItemApi ::
  "'f nvs_env \<Rightarrow> NVINTF_itemID_t \<Rightarrow> nat \<Rightarrow> nat \<Rightarrow> bool \<Rightarrow> 'f nv \<Rightarrow>
   (byte \<times> byte list \<times> 'f nv) option" where
  "NVOCMP_readItemApi E iid ofs n buf_null s =
    (if buf_null \<or> n = 0 then Some (NVINTF_BADPARAM E, [], s)
     else
       (case NVOCMP_checkItem E s iid n of
          Inl err \<Rightarrow> Some (err, [], s)
        | Inr iHdr \<Rightarrow> do {
            (err, iHdr, pInfo, s) \<leftarrow>
              NVOCMP_findItem E (actPage s) (actOffset s) iHdr NVOCMP_FINDSTRICT None s;
            if err = NVINTF_SUCCESS E then
              (case NVOCMP_readItem E s iHdr ofs n of (err, bs) \<Rightarrow> Some (err, bs, s))
            else Some (err, [], s)
          }))"

definition NVOCMP_writeItemApi ::
  "'f nvs_env \<Rightarrow> NVINTF_itemID_t \<Rightarrow> nat \<Rightarrow> cmem option \<Rightarrow> 'f nv \<Rightarrow> (byte \<times> 'f nv) option" where
  "NVOCMP_writeItemApi E iid n pBuf s =
    (case pBuf of
       None \<Rightarrow> Some (NVINTF_BADPARAM E, s)
     | Some buf \<Rightarrow>
         if n = 0 then Some (NVINTF_BADPARAM E, s)
         else
           (case NVOCMP_checkItem E s iid n of
              Inl err \<Rightarrow> Some (err, s)
            | Inr iHdr \<Rightarrow>
                (case NVOCMP_FLASHACCESS E s of (err, s) \<Rightarrow>
                   if err \<noteq> NVINTF_SUCCESS E then Some (err, s)
                   else do {
                     (err, iHdr, s) \<leftarrow> NVOCMP_addItem E iHdr buf NVOCMP_WRITE s;
                     if err = NVINTF_SUCCESS E \<and> 0 < hofs iHdr then
                       (let s = NVOCMP_setItemInactive E (hpage iHdr) (hofs iHdr) s
                        in Some (failW s, s))
                     else Some (err, s)
                   })))"

definition NVOCMP_expectCompApi :: "'f nvs_env \<Rightarrow> nat \<Rightarrow> 'f nv \<Rightarrow> bool \<times> 'f nv" where
  "NVOCMP_expectCompApi E n s =
    (if n \<noteq> 0 then
       (case NVOCMP_getDstPage E (u16 (NVOCMP_ITEMHDRLEN + n)) s of (dstPg, s) \<Rightarrow>
          (dstPg = NVOCMP_NULLPAGE, s))
     else (False, s))"

subsection \<open>NVOCMP_doNextApi\<close>

datatype next_op = doFind | doRead | doDelete

text \<open>The static variables of the function, and the proxy the caller passes.\<close>

record next_vars =
  n_op :: next_op
  n_search :: nat
  n_sPage :: nat
  n_fOfs :: nat
  n_bufLen :: nat
  n_initialFindiofs :: int
  n_initialsPage :: nat

record NVINTF_nvProxy_t =
  px_sysid :: nat
  px_itemid :: nat
  px_subid :: nat
  px_len :: nat
  px_flag :: byte
  px_buffer :: "cmem option"

definition next_start :: "'f nvs_env \<Rightarrow> 'f nv \<Rightarrow> NVINTF_nvProxy_t \<Rightarrow> next_vars \<Rightarrow> next_vars" where
  "next_start E s prx v =
    (let flag = px_flag prx
     in v\<lparr>n_sPage := actPage s, n_fOfs := actOffset s, n_initialFindiofs := - 1,
          n_initialsPage := 0xFF, n_bufLen := px_len prx,
          n_search := (if flag AND NVINTF_DOSYSID E \<noteq> 0 then NVOCMP_FINDSYSID
                       else if flag AND NVINTF_DOITMID E \<noteq> 0 then NVOCMP_FINDITMID
                       else if flag AND NVINTF_DOANYID E \<noteq> 0 then NVOCMP_FINDANY
                       else n_search v),
          n_op := (if flag AND NVINTF_DOFIND E \<noteq> 0 then doFind
                   else if flag AND NVINTF_DOREAD E \<noteq> 0 then doRead
                   else if flag AND NVINTF_DODELETE E \<noteq> 0 then doDelete
                   else n_op v)\<rparr>)"

definition next_apply ::
  "'f nvs_env \<Rightarrow> NVOCMP_itemHdr_t \<Rightarrow> next_vars \<Rightarrow> NVINTF_nvProxy_t \<Rightarrow> 'f nv \<Rightarrow>
   byte \<times> NVINTF_nvProxy_t \<times> 'f nv" where
  "next_apply E hdr v prx s =
    (case n_op v of
       doFind \<Rightarrow> (NVINTF_SUCCESS E, prx, s)
     | doRead \<Rightarrow>
         (if px_buffer prx \<noteq> None \<and> len hdr \<le> n_bufLen v then
            (case NVOCMP_readItem E s hdr 0 (len hdr) of (err, bs) \<Rightarrow>
               (err, if err = NVINTF_SUCCESS E then prx\<lparr>px_buffer := map_option (mem_write bs) (px_buffer prx)\<rparr> else prx, s))
          else (NVINTF_SUCCESS E, prx, s))
     | doDelete \<Rightarrow>
         (NVINTF_SUCCESS E, prx,
          if px_sysid prx \<noteq> NVINTF_SYSID_NVDRVR E
          then NVOCMP_setItemInactive E (hpage hdr) (hofs hdr) s else s))"

definition NVOCMP_doNextApi ::
  "'f nvs_env \<Rightarrow> NVINTF_nvProxy_t option \<Rightarrow> next_vars \<Rightarrow> 'f nv \<Rightarrow>
   (byte \<times> NVINTF_nvProxy_t option \<times> next_vars \<times> 'f nv) option" where
  "NVOCMP_doNextApi E pprx v s =
    (case pprx of
       None \<Rightarrow> Some (NVINTF_BADPARAM E, None, v, s)
     | Some prx \<Rightarrow>
         if px_flag prx = 0 then Some (NVINTF_BADPARAM E, Some prx, v, s)
         else
           (let start = px_flag prx AND NVINTF_DOSTART E \<noteq> 0;
                prx = (if start then prx\<lparr>px_flag := px_flag prx AND NOT (NVINTF_DOSTART E)\<rparr> else prx);
                v = (if start then next_start E s prx v else v);
                hdr0 = \<lparr>cmpid = 0, subid = px_subid prx, itemid = px_itemid prx, sysid = px_sysid prx,
                        crc8 = 0, sig = 0, stats = 0, hofs = 0, len = 0, hpage = 0\<rparr>
            in do {
              (err, hdr, pInfo, s) \<leftarrow> NVOCMP_findItem E (n_sPage v) (n_fOfs v) hdr0 (n_search v) None s;
              if err \<noteq> NVINTF_SUCCESS E then Some (NVINTF_NOTFOUND E, Some prx, v, s)
              else do {
                let prx = prx\<lparr>px_sysid := sysid hdr, px_itemid := itemid hdr, px_subid := subid hdr,
                              px_len := len hdr\<rparr>;
                let nowrap = (px_flag prx AND 0x80 \<noteq> 0);
                let again = (nowrap \<and> n_initialFindiofs v = int (hofs hdr) \<and> n_initialsPage v = hpage hdr);
                let v = (if nowrap \<and> n_initialFindiofs v = - 1 \<and> n_initialsPage v = 0xFF
                         then v\<lparr>n_initialFindiofs := int (hofs hdr), n_initialsPage := hpage hdr\<rparr>
                         else v);
                let v = v\<lparr>n_fOfs := sub16 (hofs hdr) (len hdr), n_sPage := hpage hdr\<rparr>;
                if again then Some (NVINTF_NOTFOUND E, Some prx, v, s)
                else (case next_apply E hdr v prx s of (status, prx, s) \<Rightarrow> Some (status, Some prx, v, s))
              }
            }))"

end
