(* ===== verification/KvStore.thy ===== *)
theory KvStore
  imports Main
begin

text \<open>
  The interface of a key-value store, which the settings and item stores of the platforms provide:
  an invariant, the map a state stands for, and operations that succeed under a stated condition. The
  lemmas on sequences of operations are proved once here.
\<close>

datatype ('k, 'v) kv_cmd = Put 'k 'v | Del 'k

fun kv_apply :: "('k, 'v) kv_cmd \<Rightarrow> ('k \<rightharpoonup> 'v) \<Rightarrow> ('k \<rightharpoonup> 'v)" where
  "kv_apply (Put k v) m = m(k \<mapsto> v)"
| "kv_apply (Del k) m = m(k := None)"

locale kv_store =
  fixes inv :: "'s \<Rightarrow> bool"
    and val :: "'s \<Rightarrow> 'k \<rightharpoonup> 'v"
    and key :: "'k \<Rightarrow> bool"
    and fits :: "'s \<Rightarrow> 'k \<Rightarrow> 'v \<Rightarrow> bool"
    and put :: "'k \<Rightarrow> 'v \<Rightarrow> 's \<Rightarrow> 's option"
    and del :: "'k \<Rightarrow> 's \<Rightarrow> 's option"
    and get :: "'s \<Rightarrow> 'k \<Rightarrow> 'v option"
  assumes put_ok: "inv s \<Longrightarrow> key k \<Longrightarrow> fits s k v \<Longrightarrow> \<exists>s'. put k v s = Some s' \<and> inv s' \<and> val s' = (val s)(k \<mapsto> v)"
    and del_ok: "inv s \<Longrightarrow> key k \<Longrightarrow> \<exists>s'. del k s = Some s' \<and> inv s' \<and> val s' = (val s)(k := None)"
    and get_ok: "inv s \<Longrightarrow> key k \<Longrightarrow> get s k = val s k"
begin

fun step :: "('k, 'v) kv_cmd \<Rightarrow> 's \<Rightarrow> 's option" where
  "step (Put k v) s = put k v s"
| "step (Del k) s = del k s"

fun run :: "('k, 'v) kv_cmd list \<Rightarrow> 's \<Rightarrow> 's option" where
  "run [] s = Some s"
| "run (c # cs) s = Option.bind (step c s) (run cs)"

fun enabled :: "'s \<Rightarrow> ('k, 'v) kv_cmd \<Rightarrow> bool" where
  "enabled s (Put k v) = (key k \<and> fits s k v)"
| "enabled s (Del k) = key k"

text \<open>Every command of the sequence is enabled in the state it meets.\<close>

fun all_enabled :: "'s \<Rightarrow> ('k, 'v) kv_cmd list \<Rightarrow> bool" where
  "all_enabled s [] = True"
| "all_enabled s (c # cs) = (enabled s c \<and> (case step c s of None \<Rightarrow> False | Some s' \<Rightarrow> all_enabled s' cs))"

lemma step_ok:
  "inv s \<Longrightarrow> enabled s c \<Longrightarrow> \<exists>s'. step c s = Some s' \<and> inv s' \<and> val s' = kv_apply c (val s)"
  by (cases c) (use put_ok del_ok in auto)

lemma run_ok:
  "inv s \<Longrightarrow> all_enabled s cs \<Longrightarrow> \<exists>s'. run cs s = Some s' \<and> inv s' \<and> val s' = fold kv_apply cs (val s)"
proof (induction cs arbitrary: s)
  case (Cons c cs)
  obtain s' where "step c s = Some s'" "inv s'" "val s' = kv_apply c (val s)"
    using step_ok [OF Cons.prems(1)] Cons.prems(2) by auto
  then show ?case using Cons.IH [of s'] Cons.prems(2) by auto
qed simp

lemma get_after_put:
  assumes "inv s" and "key k" and "fits s k v" and "key k'"
  shows "\<exists>s'. put k v s = Some s' \<and> inv s' \<and> get s' k' = (if k' = k then Some v else get s k')"
  using put_ok [OF assms(1-3)] get_ok assms by fastforce

lemma get_after_del:
  assumes "inv s" and "key k" and "key k'"
  shows "\<exists>s'. del k s = Some s' \<and> inv s' \<and> get s' k' = (if k' = k then None else get s k')"
  using del_ok [OF assms(1,2)] get_ok assms by fastforce

end

end
