(* ===== verification/NvStore.thy ===== *)
theory NvStore
  imports NvApi KvStore "HOL-Library.Sublist"
begin

text \<open>
  The NV driver as a key-value store: on a well-formed state with room on some page, the API
  functions read, create, write, update and delete the entries of the map \<open>layout_map\<close>.
\<close>

subsection \<open>Well-formed states\<close>

lemma nv_wfD:
  assumes "nv_wf E s L"
  shows "driver_wf E s" and "pages_wf E s L" and "ids_distinct s L"
  using assms by (simp_all add: nv_wf_def)

lemma nv_wf_geo:
  assumes "nv_wf E s L" and "driver_wf E s'" and "pages_wf E s' L" and "same_geo s s'"
  shows "nv_wf E s' L" and "layout_map s' L = layout_map s L"
  using assms layout_cong [of s' s L] by (auto simp: nv_wf_def same_geo_def)

definition valid_id :: "NVINTF_itemID_t \<Rightarrow> bool" where
  "valid_id i \<longleftrightarrow> systemID i \<le> NVOCMP_MAXSYSID \<and> itemID i \<le> NVOCMP_MAXITEMID \<and> subID i \<le> NVOCMP_MAXSUBID"

definition id_of :: "NVINTF_itemID_t \<Rightarrow> nv_id" where
  "id_of i = (systemID i, itemID i, subID i)"

definition req_hdr :: "NVINTF_itemID_t \<Rightarrow> nat \<Rightarrow> NVOCMP_itemHdr_t" where
  "req_hdr i n =
    \<lparr>cmpid = NVOCMP_CMPRID (systemID i) (itemID i) (subID i), subid = subID i, itemid = itemID i,
     sysid = systemID i, crc8 = 0, sig = NVOCMP_SIGNATURE, stats = 0, hofs = 0, len = n, hpage = 0\<rparr>"

lemma req_hdr_simps [simp]:
  "len (req_hdr i n) = n" "hofs (req_hdr i n) = 0"
  "(sysid (req_hdr i n), itemid (req_hdr i n), subid (req_hdr i n)) = id_of i"
  by (simp_all add: req_hdr_def id_of_def)

lemma hdr_ok_req: "valid_id i \<Longrightarrow> hdr_ok (req_hdr i n)"
  by (simp add: hdr_ok_def req_hdr_def valid_id_def)

text \<open>Every error of \<^verbatim>\<open>NVOCMP_checkItem\<close>, in the order of its tests, and its header.\<close>

lemma checkItem_ok:
  assumes "valid_id i" and "n \<le> NVOCMP_MAXLEN" and "failF s \<noteq> NVINTF_NOTREADY E"
  shows "NVOCMP_checkItem E s i n = Inr (req_hdr i n)"
  using assms by (simp add: NVOCMP_checkItem_def req_hdr_def valid_id_def)

context nvs
begin

lemma driver_wf_ready: "driver_wf E s \<Longrightarrow> failF s \<noteq> NVINTF_NOTREADY E"
  using code_neq(11) [symmetric] by (simp add: driver_wf_def)

lemma findItem_wf:
  assumes wf: "nv_wf E s L" and h: "hdr_ok h" and i: "i = (sysid h, itemid h, subid h)"
  shows "(layout_map s L i = None \<and>
      NVOCMP_findItem E (actPage s) (actOffset s) h NVOCMP_FINDSTRICT None s =
        Some (NVINTF_NOTFOUND E, h\<lparr>hofs := 0\<rparr>, None, s)) \<or>
    (\<exists>q xs it ys. q < nvSize s \<and> q \<noteq> tailPage s \<and> L q = xs @ it # ys \<and> it_active it \<and> it_id it = i \<and>
      layout_map s L i = Some (it_data it) \<and>
      NVOCMP_findItem E (actPage s) (actOffset s) h NVOCMP_FINDSTRICT None s =
        Some (NVINTF_SUCCESS E, stored_hdr E q (hdr_ofs xs it) it, None, s))"
proof -
  note d = nv_wfD [OF wf]
  have act: "actPage s < nvSize s" "actPage s \<noteq> tailPage s" "actOffset s = offset_of s (actPage s)"
    using d(1) by (simp_all add: driver_wf_def)
  have L: "items_at E s q (L q) (offset_of s q)" if "q < nvSize s" "q \<noteq> tailPage s" for q
    using pages_wfD [OF d(2) that] by (simp add: page_wf_def)
  let ?P = "item_matches 3 h"
  have P: "?P it \<longleftrightarrow> it_active it \<and> it_id it = i" for it by (simp add: item_matches_def i)
  have eq: "NVOCMP_findItem E (actPage s) (actOffset s) h NVOCMP_FINDSTRICT None s =
      Some (case find_in s L ?P (nvSize s) (actPage s) (L (actPage s)) of
              None \<Rightarrow> (NVINTF_NOTFOUND E, h\<lparr>hofs := 0\<rparr>, None, s)
            | Some (q, xs, it) \<Rightarrow> (NVINTF_SUCCESS E, stored_hdr E q (hdr_ofs xs it) it, None, s))"
    unfolding NVOCMP_findItem_def NVOCMP_FINDSTRICT_def
    by (rule findItem_loop_layout [OF h _ L]) (use act L in auto)
  note all = find_in_all_pages [OF act(1), of L ?P]
  show ?thesis
  proof (cases "find_in s L ?P (nvSize s) (actPage s) (L (actPage s))")
    case None
    then have "layout_map s L i = None"
      using all by (auto simp: layout_map_None set_live_items P) blast
    then show ?thesis using None eq by auto
  next
    case (Some r)
    then obtain q xs it ys where r: "r = (q, xs, it)" and q: "q < nvSize s" "q \<noteq> tailPage s"
      "L q = xs @ it # ys" "it_active it" "it_id it = i"
      using all by (cases r) (auto simp: P)
    have "layout_map s L i = Some (it_data it)"
      using q by (auto simp: layout_map_Some [OF d(3)] set_live_items intro!: bexI [of _ it] exI [of _ q])
    then show ?thesis using Some r q eq by auto
  qed
qed

lemma item_changed_eq:
  assumes "iOfs + n \<le> 65536" and "d < n"
  shows "item_changed E s pg iOfs n buf d \<longleftrightarrow> fbytes E s pg (iOfs + d) (iOfs + n) \<noteq> map buf [d..<n]"
  using assms(2)
proof (induction "n - d" arbitrary: d rule: less_induct)
  case less
  define m where "m = (if 32 < n - d then 32 else n - d)"
  have m: "0 < m" "d + m \<le> n" using less.prems by (auto simp: m_def)
  have u: "u16 (iOfs + d) = iOfs + d" using assms(1) less.prems by (simp add: c_arith)
  have unfold: "item_changed E s pg iOfs n buf d =
      (if fbytes E s pg (iOfs + d) (iOfs + d + m) \<noteq> map buf [d..<d + m] then True
       else if d + m < n then item_changed E s pg iOfs n buf (d + m) else False)"
    by (subst item_changed.simps) (simp only: Let_def read_eq u m_def [symmetric])
  have f: "fbytes E s pg (iOfs + d) (iOfs + n) =
      fbytes E s pg (iOfs + d) (iOfs + d + m) @ fbytes E s pg (iOfs + (d + m)) (iOfs + n)"
    using fbytes_append [of "iOfs + d" "iOfs + d + m" "iOfs + n" E s pg] m by (simp add: add.assoc)
  have g: "map buf [d..<n] = map buf [d..<d + m] @ map buf [d + m..<n]"
    using upt_append_split [of d "d + m" n] m by simp
  have split: "fbytes E s pg (iOfs + d) (iOfs + n) = map buf [d..<n] \<longleftrightarrow>
      fbytes E s pg (iOfs + d) (iOfs + d + m) = map buf [d..<d + m] \<and>
      fbytes E s pg (iOfs + (d + m)) (iOfs + n) = map buf [d + m..<n]"
    unfolding f g by (rule append_eq_append_conv) simp
  show ?case
  proof (cases "d + m < n")
    case True
    then have "item_changed E s pg iOfs n buf (d + m) \<longleftrightarrow>
        fbytes E s pg (iOfs + (d + m)) (iOfs + n) \<noteq> map buf [d + m..<n]"
      using less.hyps [of "d + m"] m by simp
    then show ?thesis using True by (simp add: unfold split)
  next
    case False
    then have "n = d + m" using m by simp
    then show ?thesis unfolding unfold split using False by (simp add: fbytes_def)
  qed
qed


subsection \<open>Reading\<close>

lemma readItemApi_wf:
  assumes wf: "nv_wf E s L" and i: "valid_id i" and n: "0 < n" "n \<le> NVOCMP_MAXLEN"
    and ofs: "ofs < 63488"
  shows "NVOCMP_readItemApi E i ofs n False s =
    Some (case layout_map s L (id_of i) of
            None \<Rightarrow> (NVINTF_NOTFOUND E, [], s)
          | Some d \<Rightarrow>
              if ofs + n \<le> length d then (NVINTF_SUCCESS E, take n (drop ofs d), s)
              else (if length d < n then NVINTF_BADLENGTH E else NVINTF_BADOFFSET E, [], s))"
proof -
  have c: "NVOCMP_checkItem E s i n = Inr (req_hdr i n)"
    by (rule checkItem_ok [OF i n(2) driver_wf_ready [OF nv_wfD(1) [OF wf]]])
  have "id_of i = (sysid (req_hdr i n), itemid (req_hdr i n), subid (req_hdr i n))" by simp
  from findItem_wf [OF wf hdr_ok_req [OF i] this] show ?thesis
  proof (elim disjE exE conjE)
    assume "layout_map s L (id_of i) = None"
      "NVOCMP_findItem E (actPage s) (actOffset s) (req_hdr i n) NVOCMP_FINDSTRICT None s =
        Some (NVINTF_NOTFOUND E, (req_hdr i n)\<lparr>hofs := 0\<rparr>, None, s)"
    then show ?thesis using c n by (simp add: NVOCMP_readItemApi_def)
  next
    fix q xs it ys
    assume q: "q < nvSize s" "q \<noteq> tailPage s" and L: "L q = xs @ it # ys"
      and m: "layout_map s L (id_of i) = Some (it_data it)"
      and f: "NVOCMP_findItem E (actPage s) (actOffset s) (req_hdr i n) NVOCMP_FINDSTRICT None s =
        Some (NVINTF_SUCCESS E, stored_hdr E q (hdr_ofs xs it) it, None, s)"
    have pw: "page_wf E s q (L q)" by (rule pages_wfD [OF nv_wfD(2) [OF wf] q])
    then have at: "item_at E s q (16 + items_size xs) it" and le: "16 + items_size xs + item_size it \<le> 2048"
      using items_at_mid [of E s q xs it ys "offset_of s q"] L by (auto simp: page_wf_def)
    have "NVOCMP_readItem E s (stored_hdr E q (hdr_ofs xs it) it) ofs n =
        (if ofs + n \<le> length (it_data it) then (NVINTF_SUCCESS E, take n (drop ofs (it_data it)))
         else (if length (it_data it) < n then NVINTF_BADLENGTH E else NVINTF_BADOFFSET E, []))"
      by (rule readItem_at [OF at le]) (use ofs le in \<open>auto simp: hdr_ofs_def\<close>)
    then show ?thesis using c n m f by (simp add: NVOCMP_readItemApi_def)
  qed
qed

lemma getItemLenApi_wf:
  assumes wf: "nv_wf E s L" and i: "valid_id i"
  shows "NVOCMP_getItemLenApi E i s =
    Some (case layout_map s L (id_of i) of None \<Rightarrow> 0 | Some d \<Rightarrow> length d, s)"
proof -
  have c: "NVOCMP_checkItem E s i 0 = Inr (req_hdr i 0)"
    by (rule checkItem_ok [OF i _ driver_wf_ready [OF nv_wfD(1) [OF wf]]]) simp
  have "id_of i = (sysid (req_hdr i 0), itemid (req_hdr i 0), subid (req_hdr i 0))" by simp
  from findItem_wf [OF wf hdr_ok_req [OF i] this] show ?thesis
    by (elim disjE exE conjE) (simp_all add: NVOCMP_getItemLenApi_def c, simp_all add: stored_hdr_def)
qed

end

subsection \<open>Deleting\<close>

text \<open>The state after a call that marks at most one item as inactive.\<close>

definition marked_from :: "'f nvs_env \<Rightarrow> 'f nv \<Rightarrow> 'f nv \<Rightarrow> bool" where
  "marked_from E s s' \<longleftrightarrow> s' = s \<or> (\<exists>q xs it. q < nvSize s \<and> q \<noteq> tailPage s \<and> hdr_ofs xs it + 7 \<le> 2048 \<and>
     s' = NVOCMP_setItemInactive E q (hdr_ofs xs it) s)"

lemma driver_wf_inactive:
  "driver_wf E s \<Longrightarrow> same_ram s s' \<Longrightarrow> failW s' = NVINTF_SUCCESS E \<Longrightarrow> driver_wf E s'"
  by (auto simp: driver_wf_def same_ram_def volt_ok_def)

context nor_flash
begin

lemma setItemInactive_wf:
  assumes d: "driver_wf E s" and wf: "pages_wf E s L" and q: "q < nvSize s" "q \<noteq> tailPage s"
    and L: "L q = xs @ it # ys" and act: "it_active it"
  obtains s' where "NVOCMP_setItemInactive E q (hdr_ofs xs it) s = s'" and "driver_wf E s'"
    and "pages_wf E s' (L(q := xs @ it\<lparr>it_active := False\<rparr> # ys))" and "same_ram s s'"
proof -
  have v: "volt_ok s" using d by (simp add: driver_wf_def)
  have pw: "page_wf E s q (xs @ it # ys)" using pages_wfD [OF wf q] L by simp
  obtain s' where s': "NVOCMP_setItemInactive E q (hdr_ofs xs it) s = s'" "same_ram s s'"
    "failW s' = NVINTF_SUCCESS E" "page_wf E s' q (xs @ it\<lparr>it_active := False\<rparr> # ys)"
    and fr: "\<And>p x. p \<noteq> q \<Longrightarrow> x < 2048 \<Longrightarrow> fbyte E s' p x = fbyte E s p x"
    using setItemInactive_page [OF v driver_wf_region [OF d q(1)] pw act] by blast
  have "page_wf E s' p ((L(q := xs @ it\<lparr>it_active := False\<rparr> # ys)) p)"
    if p: "p < nvSize s" "p \<noteq> tailPage s" for p
  proof (cases "p = q")
    case False
    have "page_wf E s' p (L p)"
      by (rule page_wf_cong [OF pages_wfD [OF wf p]]) (use s'(2) fr False in \<open>auto simp: same_ram_def\<close>)
    then show ?thesis using False by simp
  qed (use s'(4) in simp)
  then have "pages_wf E s' (L(q := xs @ it\<lparr>it_active := False\<rparr> # ys))"
    using s'(2) by (simp add: pages_wf_def list_all_iff same_ram_def)
  then show thesis using that s' driver_wf_inactive [OF d s'(2,3)] by blast
qed

lemma FLASHACCESS_wf:
  assumes "nv_wf E s L"
  obtains s' where "NVOCMP_FLASHACCESS E s = (NVINTF_SUCCESS E, s')" and "nv_wf E s' L"
    and "layout_map s' L = layout_map s L" and "same_ram s s'" and "flash s' = flash s"
proof -
  have "volt_ok s" using nv_wfD(1) [OF assms] by (simp add: driver_wf_def)
  then obtain v where v: "NVOCMP_FLASHACCESS E s = (NVINTF_SUCCESS E, s\<lparr>vcalls := v\<rparr>)"
    using volt_ok_FLASHACCESS by blast
  let ?s = "s\<lparr>vcalls := v\<rparr>"
  have r: "same_ram s ?s" by (simp add: same_ram_def offset_of_def fun_eq_iff)
  have d: "driver_wf E ?s"
    by (rule driver_wf_inactive [OF nv_wfD(1) [OF assms] r])
       (use nv_wfD(1) [OF assms] in \<open>simp add: driver_wf_def\<close>)
  have fb: "fbyte E ?s = fbyte E s" and of: "offset_of ?s = offset_of s"
    by (simp_all add: fun_eq_iff fbyte_def offset_of_def)
  have "pages_wf E ?s L = pages_wf E s L"
    by (simp add: pages_wf_def data_pages_def page_wf_def items_at_def fbytes_def page_state_def fb of)
  then have wf: "nv_wf E ?s L"
    using d nv_wfD [OF assms] layout_cong [of ?s s L] by (simp add: nv_wf_def)
  show thesis by (rule that [OF v wf]) (use r layout_cong [of ?s s L] in simp_all)
qed

lemma deleteItemApi_wf:
  assumes wf: "nv_wf E s L" and i: "valid_id i"
  shows "\<exists>s' L'. NVOCMP_deleteItemApi E i s =
      Some (if layout_map s L (id_of i) = None then NVINTF_NOTFOUND E else NVINTF_SUCCESS E, s') \<and>
    nv_wf E s' L' \<and> layout_map s' L' = (layout_map s L)(id_of i := None) \<and>
    (\<exists>s1. NVOCMP_FLASHACCESS E s = (NVINTF_SUCCESS E, s1) \<and> marked_from E s1 s')"
proof -
  have c: "NVOCMP_checkItem E s i 0 = Inr (req_hdr i 0)"
    by (rule checkItem_ok [OF i _ driver_wf_ready [OF nv_wfD(1) [OF wf]]]) simp
  obtain s1 where s1: "NVOCMP_FLASHACCESS E s = (NVINTF_SUCCESS E, s1)" and wf1: "nv_wf E s1 L"
    and m1: "layout_map s1 L = layout_map s L" by (rule FLASHACCESS_wf [OF wf])
  have "id_of i = (sysid (req_hdr i 0), itemid (req_hdr i 0), subid (req_hdr i 0))" by simp
  from findItem_wf [OF wf1 hdr_ok_req [OF i] this] show ?thesis
  proof (elim disjE exE conjE)
    assume "layout_map s1 L (id_of i) = None"
      "NVOCMP_findItem E (actPage s1) (actOffset s1) (req_hdr i 0) NVOCMP_FINDSTRICT None s1 =
        Some (NVINTF_NOTFOUND E, (req_hdr i 0)\<lparr>hofs := 0\<rparr>, None, s1)"
    then show ?thesis
      using c s1 wf1 m1 by (auto simp: NVOCMP_deleteItemApi_def fun_upd_idem marked_from_def intro!: exI [of _ L])
  next
    fix q xs it ys
    assume q: "q < nvSize s1" "q \<noteq> tailPage s1" and L: "L q = xs @ it # ys" and it: "it_active it" "it_id it = id_of i"
      and m: "layout_map s1 L (id_of i) = Some (it_data it)"
      and f: "NVOCMP_findItem E (actPage s1) (actOffset s1) (req_hdr i 0) NVOCMP_FINDSTRICT None s1 =
        Some (NVINTF_SUCCESS E, stored_hdr E q (hdr_ofs xs it) it, None, s1)"
    let ?L = "L(q := xs @ it\<lparr>it_active := False\<rparr> # ys)"
    obtain s2 where s2: "NVOCMP_setItemInactive E q (hdr_ofs xs it) s1 = s2" "driver_wf E s2" "pages_wf E s2 ?L"
      "same_ram s1 s2"
      by (rule setItemInactive_wf [OF nv_wfD(1,2) [OF wf1] q L it(1)])
    have geo: "nvSize s2 = nvSize s1" "tailPage s2 = tailPage s1" using s2(4) by (simp_all add: same_ram_def)
    note inact = layout_inactivate [OF q L it(1) nv_wfD(3) [OF wf1]]
    have wf2: "nv_wf E s2 ?L" and m2: "layout_map s2 ?L = (layout_map s1 L)(id_of i := None)"
      using s2(2,3) inact it(2) layout_cong [OF geo, of ?L] by (simp_all add: nv_wf_def)
    let ?h = "stored_hdr E q (hdr_ofs xs it) it"
    have h: "hdr_ok ?h" "id_of i = (sysid ?h, itemid ?h, subid ?h)"
      using i it(2) by (auto simp: hdr_ok_def stored_hdr_def it_id_def id_of_def valid_id_def)
    have "NVOCMP_findItem E (actPage s2) (actOffset s2) ?h NVOCMP_FINDSTRICT None s2 =
        Some (NVINTF_NOTFOUND E, ?h\<lparr>hofs := 0\<rparr>, None, s2)"
      using findItem_wf [OF wf2 h] m2 by auto
    moreover have "hpage ?h = q" "hofs ?h = hdr_ofs xs it" by (simp_all add: stored_hdr_def)
    moreover have "failW s2 = NVINTF_SUCCESS E" using s2(2) by (simp add: driver_wf_def)
    ultimately have "NVOCMP_deleteItemApi E i s = Some (NVINTF_SUCCESS E, s2)"
      using c s1 f s2(1) by (simp add: NVOCMP_deleteItemApi_def Let_def)
    moreover have "items_at E s1 q (xs @ it # ys) (offset_of s1 q)" "offset_of s1 q \<le> 2048"
      using pages_wfD [OF nv_wfD(2) [OF wf1] q] L by (simp_all add: page_wf_def)
    then have "hdr_ofs xs it + 7 \<le> 2048"
      using items_at_mid [of E s1 q xs it ys "offset_of s1 q"] by (simp add: hdr_ofs_def item_size_def)
    then have "marked_from E s1 s2"
      using q s2(1) unfolding marked_from_def by blast
    ultimately show ?thesis using wf2 m2 m m1 s1 by auto
  qed
qed

end


subsection \<open>Adding an item\<close>

text \<open>The last part of \<^verbatim>\<open>NVOCMP_addItem\<close>: write the item unless it is unchanged.\<close>

definition store_changed ::
  "'f nvs_env \<Rightarrow> cmem \<Rightarrow> NVOCMP_itemHdr_t \<Rightarrow> 'f nv \<Rightarrow> byte \<times> NVOCMP_itemHdr_t \<times> 'f nv" where
  "store_changed E buf iHdr s =
    (if hofs iHdr = 0 \<or> item_changed E s (hpage iHdr) (sub16 (hofs iHdr) (len iHdr)) (len iHdr) buf 0
     then (let s = NVOCMP_writeItem E iHdr (actPage s) (actOffset s) buf s in (failW s, iHdr, s))
     else (failW s, iHdr\<lparr>hofs := 0\<rparr>, s))"

lemma addItem_room:
  assumes dst: "NVOCMP_getDstPage E (7 + len h) s = (dst, s1)" "dst \<noteq> NVOCMP_NULLPAGE"
    and ok: "failW s1 = NVINTF_SUCCESS E" and l: "0 < len h" "len h < 4096"
  shows "wm \<noteq> NVOCMP_WRITE \<Longrightarrow> NVOCMP_addItem E h buf wm s = Some (store_changed E buf h s1)"
    and "NVOCMP_findItem E (actPage s1) (actOffset s1) h NVOCMP_FINDSTRICT None s1 = Some (err, hdr, i, s2) \<Longrightarrow>
      NVOCMP_addItem E h buf NVOCMP_WRITE s =
        Some (store_changed E buf (h\<lparr>hpage := hpage hdr, hofs := hofs hdr\<rparr>) s2)"
proof -
  have u: "u16 (NVOCMP_ITEMHDRLEN + len h) = 7 + len h" using l by (simp add: c_arith)
  have c: "(dst = NVOCMP_NULLPAGE) = False" using dst(2) by simp
  note unfold = NVOCMP_addItem_def Let_def u dst(1) prod.case c if_False Option.bind.bind_lunit less_irrefl ok
    store_changed_def
  show "NVOCMP_addItem E h buf wm s = Some (store_changed E buf h s1)" if "wm \<noteq> NVOCMP_WRITE"
    unfolding unfold using that l by (simp add: ok cong: if_cong)
  show "NVOCMP_addItem E h buf NVOCMP_WRITE s =
        Some (store_changed E buf (h\<lparr>hpage := hpage hdr, hofs := hofs hdr\<rparr>) s2)"
    if "NVOCMP_findItem E (actPage s1) (actOffset s1) h NVOCMP_FINDSTRICT None s1 = Some (err, hdr, i, s2)"
    unfolding unfold that using l by (simp cong: if_cong)
qed

text \<open>The state after a write, in terms of the state in which the page was chosen.\<close>

definition written_from :: "'f nvs_env \<Rightarrow> cmem \<Rightarrow> nat \<Rightarrow> 'f nv \<Rightarrow> 'f nv \<Rightarrow> bool" where
  "written_from E buf n s s' \<longleftrightarrow> s' = s \<or>
    (\<exists>h. len h = n \<and> (s' = NVOCMP_writeItem E h (actPage s) (actOffset s) buf s \<or>
       (\<exists>q xs it. q < nvSize s \<and> q \<noteq> tailPage s \<and> hdr_ofs xs it + 7 \<le> 2048 \<and>
          s' = NVOCMP_setItemInactive E q (hdr_ofs xs it) (NVOCMP_writeItem E h (actPage s) (actOffset s) buf s))))"

definition act_room :: "'f nvs_env \<Rightarrow> 'f nv \<Rightarrow> nat \<Rightarrow> bool" where
  "act_room E s n \<longleftrightarrow> page_state E s (actPage s) = NVOCMP_PGACT \<and> offset_of s (actPage s) + n \<le> FLASH_PAGE_SIZE"

text \<open>Writing with a state \<open>s1\<close> in which the active page has room, whether that page was chosen or made by compaction.\<close>

definition writes_from :: "'f nvs_env \<Rightarrow> NVINTF_itemID_t \<Rightarrow> nat \<Rightarrow> cmem \<Rightarrow> 'f nv \<Rightarrow> 'f nv \<Rightarrow> bool" where
  "writes_from E i n buf s s1 \<longleftrightarrow> (\<exists>s0. NVOCMP_FLASHACCESS E s = (NVINTF_SUCCESS E, s0) \<and>
     (\<forall>err hdr k s2. NVOCMP_findItem E (actPage s1) (actOffset s1) (req_hdr i n) NVOCMP_FINDSTRICT None s1 = Some (err, hdr, k, s2) \<longrightarrow>
        NVOCMP_addItem E (req_hdr i n) buf NVOCMP_WRITE s0 =
          Some (store_changed E buf ((req_hdr i n)\<lparr>hpage := hpage hdr, hofs := hofs hdr\<rparr>) s2)))"

context nor_flash
begin

text \<open>The new item is written, the old one (if any) still there.\<close>

lemma store_writes:
  assumes wf: "driver_wf E s" "pages_wf E s L" and st: "page_state E s (actPage s) = NVOCMP_PGACT"
    and fit: "offset_of s (actPage s) + (7 + len h) \<le> FLASH_PAGE_SIZE"
    and h: "hdr_ok h" "0 < len h" "len h < 4096"
    and ch: "hofs h = 0 \<or> item_changed E s (hpage h) (sub16 (hofs h) (len h)) (len h) buf 0"
  obtains s' where "store_changed E buf h s = (NVINTF_SUCCESS E, h, s')" and "driver_wf E s'"
    and "pages_wf E s' (L(actPage s := L (actPage s) @ [new_item h buf]))"
    and "nvSize s' = nvSize s" and "tailPage s' = tailPage s"
proof -
  obtain s' where s': "NVOCMP_writeItem E h (actPage s) (actOffset s) buf s = s'" "driver_wf E s'"
    "pages_wf E s' (L(actPage s := L (actPage s) @ [new_item h buf]))" "nvSize s' = nvSize s" "tailPage s' = tailPage s"
    by (rule writeItem_ok [OF wf refl st fit h])
  have "failW s' = NVINTF_SUCCESS E" using s'(2) by (simp add: driver_wf_def)
  then have "store_changed E buf h s = (NVINTF_SUCCESS E, h, s')"
    using ch s'(1) by (simp only: store_changed_def if_True Let_def)
  then show thesis by (rule that) (use s' in auto)
qed

lemma getDstPage_room:
  assumes wf: "nv_wf E s L" and room: "has_room E s n"
  obtains s1 where "NVOCMP_getDstPage E n s = (actPage s1, s1)" and "actPage s1 \<noteq> NVOCMP_NULLPAGE"
    and "nv_wf E s1 L" and "layout_map s1 L = layout_map s L" and "same_geo s s1"
    and "page_state E s1 (actPage s1) = NVOCMP_PGACT"
    and "offset_of s1 (actPage s1) + n \<le> FLASH_PAGE_SIZE" and "failW s1 = NVINTF_SUCCESS E"
proof -
  obtain r s1 where s1: "NVOCMP_getDstPage E n s = (r, s1)" "driver_wf E s1" "pages_wf E s1 L" "same_geo s s1"
    "r \<noteq> NVOCMP_NULLPAGE" "r = actPage s1" "page_state E s1 r = NVOCMP_PGACT"
    "offset_of s1 r + n \<le> FLASH_PAGE_SIZE"
    using getDstPage_spec [OF nv_wfD(1,2) [OF wf], of n] room by metis
  have "failW s1 = NVINTF_SUCCESS E" using s1(2) by (simp add: driver_wf_def)
  then show thesis using that [of s1] s1 nv_wf_geo [OF wf s1(2-4)] by auto
qed

lemma store_changed_from:
  "store_changed E buf h s = (e, h', s') \<Longrightarrow> s' = s \<or> s' = NVOCMP_writeItem E h (actPage s) (actOffset s) buf s"
  by (auto simp: store_changed_def Let_def split: if_splits)

lemma store_fresh:
  assumes wf: "nv_wf E s L" and room: "act_room E s (7 + len h)" and h: "hdr_ok h" "0 < len h" "len h < 4096"
    and new: "layout_map s L (sysid h, itemid h, subid h) = None" and ofs: "hofs h = 0"
  shows "\<exists>s' L'. store_changed E buf h s = (NVINTF_SUCCESS E, h, s') \<and> nv_wf E s' L' \<and>
    layout_map s' L' = (layout_map s L)((sysid h, itemid h, subid h) \<mapsto> map buf [0..<len h])"
proof -
  note d = nv_wfD [OF wf]
  have act: "actPage s < nvSize s" "actPage s \<noteq> tailPage s"
    using d(1) by (simp_all add: driver_wf_def)
  have r: "page_state E s (actPage s) = NVOCMP_PGACT" "offset_of s (actPage s) + (7 + len h) \<le> FLASH_PAGE_SIZE"
    using room by (simp_all add: act_room_def)
  let ?L = "L(actPage s := L (actPage s) @ [new_item h buf])"
  obtain s2 where s2: "store_changed E buf h s = (NVINTF_SUCCESS E, h, s2)" "driver_wf E s2" "pages_wf E s2 ?L"
    "nvSize s2 = nvSize s" "tailPage s2 = tailPage s"
    by (rule store_writes [OF d(1,2) r h]) (use ofs in auto)
  have "layout_map s L (it_id (new_item h buf)) = None"
    using new by simp
  from layout_append [OF act _ d(3) this]
  have "ids_distinct s ?L" "layout_map s ?L = (layout_map s L)((sysid h, itemid h, subid h) \<mapsto> map buf [0..<len h])"
    by simp_all
  then show ?thesis
    using s2 layout_cong [OF s2(4,5), of ?L] by (auto simp: nv_wf_def intro!: exI [of _ ?L])
qed

lemma addItem_fresh:
  assumes wf: "nv_wf E s L" and room: "has_room E s (7 + len h)" and h: "hdr_ok h" "0 < len h" "len h < 4096"
    and new: "layout_map s L (sysid h, itemid h, subid h) = None" and ofs: "hofs h = 0" and wm: "wm \<noteq> NVOCMP_WRITE"
  shows "\<exists>h' s' L'. NVOCMP_addItem E h buf wm s = Some (NVINTF_SUCCESS E, h', s') \<and> hofs h' = 0 \<and>
    nv_wf E s' L' \<and> layout_map s' L' = (layout_map s L)((sysid h, itemid h, subid h) \<mapsto> map buf [0..<len h])"
proof -
  obtain s1 where s1: "NVOCMP_getDstPage E (7 + len h) s = (actPage s1, s1)" "actPage s1 \<noteq> NVOCMP_NULLPAGE"
    and wf1: "nv_wf E s1 L" and m1: "layout_map s1 L = layout_map s L"
    and st1: "page_state E s1 (actPage s1) = NVOCMP_PGACT"
    and fit: "offset_of s1 (actPage s1) + (7 + len h) \<le> FLASH_PAGE_SIZE" and ok: "failW s1 = NVINTF_SUCCESS E"
    by (rule getDstPage_room [OF wf room])
  have "act_room E s1 (7 + len h)" "layout_map s1 L (sysid h, itemid h, subid h) = None"
    using st1 fit new m1 by (simp_all add: act_room_def)
  from store_fresh [OF wf1 this(1) h this(2) ofs, of buf] addItem_room(1) [OF s1 ok h(2,3) wm, of buf]
  show ?thesis
    using ofs m1 by auto
qed


text \<open>The comparison with the old item, and the two outcomes.\<close>

lemma changed_iff:
  assumes at: "item_at E s q (16 + items_size xs) it" and n: "0 < n" "n \<le> hdr_ofs xs it"
    and le: "hdr_ofs xs it \<le> 2048"
  shows "item_changed E s q (sub16 (hdr_ofs xs it) n) n buf 0 \<longleftrightarrow>
    fbytes E s q (hdr_ofs xs it - n) (hdr_ofs xs it) \<noteq> map buf [0..<n]"
proof -
  have "sub16 (hdr_ofs xs it) n = hdr_ofs xs it - n" using n le by (simp add: c_arith)
  then show ?thesis using item_changed_eq [of "hdr_ofs xs it - n" n 0 s q buf] n le by simp
qed

lemma compared_suffix:
  assumes at: "item_at E s q (16 + items_size xs) it" and n: "n \<le> hdr_ofs xs it"
  shows "n \<le> length (it_data it) \<Longrightarrow>
      fbytes E s q (hdr_ofs xs it - n) (hdr_ofs xs it) = drop (length (it_data it) - n) (it_data it)"
    and "length (it_data it) \<le> n \<Longrightarrow> suffix (it_data it) (fbytes E s q (hdr_ofs xs it - n) (hdr_ofs xs it))"
proof -
  let ?b = "16 + items_size xs" and ?l = "length (it_data it)" and ?h = "hdr_ofs xs it"
  have h: "?h = ?b + ?l" by (simp add: hdr_ofs_def)
  have data: "fbytes E s q ?b ?h = it_data it" unfolding h by (rule item_at_data_bytes [OF at])
  show "fbytes E s q (?h - n) ?h = drop (?l - n) (it_data it)" if "n \<le> ?l"
  proof -
    have "?b + (?l - n) = ?h - n" using that h by simp
    then show ?thesis using drop_fbytes [of "?l - n" E s q ?b ?h] by (simp only: data)
  qed
  show "suffix (it_data it) (fbytes E s q (?h - n) ?h)" if "?l \<le> n"
  proof (rule suffixI)
    show "fbytes E s q (?h - n) ?h = fbytes E s q (?h - n) ?b @ it_data it"
      unfolding data [symmetric] by (rule fbytes_append [symmetric]) (use that h in simp_all)
  qed
qed

lemma store_replaces:
  assumes wf: "nv_wf E s L" and st: "page_state E s (actPage s) = NVOCMP_PGACT"
    and fit: "offset_of s (actPage s) + (7 + len h) \<le> FLASH_PAGE_SIZE"
    and q: "q < nvSize s" "q \<noteq> tailPage s" and L: "L q = xs @ it # ys" and it: "it_active it"
    and h: "hdr_ok h" "0 < len h" "len h < 4096" "(sysid h, itemid h, subid h) = it_id it"
    and ch: "item_changed E s (hpage h) (sub16 (hofs h) (len h)) (len h) buf 0"
  shows "\<exists>s' L'. store_changed E buf h s = (NVINTF_SUCCESS E, h, s') \<and>
    nv_wf E (NVOCMP_setItemInactive E q (hdr_ofs xs it) s') L' \<and>
    layout_map (NVOCMP_setItemInactive E q (hdr_ofs xs it) s') L' = (layout_map s L)(it_id it \<mapsto> map buf [0..<len h])"
proof -
  note d = nv_wfD [OF wf]
  let ?p = "actPage s" and ?new = "new_item h buf"
  let ?L1 = "L(?p := L ?p @ [?new])"
  let ?ys = "drop (Suc (length xs)) (?L1 q)"
  let ?L2 = "?L1(q := xs @ it\<lparr>it_active := False\<rparr> # ?ys)"
  have p: "?p < nvSize s" "?p \<noteq> tailPage s" using d(1) by (simp_all add: driver_wf_def)
  obtain s1 where s1: "store_changed E buf h s = (NVINTF_SUCCESS E, h, s1)" "driver_wf E s1" "pages_wf E s1 ?L1"
    "nvSize s1 = nvSize s" "tailPage s1 = tailPage s"
    by (rule store_writes [OF d(1,2) st fit h(1-3)]) (use ch in auto)
  have L1: "?L1 q = xs @ it # ?ys" using L by auto
  have q1: "q < nvSize s1" "q \<noteq> tailPage s1" using q s1(4,5) by simp_all
  obtain s2 where s2: "NVOCMP_setItemInactive E q (hdr_ofs xs it) s1 = s2" "driver_wf E s2" "pages_wf E s2 ?L2"
    "same_ram s1 s2"
    by (rule setItemInactive_wf [OF s1(2,3) q1 L1 it])
  have geo: "nvSize s2 = nvSize s" "tailPage s2 = tailPage s" using s2(4) s1(4,5) by (simp_all add: same_ram_def)
  have "ids_distinct s ?L2" "layout_map s ?L2 = (layout_map s L)(it_id it \<mapsto> map buf [0..<len h])"
    using layout_replace [OF q p L it _ _ d(3), of ?new] h(4) by simp_all
  then have "nv_wf E s2 ?L2" "layout_map s2 ?L2 = (layout_map s L)(it_id it \<mapsto> map buf [0..<len h])"
    using s2(2,3) layout_cong [OF geo, of ?L2] by (simp_all add: nv_wf_def)
  then show ?thesis using s1(1) s2(1) by blast
qed


subsection \<open>Writing, creating and updating through the API\<close>

lemma has_room_access:
  assumes "same_ram s s'" and "flash s' = flash s"
  shows "has_room E s' n = has_room E s n"
proof -
  have "page_state E s' = page_state E s" using assms(2) by (simp add: fun_eq_iff page_state_def fbyte_def)
  then show ?thesis
    using assms(1) by (simp add: has_room_def page_room_def data_pages_def same_ram_def list_ex_iff)
qed

lemma writeItemApi_step:
  assumes i: "valid_id i" and n: "0 < n" "n \<le> NVOCMP_MAXLEN" and ready: "failF s \<noteq> NVINTF_NOTREADY E"
    and acc: "NVOCMP_FLASHACCESS E s = (NVINTF_SUCCESS E, s0)"
    and add: "NVOCMP_addItem E (req_hdr i n) buf NVOCMP_WRITE s0 = Some (NVINTF_SUCCESS E, h, s1)"
  shows "NVOCMP_writeItemApi E i n (Some buf) s =
    Some (if 0 < hofs h then (let s2 = NVOCMP_setItemInactive E (hpage h) (hofs h) s1 in (failW s2, s2))
          else (NVINTF_SUCCESS E, s1))"
  using checkItem_ok [OF i n(2) ready] n acc add by (simp add: NVOCMP_writeItemApi_def Let_def)

text \<open>The item that a search for a present identifier finds.\<close>

lemma old_item:
  assumes wf: "nv_wf E s L" and h: "hdr_ok h" "(sysid h, itemid h, subid h) = i"
    and d: "layout_map s L i = Some d"
  obtains q xs it ys where "q < nvSize s" and "q \<noteq> tailPage s" and "L q = xs @ it # ys"
    and "it_active it" and "it_id it = i" and "it_data it = d"
    and "NVOCMP_findItem E (actPage s) (actOffset s) h NVOCMP_FINDSTRICT None s =
        Some (NVINTF_SUCCESS E, stored_hdr E q (hdr_ofs xs it) it, None, s)"
    and "item_at E s q (16 + items_size xs) it" and "hdr_ofs xs it \<le> 2048" and "16 + length d \<le> hdr_ofs xs it"
proof -
  from findItem_wf [OF wf h(1) h(2) [symmetric]] d
  obtain q xs it ys where q: "q < nvSize s" "q \<noteq> tailPage s" and L: "L q = xs @ it # ys"
    and it: "it_active it" "it_id it = i" "it_data it = d"
    and f: "NVOCMP_findItem E (actPage s) (actOffset s) h NVOCMP_FINDSTRICT None s =
        Some (NVINTF_SUCCESS E, stored_hdr E q (hdr_ofs xs it) it, None, s)"
    by auto
  have pw: "items_at E s q (xs @ it # ys) (offset_of s q)" "offset_of s q \<le> 2048"
    using pages_wfD [OF nv_wfD(2) [OF wf] q] L by (simp_all add: page_wf_def)
  show thesis
    by (rule that [OF q L it f]) (use items_at_mid [OF pw(1)] pw(2) it(3) in \<open>auto simp: hdr_ofs_def item_size_def\<close>)
qed

lemma write_absent_at:
  assumes wf: "nv_wf E s1 L" and room: "act_room E s1 (7 + n)" and i: "valid_id i" and n: "0 < n" "n \<le> NVOCMP_MAXLEN"
    and ready: "failF s \<noteq> NVINTF_NOTREADY E" and w: "writes_from E i n buf s s1" and none: "layout_map s1 L (id_of i) = None"
  shows "\<exists>s' L'. NVOCMP_writeItemApi E i n (Some buf) s = Some (NVINTF_SUCCESS E, s') \<and> nv_wf E s' L' \<and>
    layout_map s' L' = (layout_map s1 L)(id_of i \<mapsto> map buf [0..<n]) \<and> written_from E buf n s1 s'"
proof -
  let ?h = "req_hdr i n"
  let ?h1 = "?h\<lparr>hpage := hpage (?h\<lparr>hofs := 0\<rparr>), hofs := hofs (?h\<lparr>hofs := 0\<rparr>)\<rparr>"
  have h: "hdr_ok ?h1" "0 < len ?h1" "len ?h1 < 4096" "layout_map s1 L (sysid ?h1, itemid ?h1, subid ?h1) = None" "hofs ?h1 = 0"
    "(sysid ?h1, itemid ?h1, subid ?h1) = id_of i" "len ?h1 = n"
    using hdr_ok_req [OF i] n none by (simp_all add: hdr_ok_def)
  have "NVOCMP_findItem E (actPage s1) (actOffset s1) ?h NVOCMP_FINDSTRICT None s1 = Some (NVINTF_NOTFOUND E, ?h\<lparr>hofs := 0\<rparr>, None, s1)"
    using findItem_wf [OF wf hdr_ok_req [OF i] refl] none by auto
  then obtain s0 where acc: "NVOCMP_FLASHACCESS E s = (NVINTF_SUCCESS E, s0)"
    and add: "NVOCMP_addItem E ?h buf NVOCMP_WRITE s0 = Some (store_changed E buf ?h1 s1)"
    using w unfolding writes_from_def by blast
  have "act_room E s1 (7 + len ?h1)"
    using room by simp
  from store_fresh [OF wf this h(1-5), of buf] obtain s' L' where
    s': "store_changed E buf ?h1 s1 = (NVINTF_SUCCESS E, ?h1, s')" "nv_wf E s' L'"
    "layout_map s' L' = (layout_map s1 L)(id_of i \<mapsto> map buf [0..<n])"
    unfolding h(6,7) by blast
  have "NVOCMP_writeItemApi E i n (Some buf) s = Some (NVINTF_SUCCESS E, s')"
    using writeItemApi_step [OF i n ready acc add [unfolded s'(1)]] by simp
  moreover have "written_from E buf n s1 s'"
    using store_changed_from [OF s'(1)] h(7) unfolding written_from_def by blast
  ultimately show ?thesis
    using s'(2,3) by blast
qed

text \<open>Replacing a present item: the bytes \<open>rg\<close> compared with the new data decide.\<close>

lemma write_present_at:
  assumes wf: "nv_wf E s1 L" and room: "act_room E s1 (7 + n)" and i: "valid_id i" and n: "0 < n" "n \<le> NVOCMP_MAXLEN"
    and ready: "failF s \<noteq> NVINTF_NOTREADY E" and w: "writes_from E i n buf s s1"
    and d: "layout_map s1 L (id_of i) = Some d" and nd: "n \<le> length d + 16"
  shows "\<exists>rg s' L'. (n \<le> length d \<longrightarrow> rg = drop (length d - n) d) \<and> (length d \<le> n \<longrightarrow> suffix d rg) \<and>
    NVOCMP_writeItemApi E i n (Some buf) s = Some (NVINTF_SUCCESS E, s') \<and> nv_wf E s' L' \<and> written_from E buf n s1 s' \<and>
    layout_map s' L' = (if rg = map buf [0..<n] then layout_map s1 L else (layout_map s1 L)(id_of i \<mapsto> map buf [0..<n]))"
proof -
  let ?h = "req_hdr i n" and ?new = "map buf [0..<n]"
  have h: "hdr_ok ?h" "0 < len ?h" "len ?h < 4096" "(sysid ?h, itemid ?h, subid ?h) = id_of i"
    using hdr_ok_req [OF i] n by simp_all
  have r: "page_state E s1 (actPage s1) = NVOCMP_PGACT" "offset_of s1 (actPage s1) + (7 + n) \<le> FLASH_PAGE_SIZE"
    and ok: "failW s1 = NVINTF_SUCCESS E"
    using room nv_wfD(1) [OF wf] by (simp_all add: act_room_def driver_wf_def)
  obtain q xs it ys where q: "q < nvSize s1" "q \<noteq> tailPage s1" and L: "L q = xs @ it # ys"
    and it: "it_active it" "it_id it = id_of i" "it_data it = d"
    and f: "NVOCMP_findItem E (actPage s1) (actOffset s1) ?h NVOCMP_FINDSTRICT None s1 =
        Some (NVINTF_SUCCESS E, stored_hdr E q (hdr_ofs xs it) it, None, s1)"
    and at: "item_at E s1 q (16 + items_size xs) it" and le': "hdr_ofs xs it \<le> 2048" "16 + length d \<le> hdr_ofs xs it"
    by (rule old_item [OF wf h(1,4) d])
  have "items_at E s1 q (xs @ it # ys) (offset_of s1 q)" "offset_of s1 q \<le> 2048"
    using pages_wfD [OF nv_wfD(2) [OF wf] q] L by (simp_all add: page_wf_def)
  then have le: "hdr_ofs xs it + 7 \<le> 2048" "16 + length d \<le> hdr_ofs xs it"
    using items_at_mid [of E s1 q xs it ys "offset_of s1 q"] le' by (auto simp: hdr_ofs_def item_size_def)
  let ?o = "hdr_ofs xs it"
  let ?h1 = "?h\<lparr>hpage := hpage (stored_hdr E q ?o it), hofs := hofs (stored_hdr E q ?o it)\<rparr>"
  let ?rg = "fbytes E s1 q (?o - n) ?o"
  have h1: "hpage ?h1 = q" "hofs ?h1 = ?o" "len ?h1 = n" "hdr_ok ?h1" "(sysid ?h1, itemid ?h1, subid ?h1) = it_id it"
    using h it(2) by (simp_all add: stored_hdr_def hdr_ok_def)
  obtain s0 where acc: "NVOCMP_FLASHACCESS E s = (NVINTF_SUCCESS E, s0)"
    and add: "NVOCMP_addItem E ?h buf NVOCMP_WRITE s0 = Some (store_changed E buf ?h1 s1)"
    using w f unfolding writes_from_def by blast
  have no: "n \<le> ?o" "?o \<le> 2048"
    using nd le by simp_all
  have ch: "item_changed E s1 q (sub16 ?o n) n buf 0 \<longleftrightarrow> ?rg \<noteq> ?new"
    by (rule changed_iff [OF at n(1) no])
  have rg: "n \<le> length d \<longrightarrow> ?rg = drop (length d - n) d" "length d \<le> n \<longrightarrow> suffix d ?rg"
    using compared_suffix [OF at no(1)] it(3) by simp_all
  note step = writeItemApi_step [OF i n ready acc]
  show ?thesis
  proof (cases "?rg = ?new")
    case True
    then have "store_changed E buf ?h1 s1 = (NVINTF_SUCCESS E, ?h1\<lparr>hofs := 0\<rparr>, s1)"
      using ch ok le(2) unfolding store_changed_def h1(1-3) by simp
    then have "NVOCMP_writeItemApi E i n (Some buf) s = Some (NVINTF_SUCCESS E, s1)"
      using step add by simp
    then show ?thesis
      using rg True wf by (intro exI [of _ ?rg] exI [of _ s1] exI [of _ L]) (simp add: written_from_def)
  next
    case False
    then have "item_changed E s1 (hpage ?h1) (sub16 (hofs ?h1) (len ?h1)) (len ?h1) buf 0"
      unfolding h1(1-3) using ch by simp
    from store_replaces [OF wf r(1) _ q L it(1) h1(4) _ _ h1(5) this] r(2) n
    obtain s2 L' where s2: "store_changed E buf ?h1 s1 = (NVINTF_SUCCESS E, ?h1, s2)"
      and wf2: "nv_wf E (NVOCMP_setItemInactive E q ?o s2) L'"
      and m2: "layout_map (NVOCMP_setItemInactive E q ?o s2) L' = (layout_map s1 L)(it_id it \<mapsto> ?new)"
      using h1(3) by auto
    have "failW (NVOCMP_setItemInactive E q ?o s2) = NVINTF_SUCCESS E"
      using nv_wfD(1) [OF wf2] by (simp add: driver_wf_def)
    then have "NVOCMP_writeItemApi E i n (Some buf) s = Some (NVINTF_SUCCESS E, NVOCMP_setItemInactive E q ?o s2)"
      using step add s2 h1(1,2) le(2) by (simp add: Let_def)
    moreover have "s2 = NVOCMP_writeItem E ?h1 (actPage s1) (actOffset s1) buf s1"
      using s2 ch False h1(1-3) by (simp add: store_changed_def Let_def)
    then have "written_from E buf n s1 (NVOCMP_setItemInactive E q ?o s2)"
      using h1(3) q le(1) unfolding written_from_def by blast
    ultimately show ?thesis using rg False wf2 m2 it(2) by (intro exI [of _ ?rg] exI) auto
  qed
qed

text \<open>Writing stores the data: the identifier is new, or its value is the one written, or neither value is a suffix of the other.\<close>

lemma write_at:
  assumes wf: "nv_wf E s1 L" and room: "act_room E s1 (7 + n)" and i: "valid_id i" and n: "0 < n" "n \<le> NVOCMP_MAXLEN"
    and ready: "failF s \<noteq> NVINTF_NOTREADY E" and w: "writes_from E i n buf s s1"
    and old: "\<And>d. layout_map s1 L (id_of i) = Some d \<Longrightarrow> d \<noteq> map buf [0..<n] \<Longrightarrow>
      n \<le> length d + 16 \<and> \<not> suffix (map buf [0..<n]) d \<and> \<not> suffix d (map buf [0..<n])"
  shows "\<exists>s' L'. NVOCMP_writeItemApi E i n (Some buf) s = Some (NVINTF_SUCCESS E, s') \<and> nv_wf E s' L' \<and>
    layout_map s' L' = (layout_map s1 L)(id_of i \<mapsto> map buf [0..<n]) \<and> written_from E buf n s1 s'"
proof (cases "layout_map s1 L (id_of i)")
  case None
  then show ?thesis by (rule write_absent_at [OF wf room i n ready w])
next
  case (Some d)
  have nd: "n \<le> length d + 16" using old [OF Some] by (cases "d = map buf [0..<n]") auto
  obtain rg s' L' where rg: "n \<le> length d \<longrightarrow> rg = drop (length d - n) d" "length d \<le> n \<longrightarrow> suffix d rg"
    and r: "NVOCMP_writeItemApi E i n (Some buf) s = Some (NVINTF_SUCCESS E, s')" "nv_wf E s' L'" "written_from E buf n s1 s'"
    and m: "layout_map s' L' = (if rg = map buf [0..<n] then layout_map s1 L
          else (layout_map s1 L)(id_of i \<mapsto> map buf [0..<n]))"
    using write_present_at [OF wf room i n ready w Some nd] by blast
  have "rg \<noteq> map buf [0..<n]" if "d \<noteq> map buf [0..<n]"
    using old [OF Some that] rg suffix_drop [of "length d - n" d] by (cases "n \<le> length d") auto
  moreover have "layout_map s1 L = (layout_map s1 L)(id_of i \<mapsto> map buf [0..<n])" if "d = map buf [0..<n]"
    using that Some by (simp add: fun_upd_idem)
  ultimately have "layout_map s' L' = (layout_map s1 L)(id_of i \<mapsto> map buf [0..<n])" using m by metis
  then show ?thesis using r by blast
qed

text \<open>A page is chosen, and the item is written there.\<close>

lemma writes_from_room:
  assumes wf: "nv_wf E s L" and n: "0 < n" "n \<le> NVOCMP_MAXLEN" and room: "has_room E s (7 + n)"
  obtains s1 where "writes_from E i n buf s s1" "nv_wf E s1 L" "act_room E s1 (7 + n)" "layout_map s1 L = layout_map s L"
proof -
  let ?h = "req_hdr i n"
  obtain s0 where acc: "NVOCMP_FLASHACCESS E s = (NVINTF_SUCCESS E, s0)" and wf0: "nv_wf E s0 L"
    and m0: "layout_map s0 L = layout_map s L" and r0: "same_ram s s0" "flash s0 = flash s"
    by (rule FLASHACCESS_wf [OF wf])
  have room0: "has_room E s0 (7 + len ?h)" using room has_room_access [OF r0] by simp
  obtain s1 where s1: "NVOCMP_getDstPage E (7 + len ?h) s0 = (actPage s1, s1)" "actPage s1 \<noteq> NVOCMP_NULLPAGE"
    and wf1: "nv_wf E s1 L" and m1: "layout_map s1 L = layout_map s0 L"
    and st1: "page_state E s1 (actPage s1) = NVOCMP_PGACT"
    and fit: "offset_of s1 (actPage s1) + (7 + len ?h) \<le> FLASH_PAGE_SIZE" and ok: "failW s1 = NVINTF_SUCCESS E"
    by (rule getDstPage_room [OF wf0 room0])
  have "writes_from E i n buf s s1"
    unfolding writes_from_def using acc addItem_room(2) [OF s1 ok, of _ _ _ _ buf] n by auto
  then show thesis
    using that wf1 m1 m0 st1 fit by (simp add: act_room_def)
qed

lemma writeItemApi_present:
  assumes wf: "nv_wf E s L" and i: "valid_id i" and n: "0 < n" "n \<le> NVOCMP_MAXLEN"
    and room: "has_room E s (7 + n)" and d: "layout_map s L (id_of i) = Some d" and nd: "n \<le> length d + 16"
  shows "\<exists>rg s' L'. (n \<le> length d \<longrightarrow> rg = drop (length d - n) d) \<and> (length d \<le> n \<longrightarrow> suffix d rg) \<and>
    NVOCMP_writeItemApi E i n (Some buf) s = Some (NVINTF_SUCCESS E, s') \<and> nv_wf E s' L' \<and>
    layout_map s' L' = (if rg = map buf [0..<n] then layout_map s L else (layout_map s L)(id_of i \<mapsto> map buf [0..<n]))"
proof -
  obtain s1 where s1: "writes_from E i n buf s s1" "nv_wf E s1 L" "act_room E s1 (7 + n)" "layout_map s1 L = layout_map s L"
    by (rule writes_from_room [OF wf n room])
  have "layout_map s1 L (id_of i) = Some d"
    using d s1(4) by simp
  from write_present_at [OF s1(2,3) i n driver_wf_ready [OF nv_wfD(1) [OF wf]] s1(1) this nd] show ?thesis
    unfolding s1(4) by blast
qed

lemma writeItemApi_wf:
  assumes wf: "nv_wf E s L" and i: "valid_id i" and n: "0 < n" "n \<le> NVOCMP_MAXLEN"
    and room: "has_room E s (7 + n)"
    and old: "\<And>d. layout_map s L (id_of i) = Some d \<Longrightarrow> d \<noteq> map buf [0..<n] \<Longrightarrow>
      n \<le> length d + 16 \<and> \<not> suffix (map buf [0..<n]) d \<and> \<not> suffix d (map buf [0..<n])"
  shows "\<exists>s' L'. NVOCMP_writeItemApi E i n (Some buf) s = Some (NVINTF_SUCCESS E, s') \<and> nv_wf E s' L' \<and>
    layout_map s' L' = (layout_map s L)(id_of i \<mapsto> map buf [0..<n])"
proof -
  obtain s1 where s1: "writes_from E i n buf s s1" "nv_wf E s1 L" "act_room E s1 (7 + n)" "layout_map s1 L = layout_map s L"
    by (rule writes_from_room [OF wf n room])
  from write_at [OF s1(2,3) i n driver_wf_ready [OF nv_wfD(1) [OF wf]] s1(1), unfolded s1(4)] old show ?thesis
    by blast
qed

text \<open>A proper suffix of the present value is dropped although the call reports success.\<close>

lemma writeItemApi_suffix:
  assumes wf: "nv_wf E s L" and i: "valid_id i" and n: "0 < n" "n \<le> NVOCMP_MAXLEN"
    and room: "has_room E s (7 + n)" and d: "layout_map s L (id_of i) = Some d" "suffix (map buf [0..<n]) d"
  shows "\<exists>s' L'. NVOCMP_writeItemApi E i n (Some buf) s = Some (NVINTF_SUCCESS E, s') \<and> nv_wf E s' L' \<and>
    layout_map s' L' = layout_map s L"
proof -
  have "n \<le> length d" using suffix_length_le [OF d(2)] by simp
  moreover have "drop (length d - n) d = map buf [0..<n]" using d(2) by (auto simp: suffix_def)
  ultimately show ?thesis using writeItemApi_present [OF wf i n room d(1), of buf] by auto
qed


lemma createItemApi_wf:
  assumes wf: "nv_wf E s L" and i: "valid_id i" and n: "0 < n" "n \<le> NVOCMP_MAXLEN"
    and room: "layout_map s L (id_of i) = None \<Longrightarrow> has_room E s (7 + n)"
  shows "\<exists>s' L'. NVOCMP_createItemApi E i n (Some buf) s =
      Some (if layout_map s L (id_of i) = None then NVINTF_SUCCESS E else NVINTF_EXIST E, s') \<and> nv_wf E s' L' \<and>
    layout_map s' L' = (if layout_map s L (id_of i) = None then (layout_map s L)(id_of i \<mapsto> map buf [0..<n])
                        else layout_map s L)"
proof -
  let ?h = "req_hdr i n"
  have c: "NVOCMP_checkItem E s i (u16 n) = Inr ?h"
    using checkItem_ok [OF i n(2) driver_wf_ready [OF nv_wfD(1) [OF wf]]] n by (simp add: c_arith)
  obtain s0 where acc: "NVOCMP_FLASHACCESS E s = (NVINTF_SUCCESS E, s0)" and wf0: "nv_wf E s0 L"
    and m0: "layout_map s0 L = layout_map s L" and r0: "same_ram s s0" "flash s0 = flash s"
    by (rule FLASHACCESS_wf [OF wf])
  have h: "hdr_ok ?h" "0 < len ?h" "len ?h < 4096" "(sysid ?h, itemid ?h, subid ?h) = id_of i"
    using hdr_ok_req [OF i] n by simp_all
  note unfold = NVOCMP_createItemApi_def
  show ?thesis
  proof (cases "layout_map s L (id_of i)")
    case (Some d)
    then have "layout_map s0 L (id_of i) = Some d" using m0 by simp
    then obtain hdr where "NVOCMP_findItem E (actPage s0) (actOffset s0) ?h NVOCMP_FINDSTRICT None s0 =
        Some (NVINTF_SUCCESS E, hdr, None, s0)"
      by (rule old_item [OF wf0 h(1,4)])
    then have "NVOCMP_createItemApi E i n (Some buf) s = Some (NVINTF_EXIST E, s0)"
      using n c acc by (simp add: unfold)
    then show ?thesis using Some wf0 m0 by auto
  next
    case None
    let ?hz = "?h\<lparr>hofs := 0\<rparr>"
    have find: "NVOCMP_findItem E (actPage s0) (actOffset s0) ?h NVOCMP_FINDSTRICT None s0 =
        Some (NVINTF_NOTFOUND E, ?hz, None, s0)"
      using findItem_wf [OF wf0 h(1) h(4) [symmetric]] None m0 by auto
    have h0: "hdr_ok ?hz" "0 < len ?hz" "len ?hz < 4096" "hofs ?hz = 0"
      "layout_map s0 L (sysid ?hz, itemid ?hz, subid ?hz) = None"
      using h None m0 by (simp_all add: hdr_ok_def)
    have "has_room E s0 (7 + len ?hz)" using room [OF None] has_room_access [OF r0] by simp
    from addItem_fresh [OF wf0 this h0(1-3,5,4), of NVOCMP_CREATE buf] obtain h' s' L'
      where a: "NVOCMP_addItem E ?hz buf NVOCMP_CREATE s0 = Some (NVINTF_SUCCESS E, h', s')" and wf': "nv_wf E s' L'"
        and m': "layout_map s' L' = (layout_map s0 L)((sysid ?hz, itemid ?hz, subid ?hz) \<mapsto> map buf [0..<len ?hz])"
      by blast
    have "NVOCMP_createItemApi E i n (Some buf) s = Some (NVINTF_SUCCESS E, s')"
      using n c acc find a by (simp add: unfold)
    then show ?thesis using None wf' m' m0 h(4) by auto
  qed
qed

text \<open>
  Updating keeps the length of the present value: the new value is the first bytes of the caller's
  memory, as many as the present value has, whatever length the caller passes.
\<close>

lemma updateItemApi_wf:
  assumes wf: "nv_wf E s L" and i: "valid_id i" and n: "0 < n" "n \<le> NVOCMP_MAXLEN"
    and d: "layout_map s L (id_of i) = Some d" and room: "has_room E s (7 + length d)"
  shows "\<exists>s' L'. NVOCMP_updateItemApi E i n (Some buf) s = Some (NVINTF_SUCCESS E, s') \<and> nv_wf E s' L' \<and>
    layout_map s' L' = (layout_map s L)(id_of i \<mapsto> map buf [0..<length d])"
proof -
  let ?h = "req_hdr i n" and ?new = "map buf [0..<length d]"
  have c: "NVOCMP_checkItem E s i (u16 n) = Inr ?h"
    using checkItem_ok [OF i n(2) driver_wf_ready [OF nv_wfD(1) [OF wf]]] n by (simp add: c_arith)
  obtain s0 where acc: "NVOCMP_FLASHACCESS E s = (NVINTF_SUCCESS E, s0)" and wf0: "nv_wf E s0 L"
    and m0: "layout_map s0 L = layout_map s L" and r0: "same_ram s s0" "flash s0 = flash s"
    by (rule FLASHACCESS_wf [OF wf])
  have h: "hdr_ok ?h" "(sysid ?h, itemid ?h, subid ?h) = id_of i" using hdr_ok_req [OF i] by simp_all
  have "layout_map s0 L (id_of i) = Some d" using d m0 by simp
  then obtain q xs it ys where q: "q < nvSize s0" "q \<noteq> tailPage s0" and L: "L q = xs @ it # ys"
    and it: "it_active it" "it_id it = id_of i" "it_data it = d"
    and f: "NVOCMP_findItem E (actPage s0) (actOffset s0) ?h NVOCMP_FINDSTRICT None s0 =
        Some (NVINTF_SUCCESS E, stored_hdr E q (hdr_ofs xs it) it, None, s0)"
    and at0: "item_at E s0 q (16 + items_size xs) it" and le: "hdr_ofs xs it \<le> 2048" "16 + length d \<le> hdr_ofs xs it"
    by (rule old_item [OF wf0 h])
  let ?o = "hdr_ofs xs it"
  let ?h1 = "stored_hdr E q ?o it"
  have h1: "hpage ?h1 = q" "hofs ?h1 = ?o" "len ?h1 = length d" "(sysid ?h1, itemid ?h1, subid ?h1) = it_id it"
    using it by (simp_all add: stored_hdr_def it_id_def)
  have h1ok: "hdr_ok ?h1" "0 < len ?h1" "len ?h1 < 4096"
    using at0 it(3) by (simp_all add: stored_hdr_def hdr_ok_def item_at_def item_ok_def)
  have "has_room E s0 (7 + len ?h1)" using room has_room_access [OF r0] h1(3) by simp
  then obtain s1 where s1: "NVOCMP_getDstPage E (7 + len ?h1) s0 = (actPage s1, s1)" "actPage s1 \<noteq> NVOCMP_NULLPAGE"
    and wf1: "nv_wf E s1 L" and m1: "layout_map s1 L = layout_map s0 L" and g1: "same_geo s0 s1"
    and st1: "page_state E s1 (actPage s1) = NVOCMP_PGACT"
    and fit: "offset_of s1 (actPage s1) + (7 + len ?h1) \<le> FLASH_PAGE_SIZE" and ok: "failW s1 = NVINTF_SUCCESS E"
    by (rule getDstPage_room [OF wf0])
  have add: "NVOCMP_addItem E ?h1 buf NVOCMP_UPDATE s0 = Some (store_changed E buf ?h1 s1)"
    by (rule addItem_room(1) [OF s1 ok h1ok(2,3)]) simp
  have q1: "q < nvSize s1" "q \<noteq> tailPage s1" using q g1 by (simp_all add: same_geo_def)
  have at: "item_at E s1 q (16 + items_size xs) it"
    using pages_wfD [OF nv_wfD(2) [OF wf1] q1] L items_at_mid [of E s1 q xs it ys] by (auto simp: page_wf_def)
  have ch: "item_changed E s1 q (sub16 ?o (length d)) (length d) buf 0 \<longleftrightarrow> d \<noteq> ?new"
    using changed_iff [OF at, of "length d" buf] compared_suffix(1) [OF at, of "length d"] le h1ok(2) h1(3) it(3) by simp
  note unfold = NVOCMP_updateItemApi_def
  show ?thesis
  proof (cases "d = ?new")
    case True
    then have "store_changed E buf ?h1 s1 = (NVINTF_SUCCESS E, ?h1\<lparr>hofs := 0\<rparr>, s1)"
      using ch ok le(2) unfolding store_changed_def h1(1-3) by simp
    then have "NVOCMP_updateItemApi E i n (Some buf) s = Some (NVINTF_SUCCESS E, s1)"
      using n c acc f add by (simp add: unfold)
    moreover have "layout_map s1 L = (layout_map s L)(id_of i \<mapsto> ?new)"
      using True d m0 m1 by (simp add: fun_upd_idem)
    ultimately show ?thesis using wf1 by blast
  next
    case False
    then have "item_changed E s1 (hpage ?h1) (sub16 (hofs ?h1) (len ?h1)) (len ?h1) buf 0"
      unfolding h1(1-3) using ch by simp
    from store_replaces [OF wf1 st1 fit q1 L it(1) h1ok h1(4) this]
    obtain s2 L' where s2: "store_changed E buf ?h1 s1 = (NVINTF_SUCCESS E, ?h1, s2)"
      and wf2: "nv_wf E (NVOCMP_setItemInactive E q ?o s2) L'"
      and m2: "layout_map (NVOCMP_setItemInactive E q ?o s2) L' = (layout_map s1 L)(it_id it \<mapsto> ?new)"
      using h1(3) by auto
    have "failW (NVOCMP_setItemInactive E q ?o s2) = NVINTF_SUCCESS E"
      using nv_wfD(1) [OF wf2] by (simp add: driver_wf_def)
    then have "NVOCMP_updateItemApi E i n (Some buf) s = Some (NVINTF_SUCCESS E, NVOCMP_setItemInactive E q ?o s2)"
      using n c acc f add s2 h1(1,2) le(2) by (simp add: unfold Let_def)
    then show ?thesis using wf2 m2 m1 m0 it(2) by auto
  qed
qed

end


subsection \<open>The driver as a key-value store\<close>

text \<open>The layout read back from the Flash, and the invariant and the map of a driver state.\<close>

definition parsed :: "'f nvs_env \<Rightarrow> 'f nv \<Rightarrow> nat \<Rightarrow> nv_item list" where
  "parsed E s p = parse_items E s p (offset_of s p)"

definition nv_inv :: "'f nvs_env \<Rightarrow> 'f nv \<Rightarrow> bool" where
  "nv_inv E s \<longleftrightarrow> nv_wf E s (parsed E s)"

definition nv_map :: "'f nvs_env \<Rightarrow> 'f nv \<Rightarrow> nv_id \<rightharpoonup> byte list" where
  "nv_map E s = layout_map s (parsed E s)"

definition nv_fits :: "'f nvs_env \<Rightarrow> 'f nv \<Rightarrow> NVINTF_itemID_t \<Rightarrow> byte list \<Rightarrow> bool" where
  "nv_fits E s i v \<longleftrightarrow> 0 < length v \<and> length v \<le> NVOCMP_MAXLEN \<and>
     has_room E s (NVOCMP_ITEMHDRLEN + length v) \<and>
     (case nv_map E s (id_of i) of
        None \<Rightarrow> True
      | Some d \<Rightarrow> d = v \<or> length v \<le> length d + 16 \<and> \<not> suffix v d \<and> \<not> suffix d v)"

definition nv_put :: "'f nvs_env \<Rightarrow> NVINTF_itemID_t \<Rightarrow> byte list \<Rightarrow> 'f nv \<Rightarrow> 'f nv option" where
  "nv_put E i v s =
    (case NVOCMP_writeItemApi E i (length v) (Some (\<lambda>j. v ! j)) s of
       Some (err, s') \<Rightarrow> if err = NVINTF_SUCCESS E then Some s' else None
     | None \<Rightarrow> None)"

definition nv_del :: "'f nvs_env \<Rightarrow> NVINTF_itemID_t \<Rightarrow> 'f nv \<Rightarrow> 'f nv option" where
  "nv_del E i s =
    (case NVOCMP_deleteItemApi E i s of
       Some (err, s') \<Rightarrow> if err = NVINTF_SUCCESS E \<or> err = NVINTF_NOTFOUND E then Some s' else None
     | None \<Rightarrow> None)"

definition nv_get :: "'f nvs_env \<Rightarrow> 'f nv \<Rightarrow> NVINTF_itemID_t \<Rightarrow> byte list option" where
  "nv_get E s i =
    (case NVOCMP_getItemLenApi E i s of
       None \<Rightarrow> None
     | Some (n, s') \<Rightarrow>
         (case NVOCMP_readItemApi E i 0 n False s' of
            Some (err, bs, s'') \<Rightarrow> if err = NVINTF_SUCCESS E then Some bs else None
          | None \<Rightarrow> None))"

lemma id_of_inj: "id_of i = id_of j \<longleftrightarrow> i = j"
  by (simp add: id_of_def NVINTF_itemID_t.equality) (metis NVINTF_itemID_t.surjective old.unit.exhaust)

lemma layout_cong_pages:
  assumes "\<And>p. p < nvSize s \<Longrightarrow> p \<noteq> tailPage s \<Longrightarrow> L' p = L p"
  shows "live_items s L' = live_items s L"
  using assms by (auto simp: live_items_def intro!: arg_cong [where f = concat] map_cong)

lemma nv_wf_cong_pages:
  assumes "\<And>p. p < nvSize s \<Longrightarrow> p \<noteq> tailPage s \<Longrightarrow> L' p = L p"
  shows "nv_wf E s L' = nv_wf E s L" and "layout_map s L' = layout_map s L"
  using layout_cong_pages [of s L' L] assms
  by (auto simp: nv_wf_def pages_wf_def ids_distinct_def layout_map_def list_all_iff)

context nvs
begin

lemma nv_wf_inv:
  assumes "nv_wf E s L"
  shows "nv_inv E s" and "nv_map E s = layout_map s L"
proof -
  have "parsed E s p = L p" if "p < nvSize s" "p \<noteq> tailPage s" for p
    using parse_items_at [of s p "L p"] pages_wfD [OF nv_wfD(2) [OF assms] that]
    by (simp add: parsed_def page_wf_def)
  then show "nv_inv E s" "nv_map E s = layout_map s L"
    using nv_wf_cong_pages [of s "parsed E s" L] assms by (simp_all add: nv_inv_def nv_map_def)
qed

lemma nv_inv_wf: "nv_inv E s \<Longrightarrow> nv_wf E s (parsed E s)"
  by (simp add: nv_inv_def)

lemma nv_map_length:
  assumes "nv_inv E s" and "nv_map E s k = Some d"
  shows "0 < length d \<and> length d \<le> NVOCMP_MAXLEN"
proof -
  note wf = nv_inv_wf [OF assms(1)]
  obtain it p where it: "it \<in> set (parsed E s p)" "it_data it = d" and p: "p < nvSize s" "p \<noteq> tailPage s"
    using assms(2) layout_map_Some [OF nv_wfD(3) [OF wf]] by (auto simp: nv_map_def set_live_items)
  have "item_ok it"
    using pages_wfD [OF nv_wfD(2) [OF wf] p] it(1) by (auto simp: page_wf_def items_at_def list_all_iff)
  then show ?thesis using it(2) by (simp add: item_ok_def)
qed

lemma nv_get_ok:
  assumes inv: "nv_inv E s" and i: "valid_id i"
  shows "nv_get E s i = nv_map E s (id_of i)"
proof (cases "nv_map E s (id_of i)")
  case None
  then show ?thesis
    using getItemLenApi_wf [OF nv_inv_wf [OF inv] i]
    by (simp add: nv_get_def nv_map_def NVOCMP_readItemApi_def)
next
  case (Some d)
  have d: "0 < length d" "length d \<le> NVOCMP_MAXLEN" using nv_map_length [OF inv Some] by auto
  show ?thesis
    using Some getItemLenApi_wf [OF nv_inv_wf [OF inv] i] readItemApi_wf [OF nv_inv_wf [OF inv] i d, of 0]
    by (simp add: nv_get_def nv_map_def)
qed

end

context nor_flash
begin

lemma nv_write_ok:
  assumes inv: "nv_inv E s" and i: "valid_id i" and fits: "nv_fits E s i (map buf [0..<n])"
  shows "\<exists>s'. NVOCMP_writeItemApi E i n (Some buf) s = Some (NVINTF_SUCCESS E, s') \<and> nv_inv E s' \<and>
    nv_map E s' = (nv_map E s)(id_of i \<mapsto> map buf [0..<n])"
proof -
  have f: "0 < n" "n \<le> NVOCMP_MAXLEN" "has_room E s (7 + n)"
    "\<And>d. layout_map s (parsed E s) (id_of i) = Some d \<Longrightarrow> d \<noteq> map buf [0..<n] \<Longrightarrow>
      n \<le> length d + 16 \<and> \<not> suffix (map buf [0..<n]) d \<and> \<not> suffix d (map buf [0..<n])"
    using fits by (auto simp: nv_fits_def nv_map_def split: option.splits)
  obtain s' L' where "NVOCMP_writeItemApi E i n (Some buf) s = Some (NVINTF_SUCCESS E, s')"
    and wf': "nv_wf E s' L'" "layout_map s' L' = (layout_map s (parsed E s))(id_of i \<mapsto> map buf [0..<n])"
    using writeItemApi_wf [OF nv_inv_wf [OF inv] i f(1-3)] f(4) by blast
  then show ?thesis
    using nv_wf_inv [OF wf'(1)] wf'(2) by (simp add: nv_map_def)
qed

lemma nv_put_ok:
  assumes "nv_inv E s" and "valid_id i" and "nv_fits E s i v"
  shows "\<exists>s'. nv_put E i v s = Some s' \<and> nv_inv E s' \<and> nv_map E s' = (nv_map E s)(id_of i \<mapsto> v)"
  using nv_write_ok [OF assms(1,2), of "(!) v" "length v"] assms(3) by (auto simp: nv_put_def map_nth)

lemma nv_del_ok:
  assumes inv: "nv_inv E s" and i: "valid_id i"
  shows "\<exists>s'. nv_del E i s = Some s' \<and> nv_inv E s' \<and> nv_map E s' = (nv_map E s)(id_of i := None)"
proof -
  obtain s' L' where "NVOCMP_deleteItemApi E i s =
      Some (if layout_map s (parsed E s) (id_of i) = None then NVINTF_NOTFOUND E else NVINTF_SUCCESS E, s')"
    and wf': "nv_wf E s' L'" "layout_map s' L' = (layout_map s (parsed E s))(id_of i := None)"
    using deleteItemApi_wf [OF nv_inv_wf [OF inv] i] by blast
  then show ?thesis
    using nv_wf_inv [OF wf'(1)] wf'(2) by (simp add: nv_del_def nv_map_def)
qed

end

end
