(* ===== verification/NvBoot.thy ===== *)
theory NvBoot
  imports NvStore
begin

text \<open>
  Erasing and start-up of the NV driver on a healthy device: an erased page, \<^verbatim>\<open>NVOCMP_eraseNvApi\<close>,
  the first start on a blank device, and the restart from the pages a previous run left.
\<close>

subsection \<open>Erasing a page\<close>

definition null_compactHdr :: "byte list" where
  "null_compactHdr = [0xFF, 0xFF, 0xFF, 0x96]"

definition fresh_hdr :: "byte \<Rightarrow> byte list" where
  "fresh_hdr cycle = [0xFF, cycle, 0x0F, 0x96] @ null_compactHdr @ null_compactHdr @ null_compactHdr"

lemma length_null_compactHdr [simp]: "length null_compactHdr = 4"
  by (simp add: null_compactHdr_def)

lemma length_fresh_hdr [simp]: "length (fresh_hdr c) = 16"
  by (simp add: fresh_hdr_def null_compactHdr_def)

lemma fbyte_upd_page [simp]: "fbyte E (upd_page pg f s) p x = fbyte E s p x"
  by (simp add: fbyte_def upd_page_def)

lemma fbytes_upd_page [simp]: "fbytes E (upd_page pg f s) p a b = fbytes E s p a b"
  by (simp add: fbytes_def)

lemma volt_ok_same: "voltCheckFptr s' = voltCheckFptr s \<Longrightarrow> volt_ok s' = volt_ok s"
  by (simp add: volt_ok_def)

lemma list_all_fbytes: "list_all P (fbytes E s p a b) \<longleftrightarrow> (\<forall>x. a \<le> x \<and> x < b \<longrightarrow> P (fbyte E s p x))"
  by (auto simp: list_all_iff fbytes_def)

text \<open>The state after \<open>bs\<close> was written to an erased part of a page.\<close>

definition wrote :: "'f nvs_env \<Rightarrow> nat \<Rightarrow> nat \<Rightarrow> byte list \<Rightarrow> 'f nv \<Rightarrow> 'f nv \<Rightarrow> bool" where
  "wrote E pg off bs s s' \<longleftrightarrow> (\<exists>f v. s' = s\<lparr>flash := f, vcalls := v, failW := NVINTF_SUCCESS E\<rparr>) \<and>
     fbytes E s' pg off (off + length bs) = bs \<and>
     (\<forall>p x. x < 2048 \<and> (p \<noteq> pg \<or> x < off \<or> off + length bs \<le> x) \<longrightarrow> fbyte E s' p x = fbyte E s p x)"

lemma wrote_ram:
  assumes "wrote E pg off bs s s'"
  shows "same_ram s s'" "pageInfo s' = pageInfo s" "failW s' = NVINTF_SUCCESS E" "compactInfo s' = compactInfo s"
    "forceCompact s' = forceCompact s"
  using assms by (auto simp: wrote_def same_ram_def offset_of_def fun_eq_iff)

lemma wrote_erased:
  assumes "wrote E pg off bs s s'" and "list_all (\<lambda>b. b = 0xFF) (fbytes E s pg off 2048)"
  shows "list_all (\<lambda>b. b = 0xFF) (fbytes E s' pg (off + length bs) 2048)"
  using assms by (auto simp: wrote_def list_all_fbytes)

lemma wrote_before:
  "wrote E pg off bs s s' \<Longrightarrow> off + length bs \<le> 2048 \<Longrightarrow> fbytes E s' pg a off = fbytes E s pg a off"
  by (rule fbytes_cong) (auto simp: wrote_def)

lemma wrote_append:
  assumes w: "wrote E pg off bs s s1" and w': "wrote E pg (off + length bs) bs' s1 s2"
    and fit: "off + length bs + length bs' \<le> 2048"
  shows "wrote E pg off (bs @ bs') s s2"
proof -
  obtain f v f' v' where "s1 = s\<lparr>flash := f, vcalls := v, failW := NVINTF_SUCCESS E\<rparr>"
    "s2 = s1\<lparr>flash := f', vcalls := v', failW := NVINTF_SUCCESS E\<rparr>"
    using w w' unfolding wrote_def by blast
  then have "s2 = s\<lparr>flash := f', vcalls := v', failW := NVINTF_SUCCESS E\<rparr>" by simp
  moreover have "fbytes E s2 pg off (off + length bs) = bs"
    using wrote_before [OF w', of off] fit w by (simp add: wrote_def)
  then have "fbytes E s2 pg off (off + length (bs @ bs')) = bs @ bs'"
    using w' fbytes_append [of off "off + length bs" "off + length (bs @ bs')" E s2 pg]
    by (simp add: wrote_def add.assoc)
  moreover have "fbyte E s2 p x = fbyte E s p x"
    if "x < 2048" "p \<noteq> pg \<or> x < off \<or> off + length (bs @ bs') \<le> x" for p x
    using w w' that by (auto simp: wrote_def)
  ultimately show ?thesis unfolding wrote_def by blast
qed

text \<open>States that agree on all that the driver keeps in RAM apart from the page information.\<close>

definition same_core :: "'f nv \<Rightarrow> 'f nv \<Rightarrow> bool" where
  "same_core s s' \<longleftrightarrow> nvSize s' = nvSize s \<and> headPage s' = headPage s \<and> tailPage s' = tailPage s \<and>
     actPage s' = actPage s \<and> actOffset s' = actOffset s \<and> failF s' = failF s \<and>
     voltCheckFptr s' = voltCheckFptr s \<and> forceCompact s' = forceCompact s \<and> compactInfo s' = compactInfo s"

lemma same_core_refl [simp]: "same_core s s"
  by (simp add: same_core_def)

lemma same_core_trans: "same_core s s1 \<Longrightarrow> same_core s1 s2 \<Longrightarrow> same_core s s2"
  by (simp add: same_core_def)

lemma same_core_upd_page [simp]: "same_core s (upd_page pg f s') = same_core s s'"
  by (simp add: same_core_def upd_page_def)

lemma wrote_core: "wrote E pg off bs s s' \<Longrightarrow> same_core s s'"
  by (auto simp: wrote_def same_core_def)

text \<open>A page that was just erased.\<close>

definition blank_page :: "'f nvs_env \<Rightarrow> 'f nv \<Rightarrow> nat \<Rightarrow> bool" where
  "blank_page E s q \<longleftrightarrow> (\<exists>c. fbytes E s q 0 16 = fresh_hdr c) \<and>
     list_all (\<lambda>b. b = 0xFF) (fbytes E s q 16 2048) \<and> offset_of s q = 16"

definition geometry_ok :: "'f nvs_env \<Rightarrow> 'f nv \<Rightarrow> bool" where
  "geometry_ok E s \<longleftrightarrow> 3 \<le> nvSize s \<and> nvSize s \<le> NVOCMP_NVPAGES \<and> nvSize s * FLASH_PAGE_SIZE \<le> regionSize E"

definition erased_info :: "NVOCMP_pageInfo_t \<Rightarrow> NVOCMP_pageInfo_t" where
  "erased_info p = p\<lparr>pi_cycle := next_cycle (pi_cycle p), pi_state := NVOCMP_PGNACT,
     pi_allActive := NVOCMP_ALLACTIVE, pi_offset := NVOCMP_PGDATAOFS, pi_mode := NVOCMP_PGNORMAL\<rparr>"

context nor_flash
begin

lemma write_wrote:
  assumes v: "volt_ok s" and pg: "2048 * Suc q \<le> regionSize E" and o: "o' + length bs \<le> 2048"
    and erased: "list_all (\<lambda>b. b = 0xFF) (fbytes E s q o' 2048)"
  obtains s' where "NVOCMP_write E q o' bs s = (NVINTF_SUCCESS E, s')"
    and "wrote E q o' bs s (s'\<lparr>failW := NVINTF_SUCCESS E\<rparr>)"
proof -
  have "fbyte E s q (o' + i) AND bs ! i = bs ! i" if "i < length bs" for i
    using erased_and [OF erased, of "o' + i"] o that by simp
  then obtain s' where w: "NVOCMP_write E q o' bs s = (NVINTF_SUCCESS E, s')" and p: "programmed E q o' bs s s'"
    using write_ok [OF v o pg] by blast
  have "wrote E q o' bs s (s'\<lparr>failW := NVINTF_SUCCESS E\<rparr>)"
    using p programmed_fbytes [OF p] programmed_frame [OF p] by (auto simp: wrote_def programmed_def)
  then show thesis using that w by blast
qed

lemma setCompactHdr_ok:
  assumes v: "volt_ok s" and pg: "2048 * Suc q \<le> regionSize E" and l: "l \<le> 2"
    and erased: "list_all (\<lambda>b. b = 0xFF) (fbytes E s q ((l + 1) * 4) 2048)"
  obtains s' where "NVOCMP_setCompactHdr E q NVOCMP_NULLPAGE NVOCMP_NULLOFFSET l s = s'"
    and "wrote E q ((l + 1) * 4) null_compactHdr s s'"
proof -
  have b: "le16 NVOCMP_NULLOFFSET @ [of_nat NVOCMP_NULLPAGE, NVOCMP_SIGNATURE] = null_compactHdr"
    by (simp add: le16_def null_compactHdr_def)
  have fit: "(l + 1) * 4 + length null_compactHdr \<le> 2048" using l by (simp add: null_compactHdr_def)
  obtain s1 where s1: "NVOCMP_write E q ((l + 1) * 4) null_compactHdr s = (NVINTF_SUCCESS E, s1)"
    and w: "wrote E q ((l + 1) * 4) null_compactHdr s (s1\<lparr>failW := NVINTF_SUCCESS E\<rparr>)"
    by (rule write_wrote [OF v pg fit erased])
  have "NVOCMP_setCompactHdr E q NVOCMP_NULLPAGE NVOCMP_NULLOFFSET l s = s1\<lparr>failW := NVINTF_SUCCESS E\<rparr>"
    unfolding NVOCMP_setCompactHdr_def b NVOCMP_COMPACTHDRLEN_def using s1 by simp
  then show thesis using that w by blast
qed

lemma erase_sector:
  assumes pg: "2048 * Suc q \<le> regionSize E"
  obtains r f where "NVS_erase E (flash s) (NVOCMP_FLASHOFFSET q 0) (sectorSize E) = (r, f)" and "0 \<le> r"
    and "\<And>x. x < 2048 \<Longrightarrow> fbyte E (s\<lparr>flash := f\<rparr>) q x = 0xFF"
    and "\<And>p x. x < 2048 \<Longrightarrow> p \<noteq> q \<Longrightarrow> fbyte E (s\<lparr>flash := f\<rparr>) p x = fbyte E s p x"
proof -
  obtain r f where e: "NVS_erase E (flash s) (2048 * q) 2048 = (r, f)" by (cases "NVS_erase E (flash s) (2048 * q) 2048")
  have r: "0 \<le> r" using NVS_erase_ok [of "2048 * q" 2048 "flash s"] pg e by simp
  show thesis
  proof (rule that)
    show "NVS_erase E (flash s) (NVOCMP_FLASHOFFSET q 0) (sectorSize E) = (r, f)"
      by (simp add: FLASHOFFSET_eq sector_size e)
    show "0 \<le> r" by (rule r)
    show "fbyte E (s\<lparr>flash := f\<rparr>) q x = 0xFF" if "x < 2048" for x
      using NVS_erase_done [OF e r, of "2048 * q + x"] that by (simp add: fbyte_def FLASHOFFSET_eq)
    show "fbyte E (s\<lparr>flash := f\<rparr>) p x = fbyte E s p x" if "x < 2048" "p \<noteq> q" for p x
    proof -
      have "2048 * p + x < 2048 * q \<or> 2048 * q + 2048 \<le> 2048 * p + x" using that by linarith
      then show ?thesis using NVS_erase_frame [OF e] by (simp add: fbyte_def FLASHOFFSET_eq)
    qed
  qed
qed


lemma setPageState_fresh:
  assumes v: "volt_ok s" and pg: "2048 * Suc q \<le> regionSize E"
    and erased: "list_all (\<lambda>b. b = 0xFF) (fbytes E s q 0 2048)"
  obtains s' where "NVOCMP_setPageState E q NVOCMP_PGNACT s =
      upd_page q (\<lambda>p. p\<lparr>pi_state := NVOCMP_PGNACT, pi_allActive := NVOCMP_ALLACTIVE\<rparr>) s'"
    and "wrote E q 0 [0xFF, pi_cycle (pageInfo s q), 0x0F, 0x96] s s'"
proof -
  let ?bs = "[0xFF, pi_cycle (pageInfo s q), 0x0F, 0x96]"
  have b: "pageHdr_bytes \<lparr>ph_state = NVOCMP_PGNACT, ph_cycle = pi_cycle (pageInfo s q),
           ph_allActive = NVOCMP_ALLACTIVE, ph_version = NVOCMP_VERSION, ph_signature = NVOCMP_SIGNATURE\<rparr> = ?bs"
    by (simp add: pageHdr_bytes_def)
  obtain s1 where s1: "NVOCMP_write E q 0 ?bs s = (NVINTF_SUCCESS E, s1)"
    and w: "wrote E q 0 ?bs s (s1\<lparr>failW := NVINTF_SUCCESS E\<rparr>)"
    using write_wrote [OF v pg _ erased, of ?bs] by auto
  have "NVOCMP_setPageState E q NVOCMP_PGNACT s =
      upd_page q (\<lambda>p. p\<lparr>pi_state := NVOCMP_PGNACT, pi_allActive := NVOCMP_ALLACTIVE\<rparr>) (s1\<lparr>failW := NVINTF_SUCCESS E\<rparr>)"
    unfolding NVOCMP_setPageState_def b s1 by (simp add: Let_def)
  then show thesis using that w by blast
qed

lemma setCompactHdrs_ok:
  assumes v: "volt_ok s" and pg: "2048 * Suc q \<le> regionSize E"
    and erased: "list_all (\<lambda>b. b = 0xFF) (fbytes E s q 4 2048)"
  obtains s' where "NVOCMP_setCompactHdr E q NVOCMP_NULLPAGE NVOCMP_NULLOFFSET XSRCENDHDR
      (NVOCMP_setCompactHdr E q NVOCMP_NULLPAGE NVOCMP_NULLOFFSET XSRCSTARTHDR
        (NVOCMP_setCompactHdr E q NVOCMP_NULLPAGE NVOCMP_NULLOFFSET THISPAGEHDR s)) = s'"
    and "wrote E q 4 (null_compactHdr @ null_compactHdr @ null_compactHdr) s s'"
proof -
  have l: "length null_compactHdr = 4" by (simp add: null_compactHdr_def)
  have volt: "volt_ok y" if "wrote E q o' bs x y" "volt_ok x" for o' bs x y
    using wrote_ram(1) [OF that(1)] that(2) by (simp add: same_ram_def volt_ok_def)
  obtain a where a: "NVOCMP_setCompactHdr E q NVOCMP_NULLPAGE NVOCMP_NULLOFFSET THISPAGEHDR s = a"
    and wa: "wrote E q 4 null_compactHdr s a"
    using setCompactHdr_ok [OF v pg, of 0] erased by auto
  obtain b where b: "NVOCMP_setCompactHdr E q NVOCMP_NULLPAGE NVOCMP_NULLOFFSET XSRCSTARTHDR a = b"
    and wb: "wrote E q 8 null_compactHdr a b"
    using setCompactHdr_ok [OF volt [OF wa v] pg, of 1] wrote_erased [OF wa erased] l by auto
  have eb: "list_all (\<lambda>b. b = 0xFF) (fbytes E b q 12 2048)"
    using wrote_erased [OF wb] wrote_erased [OF wa erased] l by simp
  obtain c where c: "NVOCMP_setCompactHdr E q NVOCMP_NULLPAGE NVOCMP_NULLOFFSET XSRCENDHDR b = c"
    and wc: "wrote E q 12 null_compactHdr b c"
    using setCompactHdr_ok [OF volt [OF wb volt [OF wa v]] pg, of 2] eb by auto
  have "wrote E q 4 (null_compactHdr @ null_compactHdr @ null_compactHdr) s c"
    using wrote_append [OF wa wrote_append [of E q "4 + length null_compactHdr" null_compactHdr a b null_compactHdr c]]
      wb wc l by simp
  then show thesis using that a b c by blast
qed

lemma erase_ok:
  assumes v: "volt_ok s" and pg: "2048 * Suc q \<le> regionSize E"
  obtains s' where "NVOCMP_erase E q s = (NVINTF_SUCCESS E, s')" and "failW s' = NVINTF_SUCCESS E"
    and "same_core s s'" and "pageInfo s' = (pageInfo s)(q := erased_info (pageInfo s q))"
    and "fbytes E s' q 0 16 = fresh_hdr (next_cycle (pi_cycle (pageInfo s q)))"
    and "list_all (\<lambda>b. b = 0xFF) (fbytes E s' q 16 2048)"
    and "\<forall>p x. x < 2048 \<and> p \<noteq> q \<longrightarrow> fbyte E s' p x = fbyte E s p x"
proof -
  obtain k where acc: "NVOCMP_FLASHACCESS E s = (NVINTF_SUCCESS E, s\<lparr>vcalls := k\<rparr>)"
    using volt_ok_FLASHACCESS [OF v] by blast
  let ?sk = "s\<lparr>vcalls := k\<rparr>"
  obtain r f where er: "NVS_erase E (flash ?sk) (NVOCMP_FLASHOFFSET q 0) (sectorSize E) = (r, f)" "0 \<le> r"
    and ff: "\<And>x. x < 2048 \<Longrightarrow> fbyte E (?sk\<lparr>flash := f\<rparr>) q x = 0xFF"
    and fr: "\<And>p x. x < 2048 \<Longrightarrow> p \<noteq> q \<Longrightarrow> fbyte E (?sk\<lparr>flash := f\<rparr>) p x = fbyte E ?sk p x"
    using erase_sector [OF pg, of ?sk] by blast
  define a where "a = upd_page q (\<lambda>p. p\<lparr>pi_cycle := next_cycle (pi_cycle p)\<rparr>) (?sk\<lparr>flash := f\<rparr>)"
  have a: "volt_ok a" "same_core s a" "list_all (\<lambda>b. b = 0xFF) (fbytes E a q 0 2048)"
    "\<forall>p x. x < 2048 \<and> p \<noteq> q \<longrightarrow> fbyte E a p x = fbyte E s p x"
    using v ff fr by (simp_all add: a_def volt_ok_def upd_page_def same_core_def list_all_fbytes fbyte_def)
  let ?c = "pi_cycle (pageInfo a q)"
  obtain b where b: "NVOCMP_setPageState E q NVOCMP_PGNACT a =
      upd_page q (\<lambda>p. p\<lparr>pi_state := NVOCMP_PGNACT, pi_allActive := NVOCMP_ALLACTIVE\<rparr>) b"
    and wb: "wrote E q 0 [0xFF, ?c, 0x0F, 0x96] a b"
    by (rule setPageState_fresh [OF a(1) pg a(3)])
  define b' where "b' = upd_page q (\<lambda>p. p\<lparr>pi_state := NVOCMP_PGNACT, pi_allActive := NVOCMP_ALLACTIVE\<rparr>) b"
  have l4: "0 + length [0xFF, ?c, 0x0F, 0x96] = 4" by simp
  have b': "volt_ok b'" using a(1) wrote_ram(1) [OF wb] by (simp add: b'_def volt_ok_def same_ram_def upd_page_def)
  moreover have "list_all (\<lambda>b. b = 0xFF) (fbytes E b' q 4 2048)"
    using wrote_erased [OF wb a(3)] unfolding l4 b'_def fbytes_upd_page .
  moreover have "fbytes E b' q 0 4 = [0xFF, ?c, 0x0F, 0x96]"
    using wb unfolding wrote_def l4 b'_def fbytes_upd_page by blast
  ultimately have b': "volt_ok b'" "list_all (\<lambda>b. b = 0xFF) (fbytes E b' q 4 2048)"
    "fbytes E b' q 0 4 = [0xFF, ?c, 0x0F, 0x96]" by blast+
  obtain d where d: "NVOCMP_setCompactHdr E q NVOCMP_NULLPAGE NVOCMP_NULLOFFSET XSRCENDHDR
      (NVOCMP_setCompactHdr E q NVOCMP_NULLPAGE NVOCMP_NULLOFFSET XSRCSTARTHDR
        (NVOCMP_setCompactHdr E q NVOCMP_NULLPAGE NVOCMP_NULLOFFSET THISPAGEHDR b')) = d"
    and wd: "wrote E q 4 (null_compactHdr @ null_compactHdr @ null_compactHdr) b' d"
    by (rule setCompactHdrs_ok [OF b'(1) pg b'(2)])
  let ?s = "upd_page q (\<lambda>p. p\<lparr>pi_offset := NVOCMP_PGDATAOFS, pi_mode := NVOCMP_PGNORMAL\<rparr>) d"
  have n12: "length (null_compactHdr @ null_compactHdr @ null_compactHdr) = 12" by (simp add: null_compactHdr_def)
  show thesis
  proof (rule that [of ?s])
    show "NVOCMP_erase E q s = (NVINTF_SUCCESS E, ?s)"
      unfolding NVOCMP_erase_def acc prod.case er(1) Let_def a_def [symmetric] b b'_def [symmetric] d
      using er(2) by simp
    show "failW ?s = NVINTF_SUCCESS E" using wrote_ram(3) [OF wd] by (simp add: upd_page_def)
    show "same_core s ?s"
      using a(2) wrote_core [OF wb] wrote_core [OF wd] by (simp add: b'_def same_core_def upd_page_def)
    show "pageInfo ?s = (pageInfo s)(q := erased_info (pageInfo s q))"
      using wrote_ram(2) [OF wb] wrote_ram(2) [OF wd]
      by (simp add: upd_page_def b'_def a_def erased_info_def fun_eq_iff)
    have "fbytes E d q 0 4 = fbytes E b' q 0 4" by (rule wrote_before [OF wd]) (simp add: null_compactHdr_def)
    moreover have "fbytes E d q 4 16 = null_compactHdr @ null_compactHdr @ null_compactHdr"
      using wd unfolding wrote_def n12 by simp
    moreover have "?c = next_cycle (pi_cycle (pageInfo s q))" by (simp add: a_def upd_page_def)
    ultimately show "fbytes E ?s q 0 16 = fresh_hdr (next_cycle (pi_cycle (pageInfo s q)))"
      using b'(3) fbytes_append [of 0 4 16 E d q] by (simp add: fresh_hdr_def)
    show "list_all (\<lambda>b. b = 0xFF) (fbytes E ?s q 16 2048)"
      using wrote_erased [OF wd b'(2)] n12 by simp
    show "\<forall>p x. x < 2048 \<and> p \<noteq> q \<longrightarrow> fbyte E ?s p x = fbyte E s p x"
      using a(4) wb wd by (simp add: wrote_def b'_def)
  qed
qed


lemma erased_page_wf:
  assumes "fbytes E s q 0 16 = fresh_hdr c" and "list_all (\<lambda>b. b = 0xFF) (fbytes E s q 16 2048)"
    and "offset_of s q = 16"
  shows "page_wf E s q []" and "page_state E s q = NVOCMP_PGNACT"
proof -
  have "fbytes E s q 0 16 ! 0 = fresh_hdr c ! 0" using assms(1) by simp
  then show st: "page_state E s q = NVOCMP_PGNACT" by (simp add: page_state_def fresh_hdr_def)
  have "fbytes E s q 16 16 = []" by (simp add: fbytes_def)
  then show "page_wf E s q []" using assms(2,3) st by (simp add: page_wf_def items_at_def)
qed

lemma blank_page_cong:
  "blank_page E s q \<Longrightarrow> (\<And>x. x < 2048 \<Longrightarrow> fbyte E s' q x = fbyte E s q x) \<Longrightarrow> offset_of s' q = offset_of s q \<Longrightarrow>
   blank_page E s' q"
  unfolding blank_page_def
  using fbytes_cong [of 0 16 E s' q s] fbytes_cong [of 16 2048 E s' q s] by auto

lemma erase_pages_ok:
  assumes "volt_ok s" and "\<And>q. q \<in> set pgs \<Longrightarrow> 2048 * Suc q \<le> regionSize E" and "distinct pgs"
  shows "\<exists>s'. erase_pages E pgs s = s' \<and> (pgs \<noteq> [] \<longrightarrow> failW s' = NVINTF_SUCCESS E) \<and> same_core s s' \<and>
    (\<forall>q\<in>set pgs. blank_page E s' q) \<and>
    (\<forall>q. q \<notin> set pgs \<longrightarrow> pageInfo s' q = pageInfo s q \<and> (\<forall>x<2048. fbyte E s' q x = fbyte E s q x))"
  using assms
proof (induction pgs arbitrary: s)
  case (Cons q pgs)
  have q: "2048 * Suc q \<le> regionSize E" and qs: "\<And>q. q \<in> set pgs \<Longrightarrow> 2048 * Suc q \<le> regionSize E" "distinct pgs"
    and nq: "q \<notin> set pgs" using Cons.prems by auto
  obtain s1 where e: "NVOCMP_erase E q s = (NVINTF_SUCCESS E, s1)" and f1: "failW s1 = NVINTF_SUCCESS E"
    and c1: "same_core s s1" and p1: "pageInfo s1 = (pageInfo s)(q := erased_info (pageInfo s q))"
    and b1: "fbytes E s1 q 0 16 = fresh_hdr (next_cycle (pi_cycle (pageInfo s q)))"
      "list_all (\<lambda>b. b = 0xFF) (fbytes E s1 q 16 2048)"
      "\<forall>p x. x < 2048 \<and> p \<noteq> q \<longrightarrow> fbyte E s1 p x = fbyte E s p x"
    by (rule erase_ok [OF Cons.prems(1) q])
  have s1: "s1\<lparr>failW := failW s1 OR NVINTF_SUCCESS E\<rparr> = s1" using f1 by (cases s1) simp
  have "volt_ok s1" using Cons.prems(1) c1 by (simp add: volt_ok_def same_core_def)
  from Cons.IH [OF this qs] obtain s' where IH: "erase_pages E pgs s1 = s'"
    "pgs \<noteq> [] \<longrightarrow> failW s' = NVINTF_SUCCESS E" "same_core s1 s'" "\<forall>q\<in>set pgs. blank_page E s' q"
    "\<forall>q. q \<notin> set pgs \<longrightarrow> pageInfo s' q = pageInfo s1 q \<and> (\<forall>x<2048. fbyte E s' q x = fbyte E s1 q x)" by blast
  have "blank_page E s1 q" using b1 p1 by (auto simp: blank_page_def offset_of_def erased_info_def)
  then have "blank_page E s' q" by (rule blank_page_cong) (use IH(5) nq in \<open>auto simp: offset_of_def\<close>)
  moreover have "failW s' = NVINTF_SUCCESS E" using IH(1,2) f1 by (cases pgs) auto
  ultimately show ?case
    using IH e s1 same_core_trans [OF c1 IH(3)] b1(3) p1 by auto
qed simp


subsection \<open>An empty store\<close>

lemma live_items_empty [simp]: "live_items s (\<lambda>_. []) = []"
  by (auto simp: live_items_def)

lemma changePageState_plain:
  assumes "volt_ok s" and "2048 * Suc pg \<le> regionSize E" and "fbyte E s pg 0 AND st = st" and "st \<noteq> NVOCMP_PGACT"
  obtains s' where "NVOCMP_changePageState E pg st s = s'" and "failW s' = NVINTF_SUCCESS E" and "same_ram s s'"
    and "page_state E s' pg = st"
    and "\<forall>p x. x < 2048 \<and> (p \<noteq> pg \<or> x \<noteq> 0) \<longrightarrow> fbyte E s' p x = fbyte E s p x"
proof (rule changePageState_ok [OF assms(1-3)])
  fix s'
  assume "NVOCMP_changePageState E pg st s = s'" "failW s' = NVINTF_SUCCESS E"
    "same_ram (if st = NVOCMP_PGACT then s\<lparr>actPage := pg\<rparr> else s) s'" "page_state E s' pg = st"
    "\<And>p x. x < 2048 \<Longrightarrow> p \<noteq> pg \<or> x \<noteq> 0 \<Longrightarrow> fbyte E s' p x = fbyte E s p x"
  then show thesis using that [of s'] assms(4) by simp
qed

lemma fresh_pages_ok:
  assumes geo: "geometry_ok E s" and v: "volt_ok s" and ff: "failF s = NVINTF_SUCCESS E"
    and blank: "\<And>q. q < nvSize s \<Longrightarrow> blank_page E s q"
  shows "nv_wf E (fresh_pages E s) (\<lambda>_. [])" and "nvSize (fresh_pages E s) = nvSize s"
proof -
  let ?n = "nvSize s"
  let ?a = "s\<lparr>headPage := 0, tailPage := ?n - 1, actPage := 0, actOffset := offset_of s 0\<rparr>"
  have g: "3 \<le> ?n" "?n \<le> 12" "?n * 2048 \<le> regionSize E" using geo by (simp_all add: geometry_ok_def)
  have fa: "fbyte E ?a = fbyte E s" "offset_of ?a = offset_of s"
    by (simp_all add: fun_eq_iff fbyte_def offset_of_def)
  have st: "page_state E s q = 0xFF" "page_wf E s q []" if "q < ?n" for q
    using blank [OF that] erased_page_wf [of s q] by (auto simp: blank_page_def)
  have va: "volt_ok ?a" and za: "2048 * Suc 0 \<le> regionSize E" using v g by (simp_all add: volt_ok_def)
  have "fbyte E ?a 0 0 AND NVOCMP_PGRDY = NVOCMP_PGRDY" using st [of 0] g fa by (simp add: page_state_def)
  then obtain b where b: "NVOCMP_changePageState E 0 NVOCMP_PGRDY ?a = b" "same_ram ?a b" "page_state E b 0 = NVOCMP_PGRDY"
    and fb: "\<forall>p x. x < 2048 \<and> (p \<noteq> 0 \<or> x \<noteq> 0) \<longrightarrow> fbyte E b p x = fbyte E ?a p x"
    by (rule changePageState_plain [OF va za]) simp
  have vb: "volt_ok b" using v b(2) by (simp add: volt_ok_def same_ram_def)
  have tail: "?n - 1 \<noteq> 0" "2048 * Suc (?n - 1) \<le> regionSize E" using g by auto
  have "fbyte E b (?n - 1) 0 AND NVOCMP_PGXDST = NVOCMP_PGXDST"
    using fb st [of "?n - 1"] tail g fa by (simp add: page_state_def)
  then obtain c where c: "NVOCMP_changePageState E (?n - 1) NVOCMP_PGXDST b = c" "failW c = NVINTF_SUCCESS E" "same_ram b c"
    and fc: "\<forall>p x. x < 2048 \<and> (p \<noteq> ?n - 1 \<or> x \<noteq> 0) \<longrightarrow> fbyte E c p x = fbyte E b p x"
    by (rule changePageState_plain [OF vb tail(2)]) simp
  have eq: "fresh_pages E s = c"
    using b(1,2) c(1) by (simp add: fresh_pages_def Let_def same_ram_def)
  have ram: "nvSize c = ?n" "tailPage c = ?n - 1" "actPage c = 0" "actOffset c = offset_of s 0" "offset_of c = offset_of s"
    "failF c = failF s" "voltCheckFptr c = voltCheckFptr s"
    using b(2) c(3) fa by (simp_all add: same_ram_def)
  have pages: "page_wf E c p []" if "p < ?n" "p \<noteq> ?n - 1" for p
  proof (rule page_wf_state [OF st(2) [OF that(1)]])
    show "fbyte E c p x = fbyte E s p x" if "x < 2048" "x \<noteq> 0" for x
      using fb fc fa that by simp
    have "page_state E c p = (if p = 0 then NVOCMP_PGRDY else NVOCMP_PGNACT)"
      using fc fb fa b(3) st(1) [OF that(1)] that(2) by (simp add: page_state_def)
    then show "page_state E c p \<in> {NVOCMP_PGNACT, NVOCMP_PGRDY, NVOCMP_PGACT, NVOCMP_PGFULL}"
      "page_state E c p = NVOCMP_PGFULL \<or> page_state E s p \<noteq> NVOCMP_PGFULL"
      using st(1) [OF that(1)] by auto
  qed (use ram in simp)
  have "driver_wf E c"
    using g ram c(2) v ff tail by (simp add: driver_wf_def volt_ok_def)
  then show "nv_wf E (fresh_pages E s) (\<lambda>_. [])"
    using pages ram unfolding eq
    by (auto simp: nv_wf_def pages_wf_def list_all_iff ids_distinct_def)
  show "nvSize (fresh_pages E s) = ?n" unfolding eq by (rule ram(1))
qed

lemma eraseNvApi_ok:
  assumes geo: "geometry_ok E s" and v: "volt_ok s" and ff: "failF s = NVINTF_SUCCESS E"
  shows "\<exists>s'. NVOCMP_eraseNvApi E s = (NVINTF_SUCCESS E, s') \<and> nv_inv E s' \<and> nv_map E s' = Map.empty"
proof -
  obtain k where acc: "NVOCMP_FLASHACCESS E s = (NVINTF_SUCCESS E, s\<lparr>vcalls := k\<rparr>)"
    using volt_ok_FLASHACCESS [OF v] by blast
  let ?s = "s\<lparr>vcalls := k\<rparr>" and ?n = "nvSize s"
  have g: "3 \<le> ?n" "?n * 2048 \<le> regionSize E" using geo by (simp_all add: geometry_ok_def)
  have "volt_ok ?s" using v by (simp add: volt_ok_def)
  then obtain a where a: "erase_pages E [0..<?n] ?s = a" "failW a = NVINTF_SUCCESS E" "same_core ?s a"
    "\<forall>q<?n. blank_page E a q"
    using erase_pages_ok [of ?s "[0..<?n]"] g by auto
  have "geometry_ok E a" "volt_ok a" "failF a = NVINTF_SUCCESS E" "nvSize a = ?n"
    using geo v ff a(3) by (simp_all add: geometry_ok_def same_core_def volt_ok_def)
  then have wf: "nv_wf E (fresh_pages E a) (\<lambda>_. [])" using fresh_pages_ok(1) a(4) by simp
  have "NVOCMP_eraseNvApi E s = (NVINTF_SUCCESS E, fresh_pages E a)"
    using acc a(1,2) by (simp add: NVOCMP_eraseNvApi_def Let_def)
  moreover have "layout_map (fresh_pages E a) (\<lambda>_. []) = Map.empty" by (simp add: layout_map_def)
  ultimately show ?thesis using nv_wf_inv [OF wf] by simp
qed

end

end
