(* ===== verification/NvRestart.thy ===== *)
theory NvRestart
  imports NvBoot
begin

text \<open>
  \<^verbatim>\<open>NVOCMP_initNvApi\<close> on a healthy device: pages without a valid header are formatted and give an empty
  store; the pages that a previous run left give the store of that run again, and an item that was
  replaced just before the power was lost is removed.
\<close>

subsection \<open>Start on pages without a valid header\<close>

definition hdr_valid :: "'f nvs_env \<Rightarrow> 'f nv \<Rightarrow> nat \<Rightarrow> bool" where
  "hdr_valid E s p \<longleftrightarrow>
    (let h = NVOCMP_readPageHdr E s p
     in known_state (ph_state h) \<and> ph_version h = NVOCMP_VERSION \<and> ph_signature h = NVOCMP_SIGNATURE)"

definition boot_size :: "'f nvs_env \<Rightarrow> nat" where
  "boot_size E = (let n = u8 (regionSize E div sectorSize E) in if NVOCMP_NVPAGES < n then NVOCMP_NVPAGES else n)"

definition boot_env_ok :: "'f nvs_env \<Rightarrow> bool" where
  "boot_env_ok E \<longleftrightarrow> mutex_ok E \<and> \<not> handle_null E \<and> 3 \<le> boot_size E"

definition boot_state :: "'f nvs_env \<Rightarrow> 'f nv \<Rightarrow> 'f nv" where
  "boot_state E s =
    s\<lparr>failF := NVINTF_SUCCESS E, failW := NVINTF_SUCCESS E, nvSize := boot_size E, headPage := 0, tailPage := 0,
      forceCompact := False, compactInfo := ff_compactInfo, pageInfo := (\<lambda>_. zero_pageInfo),
      actPage := NVOCMP_NULLPAGE, actOffset := FLASH_PAGE_SIZE\<rparr>"

lemma scanPage_info_simps [simp]:
  "fbyte E (scanPage_info E' p s) q x = fbyte E s q x" "same_core s0 (scanPage_info E' p s) = same_core s0 s"
  "failW (scanPage_info E' p s) = failW s"
  by (simp_all add: scanPage_info_def Let_def same_core_def upd_page_def fbyte_def)

lemma fbytes_scanPage_info [simp]: "fbytes E (scanPage_info E' p s) q a b = fbytes E s q a b"
  by (simp add: fbytes_def)

lemma scanPage_info_other: "q \<noteq> p \<Longrightarrow> pageInfo (scanPage_info E p s) q = pageInfo s q"
  by (simp add: scanPage_info_def Let_def upd_page_def)

context nor_flash
begin

lemma readPageHdr_eq: "NVOCMP_readPageHdr E s p = pageHdr_of (fbytes E s p 0 4)"
  by (simp add: NVOCMP_readPageHdr_def read_eq)

lemma hdr_valid_cong: "(\<And>x. x < 4 \<Longrightarrow> fbyte E s' p x = fbyte E s p x) \<Longrightarrow> hdr_valid E s' p = hdr_valid E s p"
  using fbytes_cong [of 0 4 E s' p s] by (simp add: hdr_valid_def readPageHdr_eq)

lemma boot_geometry: "boot_env_ok E \<Longrightarrow> geometry_ok E (boot_state E s)"
proof -
  assume b: "boot_env_ok E"
  have "u8 (regionSize E div 2048) \<le> regionSize E div 2048" by (simp add: u8_def)
  then have "boot_size E * 2048 \<le> regionSize E"
    by (auto simp: boot_size_def sector_size Let_def)
  then show ?thesis using b by (simp add: geometry_ok_def boot_state_def boot_env_ok_def boot_size_def Let_def)
qed

lemma initNvApi_boot:
  assumes "boot_env_ok E" and "failF s = NVINTF_NOTREADY E"
  shows "NVOCMP_initNvApi E s = map_option (\<lambda>s. (failW s, s)) (NVOCMP_initNv E (boot_state E s))"
proof -
  have g: "boot_size E * 2048 \<le> regionSize E"
    using boot_geometry [OF assms(1), of s] by (simp add: geometry_ok_def boot_state_def)
  show ?thesis
    using assms g
    by (simp add: NVOCMP_initNvApi_def boot_env_ok_def boot_state_def boot_size_def Let_def sector_size
        split: if_splits) (cases "NVOCMP_initNv E (boot_state E s)"; simp add: boot_state_def boot_size_def Let_def sector_size)+
qed

lemma scanPage_invalid:
  assumes v: "volt_ok s" and pg: "2048 * Suc p \<le> regionSize E" and inv: "\<not> hdr_valid E s p"
  obtains s' where "NVOCMP_scanPage E p s = (NVINTF_SUCCESS E, s')" and "same_core s s'"
    and "blank_page E s' p" and "pi_state (pageInfo s' p) = NVOCMP_PGNACT"
    and "\<forall>q. q \<noteq> p \<longrightarrow> pageInfo s' q = pageInfo s q \<and> (\<forall>x<2048. fbyte E s' q x = fbyte E s q x)"
proof -
  obtain s1 where e: "NVOCMP_erase E p s = (NVINTF_SUCCESS E, s1)" and f1: "failW s1 = NVINTF_SUCCESS E"
    and c1: "same_core s s1" and p1: "pageInfo s1 = (pageInfo s)(p := erased_info (pageInfo s p))"
    and b1: "fbytes E s1 p 0 16 = fresh_hdr (next_cycle (pi_cycle (pageInfo s p)))"
      "list_all (\<lambda>b. b = 0xFF) (fbytes E s1 p 16 2048)"
      "\<forall>q x. x < 2048 \<and> q \<noteq> p \<longrightarrow> fbyte E s1 q x = fbyte E s q x"
    by (rule erase_ok [OF v pg])
  have s1: "s1\<lparr>failW := NVINTF_SUCCESS E\<rparr> = s1" using f1 by (cases s1) simp
  let ?s = "scanPage_info E p s1"
  have "fbytes E s1 p 0 4 = take 4 (fbytes E s1 p 0 16)" by (simp add: take_fbytes)
  then have "ph_state (NVOCMP_readPageHdr E s1 p) = 0xFF"
    by (simp add: readPageHdr_eq b1(1) fresh_hdr_def pageHdr_of_def)
  then have info: "offset_of ?s p = 16" "pi_state (pageInfo ?s p) = 0xFF"
    by (simp_all add: scanPage_info_def Let_def offset_of_def upd_page_def)
  show thesis
  proof (rule that)
    show "NVOCMP_scanPage E p s = (NVINTF_SUCCESS E, ?s)"
      using inv e f1 by (auto simp: NVOCMP_scanPage_def hdr_valid_def Let_def s1)
    show "blank_page E ?s p" using b1 info by (auto simp: blank_page_def)
  qed (use c1 info b1(3) p1 in \<open>auto simp: scanPage_info_other\<close>)
qed

lemma initNv_scan_invalid:
  assumes "volt_ok s" and "\<And>p. p \<in> set pgs \<Longrightarrow> 2048 * Suc p \<le> regionSize E \<and> \<not> hdr_valid E s p" and "distinct pgs"
  shows "\<exists>k' s'. initNv_scan E pgs k s = (Some k', s') \<and> same_core s s' \<and> (\<forall>p\<in>set pgs. blank_page E s' p) \<and>
    (\<forall>q. q \<notin> set pgs \<longrightarrow> pageInfo s' q = pageInfo s q \<and> (\<forall>x<2048. fbyte E s' q x = fbyte E s q x)) \<and>
    noPgNact k' = noPgNact k + length pgs \<and> noPgNdef k' = noPgNdef k \<and> noPgXdst k' = noPgXdst k \<and>
    noPgXsrc k' = noPgXsrc k \<and> noPgRdy k' = noPgRdy k"
  using assms
proof (induction pgs arbitrary: k s)
  case (Cons p pgs)
  obtain s1 where s1: "NVOCMP_scanPage E p s = (NVINTF_SUCCESS E, s1)" "same_core s s1"
    "blank_page E s1 p" "pi_state (pageInfo s1 p) = NVOCMP_PGNACT"
    and fr: "\<forall>q. q \<noteq> p \<longrightarrow> pageInfo s1 q = pageInfo s q \<and> (\<forall>x<2048. fbyte E s1 q x = fbyte E s q x)"
    using scanPage_invalid [OF Cons.prems(1), of p] Cons.prems(2) by auto
  have v1: "volt_ok s1" using Cons.prems(1) s1(2) by (simp add: volt_ok_def same_core_def)
  have "2048 * Suc q \<le> regionSize E \<and> \<not> hdr_valid E s1 q" if "q \<in> set pgs" for q
  proof -
    have "q \<noteq> p" using Cons.prems(3) that by auto
    then have "hdr_valid E s1 q = hdr_valid E s q" by (intro hdr_valid_cong) (use fr in auto)
    then show ?thesis using Cons.prems(2) [of q] that by simp
  qed
  from Cons.IH [OF v1 this, of "count_page p NVOCMP_PGNACT k"] Cons.prems(3) obtain k' s'
    where IH: "initNv_scan E pgs (count_page p NVOCMP_PGNACT k) s1 = (Some k', s')" "same_core s1 s'"
      "\<forall>q\<in>set pgs. blank_page E s' q"
      "\<forall>q. q \<notin> set pgs \<longrightarrow> pageInfo s' q = pageInfo s1 q \<and> (\<forall>x<2048. fbyte E s' q x = fbyte E s1 q x)"
      and n: "noPgNact k' = noPgNact (count_page p NVOCMP_PGNACT k) + length pgs"
        "noPgNdef k' = noPgNdef (count_page p NVOCMP_PGNACT k)" "noPgXdst k' = noPgXdst (count_page p NVOCMP_PGNACT k)"
        "noPgXsrc k' = noPgXsrc (count_page p NVOCMP_PGNACT k)" "noPgRdy k' = noPgRdy (count_page p NVOCMP_PGNACT k)"
    by auto
  have "blank_page E s' p"
    by (rule blank_page_cong [OF s1(3)]) (use IH(4) Cons.prems(3) in \<open>auto simp: offset_of_def\<close>)
  moreover have "initNv_scan E (p # pgs) k s = (Some k', s')" using s1(1,4) IH(1) by simp
  ultimately show ?case
    using IH n fr same_core_trans [OF s1(2) IH(2)] by (auto simp: count_page_def)
qed simp

lemma init_formats:
  assumes b: "boot_env_ok E" and f: "failF s = NVINTF_NOTREADY E" and v: "volt_ok s"
    and inv: "\<And>p. p < boot_size E \<Longrightarrow> \<not> hdr_valid E s p"
  shows "\<exists>s'. NVOCMP_initNvApi E s = Some (NVINTF_SUCCESS E, s') \<and> nv_inv E s' \<and> nv_map E s' = Map.empty"
proof -
  let ?s = "boot_state E s" and ?n = "boot_size E"
  have n: "nvSize ?s = ?n" by (simp add: boot_state_def)
  have geo: "geometry_ok E ?s" by (rule boot_geometry [OF b])
  have vb: "volt_ok ?s" using v by (simp add: boot_state_def volt_ok_def)
  have "\<not> hdr_valid E ?s p" if "p < ?n" for p
    using inv [OF that] hdr_valid_cong [of ?s p s] by (simp add: boot_state_def fbyte_def)
  moreover have "2048 * Suc p \<le> regionSize E" if "p < ?n" for p
    using geo that n by (simp add: geometry_ok_def)
  ultimately obtain k s1 where s1: "initNv_scan E [0..<?n] init_counts0 ?s = (Some k, s1)" "same_core ?s s1"
    "\<forall>p<?n. blank_page E s1 p" "noPgNact k = ?n" "noPgNdef k = 0" "noPgXdst k = 0" "noPgXsrc k = 0" "noPgRdy k = 0"
    using initNv_scan_invalid [OF vb, of "[0..<?n]" init_counts0] by (auto simp: init_counts0_def)
  let ?a = "s1\<lparr>gAction := NVOCMP_NORMAL_INIT\<rparr>"
  have core: "nvSize s1 = ?n" "failF s1 = NVINTF_SUCCESS E" "voltCheckFptr s1 = voltCheckFptr ?s"
    using s1(2) by (simp_all add: same_core_def boot_state_def)
  have "NVOCMP_initNv E ?s = Some (fresh_pages E ?a)"
    using s1 core n by (simp add: NVOCMP_initNv_def initNv_action_def initNv_perform_def)
  moreover have "nv_wf E (fresh_pages E ?a) (\<lambda>_. [])"
  proof (rule fresh_pages_ok(1))
    show "geometry_ok E ?a" using geo core n by (simp add: geometry_ok_def)
    show "volt_ok ?a" using vb core by (simp add: volt_ok_def)
    show "blank_page E ?a q" if "q < nvSize ?a" for q
      by (rule blank_page_cong [of s1]) (use s1(3) core that in \<open>auto simp: fbyte_def offset_of_def\<close>)
  qed (use core in simp)
  ultimately show ?thesis
    using initNvApi_boot [OF b f] nv_wf_inv [of "fresh_pages E ?a"] nv_wfD(1) [of E "fresh_pages E ?a"]
    by (auto simp: driver_wf_def layout_map_def)
qed

end

subsection \<open>Scanning the pages of a previous run\<close>

definition boot_page :: "'f nvs_env \<Rightarrow> 'f nv \<Rightarrow> nat \<Rightarrow> nv_item list \<Rightarrow> bool" where
  "boot_page E s p its \<longleftrightarrow>
    (let o' = NVOCMP_PGDATAOFS + items_size its; st = page_state E s p;
         this = ch_pageOffset (NVOCMP_getCompactHdr E s p THISPAGEHDR);
         erased = list_all (\<lambda>b. b = NVOCMP_ERASEDBYTE) (fbytes E s p o' FLASH_PAGE_SIZE)
     in hdr_valid E s p \<and> items_at E s p its o' \<and> o' \<le> FLASH_PAGE_SIZE \<and> fbyte E s p 15 = NVOCMP_SIGNATURE \<and>
        st \<in> {NVOCMP_PGNACT, NVOCMP_PGRDY, NVOCMP_PGACT, NVOCMP_PGFULL} \<and>
        (st \<noteq> NVOCMP_PGFULL \<longrightarrow> erased) \<and>
        (if st = NVOCMP_PGNACT then its = []
         else this = o' \<or> this = NVOCMP_NULLOFFSET \<and> erased))"

lemma page_state_hdr: "page_state E s p = fbyte E s p 0"
  by (simp add: page_state_def)

context nor_flash
begin

lemma findOffset_boot:
  assumes its: "items_at E s p its o'" and o: "o' \<le> 2048" and b15: "fbyte E s p 15 = 0x96"
    and rest: "list_all (\<lambda>b. b = 0xFF) (fbytes E s p o' 2048)"
  shows "NVOCMP_findOffset E s p 2048 = o'"
proof -
  define r where "r = NVOCMP_findOffset E s p 2048"
  have r: "1 \<le> r" "r \<le> 2048" "\<forall>x. r \<le> x \<and> x < 2048 \<longrightarrow> fbyte E s p x = 0xFF" "fbyte E s p (r - 1) \<noteq> 0xFF \<or> r = 1"
    using findOffset_spec [OF r_def [symmetric]] by auto
  have o16: "o' = 16 + items_size its" using its by (simp add: items_at_def)
  have last: "fbyte E s p (o' - 1) = 0x96"
  proof (cases its rule: rev_cases)
    case Nil
    then show ?thesis using o16 b15 by simp
  next
    case (snoc xs it)
    then have at: "item_at E s p (16 + items_size xs) it" and oo: "o' = 16 + items_size xs + length (it_data it) + 7"
      using its by (auto simp: items_at_snoc item_size_def)
    let ?h = "16 + items_size xs + length (it_data it)"
    have "fbytes E s p ?h (?h + 7) ! 6 = enc_hdr E it ! 6" using item_at_hdr_bytes [OF at refl] by simp
    then show ?thesis using oo by (simp add: last_enc_hdr)
  qed
  have "\<not> r < o'"
  proof
    assume "r < o'"
    then have "r \<le> o' - 1" "o' - 1 < 2048" using o o16 by auto
    then have "fbyte E s p (o' - 1) = 0xFF" using r(3) by blast
    then show False using last by simp
  qed
  moreover have "\<not> o' < r"
  proof
    assume lt: "o' < r"
    then have "o' \<le> r - 1" "r - 1 < 2048" "r \<noteq> 1" using r(1,2) o16 by auto
    then show False using rest r(4) by (auto simp: list_all_fbytes)
  qed
  ultimately show ?thesis by (simp add: r_def)
qed


lemma scanPage_boot:
  assumes bp: "boot_page E s p its"
  shows "NVOCMP_scanPage E p s = (NVINTF_SUCCESS E, scanPage_info E p s)"
    and "offset_of (scanPage_info E p s) p = 16 + items_size its"
    and "pi_state (pageInfo (scanPage_info E p s) p) = page_state E s p"
proof -
  let ?o = "16 + items_size its" and ?c = "ch_pageOffset (NVOCMP_getCompactHdr E s p THISPAGEHDR)"
  have v: "hdr_valid E s p" and its: "items_at E s p its ?o" and o: "?o \<le> 2048" and b15: "fbyte E s p 15 = 0x96"
    and st: "page_state E s p \<in> {0xFF, 0x7E, 0x7C, 0x78}"
    using bp by (simp_all add: boot_page_def Let_def)
  have off: "if page_state E s p = 0xFF then its = []
       else ?c = ?o \<or> ?c = 0xFFFF \<and> list_all (\<lambda>b. b = 0xFF) (fbytes E s p ?o 2048)"
    using bp by (auto simp: boot_page_def Let_def split: if_splits)
  show "NVOCMP_scanPage E p s = (NVINTF_SUCCESS E, scanPage_info E p s)"
    using v by (simp add: NVOCMP_scanPage_def hdr_valid_def Let_def)
  show "pi_state (pageInfo (scanPage_info E p s) p) = page_state E s p"
    by (simp add: scanPage_info_def Let_def upd_page_def ph_state_read)
  have offset: "offset_of (scanPage_info E p s) p =
      (if page_state E s p = 0xFF \<or> page_state E s p = 0xFE then 16
       else if ?c \<noteq> 0xFFFF then ?c else NVOCMP_findOffset E s p 2048)"
    by (simp add: scanPage_info_def Let_def offset_of_def upd_page_def ph_state_read)
  show "offset_of (scanPage_info E p s) p = ?o"
    unfolding offset using st off o findOffset_boot [OF its o b15] by (auto split: if_splits)
qed

lemma scanPage_dst:
  assumes "hdr_valid E s p"
  shows "NVOCMP_scanPage E p s = (NVINTF_SUCCESS E, scanPage_info E p s)"
    and "pi_state (pageInfo (scanPage_info E p s) p) = page_state E s p"
  using assms by (simp_all add: NVOCMP_scanPage_def hdr_valid_def scanPage_info_def Let_def upd_page_def ph_state_read)

end

text \<open>The information about a scanned page depends on the Flash only.\<close>

lemma scanPage_info_flash:
  assumes "flash s' = flash s"
  shows "pageInfo (scanPage_info E p s') p = pageInfo (scanPage_info E p s) p"
  using assms
  by (simp add: scanPage_info_def Let_def upd_page_def NVOCMP_readPageHdr_def NVOCMP_getCompactHdr_def
      NVOCMP_findOffset_def NVOCMP_read_def)

definition page_counts :: "'f nvs_env \<Rightarrow> 'f nv \<Rightarrow> nat list \<Rightarrow> init_counts \<Rightarrow> init_counts" where
  "page_counts E s pgs k = foldl (\<lambda>k p. count_page p (page_state E s p) k) k pgs"

definition in_state :: "'f nvs_env \<Rightarrow> 'f nv \<Rightarrow> byte \<Rightarrow> nat list \<Rightarrow> nat list" where
  "in_state E s st pgs = filter (\<lambda>p. page_state E s p = st) pgs"

definition last_or :: "nat list \<Rightarrow> nat \<Rightarrow> nat" where
  "last_or xs d = (if xs = [] then d else last xs)"

lemma page_counts_simps:
  "noPgNact (page_counts E s pgs k) = noPgNact k + length (in_state E s NVOCMP_PGNACT pgs)"
  "noPgXdst (page_counts E s pgs k) = noPgXdst k + length (in_state E s NVOCMP_PGXDST pgs)"
  "noPgRdy (page_counts E s pgs k) = noPgRdy k + length (in_state E s NVOCMP_PGRDY pgs)"
  "noPgXsrc (page_counts E s pgs k) = noPgXsrc k + length (in_state E s NVOCMP_PGXSRC pgs)"
  "noPgNdef (page_counts E s pgs k) = noPgNdef k + length (filter (\<lambda>p. \<not> known_state (page_state E s p)) pgs)"
  "pgXdst (page_counts E s pgs k) = last_or (in_state E s NVOCMP_PGXDST pgs) (pgXdst k)"
  "pgAct (page_counts E s pgs k) = last_or (in_state E s NVOCMP_PGACT pgs) (pgAct k)"
  "pgRdy (page_counts E s pgs k) = last_or (in_state E s NVOCMP_PGRDY pgs) (pgRdy k)"
  by (induction pgs rule: rev_induct)
     (auto simp: page_counts_def in_state_def last_or_def count_page_def known_state_def)

context nor_flash
begin

lemma initNv_scan_boot:
  assumes "\<And>p. p \<in> set pgs \<Longrightarrow> hdr_valid E s p" and "distinct pgs"
  shows "\<exists>s'. initNv_scan E pgs k s = (Some (page_counts E s pgs k), s') \<and> same_core s s' \<and> flash s' = flash s \<and>
    failW s' = failW s \<and>
    (\<forall>p. pageInfo s' p = (if p \<in> set pgs then pageInfo (scanPage_info E p s) p else pageInfo s p))"
  using assms
proof (induction pgs arbitrary: k s)
  case (Cons p pgs)
  let ?s = "scanPage_info E p s"
  have fl: "flash ?s = flash s" by (simp add: scanPage_info_def Let_def upd_page_def)
  have hv: "hdr_valid E ?s q = hdr_valid E s q" for q by (rule hdr_valid_cong) simp
  have st: "page_state E ?s q = page_state E s q" for q by (simp add: page_state_def)
  have scan: "NVOCMP_scanPage E p s = (NVINTF_SUCCESS E, ?s)" "pi_state (pageInfo ?s p) = page_state E s p"
    using scanPage_dst [of s p] Cons.prems(1) by simp_all
  have "page_counts E ?s pgs (count_page p (page_state E s p) k) = page_counts E s (p # pgs) k"
    by (simp add: page_counts_def st)
  moreover obtain s' where IH: "initNv_scan E pgs (count_page p (page_state E s p) k) ?s =
      (Some (page_counts E ?s pgs (count_page p (page_state E s p) k)), s')" "same_core ?s s'" "flash s' = flash ?s"
      "failW s' = failW ?s"
      "\<forall>q. pageInfo s' q = (if q \<in> set pgs then pageInfo (scanPage_info E q ?s) q else pageInfo ?s q)"
    using Cons.IH [of ?s "count_page p (page_state E s p) k"] Cons.prems hv by auto
  moreover have "same_core s s'" using IH(2) by (rule same_core_trans [rotated]) simp
  moreover have "pageInfo s' q = (if q \<in> set (p # pgs) then pageInfo (scanPage_info E q s) q else pageInfo s q)" for q
    using IH(5) Cons.prems(2) scanPage_info_flash [OF fl, of E q] by (cases "q = p") (auto simp: scanPage_info_other)
  ultimately show ?case using scan fl by auto
qed (simp add: page_counts_def)

end

subsection \<open>Resuming on the pages of a previous run\<close>

text \<open>The pages before the current one are visited before the search comes back to it.\<close>

lemma DECPAGE_no_return:
  assumes "p < nvSize s" and "0 < i" and "i < nvSize s"
  shows "(NVOCMP_DECPAGE s ^^ i) p \<noteq> p"
proof
  let ?n = "nvSize s"
  assume "(NVOCMP_DECPAGE s ^^ i) p = p"
  then have "(p + i * (?n - 1)) mod ?n = p mod ?n" using assms by (simp add: funpow_DECPAGE)
  then have "?n dvd i * (?n - 1)" using mod_eq_dvd_iff_nat [of p "p + i * (?n - 1)" ?n] by simp
  moreover have "coprime ?n (?n - 1)" using assms coprime_diff_one_right_nat [of ?n] by simp
  ultimately have "?n dvd i" by (simp add: coprime_dvd_mult_left_iff)
  then show False using assms by (auto dest: dvd_imp_le)
qed

lemma find_in_cong:
  "(\<And>i. 0 < i \<Longrightarrow> i < k \<Longrightarrow> L' ((NVOCMP_DECPAGE s ^^ i) p) = L ((NVOCMP_DECPAGE s ^^ i) p)) \<Longrightarrow>
   find_in s L' P k p its = find_in s L P k p its"
proof (induction k arbitrary: p its)
  case (Suc k)
  let ?q = "NVOCMP_DECPAGE s p"
  have "find_in s L' P k ?q (L' ?q) = find_in s L P k ?q (L' ?q)"
  proof (rule Suc.IH)
    fix i assume "0 < i" "i < k"
    then show "L' ((NVOCMP_DECPAGE s ^^ i) ?q) = L ((NVOCMP_DECPAGE s ^^ i) ?q)"
      using Suc.prems [of "Suc i"] by (simp add: funpow_swap1)
  qed
  moreover have "find_in s L P k ?q (L' ?q) = find_in s L P k ?q (L ?q)"
    using Suc.prems [of 1] by (cases k) auto
  ultimately show ?case by (auto split: option.splits)
qed simp

text \<open>
  The contents the pages have when the newest item on the page \<open>a\<close> counts instead of an older one
  with the same identifier, which the previous run did not mark any more.
\<close>

definition resumed_map :: "'f nv \<Rightarrow> (nat \<Rightarrow> nv_item list) \<Rightarrow> nat \<Rightarrow> nv_id \<rightharpoonup> byte list" where
  "resumed_map s L a =
    (let m = layout_map s (L(a := butlast (L a))); it = last (L a)
     in if L a \<noteq> [] \<and> it_active it then m(it_id it \<mapsto> it_data it) else m)"

definition resumable :: "'f nv \<Rightarrow> (nat \<Rightarrow> nv_item list) \<Rightarrow> nat \<Rightarrow> bool" where
  "resumable s L a \<longleftrightarrow> ids_distinct s (L(a := butlast (L a))) \<and>
     (L a \<noteq> [] \<and> \<not> it_active (last (L a)) \<longrightarrow>
        layout_map s (L(a := butlast (L a))) (it_id (last (L a))) = None)"

definition resume_state :: "nat \<Rightarrow> nat \<Rightarrow> 'f nv \<Rightarrow> 'f nv" where
  "resume_state t a s =
    s\<lparr>tailPage := t, headPage := NVOCMP_INCPAGE s t, actPage := a, actOffset := offset_of s a\<rparr>"

lemma layout_drop_inactive:
  assumes "L a = xs @ [it]" and "\<not> it_active it"
  shows "live_items s L = live_items s (L(a := xs))"
proof -
  have "map (\<lambda>p. filter it_active (L p)) ps = map (\<lambda>p. filter it_active ((L(a := xs)) p)) ps" for ps
    using assms by (intro map_cong) auto
  then show ?thesis by (simp only: live_items_def)
qed

lemma sub16_add: "x < 65536 \<Longrightarrow> y < 65536 \<Longrightarrow> sub16 (x + y) y = x"
  by (simp add: sub16_def)

context nor_flash
begin

lemma resume_step:
  assumes "pgAct k = a" and "a \<noteq> 0xFF"
  shows "initNv_resume E k t s =
    (let r = resume_state t a s
     in if NVOCMP_PGDATAOFS + NVOCMP_ITEMHDRLEN < actOffset r then
          (let h = NVOCMP_readHeader E r a (actOffset r - NVOCMP_ITEMHDRLEN)
           in if stats h AND NVOCMP_FOLLOWBIT \<noteq> 0 then
                map_option (\<lambda>(status, hdr, pInfo, r').
                    if status = NVINTF_SUCCESS E \<and> 0 < hofs hdr
                    then NVOCMP_setItemInactive E (hpage hdr) (hofs hdr) r' else r')
                  (NVOCMP_findItem E a (sub16 (actOffset r) (NVOCMP_ITEMHDRLEN + len h)) h NVOCMP_FINDSTRICT None r)
              else map_option snd (NVOCMP_compactPage E 0 r))
        else Some r)"
proof -
  have r: "s\<lparr>tailPage := t, headPage := NVOCMP_INCPAGE (s\<lparr>tailPage := t\<rparr>) t, actPage := a,
      actOffset := offset_of (s\<lparr>tailPage := t, headPage := NVOCMP_INCPAGE (s\<lparr>tailPage := t\<rparr>) t\<rparr>) a\<rparr> = resume_state t a s"
    by (simp add: resume_state_def offset_of_def NVOCMP_INCPAGE_def NVOCMP_ADDPAGE_def)
  have act: "actPage (resume_state t a s) = a" by (simp add: resume_state_def)
  show ?thesis
    unfolding initNv_resume_def Let_def assms(1) using assms(2)
    by (simp add: r act map_option_case split_def bind_eq_Some_conv split: option.splits)
qed

lemma resume_run:
  assumes d: "driver_wf E r" and pw: "pages_wf E r L" and r: "r = resume_state t a s" and k: "pgAct k = a"
    and snoc: "L a = xs @ [it]"
  shows "initNv_resume E k t s =
      Some (case find_in r (L(a := xs)) (\<lambda>i. it_active i \<and> it_id i = it_id it) (nvSize r) a xs of None \<Rightarrow> r
            | Some (q, ys, old) \<Rightarrow> NVOCMP_setItemInactive E q (hdr_ofs ys old) r)"
proof -
  have ra: "actPage r = a" "actOffset r = offset_of r a" "tailPage r = t"
    by (simp_all add: r resume_state_def offset_of_def)
  have a: "a < nvSize r" "a \<noteq> tailPage r" "a \<noteq> 0xFF" using d ra by (auto simp: driver_wf_def)
  have items: "items_at E r q (L q) (offset_of r q)" if "q < nvSize r" "q \<noteq> tailPage r" for q
    using pages_wfD [OF pw that] by (simp add: page_wf_def)
  let ?L = "L(a := xs)" and ?l = "length (it_data it)" and ?b = "16 + items_size xs"
  define h where "h = stored_hdr E a (?b + ?l) it"
  have "items_at E r a (xs @ [it]) (offset_of r a)" using items [OF a(1,2)] snoc by simp
  then have xs: "items_at E r a xs ?b" and at: "item_at E r a ?b it" and off: "actOffset r = ?b + ?l + 7"
    by (auto simp: items_at_snoc item_size_def ra)
  have ok: "item_ok it" and pos: "0 < ?l" using at by (auto simp: item_at_def item_ok_def)
  have h: "NVOCMP_readHeader E r a (?b + ?l) = h" using readHeader_at [OF at] by (simp add: h_def)
  have hs: "hdr_ok h" "len h = ?l" "stats h AND 4 \<noteq> 0" "sysid h = it_sysid it" "itemid h = it_itemid it" "subid h = it_subid it"
    using ok by (simp_all add: h_def stored_hdr_def hdr_ok_def item_ok_def)
  have "?b + ?l + 7 \<le> 2048" using pages_wfD [OF pw a(1,2)] off ra by (simp add: page_wf_def)
  then have sub: "sub16 (?b + ?l + 7) (7 + ?l) = ?b" using sub16_add [of ?b "7 + ?l"] by (simp add: ac_simps)
  have P: "item_matches 3 h = (\<lambda>i. it_active i \<and> it_id i = it_id it)"
    by (simp add: item_matches_def hs fun_eq_iff) (simp add: it_id_def cong: conj_cong)
  let ?f = "find_in r ?L (\<lambda>i. it_active i \<and> it_id i = it_id it) (nvSize r) a xs"
  have "find_in r L (item_matches 3 h) (nvSize r) a xs = ?f"
    unfolding P by (rule find_in_cong) (use DECPAGE_no_return [of a r] a(1) in auto)
  then have find: "NVOCMP_findItem E a ?b h 3 None r =
    Some (case ?f of
            None \<Rightarrow> (NVINTF_NOTFOUND E, h\<lparr>hofs := 0\<rparr>, None, r)
          | Some (q, ys, old) \<Rightarrow> (NVINTF_SUCCESS E, stored_hdr E q (hdr_ofs ys old) old, None, r))"
    unfolding NVOCMP_findItem_def
    using findItem_loop_layout [OF hs(1) _ items, of 3 0 "nvSize r" a xs ?b] a xs by simp
  have step: "initNv_resume E k t s = map_option (\<lambda>(status, hdr, pInfo, r').
        if status = NVINTF_SUCCESS E \<and> 0 < hofs hdr then NVOCMP_setItemInactive E (hpage hdr) (hofs hdr) r' else r')
      (NVOCMP_findItem E a ?b h 3 None r)"
    unfolding resume_step [OF k a(3)] r [symmetric] Let_def off
    using pos h hs sub by (simp add: ac_simps)
  have hp: "hpage (stored_hdr E q o' i) = q" "hofs (stored_hdr E q o' i) = o'" "0 < hdr_ofs ys i" for q o' i ys
    by (simp_all add: stored_hdr_def hdr_ofs_def)
  show ?thesis unfolding step find by (cases ?f) (auto simp: hp)
qed

lemma resume_ok:
  assumes d: "driver_wf E r" and pw: "pages_wf E r L" and r: "r = resume_state t a s"
    and k: "pgAct k = a" and res: "resumable r L a"
  shows "\<exists>s' L'. initNv_resume E k t s = Some s' \<and> nv_wf E s' L' \<and> layout_map s' L' = resumed_map r L a"
proof -
  have ra: "actPage r = a" "actOffset r = offset_of r a" "tailPage r = t"
    by (simp_all add: r resume_state_def offset_of_def)
  have a: "a < nvSize r" "a \<noteq> tailPage r" "a \<noteq> 0xFF" using d ra by (auto simp: driver_wf_def)
  have items: "items_at E r q (L q) (offset_of r q)" if "q < nvSize r" "q \<noteq> tailPage r" for q
    using pages_wfD [OF pw that] by (simp add: page_wf_def)
  show ?thesis
  proof (cases "L a" rule: rev_cases)
    case Nil
    then have "offset_of r a = 16" using items [OF a(1,2)] by (simp add: items_at_def)
    then have "initNv_resume E k t s = Some r"
      using ra a(3) by (simp add: initNv_resume_def Let_def k r resume_state_def offset_of_def NVOCMP_INCPAGE_def NVOCMP_ADDPAGE_def)
    moreover have "L(a := []) = L" using Nil by auto
    ultimately show ?thesis
      using d pw res Nil by (auto simp: nv_wf_def resumable_def resumed_map_def Let_def intro!: exI [of _ L])
  next
    case (snoc xs it)
    let ?L = "L(a := xs)"
    let ?f = "find_in r ?L (\<lambda>i. it_active i \<and> it_id i = it_id it) (nvSize r) a (?L a)"
    have run: "initNv_resume E k t s = Some (case ?f of None \<Rightarrow> r
            | Some (q, ys, old) \<Rightarrow> NVOCMP_setItemInactive E q (hdr_ofs ys old) r)"
      using resume_run [OF d pw r k snoc] by simp
    have d0: "ids_distinct r ?L" and i0: "\<not> it_active it \<Longrightarrow> layout_map r ?L (it_id it) = None"
      using res snoc by (simp_all add: resumable_def)
    have rm: "resumed_map r L a = (if it_active it then (layout_map r ?L)(it_id it \<mapsto> it_data it) else layout_map r ?L)"
      using snoc by (simp add: resumed_map_def Let_def)
    note all = find_in_all_pages [OF a(1), of ?L "\<lambda>i. it_active i \<and> it_id i = it_id it"]
    have L: "?L(a := ?L a @ [it]) = L" using snoc by auto
    show ?thesis
    proof (cases ?f)
      case None
      then have n: "layout_map r ?L (it_id it) = None"
        using all by (auto simp: layout_map_None set_live_items)
      have "ids_distinct r L \<and> layout_map r L = resumed_map r L a"
      proof (cases "it_active it")
        case True
        then show ?thesis using layout_append [OF a(1,2) True d0 n, unfolded L] rm by simp
      next
        case False
        then show ?thesis
          using snoc layout_drop_inactive [of L a xs it r] d0 rm by (simp add: ids_distinct_def layout_map_def)
      qed
      then show ?thesis using run None d pw by (auto simp: nv_wf_def)
    next
      case (Some f)
      obtain q ys old where f: "f = (q, ys, old)" by (cases f)
      obtain zs where q: "q < nvSize r" "q \<noteq> tailPage r" and Lq: "?L q = ys @ old # zs"
        and old: "it_active old" "it_id old = it_id it"
        using all Some f by auto
      have act: "it_active it"
      proof (rule ccontr)
        assume "\<not> it_active it"
        moreover have "old \<in> set (live_items r ?L)" unfolding set_live_items using q Lq old by auto
        ultimately show False using i0 old by (auto simp: layout_map_None)
      qed
      let ?zs = "drop (Suc (length ys)) (L q)"
      have LL: "L q = ys @ old # ?zs" using Lq snoc by (cases "q = a") auto
      obtain s' where s': "NVOCMP_setItemInactive E q (hdr_ofs ys old) r = s'" "driver_wf E s'"
        "pages_wf E s' (L(q := ys @ old\<lparr>it_active := False\<rparr> # ?zs))" "same_ram r s'"
        by (rule setItemInactive_wf [OF d pw q LL old(1)])
      note rep = layout_replace [OF q a(1,2) Lq old(1) act old(2) [symmetric] d0, unfolded L]
      have geo: "nvSize s' = nvSize r" "tailPage s' = tailPage r" using s'(4) by (simp_all add: same_ram_def)
      show ?thesis
        using run Some f s'(1-3) rep rm act old(2)
        by (intro exI [of _ s'] exI [of _ "L(q := ys @ old\<lparr>it_active := False\<rparr> # ?zs)"])
           (simp add: nv_wf_def layout_cong [OF geo])
    qed
  qed
qed

end

text \<open>
  What a previous run leaves on the pages: the destination page \<open>t\<close>, the active page \<open>a\<close>, and pages that
  are full or unused, each with its items and the offset of its end where the scan finds it.
\<close>

definition boot_image :: "'f nvs_env \<Rightarrow> 'f nv \<Rightarrow> (nat \<Rightarrow> nv_item list) \<Rightarrow> nat \<Rightarrow> nat \<Rightarrow> bool" where
  "boot_image E s L t a \<longleftrightarrow>
    t < boot_size E \<and> a < boot_size E \<and> hdr_valid E s t \<and> page_state E s t = NVOCMP_PGXDST \<and>
    page_state E s a = NVOCMP_PGACT \<and>
    list_all (\<lambda>p. p \<noteq> t \<longrightarrow> boot_page E s p (L p) \<and>
                  (p \<noteq> a \<longrightarrow> page_state E s p = NVOCMP_PGNACT \<or> page_state E s p = NVOCMP_PGFULL))
      [0..<boot_size E]"

abbreviation boot_geo :: "'f nvs_env \<Rightarrow> 'f nv \<Rightarrow> nat \<Rightarrow> 'f nv" where
  "boot_geo E s t \<equiv> s\<lparr>nvSize := boot_size E, tailPage := t\<rparr>"

lemma boot_page_flash:
  assumes "flash s' = flash s"
  shows "boot_page E s' p its = boot_page E s p its" and "hdr_valid E s' p = hdr_valid E s p"
    and "page_state E s' p = page_state E s p" and "fbyte E s' p x = fbyte E s p x"
proof -
  show f: "fbyte E s' p x = fbyte E s p x" for x using assms by (simp add: fbyte_def)
  then show st: "page_state E s' p = page_state E s p" by (simp add: page_state_def)
  show v: "hdr_valid E s' p = hdr_valid E s p"
    using assms by (simp add: hdr_valid_def NVOCMP_readPageHdr_def NVOCMP_read_def)
  have b: "fbytes E s' p i j = fbytes E s p i j" for i j by (simp add: fbytes_def f)
  have "NVOCMP_getCompactHdr E s' p h = NVOCMP_getCompactHdr E s p h" for h
    using assms by (simp add: NVOCMP_getCompactHdr_def NVOCMP_read_def)
  then show "boot_page E s' p its = boot_page E s p its"
    by (simp add: boot_page_def items_at_def f st v b)
qed

lemma filter_unique: "a < n \<Longrightarrow> (\<And>p. p < n \<Longrightarrow> P p \<longleftrightarrow> p = a) \<Longrightarrow> filter P [0..<n] = [a]"
proof (induction n)
  case (Suc n)
  then show ?case
    by (cases "a = n") (auto simp: filter_empty_conv less_Suc_eq)
qed simp

lemma filter_none: "(\<And>p. p < n \<Longrightarrow> \<not> P p) \<Longrightarrow> filter P [0..<n] = []"
  by (simp add: filter_empty_conv)

context nor_flash
begin

lemma boot_image_pages:
  assumes "boot_image E s L t a" and "p < boot_size E"
  shows "p = t \<Longrightarrow> page_state E s p = 0xFE" and "p = a \<Longrightarrow> page_state E s p = 0x7C"
    and "p \<noteq> t \<Longrightarrow> boot_page E s p (L p)"
    and "p \<noteq> t \<Longrightarrow> p \<noteq> a \<Longrightarrow> page_state E s p = 0xFF \<or> page_state E s p = 0x78"
    and "hdr_valid E s p"
proof -
  have all: "p \<noteq> t \<longrightarrow> boot_page E s p (L p) \<and> (p \<noteq> a \<longrightarrow> page_state E s p = 0xFF \<or> page_state E s p = 0x78)"
    and st: "hdr_valid E s t" "page_state E s t = 0xFE" "page_state E s a = 0x7C"
    using assms by (simp_all add: boot_image_def list_all_iff)
  show "p = t \<Longrightarrow> page_state E s p = 0xFE" "p = a \<Longrightarrow> page_state E s p = 0x7C" using st by simp_all
  show bp: "p \<noteq> t \<Longrightarrow> boot_page E s p (L p)" and "p \<noteq> t \<Longrightarrow> p \<noteq> a \<Longrightarrow> page_state E s p = 0xFF \<or> page_state E s p = 0x78"
    using all by blast+
  show "hdr_valid E s p" using bp st(1) by (cases "p = t") (simp_all add: boot_page_def Let_def)
qed

lemma boot_action:
  assumes im: "boot_image E s L t a" and n: "nvSize s' = boot_size E"
  defines "k \<equiv> page_counts E s [0..<boot_size E] init_counts0"
  shows "initNv_action E k s' = (NVOCMP_NORMAL_RESUME, t, s')" and "pgAct k = a"
proof -
  let ?n = "boot_size E"
  note im' = boot_image_pages [OF im]
  have ta: "t < ?n" "a < ?n" using im by (auto simp: boot_image_def)
  have st: "page_state E s p = 0xFE \<and> p = t \<or> page_state E s p = 0x7C \<and> p = a \<or>
      (page_state E s p = 0xFF \<or> page_state E s p = 0x78) \<and> p \<noteq> t \<and> p \<noteq> a" if "p < ?n" for p
    using im'(1,2,4) [OF that] by blast
  have one: "page_state E s p = 0xFE \<longleftrightarrow> p = t" "page_state E s p = 0x7C \<longleftrightarrow> p = a" "page_state E s p \<noteq> 0x7E"
    "page_state E s p \<noteq> 0x70" "known_state (page_state E s p)" if "p < ?n" for p
    using st [OF that] im'(1,2) [OF that] by (auto simp: known_state_def)
  have x: "in_state E s 0xFE [0..<?n] = [t]" unfolding in_state_def
    by (rule filter_unique [OF ta(1) one(1)])
  have ac: "in_state E s 0x7C [0..<?n] = [a]" unfolding in_state_def
    by (rule filter_unique [OF ta(2) one(2)])
  have none: "in_state E s 0x7E [0..<?n] = []" "in_state E s 0x70 [0..<?n] = []"
    "filter (\<lambda>p. \<not> known_state (page_state E s p)) [0..<?n] = []"
    unfolding in_state_def by (rule filter_none, simp add: one)+
  have "length (in_state E s 0xFF [0..<?n]) < length [0..<?n]"
    unfolding in_state_def by (rule length_filter_less [of t]) (use ta im'(1) [OF ta(1) refl] in auto)
  then show "initNv_action E k s' = (NVOCMP_NORMAL_RESUME, t, s')" "pgAct k = a"
    using x ac none n
    by (simp_all add: initNv_action_def k_def page_counts_simps init_counts0_def last_or_def)
qed

lemma scan_pages_wf:
  assumes b: "boot_env_ok E" and im: "boot_image E s L t a" and v: "volt_ok s"
    and core: "same_core (boot_state E s) s1" and fl: "flash s1 = flash s" and fw: "failW s1 = NVINTF_SUCCESS E"
    and info: "\<And>p. p < boot_size E \<Longrightarrow> pageInfo s1 p = pageInfo (scanPage_info E p s) p"
  shows "driver_wf E (resume_state t a s1)" and "pages_wf E (resume_state t a s1) L"
proof -
  let ?r = "resume_state t a s1"
  have c: "nvSize s1 = boot_size E" "failF s1 = NVINTF_SUCCESS E" "volt_ok s1"
    using core v by (simp_all add: same_core_def boot_state_def volt_ok_def)
  have r: "nvSize ?r = boot_size E" "tailPage ?r = t" "offset_of ?r = offset_of s1" "flash ?r = flash s"
    "failW ?r = failW s1" "failF ?r = failF s1" "actPage ?r = a" "actOffset ?r = offset_of s1 a" "volt_ok ?r"
    using c fl by (simp_all add: resume_state_def offset_of_def fun_eq_iff volt_ok_def)
  have "t \<noteq> a" "t < boot_size E" "a < boot_size E" using im by (auto simp: boot_image_def)
  then show "driver_wf E ?r"
    using b boot_geometry [OF b, of s] r c fw by (simp add: driver_wf_def geometry_ok_def boot_state_def)
  have "page_wf E ?r p (L p)" if p: "p < boot_size E" "p \<noteq> t" for p
  proof -
    have bp: "boot_page E s p (L p)" by (rule boot_image_pages(3) [OF im p])
    have "offset_of ?r p = 16 + items_size (L p)"
      using scanPage_boot(2) [OF bp] info [OF p(1)] r(3) by (simp add: offset_of_def)
    moreover have "boot_page E ?r p (L p)" using bp boot_page_flash(1) [OF r(4)] by simp
    ultimately show ?thesis by (simp add: boot_page_def page_wf_def Let_def)
  qed
  then show "pages_wf E ?r L" by (simp add: pages_wf_def list_all_iff r)
qed

lemma init_resumes:
  assumes b: "boot_env_ok E" and f: "failF s = NVINTF_NOTREADY E" and v: "volt_ok s"
    and im: "boot_image E s L t a" and res: "resumable (boot_geo E s t) L a"
  shows "\<exists>s'. NVOCMP_initNvApi E s = Some (NVINTF_SUCCESS E, s') \<and> nv_inv E s' \<and>
    nv_map E s' = resumed_map (boot_geo E s t) L a"
proof -
  let ?s = "boot_state E s" and ?n = "boot_size E"
  have fl: "flash ?s = flash s" and n: "nvSize ?s = ?n" by (simp_all add: boot_state_def)
  have "hdr_valid E ?s p" if "p \<in> set [0..<?n]" for p
    using boot_image_pages(5) [OF im, of p] that by (simp add: boot_page_flash(2) [OF fl])
  from initNv_scan_boot [OF this, of "[0..<?n]" init_counts0] obtain s1
    where scan: "initNv_scan E [0..<?n] init_counts0 ?s = (Some (page_counts E ?s [0..<?n] init_counts0), s1)"
      and s1: "same_core ?s s1" "flash s1 = flash ?s" "failW s1 = failW ?s"
      and info: "\<And>p. p < ?n \<Longrightarrow> pageInfo s1 p = pageInfo (scanPage_info E p ?s) p"
    by auto
  let ?k = "page_counts E s [0..<?n] init_counts0"
  have k: "page_counts E ?s [0..<?n] init_counts0 = ?k"
    by (simp add: page_counts_def boot_page_flash(3) [OF fl])
  have n1: "nvSize s1 = ?n" using s1(1) n by (simp add: same_core_def)
  note act = boot_action [OF im n1]
  let ?g = "s1\<lparr>gAction := NVOCMP_NORMAL_RESUME\<rparr>"
  have wf: "driver_wf E (resume_state t a ?g)" "pages_wf E (resume_state t a ?g) L"
    by (rule scan_pages_wf [OF b im v]; use s1 fl info scanPage_info_flash [OF fl] in
        \<open>simp add: same_core_def boot_state_def\<close>)+
  have geo: "nvSize (resume_state t a ?g) = nvSize (boot_geo E s t)" "tailPage (resume_state t a ?g) = tailPage (boot_geo E s t)"
    using n1 by (simp_all add: resume_state_def)
  have res': "resumable (resume_state t a ?g) L a" and map': "resumed_map (resume_state t a ?g) L a = resumed_map (boot_geo E s t) L a"
    using res by (simp_all add: resumable_def resumed_map_def layout_cong [OF geo])
  obtain s' L' where s': "initNv_resume E ?k t ?g = Some s'" "nv_wf E s' L'"
    "layout_map s' L' = resumed_map (boot_geo E s t) L a"
    using resume_ok [OF wf refl act(2) res'] map' by auto
  have "NVOCMP_initNv E ?s = Some s'"
    using scan k act(1) n s'(1) by (simp add: NVOCMP_initNv_def initNv_perform_def)
  then show ?thesis
    using initNvApi_boot [OF b f] nv_wf_inv [OF s'(2)] s'(3) nv_wfD(1) [OF s'(2)] by (auto simp: driver_wf_def)
qed

end

text \<open>
  Two cases of it. Nothing was interrupted: the identifiers are distinct, and the store is the one of
  the pages. A replacement was interrupted after the new item was written: the new value counts.
\<close>

lemma resumed_intact:
  assumes d: "ids_distinct s L" and a: "a < nvSize s" "a \<noteq> tailPage s"
    and last: "L a \<noteq> [] \<Longrightarrow> \<not> it_active (last (L a)) \<Longrightarrow> layout_map s L (it_id (last (L a))) = None"
  shows "resumable s L a" and "resumed_map s L a = layout_map s L"
proof -
  let ?L = "L(a := butlast (L a))"
  have "resumable s L a \<and> resumed_map s L a = layout_map s L"
  proof (cases "L a" rule: rev_cases)
    case Nil
    then have "?L = L" by auto
    then show ?thesis using d Nil by (simp add: resumable_def resumed_map_def Let_def)
  next
    case (snoc xs it)
    show ?thesis
    proof (cases "it_active it")
      case False
      then show ?thesis
        using snoc layout_drop_inactive [of L a xs it s] d last
        by (simp add: resumable_def resumed_map_def Let_def ids_distinct_def layout_map_def)
    next
      case True
      obtain A B where AB: "\<forall>M. (\<forall>p. p \<noteq> a \<longrightarrow> M p = L p) \<longrightarrow> live_items s M = A @ filter it_active (M a) @ B"
        using live_items_at [OF a] by blast
      have l: "live_items s L = A @ filter it_active xs @ it # B" "live_items s ?L = A @ filter it_active xs @ B"
        using AB [rule_format, of L] AB [rule_format, of ?L] True snoc by simp_all
      have d0: "ids_distinct s ?L" using d by (simp add: ids_distinct_def l)
      have n: "layout_map s ?L (it_id it) = None"
        using d by (auto simp: layout_map_None l ids_distinct_def image_iff)
      have "?L(a := ?L a @ [it]) = L" using snoc by auto
      then show ?thesis
        using layout_append(2) [OF a True d0 n] d0 snoc True
        by (simp add: resumable_def resumed_map_def Let_def)
    qed
  qed
  then show "resumable s L a" "resumed_map s L a = layout_map s L" by simp_all
qed

end
