(* ===== verification/NvCopy.thy ===== *)
theory NvCopy
  imports NvBoot
begin

text \<open>
  Copying during compaction: \<^verbatim>\<open>NVOCMP_compact\<close> with one source page. The active items of the source page are collected in the
  RAM buffer, from the newest to the oldest and from the end of the buffer backwards, and the buffer is written to the destination page.
\<close>

lemma fbyte_ram [simp]:
  "fbyte E (s\<lparr>compactInfo := i\<rparr>) p x = fbyte E s p x" "fbyte E (s\<lparr>actPage := q\<rparr>) p x = fbyte E s p x"
  "fbyte E (s\<lparr>actOffset := q\<rparr>) p x = fbyte E s p x" "fbyte E (s\<lparr>tailPage := q\<rparr>) p x = fbyte E s p x"
  "fbyte E (s\<lparr>headPage := q\<rparr>) p x = fbyte E s p x" "fbyte E (s\<lparr>forceCompact := b\<rparr>) p x = fbyte E s p x"
  "fbyte E (s\<lparr>vcalls := k\<rparr>) p x = fbyte E s p x"
  by (simp_all add: fbyte_def)

lemma fbyte_upd_cinfo [simp]: "fbyte E (upd_cinfo f s) p x = fbyte E s p x"
  by (simp add: upd_cinfo_def)

subsection \<open>The RAM buffer\<close>

text \<open>The end of the buffer holds the encoding of the items \<open>ys\<close> that were copied.\<close>

definition collected :: "'f nvs_env \<Rightarrow> 'f compact_vars \<Rightarrow> nv_item list \<Rightarrow> bool" where
  "collected E c ys \<longleftrightarrow> length (c_buf c) = FLASH_PAGE_SIZE \<and> c_dstOff c = NVOCMP_PGDATAOFS + items_size ys \<and>
     c_dstOff c \<le> FLASH_PAGE_SIZE \<and> take (items_size ys) (drop (FLASH_PAGE_SIZE - NVOCMP_PGDATAOFS - items_size ys) (c_buf c)) = enc_items E ys"

lemma take_drop_list_write:
  assumes "length bs = m" "off + m + n \<le> length xs"
  shows "take (m + n) (drop off (list_write off bs xs)) = bs @ take n (drop (off + m) xs)"
  using assms by (simp add: list_write_def)

lemma collected_copy:
  assumes "collected E c ys" "c_dstOff c + item_size it \<le> 2048"
  shows "collected E (c\<lparr>c_buf := list_write (2048 - c_dstOff c - item_size it) (enc_item E it) (c_buf c),
    c_dstOff := c_dstOff c + item_size it, c_aItem := a, c_dstFull := b, c_srcOff := o'\<rparr>) (it # ys)"
proof -
  let ?k = "2048 - c_dstOff c - item_size it"
  have len: "length (enc_item E it) = item_size it"
    by (simp add: item_size_def)
  have "take (item_size it + items_size ys) (drop ?k (list_write ?k (enc_item E it) (c_buf c))) =
      enc_item E it @ take (items_size ys) (drop (?k + item_size it) (c_buf c))"
    using assms by (intro take_drop_list_write [OF len]) (simp add: collected_def)
  moreover have "?k + item_size it = 2048 - c_dstOff c"
    using assms(2) by simp
  ultimately show ?thesis
    using assms by (simp add: collected_def item_size_def ac_simps)
qed

subsection \<open>The loop over the items of a page\<close>

context nvs
begin

lemma compact_item_step:
  assumes at: "items_at E (c_nv c) (c_srcPg c) (xs @ [it]) (c_srcOff c)" and le: "c_srcOff c \<le> 2048"
    and col: "collected E c ys" and fits: "it_active it \<Longrightarrow> c_dstOff c + item_size it \<le> 2048"
  shows "\<exists>c'. compact_item E c = Continue c' \<and> c_nv c' = c_nv c \<and> c_srcPg c' = c_srcPg c \<and>
    c_srcOff c' = 16 + items_size xs \<and> collected E c' (filter it_active [it] @ ys) \<and>
    (c_dstFull c' \<longleftrightarrow> c_dstFull c \<or> it_active it \<and> c_dstOff c' = 2048) \<and> c_dstOff c' = c_dstOff c + items_size (filter it_active [it])"
proof -
  let ?l = "length (it_data it)" and ?b = "16 + items_size xs" and ?s = "c_nv c" and ?p = "c_srcPg c"
  have it: "item_at E ?s ?p ?b it" and off: "c_srcOff c = ?b + ?l + 7"
    using at by (auto simp: items_at_snoc item_size_def)
  have hdr: "NVOCMP_readHeader E ?s ?p (?b + ?l) = stored_hdr E ?p (?b + ?l) it"
    by (rule readHeader_at [OF it refl])
  have subs: "sub16 (c_srcOff c) 7 = ?b + ?l" "sub16 (c_srcOff c) (7 + ?l) = ?b"
    using le off by (simp_all add: sub16_le)
  have size: "u16 (7 + ?l) = item_size it"
    using le off by (simp add: u16_id item_size_def)
  have crc: "NVOCMP_verifyCRC E ?s ?b ?l (item_crc E it) ?p = NVINTF_SUCCESS E"
    by (rule verifyCRC_at [OF it]) (use le off in \<open>simp add: item_size_def\<close>)
  have bytes: "NVOCMP_read E ?s ?p ?b (item_size it) = enc_item E it"
    using it by (simp add: read_eq item_at_def)
  have stats: "stats (stored_hdr E ?p (?b + ?l) it) AND 1 = 0" "stats (stored_hdr E ?p (?b + ?l) it) AND 2 \<noteq> 0 \<longleftrightarrow> it_active it"
    by (simp_all add: stored_hdr_def)
  have fields: "len (stored_hdr E ?p (?b + ?l) it) = ?l" "sig (stored_hdr E ?p (?b + ?l) it) = 0x96" "crc8 (stored_hdr E ?p (?b + ?l) it) = item_crc E it"
    by (simp_all add: stored_hdr_def)
  have item: "compact_item E c =
    (if it_active it then
       Continue (c\<lparr>c_buf := list_write (2048 - c_dstOff c - item_size it) (enc_item E it) (c_buf c),
         c_dstOff := c_dstOff c + item_size it, c_aItem := c_aItem c + 1,
         c_dstFull := (if c_dstOff c + item_size it = 2048 then True else c_dstFull c), c_srcOff := ?b\<rparr>)
     else Continue (c\<lparr>c_srcOff := ?b\<rparr>))"
    using le off fits unfolding compact_item_def Let_def NVOCMP_ITEMHDRLEN_def subs hdr fields subs
      FLASH_PAGE_SIZE_def NVOCMP_PGDATAOFS_def size crc bytes NVOCMP_SIGNATURE_def NVOCMP_VALIDIDBIT_def NVOCMP_ACTIVEIDBIT_def stats
    by (auto simp: u16_id)
  show ?thesis
  proof (cases "it_active it")
    case True
    then show ?thesis
      using item collected_copy [OF col fits] by simp
  next
    case False
    then show ?thesis
      using item col by (simp add: collected_def)
  qed
qed

text \<open>A source page is consumed completely when its active items fit into the buffer.\<close>

lemma compact_loop_page:
  assumes "c_srcPg c = q" "q \<noteq> dst" "failW (c_nv c) = NVINTF_SUCCESS E"
    and "items_at E (c_nv c) q its (c_srcOff c)" "c_srcOff c \<le> 2048" "collected E c ys"
    and "items_size its + items_size ys \<le> 2032" and "c_dstFull c \<Longrightarrow> c_dstOff c = 2048"
  shows "\<exists>c'. compact_loop E q dst c = Some (True, c') \<and> c_srcPg c' = q \<and> c_srcOff c' = 16 \<and>
    collected E c' (filter it_active its @ ys) \<and>
    (c_nv c' = c_nv c \<or> c_nv c' = upd_page q (\<lambda>p. p\<lparr>pi_offset := 16\<rparr>) (c_nv c))"
  using assms
proof (induction its arbitrary: c ys rule: rev_induct)
  case Nil
  then have off: "c_srcOff c = 16"
    by (simp add: items_at_def)
  then have "compact_loop E q dst c = Some (True, save_srcOff c)"
    using Nil.prems(1,2) by (subst compact_loop.simps) (simp add: compact_body_def Let_def save_srcOff_def)
  then show ?case
    using off Nil.prems(1,6) by (simp add: save_srcOff_def collected_def)
next
  case (snoc it xs)
  have at: "items_at E (c_nv c) (c_srcPg c) (xs @ [it]) (c_srcOff c)" 
    using snoc.prems by auto
  have ok: "8 \<le> item_size it" and off: "c_srcOff c = 16 + items_size xs + item_size it" and xs: "items_at E (c_nv c) q xs (16 + items_size xs)"
    using at item_size_pos [of it] snoc.prems(1) by (auto simp: items_at_snoc item_at_def)
  have dst: "c_dstOff c = 16 + items_size ys"
    using snoc.prems(6) by (simp add: collected_def)
  have full: "\<not> c_dstFull c"
    using snoc.prems(7,8) dst ok by auto
  have fits: "c_dstOff c + item_size it \<le> 2048" if "it_active it"
    using snoc.prems(7) dst by simp
  obtain c' where c': "compact_item E c = Continue c'" "c_nv c' = c_nv c" "c_srcPg c' = c_srcPg c"
    "c_srcOff c' = 16 + items_size xs" "collected E c' (filter it_active [it] @ ys)"
    "c_dstFull c' \<longleftrightarrow> c_dstFull c \<or> it_active it \<and> c_dstOff c' = 2048" "c_dstOff c' = c_dstOff c + items_size (filter it_active [it])"
    using compact_item_step [OF at snoc.prems(5,6) fits] by blast
  have step: "compact_loop E q dst c = compact_loop E q dst c'"
    using snoc.prems(1-3) full off ok c'(1) by (subst compact_loop.simps) (simp add: compact_body_def Let_def)
  have "\<exists>c''. compact_loop E q dst c' = Some (True, c'') \<and> c_srcPg c'' = q \<and> c_srcOff c'' = 16 \<and>
    collected E c'' (filter it_active xs @ filter it_active [it] @ ys) \<and>
    (c_nv c'' = c_nv c' \<or> c_nv c'' = upd_page q (\<lambda>p. p\<lparr>pi_offset := 16\<rparr>) (c_nv c'))"
    by (rule snoc.IH) (use snoc.prems c' xs off full in auto)
  then show ?case
    using step c'(2) by simp
qed

end

subsection \<open>Writing the destination page\<close>

text \<open>What compaction leaves alone in the RAM of the driver.\<close>

definition same_handle :: "'f nv \<Rightarrow> 'f nv \<Rightarrow> bool" where
  "same_handle s s' \<longleftrightarrow> nvSize s' = nvSize s \<and> headPage s' = headPage s \<and> tailPage s' = tailPage s \<and>
     failF s' = failF s \<and> voltCheckFptr s' = voltCheckFptr s \<and> forceCompact s' = forceCompact s"

definition bytes_kept :: "'f nvs_env \<Rightarrow> (nat \<times> nat) set \<Rightarrow> 'f nv \<Rightarrow> 'f nv \<Rightarrow> bool" where
  "bytes_kept E X s s' \<longleftrightarrow> (\<forall>p x. x < 2048 \<longrightarrow> (p, x) \<notin> X \<longrightarrow> fbyte E s' p x = fbyte E s p x)"

lemma bytes_keptD: "bytes_kept E X s s' \<Longrightarrow> x < 2048 \<Longrightarrow> (p, x) \<notin> X \<Longrightarrow> fbyte E s' p x = fbyte E s p x"
  by (simp add: bytes_kept_def)

lemma bytes_kept_trans: "bytes_kept E X s s1 \<Longrightarrow> bytes_kept E Y s1 s2 \<Longrightarrow> X \<union> Y \<subseteq> Z \<Longrightarrow> bytes_kept E Z s s2"
  unfolding bytes_kept_def by (metis Un_iff subset_iff)

lemma and_FF: "0xFF AND (b :: byte) = b"
proof -
  have "(0xFF :: byte) = - 1"
    by simp
  then show ?thesis
    by (simp only: and.left_neutral)
qed

lemma erased_from:
  assumes "list_all P (fbytes E s d a n)" "a \<le> b"
  shows "list_all P (fbytes E s d b n)"
proof -
  have "fbytes E s d b n = drop (b - a) (fbytes E s d a n)"
    using assms(2) by (simp add: drop_fbytes)
  then show ?thesis
    using assms(1) set_drop_subset by (fastforce simp: list_all_iff)
qed

context nor_flash
begin

lemma setCompactHdr_program:
  assumes "volt_ok s" "2048 * Suc d \<le> regionSize E" "l \<le> 2"
    and hdr: "fbytes E s d ((l + 1) * 4) ((l + 1) * 4 + 4) = null_compactHdr"
  obtains s' where "NVOCMP_setCompactHdr E d pg ofs l s = s'\<lparr>failW := NVINTF_SUCCESS E\<rparr>"
    and "programmed E d ((l + 1) * 4) (le16 ofs @ [of_nat pg, 0x96]) s s'"
proof -
  let ?bs = "le16 ofs @ [of_nat pg, 0x96] :: byte list"
  have len: "length ?bs = 4"
    by (simp add: le16_def)
  have "fbyte E s d ((l + 1) * 4 + i) AND ?bs ! i = ?bs ! i" if "i < 4" for i
  proof -
    have "fbyte E s d ((l + 1) * 4 + i) = null_compactHdr ! i"
      using that hdr nth_fbytes [of i "(l + 1) * 4 + 4" "(l + 1) * 4" E s d] by simp
    moreover have "i = 0 \<or> i = 1 \<or> i = 2 \<or> i = 3"
      using that by linarith
    ultimately show ?thesis
      by (auto simp: null_compactHdr_def le16_def and_FF)
  qed
  then obtain s' where "NVOCMP_write E d ((l + 1) * 4) ?bs s = (NVINTF_SUCCESS E, s')" "programmed E d ((l + 1) * 4) ?bs s s'"
    using write_ok [OF assms(1) _ assms(2), of "(l + 1) * 4" ?bs] assms(3) len by auto
  then show thesis
    using that by (simp add: NVOCMP_setCompactHdr_def)
qed

lemma compact_ok:
  assumes s: "volt_ok s" "2048 * Suc d \<le> regionSize E" "q \<noteq> d" "q < nvSize s"
    and info: "xSrcPages (compactInfo s) = 1" "xSrcSPage (compactInfo s) = q" "xDstPage (compactInfo s) = d"
    and src: "items_at E s q its (offset_of s q)" "offset_of s q \<le> 2048"
    and dst: "offset_of s d = 16" "list_all (\<lambda>b. b = 0xFF) (fbytes E s d 16 2048)"
      "fbytes E s d 8 12 = null_compactHdr" "fbytes E s d 12 16 = null_compactHdr"
  defines "live \<equiv> filter it_active its"
  obtains status s' where "NVOCMP_compact E s = Some (status, s')" "status \<noteq> NVOCMP_COMPACT_FAILURE" "failW s' = NVINTF_SUCCESS E"
    "same_handle s s'" "actPage s' = actPage s" "pi_state \<circ> pageInfo s' = pi_state \<circ> pageInfo s"
    "compactInfo s' = (compactInfo s)\<lparr>xDstOffset := 16 + items_size live, xSrcEOffset := 16, xSrcEPage := q\<rparr>"
    "items_at E s' d live (16 + items_size live)" "offset_of s' d = 16 + items_size live"
    "list_all (\<lambda>b. b = 0xFF) (fbytes E s' d (16 + items_size live) 2048)"
    "fbytes E s' d 12 16 = le16 16 @ [of_nat q, 0x96]"
    "\<forall>p. p \<noteq> d \<and> p \<noteq> q \<longrightarrow> offset_of s' p = offset_of s p"
    "bytes_kept E {(p, x). p = d \<and> 8 \<le> x} s s'"
proof -
  let ?s = "s\<lparr>failW := NVINTF_SUCCESS E\<rparr>"
  let ?c = "\<lparr>c_nv = ?s, c_srcPg = q, c_srcOff = offset_of s q, c_dstOff = 16, c_dstFull = False, c_aItem = 0,
               c_buf = replicate FLASH_PAGE_SIZE 0\<rparr>"
  have its: "list_all item_ok its" "items_size its \<le> 2032"
    using src by (auto simp: items_at_def)
  moreover have "items_size (filter it_active xs) \<le> items_size xs" for xs
    by (induction xs) simp_all
  ultimately have live: "items_size live \<le> 2032" "list_all item_ok live"
    unfolding live_def by (auto simp: list_all_iff intro: order_trans)
  have "items_at E ?s q its (offset_of s q)"
    by (rule items_at_cong [OF src(1)]) simp
  then obtain c where c: "compact_loop E q d ?c = Some (True, c)" "c_srcPg c = q" "c_srcOff c = 16"
    "collected E c live" "c_nv c = ?s \<or> c_nv c = upd_page q (\<lambda>p. p\<lparr>pi_offset := 16\<rparr>) ?s"
    using compact_loop_page [of ?c q d its "[]"] s(3) src unfolding live_def by (auto simp: collected_def items_at_def)
  have dstOff: "c_dstOff c = 16 + items_size live" and buf: "take (sub16 (c_dstOff c) 16) (drop (2048 - c_dstOff c) (c_buf c)) = enc_items E live"
    using c(4) by (simp_all add: collected_def sub16_le)
  have cs: "volt_ok (c_nv c)" "flash (c_nv c) = flash s" "same_handle s (c_nv c)" "failW (c_nv c) = NVINTF_SUCCESS E" "actPage (c_nv c) = actPage s"
    "pi_state \<circ> pageInfo (c_nv c) = pi_state \<circ> pageInfo s" "compactInfo (c_nv c) = compactInfo s" "\<And>p. p \<noteq> q \<Longrightarrow> offset_of (c_nv c) p = offset_of s p"
    using c(5) s(1) by (auto simp: volt_ok_def upd_page_def same_handle_def offset_of_def)
  have fl: "fbyte E (c_nv c) p x = fbyte E s p x" for p x
    by (rule fbyte_flash_cong [OF cs(2)])
  have "fbyte E (c_nv c) d (16 + i) AND enc_items E live ! i = enc_items E live ! i" if "i < length (enc_items E live)" for i
    using erased_and [OF dst(2), of "16 + i"] live(1) that by (simp add: fl)
  then obtain s1 where s1: "NVOCMP_write E d 16 (enc_items E live) (c_nv c) = (NVINTF_SUCCESS E, s1)" "programmed E d 16 (enc_items E live) (c_nv c) s1"
    using write_ok [OF cs(1) _ s(2), of 16 "enc_items E live"] live(1) by auto
  have run: "NVOCMP_compact E s = Some (compact_close E d c)"
    using c(1) cs(4) info s(4) dst(1) by (simp add: NVOCMP_compact_def Let_def NVOCMP_ADDPAGE_def offset_of_def)
  let ?o = "16 + items_size live"
  let ?s1 = "upd_page d (\<lambda>p. p\<lparr>pi_offset := ?o\<rparr>) (s1\<lparr>compactInfo := (compactInfo s)\<lparr>xDstOffset := ?o, xSrcEOffset := 16, xSrcEPage := q\<rparr>\<rparr>)"
  obtain f1 v1 where e1: "s1 = (c_nv c)\<lparr>flash := f1, vcalls := v1\<rparr>"
    using s1(2) by (auto simp: programmed_def)
  have b1: "fbyte E ?s1 p x = fbyte E s1 p x" for p x
    by (simp add: fbyte_def upd_page_def)
  have f1: "fbyte E s1 p x = fbyte E s p x" if "x < 2048" "p \<noteq> d \<or> x < 16 \<or> ?o \<le> x" for p x
    using programmed_frame [OF s1(2), of p x] that by (auto simp: fl)
  have "volt_ok ?s1"
    using cs(1) by (simp add: e1 volt_ok_def upd_page_def)
  moreover have "fbytes E ?s1 d 8 12 = fbytes E s d 8 12"
    by (rule fbytes_cong) (simp add: b1 f1)
  ultimately obtain s2 where s2: "NVOCMP_setCompactHdr E d q (xSrcSOffset (compactInfo s)) 1 ?s1 = s2\<lparr>failW := NVINTF_SUCCESS E\<rparr>"
    and p2: "programmed E d 8 (le16 (xSrcSOffset (compactInfo s)) @ [of_nat q, 0x96]) ?s1 s2"
    using setCompactHdr_program [of ?s1 d 1 q "xSrcSOffset (compactInfo s)"] s(2) dst(3) by auto
  let ?s2 = "s2\<lparr>failW := NVINTF_SUCCESS E\<rparr>"
  obtain f2 v2 where e2: "s2 = ?s1\<lparr>flash := f2, vcalls := v2\<rparr>"
    using p2 unfolding programmed_def by blast
  have f2: "fbyte E s2 p x = fbyte E s1 p x" if "x < 2048" "p \<noteq> d \<or> x < 8 \<or> 12 \<le> x" for p x
    using programmed_frame [OF p2, of p x] that by (auto simp: b1)
  have "volt_ok ?s2"
    using cs(1) by (simp add: e2 e1 volt_ok_def upd_page_def)
  moreover have "fbytes E ?s2 d 12 16 = fbytes E s d 12 16"
    by (rule fbytes_cong) (simp add: f2 f1)
  ultimately obtain s3 where s3: "NVOCMP_setCompactHdr E d q 16 2 ?s2 = s3\<lparr>failW := NVINTF_SUCCESS E\<rparr>"
    and p3: "programmed E d 12 (le16 16 @ [of_nat q, 0x96]) ?s2 s3"
    using setCompactHdr_program [of ?s2 d 2 q 16] s(2) dst(4) by auto
  let ?s3 = "s3\<lparr>failW := NVINTF_SUCCESS E\<rparr>"
  obtain f3 v3 where e3: "s3 = ?s2\<lparr>flash := f3, vcalls := v3\<rparr>"
    using p3 unfolding programmed_def by blast
  have f3: "fbyte E ?s3 p x = fbyte E s1 p x" if "x < 2048" "p \<noteq> d \<or> x < 8 \<or> 16 \<le> x" for p x
    using programmed_frame [OF p3, of p x] that f2 [of x p] by auto
  have close: "compact_close E d c = (NVOCMP_COMPACT_SRCDONE OR (if 2048 \<le> ?o then NVOCMP_COMPACT_DSTDONE else NVOCMP_COMPACT_SUCCESS), ?s3)"
  proof -
    have "s1\<lparr>failW := failW s1 OR NVINTF_SUCCESS E\<rparr> = s1" "compactInfo s1 = compactInfo s"
      using cs(7) by (simp_all add: SUCCESS_zero e1)
    moreover have "compactInfo ?s1 = (compactInfo s)\<lparr>xDstOffset := ?o, xSrcEOffset := 16, xSrcEPage := q\<rparr>" "compactInfo ?s2 = compactInfo ?s1"
      by (simp_all add: upd_page_def e2)
    ultimately show ?thesis
      using s1(1) s2 s3 c(2,3) s(3) info buf [unfolded dstOff] unfolding compact_close_def Let_def dstOff by simp
  qed
  show thesis
  proof (rule that)
    show "NVOCMP_compact E s = Some (NVOCMP_COMPACT_SRCDONE OR (if 2048 \<le> ?o then NVOCMP_COMPACT_DSTDONE else NVOCMP_COMPACT_SUCCESS), ?s3)"
      by (simp add: run close)
    show "items_at E ?s3 d live ?o"
      using live programmed_fbytes [OF s1(2)] fbytes_cong [of 16 ?o E ?s3 d s1] f3 by (simp add: items_at_def)
    show "list_all (\<lambda>b. b = 0xFF) (fbytes E ?s3 d ?o 2048)"
    proof -
      have "fbytes E ?s3 d ?o 2048 = fbytes E s d ?o 2048"
        by (rule fbytes_cong) (use f3 f1 in simp)
      then show ?thesis
        using erased_from [OF dst(2), of ?o] by simp
    qed
    show "fbytes E ?s3 d 12 16 = le16 16 @ [of_nat q, 0x96]"
      using programmed_fbytes [OF p3] by (simp add: fbytes_def)
    show "bytes_kept E {(p, x). p = d \<and> 8 \<le> x} s ?s3"
      using f3 f1 by (auto simp: bytes_kept_def not_le)
  qed (use cs s(3) in \<open>auto simp: e1 e2 e3 same_handle_def upd_page_def offset_of_def fun_eq_iff\<close>)
qed

end

end
