(* ===== verification/NvRound.thy ===== *)
theory NvRound
  imports NvCopy
begin

text \<open>
  One round of \<^verbatim>\<open>NVOCMP_compactPage\<close> for a request of some bytes: the active items of one source page move to the destination page, the
  source page is erased and becomes the next destination page.
\<close>

subsection \<open>Changes of single bytes of page headers\<close>

definition quiet :: "'f nvs_env \<Rightarrow> 'f nv \<Rightarrow> 'f nv \<Rightarrow> bool" where
  "quiet E s s' \<longleftrightarrow> same_handle s s' \<and> failW s' = NVINTF_SUCCESS E \<and> offset_of s' = offset_of s \<and> compactInfo s' = compactInfo s"

lemma quiet_trans: "quiet E s s1 \<Longrightarrow> quiet E s1 s2 \<Longrightarrow> quiet E s s2"
  by (simp add: quiet_def same_handle_def)

lemma quiet_volt: "quiet E s s' \<Longrightarrow> volt_ok s \<Longrightarrow> volt_ok s'"
  by (simp add: quiet_def same_handle_def volt_ok_def)

context nor_flash
begin

lemma writeByte_quiet:
  assumes "volt_ok s" "2048 * Suc pg \<le> regionSize E" "x < 2048" "fbyte E s pg x AND b = b"
  obtains s' where "NVOCMP_writeByte E pg x b s = s'" "quiet E s s'" "pageInfo s' = pageInfo s" "actPage s' = actPage s"
    "fbyte E s' pg x = b" "bytes_kept E {(pg, x)} s s'" "actOffset s' = actOffset s"
proof -
  obtain s1 where w: "NVOCMP_writeByte E pg x b s = s1\<lparr>failW := NVINTF_SUCCESS E\<rparr>" and p: "programmed E pg x [b] s s1"
    using writeByte_ok [OF assms(1,3,2,4)] by blast
  obtain f v where e: "s1 = s\<lparr>flash := f, vcalls := v\<rparr>"
    using p unfolding programmed_def by blast
  show thesis
  proof (rule that [OF w])
    show "fbyte E (s1\<lparr>failW := NVINTF_SUCCESS E\<rparr>) pg x = b"
      using p by (simp add: programmed_def)
    show "bytes_kept E {(pg, x)} s (s1\<lparr>failW := NVINTF_SUCCESS E\<rparr>)"
      using programmed_other [OF p] by (auto simp: bytes_kept_def)
  qed (auto simp: e quiet_def same_handle_def offset_of_def)
qed

lemma changePageState_quiet:
  assumes "volt_ok s" "2048 * Suc pg \<le> regionSize E" "fbyte E s pg 0 AND st = st"
  obtains s' where "NVOCMP_changePageState E pg st s = s'" "quiet E s s'"
    "actPage s' = (if st = NVOCMP_PGACT then pg else actPage s)"
    "pi_state \<circ> pageInfo s' = (pi_state \<circ> pageInfo s)(pg := st)"
    "fbyte E s' pg 0 = st" "bytes_kept E {(pg, 0)} s s'" "actOffset s' = actOffset s"
proof -
  obtain s1 where s1: "NVOCMP_writeByte E pg 0 st s = s1" "quiet E s s1" "pageInfo s1 = pageInfo s" "actPage s1 = actPage s"
    "fbyte E s1 pg 0 = st" "bytes_kept E {(pg, 0)} s s1" "actOffset s1 = actOffset s"
    using writeByte_quiet [OF assms(1,2) _ assms(3)] by auto
  let ?s = "upd_page pg (\<lambda>p. p\<lparr>pi_state := st\<rparr>) (if st = NVOCMP_PGACT then s1\<lparr>actPage := pg\<rparr> else s1)"
  have b: "fbyte E ?s p x = fbyte E s1 p x" for p x
    by simp
  show thesis
  proof (rule that [of ?s])
    show "NVOCMP_changePageState E pg st s = ?s"
      using s1(1,2) by (simp add: NVOCMP_changePageState_def Let_def quiet_def)
    show "quiet E s ?s"
      using s1(2) by (auto simp: quiet_def same_handle_def upd_page_def offset_of_def fun_eq_iff)
    show "pi_state \<circ> pageInfo ?s = (pi_state \<circ> pageInfo s)(pg := st)"
      using s1(3) by (auto simp: upd_page_def fun_eq_iff)
    show "fbyte E ?s pg 0 = st"
      using s1(5) b by simp
    show "bytes_kept E {(pg, 0)} s ?s"
      using s1(6) unfolding bytes_kept_def b .
  qed (use s1(4,7) in \<open>simp_all add: upd_page_def\<close>)
qed

end

subsection \<open>The state between two rounds\<close>

text \<open>A page that can take the items of another one.\<close>

definition dst_ready :: "'f nvs_env \<Rightarrow> 'f nv \<Rightarrow> nat \<Rightarrow> bool" where
  "dst_ready E s d \<longleftrightarrow> offset_of s d = 16 \<and> list_all (\<lambda>b. b = 0xFF) (fbytes E s d 16 2048) \<and>
     fbytes E s d 8 12 = null_compactHdr \<and> fbytes E s d 12 16 = null_compactHdr \<and>
     (fbyte E s d 0 = NVOCMP_PGNACT \<or> fbyte E s d 0 = NVOCMP_PGXDST) \<and> fbyte E s d 6 = NVOCMP_PGNORMAL"

definition modes_ok :: "'f nvs_env \<Rightarrow> 'f nv \<Rightarrow> bool" where
  "modes_ok E s \<longleftrightarrow> (\<forall>p < nvSize s. p \<noteq> tailPage s \<longrightarrow> fbyte E s p 6 AND NVOCMP_PGCSRC = NVOCMP_PGCSRC)"

text \<open>The state of every page in RAM is that on Flash.\<close>

definition states_cached :: "'f nvs_env \<Rightarrow> 'f nv \<Rightarrow> bool" where
  "states_cached E s \<longleftrightarrow> (\<forall>p < nvSize s. pi_state (pageInfo s p) = page_state E s p)"

definition round_inv :: "'f nvs_env \<Rightarrow> 'f nv \<Rightarrow> (nat \<Rightarrow> nv_item list) \<Rightarrow> bool" where
  "round_inv E s L \<longleftrightarrow> geometry_ok E s \<and> volt_ok s \<and> tailPage s < nvSize s \<and> pages_wf E s L \<and> modes_ok E s \<and>
     states_cached E s \<and> dst_ready E s (tailPage s)"

context nor_flash
begin

lemma begin_ok:
  assumes inv: "round_inv E s L" and q: "q < nvSize s" "q \<noteq> tailPage s"
  defines "d \<equiv> tailPage s"
  obtains s' where "compactPage_begin E q d s = s'" "same_handle s s'" "failW s' = NVINTF_SUCCESS E" "offset_of s' = offset_of s"
    "compactInfo s' = (compactInfo s)\<lparr>xDstPage := d, xDstOffset := 2048, xSrcSPage := q, xSrcSOffset := offset_of s q, xSrcEPage := 0xFF, xSrcEOffset := 0\<rparr>"
    "pi_state \<circ> pageInfo s' = (pi_state \<circ> pageInfo s)(q := 0x70, d := 0xFE)"
    "fbyte E s' q 0 = 0x70" "fbyte E s' d 0 = 0xFE" "fbyte E s' d 6 = 0xFE"
    "bytes_kept E {(q, 0), (d, 0), (d, 6)} s s'"
proof -
  have v: "volt_ok s" and reg: "\<And>p. p < nvSize s \<Longrightarrow> 2048 * Suc p \<le> regionSize E" and d: "d < nvSize s" "dst_ready E s d" "q \<noteq> d"
    and cached: "pi_state (pageInfo s d) = fbyte E s d 0"
    using inv q by (auto simp: round_inv_def geometry_ok_def d_def states_cached_def page_state_def)
  have st: "fbyte E s q 0 \<noteq> 0x70" "fbyte E s q 0 AND 0x70 = 0x70"
    using inv q pages_wfD [of E s L q] by (auto simp: round_inv_def page_wf_def page_state_def)
  obtain s1 where s1: "NVOCMP_changePageState E q 0x70 s = s1" "quiet E s s1"
    "pi_state \<circ> pageInfo s1 = (pi_state \<circ> pageInfo s)(q := 0x70)" "fbyte E s1 q 0 = 0x70" "bytes_kept E {(q, 0)} s s1"
    using changePageState_quiet [OF v reg [OF q(1)] st(2)] by auto
  have d1: "fbyte E s1 d 0 = fbyte E s d 0" "fbyte E s1 d 6 = 0xFF"
    using bytes_keptD [OF s1(5), of _ d] d by (auto simp: dst_ready_def)
  obtain s2 where s2: "(if fbyte E s1 d 0 \<noteq> 0xFE then NVOCMP_changePageState E d 0xFE s1 else s1) = s2" "quiet E s1 s2"
    "pi_state \<circ> pageInfo s2 = (pi_state \<circ> pageInfo s1)(d := 0xFE)" "fbyte E s2 d 0 = 0xFE" "bytes_kept E {(d, 0)} s1 s2"
  proof (cases "fbyte E s1 d 0 = 0xFE")
    case True
    have "pi_state (pageInfo s1 d) = 0xFE"
      using True d1 cached fun_cong [OF s1(3), of d] d(3) by simp
    then have "pi_state \<circ> pageInfo s1 = (pi_state \<circ> pageInfo s1)(d := 0xFE)"
      by (auto simp: fun_eq_iff)
    then show thesis
      using that [of s1] True s1(2) by (simp add: quiet_def same_handle_def bytes_kept_def)
  next
    case False
    then have "fbyte E s1 d 0 = 0xFF"
      using d1 d(2) by (auto simp: dst_ready_def)
    then show thesis
      using changePageState_quiet [OF quiet_volt [OF s1(2) v] reg [OF d(1)], of "0xFE"] that False by (auto simp: and_FF)
  qed
  have d2: "fbyte E s2 d 6 = 0xFF" "fbyte E s2 q 0 = 0x70"
    using bytes_keptD [OF s2(5), of 6 d] bytes_keptD [OF s2(5), of 0 q] d1 d(3) s1(4) by auto
  obtain s3 where s3: "NVOCMP_writeByte E d 6 0xFE s2 = s3" "quiet E s2 s3" "pageInfo s3 = pageInfo s2"
    "fbyte E s3 d 6 = 0xFE" "bytes_kept E {(d, 6)} s2 s3"
    using writeByte_quiet [OF quiet_volt [OF s2(2) quiet_volt [OF s1(2) v]] reg [OF d(1)], of 6 "0xFE"] d2 by (auto simp: and_FF)
  have quiet3: "quiet E s s3"
    using s1(2) s2(2) s3(2) by (meson quiet_trans)
  have kept: "bytes_kept E {(q, 0), (d, 0), (d, 6)} s s3"
    by (rule bytes_kept_trans [OF bytes_kept_trans [OF s1(5) s2(5) order.refl] s3(5)]) auto
  let ?s = "upd_cinfo (\<lambda>i. i\<lparr>xDstPage := d, xDstOffset := 2048, xSrcSPage := q, xSrcSOffset := offset_of s q, xSrcEPage := 0xFF, xSrcEOffset := 0\<rparr>)
      (upd_page d (\<lambda>p. p\<lparr>pi_mode := 0xFE\<rparr>) s3)"
  have b: "fbyte E ?s p x = fbyte E s3 p x" for p x
    by simp
  show thesis
  proof (rule that [of ?s])
    show "compactPage_begin E q d s = ?s"
    proof -
      have "(if fbyte E s q 0 \<noteq> 0x70 then NVOCMP_changePageState E q 0x70 s else s) = s1"
        using st(1) s1(1) by simp
      moreover have "offset_of (upd_page d (\<lambda>p. p\<lparr>pi_mode := 0xFE\<rparr>) s3) q = offset_of s q"
        using quiet3 by (simp add: quiet_def offset_of_def upd_page_def fun_eq_iff)
      ultimately show ?thesis
        by (simp only: compactPage_begin_def Let_def ph_state_read page_state_def NVOCMP_PGXSRC_def NVOCMP_PGXDST_def NVOCMP_PGCDST_def
            NVOCMP_COMPMODEOFS_def FLASH_PAGE_SIZE_def NVOCMP_NULLPAGE_def s2(1) s3(1))
    qed
    show "fbyte E ?s q 0 = 0x70" "fbyte E ?s d 0 = 0xFE" "fbyte E ?s d 6 = 0xFE"
      using bytes_keptD [OF s3(5), of 0 q] bytes_keptD [OF s3(5), of 0 d] d2 s2(4) s3(4) by (simp_all add: b)
    show "bytes_kept E {(q, 0), (d, 0), (d, 6)} s ?s"
      using kept unfolding bytes_kept_def b .
    show "pi_state \<circ> pageInfo ?s = (pi_state \<circ> pageInfo s)(q := 0x70, d := 0xFE)"
      using s1(3) s2(3) s3(3) by (auto simp: upd_cinfo_def upd_page_def fun_eq_iff)
  qed (use quiet3 in \<open>auto simp: quiet_def same_handle_def upd_cinfo_def upd_page_def offset_of_def fun_eq_iff\<close>)
qed

end

subsection \<open>Erasing the source page\<close>

lemma INCPAGE_neq: "2 \<le> nvSize s \<Longrightarrow> q < nvSize s \<Longrightarrow> NVOCMP_INCPAGE s q \<noteq> q"
  by (cases "Suc q = nvSize s") (auto simp: NVOCMP_INCPAGE_def NVOCMP_ADDPAGE_def)

lemma page_range_one: "2 \<le> nvSize s \<Longrightarrow> q < nvSize s \<Longrightarrow> page_range (Suc (nvSize s)) s q (NVOCMP_INCPAGE s q) = [q]"
  using INCPAGE_neq [of s q] by (cases "nvSize s") auto

context nor_flash
begin

lemma cleanPage_ok:
  assumes "volt_ok s" "2048 * Suc q \<le> regionSize E" "2 \<le> nvSize s" "q < nvSize s" "nvSize s \<le> 12"
    and info: "xSrcSPage (compactInfo s) = q" "xSrcEPage (compactInfo s) = q"
    and hdr: "fbytes E s (xDstPage (compactInfo s)) 12 16 = le16 16 @ [of_nat q, 0x96]"
  obtains s' c where "NVOCMP_cleanPage E s = Some (1, s')" "failW s' = NVINTF_SUCCESS E" "same_core s s'"
    "pageInfo s' = (pageInfo s)(q := erased_info (pageInfo s q))" "fbytes E s' q 0 16 = fresh_hdr c"
    "list_all (\<lambda>b. b = 0xFF) (fbytes E s' q 16 2048)" "\<And>p x. x < 2048 \<Longrightarrow> p \<noteq> q \<Longrightarrow> fbyte E s' p x = fbyte E s p x"
proof -
  let ?d = "xDstPage (compactInfo s)" and ?s = "upd_page q (\<lambda>p. p\<lparr>pi_offset := 16\<rparr>) s"
  have "unat (of_nat q :: byte) = q"
    using assms(4,5) by (simp add: unsigned_of_nat take_bit_nat_eq_self)
  moreover have "NVOCMP_read E s ?d 12 4 = le16 16 @ [of_nat q, 0x96]"
    using hdr by (simp add: read_eq)
  ultimately have "ch_page (NVOCMP_getCompactHdr E s ?d XSRCENDHDR) = q" "ch_pageOffset (NVOCMP_getCompactHdr E s ?d XSRCENDHDR) = 16"
    by (simp_all add: NVOCMP_getCompactHdr_def Let_def le16_def of_le16_def)
  then have offs: "cleanPage_offsets (NVOCMP_getCompactHdr E s ?d XSRCENDHDR) [q] s = ?s"
    by simp
  have v: "volt_ok ?s"
    using assms(1) by (simp add: volt_ok_def upd_page_def)
  obtain s' where s': "NVOCMP_erase E q ?s = (NVINTF_SUCCESS E, s')" "failW s' = NVINTF_SUCCESS E" "same_core ?s s'"
    "pageInfo s' = (pageInfo ?s)(q := erased_info (pageInfo ?s q))" "fbytes E s' q 0 16 = fresh_hdr (next_cycle (pi_cycle (pageInfo ?s q)))"
    "list_all (\<lambda>b. b = 0xFF) (fbytes E s' q 16 2048)" "\<forall>p x. x < 2048 \<and> p \<noteq> q \<longrightarrow> fbyte E s' p x = fbyte E ?s p x"
    using erase_ok [OF v assms(2)] by blast
  have "s'\<lparr>failW := NVINTF_SUCCESS E\<rparr> = s'"
    using s'(2) by simp
  then have "NVOCMP_cleanPage E s = Some (1, s')"
    unfolding NVOCMP_cleanPage_def Let_def info page_range_one [OF assms(3,4)] offs
    using s'(1) by (simp add: offset_of_def upd_page_def u8_def)
  then show thesis
  proof (rule that)
    show "same_core s s'"
      using s'(3) by (simp add: same_core_def upd_page_def)
    show "pageInfo s' = (pageInfo s)(q := erased_info (pageInfo s q))"
      using s'(4) by (simp add: upd_page_def erased_info_def)
  qed (use s' in auto)
qed

end

lemma round_inv_cinfo [simp]: "round_inv E (s\<lparr>compactInfo := i\<rparr>) L = round_inv E s L"
proof -
  have "fbytes E (s\<lparr>compactInfo := i\<rparr>) = fbytes E s" "offset_of (s\<lparr>compactInfo := i\<rparr>) = offset_of s"
    by (simp_all add: fun_eq_iff fbytes_def offset_of_def)
  then show ?thesis
    by (simp add: round_inv_def geometry_ok_def volt_ok_def pages_wf_def data_pages_def page_wf_def items_at_def page_state_def
        modes_ok_def states_cached_def dst_ready_def)
qed

lemma round_invD:
  assumes "round_inv E s L"
  shows "geometry_ok E s" "volt_ok s" "tailPage s < nvSize s" "pages_wf E s L" "modes_ok E s" "states_cached E s" "dst_ready E s (tailPage s)"
    "\<And>p. p < nvSize s \<Longrightarrow> 2048 * Suc p \<le> regionSize E" "3 \<le> nvSize s" "nvSize s \<le> 12"
  using assms by (auto simp: round_inv_def geometry_ok_def)

lemma fresh_hdr_bytes:
  assumes "fbytes E s q 0 16 = fresh_hdr c"
  shows "fbytes E s q 8 12 = null_compactHdr" "fbytes E s q 12 16 = null_compactHdr" "fbyte E s q 0 = 0xFF" "fbyte E s q 6 = 0xFF"
proof -
  have "fbytes E s q 8 12 = take 4 (drop 8 (fbytes E s q 0 16))" "fbytes E s q 12 16 = drop 12 (fbytes E s q 0 16)"
    by (simp_all add: drop_fbytes take_fbytes)
  then show "fbytes E s q 8 12 = null_compactHdr" "fbytes E s q 12 16 = null_compactHdr"
    unfolding assms by (simp_all add: fresh_hdr_def null_compactHdr_def)
  have "fbyte E s q 0 = fbytes E s q 0 16 ! 0" "fbyte E s q 6 = fbytes E s q 0 16 ! 6"
    by simp_all
  then show "fbyte E s q 0 = 0xFF" "fbyte E s q 6 = 0xFF"
    unfolding assms by (simp_all add: fresh_hdr_def null_compactHdr_def)
qed

subsection \<open>A round\<close>

text \<open>The layout after a round.\<close>

definition moved :: "nat \<Rightarrow> nat \<Rightarrow> (nat \<Rightarrow> nv_item list) \<Rightarrow> nat \<Rightarrow> nv_item list" where
  "moved q d L = L(d := filter it_active (L q), q := [])"

context nor_flash
begin

text \<open>Copying, with the marks of the source and the destination page.\<close>

lemma copy_ok:
  assumes inv: "round_inv E s L" and q: "q < nvSize s" "q \<noteq> tailPage s" and one: "xSrcPages (compactInfo s) = 1"
  defines "d \<equiv> tailPage s" and "live \<equiv> filter it_active (L q)"
  obtains status s' where "NVOCMP_compact E (compactPage_begin E q d s) = Some (status, s')" "status \<noteq> NVOCMP_COMPACT_FAILURE"
    "failW s' = NVINTF_SUCCESS E" "same_handle s s'" "pi_state \<circ> pageInfo s' = (pi_state \<circ> pageInfo s)(q := 0x70, d := 0xFE)"
    "xDstPage (compactInfo s') = d" "xDstOffset (compactInfo s') = 16 + items_size live" "xSrcSPage (compactInfo s') = q"
    "xSrcEPage (compactInfo s') = q" "xSrcPages (compactInfo s') = 1"
    "items_at E s' d live (16 + items_size live)" "offset_of s' d = 16 + items_size live" "16 + items_size live \<le> 2048"
    "list_all (\<lambda>b. b = 0xFF) (fbytes E s' d (16 + items_size live) 2048)"
    "fbytes E s' d 12 16 = le16 16 @ [of_nat q, 0x96]" "fbyte E s' d 0 = 0xFE" "fbyte E s' d 6 = 0xFE"
    "\<forall>p. p \<noteq> d \<and> p \<noteq> q \<longrightarrow> offset_of s' p = offset_of s p"
    "bytes_kept E ({d, q} \<times> UNIV) s s'"
proof -
  note r = round_invD [OF inv]
  have d: "d < nvSize s" "q \<noteq> d"
    using r(3) q by (simp_all add: d_def)
  have src: "items_at E s q (L q) (offset_of s q)" "offset_of s q \<le> 2048"
    using pages_wfD [OF r(4) q] by (simp_all add: page_wf_def)
  have dst: "offset_of s d = 16" "list_all (\<lambda>b. b = 0xFF) (fbytes E s d 16 2048)"
    "fbytes E s d 8 12 = null_compactHdr" "fbytes E s d 12 16 = null_compactHdr"
    using r(7) by (simp_all add: dst_ready_def d_def)
  obtain s1 where s1: "compactPage_begin E q d s = s1" "same_handle s s1" "failW s1 = NVINTF_SUCCESS E" "offset_of s1 = offset_of s"
    "compactInfo s1 = (compactInfo s)\<lparr>xDstPage := d, xDstOffset := 2048, xSrcSPage := q, xSrcSOffset := offset_of s q, xSrcEPage := 0xFF, xSrcEOffset := 0\<rparr>"
    "pi_state \<circ> pageInfo s1 = (pi_state \<circ> pageInfo s)(q := 0x70, d := 0xFE)"
    "fbyte E s1 d 0 = 0xFE" "fbyte E s1 d 6 = 0xFE" "bytes_kept E {(q, 0), (d, 0), (d, 6)} s s1"
    using begin_ok [OF inv q] unfolding d_def by blast
  note kept = bytes_keptD [OF s1(9)]
  have pre: "volt_ok s1" "q < nvSize s1" "xSrcPages (compactInfo s1) = 1" "xSrcSPage (compactInfo s1) = q" "xDstPage (compactInfo s1) = d"
    "offset_of s1 q \<le> 2048" "offset_of s1 d = 16"
    using s1(2,4,5) r(2) q(1) one src(2) dst(1) by (simp_all add: same_handle_def volt_ok_def)
  have at: "items_at E s1 q (L q) (offset_of s1 q)"
    unfolding s1(4) by (rule items_at_cong [OF src(1)]) (use kept src(2) in auto)
  have "fbytes E s1 d 16 2048 = fbytes E s d 16 2048" "fbytes E s1 d 8 12 = fbytes E s d 8 12" "fbytes E s1 d 12 16 = fbytes E s d 12 16"
    by (rule fbytes_cong, use kept in auto)+
  then have dst1: "list_all (\<lambda>b. b = 0xFF) (fbytes E s1 d 16 2048)" "fbytes E s1 d 8 12 = null_compactHdr" "fbytes E s1 d 12 16 = null_compactHdr"
    using dst by simp_all
  obtain status s2 where s2: "NVOCMP_compact E s1 = Some (status, s2)" "status \<noteq> NVOCMP_COMPACT_FAILURE" "failW s2 = NVINTF_SUCCESS E"
    "same_handle s1 s2" "actPage s2 = actPage s1" "pi_state \<circ> pageInfo s2 = pi_state \<circ> pageInfo s1"
    "compactInfo s2 = (compactInfo s1)\<lparr>xDstOffset := 16 + items_size live, xSrcEOffset := 16, xSrcEPage := q\<rparr>"
    "items_at E s2 d live (16 + items_size live)" "offset_of s2 d = 16 + items_size live"
    "list_all (\<lambda>b. b = 0xFF) (fbytes E s2 d (16 + items_size live) 2048)"
    "fbytes E s2 d 12 16 = le16 16 @ [of_nat q, 0x96]"
    "\<forall>p. p \<noteq> d \<and> p \<noteq> q \<longrightarrow> offset_of s2 p = offset_of s1 p"
    "bytes_kept E {(p, x). p = d \<and> 8 \<le> x} s1 s2"
    by (rule compact_ok [OF pre(1) r(8) [OF d(1)] d(2) pre(2-5) at pre(6,7) dst1, folded live_def])
  have "items_size (filter it_active xs) \<le> items_size xs" for xs
    by (induction xs) simp_all
  then have fit: "16 + items_size live \<le> 2048"
    using src unfolding live_def items_at_def by (metis NVOCMP_PGDATAOFS_def add_le_cancel_left le_trans)
  show thesis
  proof (rule that)
    show "NVOCMP_compact E (compactPage_begin E q d s) = Some (status, s2)"
      using s1(1) s2(1) by simp
    show "bytes_kept E ({d, q} \<times> UNIV) s s2"
      by (rule bytes_kept_trans [OF s1(9) s2(13)]) auto
    show "fbyte E s2 d 0 = 0xFE" "fbyte E s2 d 6 = 0xFE"
      using bytes_keptD [OF s2(13)] s1(7,8) by simp_all
    show "same_handle s s2"
      using s1(2) s2(4) by (simp add: same_handle_def)
  qed (use s1 s2 fit one in simp_all)
qed

end

lemma INCPAGE_cong: "nvSize s' = nvSize s \<Longrightarrow> NVOCMP_INCPAGE s' p = NVOCMP_INCPAGE s p" "nvSize s' = nvSize s \<Longrightarrow> NVOCMP_ADDPAGE s' p n = NVOCMP_ADDPAGE s p n"
  by (simp_all add: NVOCMP_INCPAGE_def NVOCMP_ADDPAGE_def)

context nor_flash
begin

text \<open>The end of a round, after the items were copied.\<close>

lemma end_ok:
  assumes inv: "round_inv E s L" and q: "q = NVOCMP_ADDPAGE s (tailPage s) (Suc k)" "q \<noteq> tailPage s"
    and d: "d = tailPage s" and live: "live = filter it_active (L q)" and room: "room \<longleftrightarrow> 16 + items_size live + nBytes \<le> 2048" and n: "nBytes \<noteq> 0"
    and ram: "failW s2 = NVINTF_SUCCESS E" "same_handle s s2" "pi_state \<circ> pageInfo s2 = (pi_state \<circ> pageInfo s)(q := 0x70, d := 0xFE)"
    and info: "xDstPage (compactInfo s2) = d" "xDstOffset (compactInfo s2) = 16 + items_size live" "xSrcSPage (compactInfo s2) = q"
      "xSrcEPage (compactInfo s2) = q" "xSrcPages (compactInfo s2) = 1"
    and dst: "items_at E s2 d live (16 + items_size live)" "offset_of s2 d = 16 + items_size live" "16 + items_size live \<le> 2048"
      "list_all (\<lambda>b. b = 0xFF) (fbytes E s2 d (16 + items_size live) 2048)"
      "fbytes E s2 d 12 16 = le16 16 @ [of_nat q, 0x96]" "fbyte E s2 d 0 = 0xFE" "fbyte E s2 d 6 = 0xFE"
    and kept: "\<forall>p. p \<noteq> d \<and> p \<noteq> q \<longrightarrow> offset_of s2 p = offset_of s p" "bytes_kept E ({d, q} \<times> UNIV) s s2"
    and v: "p_nv v = s2" "p_dstPg v = d" "p_compactPages v = Suc m" "m < 12" "p_skipPages v = k" "\<not> p_foundRoom v"
  obtains s' where "compactPage_end E nBytes v = Some ((if room then Break else Continue)
      \<lparr>p_nv = s', p_srcPg = NVOCMP_INCPAGE s q, p_dstPg = q, p_compactPages = m, p_skipPages = 0, p_foundRoom = room\<rparr>)"
    "round_inv E s' (moved q d L)" "nvSize s' = nvSize s" "tailPage s' = q" "headPage s' = NVOCMP_INCPAGE s q" "failF s' = failF s"
    "forceCompact s' = forceCompact s" "failW s' = NVINTF_SUCCESS E" "xSrcPages (compactInfo s') = 0"
    "xDstOffset (compactInfo s') = 16 + items_size live" "offset_of s' d = 16 + items_size live" "page_state E s' d = (if room then NVOCMP_PGACT else NVOCMP_PGFULL)"
    "bytes_kept E ({d, q} \<times> UNIV) s s'"
proof -
  note r = round_invD [OF inv]
  let ?st = "if room then NVOCMP_PGACT else NVOCMP_PGFULL" and ?o = "16 + items_size live"
  have q': "q < nvSize s"
    using q(1) r(9) by (simp add: NVOCMP_ADDPAGE_def)
  have d': "d < nvSize s" "q \<noteq> d"
    using d q(2) r(3) by simp_all
  have v2: "volt_ok s2"
    using ram(2) r(2) by (simp add: same_handle_def volt_ok_def)
  have "fbyte E s2 d 0 AND ?st = ?st"
    using dst(6) by simp
  then obtain s3 where s3: "NVOCMP_changePageState E d ?st s2 = s3" "quiet E s2 s3"
    "pi_state \<circ> pageInfo s3 = (pi_state \<circ> pageInfo s2)(d := ?st)" "fbyte E s3 d 0 = ?st" "bytes_kept E {(d, 0)} s2 s3"
    using changePageState_quiet [OF v2 r(8) [OF d'(1)], of ?st] by blast
  note kept3 = bytes_keptD [OF s3(5)]
  have size3: "nvSize s3 = nvSize s" and info3: "compactInfo s3 = compactInfo s2" and volt3: "volt_ok s3" and off3: "offset_of s3 = offset_of s2"
    using s3(2) ram(2) v2 by (auto simp: quiet_def same_handle_def volt_ok_def)
  have hdr3: "fbytes E s3 (xDstPage (compactInfo s3)) 12 16 = le16 16 @ [of_nat q, 0x96]"
    using dst(5) fbytes_cong [of 12 16 E s3 d s2] kept3 by (simp add: info3 info)
  have n3: "2 \<le> nvSize s3" "q < nvSize s3" "nvSize s3 \<le> 12" "xSrcSPage (compactInfo s3) = q" "xSrcEPage (compactInfo s3) = q"
    using size3 r(9,10) q' info3 info by simp_all
  obtain s4 c where s4: "NVOCMP_cleanPage E s3 = Some (1, s4)" "failW s4 = NVINTF_SUCCESS E" "same_core s3 s4"
    "pageInfo s4 = (pageInfo s3)(q := erased_info (pageInfo s3 q))" "fbytes E s4 q 0 16 = fresh_hdr c"
    "list_all (\<lambda>b. b = 0xFF) (fbytes E s4 q 16 2048)" "\<And>p x. x < 2048 \<Longrightarrow> p \<noteq> q \<Longrightarrow> fbyte E s4 p x = fbyte E s3 p x"
    using cleanPage_ok [OF volt3 r(8) [OF q'] n3 hdr3] by metis
  let ?s5 = "upd_cinfo (\<lambda>i. i\<lparr>xSrcPages := u8 (xSrcPages i + 256 - 1)\<rparr>) s4"
  have volt5: "volt_ok ?s5"
    using volt3 s4(3) by (simp add: upd_cinfo_def same_core_def volt_ok_def)
  have "fbyte E ?s5 d 6 = 0xFE"
    using s4(7) [of 6 d] kept3 [of 6 d] dst(7) d'(2) by simp
  then obtain s6 where s6: "NVOCMP_writeByte E d 6 0xFC ?s5 = s6" "quiet E ?s5 s6" "pageInfo s6 = pageInfo ?s5" "fbyte E s6 d 6 = 0xFC"
    "bytes_kept E {(d, 6)} ?s5 s6"
    using writeByte_quiet [OF volt5 r(8) [OF d'(1)], of 6 "0xFC"] by auto
  note kept6 = bytes_keptD [OF s6(5)]
  let ?s7 = "upd_page d (\<lambda>p. p\<lparr>pi_mode := 0xFC\<rparr>) s6"
  let ?s8 = "?s7\<lparr>tailPage := q\<rparr>\<lparr>headPage := NVOCMP_INCPAGE s q\<rparr>"
  have core: "nvSize s6 = nvSize s" "tailPage s6 = d" "failF s6 = failF s" "forceCompact s6 = forceCompact s" "failW s6 = NVINTF_SUCCESS E"
    "voltCheckFptr s6 = voltCheckFptr s" "compactInfo s6 = (compactInfo s2)\<lparr>xSrcPages := 0\<rparr>"
    using s6(2) s4(3) s3(2) ram(2) d info(5) by (auto simp: quiet_def same_handle_def same_core_def upd_cinfo_def u8_def)
  have bytes: "fbyte E ?s8 p x = fbyte E s p x" if "p \<noteq> d" "p \<noteq> q" "x < 2048" for p x
    using that kept6 [of x p] s4(7) [of x p] kept3 [of x p] bytes_keptD [OF kept(2), of x p] by simp
  have bytes_d: "fbyte E ?s8 d x = fbyte E s2 d x" if "x \<noteq> 0" "x \<noteq> 6" "x < 2048" for x
    using that d'(2) kept6 [of x d] s4(7) [of x d] kept3 [of x d] by simp
  have hdr_d: "fbyte E ?s8 d 0 = ?st" "fbyte E ?s8 d 6 = 0xFC"
    using s6(4) kept6 [of 0 d] s4(7) [of 0 d] s3(4) d'(2) by simp_all
  have bytes_q: "fbyte E ?s8 q x = fbyte E s4 q x" if "x < 2048" for x
    using that kept6 [of x q] d'(2) by simp
  have off: "offset_of ?s8 p = (if p = q then 16 else if p = d then ?o else offset_of s p)" for p
    using s6(3) s4(4) fun_cong [OF off3, of p] dst(2) kept(1) d'(2) by (auto simp: offset_of_def upd_page_def upd_cinfo_def erased_info_def)
  have states: "pi_state (pageInfo ?s8 p) = (if p = q then 0xFF else if p = d then ?st else pi_state (pageInfo s p))" for p
    using s6(3) s4(4) fun_cong [OF s3(3), of p] fun_cong [OF ram(3), of p] d'(2) by (auto simp: upd_page_def upd_cinfo_def erased_info_def)
  have run: "compactPage_end E nBytes v = Some ((if room then Break else Continue)
      \<lparr>p_nv = ?s8, p_srcPg = NVOCMP_INCPAGE s q, p_dstPg = q, p_compactPages = m, p_skipPages = 0, p_foundRoom = room\<rparr>)"
  proof -
    have test: "xDstOffset (compactInfo s2) + (if nBytes \<noteq> 0 then nBytes else 16) \<le> FLASH_PAGE_SIZE \<longleftrightarrow> room"
      using info(2) n room by simp
    have tail: "NVOCMP_ADDPAGE ?s7 (tailPage ?s7) (1 + k) = q" "NVOCMP_INCPAGE (?s7\<lparr>tailPage := q\<rparr>) q = NVOCMP_INCPAGE s q"
      "NVOCMP_INCPAGE ?s8 q = NVOCMP_INCPAGE s q"
      using q(1) core(1,2) d by (simp_all add: NVOCMP_ADDPAGE_def NVOCMP_INCPAGE_def upd_page_def)
    have src: "offset_of ?s8 (xSrcEPage (compactInfo ?s8)) = 16" "xSrcEPage (compactInfo ?s8) = q"
      using core(7) info(4) off [of q] by (simp_all add: upd_page_def)
    have less: "sub16 (Suc m) 1 = m"
      using v(4) by (simp add: sub16_le)
    show ?thesis
      unfolding compactPage_end_def Let_def v(1-3,5) test s3(1) s4(1) Option.bind.bind_lunit prod.case NVOCMP_COMPMODEOFS_def NVOCMP_PGCDONE_def
        s6(1) tail(1)
      using tail(2,3) src n v(6) less by simp
  qed
  have "pages_wf E ?s8 (moved q d L)"
    unfolding pages_wf_def list_all_iff
  proof
    fix p
    assume "p \<in> set (data_pages ?s8)"
    then have p: "p < nvSize s" "p \<noteq> q"
      using core(1) by (auto simp: upd_page_def)
    show "page_wf E ?s8 p (moved q d L p)"
    proof (cases "p = d")
      case True
      have "items_at E ?s8 d live ?o"
        by (rule items_at_cong [OF dst(1)]) (use bytes_d dst(3) in simp)
      moreover have "fbytes E ?s8 d ?o 2048 = fbytes E s2 d ?o 2048"
        by (rule fbytes_cong) (use bytes_d in simp)
      ultimately show ?thesis
        using True off [of d] d'(2) dst(3,4) hdr_d(1) live by (simp add: page_wf_def page_state_def moved_def)
    next
      case False
      have "page_wf E s p (L p)"
        using pages_wfD [OF r(4) p(1)] False d by simp
      then show ?thesis
        using page_wf_cong [of E s p "L p" ?s8] off [of p] bytes [OF False p(2)] False p(2) by (simp add: moved_def)
    qed
  qed
  moreover have size8: "nvSize ?s8 = nvSize s" "tailPage ?s8 = q" "pageInfo ?s8 = pageInfo ?s7"
    using core(1) by (simp_all add: upd_page_def)
  moreover have "modes_ok E ?s8"
    unfolding modes_ok_def size8
  proof (intro allI impI)
    fix p
    assume p: "p < nvSize s" "p \<noteq> q"
    show "fbyte E ?s8 p 6 AND NVOCMP_PGCSRC = NVOCMP_PGCSRC"
    proof (cases "p = d")
      case True
      then show ?thesis
        by (simp only: hdr_d(2)) simp
    next
      case False
      then show ?thesis
        using bytes [OF False p(2), of 6] r(5) p(1) d by (simp add: modes_ok_def)
    qed
  qed
  moreover have "dst_ready E ?s8 q"
  proof -
    have "fbytes E ?s8 q a b = fbytes E s4 q a b" if "b \<le> 2048" for a b
      by (rule fbytes_cong) (use bytes_q that in simp)
    then show ?thesis
      using fresh_hdr_bytes [OF s4(5)] s4(6) off [of q] bytes_q [of 0] bytes_q [of 6] by (simp add: dst_ready_def)
  qed
  moreover have "states_cached E ?s8"
    unfolding states_cached_def size8 page_state_def
  proof (intro allI impI)
    fix p
    assume p: "p < nvSize s"
    then have "pi_state (pageInfo s p) = fbyte E s p 0"
      using r(6) by (simp add: states_cached_def page_state_def)
    then show "pi_state (pageInfo ?s7 p) = fbyte E ?s8 p 0"
      using states [of p] bytes [of p 0] hdr_d(1) bytes_q [of 0] fresh_hdr_bytes(3) [OF s4(5)] d'(2)
      by (cases "p = d"; cases "p = q") simp_all
  qed
  moreover have "geometry_ok E ?s8" "volt_ok ?s8"
    using r(1,2) core by (simp_all add: geometry_ok_def volt_ok_def upd_page_def)
  ultimately have "round_inv E ?s8 (moved q d L)"
    using q' unfolding round_inv_def by simp
  then show thesis
  proof (rule that [OF run])
    show "bytes_kept E ({d, q} \<times> UNIV) s ?s8"
      using bytes by (auto simp: bytes_kept_def)
    show "page_state E ?s8 d = ?st"
      using hdr_d(1) by (simp only: page_state_def)
    show "offset_of ?s8 d = ?o"
      using off [of d] d'(2) by simp
  qed (use core info(2) in \<open>simp_all add: upd_page_def\<close>)
qed

end

text \<open>The flag of a page none of whose items was made inactive.\<close>

definition all_active :: "'f nvs_env \<Rightarrow> 'f nv \<Rightarrow> nat \<Rightarrow> bool" where
  "all_active E s p \<longleftrightarrow> ph_allActive (NVOCMP_readPageHdr E s p) \<noteq> 0"

lemma cinfo_update [simp]:
  "bytes_kept E A (s\<lparr>compactInfo := i\<rparr>) s' = bytes_kept E A s s'" "offset_of (s\<lparr>compactInfo := i\<rparr>) = offset_of s"
  "same_handle (s\<lparr>compactInfo := i\<rparr>) s' = same_handle s s'" "page_state E (s\<lparr>compactInfo := i\<rparr>) = page_state E s"
  by (simp_all add: bytes_kept_def offset_of_def same_handle_def page_state_def fun_eq_iff)

lemma ADDPAGE_neq: "p < nvSize s \<Longrightarrow> 0 < k \<Longrightarrow> k < nvSize s \<Longrightarrow> NVOCMP_ADDPAGE s p k \<noteq> p"
  by (cases "p + k < nvSize s") (auto simp: NVOCMP_ADDPAGE_def mod_if)

lemma ADDPAGE_less [simp]: "0 < nvSize s \<Longrightarrow> NVOCMP_ADDPAGE s p k < nvSize s"
  by (simp add: NVOCMP_ADDPAGE_def)

lemma ADDPAGE_add: "NVOCMP_ADDPAGE s (NVOCMP_ADDPAGE s p k) j = NVOCMP_ADDPAGE s p (k + j)"
  by (simp add: NVOCMP_ADDPAGE_def mod_simps add.assoc)

context nor_flash
begin

lemma all_active_byte: "all_active E s p \<longleftrightarrow> fbyte E s p 2 AND 3 \<noteq> 0"
  by (simp add: all_active_def NVOCMP_readPageHdr_def pageHdr_of_def read_eq numeral_2_eq_2)

lemma all_active_cinfo [simp]: "all_active E (s\<lparr>compactInfo := i\<rparr>) p = all_active E s p"
  by (simp add: all_active_byte)

lemma round_ok:
  assumes inv: "round_inv E s L" and k: "Suc k < nvSize s" and q: "q = NVOCMP_ADDPAGE s (tailPage s) (Suc k)"
    and one: "xSrcPages (compactInfo s) \<le> 1" and n: "nBytes \<noteq> 0" and not_all: "\<not> all_active E s q"
    and v: "v = \<lparr>p_nv = s, p_srcPg = q, p_dstPg = tailPage s, p_compactPages = Suc m, p_skipPages = k, p_foundRoom = False\<rparr>" "m < 12"
  defines "d \<equiv> tailPage s" and "room \<equiv> 16 + items_size (filter it_active (L q)) + nBytes \<le> 2048"
  obtains s' where "compactPage_body E nBytes v = Some ((if room then Break else Continue)
      \<lparr>p_nv = s', p_srcPg = NVOCMP_INCPAGE s q, p_dstPg = q, p_compactPages = m, p_skipPages = 0, p_foundRoom = room\<rparr>)"
    "round_inv E s' (moved q d L)" "nvSize s' = nvSize s" "tailPage s' = q" "headPage s' = NVOCMP_INCPAGE s q" "failF s' = failF s"
    "forceCompact s' = forceCompact s" "failW s' = NVINTF_SUCCESS E" "xSrcPages (compactInfo s') = 0"
    "xDstOffset (compactInfo s') = 16 + items_size (filter it_active (L q))"
    "offset_of s' d = 16 + items_size (filter it_active (L q))" "page_state E s' d = (if room then NVOCMP_PGACT else NVOCMP_PGFULL)"
    "bytes_kept E ({d, q} \<times> UNIV) s s'"
proof -
  note r = round_invD [OF inv]
  have q': "q < nvSize s" "q \<noteq> d"
    using q k r(3) ADDPAGE_neq [of d s "Suc k"] by (simp_all add: d_def)
  let ?s0 = "s\<lparr>compactInfo := (compactInfo s)\<lparr>xSrcPages := 1\<rparr>\<rparr>"
  have s0: "(if xSrcPages (compactInfo s) = 0 then upd_cinfo (\<lambda>i. i\<lparr>xSrcPages := 1\<rparr>) s else s) = ?s0"
    using one by (cases "xSrcPages (compactInfo s)") (simp_all add: upd_cinfo_def)
  have inv0: "round_inv E ?s0 L"
    using inv by simp
  obtain status s2 where s2: "NVOCMP_compact E (compactPage_begin E q (tailPage s) ?s0) = Some (status, s2)"
      "status \<noteq> NVOCMP_COMPACT_FAILURE" "failW s2 = NVINTF_SUCCESS E"
      "same_handle s s2" "pi_state \<circ> pageInfo s2 = (pi_state \<circ> pageInfo s)(q := 0x70, d := 0xFE)"
    "xDstPage (compactInfo s2) = d" "xDstOffset (compactInfo s2) = 16 + items_size (filter it_active (L q))" "xSrcSPage (compactInfo s2) = q"
    "xSrcEPage (compactInfo s2) = q" "xSrcPages (compactInfo s2) = 1"
    "items_at E s2 d (filter it_active (L q)) (16 + items_size (filter it_active (L q)))"
    "offset_of s2 d = 16 + items_size (filter it_active (L q))" "16 + items_size (filter it_active (L q)) \<le> 2048"
    "list_all (\<lambda>b. b = 0xFF) (fbytes E s2 d (16 + items_size (filter it_active (L q))) 2048)"
    "fbytes E s2 d 12 16 = le16 16 @ [of_nat q, 0x96]" "fbyte E s2 d 0 = 0xFE" "fbyte E s2 d 6 = 0xFE"
    "\<forall>p. p \<noteq> d \<and> p \<noteq> q \<longrightarrow> offset_of s2 p = offset_of s p"
    "bytes_kept E ({d, q} \<times> UNIV) s s2"
    by (rule copy_ok [OF inv0, of q]) (use q' in \<open>simp_all add: d_def\<close>)
  have body: "compactPage_body E nBytes v = compactPage_end E nBytes (v\<lparr>p_nv := s2\<rparr>)"
    using s2(1,2) not_all s0 by (simp add: compactPage_body_def v Let_def flip: all_active_def)
  have w: "p_nv (v\<lparr>p_nv := s2\<rparr>) = s2" "p_dstPg (v\<lparr>p_nv := s2\<rparr>) = d" "p_compactPages (v\<lparr>p_nv := s2\<rparr>) = Suc m" "m < 12"
    "p_skipPages (v\<lparr>p_nv := s2\<rparr>) = k" "\<not> p_foundRoom (v\<lparr>p_nv := s2\<rparr>)"
    using v by (simp_all add: d_def)
  show thesis
    by (rule end_ok [OF inv q q'(2) [unfolded d_def] d_def [THEN meta_eq_to_obj_eq] refl room_def [THEN meta_eq_to_obj_eq] n s2(3-19) w,
        folded body]) (rule that)
qed

lemma skip_ok:
  assumes inv: "round_inv E s L" and q: "q = NVOCMP_ADDPAGE s (tailPage s) (Suc k)"
    and one: "xSrcPages (compactInfo s) \<le> 1" and n: "nBytes \<noteq> 0" and all: "all_active E s q"
    and v: "v = \<lparr>p_nv = s, p_srcPg = q, p_dstPg = tailPage s, p_compactPages = Suc m, p_skipPages = k, p_foundRoom = False\<rparr>" "m < 12"
  obtains i where "compactPage_body E nBytes v = Some (Continue
      \<lparr>p_nv = s\<lparr>compactInfo := i\<rparr>, p_srcPg = NVOCMP_INCPAGE s q, p_dstPg = tailPage s, p_compactPages = m, p_skipPages = Suc k, p_foundRoom = False\<rparr>)"
    "xSrcPages i = 0" "xDstOffset i = 2048"
proof -
  let ?i = "(compactInfo s)\<lparr>xDstOffset := 2048, xSrcSPage := NVOCMP_INCPAGE s q, xSrcPages := 0\<rparr>"
  have s0: "(if xSrcPages (compactInfo s) = 0 then upd_cinfo (\<lambda>i. i\<lparr>xSrcPages := 1\<rparr>) s else s) = s\<lparr>compactInfo := (compactInfo s)\<lparr>xSrcPages := 1\<rparr>\<rparr>"
    using one by (cases "xSrcPages (compactInfo s)") (simp_all add: upd_cinfo_def)
  have "compactPage_body E nBytes v = Some (Continue
      \<lparr>p_nv = s\<lparr>compactInfo := ?i\<rparr>, p_srcPg = NVOCMP_INCPAGE s q, p_dstPg = tailPage s, p_compactPages = m, p_skipPages = Suc k, p_foundRoom = False\<rparr>)"
    using n all v(2) by (simp add: compactPage_body_def v(1) Let_def s0 upd_cinfo_def NVOCMP_INCPAGE_def NVOCMP_ADDPAGE_def sub16_le
        flip: all_active_def)
  then show thesis
    by (rule that) simp_all
qed

end

end
