(* ===== verification/NvCompacted.thy ===== *)
theory NvCompacted
  imports NvRound "HOL-Library.Multiset"
begin

text \<open>
  The loop of \<^verbatim>\<open>NVOCMP_compactPage\<close> and what surrounds it, for a request of some bytes: the rounds visit the data pages in
  the order of the ring, every round keeps the active items as a multiset, and the loop finds room where a page it visits
  leaves some. With the marks before the loop and the choice of the active page after it, compaction keeps the store as a map.
\<close>

subsection \<open>The items as a multiset\<close>

lemma mset_live_items: "mset (live_items s L) = (\<Sum>p\<in>{..<nvSize s} - {tailPage s}. mset (filter it_active (L p)))"
proof -
  have "mset (live_items s L) = sum_list (map (\<lambda>p. mset (filter it_active (L p))) (data_pages s))"
    by (simp add: live_items_def mset_concat comp_def)
  also have "\<dots> = (\<Sum>p\<in>set (data_pages s). mset (filter it_active (L p)))"
    by (subst sum_list_distinct_conv_sum_set) (simp_all add: data_pages_def)
  also have "set (data_pages s) = {..<nvSize s} - {tailPage s}"
    by auto
  finally show ?thesis .
qed

lemma mset_moved:
  assumes "tailPage s = d" "tailPage s' = q" "nvSize s' = nvSize s" "q < nvSize s" "d < nvSize s" "q \<noteq> d"
  shows "mset (live_items s' (moved q d L)) = mset (live_items s L)"
proof -
  let ?R = "{..<nvSize s} - {d, q}" and ?m = "\<lambda>L p. mset (filter it_active (L p))"
  have R: "{..<nvSize s} - {q} = insert d ?R" "{..<nvSize s} - {d} = insert q ?R" "d \<notin> ?R" "q \<notin> ?R" "finite ?R"
    using assms by auto
  have rest: "(\<Sum>p\<in>?R. ?m (moved q d L) p) = (\<Sum>p\<in>?R. ?m L p)"
    by (rule sum.cong) (auto simp: moved_def)
  have new: "?m (moved q d L) d = ?m L q"
    using assms(6) by (simp add: moved_def)
  have "mset (live_items s' (moved q d L)) = ?m (moved q d L) d + (\<Sum>p\<in>?R. ?m (moved q d L) p)"
    unfolding mset_live_items assms(2,3) R(1) by (rule sum.insert [OF R(5,3)])
  also have "\<dots> = ?m L q + (\<Sum>p\<in>?R. ?m L p)"
    unfolding rest new ..
  also have "\<dots> = mset (live_items s L)"
    unfolding mset_live_items assms(1) R(2) by (rule sum.insert [OF R(5,4), symmetric])
  finally show ?thesis .
qed

lemma live_items_mset:
  assumes "mset (live_items s' L') = mset (live_items s L)" "ids_distinct s L"
  shows "ids_distinct s' L'" "layout_map s' L' = layout_map s L"
proof -
  have "mset (map it_id (live_items s' L')) = mset (map it_id (live_items s L))"
    using assms(1) by simp
  then have "distinct (map it_id (live_items s' L')) = distinct (map it_id (live_items s L))"
    by (rule mset_eq_imp_distinct_iff)
  then show d: "ids_distinct s' L'"
    using assms(2) by (simp add: ids_distinct_def)
  have "set (live_items s' L') = set (live_items s L)"
    using assms(1) by (rule mset_eq_setD)
  moreover have "distinct (map fst (map (\<lambda>it. (it_id it, it_data it)) (live_items s' L')))"
    "distinct (map fst (map (\<lambda>it. (it_id it, it_data it)) (live_items s L)))"
    using d assms(2) by (simp_all add: ids_distinct_def comp_def)
  ultimately show "layout_map s' L' = layout_map s L"
    unfolding layout_map_def by (subst map_of_inject_set) simp_all
qed

subsection \<open>The loop\<close>

definition fits_after :: "nat \<Rightarrow> nv_item list \<Rightarrow> bool" where
  "fits_after n its \<longleftrightarrow> 16 + items_size (filter it_active its) + n \<le> 2048"

text \<open>The pages the loop still has to visit, and one among them that leaves room.\<close>

definition still_to_visit :: "'f nv \<Rightarrow> nat \<Rightarrow> nat \<Rightarrow> nat set" where
  "still_to_visit s k m = (\<lambda>i. NVOCMP_ADDPAGE s (tailPage s) (Suc k + i)) ` {..<m}"

definition found_room :: "'f nvs_env \<Rightarrow> nat \<Rightarrow> 'f nv \<Rightarrow> bool" where
  "found_room E n s \<longleftrightarrow> (\<exists>d<nvSize s. d \<noteq> tailPage s \<and> page_state E s d = NVOCMP_PGACT \<and> offset_of s d = xDstOffset (compactInfo s)) \<and>
     xDstOffset (compactInfo s) + n \<le> 2048"

definition out_of_room :: "nat \<Rightarrow> 'f nv \<Rightarrow> bool" where
  "out_of_room n s \<longleftrightarrow> xDstOffset (compactInfo s) \<le> 2048 \<and> 2048 < xDstOffset (compactInfo s) + n"

definition no_act :: "'f nvs_env \<Rightarrow> 'f nv \<Rightarrow> bool" where
  "no_act E s \<longleftrightarrow> (\<forall>p<nvSize s. p \<noteq> tailPage s \<longrightarrow> page_state E s p \<noteq> NVOCMP_PGACT)"

definition acts_fit :: "'f nvs_env \<Rightarrow> nat \<Rightarrow> 'f nv \<Rightarrow> bool" where
  "acts_fit E n s \<longleftrightarrow> (\<forall>p<nvSize s. p \<noteq> tailPage s \<longrightarrow> page_state E s p = NVOCMP_PGACT \<longrightarrow> offset_of s p + n \<le> 2048)"

definition loop_rel :: "'f nvs_env \<Rightarrow> nat \<Rightarrow> 'f nv \<Rightarrow> (nat \<Rightarrow> nv_item list) \<Rightarrow> 'f nv \<Rightarrow> (nat \<Rightarrow> nv_item list) \<Rightarrow> bool" where
  "loop_rel E n s L s' L' \<longleftrightarrow> round_inv E s' L' \<and> mset (live_items s' L') = mset (live_items s L) \<and> nvSize s' = nvSize s \<and>
     headPage s' = NVOCMP_INCPAGE s' (tailPage s') \<and> failF s' = failF s \<and> failW s' = NVINTF_SUCCESS E \<and> forceCompact s' = forceCompact s \<and>
     xSrcPages (compactInfo s') \<le> 1 \<and> (no_act E s \<longrightarrow> acts_fit E n s')"

lemma no_act_fit: "no_act E s \<Longrightarrow> acts_fit E n s"
  by (simp add: no_act_def acts_fit_def)

lemma loop_rel_trans: "loop_rel E n s L s1 L1 \<Longrightarrow> (no_act E s \<Longrightarrow> no_act E s1) \<Longrightarrow> loop_rel E n s1 L1 s2 L2 \<Longrightarrow> loop_rel E n s L s2 L2"
  by (simp add: loop_rel_def)

context nor_flash
begin

lemma round_rel:
  assumes inv: "round_inv E s L" and tail: "tailPage s = d" "tailPage s' = q" and dq: "q < nvSize s" "q \<noteq> d"
    and s': "round_inv E s' (moved q d L)" "nvSize s' = nvSize s" "headPage s' = NVOCMP_INCPAGE s q" "failF s' = failF s"
    "forceCompact s' = forceCompact s" "failW s' = NVINTF_SUCCESS E" "xSrcPages (compactInfo s') = 0"
    "xDstOffset (compactInfo s') = 16 + items_size (filter it_active (L q))"
    "offset_of s' d = 16 + items_size (filter it_active (L q))"
    "page_state E s' d = (if fits_after n (L q) then NVOCMP_PGACT else NVOCMP_PGFULL)"
    and kept: "bytes_kept E ({d, q} \<times> UNIV) s s'"
  shows "loop_rel E n s L s' (moved q d L)" "fits_after n (L q) \<Longrightarrow> found_room E n s'"
    "no_act E s \<Longrightarrow> \<not> fits_after n (L q) \<Longrightarrow> no_act E s'"
proof -
  have d: "d < nvSize s"
    using round_invD(3) [OF inv] tail by simp
  have st: "page_state E s' p = page_state E s p" if "p \<noteq> d" "p \<noteq> q" for p
    using bytes_keptD [OF kept, of 0 p] that by (simp add: page_state_def)
  have "acts_fit E n s'" if "no_act E s"
    unfolding acts_fit_def s'(2) tail
  proof (intro allI impI)
    fix p
    assume p: "p < nvSize s" "p \<noteq> q" "page_state E s' p = NVOCMP_PGACT"
    then have pd: "p = d"
      using that st [of p] tail(1) by (auto simp: no_act_def)
    have "fits_after n (L q)"
    proof (rule ccontr)
      assume "\<not> fits_after n (L q)"
      then show False
        using p(3) s'(10) by (simp add: pd)
    qed
    with pd show "offset_of s' p + n \<le> 2048"
      using s'(9) by (simp add: fits_after_def)
  qed
  then show "loop_rel E n s L s' (moved q d L)"
    unfolding loop_rel_def INCPAGE_cong(1) [OF s'(2)] tail(2) using s'(7)
    by (intro conjI impI s'(1-6) mset_moved [OF tail s'(2) dq(1) d dq(2)]) simp_all
  show "found_room E n s'" if "fits_after n (L q)"
    using that s' d dq tail unfolding found_room_def fits_after_def by (intro conjI exI [of _ d]) simp_all
  show "no_act E s'" if "no_act E s" "\<not> fits_after n (L q)"
    unfolding no_act_def s'(2) tail
  proof (intro allI impI)
    fix p
    assume "p < nvSize s" "p \<noteq> q"
    then show "page_state E s' p \<noteq> NVOCMP_PGACT"
      using that st [of p] s'(10) tail(1) by (cases "p = d") (auto simp: no_act_def)
  qed
qed

lemma loop_ok:
  assumes "loop_rel E n s L s L" "k + m < nvSize s" "n \<noteq> 0"
  shows "\<exists>s' L'. compactPage_loop E n \<lparr>p_nv = s, p_srcPg = NVOCMP_ADDPAGE s (tailPage s) (Suc k), p_dstPg = tailPage s,
        p_compactPages = m, p_skipPages = k, p_foundRoom = False\<rparr> = Some (True, s') \<and> loop_rel E n s L s' L' \<and>
      (m \<noteq> 0 \<longrightarrow> found_room E n s' \<or> out_of_room n s') \<and>
      ((\<exists>p\<in>still_to_visit s k m. \<not> all_active E s p \<and> fits_after n (L p)) \<longrightarrow> found_room E n s')"
  using assms
proof (induction m arbitrary: s L k)
  case 0
  then show ?case
    by (subst compactPage_loop.simps) (auto simp: still_to_visit_def)
next
  case (Suc m)
  note inv = conjunct1 [OF Suc.prems(1) [unfolded loop_rel_def]]
  note r = round_invD [OF inv]
  let ?d = "tailPage s"
  define q where "q = NVOCMP_ADDPAGE s ?d (Suc k)"
  let ?v = "\<lparr>p_nv = s, p_srcPg = q, p_dstPg = ?d, p_compactPages = Suc m, p_skipPages = k, p_foundRoom = False\<rparr>"
  have k: "Suc k < nvSize s" "m < 12" "xSrcPages (compactInfo s) \<le> 1"
    using Suc.prems r(10) by (auto simp: loop_rel_def)
  have q: "q < nvSize s" "q \<noteq> ?d"
    using k(1) r(3) ADDPAGE_neq [of ?d s "Suc k"] by (simp_all add: q_def)
  have src: "NVOCMP_INCPAGE s q = NVOCMP_ADDPAGE s q (Suc 0)" "NVOCMP_INCPAGE s q = NVOCMP_ADDPAGE s ?d (Suc (Suc k))"
    by (simp_all add: q_def NVOCMP_INCPAGE_def ADDPAGE_add)
  have pend: "p = q \<or> p \<in> still_to_visit s (Suc k) m" if "p \<in> still_to_visit s k (Suc m)" for p
    using that unfolding still_to_visit_def q_def by (auto simp: lessThan_Suc_eq_insert_0)
  show ?case
  proof (cases "all_active E s q")
    case True
    obtain i where i: "compactPage_body E n ?v = Some (Continue
        \<lparr>p_nv = s\<lparr>compactInfo := i\<rparr>, p_srcPg = NVOCMP_INCPAGE s q, p_dstPg = ?d, p_compactPages = m, p_skipPages = Suc k, p_foundRoom = False\<rparr>)"
      "xSrcPages i = 0" "xDstOffset i = 2048"
      by (rule skip_ok [OF inv q_def k(3) Suc.prems(3) True refl k(2)])
    let ?s = "s\<lparr>compactInfo := i\<rparr>"
    have rel: "loop_rel E n ?s L s' L' = loop_rel E n s L s' L'" for s' L'
      by (simp add: loop_rel_def no_act_def live_items_def data_pages_def)
    have "loop_rel E n ?s L ?s L"
      using Suc.prems(1) i(2) unfolding rel
      by (simp add: loop_rel_def acts_fit_def live_items_def data_pages_def NVOCMP_INCPAGE_def NVOCMP_ADDPAGE_def)
    from Suc.IH [OF this, of "Suc k"] Suc.prems(2,3)
    obtain s' L' where s': "compactPage_loop E n \<lparr>p_nv = ?s, p_srcPg = NVOCMP_ADDPAGE ?s ?d (Suc (Suc k)), p_dstPg = ?d,
        p_compactPages = m, p_skipPages = Suc k, p_foundRoom = False\<rparr> = Some (True, s')" "loop_rel E n ?s L s' L'"
      "m \<noteq> 0 \<longrightarrow> found_room E n s' \<or> out_of_room n s'"
      "(\<exists>p\<in>still_to_visit ?s (Suc k) m. \<not> all_active E ?s p \<and> fits_after n (L p)) \<longrightarrow> found_room E n s'"
      by auto
    have inc: "NVOCMP_ADDPAGE ?s ?d (Suc (Suc k)) = NVOCMP_INCPAGE s q" "still_to_visit ?s = still_to_visit s"
      unfolding src(2) by (simp_all add: NVOCMP_ADDPAGE_def still_to_visit_def fun_eq_iff)
    have "compactPage_loop E n ?v = Some (True, s')"
      using i(1) s'(1) by (subst compactPage_loop.simps) (simp add: inc)
    moreover have "m = 0 \<Longrightarrow> s' = ?s"
      using s'(1) by (subst (asm) compactPage_loop.simps) simp
    then have "found_room E n s' \<or> out_of_room n s'"
      using s'(3) i(3) Suc.prems(3) by (cases "m = 0") (auto simp: out_of_room_def)
    moreover have "(\<exists>p\<in>still_to_visit s k (Suc m). \<not> all_active E s p \<and> fits_after n (L p)) \<longrightarrow> found_room E n s'"
      using s'(4) pend True by (auto simp: inc)
    ultimately show ?thesis
      using s'(2) unfolding rel q_def [symmetric] by blast
  next
    case False
    obtain s1 where s1: "compactPage_body E n ?v = Some ((if fits_after n (L q) then Break else Continue)
      \<lparr>p_nv = s1, p_srcPg = NVOCMP_INCPAGE s q, p_dstPg = q, p_compactPages = m, p_skipPages = 0, p_foundRoom = fits_after n (L q)\<rparr>)"
      "round_inv E s1 (moved q ?d L)" "nvSize s1 = nvSize s" "tailPage s1 = q" "headPage s1 = NVOCMP_INCPAGE s q" "failF s1 = failF s"
      "forceCompact s1 = forceCompact s" "failW s1 = NVINTF_SUCCESS E" "xSrcPages (compactInfo s1) = 0"
      "xDstOffset (compactInfo s1) = 16 + items_size (filter it_active (L q))"
      "offset_of s1 ?d = 16 + items_size (filter it_active (L q))" "page_state E s1 ?d = (if fits_after n (L q) then NVOCMP_PGACT else NVOCMP_PGFULL)"
      "bytes_kept E ({?d, q} \<times> UNIV) s s1"
      by (rule round_ok [OF inv k(1) q_def k(3) Suc.prems(3) False refl k(2), folded fits_after_def])
    note rel = round_rel [OF inv refl s1(4) q s1(2,3,5-13)]
    show ?thesis
    proof (cases "fits_after n (L q)")
      case True
      have "compactPage_loop E n ?v = Some (True, s1)"
        using s1(1) True by (subst compactPage_loop.simps) simp
      then show ?thesis
        using rel(1) rel(2) [OF True] unfolding q_def [symmetric] by blast
    next
      case full: False
      have "loop_rel E n s1 (moved q ?d L) s1 (moved q ?d L)"
        using rel(1) no_act_fit [of E s1 n] by (simp add: loop_rel_def)
      from Suc.IH [OF this, of 0] Suc.prems(2,3) s1(3,4)
      obtain s' L' where s': "compactPage_loop E n \<lparr>p_nv = s1, p_srcPg = NVOCMP_ADDPAGE s1 q (Suc 0), p_dstPg = q,
          p_compactPages = m, p_skipPages = 0, p_foundRoom = False\<rparr> = Some (True, s')" "loop_rel E n s1 (moved q ?d L) s' L'"
        "m \<noteq> 0 \<longrightarrow> found_room E n s' \<or> out_of_room n s'"
        "(\<exists>p\<in>still_to_visit s1 0 m. \<not> all_active E s1 p \<and> fits_after n (moved q ?d L p)) \<longrightarrow> found_room E n s'"
        by auto
      have "NVOCMP_ADDPAGE s1 q (Suc 0 + i) = NVOCMP_ADDPAGE s ?d (Suc (Suc k) + i)" for i
        by (simp add: INCPAGE_cong(2) [OF s1(3)] q_def ADDPAGE_add)
      then have inc: "NVOCMP_ADDPAGE s1 q (Suc 0) = NVOCMP_INCPAGE s q" "still_to_visit s1 0 = still_to_visit s (Suc k)"
        unfolding src(1) still_to_visit_def s1(4) by (simp_all only: INCPAGE_cong(2) [OF s1(3)])
      have loop: "compactPage_loop E n ?v = Some (True, s')"
        using s1(1) s'(1) full by (subst compactPage_loop.simps) (simp add: inc)
      have "m = 0 \<Longrightarrow> s' = s1"
        using s'(1) by (subst (asm) compactPage_loop.simps) simp
      moreover have le: "offset_of s1 ?d \<le> 2048"
        using pages_wfD [OF round_invD(4) [OF s1(2)], of ?d] s1(3,4) r(3) q(2) by (simp add: page_wf_def)
      ultimately have "found_room E n s' \<or> out_of_room n s'"
        using s'(3) s1(10,11) full le by (cases "m = 0") (auto simp: fits_after_def out_of_room_def)
      moreover have "found_room E n s'" if p: "p \<in> still_to_visit s k (Suc m)" "\<not> all_active E s p" "fits_after n (L p)" for p
      proof -
        have p': "p \<in> still_to_visit s (Suc k) m" "p \<noteq> q"
          using pend [OF p(1)] p(3) full by auto
        then obtain i where i: "i < m" "p = NVOCMP_ADDPAGE s ?d (Suc (Suc k) + i)"
          by (auto simp: still_to_visit_def)
        have "p \<noteq> ?d"
          using ADDPAGE_neq [OF r(3), of "Suc (Suc k) + i"] i Suc.prems(2) by simp
        then have "all_active E s1 p = all_active E s p" "moved q ?d L p = L p"
          using bytes_keptD [OF s1(13), of 2 p] p'(2) by (simp_all add: all_active_byte moved_def)
        then show ?thesis
          using s'(4) p p'(1) unfolding inc by auto
      qed
      moreover have "loop_rel E n s L s' L'"
        using loop_rel_trans [OF rel(1) rel(3) [OF _ full] s'(2)] .
      ultimately show ?thesis
        using loop unfolding q_def [symmetric] by blast
    qed
  qed
qed

end

subsection \<open>Before and after the loop\<close>

lemma findPage_found: "NVOCMP_findPage E s st = p \<Longrightarrow> p \<noteq> NVOCMP_NULLPAGE \<Longrightarrow> p < nvSize s \<and> ph_state (NVOCMP_readPageHdr E s p) = st"
proof -
  have "findPage_loop E s st pgs = p \<Longrightarrow> p \<noteq> NVOCMP_NULLPAGE \<Longrightarrow> p \<in> set pgs \<and> ph_state (NVOCMP_readPageHdr E s p) = st" for pgs
    by (induction pgs) (auto split: if_splits)
  from this [of "[0..<nvSize s]"] show "NVOCMP_findPage E s st = p \<Longrightarrow> p \<noteq> NVOCMP_NULLPAGE \<Longrightarrow> p < nvSize s \<and> ph_state (NVOCMP_readPageHdr E s p) = st"
    by (simp add: NVOCMP_findPage_def)
qed

lemma findPage_none: "NVOCMP_findPage E s st = NVOCMP_NULLPAGE \<Longrightarrow> nvSize s \<le> 12 \<Longrightarrow> p < nvSize s \<Longrightarrow> ph_state (NVOCMP_readPageHdr E s p) \<noteq> st"
proof -
  have "findPage_loop E s st pgs = NVOCMP_NULLPAGE \<Longrightarrow> \<forall>x\<in>set pgs. x < 12 \<Longrightarrow> p \<in> set pgs \<Longrightarrow> ph_state (NVOCMP_readPageHdr E s p) \<noteq> st" for pgs
    by (induction pgs) (auto split: if_splits)
  from this [of "[0..<nvSize s]"] show "NVOCMP_findPage E s st = NVOCMP_NULLPAGE \<Longrightarrow> nvSize s \<le> 12 \<Longrightarrow> p < nvSize s \<Longrightarrow> ph_state (NVOCMP_readPageHdr E s p) \<noteq> st"
    by (simp add: NVOCMP_findPage_def)
qed

lemma page_wf_bytes:
  assumes "page_wf E s p its" "offset_of s' p = offset_of s p" "\<And>x. x < 2048 \<Longrightarrow> x = 0 \<or> 16 \<le> x \<Longrightarrow> fbyte E s' p x = fbyte E s p x"
  shows "page_wf E s' p its"
proof -
  have "16 \<le> offset_of s p"
    using assms(1) by (simp add: page_wf_def items_at_def)
  then have "fbytes E s' p (offset_of s p) 2048 = fbytes E s p (offset_of s p) 2048"
    using assms(3) by (intro fbytes_cong) simp
  then show ?thesis
    using assms items_at_cong [of E s p its "offset_of s p" s'] by (auto simp: page_wf_def page_state_def)
qed

lemma round_inv_mode:
  assumes inv: "round_inv E s L" and s': "quiet E s s'" "pi_state \<circ> pageInfo s' = pi_state \<circ> pageInfo s"
    and kept: "bytes_kept E ((- {tailPage s}) \<times> {6}) s s'" and modes: "modes_ok E s'"
  shows "round_inv E s' L"
proof -
  note r = round_invD [OF inv] and b = bytes_keptD [OF kept]
  have same: "nvSize s' = nvSize s" "tailPage s' = tailPage s" "offset_of s' = offset_of s" "voltCheckFptr s' = voltCheckFptr s"
    using s'(1) by (simp_all add: quiet_def same_handle_def)
  have fb: "fbytes E s' (tailPage s) x y = fbytes E s (tailPage s) x y" if "y \<le> 2048" for x y
    by (rule fbytes_cong) (use b that in simp)
  have "dst_ready E s' (tailPage s')"
    using r(7) b [of 0] b [of 6 "tailPage s"] fb by (simp add: dst_ready_def same)
  moreover have "states_cached E s'"
    using r(6) b [of 0] fun_cong [OF s'(2)] by (simp add: states_cached_def page_state_def same)
  moreover have "pages_wf E s' L"
    unfolding pages_wf_def list_all_iff
  proof
    fix p
    assume "p \<in> set (data_pages s')"
    then have "page_wf E s p (L p)"
      using pages_wfD [OF r(4)] same by simp
    then show "page_wf E s' p (L p)"
      by (rule page_wf_bytes) (use b [of _ p] same in auto)
  qed
  ultimately show ?thesis
    using r(1,2,3) modes by (simp add: round_inv_def geometry_ok_def volt_ok_def same)
qed

context nor_flash
begin

lemma mark_pages_ok:
  assumes "round_inv E s L" "\<forall>p\<in>set pgs. p < nvSize s" "failW s = NVINTF_SUCCESS E"
  shows "\<exists>s'. mark_pages E (tailPage s) pgs c s = (c + length (filter (\<lambda>p. p \<noteq> tailPage s \<and> all_active E s p) pgs), s') \<and>
    round_inv E s' L \<and> quiet E s s' \<and> bytes_kept E ((- {tailPage s}) \<times> {6}) s s' \<and> actPage s' = actPage s \<and> actOffset s' = actOffset s"
  using assms
proof (induction pgs arbitrary: c s)
  case Nil
  then show ?case
    by (simp add: quiet_def same_handle_def bytes_kept_def)
next
  case (Cons p pgs)
  note r = round_invD [OF Cons.prems(1)]
  let ?c = "if p \<noteq> tailPage s \<and> all_active E s p then Suc c else c"
  have "\<exists>s1. mark_pages E (tailPage s) (p # pgs) c s = mark_pages E (tailPage s) pgs ?c s1 \<and> round_inv E s1 L \<and> quiet E s s1 \<and>
      bytes_kept E ((- {tailPage s}) \<times> {6}) s s1 \<and> actPage s1 = actPage s \<and> actOffset s1 = actOffset s"
  proof (cases "p \<noteq> tailPage s \<and> page_state E s p \<in> {NVOCMP_PGACT, NVOCMP_PGFULL}")
    case True
    have "fbyte E s p 6 AND 0xF8 = 0xF8"
      using r(5) True Cons.prems(2) by (simp add: modes_ok_def)
    then obtain s1 where s1: "NVOCMP_writeByte E p 6 0xF8 s = s1" "quiet E s s1" "pageInfo s1 = pageInfo s" "actPage s1 = actPage s"
      "fbyte E s1 p 6 = 0xF8" "bytes_kept E {(p, 6)} s s1" "actOffset s1 = actOffset s"
      using writeByte_quiet [OF r(2,8), of p 6 "0xF8"] Cons.prems(2) by auto
    let ?s1 = "upd_page p (\<lambda>p. p\<lparr>pi_mode := 0xF8\<rparr>) s1"
    have run: "mark_pages E (tailPage s) (p # pgs) c s = mark_pages E (tailPage s) pgs ?c ?s1"
      using True s1(1) by (simp add: Let_def ph_state_read all_active_def)
    have b: "bytes_kept E ((- {tailPage s}) \<times> {6}) s ?s1"
      using s1(6) True unfolding bytes_kept_def by auto
    have q: "quiet E s ?s1"
      using s1(2) by (auto simp: quiet_def same_handle_def upd_page_def offset_of_def fun_eq_iff)
    have modes: "modes_ok E ?s1"
      unfolding modes_ok_def
    proof (intro allI impI)
      fix x
      assume "x < nvSize ?s1" "x \<noteq> tailPage ?s1"
      then have "x < nvSize s" "x \<noteq> tailPage s"
        using q by (simp_all add: quiet_def same_handle_def)
      then show "fbyte E ?s1 x 6 AND NVOCMP_PGCSRC = NVOCMP_PGCSRC"
        using r(5) s1(5) bytes_keptD [OF s1(6), of 6 x] by (cases "x = p") (simp_all add: modes_ok_def)
    qed
    have "pi_state \<circ> pageInfo ?s1 = pi_state \<circ> pageInfo s" "actPage ?s1 = actPage s" "actOffset ?s1 = actOffset s"
      using s1(3,4,7) by (auto simp: upd_page_def fun_eq_iff)
    then show ?thesis
      using run b q round_inv_mode [OF Cons.prems(1) q _ b modes] by blast
  next
    case False
    then have "mark_pages E (tailPage s) (p # pgs) c s = mark_pages E (tailPage s) pgs ?c s"
      by (auto simp: Let_def ph_state_read all_active_def)
    then show ?thesis
      using Cons.prems(1,3) by (auto simp: quiet_def same_handle_def bytes_kept_def)
  qed
  then obtain s1 where s1: "mark_pages E (tailPage s) (p # pgs) c s = mark_pages E (tailPage s) pgs ?c s1" "round_inv E s1 L" "quiet E s s1"
      "bytes_kept E ((- {tailPage s}) \<times> {6}) s s1" "actPage s1 = actPage s" "actOffset s1 = actOffset s"
    by blast
  have t: "tailPage s1 = tailPage s" "nvSize s1 = nvSize s" "failW s1 = NVINTF_SUCCESS E" and act: "all_active E s1 = all_active E s"
    using s1(3) bytes_keptD [OF s1(4), of 2] by (simp_all add: quiet_def same_handle_def all_active_byte fun_eq_iff)
  obtain s2 where "mark_pages E (tailPage s) pgs ?c s1 = (?c + length (filter (\<lambda>p. p \<noteq> tailPage s \<and> all_active E s p) pgs), s2)"
    "round_inv E s2 L" "quiet E s1 s2" "bytes_kept E ((- {tailPage s}) \<times> {6}) s1 s2"
    "actPage s2 = actPage s" "actOffset s2 = actOffset s"
    using Cons.IH [OF s1(2), of ?c] Cons.prems(2) t act s1(5,6) by auto
  then show ?case
    using s1(1) quiet_trans [OF s1(3)] bytes_kept_trans [OF s1(4), of _ s2] by (intro exI [of _ s2]) (auto simp del: mark_pages.simps)
qed

end

lemma round_inv_state:
  assumes inv: "round_inv E s L" and s': "quiet E s s'" "pi_state \<circ> pageInfo s' = (pi_state \<circ> pageInfo s)(pg := st)"
    "fbyte E s' pg 0 = st" and kept: "bytes_kept E {(pg, 0)} s s'"
    and st: "pg = tailPage s \<and> st = NVOCMP_PGXDST \<or>
      pg \<noteq> tailPage s \<and> (st \<in> {NVOCMP_PGRDY, NVOCMP_PGACT} \<and> page_state E s pg \<noteq> NVOCMP_PGFULL \<or> st = NVOCMP_PGFULL)"
  shows "round_inv E s' L"
proof -
  note r = round_invD [OF inv] and b = bytes_keptD [OF kept]
  let ?t = "tailPage s"
  have same: "nvSize s' = nvSize s" "tailPage s' = ?t" "offset_of s' = offset_of s" "voltCheckFptr s' = voltCheckFptr s"
    using s'(1) by (simp_all add: quiet_def same_handle_def)
  have fb: "fbytes E s' p x y = fbytes E s p x y" if "y \<le> 2048" "0 < x" for p x y
    by (rule fbytes_cong) (use b that in simp)
  have "fbyte E s' ?t 0 = fbyte E s ?t 0 \<or> fbyte E s' ?t 0 = NVOCMP_PGXDST"
    using st s'(3) b [of 0 ?t] by auto
  then have "dst_ready E s' (tailPage s')"
    using r(7) b [of 6 ?t] fb [of _ _ ?t] by (auto simp: dst_ready_def same)
  moreover have "states_cached E s'"
    unfolding states_cached_def page_state_def
  proof (intro allI impI)
    fix p
    assume "p < nvSize s'"
    then show "pi_state (pageInfo s' p) = fbyte E s' p 0"
      using r(6) s'(3) b [of 0 p] fun_cong [OF s'(2), of p] by (cases "p = pg") (simp_all add: states_cached_def page_state_def same)
  qed
  moreover have "modes_ok E s'"
    using r(5) b [of 6] by (simp add: modes_ok_def same)
  moreover have "pages_wf E s' L"
    unfolding pages_wf_def list_all_iff
  proof
    fix p
    assume "p \<in> set (data_pages s')"
    then have p: "p \<noteq> ?t" "page_wf E s p (L p)"
      using pages_wfD [OF r(4)] same by simp_all
    have ofs: "16 \<le> offset_of s p"
      using p(2) by (simp add: page_wf_def items_at_def)
    then have "items_at E s' p (L p) (offset_of s p)" "fbytes E s' p (offset_of s p) 2048 = fbytes E s p (offset_of s p) 2048"
      using p(2) items_at_cong [of E s p "L p" "offset_of s p" s'] b [of _ p] fb [of 2048 "offset_of s p" p] by (auto simp: page_wf_def)
    then show "page_wf E s' p (L p)"
      using p st s'(3) b [of 0 p] by (cases "p = pg") (auto simp: page_wf_def page_state_def same)
  qed
  ultimately show ?thesis
    using r(1,2,3) by (simp add: round_inv_def geometry_ok_def volt_ok_def same)
qed

lemma round_inv_ram:
  "round_inv E (s\<lparr>actPage := a, actOffset := o'\<rparr>) L = round_inv E s L" "round_inv E (s\<lparr>forceCompact := fc\<rparr>) L = round_inv E s L"
proof -
  let ?s = "s\<lparr>actPage := a, actOffset := o'\<rparr>" and ?t = "s\<lparr>forceCompact := fc\<rparr>"
  have "fbytes E ?s = fbytes E s" "offset_of ?s = offset_of s" "fbytes E ?t = fbytes E s" "offset_of ?t = offset_of s"
    by (simp_all add: fun_eq_iff fbytes_def offset_of_def)
  then show "round_inv E ?s L = round_inv E s L" "round_inv E ?t L = round_inv E s L"
    by (simp_all add: round_inv_def geometry_ok_def volt_ok_def pages_wf_def data_pages_def page_wf_def items_at_def page_state_def
        modes_ok_def states_cached_def dst_ready_def)
qed

text \<open>The choice of the active page.\<close>

definition finish_page :: "'f nvs_env \<Rightarrow> 'f nv \<Rightarrow> nat \<times> 'f nv" where
  "finish_page E s = (let pg = NVOCMP_findPage E s NVOCMP_PGACT;
         pg = (if pg = NVOCMP_NULLPAGE then NVOCMP_findPage E s NVOCMP_PGRDY else pg)
     in if pg = NVOCMP_NULLPAGE then
          (if pi_state (pageInfo s (headPage s)) = NVOCMP_PGNACT
           then (headPage s, NVOCMP_changePageState E (headPage s) NVOCMP_PGRDY s)
           else (NVOCMP_DECPAGE s (tailPage s), s))
        else (pg, s))"


context nor_flash
begin

lemma finish_page_ok:
  assumes inv: "round_inv E s L" and head: "headPage s = NVOCMP_INCPAGE s (tailPage s)" and fail: "failW s = NVINTF_SUCCESS E"
  obtains pg s' where "finish_page E s = (pg, s')" "round_inv E s' L" "quiet E s s'" "pg < nvSize s" "pg \<noteq> tailPage s"
    "\<And>p. p < nvSize s \<Longrightarrow> p \<noteq> tailPage s \<Longrightarrow> page_state E s p = NVOCMP_PGACT \<Longrightarrow> page_state E s pg = NVOCMP_PGACT \<and> s' = s"
proof -
  note r = round_invD [OF inv]
  let ?t = "tailPage s" and ?a = "NVOCMP_findPage E s NVOCMP_PGACT" and ?r = "NVOCMP_findPage E s NVOCMP_PGRDY"
  have t: "page_state E s ?t \<noteq> NVOCMP_PGACT" "page_state E s ?t \<noteq> NVOCMP_PGRDY"
    using r(7) by (auto simp: dst_ready_def page_state_def)
  have refl: "quiet E s s"
    using fail by (simp add: quiet_def same_handle_def)
  have none: "page_state E s p \<noteq> st" if "NVOCMP_findPage E s st = NVOCMP_NULLPAGE" "p < nvSize s" for st p
    using findPage_none [OF that(1) r(10) that(2)] by (simp add: ph_state_read)
  have some: "NVOCMP_findPage E s st < nvSize s \<and> page_state E s (NVOCMP_findPage E s st) = st" if "NVOCMP_findPage E s st \<noteq> NVOCMP_NULLPAGE" for st
    using findPage_found [OF HOL.refl that] by (simp add: ph_state_read)
  consider (act) "?a \<noteq> NVOCMP_NULLPAGE" | (rdy) "?a = NVOCMP_NULLPAGE" "?r \<noteq> NVOCMP_NULLPAGE"
    | (head) "?a = NVOCMP_NULLPAGE" "?r = NVOCMP_NULLPAGE" "pi_state (pageInfo s (headPage s)) = NVOCMP_PGNACT"
    | (dec) "?a = NVOCMP_NULLPAGE" "?r = NVOCMP_NULLPAGE" "pi_state (pageInfo s (headPage s)) \<noteq> NVOCMP_PGNACT"
    by blast
  then show thesis
  proof cases
    case act
    have "?a \<noteq> ?t"
      using some [OF act] t(1) by metis
    moreover have "finish_page E s = (?a, s)"
      using act by (simp add: finish_page_def Let_def)
    ultimately show thesis
      using some [OF act] by (intro that [OF _ inv refl]; blast)
  next
    case rdy
    have "?r \<noteq> ?t"
      using some [OF rdy(2)] t(2) by metis
    moreover have "finish_page E s = (?r, s)"
      using rdy by (simp add: finish_page_def Let_def)
    ultimately show thesis
      using some [OF rdy(2)] none [OF rdy(1)] by (intro that [OF _ inv refl]; blast)
  next
    case head
    let ?h = "headPage s"
    have h: "?h < nvSize s" "?h \<noteq> ?t"
      using assms(2) INCPAGE_neq [of s ?t] r(3,9) by (simp_all add: NVOCMP_INCPAGE_def)
    have st: "fbyte E s ?h 0 = 0xFF"
      using r(6) h(1) head(3) by (simp add: states_cached_def page_state_def)
    obtain s' where s': "NVOCMP_changePageState E ?h NVOCMP_PGRDY s = s'" "quiet E s s'"
      "pi_state \<circ> pageInfo s' = (pi_state \<circ> pageInfo s)(?h := NVOCMP_PGRDY)"
      "fbyte E s' ?h 0 = NVOCMP_PGRDY" "bytes_kept E {(?h, 0)} s s'"
      using changePageState_quiet [OF r(2) r(8) [OF h(1)], of NVOCMP_PGRDY] st by (auto simp: and_FF)
    have "round_inv E s' L"
      by (rule round_inv_state [OF inv s'(2-5)]) (use h st in \<open>simp add: page_state_def\<close>)
    moreover have "finish_page E s = (?h, s')"
      using head s'(1) by (simp add: finish_page_def Let_def)
    ultimately show thesis
      using none [OF head(1)] by (intro that [OF _ _ s'(2) h]; blast)
  next
    case dec
    have "NVOCMP_DECPAGE s ?t < nvSize s" "NVOCMP_DECPAGE s ?t \<noteq> ?t"
      using r(3,9) ADDPAGE_neq [OF r(3), of "nvSize s - 1"] by (simp_all add: NVOCMP_DECPAGE_def)
    moreover have "finish_page E s = (NVOCMP_DECPAGE s ?t, s)"
      using dec by (simp add: finish_page_def Let_def)
    ultimately show thesis
      using none [OF dec(1)] by (intro that [OF _ inv refl]; blast)
  qed
qed

lemma finish_ok:
  assumes inv: "round_inv E s L" and head: "headPage s = NVOCMP_INCPAGE s (tailPage s)" and fail: "failW s = NVINTF_SUCCESS E"
    "failF s = NVINTF_SUCCESS E"
  obtains s' where "compactPage_finish E s = (s16 (2048 - int (xDstOffset (compactInfo s))), s')" "round_inv E s' L" "driver_wf E s'"
    "nvSize s' = nvSize s" "tailPage s' = tailPage s" "headPage s' = headPage s" "offset_of s' = offset_of s"
    "\<And>p. p < nvSize s \<Longrightarrow> p \<noteq> tailPage s \<Longrightarrow> page_state E s p = NVOCMP_PGACT \<Longrightarrow> page_state E s' p = NVOCMP_PGACT \<and>
       page_state E s (actPage s') = NVOCMP_PGACT \<and> page_state E s' (actPage s') = NVOCMP_PGACT"
proof -
  obtain pg s1 where s1: "finish_page E s = (pg, s1)" "round_inv E s1 L" "quiet E s s1" "pg < nvSize s" "pg \<noteq> tailPage s"
    and act: "\<And>p. p < nvSize s \<Longrightarrow> p \<noteq> tailPage s \<Longrightarrow> page_state E s p = NVOCMP_PGACT \<Longrightarrow> page_state E s pg = NVOCMP_PGACT \<and> s1 = s"
    using finish_page_ok [OF inv head fail(1)] by metis
  let ?s1 = "s1\<lparr>actPage := pg, actOffset := offset_of s1 pg\<rparr>" and ?t = "tailPage s"
  have inv1: "round_inv E ?s1 L"
    using s1(2) by (simp only: round_inv_ram)
  note r = round_invD [OF inv1]
  have same1: "nvSize s1 = nvSize s" "tailPage s1 = ?t" "headPage s1 = headPage s" "offset_of s1 = offset_of s" "failF s1 = failF s"
    "compactInfo s1 = compactInfo s"
    using s1(3) by (simp_all add: quiet_def same_handle_def)
  have t: "?t < nvSize ?s1"
    using r(3) same1 by simp
  have "fbyte E ?s1 ?t 0 AND NVOCMP_PGXDST = NVOCMP_PGXDST"
    using r(7) same1(2) by (auto simp: dst_ready_def)
  then obtain s2 where s2: "NVOCMP_changePageState E ?t NVOCMP_PGXDST ?s1 = s2" "quiet E ?s1 s2" "actPage s2 = pg"
    "pi_state \<circ> pageInfo s2 = (pi_state \<circ> pageInfo ?s1)(?t := NVOCMP_PGXDST)" "fbyte E s2 ?t 0 = NVOCMP_PGXDST" "bytes_kept E {(?t, 0)} ?s1 s2"
    "actOffset s2 = offset_of s1 pg"
    using changePageState_quiet [OF r(2) r(8) [OF t], of NVOCMP_PGXDST] by auto
  have inv2: "round_inv E s2 L"
    by (rule round_inv_state [OF inv1 s2(2,4-6)]) (use same1 in simp)
  let ?s3 = "s2\<lparr>forceCompact := False\<rparr>"
  have inv3: "round_inv E ?s3 L"
    using inv2 by (simp only: round_inv_ram)
  have same2: "nvSize s2 = nvSize s" "tailPage s2 = ?t" "headPage s2 = headPage s" "offset_of s2 = offset_of s" "failF s2 = failF s"
    "failW s2 = NVINTF_SUCCESS E" "compactInfo s2 = compactInfo s"
    using s2(2) same1 by (simp_all add: quiet_def same_handle_def offset_of_def fun_eq_iff)
  have st: "page_state E ?s3 p = page_state E s1 p" if "p \<noteq> ?t" for p
    using bytes_keptD [OF s2(6), of 0 p] that by (simp add: page_state_def)
  show thesis
  proof (rule that [of ?s3])
    show "compactPage_finish E s = (s16 (2048 - int (xDstOffset (compactInfo s))), ?s3)"
    proof -
      have "compactPage_finish E s = (case finish_page E s of (pg, s) \<Rightarrow>
          let s = s\<lparr>actPage := pg, actOffset := offset_of s pg\<rparr>;
              s = NVOCMP_changePageState E (tailPage s) NVOCMP_PGXDST s;
              s = s\<lparr>forceCompact := False\<rparr>
          in (s16 (int FLASH_PAGE_SIZE - int (xDstOffset (compactInfo s))), s))"
        unfolding compactPage_finish_def finish_page_def Let_def ..
      also have "\<dots> = (s16 (2048 - int (xDstOffset (compactInfo s))), ?s3)"
        unfolding s1(1) prod.case Let_def using same1(2) s2(1) same2(7) by simp
      finally show ?thesis .
    qed
    show "driver_wf E ?s3"
      using round_invD(1,2,3) [OF inv3] s1(4,5) s2(3,7) same1(4) same2 fail(2) by (simp add: driver_wf_def geometry_ok_def volt_ok_def offset_of_def fun_eq_iff)
    show "offset_of ?s3 = offset_of s"
      using same2(4) by (simp add: offset_of_def fun_eq_iff)
    fix p
    assume p: "p < nvSize s" "p \<noteq> ?t" "page_state E s p = NVOCMP_PGACT"
    then show "page_state E ?s3 p = NVOCMP_PGACT \<and> page_state E s (actPage ?s3) = NVOCMP_PGACT \<and> page_state E ?s3 (actPage ?s3) = NVOCMP_PGACT"
      using act [OF p] st [of p] st [of pg] s1(5) s2(3) by simp
  qed (use inv3 same2 in simp_all)
qed

end

subsection \<open>Compaction\<close>

text \<open>What the driver keeps, besides the invariant of the store, for the compaction to work.\<close>

definition compactable :: "'f nvs_env \<Rightarrow> 'f nv \<Rightarrow> bool" where
  "compactable E s \<longleftrightarrow> headPage s = NVOCMP_INCPAGE s (tailPage s) \<and> modes_ok E s \<and> states_cached E s \<and> dst_ready E s (tailPage s)"

text \<open>A page whose compaction leaves room for \<open>n\<close> bytes.\<close>

definition room_after :: "'f nvs_env \<Rightarrow> 'f nv \<Rightarrow> (nat \<Rightarrow> nv_item list) \<Rightarrow> nat \<Rightarrow> bool" where
  "room_after E s L n \<longleftrightarrow> list_ex (\<lambda>p. \<not> all_active E s p \<and> fits_after n (L p)) (data_pages s)"

lemma round_inv_wf: "nv_wf E s L \<Longrightarrow> compactable E s \<Longrightarrow> round_inv E s L"
  by (simp add: nv_wf_def driver_wf_def compactable_def round_inv_def geometry_ok_def)

lemma still_to_visit_all:
  assumes "p < nvSize s" "p \<noteq> tailPage s" "tailPage s < nvSize s"
  shows "p \<in> still_to_visit s 0 (nvSize s - 1)"
proof -
  obtain i where i: "i < nvSize s" "(NVOCMP_INCPAGE s ^^ i) (tailPage s) = p"
    using INCPAGE_reaches [OF assms(3,1)] by blast
  have "(NVOCMP_INCPAGE s ^^ Suc j) x = NVOCMP_ADDPAGE s x (Suc j)" for x j
    by (induction j) (simp_all add: NVOCMP_INCPAGE_def ADDPAGE_add)
  then obtain j where "i = Suc j" "p = NVOCMP_ADDPAGE s (tailPage s) (Suc j)"
    using i(2) assms(2) by (cases i) (auto simp del: funpow.simps(2))
  then show ?thesis
    using i(1) by (auto simp: still_to_visit_def intro!: image_eqI [of _ _ j])
qed

lemma round_inv_vcalls: "round_inv E (s\<lparr>vcalls := k\<rparr>) L = round_inv E s L"
proof -
  have "fbytes E (s\<lparr>vcalls := k\<rparr>) = fbytes E s" "offset_of (s\<lparr>vcalls := k\<rparr>) = offset_of s"
    by (simp_all add: fun_eq_iff fbytes_def offset_of_def)
  then show ?thesis
    by (simp add: round_inv_def geometry_ok_def volt_ok_def pages_wf_def data_pages_def page_wf_def items_at_def page_state_def
        modes_ok_def states_cached_def dst_ready_def)
qed

lemma length_data_pages: "tailPage s < nvSize s \<Longrightarrow> length (data_pages s) = nvSize s - 1"
proof -
  assume t: "tailPage s < nvSize s"
  have "length (data_pages s) = card (set (data_pages s))"
    by (rule distinct_card [symmetric]) (simp add: data_pages_def)
  also have "set (data_pages s) = {..<nvSize s} - {tailPage s}"
    by auto
  also have "card \<dots> = nvSize s - 1"
    using t by simp
  finally show ?thesis .
qed

lemma s16_room: "x \<le> 2048 \<Longrightarrow> s16 (2048 - int x) = 2048 - int x"
  by (simp add: s16_def)

context nor_flash
begin

theorem compactPage_wf:
  assumes wf: "nv_wf E s L" and c: "compactable E s" and n: "n \<noteq> 0"
  obtains r s' L' where "NVOCMP_compactPage E n s = Some (r, s')" "round_inv E s' L'" "nv_wf E s' L'" "compactable E s'" "layout_map s' L' = layout_map s L"
    "int n \<le> r \<Longrightarrow> has_room E s' n" "int n \<le> r \<Longrightarrow> no_act E s \<Longrightarrow> page_room E s' n (actPage s') \<and> page_state E s' (actPage s') = NVOCMP_PGACT"
    "room_after E s L n \<Longrightarrow> int n \<le> r"
proof -
  have d: "driver_wf E s" and ids: "ids_distinct s L"
    using wf by (simp_all add: nv_wf_def)
  note inv = round_inv_wf [OF wf c] and r = round_invD [OF round_inv_wf [OF wf c]]
  let ?t = "tailPage s"
  obtain k where acc: "NVOCMP_FLASHACCESS E s = (NVINTF_SUCCESS E, s\<lparr>vcalls := k\<rparr>)"
    using volt_ok_FLASHACCESS [OF r(2)] by blast
  let ?i = "(compactInfo s)\<lparr>xSrcPages := 1\<rparr>"
  let ?s0 = "s\<lparr>vcalls := k, compactInfo := ?i\<rparr>"
  let ?aa = "length (filter (\<lambda>p. p \<noteq> ?t \<and> all_active E s p) [0..<nvSize s])"
  have inv0: "round_inv E ?s0 L" and act0: "\<And>p. all_active E (s\<lparr>vcalls := k\<rparr>) p = all_active E s p"
    using inv by (simp_all add: round_inv_vcalls all_active_byte)
  obtain s1 where s1: "mark_pages E ?t [0..<nvSize s] 0 ?s0 = (?aa, s1)" "round_inv E s1 L" "quiet E ?s0 s1"
    "bytes_kept E ((- {?t}) \<times> {6}) ?s0 s1" "actPage s1 = actPage s" "actOffset s1 = actOffset s"
    using mark_pages_ok [OF inv0, of "[0..<nvSize s]" 0] d by (auto simp: act0 driver_wf_def)
  have same: "nvSize s1 = nvSize s" "tailPage s1 = ?t" "headPage s1 = headPage s" "offset_of s1 = offset_of s" "failF s1 = NVINTF_SUCCESS E"
    "failW s1 = NVINTF_SUCCESS E" "compactInfo s1 = ?i" "forceCompact s1 = forceCompact s" "voltCheckFptr s1 = voltCheckFptr s"
    using s1(3) d by (simp_all add: quiet_def same_handle_def driver_wf_def offset_of_def fun_eq_iff)
  have st1: "page_state E s1 = page_state E s" "all_active E s1 = all_active E s"
    using bytes_keptD [OF s1(4), of 0] bytes_keptD [OF s1(4), of 2] by (simp_all add: page_state_def all_active_byte fun_eq_iff)
  have live: "live_items s1 L = live_items s L"
    by (simp add: live_items_def data_pages_def same)
  have wf1: "nv_wf E s1 L" and c1: "compactable E s1"
  proof -
    show "nv_wf E s1 L"
      using d ids s1(5,6) round_invD(2,4) [OF s1(2)] unfolding nv_wf_def driver_wf_def ids_distinct_def live same by simp
    show "compactable E s1"
      using c round_invD(5-7) [OF s1(2)] by (simp add: compactable_def same INCPAGE_cong(1) [OF same(1)])
  qed
  let ?v = "\<lparr>p_nv = s1, p_srcPg = headPage s, p_dstPg = ?t, p_compactPages = nvSize s1 - 1, p_skipPages = 0, p_foundRoom = False\<rparr>"
  have run: "NVOCMP_compactPage E n s = (if ?aa = nvSize s1 - 1 \<and> \<not> forceCompact s1 then Some (0, s1)
      else do { (ok, s) \<leftarrow> compactPage_loop E n ?v; Some (if ok then compactPage_finish E s else (0, s)) })"
    using s1(1) n by (simp add: NVOCMP_compactPage_def acc upd_cinfo_def Let_def)
  show thesis
  proof (cases "?aa = nvSize s1 - 1 \<and> \<not> forceCompact s1")
    case True
    have "\<not> room_after E s L n"
    proof
      assume "room_after E s L n"
      then obtain p where "p \<in> set (data_pages s)" "\<not> all_active E s p"
        unfolding room_after_def list_ex_iff by blast
      then have "length (filter (all_active E s) (data_pages s)) < nvSize s - 1"
        using length_filter_less [of p "data_pages s" "all_active E s"] length_data_pages [OF r(3)] by simp
      then show False
        using True same(1) by (simp add: data_pages_def conj_commute)
    qed
    moreover have "NVOCMP_compactPage E n s = Some (0, s1)"
      using run True by simp
    moreover have "\<not> int n \<le> 0"
      using n by simp
    moreover have "layout_map s1 L = layout_map s L"
      by (simp add: layout_map_def live)
    ultimately show thesis
      using s1(2) wf1 c1 by (intro that [of 0 s1 L]; blast)
  next
    case False
    have "loop_rel E n s1 L s1 L"
      using s1(2) wf1 c1 same by (simp add: loop_rel_def compactable_def no_act_fit)
    from loop_ok [OF this, of 0 "nvSize s1 - 1"] obtain s2 L2 where
      s2: "compactPage_loop E n ?v = Some (True, s2)" "loop_rel E n s1 L s2 L2" "found_room E n s2 \<or> out_of_room n s2"
      "(\<exists>p\<in>still_to_visit s1 0 (nvSize s1 - 1). \<not> all_active E s1 p \<and> fits_after n (L p)) \<longrightarrow> found_room E n s2"
      using r(9) n c same(1,2,3) by (auto simp: compactable_def NVOCMP_INCPAGE_def INCPAGE_cong(2) [OF same(1)])
    have rel: "round_inv E s2 L2" "headPage s2 = NVOCMP_INCPAGE s2 (tailPage s2)" "failW s2 = NVINTF_SUCCESS E" "failF s2 = NVINTF_SUCCESS E"
      "mset (live_items s2 L2) = mset (live_items s L)" "nvSize s2 = nvSize s"
      using s2(2) same live by (simp_all add: loop_rel_def)
    obtain s3 where s3: "compactPage_finish E s2 = (s16 (2048 - int (xDstOffset (compactInfo s2))), s3)" "round_inv E s3 L2" "driver_wf E s3"
      "nvSize s3 = nvSize s2" "tailPage s3 = tailPage s2" "headPage s3 = headPage s2" "offset_of s3 = offset_of s2"
      and act: "\<And>p. p < nvSize s2 \<Longrightarrow> p \<noteq> tailPage s2 \<Longrightarrow> page_state E s2 p = NVOCMP_PGACT \<Longrightarrow> page_state E s3 p = NVOCMP_PGACT \<and>
       page_state E s2 (actPage s3) = NVOCMP_PGACT \<and> page_state E s3 (actPage s3) = NVOCMP_PGACT"
      using finish_ok [OF rel(1-4)] by metis
    let ?r = "s16 (2048 - int (xDstOffset (compactInfo s2)))"
    have room: "int n \<le> ?r \<longleftrightarrow> found_room E n s2"
      using s2(3) s16_room [of "xDstOffset (compactInfo s2)"] by (auto simp: found_room_def out_of_room_def)
    have "mset (live_items s3 L2) = mset (live_items s L)"
      using rel(5) s3(4,5) by (simp add: live_items_def data_pages_def)
    note items = live_items_mset [OF this ids]
    show thesis
    proof (rule that [OF _ s3(2)])
      show "NVOCMP_compactPage E n s = Some (?r, s3)"
        unfolding run if_not_P [OF False] s2(1) by (simp add: s3(1))
      show "nv_wf E s3 L2"
        using s3(3) items(1) round_invD(4) [OF s3(2)] by (simp add: nv_wf_def)
      show "compactable E s3"
        using rel(2) round_invD(5-7) [OF s3(2)] s3(4-6) by (simp add: compactable_def INCPAGE_cong(1) [OF s3(4)])
      show "layout_map s3 L2 = layout_map s L"
        by (rule items(2))
      show "int n \<le> ?r" if after: "room_after E s L n"
      proof -
        obtain p where "p < nvSize s" "p \<noteq> ?t" "\<not> all_active E s p" "fits_after n (L p)"
          using after unfolding room_after_def list_ex_iff by auto
        then show ?thesis
          using s2(4) still_to_visit_all [of p s1] same(1,2) r(3) st1(2) unfolding room by auto
      qed
    next
      assume "int n \<le> ?r"
      then obtain p where p: "p < nvSize s2" "p \<noteq> tailPage s2" "page_state E s2 p = NVOCMP_PGACT" "offset_of s2 p + n \<le> 2048"
        unfolding room found_room_def by auto
      show "has_room E s3 n"
        using p act [OF p(1-3)] s3(4,5,7) unfolding has_room_def list_ex_iff page_room_def by (intro bexI [of _ p]) simp_all
      assume "no_act E s"
      then have "acts_fit E n s2"
        using s2(2) st1(1) same by (simp add: loop_rel_def no_act_def)
      then show "page_room E s3 n (actPage s3) \<and> page_state E s3 (actPage s3) = NVOCMP_PGACT"
        using act [OF p(1-3)] s3(3-5,7) by (simp add: page_room_def acts_fit_def driver_wf_def)
    qed
  qed
qed

end

end
