(* ===== verification/NvWrite.thy ===== *)
theory NvWrite
  imports NvCompacted
begin

text \<open>
  Writes that compact first. The conditions under which compaction works are kept by the search for a page, by writing an item and by
  marking one as inactive; when no page has room, all data pages end up full, compaction makes room on a new active page, and the
  item is written there. The driver is thereby a key-value store in which a write needs room on some page, before or after compaction.
\<close>

subsection \<open>The conditions of compaction are kept\<close>

lemma compactable_frame:
  assumes c: "compactable E s" and s': "nvSize s' = nvSize s" "headPage s' = headPage s" "tailPage s' = tailPage s"
    "offset_of s' (tailPage s) = offset_of s (tailPage s)" "\<And>p. pi_state (pageInfo s' p) = pi_state (pageInfo s p)"
    "\<And>p x. x < 2048 \<Longrightarrow> p = tailPage s \<or> x = 0 \<or> x = 6 \<Longrightarrow> fbyte E s' p x = fbyte E s p x"
  shows "compactable E s'"
proof -
  have "fbytes E s' (tailPage s) x y = fbytes E s (tailPage s) x y" if "y \<le> 2048" for x y
    by (rule fbytes_cong) (use s'(6) that in simp)
  then have "dst_ready E s' (tailPage s') = dst_ready E s (tailPage s)"
    using s'(3,4) s'(6) [of 0 "tailPage s"] s'(6) [of 6 "tailPage s"] by (simp add: dst_ready_def)
  then show ?thesis
    using c s'(1-3,5) s'(6) [of 0] s'(6) [of 6]
    by (simp add: compactable_def modes_ok_def states_cached_def page_state_def INCPAGE_cong(1) [OF s'(1)])
qed

lemma FLASHACCESS_pageInfo: "NVOCMP_FLASHACCESS E s = (e, s') \<Longrightarrow> pageInfo s' = pageInfo s"
  by (auto simp: NVOCMP_FLASHACCESS_def Let_def split: option.splits if_splits)

lemma write_pageInfo: "NVOCMP_write E p off bs s = (e, s') \<Longrightarrow> pageInfo s' = pageInfo s"
  by (auto simp: NVOCMP_write_def split: prod.splits if_splits dest: FLASHACCESS_pageInfo)

lemma writeByte_pageInfo [simp]: "pageInfo (NVOCMP_writeByte E p off b s) = pageInfo s"
  by (auto simp: NVOCMP_writeByte_def split: prod.splits dest: write_pageInfo)

lemma setItemInactive_states: "pi_state (pageInfo (NVOCMP_setItemInactive E q off s) p) = pi_state (pageInfo s p)"
  by (simp add: NVOCMP_setItemInactive_def Let_def upd_page_def)

context nor_flash
begin

lemma writeItem_states:
  assumes "page_state E s q = NVOCMP_PGACT"
  shows "pi_state (pageInfo (NVOCMP_writeItem E h q off buf s) p) = pi_state (pageInfo s p)"
  using assms
  by (auto simp: NVOCMP_writeItem_def Let_def ph_state_read setItemInactive_states upd_page_def split: prod.splits dest!: write_pageInfo)

lemma writeItem_compactable:
  assumes c: "compactable E s" and wf: "nv_wf E s L" and room: "act_room E s (7 + len h)" and l: "len h < 4096"
  shows "compactable E (NVOCMP_writeItem E h (actPage s) (actOffset s) buf s)" "volt_ok (NVOCMP_writeItem E h (actPage s) (actOffset s) buf s)"
    "tailPage (NVOCMP_writeItem E h (actPage s) (actOffset s) buf s) = tailPage s"
proof -
  let ?q = "actPage s" and ?s' = "NVOCMP_writeItem E h (actPage s) (actOffset s) buf s"
  have d: "driver_wf E s" and p: "pages_wf E s L"
    using wf by (simp_all add: nv_wf_def)
  have r: "page_state E s ?q = NVOCMP_PGACT" "offset_of s ?q + (7 + len h) \<le> 2048"
    using room by (simp_all add: act_room_def)
  have q: "?q < nvSize s" "?q \<noteq> tailPage s" "actOffset s = offset_of s ?q" "volt_ok s"
    using d by (simp_all add: driver_wf_def)
  have pw: "page_wf E s ?q (L ?q)"
    by (rule pages_wfD [OF p q(1,2)])
  have o: "16 \<le> offset_of s ?q" "list_all (\<lambda>b. b = 0xFF) (fbytes E s ?q (offset_of s ?q) 2048)"
    using pw by (simp add: page_wf_def items_at_def) (use pw r(1) in \<open>simp add: page_wf_def\<close>)
  obtain s1 where s1: "?s' = advance ?q (7 + len h) s1" "same_ram s s1"
    "\<And>p x. x < 2048 \<Longrightarrow> p \<noteq> ?q \<or> x < offset_of s ?q \<or> offset_of s ?q + (7 + len h) \<le> x \<Longrightarrow> fbyte E s1 p x = fbyte E s p x"
    using writeItem_bytes [OF q(4) driver_wf_region [OF d q(1)] o(2) refl r l, of buf] unfolding q(3) by blast
  have b: "fbyte E ?s' p x = fbyte E s1 p x" for p x
    unfolding s1(1) by (simp add: advance_def fbyte_def upd_page_def)
  show "compactable E ?s'"
  proof (rule compactable_frame [OF c])
    show "pi_state (pageInfo ?s' p) = pi_state (pageInfo s p)" for p
      by (rule writeItem_states [OF r(1)])
    show "fbyte E ?s' p x = fbyte E s p x" if "x < 2048" "p = tailPage s \<or> x = 0 \<or> x = 6" for p x
      unfolding b by (rule s1(3)) (use that q(2) o(1) in auto)
    show "nvSize ?s' = nvSize s" "headPage ?s' = headPage s" "tailPage ?s' = tailPage s" "offset_of ?s' (tailPage s) = offset_of s (tailPage s)"
      using s1(2) q(2) unfolding s1(1) by (simp_all add: same_ram_def advance_def upd_page_def offset_of_def fun_eq_iff)
  qed
  show "volt_ok ?s'" "tailPage ?s' = tailPage s"
    using s1(2) q(4) unfolding s1(1) by (simp_all add: volt_ok_def same_ram_def advance_def upd_page_def)
qed

lemma setItemInactive_compactable:
  assumes c: "compactable E s" and v: "volt_ok s" and q: "2048 * Suc q \<le> regionSize E" "q \<noteq> tailPage s"
    and ofs: "hdr_ofs xs it + 7 \<le> 2048"
  shows "compactable E (NVOCMP_setItemInactive E q (hdr_ofs xs it) s)"
proof -
  let ?o = "hdr_ofs xs it"
  have o: "?o + 5 < 2048" "2 < ?o"
    using ofs by (simp_all add: hdr_ofs_def)
  obtain s' where s': "NVOCMP_setItemInactive E q ?o s = s'" "same_ram s s'"
    "\<And>p x. x < 2048 \<Longrightarrow> p \<noteq> q \<or> (x \<noteq> ?o + 5 \<and> x \<noteq> 2) \<Longrightarrow> fbyte E s' p x = fbyte E s p x"
    by (rule setItemInactive_bytes [OF v q(1) o]) blast
  show ?thesis
    unfolding s'(1)
  proof (rule compactable_frame [OF c])
    show "pi_state (pageInfo s' p) = pi_state (pageInfo s p)" for p
      using setItemInactive_states [of E q ?o s p] s'(1) by simp
    show "fbyte E s' p x = fbyte E s p x" if "x < 2048" "p = tailPage s \<or> x = 0 \<or> x = 6" for p x
      by (rule s'(3)) (use that q(2) in \<open>auto simp: hdr_ofs_def\<close>)
  qed (use s'(2) in \<open>simp_all add: same_ram_def\<close>)
qed

lemma written_compactable:
  assumes w: "written_from E buf n s s'" and c: "compactable E s" and wf: "nv_wf E s L" and room: "act_room E s (7 + n)" and n: "n < 4096"
  shows "compactable E s'"
  using w unfolding written_from_def
proof (elim disjE exE conjE)
  fix h q xs it
  assume h: "len h = n" and q: "q < nvSize s" "q \<noteq> tailPage s" "hdr_ofs xs it + 7 \<le> 2048"
    and s': "s' = NVOCMP_setItemInactive E q (hdr_ofs xs it) (NVOCMP_writeItem E h (actPage s) (actOffset s) buf s)"
  have l: "act_room E s (7 + len h)" "len h < 4096"
    using room n h by simp_all
  note w = writeItem_compactable [OF c wf l, of buf]
  show ?thesis
    unfolding s' by (rule setItemInactive_compactable [OF w(1,2)])
      (use q w(3) driver_wf_region [OF nv_wfD(1) [OF wf] q(1)] in simp_all)
qed (use c writeItem_compactable(1) [OF c wf] room n in auto)

end

subsection \<open>No page with room\<close>

lemma quiet_refl: "failW s = NVINTF_SUCCESS E \<Longrightarrow> quiet E s s"
  by (simp add: quiet_def same_handle_def)

lemma quiet_act: "quiet E s (s1\<lparr>actPage := a, actOffset := o'\<rparr>) = quiet E s s1" "quiet E (s\<lparr>actPage := a, actOffset := o'\<rparr>) s1 = quiet E s s1"
  by (simp_all add: quiet_def same_handle_def offset_of_def fun_eq_iff)

text \<open>The pages visited from a page on are full, but for the destination page.\<close>

definition full_from :: "'f nvs_env \<Rightarrow> 'f nv \<Rightarrow> nat \<Rightarrow> nat \<Rightarrow> 'f nv \<Rightarrow> bool" where
  "full_from E s k pg s' \<longleftrightarrow> (\<forall>i<k. (NVOCMP_INCPAGE s ^^ i) pg = tailPage s \<or> page_state E s' ((NVOCMP_INCPAGE s ^^ i) pg) = NVOCMP_PGFULL)"

lemma full_from_Suc: "full_from E s (Suc k) pg s' \<longleftrightarrow>
    (pg = tailPage s \<or> page_state E s' pg = NVOCMP_PGFULL) \<and> full_from E s k (NVOCMP_INCPAGE s pg) s'"
  unfolding full_from_def
  using all_less_Suc_funpow [of k "\<lambda>p. p = tailPage s \<or> page_state E s' p = NVOCMP_PGFULL" "NVOCMP_INCPAGE s" pg] by blast

lemma full_from_cong: "nvSize t = nvSize s \<Longrightarrow> tailPage t = tailPage s \<Longrightarrow> full_from E t k pg s' = full_from E s k pg s'"
proof -
  assume "nvSize t = nvSize s" "tailPage t = tailPage s"
  moreover from this have "NVOCMP_INCPAGE t = NVOCMP_INCPAGE s"
    by (simp add: fun_eq_iff INCPAGE_cong(1) [of t s])
  ultimately show ?thesis
    by (simp add: full_from_def)
qed

context nor_flash
begin

lemma close_page:
  assumes inv: "round_inv E s L" and pg: "pg < nvSize s" "pg \<noteq> tailPage s"
    and st: "st = NVOCMP_PGACT \<and> page_state E s pg \<in> {NVOCMP_PGNACT, NVOCMP_PGRDY} \<or> st = NVOCMP_PGFULL \<and> page_state E s pg = NVOCMP_PGACT"
  obtains s' where "NVOCMP_changePageState E pg st s = s'" "round_inv E s' L" "quiet E s s'" "page_state E s' pg = st"
    "bytes_kept E {(pg, 0)} s s'"
proof -
  note r = round_invD [OF inv]
  have "fbyte E s pg 0 AND st = st"
    using st by (auto simp: page_state_def)
  then obtain s' where s': "NVOCMP_changePageState E pg st s = s'" "quiet E s s'" "pi_state \<circ> pageInfo s' = (pi_state \<circ> pageInfo s)(pg := st)"
    "fbyte E s' pg 0 = st" "bytes_kept E {(pg, 0)} s s'"
    using changePageState_quiet [OF r(2) r(8) [OF pg(1)]] by blast
  have "round_inv E s' L"
    by (rule round_inv_state [OF inv s'(2-5)]) (use st pg(2) in auto)
  then show thesis
    using that s' by (simp add: page_state_def)
qed

lemma getDstPage_loop_inv:
  assumes "round_inv E s L" "pg < nvSize s" "failW s = NVINTF_SUCCESS E"
  shows "\<exists>r s'. getDstPage_loop E n k pg s = (r, s') \<and> round_inv E s' L \<and> quiet E s s' \<and> bytes_kept E ((- {tailPage s}) \<times> {0}) s s' \<and>
    (\<forall>p. page_state E s p = NVOCMP_PGFULL \<longrightarrow> page_state E s' p = NVOCMP_PGFULL) \<and>
    (r = NVOCMP_NULLPAGE \<longrightarrow> full_from E s k pg s')"
  using assms
proof (induction k arbitrary: pg s)
  case 0
  then show ?case
    by (simp add: quiet_refl bytes_kept_def full_from_def)
next
  case (Suc k)
  note r = round_invD [OF Suc.prems(1)]
  let ?q = "NVOCMP_INCPAGE s pg"
  have q: "?q < nvSize s"
    using r(9) by (simp add: NVOCMP_INCPAGE_def)
  show ?case
  proof (cases "pg = tailPage s \<or> page_state E s pg = NVOCMP_PGFULL")
    case True
    then have "getDstPage_loop E n (Suc k) pg s = getDstPage_loop E n k ?q s"
      by (auto simp: ph_state_read)
    then show ?thesis
      using Suc.IH [OF Suc.prems(1) q Suc.prems(3)] True unfolding full_from_Suc by auto
  next
    case False
    let ?s1 = "if page_state E s pg = NVOCMP_PGNACT \<or> page_state E s pg = NVOCMP_PGRDY then NVOCMP_changePageState E pg NVOCMP_PGACT s else s"
    have st: "page_state E s pg \<in> {NVOCMP_PGNACT, NVOCMP_PGRDY, NVOCMP_PGACT}"
      using pages_wfD [OF r(4) Suc.prems(2)] False by (auto simp: page_wf_def)
    obtain s1 where s1: "?s1 = s1" "round_inv E s1 L" "quiet E s s1" "page_state E s1 pg = NVOCMP_PGACT" "bytes_kept E {(pg, 0)} s s1"
    proof (cases "page_state E s pg = NVOCMP_PGACT")
      case True
      then show thesis
        using that [of s] Suc.prems(1) quiet_refl [OF Suc.prems(3)] by (simp add: bytes_kept_def)
    next
      case act: False
      have "?s1 = NVOCMP_changePageState E pg NVOCMP_PGACT s"
        using st act by auto
      then show thesis
        using close_page [OF Suc.prems(1,2), of NVOCMP_PGACT] st act False that by auto
    qed
    let ?s2 = "s1\<lparr>actPage := pg, actOffset := offset_of s1 pg\<rparr>"
    have inv2: "round_inv E ?s2 L"
      using s1(2) by (simp only: round_inv_ram)
    have same: "nvSize s1 = nvSize s" "tailPage s1 = tailPage s" "offset_of s1 = offset_of s" "failW s1 = NVINTF_SUCCESS E"
      using s1(3) by (simp_all add: quiet_def same_handle_def)
    have run: "getDstPage_loop E n (Suc k) pg s = (if offset_of ?s2 pg + n \<le> FLASH_PAGE_SIZE then (pg, ?s2)
        else let s = NVOCMP_changePageState E pg NVOCMP_PGFULL ?s2 in getDstPage_loop E n k (NVOCMP_INCPAGE s pg) s)"
      using False s1(1) by (simp add: ph_state_read Let_def)
    have keep: "page_state E s1 p = NVOCMP_PGFULL" if "page_state E s p = NVOCMP_PGFULL" for p
      using that False bytes_keptD [OF s1(5), of 0 p] by (cases "p = pg") (simp_all add: page_state_def)
    have kept1: "bytes_kept E ((- {tailPage s}) \<times> {0}) s s1"
      using s1(5) False unfolding bytes_kept_def by auto
    show ?thesis
    proof (cases "offset_of ?s2 pg + n \<le> FLASH_PAGE_SIZE")
      case True
      then have "getDstPage_loop E n (Suc k) pg s = (pg, ?s2)"
        using run by simp
      moreover have "pg \<noteq> NVOCMP_NULLPAGE"
        using Suc.prems(2) r(10) by simp
      ultimately show ?thesis
        using inv2 s1(3) keep kept1 by (auto simp: quiet_act bytes_kept_def page_state_def)
    next
      case full: False
      have pg: "pg < nvSize ?s2" "pg \<noteq> tailPage ?s2" "page_state E ?s2 pg = NVOCMP_PGACT"
        using Suc.prems(2) False same s1(4) by (simp_all add: page_state_def)
      obtain s3 where s3: "NVOCMP_changePageState E pg NVOCMP_PGFULL ?s2 = s3" "round_inv E s3 L" "quiet E ?s2 s3"
        "page_state E s3 pg = NVOCMP_PGFULL" "bytes_kept E {(pg, 0)} ?s2 s3"
        using close_page [OF inv2 pg(1,2), of NVOCMP_PGFULL] pg(3) by auto
      have same3: "nvSize s3 = nvSize s" "tailPage s3 = tailPage s" "failW s3 = NVINTF_SUCCESS E"
        using s3(3) same by (simp_all add: quiet_def same_handle_def)
      have inc: "NVOCMP_INCPAGE s3 pg = ?q" "?q < nvSize s3"
        using q same3(1) INCPAGE_cong(1) [OF same3(1)] by simp_all
      obtain r s' where s': "getDstPage_loop E n k ?q s3 = (r, s')" "round_inv E s' L" "quiet E s3 s'"
        "bytes_kept E ((- {tailPage s}) \<times> {0}) s3 s'" "\<forall>p. page_state E s3 p = NVOCMP_PGFULL \<longrightarrow> page_state E s' p = NVOCMP_PGFULL"
        "r = NVOCMP_NULLPAGE \<longrightarrow> full_from E s k ?q s'"
        using Suc.IH [OF s3(2) inc(2) same3(3)] full_from_cong [OF same3(1,2)] same3(2) by auto
      have "getDstPage_loop E n (Suc k) pg s = (r, s')"
        using run full s3(1) s'(1) inc(1) by (simp add: Let_def)
      moreover have "quiet E s s'"
        using quiet_trans [OF quiet_trans [OF s1(3), of s3] s'(3)] s3(3) by (simp add: quiet_act)
      moreover have "bytes_kept E ((- {tailPage s}) \<times> {0}) s s'"
      proof -
        have "bytes_kept E ((- {tailPage s}) \<times> {0}) s1 s3"
          using s3(5) False unfolding bytes_kept_def by auto
        then show ?thesis
          using bytes_kept_trans [OF bytes_kept_trans [OF kept1 _ order.refl] s'(4)] by simp
      qed
      moreover have "page_state E s' p = NVOCMP_PGFULL" if "page_state E s p = NVOCMP_PGFULL \<or> p = pg" for p
        using that keep [of p] s'(5) s3(4) bytes_keptD [OF s3(5), of 0 p] by (cases "p = pg") (auto simp: page_state_def)
      ultimately show ?thesis
        using s'(2,6) unfolding full_from_Suc by auto
    qed
  qed
qed

end

subsection \<open>Writing with or without compaction\<close>

lemma addItem_compacts:
  assumes dst: "NVOCMP_getDstPage E (7 + len h) s = (NVOCMP_NULLPAGE, s1)" and c: "NVOCMP_compactPage E (7 + len h) s1 = Some (r, s2)"
    and r: "int (7 + len h) \<le> r" and ok: "failW s2 = NVINTF_SUCCESS E" and l: "0 < len h" "len h < 4096"
    and f: "NVOCMP_findItem E (actPage s2) (actOffset s2) h NVOCMP_FINDSTRICT None s2 = Some (err, hdr, i, s3)"
  shows "NVOCMP_addItem E h buf NVOCMP_WRITE s = Some (store_changed E buf (h\<lparr>hpage := hpage hdr, hofs := hofs hdr\<rparr>) s3)"
proof -
  have u: "u16 (NVOCMP_ITEMHDRLEN + len h) = 7 + len h" using l by (simp add: c_arith)
  have nr: "\<not> r < int (7 + len h)" using r by simp
  show ?thesis
    unfolding NVOCMP_addItem_def Let_def u dst prod.case store_changed_def
    using l by (simp only: refl if_True c Option.bind.bind_lunit prod.case nr if_False ok simp_thms f) (simp cong: if_cong)
qed

lemma compactable_cong_flash:
  assumes "same_ram s s'" "flash s' = flash s" "pageInfo s' = pageInfo s"
  shows "compactable E s = compactable E s'" "room_after E s L n = room_after E s' L n"
proof -
  have "fbytes E s = fbytes E s'" "fbyte E s = fbyte E s'" "offset_of s = offset_of s'"
    using assms by (simp_all add: fun_eq_iff fbytes_def fbyte_def offset_of_def)
  moreover have "NVOCMP_readPageHdr E s = NVOCMP_readPageHdr E s'"
    using assms by (simp add: fun_eq_iff NVOCMP_readPageHdr_def NVOCMP_read_def)
  ultimately show "compactable E s = compactable E s'" "room_after E s L n = room_after E s' L n"
    using assms by (simp_all add: compactable_def modes_ok_def states_cached_def page_state_def dst_ready_def same_ram_def NVOCMP_INCPAGE_def
        NVOCMP_ADDPAGE_def room_after_def all_active_def data_pages_def)
qed

context nor_flash
begin

lemma getDstPage_compactable:
  assumes wf: "nv_wf E s L" and c: "compactable E s"
  obtains r s1 where "NVOCMP_getDstPage E n s = (r, s1)" "nv_wf E s1 L" "compactable E s1" "layout_map s1 L = layout_map s L"
    "r = NVOCMP_NULLPAGE \<longleftrightarrow> \<not> has_room E s n" "r \<noteq> NVOCMP_NULLPAGE \<Longrightarrow> r = actPage s1 \<and> act_room E s1 n"
    "r = NVOCMP_NULLPAGE \<Longrightarrow> no_act E s1" "room_after E s1 L m = room_after E s L m"
proof -
  note d = nv_wfD [OF wf]
  note inv = round_inv_wf [OF wf c]
  have s: "actPage s < nvSize s" "failW s = NVINTF_SUCCESS E" "nvSize s \<le> 12"
    using d(1) by (simp_all add: driver_wf_def)
  obtain r s1 where s1: "NVOCMP_getDstPage E n s = (r, s1)" "driver_wf E s1" "pages_wf E s1 L" "same_geo s s1"
    "r = NVOCMP_NULLPAGE \<longleftrightarrow> \<not> has_room E s n" "has_room E s n \<longrightarrow> r = actPage s1 \<and> act_room E s1 n"
    using getDstPage_spec [OF d(1,2), of n] unfolding act_room_def by metis
  have l: "round_inv E s1 L" "quiet E s s1" "bytes_kept E ((- {tailPage s}) \<times> {0}) s s1"
    "r = NVOCMP_NULLPAGE \<longrightarrow> full_from E s (nvSize s) (actPage s) s1"
    using getDstPage_loop_inv [OF inv s(1,2), of n "nvSize s"] s1(1) unfolding NVOCMP_getDstPage_def by auto
  have same: "nvSize s1 = nvSize s" "tailPage s1 = tailPage s" "headPage s1 = headPage s"
    using l(2) by (simp_all add: quiet_def same_handle_def)
  have c1: "compactable E s1"
    using c round_invD(5-7) [OF l(1)] by (simp add: compactable_def same INCPAGE_cong(1) [OF same(1)])
  have full: "no_act E s1" if "r = NVOCMP_NULLPAGE"
    unfolding no_act_def same
  proof (intro allI impI)
    fix p
    assume p: "p < nvSize s" "p \<noteq> tailPage s"
    obtain i where "i < nvSize s" "(NVOCMP_INCPAGE s ^^ i) (actPage s) = p"
      using INCPAGE_reaches [OF s(1) p(1)] by blast
    then show "page_state E s1 p \<noteq> NVOCMP_PGACT"
      using l(4) that p(2) by (auto simp: full_from_def)
  qed
  have "all_active E s1 = all_active E s" "data_pages s1 = data_pages s"
    using bytes_keptD [OF l(3), of 2] same by (simp_all add: all_active_byte fun_eq_iff data_pages_def)
  then have after: "room_after E s1 L m = room_after E s L m"
    by (simp add: room_after_def)
  show thesis
    by (rule that [OF s1(1) _ c1 _ s1(5) _ full after]) (use s1(5,6) nv_wf_geo [OF wf s1(2-4)] in auto)
qed

lemma writes_from_any:
  assumes wf: "nv_wf E s L" and c: "compactable E s" and n: "0 < n" "n \<le> NVOCMP_MAXLEN"
    and room: "has_room E s (7 + n) \<or> room_after E s L (7 + n)"
  obtains s1 L1 where "writes_from E i n buf s s1" "nv_wf E s1 L1" "compactable E s1" "act_room E s1 (7 + n)" "layout_map s1 L1 = layout_map s L"
proof -
  let ?h = "req_hdr i n"
  have l: "0 < len ?h" "len ?h < 4096" "7 + len ?h = 7 + n"
    using n by simp_all
  obtain s0 where acc: "NVOCMP_FLASHACCESS E s = (NVINTF_SUCCESS E, s0)" and wf0: "nv_wf E s0 L"
    and m0: "layout_map s0 L = layout_map s L" and r0: "same_ram s s0" "flash s0 = flash s"
    by (rule FLASHACCESS_wf [OF wf])
  note cong = compactable_cong_flash [OF r0 FLASHACCESS_pageInfo [OF acc]]
  have c0: "compactable E s0" and room0: "has_room E s0 (7 + n) \<or> room_after E s0 L (7 + n)"
    using c room has_room_access [OF r0] cong by simp_all
  obtain r s1 where s1: "NVOCMP_getDstPage E (7 + n) s0 = (r, s1)" "nv_wf E s1 L" "compactable E s1" "layout_map s1 L = layout_map s0 L"
    "r = NVOCMP_NULLPAGE \<longleftrightarrow> \<not> has_room E s0 (7 + n)" "r \<noteq> NVOCMP_NULLPAGE \<longrightarrow> r = actPage s1 \<and> act_room E s1 (7 + n)"
    "r = NVOCMP_NULLPAGE \<longrightarrow> no_act E s1" "room_after E s1 L (7 + n) = room_after E s0 L (7 + n)"
    using getDstPage_compactable [OF wf0 c0, of "7 + n" "7 + n"] by metis
  have ok: "failW s1 = NVINTF_SUCCESS E"
    using nv_wfD(1) [OF s1(2)] by (simp add: driver_wf_def)
  show thesis
  proof (cases "r = NVOCMP_NULLPAGE")
    case False
    have "writes_from E i n buf s s1"
      unfolding writes_from_def using acc addItem_room(2) [OF _ False ok l(1,2), of s0] s1(1) by (auto simp: l(3))
    then show thesis
      using that [OF _ s1(2,3)] False s1(4,6) m0 by simp
  next
    case True
    have "room_after E s1 L (7 + n)"
      using True room0 s1(5,8) by simp
    then obtain k s2 L2 where s2: "NVOCMP_compactPage E (7 + n) s1 = Some (k, s2)" "nv_wf E s2 L2" "compactable E s2"
      "layout_map s2 L2 = layout_map s1 L" "int (7 + n) \<le> k" "page_room E s2 (7 + n) (actPage s2)" "page_state E s2 (actPage s2) = NVOCMP_PGACT"
      using compactPage_wf [OF s1(2,3), of "7 + n"] s1(7) True by (metis add_is_0 zero_neq_numeral)
    have ok2: "failW s2 = NVINTF_SUCCESS E"
      using nv_wfD(1) [OF s2(2)] by (simp add: driver_wf_def)
    have "writes_from E i n buf s s2"
      unfolding writes_from_def
      using acc addItem_compacts [of E ?h s0 s1 k s2] s1(1) True s2(1,5) ok2 n by auto
    moreover have "act_room E s2 (7 + n)"
      using s2(6,7) by (simp add: act_room_def page_room_def)
    ultimately show thesis
      using that [OF _ s2(2,3)] s2(4) s1(4) m0 by simp
  qed
qed

end

subsection \<open>The driver as a key-value store that compacts\<close>

definition nv_storable :: "'f nvs_env \<Rightarrow> 'f nv \<Rightarrow> NVINTF_itemID_t \<Rightarrow> byte list \<Rightarrow> bool" where
  "nv_storable E s i v \<longleftrightarrow> 0 < length v \<and> length v \<le> NVOCMP_MAXLEN \<and>
     (has_room E s (NVOCMP_ITEMHDRLEN + length v) \<or> room_after E s (parsed E s) (NVOCMP_ITEMHDRLEN + length v)) \<and>
     (case nv_map E s (id_of i) of
        None \<Rightarrow> True
      | Some d \<Rightarrow> d = v \<or> length v \<le> length d + 16 \<and> \<not> suffix v d \<and> \<not> suffix d v)"

definition nv_ready :: "'f nvs_env \<Rightarrow> 'f nv \<Rightarrow> bool" where
  "nv_ready E s \<longleftrightarrow> nv_inv E s \<and> compactable E s"

context nor_flash
begin

lemma nv_put_ready:
  assumes inv: "nv_ready E s" and i: "valid_id i" and fits: "nv_storable E s i v"
  shows "\<exists>s'. nv_put E i v s = Some s' \<and> nv_ready E s' \<and> nv_map E s' = (nv_map E s)(id_of i \<mapsto> v)"
proof -
  let ?n = "length v" and ?buf = "(!) v"
  have v: "map ?buf [0..<?n] = v"
    by (rule map_nth)
  have f: "0 < ?n" "?n \<le> NVOCMP_MAXLEN" "has_room E s (7 + ?n) \<or> room_after E s (parsed E s) (7 + ?n)"
    and old: "\<And>d. nv_map E s (id_of i) = Some d \<Longrightarrow> d \<noteq> v \<Longrightarrow> ?n \<le> length d + 16 \<and> \<not> suffix v d \<and> \<not> suffix d v"
    using fits by (auto simp: nv_storable_def split: option.splits)
  note c = inv [unfolded nv_ready_def, THEN conjunct2]
  have wf: "nv_wf E s (parsed E s)"
    using inv nv_inv_wf by (simp add: nv_ready_def)
  obtain s1 L1 where s1: "writes_from E i ?n ?buf s s1" "nv_wf E s1 L1" "compactable E s1" "act_room E s1 (7 + ?n)"
    "layout_map s1 L1 = nv_map E s"
    unfolding nv_map_def by (rule writes_from_any [OF wf c f])
  obtain s' L' where s': "NVOCMP_writeItemApi E i ?n (Some ?buf) s = Some (NVINTF_SUCCESS E, s')" "nv_wf E s' L'"
    "layout_map s' L' = (nv_map E s)(id_of i \<mapsto> v)" "written_from E ?buf ?n s1 s'"
    using write_at [OF s1(2,4) i f(1,2) driver_wf_ready [OF nv_wfD(1) [OF wf]] s1(1), unfolded s1(5) v] old by blast
  have "compactable E s'"
    by (rule written_compactable [OF s'(4) s1(3,2,4)]) (use f(2) in simp)
  then show ?thesis
    using s'(1,3) nv_wf_inv [OF s'(2)] by (simp add: nv_put_def nv_ready_def)
qed

lemma nv_del_ready:
  assumes inv: "nv_ready E s" and i: "valid_id i"
  shows "\<exists>s'. nv_del E i s = Some s' \<and> nv_ready E s' \<and> nv_map E s' = (nv_map E s)(id_of i := None)"
proof -
  have wf: "nv_wf E s (parsed E s)" and c: "compactable E s"
    using inv nv_inv_wf by (simp_all add: nv_ready_def)
  obtain s' L' s1 where s': "NVOCMP_deleteItemApi E i s =
      Some (if layout_map s (parsed E s) (id_of i) = None then NVINTF_NOTFOUND E else NVINTF_SUCCESS E, s')"
    "nv_wf E s' L'" "layout_map s' L' = (layout_map s (parsed E s))(id_of i := None)"
    and s1: "NVOCMP_FLASHACCESS E s = (NVINTF_SUCCESS E, s1)" "marked_from E s1 s'"
    using deleteItemApi_wf [OF wf i] by blast
  obtain s0 where s0: "NVOCMP_FLASHACCESS E s = (NVINTF_SUCCESS E, s0)" "nv_wf E s0 (parsed E s)" "same_ram s s0" "flash s0 = flash s"
    by (rule FLASHACCESS_wf [OF wf])
  have eq: "s0 = s1"
    using s0(1) s1(1) by simp
  have c1: "compactable E s1" and d1: "driver_wf E s1"
    using compactable_cong_flash(1) [OF s0(3,4) FLASHACCESS_pageInfo [OF s0(1)]] c nv_wfD(1) [OF s0(2)] eq by simp_all
  have "compactable E s'"
    using s1(2) unfolding marked_from_def
  proof (elim disjE exE conjE)
    fix q xs it
    assume "q < nvSize s1" "q \<noteq> tailPage s1" "hdr_ofs xs it + 7 \<le> 2048" "s' = NVOCMP_setItemInactive E q (hdr_ofs xs it) s1"
    then show ?thesis
      using setItemInactive_compactable [OF c1 _ driver_wf_region [OF d1], of q xs it] d1 by (simp add: driver_wf_def)
  qed (use c1 in simp)
  then show ?thesis
    using s'(1,3) nv_wf_inv [OF s'(2)] by (simp add: nv_del_def nv_ready_def nv_map_def)
qed

end

sublocale nor_flash \<subseteq> nv: kv_store "nv_ready E" "\<lambda>s i. nv_map E s (id_of i)" valid_id "nv_storable E" "nv_put E" "nv_del E" "nv_get E"
proof
  fix s i v
  assume a: "nv_ready E s" "valid_id i"
  show "\<exists>s'. nv_put E i v s = Some s' \<and> nv_ready E s' \<and>
      (\<lambda>i. nv_map E s' (id_of i)) = (\<lambda>i. nv_map E s (id_of i))(i \<mapsto> v)" if "nv_storable E s i v"
    using nv_put_ready [OF a that] by (elim exE conjE, intro exI conjI) (assumption+, rule ext, simp add: id_of_inj)
  show "\<exists>s'. nv_del E i s = Some s' \<and> nv_ready E s' \<and>
      (\<lambda>i. nv_map E s' (id_of i)) = (\<lambda>i. nv_map E s (id_of i))(i := None)"
    using nv_del_ready [OF a] by (elim exE conjE, intro exI conjI) (assumption+, rule ext, simp add: id_of_inj)
  show "nv_get E s i = nv_map E s (id_of i)"
    using nv_get_ok a by (simp add: nv_ready_def)
qed

context nor_flash
begin

lemma commands_refine:
  assumes "nv_ready E s" and "nv.all_enabled s cs"
  shows "\<exists>s'. nv.run cs s = Some s' \<and> nv_ready E s' \<and>
    (\<lambda>i. nv_map E s' (id_of i)) = fold kv_apply cs (\<lambda>i. nv_map E s (id_of i))"
  by (rule nv.run_ok [OF assms])

end

end
