(* ===== verification/NvExample.thy ===== *)
theory NvExample
  imports NvRestart NvWrite
begin

text \<open>
  A concrete state of the NV driver on the NOR Flash \<open>nor_env\<close>: three pages, the first active and
  empty, the last the destination page; and the state after one item was written. The theorems on
  the API are applied to these states.
\<close>

definition ex_page :: NVOCMP_pageInfo_t where
  "ex_page = zero_pageInfo\<lparr>pi_state := NVOCMP_PGNACT, pi_mode := NVOCMP_PGNORMAL, pi_cycle := 1,
     pi_allActive := NVOCMP_ALLACTIVE, pi_offset := NVOCMP_PGDATAOFS\<rparr>"

definition ex_flash :: "nat \<Rightarrow> byte" where
  "ex_flash a = (if a = 0 then NVOCMP_PGACT else if a = 4096 then NVOCMP_PGXDST else NVOCMP_ERASEDBYTE)"

definition ex_empty :: "(nat \<Rightarrow> byte) nv" where
  "ex_empty =
    \<lparr>flash = ex_flash, failF = NVINTF_SUCCESS nor_env, failW = NVINTF_SUCCESS nor_env, nvSize = 3,
     headPage = 0, tailPage = 2, actPage = 0, forceCompact = False, actOffset = NVOCMP_PGDATAOFS,
     compactInfo = ff_compactInfo, pageInfo = (\<lambda>_. ex_page), voltCheckFptr = None, vcalls = 0,
     gAction = NVOCMP_NORMAL_INIT\<rparr>"

definition ex_id :: NVINTF_itemID_t where
  "ex_id = \<lparr>systemID = 10, itemID = 4, subID = 1\<rparr>"

definition ex_val :: "byte list" where
  "ex_val = [1, 2, 3]"

definition ex_state :: "(nat \<Rightarrow> byte) nv" where
  "ex_state = the (nv_put nor_env ex_id ex_val ex_empty)"

lemma nor_codes:
  "NVINTF_SUCCESS nor_env = 0" "NVINTF_FAILURE nor_env = 1" "NVINTF_CORRUPT nor_env = 2"
  "NVINTF_BADPARAM nor_env = 4" "NVINTF_BADLENGTH nor_env = 5" "NVINTF_BADOFFSET nor_env = 6"
  "NVINTF_NOTFOUND nor_env = 10" "NVINTF_EXIST nor_env = 13" "NVINTF_NOTREADY nor_env = 3"
  by (simp_all add: nor_env_def)

lemma fbyte_nor [simp]: "fbyte nor_env s p x = flash s (2048 * p + x)"
  by (simp add: fbyte_def FLASHOFFSET_eq)

lemma ex_pages: "data_pages ex_empty = [0, 1]"
  by (simp add: data_pages_def ex_empty_def upt_rec)

lemma ex_page_wf: "p < 2 \<Longrightarrow> page_wf nor_env ex_empty p []"
  by (auto simp: page_wf_def items_at_def fbytes_def page_state_def ex_empty_def ex_flash_def ex_page_def
      offset_of_def list_all_iff simp del: upt_rec_numeral)

lemma ex_wf: "nv_wf nor_env ex_empty (\<lambda>_. [])"
  by (simp add: nv_wf_def driver_wf_def pages_wf_def ex_pages ids_distinct_def live_items_def ex_page_wf)
     (simp add: ex_empty_def offset_of_def ex_page_def nor_env_def volt_ok_def)

lemma ex_empty_inv: "nv_inv nor_env ex_empty" and ex_empty_map: "nv_map nor_env ex_empty = Map.empty"
  using nor.nv_wf_inv [OF ex_wf] by (simp_all add: layout_map_def live_items_def ex_pages)

lemma ex_room: "n \<le> 2032 \<Longrightarrow> has_room nor_env ex_empty n"
  by (simp add: has_room_def ex_pages page_room_def page_state_def)
     (simp add: ex_empty_def ex_flash_def offset_of_def ex_page_def)

lemma ex_id_valid: "valid_id ex_id"
  by (simp add: valid_id_def ex_id_def)

lemma ex_fits: "0 < length v \<Longrightarrow> length v \<le> 2025 \<Longrightarrow> nv_fits nor_env ex_empty i v"
  by (simp add: nv_fits_def ex_empty_map ex_room)

lemma ex_state_props:
  "nv_put nor_env ex_id ex_val ex_empty = Some ex_state" "nv_inv nor_env ex_state"
  "nv_map nor_env ex_state = [id_of ex_id \<mapsto> ex_val]"
proof -
  have "nv_fits nor_env ex_empty ex_id ex_val" by (rule ex_fits) (simp_all add: ex_val_def)
  from norf.nv_put_ok [OF ex_empty_inv ex_id_valid this]
  show "nv_put nor_env ex_id ex_val ex_empty = Some ex_state" "nv_inv nor_env ex_state"
    "nv_map nor_env ex_state = [id_of ex_id \<mapsto> ex_val]"
    by (auto simp: ex_state_def ex_empty_map)
qed

subsection \<open>Flash after a loss of power\<close>

text \<open>Twelve pages: the first active with some items, the last the destination page, the others unused.\<close>

definition ex_image :: "nv_item list \<Rightarrow> nat \<Rightarrow> byte list" where
  "ex_image its p =
    (if p = 0 then NVOCMP_PGACT # tl (fresh_hdr 1) @ enc_items nor_env its
     else if p = 11 then NVOCMP_PGXDST # tl (fresh_hdr 1)
     else fresh_hdr 1)"

definition ex_lost :: "nv_item list \<Rightarrow> (nat \<Rightarrow> byte) nv" where
  "ex_lost its = ex_empty\<lparr>failF := NVINTF_NOTREADY nor_env, flash :=
     (\<lambda>a. let bs = ex_image its (a div 2048); x = a mod 2048 in if x < length bs then bs ! x else NVOCMP_ERASEDBYTE)\<rparr>"

definition ex_items :: "nat \<Rightarrow> nv_item list \<Rightarrow> nat \<Rightarrow> nv_item list" where
  "ex_items a its p = (if p = a then its else [])"

definition ex_item :: "byte list \<Rightarrow> nv_item" where
  "ex_item d = \<lparr>it_sysid = 10, it_itemid = 4, it_subid = 1, it_data = d, it_active = True\<rparr>"

lemma ex_boot_size: "boot_size nor_env = 12"
  by (simp add: boot_size_def nor_env_def Let_def u8_def)

lemma ex_boot_env: "boot_env_ok nor_env"
  unfolding boot_env_ok_def ex_boot_size by (simp add: nor_env_def)

lemma ex_lost_byte: "x < 2048 \<Longrightarrow> fbyte nor_env (ex_lost its) p x =
    (if x < length (ex_image its p) then ex_image its p ! x else 0xFF)"
  by (simp add: ex_lost_def Let_def)

lemma fresh_hdr_nth:
  "fresh_hdr 1 ! 0 = 0xFF" "fresh_hdr 1 ! 1 = 1" "fresh_hdr 1 ! 2 = 0x0F" "fresh_hdr 1 ! 3 = 0x96" "fresh_hdr 1 ! 15 = 0x96"
  "fresh_hdr 1 ! 4 = 0xFF" "fresh_hdr 1 ! 5 = 0xFF"
  by (simp_all add: fresh_hdr_def null_compactHdr_def)

lemma ex_image_nth:
  "0 < x \<Longrightarrow> x < 16 \<Longrightarrow> ex_image its p ! x = fresh_hdr 1 ! x" "16 \<le> length (ex_image its p)"
  by (auto simp: ex_image_def nth_append nth_Cons' nth_tl)

lemma ex_lost_state: "page_state nor_env (ex_lost its) p = (if p = 0 then 0x7C else if p = 11 then 0xFE else 0xFF)"
proof -
  have "0 < length (ex_image its p)" using ex_image_nth(2) [of its p] by linarith
  then show ?thesis
    unfolding page_state_def by (simp only: ex_lost_byte) (simp add: ex_image_def fresh_hdr_nth(1))
qed

lemma ex_lost_hdr: "0 < x \<Longrightarrow> x < 16 \<Longrightarrow> fbyte nor_env (ex_lost its) p x = fresh_hdr 1 ! x"
  using ex_image_nth(1) [of x its p] ex_image_nth(2) [of its p] by (subst ex_lost_byte) auto

lemma upt_4: "[0..<4] = [0, 1, 2, 3::nat]"
  by (simp add: upt_rec numeral_eq_Suc)

lemma ex_lost_valid: "hdr_valid nor_env (ex_lost its) p"
proof -
  have b: "fbytes nor_env (ex_lost its) p 0 4 = [page_state nor_env (ex_lost its) p, 1, 0x0F, 0x96]"
    using ex_lost_hdr [of 1 its p] ex_lost_hdr [of 2 its p] ex_lost_hdr [of 3 its p]
    unfolding fbytes_def page_state_def fresh_hdr_nth by (simp add: upt_4 del: fbyte_nor)
  show ?thesis
    unfolding hdr_valid_def norf.readPageHdr_eq b ex_lost_state
    by (simp add: pageHdr_of_def known_state_def Let_def)
qed

lemma ex_lost_page:
  assumes its: "list_all item_ok its" and sz: "16 + items_size its \<le> 2048" and p: "p < 11"
  shows "boot_page nor_env (ex_lost its) p (ex_items 0 its p)"
proof -
  let ?s = "ex_lost its" and ?its = "ex_items 0 its p" let ?o = "16 + items_size ?its"
  have len: "length (ex_image its p) = ?o" using p by (simp add: ex_image_def ex_items_def)
  have o: "?o \<le> 2048" using sz by (simp add: ex_items_def)
  have "fbytes nor_env ?s p 16 ?o = drop 16 (ex_image its p)"
    by (rule nth_equalityI) (use len o in \<open>auto simp: fbytes_def ex_lost_byte simp del: fbyte_nor\<close>)
  also have "\<dots> = enc_items nor_env ?its" using p by (simp add: ex_image_def ex_items_def drop_Cons')
  finally have at: "items_at nor_env ?s p ?its ?o" using its by (simp add: items_at_def ex_items_def)
  have erased: "list_all (\<lambda>b. b = 0xFF) (fbytes nor_env ?s p ?o 2048)"
    unfolding list_all_fbytes using len by (auto simp: ex_lost_byte simp del: fbyte_nor)
  have "fbytes nor_env ?s p 4 8 = [0xFF, 0xFF, fresh_hdr 1 ! 6, fresh_hdr 1 ! 7]"
    using ex_lost_hdr [of 4 its p] ex_lost_hdr [of 5 its p] ex_lost_hdr [of 6 its p] ex_lost_hdr [of 7 its p]
    unfolding fbytes_def fresh_hdr_nth by (simp del: fbyte_nor)
  then have "ch_pageOffset (NVOCMP_getCompactHdr nor_env ?s p THISPAGEHDR) = 0xFFFF"
    by (simp add: NVOCMP_getCompactHdr_def nor.read_eq Let_def of_le16_def)
  moreover have "fbyte nor_env ?s p 15 = 0x96" using ex_lost_hdr [of 15 its p] fresh_hdr_nth by simp
  moreover have "page_state nor_env ?s p \<noteq> 0xFF \<or> ?its = []" "page_state nor_env ?s p \<in> {0xFF, 0x7E, 0x7C, 0x78}"
    using p by (simp_all add: ex_lost_state ex_items_def)
  ultimately show ?thesis
    using ex_lost_valid at o erased by (auto simp: boot_page_def Let_def)
qed

lemma ex_lost_image:
  assumes "list_all item_ok its" and "16 + items_size its \<le> 2048"
  shows "boot_image nor_env (ex_lost its) (ex_items 0 its) 11 0"
  unfolding boot_image_def ex_boot_size
  using ex_lost_page [OF assms] by (auto simp: ex_lost_valid ex_lost_state list_all_iff simp del: upt_rec_numeral)

lemma ex_lost_ready: "failF (ex_lost its) = NVINTF_NOTREADY nor_env" "volt_ok (ex_lost its)"
  by (simp_all add: ex_lost_def ex_empty_def volt_ok_def)

lemma ex_live: "live_items (boot_geo nor_env (ex_lost its) 11) (ex_items 0 xs) = filter it_active xs"
proof -
  have "data_pages (boot_geo nor_env (ex_lost its) 11) = 0 # [1, 2, 3, 4, 5, 6, 7, 8, 9, 10]"
    by (simp add: data_pages_def ex_boot_size upt_rec)
  then show ?thesis by (simp add: live_items_def ex_items_def)
qed

subsection \<open>A running driver with given items\<close>

definition ex_running :: "nv_item list \<Rightarrow> (nat \<Rightarrow> byte) nv" where
  "ex_running its = (ex_lost its)\<lparr>failF := NVINTF_SUCCESS nor_env, nvSize := 12, tailPage := 11,
     actOffset := NVOCMP_PGDATAOFS + items_size its,
     pageInfo := (\<lambda>p. ex_page\<lparr>pi_offset := NVOCMP_PGDATAOFS + items_size (ex_items 0 its p)\<rparr>)\<rparr>"

lemma ex_running_simps:
  "nvSize (ex_running its) = 12" "tailPage (ex_running its) = 11" "actPage (ex_running its) = 0"
  "offset_of (ex_running its) p = 16 + items_size (ex_items 0 its p)"
  "actOffset (ex_running its) = 16 + items_size its" "failF (ex_running its) = 0" "failW (ex_running its) = 0"
  "volt_ok (ex_running its)" "fbyte nor_env (ex_running its) q x = fbyte nor_env (ex_lost its) q x"
  by (simp_all add: ex_running_def ex_lost_def ex_empty_def offset_of_def volt_ok_def nor_codes)

lemma ex_running_wf:
  assumes "list_all item_ok its" and "16 + items_size its \<le> 2048" and "distinct (map it_id (filter it_active its))"
  shows "nv_wf nor_env (ex_running its) (ex_items 0 its)"
proof -
  let ?s = "ex_running its"
  have fl: "flash ?s = flash (ex_lost its)" by (simp add: ex_running_def)
  have "driver_wf nor_env ?s"
    by (simp add: ex_running_simps driver_wf_def ex_items_def nor_codes) (simp add: nor_env_def)
  moreover have "page_wf nor_env ?s p (ex_items 0 its p)" if "p < 11" for p
  proof -
    have "boot_page nor_env ?s p (ex_items 0 its p)"
      using ex_lost_page [OF assms(1,2) that] boot_page_flash(1) [OF fl] by simp
    then show ?thesis by (simp add: boot_page_def page_wf_def Let_def ex_running_simps(4))
  qed
  moreover have "live_items ?s (ex_items 0 its) = live_items (boot_geo nor_env (ex_lost its) 11) (ex_items 0 its)"
    by (rule layout_cong(1)) (simp_all add: ex_running_simps ex_boot_size)
  ultimately show ?thesis
    using assms(3) by (simp add: nv_wf_def pages_wf_def ids_distinct_def ex_live list_all_iff ex_running_simps(1,2))
qed

lemma ex_running_one:
  assumes "0 < length d" and "length d \<le> 100"
  shows "nv_inv nor_env (ex_running [ex_item d])" and "nv_map nor_env (ex_running [ex_item d]) = [id_of ex_id \<mapsto> d]"
    and "n \<le> 2032 \<Longrightarrow> has_room nor_env (ex_running [ex_item d]) n"
proof -
  let ?s = "ex_running [ex_item d]"
  have wf: "nv_wf nor_env ?s (ex_items 0 [ex_item d])"
    by (rule ex_running_wf) (use assms in \<open>simp_all add: ex_item_def item_ok_def item_size_def\<close>)
  show "nv_inv nor_env ?s" by (rule nor.nv_wf_inv(1) [OF wf])
  have "live_items ?s (ex_items 0 [ex_item d]) = live_items (boot_geo nor_env (ex_lost [ex_item d]) 11) (ex_items 0 [ex_item d])"
    by (rule layout_cong(1)) (simp_all add: ex_running_simps ex_boot_size)
  then show "nv_map nor_env ?s = [id_of ex_id \<mapsto> d]"
    by (simp add: nor.nv_wf_inv(2) [OF wf] layout_map_def ex_live) (simp add: ex_item_def it_id_def id_of_def ex_id_def)
  have "page_state nor_env ?s 1 = 0xFF" using ex_lost_state [of "[ex_item d]" 1] by (simp add: page_state_def ex_running_simps(9) del: fbyte_nor)
  then have "page_room nor_env ?s n 1" if "n \<le> 2032"
    using that by (simp add: page_room_def ex_running_simps(4) ex_items_def)
  then show "n \<le> 2032 \<Longrightarrow> has_room nor_env ?s n"
    unfolding has_room_def list_ex_iff using ex_running_simps(1,2) [of "[ex_item d]"] by (auto intro!: bexI [of _ 1])
qed

subsection \<open>A driver with a page to compact\<close>

text \<open>All pages are full, and the flag of the first page says that one of its items is not active.\<close>

definition ex_dirty :: "nv_item list \<Rightarrow> (nat \<Rightarrow> byte) nv" where
  "ex_dirty its = (ex_running its)\<lparr>
     flash := (\<lambda>a. if a = 2 then 0x0C else if a mod 2048 = 0 \<and> a div 2048 < 11 then NVOCMP_PGFULL else flash (ex_running its) a),
     pageInfo := (\<lambda>p. (pageInfo (ex_running its) p)\<lparr>pi_state := (if p < 11 then NVOCMP_PGFULL else NVOCMP_PGXDST)\<rparr>)\<rparr>"

lemma ex_dirty_simps:
  "nvSize (ex_dirty its) = 12" "tailPage (ex_dirty its) = 11" "headPage (ex_dirty its) = 0" "offset_of (ex_dirty its) p = offset_of (ex_running its) p"
  "0 < x \<Longrightarrow> 0 < p \<or> x \<noteq> 2 \<Longrightarrow> x < 2048 \<Longrightarrow> fbyte nor_env (ex_dirty its) p x = fbyte nor_env (ex_running its) p x"
  "fbyte nor_env (ex_dirty its) 0 2 = 0x0C"
proof -
  assume x: "0 < x" "0 < p \<or> x \<noteq> 2" "x < 2048"
  then have "2048 * p + x \<noteq> 2"
    by (cases p) simp_all
  moreover have "(2048 * p + x) mod 2048 = x"
    using x(3) by simp
  ultimately show "fbyte nor_env (ex_dirty its) p x = fbyte nor_env (ex_running its) p x"
    using x(1) by (simp add: ex_dirty_def)
qed (simp_all add: ex_dirty_def ex_running_def ex_lost_def ex_empty_def offset_of_def)

lemma ex_dirty_state: "page_state nor_env (ex_dirty its) p = (if p < 11 then 0x78 else if p = 11 then 0xFE else 0xFF)"
proof -
  have "page_state nor_env (ex_dirty its) p = (if p < 11 then 0x78 else page_state nor_env (ex_running its) p)"
    by (simp add: page_state_def ex_dirty_def)
  then show ?thesis
    using ex_lost_state [of its p] by (simp add: page_state_def ex_running_simps(9) del: fbyte_nor)
qed

lemma ex_dirty_wf:
  assumes "list_all item_ok its" and "16 + items_size its \<le> 2048" and "distinct (map it_id (filter it_active its))"
  shows "nv_wf nor_env (ex_dirty its) (ex_items 0 its)"
proof -
  note wf = ex_running_wf [OF assms, unfolded nv_wf_def]
  have "driver_wf nor_env (ex_dirty its)"
    using wf by (simp add: driver_wf_def ex_dirty_simps(4)) (simp add: ex_dirty_def volt_ok_def)
  moreover have "page_wf nor_env (ex_dirty its) p (ex_items 0 its p)" if p: "p < 11" for p
  proof -
    have pw: "page_wf nor_env (ex_running its) p (ex_items 0 its p)"
      using wf p by (simp add: pages_wf_def list_all_iff ex_running_simps)
    have "items_at nor_env (ex_dirty its) p (ex_items 0 its p) (offset_of (ex_running its) p)"
      by (rule items_at_cong [of nor_env "ex_running its"]) (use pw ex_dirty_simps(5) in \<open>auto simp: page_wf_def simp del: fbyte_nor\<close>)
    then show ?thesis
      using pw p by (simp add: page_wf_def ex_dirty_simps(4) ex_dirty_state)
  qed
  moreover have "live_items (ex_dirty its) (ex_items 0 its) = live_items (ex_running its) (ex_items 0 its)"
    by (rule layout_cong(1)) (simp_all add: ex_dirty_simps ex_running_simps)
  ultimately show ?thesis
    using wf by (simp add: nv_wf_def pages_wf_def ids_distinct_def list_all_iff ex_dirty_simps(1,2))
qed

lemma ex_dirty_hdr: "0 < x \<Longrightarrow> x < 16 \<Longrightarrow> 0 < p \<or> x \<noteq> 2 \<Longrightarrow> fbyte nor_env (ex_dirty its) p x = fresh_hdr 1 ! x"
  using ex_dirty_simps(5) [of x p its] ex_lost_hdr [of x its p] by (simp add: ex_running_simps(9) del: fbyte_nor)

lemma ex_dirty_compactable: "compactable nor_env (ex_dirty its)"
proof -
  have "pi_state (pageInfo (ex_dirty its) p) = page_state nor_env (ex_dirty its) p" if "p < 12" for p
    using that unfolding ex_dirty_state by (auto simp: ex_dirty_def)
  moreover have "modes_ok nor_env (ex_dirty its)"
    using ex_dirty_hdr [of 6 _ its] by (simp add: modes_ok_def fresh_hdr_def null_compactHdr_def del: fbyte_nor)
  moreover have "dst_ready nor_env (ex_dirty its) 11"
  proof -
    have "fbytes nor_env (ex_dirty its) 11 a b = take (b - a) (drop a (fresh_hdr 1))" if "0 < a" "a \<le> b" "b \<le> 16" for a b
      by (rule nth_equalityI) (use that ex_dirty_hdr [of _ 11 its] in \<open>auto simp: fbytes_def fresh_hdr_def null_compactHdr_def simp del: fbyte_nor\<close>)
    from this [of 8 12] this [of 12 16]
    have "fbytes nor_env (ex_dirty its) 11 8 12 = null_compactHdr" "fbytes nor_env (ex_dirty its) 11 12 16 = null_compactHdr"
      by (simp_all add: fresh_hdr_def null_compactHdr_def)
    moreover have "fbyte nor_env (ex_dirty its) 11 x = 0xFF" if "16 \<le> x" "x < 2048" for x
      using that ex_dirty_simps(5) [of x 11 its]
      by (simp add: ex_running_simps(9) ex_lost_byte ex_image_def del: fbyte_nor)
    ultimately show ?thesis
      using ex_dirty_state [of its 11] ex_dirty_hdr [of 6 11 its]
      by (simp add: dst_ready_def ex_dirty_simps(4) ex_running_simps(4) ex_items_def list_all_fbytes page_state_def fresh_hdr_def null_compactHdr_def del: fbyte_nor)
  qed
  ultimately show ?thesis
    by (simp add: compactable_def states_cached_def ex_dirty_simps(1-3) NVOCMP_INCPAGE_def NVOCMP_ADDPAGE_def)
qed

lemma ex_dirty_two:
  defines "its \<equiv> [(ex_item [1, 2])\<lparr>it_active := False\<rparr>, ex_item [3]]"
  shows "nv_inv nor_env (ex_dirty its)" "nv_map nor_env (ex_dirty its) = [id_of ex_id \<mapsto> [3]]"
    "n \<le> 2024 \<Longrightarrow> room_after nor_env (ex_dirty its) (parsed nor_env (ex_dirty its)) n"
proof -
  let ?s = "ex_dirty its"
  have ok: "list_all item_ok its" "16 + items_size its \<le> 2048" "distinct (map it_id (filter it_active its))"
    by (simp_all add: its_def ex_item_def item_ok_def item_size_def)
  note wf = ex_dirty_wf [OF ok]
  show "nv_inv nor_env ?s"
    by (rule nor.nv_wf_inv(1) [OF wf])
  have "live_items ?s (ex_items 0 its) = live_items (boot_geo nor_env (ex_lost its) 11) (ex_items 0 its)"
    by (rule layout_cong(1)) (simp_all add: ex_dirty_simps ex_boot_size)
  then have "live_items ?s (ex_items 0 its) = [ex_item [3]]"
    unfolding ex_live by (simp add: its_def ex_item_def)
  then show "nv_map nor_env ?s = [id_of ex_id \<mapsto> [3]]"
    by (simp add: nor.nv_wf_inv(2) [OF wf] layout_map_def) (simp add: ex_item_def it_id_def id_of_def ex_id_def)
  have page: "page_wf nor_env ?s 0 its"
    using wf pages_wfD [of nor_env ?s "ex_items 0 its" 0] by (simp add: nv_wf_def ex_dirty_simps(1,2) ex_items_def)
  then have "parsed nor_env ?s 0 = its"
    using nor.parse_items_at [of ?s 0 its] by (simp add: parsed_def page_wf_def)
  moreover have "\<not> all_active nor_env ?s 0"
    unfolding norf.all_active_byte by (simp only: ex_dirty_simps(6)) simp
  moreover have "fits_after n its" if "n \<le> 2024"
    using that by (simp add: fits_after_def its_def ex_item_def item_size_def)
  ultimately show "room_after nor_env ?s (parsed nor_env ?s) n" if "n \<le> 2024"
    using that unfolding room_after_def list_ex_iff by (intro bexI [of _ 0]) (simp_all add: ex_dirty_simps(1,2))
qed

lemma ex_dirty_full: "\<not> has_room nor_env (ex_dirty its) n"
  by (simp add: has_room_def list_ex_iff page_room_def ex_dirty_state ex_dirty_simps(1,2))

end
