(* ===== verification/NvSearch.thy ===== *)
theory NvSearch
  imports NvStore
begin

text \<open>
  The search with a comparison of contents (\<^verbatim>\<open>NVOCMP_FINDCONTENT\<close> with an item info): each item whose identifier matches is read into the buffer of the
  caller, and the search ends at the newest one that has the given bytes at the given offset.
\<close>

text \<open>The part of the item that is compared lies in the part that is read.\<close>

definition info_ok :: "NVOCMP_itemInfo_t option \<Rightarrow> bool" where
  "info_ok info = (case info of None \<Rightarrow> True | Some i \<Rightarrow> coff i + length (cBuf i) \<le> rlength i)"

text \<open>The items that the comparison accepts: those with enough bytes to be read, which hold the bytes looked for.\<close>

definition info_matches :: "nat \<Rightarrow> NVOCMP_itemInfo_t option \<Rightarrow> nv_item \<Rightarrow> bool" where
  "info_matches flag info it =
    (case info of
       None \<Rightarrow> True
     | Some i \<Rightarrow> flag AND 0xF0 = NVOCMP_FINDCONTENT \<longrightarrow>
         rlength i \<le> length (it_data it) \<and> take (length (cBuf i)) (drop (coff i) (it_data it)) = cBuf i)"

text \<open>
  What the search does to the item info: only the buffer changes, and only in a search for contents; when an item is found, the buffer has its first bytes.
\<close>

definition info_result :: "nat \<Rightarrow> NVOCMP_itemInfo_t option \<Rightarrow> nv_item option \<Rightarrow> NVOCMP_itemInfo_t option \<Rightarrow> bool" where
  "info_result flag info found info' =
    (case info of
       None \<Rightarrow> info' = None
     | Some i \<Rightarrow>
         if flag AND 0xF0 = NVOCMP_FINDCONTENT
         then (\<exists>r. info' = Some (i\<lparr>rBuf := r\<rparr>) \<and> (\<forall>it. found = Some it \<longrightarrow> map r [0..<rlength i] = take (rlength i) (it_data it)))
         else info' = info)"

lemma info_result_None [simp]: "info_result flag None f info' \<longleftrightarrow> info' = None"
  by (simp add: info_result_def)

lemma info_result_refl: "info_result flag info None info"
  by (cases info) (auto simp: info_result_def intro: exI [of _ "rBuf (the info)"])

lemma info_result_trans: "info_result flag info None info1 \<Longrightarrow> info_result flag info1 f info2 \<Longrightarrow> info_result flag info f info2"
  by (auto simp: info_result_def split: option.splits if_splits)

lemma info_result_same:
  assumes "info_result flag info f info'"
  shows "info_ok info' = info_ok info" "info_matches flag info' = info_matches flag info"
  using assms by (auto simp: info_result_def info_ok_def info_matches_def fun_eq_iff split: option.splits if_splits)

lemma map_mem_write: "a + n \<le> length bs \<Longrightarrow> map (mem_write bs m) [a..<a + n] = take n (drop a bs)"
  by (rule nth_equalityI) (auto simp: mem_write_def)

context nvs
begin

lemma content_match_stored:
  assumes at: "item_at E s pg ofs it" and small: "ofs + item_size it \<le> 2048" and h: "h = ofs + length (it_data it)" and ok: "info_ok info"
  shows "\<exists>info'. content_match E s flag (stored_hdr E pg h it) info = (info_matches flag info it, info') \<and>
    info_result flag info (if info_matches flag info it then Some it else None) info'"
proof (cases info)
  case None
  then show ?thesis
    by (simp add: content_match_def info_matches_def)
next
  case (Some i)
  have r: "NVOCMP_readItem E s (stored_hdr E pg h it) 0 (rlength i) =
    (if rlength i \<le> length (it_data it) then (NVINTF_SUCCESS E, take (rlength i) (it_data it)) else (NVINTF_BADLENGTH E, []))"
    using readItem_at [OF at small _ h, of 0 "rlength i"] small by auto
  show ?thesis
  proof (cases "flag AND 0xF0 = NVOCMP_FINDCONTENT \<and> rlength i \<le> length (it_data it)")
    case True
    let ?bs = "take (rlength i) (it_data it)" and ?m = "mem_write (take (rlength i) (it_data it)) (rBuf i)"
    have le: "coff i + length (cBuf i) \<le> rlength i"
      using ok Some by (simp add: info_ok_def)
    have "map ?m [coff i..<coff i + length (cBuf i)] = take (length (cBuf i)) (drop (coff i) (it_data it))"
      using True le by (subst map_mem_write) (simp_all add: drop_take)
    moreover have "map ?m [0..<rlength i] = ?bs"
      using map_mem_write [of 0 "rlength i" ?bs] True by simp
    ultimately show ?thesis
      using True by (auto simp: Some content_match_def r info_matches_def info_result_def Let_def)
  next
    case False
    have "NVINTF_BADLENGTH E \<noteq> NVINTF_SUCCESS E"
      using codes_distinct by auto
    then show ?thesis
      using False info_result_refl [of flag info] by (auto simp: Some content_match_def r info_matches_def info_result_def)
  qed
qed

lemma scan_contents:
  assumes "hdr_ok h" and "flag AND 0x0F \<le> 3"
  shows "items_at E s pg its ofs \<Longrightarrow> ofs \<le> 2048 \<Longrightarrow> info_ok info \<Longrightarrow>
    \<exists>info'. findItem_scan E s pg h flag info ofs =
      (case newest (\<lambda>it. item_matches flag h it \<and> info_matches flag info it) its of
         None \<Rightarrow> PageDone info'
       | Some (xs, it) \<Rightarrow> Found (stored_hdr E pg (hdr_ofs xs it) it) info') \<and>
      info_result flag info (map_option snd (newest (\<lambda>it. item_matches flag h it \<and> info_matches flag info it) its)) info'"
proof (induction its arbitrary: ofs info rule: rev_induct)
  case Nil
  then show ?case
    by (subst findItem_scan.simps) (simp add: items_at_def info_result_refl)
next
  case (snoc it xs)
  let ?l = "length (it_data it)" and ?b = "16 + items_size xs"
  let ?P = "\<lambda>it. item_matches flag h it \<and> info_matches flag info it"
  define n where "n = ?b + ?l"
  have at: "item_at E s pg ?b it" and xs: "items_at E s pg xs ?b" and ofs: "ofs = n + 7" and small: "?b + item_size it \<le> 2048"
    using snoc.prems by (auto simp: items_at_snoc item_size_def n_def)
  have n: "n - ?l = ?b" "?l + 16 \<le> n" by (simp_all add: n_def)
  have ok: "item_ok it" using at by (simp add: item_at_def)
  have hd: "NVOCMP_readHeader E s pg n = stored_hdr E pg n it"
    by (rule readHeader_at [OF at n_def])
  have m: "it_active it \<Longrightarrow> find_match flag h (stored_hdr E pg n it) = Some (item_matches flag h it)"
    by (rule find_match_stored [OF ok assms])
  have na: "\<not> it_active it \<Longrightarrow> \<not> item_matches flag h it"
    by (simp add: item_matches_def)
  have f: "stats (stored_hdr E pg n it) AND 4 \<noteq> 0" "len (stored_hdr E pg n it) = ?l"
    by (simp_all add: stored_hdr_def)
  obtain i where i: "content_match E s flag (stored_hdr E pg n it) info = (info_matches flag info it, i)"
    "info_result flag info (if info_matches flag info it then Some it else None) i"
    using content_match_stored [OF at small n_def snoc.prems(3)] by blast
  define j where "j = (if item_matches flag h it then i else info)"
  have j: "info_result flag info None j" if "\<not> ?P it"
    using that i(2) by (auto simp: j_def info_result_refl)
  have step: "findItem_scan E s pg h flag info ofs = (if ?P it then Found (stored_hdr E pg n it) i else findItem_scan E s pg h flag j ?b)"
    using m na n i(1)
    by (subst findItem_scan.simps) (auto simp: ofs hd Let_def item_live_stored f j_def n_def [symmetric])
  show ?case
  proof (cases "?P it")
    case True
    then show ?thesis
      using step i(2) by (auto simp: hdr_ofs_def n_def)
  next
    case False
    have "info_ok j" "info_matches flag j = info_matches flag info"
      using info_result_same [OF j [OF False]] snoc.prems(3) by simp_all
    then show ?thesis
      using snoc.IH [OF xs, of j] small step False info_result_trans [OF j [OF False]] by auto
  qed
qed

text \<open>The search over the pages; it returns, and it does not change the state.\<close>

lemma findItem_loop_contents:
  assumes h: "hdr_ok h" and flag: "flag AND 0x0F \<le> 3"
    and L: "\<And>q. q < nvSize s \<Longrightarrow> q \<noteq> tailPage s \<Longrightarrow> items_at E s q (L q) (offset_of s q) \<and> offset_of s q \<le> 2048"
    and P: "P = (\<lambda>it. item_matches flag h it \<and> info_matches flag info it)"
  shows "n + k = nvSize s \<Longrightarrow> p < nvSize s \<Longrightarrow> (p \<noteq> tailPage s \<Longrightarrow> items_at E s p its ofs \<and> ofs \<le> 2048) \<Longrightarrow>
    info_ok j \<Longrightarrow> info_result flag info None j \<Longrightarrow>
    \<exists>info'. findItem_loop E h flag p ofs n j s =
      Some (case find_in s L P k p its of
              None \<Rightarrow> (NVINTF_NOTFOUND E, h\<lparr>hofs := 0\<rparr>, info', s)
            | Some (q, xs, it) \<Rightarrow> (NVINTF_SUCCESS E, stored_hdr E q (hdr_ofs xs it) it, info', s)) \<and>
      info_result flag info (map_option (\<lambda>(q, xs, it). it) (find_in s L P k p its)) info'"
proof (induction k arbitrary: n p its ofs j)
  case 0
  then show ?case
    by (subst findItem_loop.simps) simp
next
  case (Suc k)
  let ?q = "NVOCMP_DECPAGE s p"
  have q: "?q < nvSize s" using Suc.prems by (simp add: NVOCMP_DECPAGE_def NVOCMP_ADDPAGE_def)
  have P_j: "(\<lambda>it. item_matches flag h it \<and> info_matches flag j it) = P"
    using info_result_same(2) [OF Suc.prems(5)] by (simp add: P)
  define scan where "scan = (if p = tailPage s then PageDone j else findItem_scan E s p h flag j ofs)"
  define found where "found = (if p = tailPage s then None else newest P its)"
  obtain j' where j': "scan = (case found of None \<Rightarrow> PageDone j' | Some (xs, it) \<Rightarrow> Found (stored_hdr E p (hdr_ofs xs it) it) j')"
    "info_result flag j (map_option snd found) j'"
  proof (cases "p = tailPage s")
    case True
    then show ?thesis
      using that [of j] info_result_refl by (simp add: scan_def found_def)
  next
    case False
    then show ?thesis
      using scan_contents [OF h flag, of s p its ofs j] Suc.prems(3,4) that by (auto simp: scan_def found_def P_j)
  qed
  have loop: "findItem_loop E h flag p ofs n j s =
      (case scan of Found iHdr i \<Rightarrow> Some (NVINTF_SUCCESS E, iHdr, i, s)
       | PageDone i \<Rightarrow> findItem_loop E h flag ?q (offset_of s ?q) (n + 1) i s | _ \<Rightarrow> findItem_loop E h flag p ofs n j s)"
    using Suc.prems(1) j'(1) by (subst findItem_loop.simps) (auto simp: Let_def scan_def [symmetric] split: option.splits)
  have find: "find_in s L P (Suc k) p its = (case found of Some (xs, it) \<Rightarrow> Some (p, xs, it) | None \<Rightarrow> find_in s L P k ?q (L ?q))"
    by (simp add: found_def)
  show ?case
  proof (cases found)
    case None
    then have i: "info_result flag info None j'"
      using info_result_trans [OF Suc.prems(5)] j'(2) by simp
    have "info_ok j'"
      using info_result_same(1) [OF j'(2)] Suc.prems(4) by simp
    then show ?thesis
      using Suc.IH [of "n + 1" ?q "L ?q" "offset_of s ?q" j'] Suc.prems(1) q L [OF q] i j'(1) None loop find by auto
  next
    case (Some x)
    then show ?thesis
      using loop j' find info_result_trans [OF Suc.prems(5)] by (auto split: prod.splits)
  qed
qed

text \<open>A search from the newest item of the active page of a store with the invariant.\<close>

lemma findItem_contents:
  assumes inv: "nv_inv E s" and h: "hdr_ok h" and flag: "flag AND 0x0F \<le> 3" and info: "info_ok info"
    and P: "P = (\<lambda>it. item_matches flag h it \<and> info_matches flag info it)"
  shows "\<exists>info'. NVOCMP_findItem E (actPage s) (actOffset s) h flag info s =
      Some (case find_in s (parsed E s) P (nvSize s) (actPage s) (parsed E s (actPage s)) of
              None \<Rightarrow> (NVINTF_NOTFOUND E, h\<lparr>hofs := 0\<rparr>, info', s)
            | Some (q, xs, it) \<Rightarrow> (NVINTF_SUCCESS E, stored_hdr E q (hdr_ofs xs it) it, info', s)) \<and>
      info_result flag info (map_option (\<lambda>(q, xs, it). it) (find_in s (parsed E s) P (nvSize s) (actPage s) (parsed E s (actPage s)))) info'"
proof -
  note wf = nv_inv_wf [OF inv]
  have act: "actPage s < nvSize s" "actPage s \<noteq> tailPage s" "actOffset s = offset_of s (actPage s)"
    using nv_wfD(1) [OF wf] by (simp_all add: driver_wf_def)
  have L: "items_at E s q (parsed E s q) (offset_of s q) \<and> offset_of s q \<le> 2048" if "q < nvSize s" "q \<noteq> tailPage s" for q
    using pages_wfD [OF nv_wfD(2) [OF wf] that] by (simp add: page_wf_def)
  show ?thesis
    unfolding NVOCMP_findItem_def
    by (rule findItem_loop_contents [OF h flag L P]) (use act L info info_result_refl in auto)
qed

end

end
