(* ===== verification/RamStorage.thy ===== *)
theory RamStorage
  imports Prelude KvStore "HOL-Library.Monad_Syntax"
begin

text \<open>
  The settings store in RAM of the NXP platforms (\<^verbatim>\<open>src/platform/nxp/common/ram_storage.c\<close>): packed blocks
  of a key and a value in one buffer. The first part translates the operations; the second shows that
  they implement a list of key and value pairs, and with distinct keys a key-value store.

  A call returns \<open>None\<close> when it does not return (a loop that does not end, a lock that is never granted),
  \<open>Some (Fault e)\<close> when an assertion fails or memory outside the buffer is accessed, and
  \<open>Some (Done x)\<close> otherwise. The OS abstraction layer and the file system are parameters. The processor is
  little-endian.
\<close>

subsection \<open>Data\<close>

datatype rsError = RS_ERROR_NONE | RS_ERROR_NOT_FOUND | RS_ERROR_NO_BUFS | RS_ERROR_WRONG_ARG

record settingsBlock =
  keyBytes :: "byte list"
  keyBytesLen :: nat
  block_length :: nat

text \<open>The descriptor of the caller, with the buffer it points to and the static mutex of the file.\<close>

record 'm ramBufferDescriptor =
  ramBufferLen :: nat
  ramBufferMaxLen :: nat
  pRamBuffer :: "byte list"
  mRamStorageMutexId :: 'm

text \<open>
  Whether assertions are compiled in, and the mutex of the OS abstraction layer: taking it, waiting for
  ever (\<open>None\<close> when it is never granted), giving it back, and a new one.
\<close>

record 'm rs_env =
  asserts :: bool
  mutex_lock :: "'m \<Rightarrow> 'm option"
  mutex_unlock :: "'m \<Rightarrow> 'm"
  mutex_create :: 'm

datatype rs_fault = AssertFail | OutOfBounds

datatype 'a outcome = Done 'a | Fault rs_fault

definition KEY_BYTE_MAX_SIZE :: nat where [simp]: "KEY_BYTE_MAX_SIZE = 28"
definition sizeof_settingsBlock :: nat where [simp]: "sizeof_settingsBlock = 31"
definition sizeof_bufferIdleWriteToFlash :: nat where [simp]: "sizeof_bufferIdleWriteToFlash = 20000"

definition and_then :: "'a outcome option \<Rightarrow> ('a \<Rightarrow> 'b outcome option) \<Rightarrow> 'b outcome option" where
  "and_then m f = (case m of None \<Rightarrow> None | Some (Fault e) \<Rightarrow> Some (Fault e) | Some (Done x) \<Rightarrow> f x)"

definition rs_assert :: "'m rs_env \<Rightarrow> bool \<Rightarrow> 'a outcome option \<Rightarrow> 'a outcome option" where
  "rs_assert E c k = (if asserts E \<and> \<not> c then Some (Fault AssertFail) else k)"

definition OSA_lock :: "'m rs_env \<Rightarrow> 'm ramBufferDescriptor \<Rightarrow> 'm ramBufferDescriptor outcome option" where
  "OSA_lock E b = map_option (\<lambda>m. Done (b\<lparr>mRamStorageMutexId := m\<rparr>)) (mutex_lock E (mRamStorageMutexId b))"

definition OSA_unlock :: "'m rs_env \<Rightarrow> 'm ramBufferDescriptor \<Rightarrow> 'm ramBufferDescriptor" where
  "OSA_unlock E b = b\<lparr>mRamStorageMutexId := mutex_unlock E (mRamStorageMutexId b)\<rparr>"

text \<open>Accesses to the buffer: a block, a part, \<^verbatim>\<open>memcpy\<close> to it and \<^verbatim>\<open>memmove\<close> in it.\<close>

definition block_at :: "byte list \<Rightarrow> nat \<Rightarrow> settingsBlock option" where
  "block_at buf i =
    (if i + sizeof_settingsBlock \<le> length buf
     then Some \<lparr>keyBytes = take 28 (drop i buf), keyBytesLen = unat (buf ! (i + 28)),
                block_length = of_le16 (take 2 (drop (i + 29) buf))\<rparr>
     else None)"

definition buf_read :: "byte list \<Rightarrow> nat \<Rightarrow> nat \<Rightarrow> byte list outcome option" where
  "buf_read buf i n = Some (if i + n \<le> length buf then Done (take n (drop i buf)) else Fault OutOfBounds)"

definition buf_write :: "nat \<Rightarrow> byte list \<Rightarrow> byte list \<Rightarrow> byte list outcome option" where
  "buf_write i bs buf = Some (if i + length bs \<le> length buf then Done (list_write i bs buf) else Fault OutOfBounds)"

definition key_matches :: "byte list \<Rightarrow> settingsBlock \<Rightarrow> bool" where
  "key_matches pAKey blk \<longleftrightarrow> keyBytesLen blk = length pAKey \<and> take (length pAKey) (keyBytes blk) = pAKey"

subsection \<open>Operations\<close>

definition ramStorageAdd ::
  "'m rs_env \<Rightarrow> byte list \<Rightarrow> byte list \<Rightarrow> 'm ramBufferDescriptor \<Rightarrow> (rsError \<times> 'm ramBufferDescriptor) outcome option" where
  "ramStorageAdd E pAKey aValue b =
    (let newBlockLength = u16 (sizeof_settingsBlock + length aValue)
     in and_then (OSA_lock E b) (\<lambda>b.
          if ramBufferLen b + newBlockLength \<le> ramBufferMaxLen b then
            (let n = ramBufferLen b
             in and_then (buf_write n (replicate sizeof_settingsBlock 0) (pRamBuffer b)) (\<lambda>buf.
                and_then (buf_write n pAKey buf) (\<lambda>buf.
                and_then (buf_write (n + 28) [of_nat (length pAKey)] buf) (\<lambda>buf.
                and_then (buf_write (n + 29) (le16 (length aValue)) buf) (\<lambda>buf.
                and_then (buf_write (n + sizeof_settingsBlock) aValue buf) (\<lambda>buf.
                  let b = b\<lparr>pRamBuffer := buf, ramBufferLen := u16 (n + newBlockLength)\<rparr>
                  in rs_assert E (ramBufferLen b \<le> ramBufferMaxLen b)
                       (Some (Done (RS_ERROR_NONE, OSA_unlock E b)))))))))
          else rs_assert E False (Some (Done (RS_ERROR_NO_BUFS, OSA_unlock E b)))))"

text \<open>The search of \<^verbatim>\<open>ramStorageGet\<close>: the offset and the block of the entry with the index.\<close>

partial_function (option) get_loop ::
  "'m rs_env \<Rightarrow> 'm ramBufferDescriptor \<Rightarrow> byte list \<Rightarrow> int \<Rightarrow> nat \<Rightarrow> int \<Rightarrow> (nat \<times> settingsBlock) option outcome option" where
  "get_loop E b pAKey aIndex i currentIndex =
    (if i < ramBufferLen b then
       (case block_at (pRamBuffer b) i of
          None \<Rightarrow> Some (Fault OutOfBounds)
        | Some blk \<Rightarrow>
            if asserts E \<and> \<not> block_length blk \<le> ramBufferMaxLen b then Some (Fault AssertFail)
            else if key_matches pAKey blk \<and> currentIndex = aIndex then Some (Done (Some (i, blk)))
            else get_loop E b pAKey aIndex (u16 (i + sizeof_settingsBlock + block_length blk))
                   (if key_matches pAKey blk then currentIndex + 1 else currentIndex))
     else Some (Done None))"

text \<open>
  \<^verbatim>\<open>ramStorageGet\<close>: \<open>hasValue\<close> is whether \<^verbatim>\<open>aValue\<close> is not a null pointer, \<open>aValueLength\<close> the size of the
  caller's buffer if that pointer is not null. The result is the error, the bytes copied to \<^verbatim>\<open>aValue\<close>
  if any, and the new \<^verbatim>\<open>*aValueLength\<close>.
\<close>

definition ramStorageGet ::
  "'m rs_env \<Rightarrow> byte list \<Rightarrow> int \<Rightarrow> bool \<Rightarrow> nat option \<Rightarrow> 'm ramBufferDescriptor \<Rightarrow>
   (rsError \<times> byte list option \<times> nat option \<times> 'm ramBufferDescriptor) outcome option" where
  "ramStorageGet E pAKey aIndex hasValue aValueLength b =
    (if length pAKey \<le> KEY_BYTE_MAX_SIZE then
       and_then (OSA_lock E b) (\<lambda>b.
       and_then (get_loop E b pAKey aIndex 0 0) (\<lambda>r.
         case r of
           None \<Rightarrow> Some (Done (RS_ERROR_NOT_FOUND, None, map_option (\<lambda>_. 0) aValueLength, OSA_unlock E b))
         | Some (i, blk) \<Rightarrow>
             (let valueLength = block_length blk
              in case (if hasValue then aValueLength else None) of
                   None \<Rightarrow> Some (Done (RS_ERROR_NONE, None, map_option (\<lambda>_. valueLength) aValueLength, OSA_unlock E b))
                 | Some n \<Rightarrow>
                     and_then (buf_read (pRamBuffer b) (i + sizeof_settingsBlock)
                                 (if n < valueLength then n else valueLength)) (\<lambda>bs.
                       Some (Done (RS_ERROR_NONE, Some bs, Some valueLength, OSA_unlock E b))))))
     else Some (Done (RS_ERROR_WRONG_ARG, None, map_option (\<lambda>_. 0) aValueLength, b)))"

text \<open>Removing the block at \<open>i\<close>, as in \<^verbatim>\<open>ramStorageSet\<close> and \<^verbatim>\<open>ramStorageDelete\<close>.\<close>

definition remove_block :: "'m rs_env \<Rightarrow> nat \<Rightarrow> nat \<Rightarrow> 'm ramBufferDescriptor \<Rightarrow> 'm ramBufferDescriptor outcome option" where
  "remove_block E i currentBlockLength b =
    (let nextBlockStart = u16 (i + currentBlockLength); n = ramBufferLen b
     in and_then
          (if nextBlockStart < n then
             and_then (buf_read (pRamBuffer b) nextBlockStart (n - nextBlockStart)) (\<lambda>bs. buf_write i bs (pRamBuffer b))
           else Some (Done (pRamBuffer b)))
          (\<lambda>buf. rs_assert E (currentBlockLength \<le> n)
             (Some (Done (b\<lparr>pRamBuffer := buf, ramBufferLen := sub16 n currentBlockLength\<rparr>)))))"

partial_function (option) set_loop ::
  "'m rs_env \<Rightarrow> byte list \<Rightarrow> nat \<Rightarrow> 'm ramBufferDescriptor \<Rightarrow> 'm ramBufferDescriptor outcome option" where
  "set_loop E pAKey i b =
    (if i < ramBufferLen b then
       (case block_at (pRamBuffer b) i of
          None \<Rightarrow> Some (Fault OutOfBounds)
        | Some blk \<Rightarrow>
            (let currentBlockLength = u16 (sizeof_settingsBlock + block_length blk)
             in if key_matches pAKey blk then
                  (case remove_block E i currentBlockLength b of
                     None \<Rightarrow> None
                   | Some (Fault e) \<Rightarrow> Some (Fault e)
                   | Some (Done b) \<Rightarrow> set_loop E pAKey i b)
                else set_loop E pAKey (u16 (i + currentBlockLength)) b))
     else Some (Done b))"

definition ramStorageSet ::
  "'m rs_env \<Rightarrow> byte list \<Rightarrow> byte list \<Rightarrow> 'm ramBufferDescriptor \<Rightarrow> (rsError \<times> 'm ramBufferDescriptor) outcome option" where
  "ramStorageSet E pAKey aValue b =
    rs_assert E (length pAKey \<le> KEY_BYTE_MAX_SIZE)
      (if length pAKey \<le> KEY_BYTE_MAX_SIZE then
         and_then (OSA_lock E b) (\<lambda>b.
         and_then (set_loop E pAKey 0 b) (\<lambda>b.
         and_then (ramStorageAdd E pAKey aValue b) (\<lambda>(err, b).
           Some (Done (err, OSA_unlock E b)))))
       else Some (Done (RS_ERROR_WRONG_ARG, b)))"

partial_function (option) delete_loop ::
  "'m rs_env \<Rightarrow> byte list \<Rightarrow> int \<Rightarrow> nat \<Rightarrow> int \<Rightarrow> 'm ramBufferDescriptor \<Rightarrow> (rsError \<times> 'm ramBufferDescriptor) outcome option" where
  "delete_loop E pAKey aIndex i currentIndex b =
    (if i < ramBufferLen b then
       (case block_at (pRamBuffer b) i of
          None \<Rightarrow> Some (Fault OutOfBounds)
        | Some blk \<Rightarrow>
            (let currentBlockLength = u16 (sizeof_settingsBlock + block_length blk)
             in if key_matches pAKey blk \<and> currentIndex = aIndex then
                  (case remove_block E i currentBlockLength b of
                     None \<Rightarrow> None
                   | Some (Fault e) \<Rightarrow> Some (Fault e)
                   | Some (Done b) \<Rightarrow> Some (Done (RS_ERROR_NONE, b)))
                else delete_loop E pAKey aIndex (u16 (i + currentBlockLength))
                       (if key_matches pAKey blk then currentIndex + 1 else currentIndex) b))
     else Some (Done (RS_ERROR_NOT_FOUND, b)))"

definition ramStorageDelete ::
  "'m rs_env \<Rightarrow> byte list \<Rightarrow> int \<Rightarrow> 'm ramBufferDescriptor \<Rightarrow> (rsError \<times> 'm ramBufferDescriptor) outcome option" where
  "ramStorageDelete E pAKey aIndex b =
    (if length pAKey \<le> KEY_BYTE_MAX_SIZE then
       and_then (OSA_lock E b) (\<lambda>b.
       and_then (delete_loop E pAKey aIndex 0 0 b) (\<lambda>(err, b).
         Some (Done (err, OSA_unlock E b))))
     else rs_assert E False (Some (Done (RS_ERROR_WRONG_ARG, b))))"

definition ramStorageInit :: "'m rs_env \<Rightarrow> 'm ramBufferDescriptor \<Rightarrow> 'm ramBufferDescriptor" where
  "ramStorageInit E b = b\<lparr>mRamStorageMutexId := mutex_create E\<rparr>"

text \<open>
  The copies to and from a file; the file system is a parameter. \<^verbatim>\<open>ramStorageSavetoFlash\<close> copies the buffer
  to a static one under the lock and writes that.
\<close>

definition ramStorageReadFromFlash ::
  "'m rs_env \<Rightarrow> ('fs \<Rightarrow> string \<Rightarrow> nat \<Rightarrow> int \<times> byte list) \<Rightarrow> 'fs \<Rightarrow> string \<Rightarrow> nat \<Rightarrow> 'm ramBufferDescriptor \<Rightarrow>
   (int \<times> 'm ramBufferDescriptor) outcome option" where
  "ramStorageReadFromFlash E FS_ReadBufferFromFile fs file_name buf_length b =
    and_then (OSA_lock E b) (\<lambda>b.
      case FS_ReadBufferFromFile fs file_name buf_length of (res, bs) \<Rightarrow>
        and_then (buf_write 0 bs (pRamBuffer b)) (\<lambda>buf.
          Some (Done (res, OSA_unlock E (b\<lparr>pRamBuffer := buf\<rparr>)))))"

definition ramStorageSavetoFlash ::
  "'m rs_env \<Rightarrow> (string \<Rightarrow> byte list \<Rightarrow> 'fs \<Rightarrow> int \<times> 'fs) \<Rightarrow> string \<Rightarrow> nat \<Rightarrow> 'm ramBufferDescriptor \<Rightarrow> 'fs \<Rightarrow>
   (int \<times> 'm ramBufferDescriptor \<times> 'fs) outcome option" where
  "ramStorageSavetoFlash E FS_WriteBufferToFile file_name buf_length b fs =
    rs_assert E (buf_length \<le> sizeof_bufferIdleWriteToFlash)
      (if sizeof_bufferIdleWriteToFlash < buf_length then Some (Fault OutOfBounds)
       else and_then (OSA_lock E b) (\<lambda>b.
            and_then (buf_read (pRamBuffer b) 0 buf_length) (\<lambda>bs.
              case FS_WriteBufferToFile file_name bs fs of (res, fs) \<Rightarrow>
                Some (Done (res, OSA_unlock E b, fs)))))"

subsection \<open>The entries in the buffer\<close>

type_synonym rs_entry = "byte list \<times> byte list"

definition entry_size :: "rs_entry \<Rightarrow> nat" where
  "entry_size e = sizeof_settingsBlock + length (snd e)"

definition entry_ok :: "rs_entry \<Rightarrow> bool" where
  "entry_ok e \<longleftrightarrow> length (fst e) \<le> KEY_BYTE_MAX_SIZE \<and> length (snd e) < 65536"

definition enc_entry :: "rs_entry \<Rightarrow> byte list" where
  "enc_entry e = fst e @ replicate (KEY_BYTE_MAX_SIZE - length (fst e)) 0 @ [of_nat (length (fst e))] @
     le16 (length (snd e)) @ snd e"

definition entries_size :: "rs_entry list \<Rightarrow> nat" where
  "entries_size es = sum_list (map entry_size es)"

definition enc_entries :: "rs_entry list \<Rightarrow> byte list" where
  "enc_entries es = concat (map enc_entry es)"

definition entry_block :: "rs_entry \<Rightarrow> settingsBlock" where
  "entry_block e =
    \<lparr>keyBytes = fst e @ replicate (KEY_BYTE_MAX_SIZE - length (fst e)) 0, keyBytesLen = length (fst e),
     block_length = length (snd e)\<rparr>"

definition holds :: "'m ramBufferDescriptor \<Rightarrow> rs_entry list \<Rightarrow> bool" where
  "holds b es \<longleftrightarrow> list_all entry_ok es \<and> ramBufferLen b = entries_size es \<and>
     ramBufferLen b \<le> ramBufferMaxLen b \<and> ramBufferMaxLen b \<le> length (pRamBuffer b) \<and> ramBufferMaxLen b < 65536 \<and>
     take (ramBufferLen b) (pRamBuffer b) = enc_entries es"

definition same_buffer :: "'m ramBufferDescriptor \<Rightarrow> 'm ramBufferDescriptor \<Rightarrow> bool" where
  "same_buffer b b' \<longleftrightarrow> ramBufferMaxLen b' = ramBufferMaxLen b \<and> mRamStorageMutexId b' = mRamStorageMutexId b \<and>
     length (pRamBuffer b') = length (pRamBuffer b)"

text \<open>The values of a key, oldest first, and the entry with a given index among those of a key.\<close>

definition values_of :: "byte list \<Rightarrow> rs_entry list \<Rightarrow> byte list list" where
  "values_of key es = map snd (filter (\<lambda>e. fst e = key) es)"

fun split_idx :: "byte list \<Rightarrow> int \<Rightarrow> rs_entry list \<Rightarrow> (rs_entry list \<times> byte list \<times> rs_entry list) option" where
  "split_idx key j [] = None"
| "split_idx key j ((k, v) # es) =
    (if k = key \<and> j = 0 then Some ([], v, es)
     else map_option (\<lambda>(zs, w, rest). ((k, v) # zs, w, rest)) (split_idx key (if k = key then j - 1 else j) es))"

lemma entries_size_simps [simp]:
  "entries_size [] = 0" "entries_size (e # es) = entry_size e + entries_size es"
  "entries_size (xs @ ys) = entries_size xs + entries_size ys"
  by (simp_all add: entries_size_def)

lemma enc_entries_simps [simp]:
  "enc_entries [] = []" "enc_entries (e # es) = enc_entry e @ enc_entries es"
  "enc_entries (xs @ ys) = enc_entries xs @ enc_entries ys"
  by (simp_all add: enc_entries_def)

lemma length_enc_entry: "entry_ok e \<Longrightarrow> length (enc_entry e) = entry_size e"
  by (simp add: enc_entry_def entry_size_def entry_ok_def)

lemma length_enc_entries: "list_all entry_ok es \<Longrightarrow> length (enc_entries es) = entries_size es"
  by (induction es) (simp_all add: length_enc_entry)

lemma values_of_simps [simp]:
  "values_of key [] = []" "values_of key (e # es) = (if fst e = key then [snd e] else []) @ values_of key es"
  "values_of key (xs @ ys) = values_of key xs @ values_of key ys"
  by (simp_all add: values_of_def)

lemma split_idx_Some:
  "split_idx key j es = Some (zs, v, rest) \<Longrightarrow> es = zs @ (key, v) # rest \<and> j = int (length (values_of key zs))"
  by (induction key j es arbitrary: zs v rest rule: split_idx.induct) (fastforce split: if_splits)+

lemma split_idx_None: "split_idx key j es = None \<longleftrightarrow> j < 0 \<or> int (length (values_of key es)) \<le> j"
  by (induction key j es rule: split_idx.induct) (auto split: if_splits)

lemma split_idx_value:
  assumes "split_idx key j es = Some (zs, v, rest)"
  shows "0 \<le> j" and "nat j < length (values_of key es)" and "values_of key es ! nat j = v"
  using split_idx_Some [OF assms] by (auto simp: nth_append)

lemma holds_split:
  assumes "holds b (xs @ ys)"
  shows "\<exists>r. pRamBuffer b = enc_entries xs @ enc_entries ys @ r" and "length (enc_entries xs) = entries_size xs"
    and "length (enc_entries ys) = entries_size ys" and "ramBufferLen b = entries_size xs + entries_size ys"
    and "entries_size xs + entries_size ys \<le> ramBufferMaxLen b" and "ramBufferMaxLen b < 65536"
    and "ramBufferMaxLen b \<le> length (pRamBuffer b)"
proof -
  have "pRamBuffer b = take (ramBufferLen b) (pRamBuffer b) @ drop (ramBufferLen b) (pRamBuffer b)" by simp
  then show "\<exists>r. pRamBuffer b = enc_entries xs @ enc_entries ys @ r"
    using assms unfolding holds_def by (metis append.assoc enc_entries_simps(3))
qed (use assms in \<open>auto simp: holds_def length_enc_entries\<close>)

lemma block_at_enc:
  assumes "entry_ok e"
  shows "block_at (p @ enc_entry e @ r) (length p) = Some (entry_block e)"
proof -
  let ?k = "fst e @ replicate (28 - length (fst e)) 0" and ?v = "snd e"
  have k: "length ?k = 28" using assms by (simp add: entry_ok_def)
  have e: "enc_entry e = ?k @ [of_nat (length (fst e))] @ le16 (length ?v) @ ?v" by (simp add: enc_entry_def)
  have d: "drop (length p) (p @ enc_entry e @ r) = ?k @ [of_nat (length (fst e))] @ le16 (length ?v) @ ?v @ r"
    by (simp add: e)
  have "take 28 (drop (length p) (p @ enc_entry e @ r)) = ?k" unfolding d using k by simp
  moreover have "(p @ enc_entry e @ r) ! (length p + 28) = of_nat (length (fst e))"
    using k by (simp add: e nth_append)
  moreover have "take 2 (drop (length p + 29) (p @ enc_entry e @ r)) = le16 (length ?v)"
  proof -
    have "drop (length p + 29) (p @ enc_entry e @ r) = drop 29 (drop (length p) (p @ enc_entry e @ r))"
      by (simp add: add.commute)
    also have "\<dots> = drop 1 (drop 28 (?k @ [of_nat (length (fst e))] @ le16 (length ?v) @ ?v @ r))"
      unfolding d using k by simp
    also have "\<dots> = le16 (length ?v) @ ?v @ r" using k by simp
    finally show ?thesis by simp
  qed
  moreover have "unat (of_nat (length (fst e)) :: byte) = length (fst e)" "of_le16 (le16 (length ?v)) = length ?v"
    using assms by (simp_all add: entry_ok_def unsigned_of_nat take_bit_nat_def)
  moreover have "length p + 31 \<le> length (p @ enc_entry e @ r)"
    using length_enc_entry [OF assms] by (simp add: entry_size_def)
  ultimately show ?thesis by (simp add: block_at_def entry_block_def)
qed

lemma holds_block:
  assumes "holds b (xs @ e # ys)"
  shows "block_at (pRamBuffer b) (entries_size xs) = Some (entry_block e)"
proof -
  obtain r where "pRamBuffer b = enc_entries xs @ enc_entry e @ enc_entries ys @ r"
    using holds_split(1) [OF assms] by auto
  moreover have "entry_ok e" using assms by (simp add: holds_def)
  ultimately show ?thesis using block_at_enc [of e "enc_entries xs"] holds_split(2) [OF assms] by metis
qed

lemma key_matches_entry: "length key \<le> 28 \<Longrightarrow> key_matches key (entry_block e) \<longleftrightarrow> fst e = key"
  by (auto simp: key_matches_def entry_block_def)

lemma block_length_entry [simp]: "block_length (entry_block e) = length (snd e)"
  by (simp add: entry_block_def)

subsection \<open>The loops on the entries\<close>

lemma get_loop_entries:
  assumes key: "length key \<le> 28"
  shows "holds b (xs @ ys) \<Longrightarrow> get_loop E b key idx (entries_size xs) cur =
    Some (Done (map_option (\<lambda>(zs, v, rest). (entries_size xs + entries_size zs, entry_block (key, v)))
      (split_idx key (idx - cur) ys)))"
proof (induction ys arbitrary: xs cur)
  case Nil
  then show ?case using holds_split(4) [OF Nil] by (subst get_loop.simps) simp
next
  case (Cons e ys)
  obtain k v where e: "e = (k, v)" by (cases e)
  note h = holds_split [OF Cons.prems]
  have lt: "entries_size xs < ramBufferLen b" using h(4) by (simp add: entry_size_def)
  have nxt: "u16 (entries_size xs + 31 + length v) = entries_size (xs @ [e])"
    using h(5,6) by (simp add: e entry_size_def u16_id)
  have le: "length v \<le> ramBufferMaxLen b" using h(5) by (simp add: e entry_size_def)
  have blk: "block_at (pRamBuffer b) (entries_size xs) = Some (entry_block (k, v))"
    using holds_block [OF Cons.prems] by (simp add: e)
  have IH: "get_loop E b key idx (entries_size (xs @ [e])) c =
    Some (Done (map_option (\<lambda>(zs, v, rest). (entries_size (xs @ [e]) + entries_size zs, entry_block (key, v)))
      (split_idx key (idx - c) ys)))" for c
    by (rule Cons.IH) (use Cons.prems in simp)
  let ?c = "if k = key then cur + 1 else cur"
  show ?case
  proof (cases "k = key \<and> cur = idx")
    case True
    then have "get_loop E b key idx (entries_size xs) cur = Some (Done (Some (entries_size xs, entry_block (k, v))))"
      using lt blk le by (subst get_loop.simps) (simp add: key_matches_entry [OF key])
    then show ?thesis using True by (simp add: e)
  next
    case False
    then have "get_loop E b key idx (entries_size xs) cur = get_loop E b key idx (entries_size (xs @ [e])) ?c"
      using lt blk le by (subst get_loop.simps) (auto simp: key_matches_entry [OF key] nxt simp del: entries_size_simps)
    moreover have "split_idx key (idx - cur) (e # ys) = map_option (\<lambda>(zs, w, rest). (e # zs, w, rest)) (split_idx key (idx - ?c) ys)"
      using False by (auto simp: e algebra_simps)
    ultimately show ?thesis
      unfolding IH by (simp add: option.map_comp o_def case_prod_unfold add.assoc)
  qed
qed

lemma remove_block_entries:
  assumes "holds b (xs @ (k, v) # ys)"
  shows "\<exists>b'. remove_block E (entries_size xs) (31 + length v) b = Some (Done b') \<and> holds b' (xs @ ys) \<and> same_buffer b b'"
proof -
  note h = holds_split [OF assms]
  let ?i = "entries_size xs" and ?n = "entries_size ys" and ?p = "enc_entries xs" and ?q = "enc_entries ys"
  obtain r where r: "pRamBuffer b = ?p @ enc_entry (k, v) @ ?q @ r" using h(1) by auto
  have ok: "list_all entry_ok (xs @ ys)" "entry_ok (k, v)" using assms by (simp_all add: holds_def)
  have len: "length ?p = ?i" "length ?q = ?n" "length (enc_entry (k, v)) = 31 + length v"
    using ok by (simp_all add: length_enc_entries length_enc_entry entry_size_def)
  have n: "ramBufferLen b = ?i + (31 + length v) + ?n" using h(4) by (simp add: entry_size_def)
  have max: "?i + (31 + length v) + ?n \<le> ramBufferMaxLen b" "ramBufferMaxLen b < 65536" "ramBufferMaxLen b \<le> length (pRamBuffer b)"
    using h(5-7) by (simp_all add: entry_size_def)
  have nxt: "u16 (?i + (31 + length v)) = ?i + (31 + length v)" using max by (simp add: u16_id)
  have sub: "sub16 (?i + (31 + length v) + ?n) (31 + length v) = ?i + ?n" using max by (simp add: sub16_le)
  have rd: "take ?n (drop (?i + (31 + length v)) (pRamBuffer b)) = ?q" using len by (simp add: r)
  have wr: "take (?i + ?n) (list_write ?i ?q (pRamBuffer b)) = ?p @ ?q" using len by (simp add: r list_write_def)
  define buf where "buf = (if ?n = 0 then pRamBuffer b else list_write ?i ?q (pRamBuffer b))"
  have buf: "take (?i + ?n) buf = ?p @ ?q" "length buf = length (pRamBuffer b)"
    using wr len max by (auto simp: buf_def r)
  let ?b = "b\<lparr>pRamBuffer := buf, ramBufferLen := ?i + ?n\<rparr>"
  have "remove_block E ?i (31 + length v) b = Some (Done ?b)"
    unfolding remove_block_def Let_def nxt n sub
    using max rd len by (simp add: buf_def and_then_def buf_read_def buf_write_def rs_assert_def)
  moreover have "holds ?b (xs @ ys)" using ok buf max by (simp add: holds_def)
  ultimately show ?thesis using buf by (auto simp: same_buffer_def)
qed

lemma set_loop_entries:
  assumes key: "length key \<le> 28"
  shows "holds b (xs @ ys) \<Longrightarrow> \<exists>b'. set_loop E key (entries_size xs) b = Some (Done b') \<and>
    holds b' (xs @ filter (\<lambda>e. fst e \<noteq> key) ys) \<and> same_buffer b b'"
proof (induction ys arbitrary: xs b)
  case Nil
  then show ?case using holds_split(4) [OF Nil] by (subst set_loop.simps) (simp add: same_buffer_def)
next
  case (Cons e ys)
  obtain k v where e: "e = (k, v)" by (cases e)
  note h = holds_split [OF Cons.prems]
  have lt: "entries_size xs < ramBufferLen b" using h(4) by (simp add: entry_size_def)
  have u: "u16 (31 + length v) = 31 + length v" "u16 (entries_size xs + (31 + length v)) = entries_size (xs @ [e])"
    using h(5,6) by (simp_all add: e entry_size_def u16_id)
  have blk: "block_at (pRamBuffer b) (entries_size xs) = Some (entry_block (k, v))"
    using holds_block [OF Cons.prems] by (simp add: e)
  show ?case
  proof (cases "k = key")
    case True
    obtain b1 where b1: "remove_block E (entries_size xs) (31 + length v) b = Some (Done b1)" "holds b1 (xs @ ys)" "same_buffer b b1"
      using remove_block_entries Cons.prems e by blast
    have "set_loop E key (entries_size xs) b = set_loop E key (entries_size xs) b1"
      using True by (subst set_loop.simps) (simp add: lt blk u key_matches_entry [OF key] b1(1))
    then show ?thesis using Cons.IH [OF b1(2)] True b1(3) by (auto simp: e same_buffer_def)
  next
    case False
    have "holds b ((xs @ [e]) @ ys)" using Cons.prems by simp
    moreover have "set_loop E key (entries_size xs) b = set_loop E key (entries_size (xs @ [e])) b"
      using False by (subst set_loop.simps) (simp add: lt blk u key_matches_entry [OF key] del: entries_size_simps)
    ultimately show ?thesis using Cons.IH [of b "xs @ [e]"] False by (simp add: e)
  qed
qed

lemma delete_loop_entries:
  assumes key: "length key \<le> 28"
  shows "holds b (xs @ ys) \<Longrightarrow> \<exists>b'. same_buffer b b' \<and>
    (case split_idx key (idx - cur) ys of
       None \<Rightarrow> delete_loop E key idx (entries_size xs) cur b = Some (Done (RS_ERROR_NOT_FOUND, b')) \<and> b' = b
     | Some (zs, v, rest) \<Rightarrow>
         delete_loop E key idx (entries_size xs) cur b = Some (Done (RS_ERROR_NONE, b')) \<and> holds b' (xs @ zs @ rest))"
proof (induction ys arbitrary: xs cur)
  case Nil
  then show ?case using holds_split(4) [OF Nil] by (subst delete_loop.simps) (simp add: same_buffer_def)
next
  case (Cons e ys)
  obtain k v where e: "e = (k, v)" by (cases e)
  note h = holds_split [OF Cons.prems]
  have lt: "entries_size xs < ramBufferLen b" using h(4) by (simp add: entry_size_def)
  have u: "u16 (31 + length v) = 31 + length v" "u16 (entries_size xs + (31 + length v)) = entries_size (xs @ [e])"
    using h(5,6) by (simp_all add: e entry_size_def u16_id)
  have blk: "block_at (pRamBuffer b) (entries_size xs) = Some (entry_block (k, v))"
    using holds_block [OF Cons.prems] by (simp add: e)
  show ?case
  proof (cases "k = key \<and> cur = idx")
    case True
    obtain b1 where b1: "remove_block E (entries_size xs) (31 + length v) b = Some (Done b1)" "holds b1 (xs @ ys)" "same_buffer b b1"
      using remove_block_entries Cons.prems e by blast
    have "delete_loop E key idx (entries_size xs) cur b = Some (Done (RS_ERROR_NONE, b1))"
      using True by (subst delete_loop.simps) (simp add: lt blk u key_matches_entry [OF key] b1(1))
    then show ?thesis using True b1 by (auto simp: e)
  next
    case False
    let ?c = "if k = key then cur + 1 else cur"
    have hh: "holds b ((xs @ [e]) @ ys)" using Cons.prems by simp
    have s: "split_idx key (idx - cur) (e # ys) = map_option (\<lambda>(zs, w, rest). (e # zs, w, rest)) (split_idx key (idx - ?c) ys)"
      using False by (auto simp: e algebra_simps)
    have d: "delete_loop E key idx (entries_size xs) cur b = delete_loop E key idx (entries_size (xs @ [e])) ?c b"
      using False by (subst delete_loop.simps) (simp add: lt blk u key_matches_entry [OF key] del: entries_size_simps)
    show ?thesis using Cons.IH [OF hh, of ?c] unfolding s d by (auto split: option.splits)
  qed
qed

subsection \<open>The operations on the entries\<close>

lemma buf_write_ok: "i + length bs \<le> length buf \<Longrightarrow> buf_write i bs buf = Some (Done (list_write i bs buf))"
  by (simp add: buf_write_def)

lemma and_then_Done [simp]: "and_then (Some (Done x)) f = f x"
  by (simp add: and_then_def)

lemma holds_mutex [simp]: "holds (b\<lparr>mRamStorageMutexId := m\<rparr>) es = holds b es"
  by (simp add: holds_def)

text \<open>The five writes of \<^verbatim>\<open>ramStorageAdd\<close> give the encoding of the entry.\<close>

lemma write_entry:
  assumes "entry_ok (k, v)" and "length p + 31 + length v \<le> length (p @ r)"
  shows "list_write (length p + 31) v (list_write (length p + 29) (le16 (length v))
      (list_write (length p + 28) [of_nat (length k)] (list_write (length p) k
      (list_write (length p) (replicate 31 0) (p @ r))))) = p @ enc_entry (k, v) @ drop (31 + length v) r"
proof -
  let ?z = "\<lambda>n. replicate n (0::byte)"
  have k: "length k \<le> 28" using assms by (simp add: entry_ok_def)
  have z: "?z 31 = ?z (length k) @ ?z (28 - length k) @ [0, 0, 0]"
  proof -
    have "?z 31 = ?z (length k + ((28 - length k) + 3))" using k by simp
    also have "\<dots> = ?z (length k) @ ?z (28 - length k) @ ?z 3" by (simp only: replicate_add)
    also have "?z 3 = [0, 0, 0]" by (simp add: numeral_3_eq_3)
    finally show ?thesis .
  qed
  have w: "list_write (length xs) ys (xs @ zs) = xs @ ys @ drop (length ys) zs" for xs ys zs :: "byte list"
    by (simp add: list_write_def)
  have 1: "list_write (length p) (?z 31) (p @ r) = p @ ?z (length k) @ ?z (28 - length k) @ [0, 0, 0] @ drop 31 r"
    using w [of p "?z 31" r] z k by simp
  have 2: "list_write (length p) k (p @ ?z (length k) @ ?z (28 - length k) @ [0, 0, 0] @ drop 31 r) =
      (p @ k @ ?z (28 - length k)) @ [0, 0, 0] @ drop 31 r" unfolding w by simp
  have l3: "length p + 28 = length (p @ k @ ?z (28 - length k))" using k by simp
  have 3: "list_write (length p + 28) [of_nat (length k)] ((p @ k @ ?z (28 - length k)) @ [0, 0, 0] @ drop 31 r) =
      (p @ k @ ?z (28 - length k) @ [of_nat (length k)]) @ [0, 0] @ drop 31 r" unfolding l3 w by simp
  have l4: "length p + 29 = length (p @ k @ ?z (28 - length k) @ [of_nat (length k)])" using k by simp
  have 4: "list_write (length p + 29) (le16 (length v)) ((p @ k @ ?z (28 - length k) @ [of_nat (length k)]) @ [0, 0] @ drop 31 r) =
      (p @ k @ ?z (28 - length k) @ [of_nat (length k)] @ le16 (length v)) @ drop 31 r" unfolding l4 w by simp
  have l5: "length p + 31 = length (p @ k @ ?z (28 - length k) @ [of_nat (length k)] @ le16 (length v))" using k by simp
  show ?thesis unfolding 1 2 3 4 unfolding l5 w by (simp add: enc_entry_def add.commute)
qed

text \<open>The mutex may be taken by the task that holds it, and giving it back undoes taking it.\<close>

locale recursive_mutex =
  fixes E :: "'m rs_env"
  assumes lock_granted: "\<exists>m'. mutex_lock E m = Some m'"
    and unlock_lock: "mutex_lock E m = Some m' \<Longrightarrow> mutex_unlock E m' = m"
begin

lemma OSA_lock_ok:
  obtains m where "OSA_lock E b = Some (Done (b\<lparr>mRamStorageMutexId := m\<rparr>))" and "mutex_unlock E m = mRamStorageMutexId b"
  using lock_granted [of "mRamStorageMutexId b"] unlock_lock by (auto simp: OSA_lock_def)

lemma ramStorageAdd_ok:
  assumes h: "holds b es" and e: "entry_ok (k, v)" and room: "entries_size es + 31 + length v \<le> ramBufferMaxLen b"
  shows "\<exists>b'. ramStorageAdd E k v b = Some (Done (RS_ERROR_NONE, b')) \<and> holds b' (es @ [(k, v)]) \<and> same_buffer b b'"
proof -
  obtain m where m: "OSA_lock E b = Some (Done (b\<lparr>mRamStorageMutexId := m\<rparr>))" "mutex_unlock E m = mRamStorageMutexId b"
    by (rule OSA_lock_ok)
  have h': "holds b (es @ [])" using h by simp
  note hs = holds_split [OF h']
  let ?p = "enc_entries es" and ?n = "entries_size es"
  obtain r where r: "pRamBuffer b = ?p @ r" using hs(1) by auto
  have p: "length ?p = ?n" "ramBufferLen b = ?n" using hs by simp_all
  have k: "length k \<le> 28" "length v < 65536" using e by (simp_all add: entry_ok_def)
  have len: "?n + 31 + length v \<le> length (?p @ r)" "?n + 31 + length v < 65536" using hs room by (simp_all add: r)
  let ?buf = "?p @ enc_entry (k, v) @ drop (31 + length v) r"
  have bl: "length ?buf = length (?p @ r)" using len p length_enc_entry [OF e] by (simp add: entry_size_def)
  let ?b = "b\<lparr>pRamBuffer := ?buf, ramBufferLen := ?n + 31 + length v\<rparr>"
  have w: "list_write (?n + 31) v (list_write (?n + 29) (le16 (length v)) (list_write (?n + 28) [of_nat (length k)]
      (list_write ?n k (list_write ?n (replicate 31 0) (?p @ r))))) = ?buf"
    using write_entry [OF e, of ?p r] len p by simp
  have "ramStorageAdd E k v b = Some (Done (RS_ERROR_NONE, ?b))"
    using m k len room w by (simp add: ramStorageAdd_def Let_def u16_id p r buf_write_ok rs_assert_def OSA_unlock_def add.assoc)
  moreover have "holds ?b (es @ [(k, v)])"
    using h e room bl p len hs(7) length_enc_entry [OF e] by (simp add: holds_def entry_size_def r)
  ultimately show ?thesis using bl by (auto simp: same_buffer_def r)
qed

lemma ramStorageAdd_full:
  assumes h: "holds b es" and room: "ramBufferMaxLen b < entries_size es + 31 + length v" and v: "length v \<le> 65504"
  shows "ramStorageAdd E k v b =
    Some (if asserts E then Fault AssertFail else Done (RS_ERROR_NO_BUFS, b))"
proof -
  obtain m where m: "OSA_lock E b = Some (Done (b\<lparr>mRamStorageMutexId := m\<rparr>))" "mutex_unlock E m = mRamStorageMutexId b"
    by (rule OSA_lock_ok)
  have "ramBufferLen b = entries_size es" using h by (simp add: holds_def)
  then show ?thesis
    using m room v by (simp add: ramStorageAdd_def Let_def u16_id rs_assert_def OSA_unlock_def)
qed

text \<open>\<^verbatim>\<open>ramStorageSet\<close>: the entries of the key are removed, then the new one is appended, if there is room.\<close>

lemma ramStorageSet_entries:
  assumes h: "holds b es" and key: "length key \<le> 28" and v: "length v \<le> 65504"
  defines "rest \<equiv> filter (\<lambda>e. fst e \<noteq> key) es"
  shows "if entries_size rest + 31 + length v \<le> ramBufferMaxLen b
    then \<exists>b'. ramStorageSet E key v b = Some (Done (RS_ERROR_NONE, b')) \<and> holds b' (rest @ [(key, v)]) \<and> same_buffer b b'
    else if asserts E then ramStorageSet E key v b = Some (Fault AssertFail)
    else \<exists>b'. ramStorageSet E key v b = Some (Done (RS_ERROR_NO_BUFS, b')) \<and> holds b' rest \<and> same_buffer b b'"
proof -
  obtain m where m: "OSA_lock E b = Some (Done (b\<lparr>mRamStorageMutexId := m\<rparr>))" "mutex_unlock E m = mRamStorageMutexId b"
    by (rule OSA_lock_ok)
  let ?b = "b\<lparr>mRamStorageMutexId := m\<rparr>"
  obtain b1 where b1: "set_loop E key 0 ?b = Some (Done b1)" "holds b1 rest" "same_buffer ?b b1"
    using set_loop_entries [OF key, of ?b "[]" es E] h by (auto simp: rest_def)
  have e: "entry_ok (key, v)" using key v by (simp add: entry_ok_def)
  have max: "ramBufferMaxLen b1 = ramBufferMaxLen b" using b1(3) by (simp add: same_buffer_def)
  have run: "ramStorageSet E key v b =
      and_then (ramStorageAdd E key v b1) (\<lambda>(err, b). Some (Done (err, OSA_unlock E b)))"
    using key m b1(1) by (simp add: ramStorageSet_def rs_assert_def)
  show ?thesis
  proof (cases "entries_size rest + 31 + length v \<le> ramBufferMaxLen b")
    case True
    then obtain b2 where "ramStorageAdd E key v b1 = Some (Done (RS_ERROR_NONE, b2))" "holds b2 (rest @ [(key, v)])" "same_buffer b1 b2"
      using ramStorageAdd_ok [OF b1(2) e] max by auto
    then show ?thesis using True b1(3) m(2) by (auto simp: run OSA_unlock_def same_buffer_def)
  next
    case False
    then have "ramStorageAdd E key v b1 = Some (if asserts E then Fault AssertFail else Done (RS_ERROR_NO_BUFS, b1))"
      using ramStorageAdd_full [OF b1(2) _ v] max by auto
    then show ?thesis using False b1 m(2) by (auto simp: run OSA_unlock_def same_buffer_def and_then_def)
  qed
qed

lemma ramStorageGet_entries:
  assumes h: "holds b es" and key: "length key \<le> 28"
  shows "ramStorageGet E key j hasValue n b = Some (Done
    (if 0 \<le> j \<and> nat j < length (values_of key es) then
       (let v = values_of key es ! nat j
        in (RS_ERROR_NONE, if hasValue then map_option (\<lambda>n. take n v) n else None, map_option (\<lambda>_. length v) n, b))
     else (RS_ERROR_NOT_FOUND, None, map_option (\<lambda>_. 0) n, b)))"
proof -
  obtain m where m: "OSA_lock E b = Some (Done (b\<lparr>mRamStorageMutexId := m\<rparr>))" "mutex_unlock E m = mRamStorageMutexId b"
    by (rule OSA_lock_ok)
  let ?b = "b\<lparr>mRamStorageMutexId := m\<rparr>"
  have u: "OSA_unlock E ?b = b" using m(2) by (simp add: OSA_unlock_def)
  have loop: "get_loop E ?b key j 0 0 = Some (Done (map_option (\<lambda>(zs, v, rest). (entries_size zs, entry_block (key, v))) (split_idx key j es)))"
    using get_loop_entries [OF key, of ?b "[]" es E j 0] h by simp
  show ?thesis
  proof (cases "split_idx key j es")
    case None
    then have "\<not> (0 \<le> j \<and> nat j < length (values_of key es))" by (auto simp: split_idx_None)
    then show ?thesis using key m(1) loop u None by (simp only: if_False) (simp add: ramStorageGet_def)
  next
    case (Some x)
    obtain zs v rest where x: "x = (zs, v, rest)" by (cases x)
    have es: "es = zs @ (key, v) # rest" using split_idx_Some Some x by blast
    note val = split_idx_value [OF Some [unfolded x]]
    have hs: "holds b (zs @ (key, v) # rest)" using h es by simp
    obtain r where r: "pRamBuffer b = enc_entries zs @ enc_entry (key, v) @ enc_entries rest @ r"
      using holds_split(1) [OF hs] by auto
    have zs: "length (enc_entries zs) = entries_size zs" by (rule holds_split(2) [OF hs])
    have "enc_entry (key, v) = take 31 (enc_entry (key, v)) @ v" "length (take 31 (enc_entry (key, v))) = 31"
      using key by (simp_all add: enc_entry_def)
    then obtain q where q: "enc_entry (key, v) = q @ v" "length q = 31" by blast
    have rd: "buf_read (pRamBuffer b) (entries_size zs + 31) i = Some (Done (take i v))" if "i \<le> length v" for i
      using that zs q by (simp add: buf_read_def r)
    have mn: "(if i < length v then i else length v) \<le> length v" "take (if i < length v then i else length v) v = take i v" for i
      by auto
    show ?thesis
      using key m(1) loop u val Some x rd [OF mn(1)]
      by (cases n; cases hasValue) (auto simp: ramStorageGet_def Let_def mn(2) split del: if_split cong: if_cong)
  qed
qed

lemma ramStorageDelete_entries:
  assumes h: "holds b es" and key: "length key \<le> 28"
  shows "case split_idx key j es of
      None \<Rightarrow> ramStorageDelete E key j b = Some (Done (RS_ERROR_NOT_FOUND, b))
    | Some (zs, v, rest) \<Rightarrow> \<exists>b'. ramStorageDelete E key j b = Some (Done (RS_ERROR_NONE, b')) \<and> holds b' (zs @ rest) \<and> same_buffer b b'"
proof -
  obtain m where m: "OSA_lock E b = Some (Done (b\<lparr>mRamStorageMutexId := m\<rparr>))" "mutex_unlock E m = mRamStorageMutexId b"
    by (rule OSA_lock_ok)
  let ?b = "b\<lparr>mRamStorageMutexId := m\<rparr>"
  have u: "OSA_unlock E ?b = b" using m(2) by (simp add: OSA_unlock_def)
  have "holds ?b ([] @ es)" using h by simp
  from delete_loop_entries [OF key this, where idx = j and cur = 0 and E = E, unfolded append_Nil entries_size_simps diff_0_right]
  obtain b1 where b1: "same_buffer ?b b1"
    "case split_idx key j es of
       None \<Rightarrow> delete_loop E key j 0 0 ?b = Some (Done (RS_ERROR_NOT_FOUND, b1)) \<and> b1 = ?b
     | Some (zs, v, rest) \<Rightarrow> delete_loop E key j 0 0 ?b = Some (Done (RS_ERROR_NONE, b1)) \<and> holds b1 (zs @ rest)"
    by blast
  then have "same_buffer b (OSA_unlock E b1)" "holds (OSA_unlock E b1) xs = holds b1 xs" for xs
    using m(2) by (simp_all add: same_buffer_def OSA_unlock_def)
  then show ?thesis
    using b1(2) key m(1) u by (auto simp: ramStorageDelete_def split: option.splits)
qed

end

text \<open>
  A mutex that may not be taken again by its holder: \<^verbatim>\<open>ramStorageSet\<close> holds it when it calls
  \<^verbatim>\<open>ramStorageAdd\<close>, which takes it, and the call does not return.
\<close>

lemma ramStorageSet_deadlock:
  assumes h: "holds b es" and key: "length key \<le> 28"
    and m: "mutex_lock E (mRamStorageMutexId b) = Some m" and dead: "mutex_lock E m = None"
  shows "ramStorageSet E key v b = None"
proof -
  let ?b = "b\<lparr>mRamStorageMutexId := m\<rparr>"
  obtain b1 where b1: "set_loop E key 0 ?b = Some (Done b1)" "same_buffer ?b b1"
    using set_loop_entries [OF key, of ?b "[]" es E] h by auto
  then have "ramStorageAdd E key v b1 = None"
    using dead by (simp add: ramStorageAdd_def Let_def OSA_lock_def same_buffer_def and_then_def)
  moreover have "OSA_lock E b = Some (Done ?b)" using m by (simp add: OSA_lock_def)
  ultimately show ?thesis
    using key b1(1) by (simp add: ramStorageSet_def rs_assert_def) (simp add: and_then_def)
qed

text \<open>
  A value that makes the block length exceed 16 bits: the length of the new block wraps around, the test
  for room passes, and the value is copied past the end of the buffer.
\<close>

lemma ramStorageAdd_overflow:
  assumes "length v = 65505" and "length key \<le> 28" and "ramBufferLen b = 0" and "31 \<le> length (pRamBuffer b)"
    and "length (pRamBuffer b) < 65536" and "mutex_lock E (mRamStorageMutexId b) = Some m"
  shows "ramStorageAdd E key v b = Some (Fault OutOfBounds)"
proof -
  have "u16 (31 + length v) = 0" using assms(1) by (simp add: u16_def)
  then show ?thesis
    using assms by (simp add: ramStorageAdd_def Let_def OSA_lock_def buf_write_ok) (simp add: buf_write_def and_then_def)
qed

subsection \<open>The store as a map\<close>

text \<open>The entries read back from a buffer.\<close>

fun parse_entries :: "byte list \<Rightarrow> rs_entry list" where
  "parse_entries bs =
    (if length bs < sizeof_settingsBlock then []
     else (let n = unat (bs ! 28); l = of_le16 (take 2 (drop 29 bs))
           in (take n bs, take l (drop sizeof_settingsBlock bs)) # parse_entries (drop (sizeof_settingsBlock + l) bs)))"

declare parse_entries.simps [simp del]

lemma parse_entry:
  assumes "entry_ok e"
  shows "parse_entries (enc_entry e @ r) = e # parse_entries r"
proof -
  have b: "block_at (enc_entry e @ r) 0 = Some (entry_block e)" using block_at_enc [OF assms, of "[]" r] by simp
  let ?q = "fst e @ replicate (28 - length (fst e)) 0 @ [of_nat (length (fst e))] @ le16 (length (snd e))"
  have q: "enc_entry e = ?q @ snd e" "length ?q = 31" using assms by (simp_all add: enc_entry_def entry_ok_def)
  have "unat ((enc_entry e @ r) ! 28) = length (fst e)" "of_le16 (take 2 (drop 29 (enc_entry e @ r))) = length (snd e)"
    using b by (auto simp: block_at_def entry_block_def split: if_splits)
  moreover have "take (length (fst e)) (enc_entry e @ r) = fst e" by (simp add: enc_entry_def)
  moreover have "drop 31 (enc_entry e @ r) = snd e @ r" unfolding q(1) using q(2) by (simp del: append_assoc add: append_assoc [symmetric])
  moreover have "drop (31 + length (snd e)) (enc_entry e @ r) = r"
    using length_enc_entry [OF assms] by (simp add: entry_size_def)
  moreover have "\<not> length (enc_entry e @ r) < 31" using length_enc_entry [OF assms] by (simp add: entry_size_def)
  ultimately show ?thesis by (subst parse_entries.simps) (simp add: Let_def)
qed

lemma parse_entries_enc: "list_all entry_ok es \<Longrightarrow> parse_entries (enc_entries es) = es"
  by (induction es) (simp_all add: parse_entry, simp add: parse_entries.simps)

definition rs_entries :: "'m ramBufferDescriptor \<Rightarrow> rs_entry list" where
  "rs_entries b = parse_entries (take (ramBufferLen b) (pRamBuffer b))"

definition rs_inv :: "'m ramBufferDescriptor \<Rightarrow> bool" where
  "rs_inv b \<longleftrightarrow> holds b (rs_entries b) \<and> distinct (map fst (rs_entries b))"

definition rs_map :: "'m ramBufferDescriptor \<Rightarrow> byte list \<rightharpoonup> byte list" where
  "rs_map b = map_of (rs_entries b)"

definition rs_key :: "byte list \<Rightarrow> bool" where
  "rs_key key \<longleftrightarrow> length key \<le> KEY_BYTE_MAX_SIZE"

definition rs_fits :: "'m ramBufferDescriptor \<Rightarrow> byte list \<Rightarrow> byte list \<Rightarrow> bool" where
  "rs_fits b key v \<longleftrightarrow>
     entries_size (filter (\<lambda>e. fst e \<noteq> key) (rs_entries b)) + sizeof_settingsBlock + length v \<le> ramBufferMaxLen b"

definition rs_put :: "'m rs_env \<Rightarrow> byte list \<Rightarrow> byte list \<Rightarrow> 'm ramBufferDescriptor \<Rightarrow> 'm ramBufferDescriptor option" where
  "rs_put E key v b =
    (case ramStorageSet E key v b of Some (Done (RS_ERROR_NONE, b')) \<Rightarrow> Some b' | _ \<Rightarrow> None)"

definition rs_del :: "'m rs_env \<Rightarrow> byte list \<Rightarrow> 'm ramBufferDescriptor \<Rightarrow> 'm ramBufferDescriptor option" where
  "rs_del E key b =
    (case ramStorageDelete E key 0 b of
       Some (Done (err, b')) \<Rightarrow> if err = RS_ERROR_NONE \<or> err = RS_ERROR_NOT_FOUND then Some b' else None
     | _ \<Rightarrow> None)"

definition rs_get :: "'m rs_env \<Rightarrow> 'm ramBufferDescriptor \<Rightarrow> byte list \<Rightarrow> byte list option" where
  "rs_get E b key =
    (case ramStorageGet E key 0 True (Some 65535) b of
       Some (Done (RS_ERROR_NONE, Some bs, _, _)) \<Rightarrow> Some bs
     | _ \<Rightarrow> None)"

lemma holds_entries: "holds b es \<Longrightarrow> rs_entries b = es"
  unfolding holds_def rs_entries_def using parse_entries_enc by metis

lemma holds_inv: "holds b es \<Longrightarrow> distinct (map fst es) \<Longrightarrow> rs_inv b \<and> rs_map b = map_of es"
  using holds_entries [of b es] by (simp add: rs_inv_def rs_map_def)

lemma map_of_filter_neq: "map_of (filter (\<lambda>e. fst e \<noteq> k) es) = (map_of es)(k := None)"
  by (induction es) (auto simp: fun_eq_iff)

lemma map_of_values:
  "distinct (map fst es) \<Longrightarrow> values_of k es = (case map_of es k of None \<Rightarrow> [] | Some v \<Rightarrow> [v])"
proof (induction es)
  case (Cons e es)
  then show ?case using map_of_eq_None_iff [of es k] by (cases e) (auto split: option.splits)
qed simp

lemma filter_remove_one:
  assumes "distinct (map fst (zs @ (k, v) # rest))"
  shows "filter (\<lambda>e. fst e \<noteq> k) (zs @ (k, v) # rest) = zs @ rest"
proof -
  have "filter (\<lambda>e. fst e \<noteq> k) zs = zs" "filter (\<lambda>e. fst e \<noteq> k) rest = rest"
    using assms by (auto simp: filter_id_conv image_iff)
  then show ?thesis by simp
qed

context recursive_mutex
begin

lemma rs_put_ok:
  assumes "rs_inv b" and "rs_key k" and "rs_fits b k v"
  shows "\<exists>b'. rs_put E k v b = Some b' \<and> rs_inv b' \<and> rs_map b' = (rs_map b)(k \<mapsto> v)"
proof -
  let ?es = "rs_entries b" let ?rest = "filter (\<lambda>e. fst e \<noteq> k) ?es"
  have h: "holds b ?es" and d: "distinct (map fst ?es)" using assms(1) by (simp_all add: rs_inv_def)
  have max: "ramBufferMaxLen b < 65536" using h by (simp add: holds_def)
  obtain b' where b': "ramStorageSet E k v b = Some (Done (RS_ERROR_NONE, b'))" "holds b' (?rest @ [(k, v)])"
    using ramStorageSet_entries [OF h, of k v] assms(2,3) max by (auto simp: rs_key_def rs_fits_def)
  have d': "distinct (map fst (?rest @ [(k, v)]))" using d by (auto simp: distinct_map_filter)
  have "map_of (?rest @ [(k, v)]) = (map_of ?es)(k \<mapsto> v)"
    by (simp add: map_of_filter_neq) (auto simp: fun_eq_iff map_add_def split: option.splits)
  then show ?thesis
    using b' holds_inv [OF b'(2) d'] by (auto simp: rs_put_def rs_map_def)
qed

lemma rs_del_ok:
  assumes "rs_inv b" and "rs_key k"
  shows "\<exists>b'. rs_del E k b = Some b' \<and> rs_inv b' \<and> rs_map b' = (rs_map b)(k := None)"
proof -
  let ?es = "rs_entries b"
  have h: "holds b ?es" and d: "distinct (map fst ?es)" using assms(1) by (simp_all add: rs_inv_def)
  have k: "length k \<le> 28" using assms(2) by (simp add: rs_key_def)
  note del = ramStorageDelete_entries [OF h k, of 0]
  show ?thesis
  proof (cases "split_idx k 0 ?es")
    case None
    then have "values_of k ?es = []" by (simp add: split_idx_None)
    then have "rs_map b k = None" using map_of_values [OF d, of k] by (auto simp: rs_map_def split: option.splits)
    then show ?thesis using None del assms(1) by (auto simp: rs_del_def fun_upd_idem)
  next
    case (Some x)
    obtain zs v rest where x: "x = (zs, v, rest)" by (cases x)
    have es: "?es = zs @ (k, v) # rest" using split_idx_Some Some x by blast
    obtain b' where b': "ramStorageDelete E k 0 b = Some (Done (RS_ERROR_NONE, b'))" "holds b' (zs @ rest)"
      using del Some x by auto
    have "zs @ rest = filter (\<lambda>e. fst e \<noteq> k) ?es" using filter_remove_one d es by metis
    then have "map_of (zs @ rest) = (map_of ?es)(k := None)" by (simp only: map_of_filter_neq)
    moreover have "distinct (map fst (zs @ rest))" using d es by simp
    ultimately show ?thesis using b' holds_inv [OF b'(2)] by (auto simp: rs_del_def rs_map_def)
  qed
qed

lemma rs_get_ok:
  assumes "rs_inv b" and "rs_key k"
  shows "rs_get E b k = rs_map b k"
proof -
  let ?es = "rs_entries b"
  have h: "holds b ?es" and d: "distinct (map fst ?es)" using assms(1) by (simp_all add: rs_inv_def)
  have k: "length k \<le> 28" using assms(2) by (simp add: rs_key_def)
  have "length v \<le> 65535" if "map_of ?es k = Some v" for v
  proof -
    have "(k, v) \<in> set ?es" using that by (rule map_of_SomeD)
    then have "entry_ok (k, v)" using h unfolding holds_def list_all_iff by blast
    then show ?thesis by (simp add: entry_ok_def)
  qed
  then show ?thesis
    using ramStorageGet_entries [OF h k, of 0 True "Some 65535"] map_of_values [OF d, of k]
    by (auto simp: rs_get_def rs_map_def Let_def split: option.splits)
qed

end

sublocale recursive_mutex \<subseteq> rs: kv_store rs_inv rs_map rs_key rs_fits "rs_put E" "rs_del E" "rs_get E"
  by standard (rule rs_put_ok rs_del_ok rs_get_ok; assumption)+

context recursive_mutex
begin

lemma commands_refine:
  assumes "rs_inv b" and "rs.all_enabled b cs"
  shows "\<exists>b'. rs.run cs b = Some b' \<and> rs_inv b' \<and> rs_map b' = fold kv_apply cs (rs_map b)"
  by (rule rs.run_ok [OF assms])

end

text \<open>A mutex that counts how often its holder has taken it.\<close>

definition counting_env :: "bool \<Rightarrow> nat rs_env" where
  "counting_env a = \<lparr>asserts = a, mutex_lock = (\<lambda>n. Some (Suc n)), mutex_unlock = (\<lambda>n. n - 1), mutex_create = 0\<rparr>"

interpretation counting: recursive_mutex "counting_env a"
  by standard (auto simp: counting_env_def)

end
