(* ===== verification/RouteTable.thy ===== *)
theory RouteTable
  imports Prelude "HOL-Library.Multiset"
begin

text \<open>
  The IPv6 route table of the ESP32 platform (\<^verbatim>\<open>src/platform/ESP32/route_hook/ESP32RouteTable.c\<close>). The linked list
  of entries is a list of addresses with the entry at each; memory allocation, the timers of lwIP and
  the assignment of zones to addresses are parameters.
\<close>

subsection \<open>Data\<close>

record ip6_addr_t =
  ip6_addr :: "byte list"
  ip6_zone :: nat

record esp_route_entry_t =
  prefix :: ip6_addr_t
  prefix_length :: nat
  gateway :: ip6_addr_t
  preference :: int
  lifetime_seconds :: nat
  netif :: nat

record 'l route_table =
  s_route_entries :: "(nat \<times> esp_route_entry_t) list"
  lwip :: 'l

record 'l lwip_env =
  malloc_entry :: "'l \<Rightarrow> nat option \<times> 'l"
  free_entry :: "nat \<Rightarrow> 'l \<Rightarrow> 'l"
  sys_timeout :: "nat \<Rightarrow> nat \<Rightarrow> 'l \<Rightarrow> 'l"
  sys_untimeout :: "nat \<Rightarrow> 'l \<Rightarrow> 'l"
  assign_zone :: "ip6_addr_t \<Rightarrow> nat \<Rightarrow> ip6_addr_t"

datatype esp_err_t = ESP_OK | ESP_FAIL | ESP_ERR_NO_MEM | ESP_ERR_INVALID_ARG | ESP_ERR_INVALID_SIZE | ESP_ERR_NOT_FOUND

definition LWIP_UINT32_MAX :: nat where [simp]: "LWIP_UINT32_MAX = 0xFFFFFFFF"
definition LWIP_MAX_TIMEOUT_SECONDS :: nat where "LWIP_MAX_TIMEOUT_SECONDS = LWIP_UINT32_MAX div (1000 * 4)"

definition u32 :: "nat \<Rightarrow> nat" where
  "u32 x = x mod 2 ^ 32"

lemma max_timeout [simp]: "LWIP_MAX_TIMEOUT_SECONDS = 1073741"
  by (simp add: LWIP_MAX_TIMEOUT_SECONDS_def)

subsection \<open>Operations\<close>

definition same_route :: "esp_route_entry_t \<Rightarrow> esp_route_entry_t \<Rightarrow> bool" where
  "same_route iter route_entry \<longleftrightarrow>
     netif iter = netif route_entry \<and> prefix_length iter = prefix_length route_entry \<and>
     ip6_addr (gateway iter) = ip6_addr (gateway route_entry) \<and>
     take (prefix_length route_entry div 8) (ip6_addr (prefix iter)) =
       take (prefix_length route_entry div 8) (ip6_addr (prefix route_entry))"

definition find_route_entry :: "(nat \<times> esp_route_entry_t) list \<Rightarrow> esp_route_entry_t \<Rightarrow> nat option" where
  "find_route_entry es route_entry = map_option fst (find (\<lambda>(p, iter). same_route iter route_entry) es)"

text \<open>Unlinking the entry at an address: the head, or the first entry whose \<^verbatim>\<open>next\<close> is the address.\<close>

fun unlink :: "nat \<Rightarrow> (nat \<times> esp_route_entry_t) list \<Rightarrow> (nat \<times> esp_route_entry_t) list option" where
  "unlink p [] = None"
| "unlink p ((q, e) # es) = (if q = p then Some es else map_option (Cons (q, e)) (unlink p es))"

definition remove_route_entry :: "'l lwip_env \<Rightarrow> nat \<Rightarrow> 'l route_table \<Rightarrow> esp_err_t \<times> 'l route_table" where
  "remove_route_entry E p t =
    (case unlink p (s_route_entries t) of
       Some es \<Rightarrow> (ESP_OK, t\<lparr>s_route_entries := es, lwip := free_entry E p (lwip t)\<rparr>)
     | None \<Rightarrow> (ESP_ERR_NOT_FOUND, t))"

definition update_entry :: "nat \<Rightarrow> (esp_route_entry_t \<Rightarrow> esp_route_entry_t) \<Rightarrow> 'l route_table \<Rightarrow> 'l route_table" where
  "update_entry p f t = t\<lparr>s_route_entries := map (\<lambda>(q, e). (q, if q = p then f e else e)) (s_route_entries t)\<rparr>"

text \<open>The delay asked for, in milliseconds; a \<^verbatim>\<open>uint32_t\<close>.\<close>

definition route_delay :: "nat \<Rightarrow> nat" where
  "route_delay lifetime =
    (if lifetime \<le> LWIP_MAX_TIMEOUT_SECONDS then u32 (lifetime * 1000) else u32 (LWIP_MAX_TIMEOUT_SECONDS * 1000))"

text \<open>The timer of an entry; \<open>None\<close> when its argument is no longer an entry of the table.\<close>

definition route_timeout_handler :: "'l lwip_env \<Rightarrow> nat \<Rightarrow> 'l route_table \<Rightarrow> 'l route_table option" where
  "route_timeout_handler E route t =
    (case map_of (s_route_entries t) route of
       None \<Rightarrow> None
     | Some e \<Rightarrow>
         if lifetime_seconds e \<le> LWIP_MAX_TIMEOUT_SECONDS then Some (snd (remove_route_entry E route t))
         else (let n = lifetime_seconds e - LWIP_MAX_TIMEOUT_SECONDS;
                   t = update_entry route (\<lambda>e. e\<lparr>lifetime_seconds := n\<rparr>) t
               in Some (t\<lparr>lwip := sys_timeout E (route_delay n) route (lwip t)\<rparr>)))"

definition esp_route_table_add_route_entry ::
  "'l lwip_env \<Rightarrow> esp_route_entry_t option \<Rightarrow> 'l route_table \<Rightarrow> nat option \<times> 'l route_table" where
  "esp_route_table_add_route_entry E arg t =
    (case arg of
       None \<Rightarrow> (None, t)
     | Some r \<Rightarrow>
         (let finish = (\<lambda>p t.
               let t = update_entry p (\<lambda>e. e\<lparr>preference := preference r, lifetime_seconds := lifetime_seconds r\<rparr>) t
               in (Some p,
                   if lifetime_seconds r \<noteq> LWIP_UINT32_MAX
                   then t\<lparr>lwip := sys_timeout E (route_delay (lifetime_seconds r)) p (lwip t)\<rparr> else t))
          in case find_route_entry (s_route_entries t) r of
               None \<Rightarrow>
                 (case malloc_entry E (lwip t) of
                    (None, l) \<Rightarrow> (None, t\<lparr>lwip := l\<rparr>)
                  | (Some p, l) \<Rightarrow>
                      finish p (t\<lparr>lwip := l, s_route_entries :=
                        (p, r\<lparr>gateway := assign_zone E (gateway r) (netif r)\<rparr>) # s_route_entries t\<rparr>))
             | Some p \<Rightarrow> finish p (t\<lparr>lwip := sys_untimeout E p (lwip t)\<rparr>)))"

definition is_better_route :: "esp_route_entry_t option \<Rightarrow> esp_route_entry_t option \<Rightarrow> bool" where
  "is_better_route lhs rhs =
    (case rhs of
       None \<Rightarrow> True
     | Some r \<Rightarrow>
         (case lhs of
            None \<Rightarrow> False
          | Some l \<Rightarrow> prefix_length r < prefix_length l \<or>
                      prefix_length l = prefix_length r \<and> preference r < preference l))"

definition route_match :: "esp_route_entry_t \<Rightarrow> ip6_addr_t \<Rightarrow> bool" where
  "route_match route dest \<longleftrightarrow>
     take (prefix_length route div 8) (ip6_addr dest) = take (prefix_length route div 8) (ip6_addr (prefix route))"

text \<open>The loop of both lookups, over the entries that satisfy the condition.\<close>

definition best_route :: "(esp_route_entry_t \<Rightarrow> bool) \<Rightarrow> (nat \<times> esp_route_entry_t) list \<Rightarrow> esp_route_entry_t option" where
  "best_route P es =
    fold (\<lambda>(p, iter) route. if P iter \<and> is_better_route (Some iter) route then Some iter else route) es None"

definition lwip_hook_ip6_route :: "'l route_table \<Rightarrow> ip6_addr_t \<Rightarrow> ip6_addr_t \<Rightarrow> nat option" where
  "lwip_hook_ip6_route t src dest = map_option netif (best_route (\<lambda>iter. route_match iter dest) (s_route_entries t))"

definition lwip_hook_nd6_get_gw :: "'l route_table \<Rightarrow> nat \<Rightarrow> ip6_addr_t \<Rightarrow> ip6_addr_t option" where
  "lwip_hook_nd6_get_gw t nif dest =
    map_option gateway (best_route (\<lambda>iter. netif iter = nif \<and> route_match iter dest) (s_route_entries t))"

subsection \<open>Lookup\<close>

definition rank_le :: "esp_route_entry_t \<Rightarrow> esp_route_entry_t \<Rightarrow> bool" where
  "rank_le a b \<longleftrightarrow> prefix_length a < prefix_length b \<or> prefix_length a = prefix_length b \<and> preference a \<le> preference b"

text \<open>
  The result is the first of the best entries: none before it is as good, none after it is better.
\<close>

definition is_first_best :: "(esp_route_entry_t \<Rightarrow> bool) \<Rightarrow> esp_route_entry_t list \<Rightarrow> esp_route_entry_t \<Rightarrow> bool" where
  "is_first_best P es e \<longleftrightarrow> P e \<and>
     (\<exists>xs ys. es = xs @ e # ys \<and> (\<forall>x\<in>set xs. P x \<longrightarrow> \<not> rank_le e x) \<and> (\<forall>y\<in>set ys. P y \<longrightarrow> rank_le y e))"

lemma best_route_spec:
  "case best_route P es of
     None \<Rightarrow> \<forall>e\<in>set (map snd es). \<not> P e
   | Some e \<Rightarrow> is_first_best P (map snd es) e"
proof (induction es rule: rev_induct)
  case Nil
  then show ?case by (simp add: best_route_def)
next
  case (snoc x es)
  obtain p i where x: "x = (p, i)" by (cases x)
  let ?r = "best_route P es"
  have b: "best_route P (es @ [x]) = (if P i \<and> is_better_route (Some i) ?r then Some i else ?r)"
    by (simp add: best_route_def x)
  show ?case
  proof (cases "P i \<and> is_better_route (Some i) ?r")
    case True
    have "\<not> rank_le i e" if "e \<in> set (map snd es)" "P e" for e
    proof (cases ?r)
      case None
      then show ?thesis using snoc.IH that by auto
    next
      case (Some r)
      then have r: "is_first_best P (map snd es) r" "\<not> rank_le i r"
        using snoc.IH True by (auto simp: is_better_route_def rank_le_def)
      from r(1) obtain xs ys where xy: "map snd es = xs @ r # ys" "\<forall>x\<in>set xs. P x \<longrightarrow> \<not> rank_le r x" "\<forall>y\<in>set ys. P y \<longrightarrow> rank_le y r"
        by (auto simp: is_first_best_def)
      have "e \<in> set (xs @ r # ys)" using that(1) xy(1) by metis
      then have "rank_le e r" using xy(2,3) that(2) by (auto simp: rank_le_def)
      then show ?thesis using r(2) by (auto simp: rank_le_def)
    qed
    then have "is_first_best P (map snd es @ [i]) i"
      using True unfolding is_first_best_def by (intro conjI exI [of _ "map snd es"] exI [of _ "[]"]) auto
    then show ?thesis using True b by (simp add: x)
  next
    case False
    show ?thesis
    proof (cases ?r)
      case None
      then show ?thesis using snoc.IH False b by (auto simp: x is_better_route_def)
    next
      case (Some r)
      have "P i \<longrightarrow> rank_le i r" using False Some by (auto simp: is_better_route_def rank_le_def)
      moreover obtain xs ys where "map snd es = xs @ r # ys" "P r" "\<forall>x\<in>set xs. P x \<longrightarrow> \<not> rank_le r x" "\<forall>y\<in>set ys. P y \<longrightarrow> rank_le y r"
        using snoc.IH Some by (auto simp: is_first_best_def)
      ultimately have "is_first_best P (map snd es @ [i]) r"
        unfolding is_first_best_def by (intro conjI exI [of _ xs] exI [of _ "ys @ [i]"]) auto
      moreover have "best_route P (es @ [x]) = Some r" unfolding b Some [symmetric] using False by (rule if_not_P)
      ultimately show ?thesis by (simp add: x)
    qed
  qed
qed

lemma best_route_cong: "(\<And>e. e \<in> set (map snd es) \<Longrightarrow> P e = Q e) \<Longrightarrow> best_route P es = best_route Q es"
  unfolding best_route_def by (intro fold_cong) force+

text \<open>
  The bits of an address, the most significant first, and the addresses that an entry covers: those that agree with its prefix in all bits of the whole bytes of the prefix length.
\<close>

definition addr_bit :: "ip6_addr_t \<Rightarrow> nat \<Rightarrow> bool" where
  "addr_bit a i = bit (ip6_addr a ! (i div 8)) (7 - i mod 8)"

definition covers :: "esp_route_entry_t \<Rightarrow> ip6_addr_t \<Rightarrow> bool" where
  "covers e dest \<longleftrightarrow> (\<forall>i < prefix_length e - prefix_length e mod 8. addr_bit dest i = addr_bit (prefix e) i)"

lemma byte_bits: "(\<forall>k<8. bit x (7 - k) = bit y (7 - k)) \<longleftrightarrow> x = y" for x y :: byte
proof
  assume *: "\<forall>k<8. bit x (7 - k) = bit y (7 - k)"
  have "bit x n = bit y n" if "n < 8" for n
    using * [rule_format, of "7 - n"] that by simp
  then show "x = y"
    by (intro bit_word_eqI) simp
qed simp

lemma route_match_covers:
  assumes "length (ip6_addr dest) = 16" "length (ip6_addr (prefix e)) = 16" "prefix_length e \<le> 128"
  shows "route_match e dest \<longleftrightarrow> covers e dest"
proof -
  let ?n = "prefix_length e div 8" and ?d = "ip6_addr dest" and ?p = "ip6_addr (prefix e)"
  have n: "?n \<le> 16" "prefix_length e - prefix_length e mod 8 = 8 * ?n"
    using assms(3) by (simp_all add: minus_mod_eq_mult_div)
  have "take ?n ?d = take ?n ?p \<longleftrightarrow> (\<forall>j<?n. ?d ! j = ?p ! j)"
    using assms(1,2) n(1) by (auto simp: list_eq_iff_nth_eq)
  also have "\<dots> \<longleftrightarrow> (\<forall>j<?n. \<forall>k<8. bit (?d ! j) (7 - k) = bit (?p ! j) (7 - k))"
    by (simp only: byte_bits)
  also have "\<dots> \<longleftrightarrow> (\<forall>i<8 * ?n. bit (?d ! (i div 8)) (7 - i mod 8) = bit (?p ! (i div 8)) (7 - i mod 8))"
  proof
    assume *: "\<forall>i<8 * ?n. bit (?d ! (i div 8)) (7 - i mod 8) = bit (?p ! (i div 8)) (7 - i mod 8)"
    have "8 * j + k < 8 * ?n" "(8 * j + k) div 8 = j" "(8 * j + k) mod 8 = k" if "j < ?n" "k < 8" for j k
      using that by auto
    then show "\<forall>j<?n. \<forall>k<8. bit (?d ! j) (7 - k) = bit (?p ! j) (7 - k)"
      using * by metis
  qed (simp add: less_mult_imp_div_less mult.commute)
  finally show ?thesis
    unfolding route_match_def covers_def addr_bit_def n(2) .
qed

subsection \<open>The table as a state machine\<close>

text \<open>What makes two entries the same route, and the entries that end by a timer.\<close>

definition route_key :: "esp_route_entry_t \<Rightarrow> nat \<times> nat \<times> byte list \<times> byte list" where
  "route_key e = (netif e, prefix_length e, ip6_addr (gateway e), take (prefix_length e div 8) (ip6_addr (prefix e)))"

definition timed :: "(nat \<times> esp_route_entry_t) list \<Rightarrow> nat multiset" where
  "timed es = mset (map fst (filter (\<lambda>(p, e). lifetime_seconds e \<noteq> LWIP_UINT32_MAX) es))"

text \<open>
  The invariant: the entries are at different allocated addresses, no two are the same route, and the timers
  that are pending are those of the entries with a finite lifetime, one each.
\<close>

definition table_inv :: "('l \<Rightarrow> nat set) \<Rightarrow> ('l \<Rightarrow> nat multiset) \<Rightarrow> 'l route_table \<Rightarrow> bool" where
  "table_inv allocated pending t \<longleftrightarrow>
     distinct (map fst (s_route_entries t)) \<and> set (map fst (s_route_entries t)) \<subseteq> allocated (lwip t) \<and>
     distinct (map (\<lambda>(p, e). route_key e) (s_route_entries t)) \<and>
     list_all (\<lambda>(p, e). lifetime_seconds e \<le> LWIP_UINT32_MAX) (s_route_entries t) \<and>
     pending (lwip t) = timed (s_route_entries t)"

text \<open>
  A step: an entry is added or refreshed, or a pending timer ends and its handler runs. \<open>fired\<close> takes the
  timer off the list of lwIP.
\<close>

inductive rt_step ::
  "'l lwip_env \<Rightarrow> ('l \<Rightarrow> nat multiset) \<Rightarrow> (nat \<Rightarrow> 'l \<Rightarrow> 'l) \<Rightarrow> 'l route_table \<Rightarrow> 'l route_table \<Rightarrow> bool"
  for E pending fired where
  add: "lifetime_seconds r \<le> LWIP_UINT32_MAX \<Longrightarrow> esp_route_table_add_route_entry E (Some r) t = (res, t') \<Longrightarrow>
    rt_step E pending fired t t'"
| timer: "p \<in># pending (lwip t) \<Longrightarrow>
    route_timeout_handler E p (t\<lparr>lwip := fired p (lwip t)\<rparr>) = Some t' \<Longrightarrow> rt_step E pending fired t t'"

lemma same_route_key: "same_route a b \<longleftrightarrow> route_key a = route_key b"
  by (auto simp: same_route_def route_key_def)

lemma notin_fst: "p \<notin> set (map fst es) \<longleftrightarrow> (\<forall>e. (p, e) \<notin> set es)"
  by force

lemma find_route_entry_None: "find_route_entry es r = None \<longleftrightarrow> route_key r \<notin> set (map (\<lambda>(p, e). route_key e) es)"
  by (force simp: find_route_entry_def find_None_iff same_route_key image_iff)

lemma find_route_entry_Some:
  "find_route_entry es r = Some p \<Longrightarrow> \<exists>e. (p, e) \<in> set es \<and> route_key e = route_key r"
  by (auto simp: find_route_entry_def find_Some_iff same_route_key in_set_conv_nth) metis

lemma unlink_filter: "distinct (map fst es) \<Longrightarrow>
  unlink p es = (if p \<in> set (map fst es) then Some (filter (\<lambda>(q, e). q \<noteq> p) es) else None)"
proof (induction es)
  case (Cons x es)
  obtain q e where x: "x = (q, e)" by (cases x)
  have "filter (\<lambda>(q, e). q \<noteq> p) es = es" if "p \<notin> set (map fst es)"
    using that by (auto simp: filter_id_conv notin_fst simp del: set_map)
  then show ?case using Cons by (auto simp: x)
qed simp

lemma fst_update [simp]: "map fst (map (\<lambda>(q, e). (q, if q = p then f e else e)) es) = map fst es"
  by (simp add: comp_def split_def)

lemma update_at:
  assumes "distinct (map fst es)" and "(p, e) \<in> set es"
  obtains xs ys where "es = xs @ (p, e) # ys" and "p \<notin> set (map fst xs)" and "p \<notin> set (map fst ys)"
    and "\<And>f. map (\<lambda>(q, e). (q, if q = p then f e else e)) es = xs @ (p, f e) # ys"
proof -
  obtain xs ys where es: "es = xs @ (p, e) # ys" using split_list [OF assms(2)] by blast
  then have n: "p \<notin> set (map fst xs)" "p \<notin> set (map fst ys)" using assms(1) by auto
  have u: "map (\<lambda>(q, e). (q, if q = p then f e else e)) zs = zs" if "p \<notin> set (map fst zs)" for f zs
    using that by (auto simp: notin_fst simp del: set_map intro!: map_idI split: prod.splits)
  show thesis by (rule that [OF es n]) (simp add: es u [OF n(1)] u [OF n(2)])
qed

lemma timed_simps [simp]:
  "timed [] = {#}" "timed (xs @ ys) = timed xs + timed ys"
  "timed ((p, e) # es) = (if lifetime_seconds e \<noteq> LWIP_UINT32_MAX then {#p#} else {#}) + timed es"
  by (simp_all add: timed_def)

lemma timed_notin: "p \<notin> set (map fst es) \<Longrightarrow> p \<notin># timed es"
  by (auto simp: timed_def)

lemma timed_remove:
  assumes "p \<notin> set (map fst xs)" and "p \<notin> set (map fst ys)"
  shows "timed (xs @ (p, e) # ys) - {#p#} = timed xs + timed ys"
proof -
  have "p \<notin># timed xs + timed ys" using timed_notin assms by auto
  then show ?thesis by (simp add: diff_single_trivial)
qed

text \<open>What the code relies on of the allocator and of the timers of lwIP.\<close>

locale lwip_services =
  fixes E :: "'l lwip_env" and allocated :: "'l \<Rightarrow> nat set" and pending :: "'l \<Rightarrow> nat multiset" and fired :: "nat \<Rightarrow> 'l \<Rightarrow> 'l"
  assumes malloc_fresh: "malloc_entry E l = (Some p, l') \<Longrightarrow> p \<notin> allocated l \<and> allocated l' = insert p (allocated l) \<and> pending l' = pending l"
    and malloc_fails: "malloc_entry E l = (None, l') \<Longrightarrow> allocated l' = allocated l \<and> pending l' = pending l"
    and free_allocated: "allocated (free_entry E p l) = allocated l - {p}" "pending (free_entry E p l) = pending l"
    and timeout_pending: "pending (sys_timeout E ms p l) = add_mset p (pending l)" "allocated (sys_timeout E ms p l) = allocated l"
    and untimeout_pending: "pending (sys_untimeout E p l) = pending l - {#p#}" "allocated (sys_untimeout E p l) = allocated l"
    and fired_pending: "pending (fired p l) = pending l - {#p#}" "allocated (fired p l) = allocated l"
    and zone_addr: "ip6_addr (assign_zone E a n) = ip6_addr a"
begin

text \<open>What adding an entry does: nothing without memory, a new entry at the front, or a refreshed entry.\<close>

lemma add_cases:
  assumes inv: "table_inv allocated pending t" and add: "esp_route_table_add_route_entry E (Some r) t = (res, t')"
  obtains
    (no_memory) l where "malloc_entry E (lwip t) = (None, l)" "t' = t\<lparr>lwip := l\<rparr>" "res = None"
  | (new_entry) p l where "malloc_entry E (lwip t) = (Some p, l)" "p \<notin> set (map fst (s_route_entries t))" "find_route_entry (s_route_entries t) r = None"
      "res = Some p" "s_route_entries t' = (p, r\<lparr>gateway := assign_zone E (gateway r) (netif r)\<rparr>) # s_route_entries t"
      "lwip t' = (if lifetime_seconds r \<noteq> LWIP_UINT32_MAX then sys_timeout E (route_delay (lifetime_seconds r)) p l else l)"
  | (refreshed) p e xs ys where "s_route_entries t = xs @ (p, e) # ys" "p \<notin> set (map fst xs)" "p \<notin> set (map fst ys)" "route_key e = route_key r" "res = Some p"
      "s_route_entries t' = xs @ (p, e\<lparr>preference := preference r, lifetime_seconds := lifetime_seconds r\<rparr>) # ys"
      "lwip t' = (if lifetime_seconds r \<noteq> LWIP_UINT32_MAX
        then sys_timeout E (route_delay (lifetime_seconds r)) p (sys_untimeout E p (lwip t)) else sys_untimeout E p (lwip t))"
proof (cases "find_route_entry (s_route_entries t) r")
  case None
  show ?thesis
  proof (cases "fst (malloc_entry E (lwip t))")
    case None': None
    then obtain l where m: "malloc_entry E (lwip t) = (None, l)" by (cases "malloc_entry E (lwip t)") auto
    then have "t' = t\<lparr>lwip := l\<rparr>" "res = None" using add None by (simp_all add: esp_route_table_add_route_entry_def Let_def)
    then show ?thesis using no_memory [OF m] by simp
  next
    case (Some p)
    then obtain l where m: "malloc_entry E (lwip t) = (Some p, l)" by (cases "malloc_entry E (lwip t)") auto
    let ?e = "r\<lparr>gateway := assign_zone E (gateway r) (netif r)\<rparr>"
    have p: "p \<notin> set (map fst (s_route_entries t))" using malloc_fresh [OF m] inv by (auto simp: table_inv_def)
    have upd: "map (\<lambda>(q, e). (q, if q = p then f e else e)) (s_route_entries t) = s_route_entries t" for f
      using p by (auto simp: notin_fst simp del: set_map intro!: map_idI split: prod.splits)
    have e: "?e\<lparr>preference := preference r, lifetime_seconds := lifetime_seconds r\<rparr> = ?e" by simp
    have "res = Some p" "s_route_entries t' = (p, ?e) # s_route_entries t"
      "lwip t' = (if lifetime_seconds r \<noteq> LWIP_UINT32_MAX then sys_timeout E (route_delay (lifetime_seconds r)) p l else l)"
      using add None m e
      by (auto simp: esp_route_table_add_route_entry_def Let_def update_entry_def upd)
    then show ?thesis using new_entry [OF m p None] by blast
  qed
next
  case (Some p)
  then obtain e where e: "(p, e) \<in> set (s_route_entries t)" "route_key e = route_key r"
    using find_route_entry_Some by blast
  have d: "distinct (map fst (s_route_entries t))" using inv by (simp add: table_inv_def)
  obtain xs ys where xy: "s_route_entries t = xs @ (p, e) # ys" "p \<notin> set (map fst xs)" "p \<notin> set (map fst ys)"
    and upd: "\<And>f. map (\<lambda>(q, e). (q, if q = p then f e else e)) (s_route_entries t) = xs @ (p, f e) # ys"
    using update_at [OF d e(1)] by blast
  have "res = Some p" "s_route_entries t' = xs @ (p, e\<lparr>preference := preference r, lifetime_seconds := lifetime_seconds r\<rparr>) # ys"
    "lwip t' = (if lifetime_seconds r \<noteq> LWIP_UINT32_MAX
        then sys_timeout E (route_delay (lifetime_seconds r)) p (sys_untimeout E p (lwip t)) else sys_untimeout E p (lwip t))"
    using add Some by (auto simp: esp_route_table_add_route_entry_def Let_def update_entry_def upd)
  then show ?thesis using refreshed [OF xy e(2)] by blast
qed

lemma add_inv:
  assumes inv: "table_inv allocated pending t" and r: "lifetime_seconds r \<le> LWIP_UINT32_MAX"
    and add: "esp_route_table_add_route_entry E (Some r) t = (res, t')"
  shows "table_inv allocated pending t'"
  using inv add
proof (cases rule: add_cases)
  case (no_memory l)
  then show ?thesis using inv malloc_fails [OF no_memory(1)] by (simp add: table_inv_def)
next
  case (new_entry p l)
  have key: "route_key (r\<lparr>gateway := assign_zone E (gateway r) (netif r)\<rparr>) = route_key r" by (simp add: route_key_def zone_addr)
  show ?thesis
    using inv malloc_fresh [OF new_entry(1)] new_entry(2,3) r
    by (auto simp: table_inv_def new_entry(5,6) find_route_entry_None key timeout_pending)
next
  case (refreshed p e xs ys)
  have key: "route_key (e\<lparr>preference := preference r, lifetime_seconds := lifetime_seconds r\<rparr>) = route_key e" by (simp add: route_key_def)
  have "pending (lwip t) - {#p#} = timed xs + timed ys"
    using inv timed_remove [OF refreshed(2,3)] by (simp add: table_inv_def refreshed(1))
  then show ?thesis
    using inv r refreshed(2,3) by (auto simp: table_inv_def refreshed(1,6,7) key timeout_pending untimeout_pending)
qed

text \<open>A pending timer belongs to an entry; its handler removes the entry or waits again, and keeps the invariant.\<close>

lemma timer_cases:
  assumes inv: "table_inv allocated pending t" and p: "p \<in># pending (lwip t)"
  obtains
    (removed) xs e ys where "s_route_entries t = xs @ (p, e) # ys" "p \<notin> set (map fst xs)" "p \<notin> set (map fst ys)" "lifetime_seconds e \<le> LWIP_MAX_TIMEOUT_SECONDS"
      "route_timeout_handler E p (t\<lparr>lwip := fired p (lwip t)\<rparr>) = Some (t\<lparr>s_route_entries := xs @ ys, lwip := free_entry E p (fired p (lwip t))\<rparr>)"
  | (goes_on) xs e ys where "s_route_entries t = xs @ (p, e) # ys" "p \<notin> set (map fst xs)" "p \<notin> set (map fst ys)" "LWIP_MAX_TIMEOUT_SECONDS < lifetime_seconds e"
      "route_timeout_handler E p (t\<lparr>lwip := fired p (lwip t)\<rparr>) =
        Some (t\<lparr>s_route_entries := xs @ (p, e\<lparr>lifetime_seconds := lifetime_seconds e - LWIP_MAX_TIMEOUT_SECONDS\<rparr>) # ys,
                lwip := sys_timeout E (route_delay (lifetime_seconds e - LWIP_MAX_TIMEOUT_SECONDS)) p (fired p (lwip t))\<rparr>)"
proof -
  let ?es = "s_route_entries t" and ?t = "t\<lparr>lwip := fired p (lwip t)\<rparr>"
  have d: "distinct (map fst ?es)" using inv by (simp add: table_inv_def)
  obtain e where e: "(p, e) \<in> set ?es" using inv p by (auto simp: table_inv_def timed_def)
  then have m: "map_of ?es p = Some e" using d by simp
  obtain xs ys where xy: "?es = xs @ (p, e) # ys" "p \<notin> set (map fst xs)" "p \<notin> set (map fst ys)"
    and upd: "\<And>f. map (\<lambda>(q, e). (q, if q = p then f e else e)) ?es = xs @ (p, f e) # ys"
    using update_at [OF d e] by blast
  show ?thesis
  proof (cases "lifetime_seconds e \<le> LWIP_MAX_TIMEOUT_SECONDS")
    case True
    have "filter (\<lambda>(q, e). q \<noteq> p) zs = zs" if "p \<notin> set (map fst zs)" for zs :: "(nat \<times> esp_route_entry_t) list"
      using that by (auto simp: filter_id_conv notin_fst simp del: set_map)
    then have u: "unlink p ?es = Some (xs @ ys)" using xy d by (simp add: unlink_filter)
    then have "route_timeout_handler E p ?t = Some (t\<lparr>s_route_entries := xs @ ys, lwip := free_entry E p (fired p (lwip t))\<rparr>)"
      using m True by (simp add: route_timeout_handler_def remove_route_entry_def)
    then show ?thesis using removed [OF xy True] by blast
  next
    case False
    then have "LWIP_MAX_TIMEOUT_SECONDS < lifetime_seconds e" by simp
    from goes_on [OF xy this] show ?thesis
      using m False by (simp add: route_timeout_handler_def update_entry_def upd Let_def)
  qed
qed

lemma timer_ok:
  assumes inv: "table_inv allocated pending t" and p: "p \<in># pending (lwip t)"
  shows "\<exists>t'. route_timeout_handler E p (t\<lparr>lwip := fired p (lwip t)\<rparr>) = Some t' \<and> table_inv allocated pending t'"
  using inv p
proof (cases rule: timer_cases)
  case (removed xs e ys)
  have "pending (lwip t) - {#p#} = timed xs + timed ys"
    using inv timed_remove [OF removed(2,3)] by (simp add: table_inv_def removed(1))
  moreover have "set (map fst (xs @ ys)) \<subseteq> allocated (lwip t) - {p}" using inv removed(1-3) by (auto simp: table_inv_def)
  ultimately show ?thesis
    using inv by (auto simp: table_inv_def removed(1,5) free_allocated fired_pending)
next
  case (goes_on xs e ys)
  have pend: "pending (lwip t) - {#p#} = timed xs + timed ys"
    using inv timed_remove [OF goes_on(2,3)] by (simp add: table_inv_def goes_on(1))
  have "route_key (e\<lparr>lifetime_seconds := lifetime_seconds e - LWIP_MAX_TIMEOUT_SECONDS\<rparr>) = route_key e" by (simp add: route_key_def)
  moreover have "lifetime_seconds e \<le> LWIP_UINT32_MAX" using inv by (simp add: table_inv_def goes_on(1))
  ultimately show ?thesis
    using inv pend goes_on(4) by (auto simp: table_inv_def goes_on(1,5) timeout_pending fired_pending)
qed

lemma step_inv: "rt_step E pending fired t t' \<Longrightarrow> table_inv allocated pending t \<Longrightarrow> table_inv allocated pending t'"
proof (induction rule: rt_step.induct)
  case (add r t res t')
  then show ?case using add_inv by blast
next
  case (timer p t t')
  obtain t'' where "route_timeout_handler E p (t\<lparr>lwip := fired p (lwip t)\<rparr>) = Some t''" "table_inv allocated pending t''"
    using timer_ok [OF timer.prems timer.hyps(1)] by blast
  then show ?case using timer.hyps(2) by simp
qed

lemma reachable_inv:
  "(rt_step E pending fired)\<^sup>*\<^sup>* t t' \<Longrightarrow> table_inv allocated pending t \<Longrightarrow> table_inv allocated pending t'"
  by (induction rule: rtranclp_induct) (auto intro: step_inv)

end

subsection \<open>An allocator and timers\<close>

text \<open>The allocated addresses and the pending timers as lists.\<close>

definition list_lwip :: "(nat list \<times> nat list) lwip_env" where
  "list_lwip =
    \<lparr>malloc_entry = (\<lambda>(a, q). (Some (Suc (foldr max a 0)), (Suc (foldr max a 0) # a, q))),
     free_entry = (\<lambda>p (a, q). (removeAll p a, q)),
     sys_timeout = (\<lambda>ms p (a, q). (a, p # q)),
     sys_untimeout = (\<lambda>p (a, q). (a, remove1 p q)),
     assign_zone = (\<lambda>a n. a)\<rparr>"

definition list_allocated :: "nat list \<times> nat list \<Rightarrow> nat set" where
  "list_allocated l = set (fst l)"

definition list_pending :: "nat list \<times> nat list \<Rightarrow> nat multiset" where
  "list_pending l = mset (snd l)"

definition list_fired :: "nat \<Rightarrow> nat list \<times> nat list \<Rightarrow> nat list \<times> nat list" where
  "list_fired p l = (fst l, remove1 p (snd l))"

lemma foldr_max_ge: "x \<in> set a \<Longrightarrow> x \<le> foldr max a (0::nat)"
  by (induction a) auto

lemma foldr_max_fresh: "Suc (foldr max a 0) \<notin> set a"
  using foldr_max_ge [of "Suc (foldr max a 0)" a] by auto

interpretation listed: lwip_services list_lwip list_allocated list_pending list_fired
  by standard
     (auto simp: list_lwip_def list_allocated_def list_pending_def list_fired_def foldr_max_fresh split: prod.splits)

end
