(* ===== verification/RouteHook.thy ===== *)
theory RouteHook
  imports RouteTable
begin

text \<open>
  The reception of router advertisements on the ESP32 platform (\<^verbatim>\<open>src/platform/ESP32/route_hook/ESP32RouteHook.c\<close>):
  the route information options of an advertisement are entered in the route table, and the hook is
  installed on an interface. A result \<open>None\<close> is a read outside the packet or through a null pointer. The
  sizes of the headers are those of the wire formats of RFC 4861 and RFC 4191, which the structures of lwIP
  describe. The lock of the TCP/IP core is not represented.
\<close>

subsection \<open>Data\<close>

definition sizeof_ra_header :: nat where [simp]: "sizeof_ra_header = 16"
definition sizeof_route_option :: nat where [simp]: "sizeof_route_option = 24"
definition sizeof_ip6_addr_p :: nat where [simp]: "sizeof_ip6_addr_p = 16"
definition sizeof_ip6_hdr :: nat where [simp]: "sizeof_ip6_hdr = 40"
definition sizeof_icmp6_hdr :: nat where [simp]: "sizeof_icmp6_hdr = 8"
definition ND6_OPTION_TYPE_ROUTE_INFO :: byte where [simp]: "ND6_OPTION_TYPE_ROUTE_INFO = 24"
definition ICMP6_TYPE_RA :: byte where [simp]: "ICMP6_TYPE_RA = 134"

record route_option_t =
  ro_prefix_length :: byte
  ro_preference :: byte
  ro_route_lifetime :: nat
  ro_prefix :: "byte list"

text \<open>The copy of the option from the packet; \<^verbatim>\<open>lwip_ntohl\<close> is applied to the lifetime.\<close>

definition be32 :: "byte list \<Rightarrow> nat" where
  "be32 bs = ((unat (bs ! 0) * 256 + unat (bs ! 1)) * 256 + unat (bs ! 2)) * 256 + unat (bs ! 3)"

definition read_route_option :: "byte list \<Rightarrow> route_option_t option" where
  "read_route_option p =
    (if sizeof_route_option \<le> length p
     then Some \<lparr>ro_prefix_length = p ! 2, ro_preference = p ! 3, ro_route_lifetime = be32 (take 4 (drop 4 p)),
                ro_prefix = take 16 (drop 8 p)\<rparr>
     else None)"

definition route_preference :: "byte \<Rightarrow> int" where
  "route_preference b = - 2 * uint (drop_bit 4 b AND 1) + uint (drop_bit 3 b AND 1)"

subsection \<open>Operations\<close>

text \<open>The addresses of an interface: whether each is valid, and its bytes.\<close>

definition is_self_address :: "(bool \<times> byte list) list \<Rightarrow> ip6_addr_t \<Rightarrow> bool" where
  "is_self_address addrs addr = list_ex (\<lambda>(valid, a). valid \<and> ip6_addr addr = a) addrs"

text \<open>The entry of a route information option.\<close>

definition rio_entry :: "nat \<Rightarrow> ip6_addr_t \<Rightarrow> route_option_t \<Rightarrow> esp_route_entry_t" where
  "rio_entry nif src_addr ro =
    (let prefix_len_bytes = u8 ((unat (ro_prefix_length ro) + 7) div 8)
     in \<lparr>prefix = \<lparr>ip6_addr = take prefix_len_bytes (ro_prefix ro) @ replicate (16 - prefix_len_bytes) 0, ip6_zone = 0\<rparr>,
         prefix_length = unat (ro_prefix_length ro), gateway = src_addr, preference = route_preference (ro_preference ro),
         lifetime_seconds = ro_route_lifetime ro, netif = nif\<rparr>)"

text \<open>The loop over the options; the list is the rest of the payload.\<close>

function ra_options ::
  "'l lwip_env \<Rightarrow> nat \<Rightarrow> (bool \<times> byte list) list \<Rightarrow> ip6_addr_t \<Rightarrow> byte list \<Rightarrow> 'l route_table \<Rightarrow> 'l route_table option" where
  "ra_options E nif addrs src_addr payload t =
    (if 2 \<le> length payload then
       (let opt_type = payload ! 0; opt_len = u8 (8 * unat (payload ! 1))
        in if opt_len = 0 \<or> length payload < opt_len then Some t
           else if opt_type = ND6_OPTION_TYPE_ROUTE_INFO \<and> sizeof_route_option - sizeof_ip6_addr_p \<le> opt_len \<and>
                   \<not> is_self_address addrs src_addr \<and> opt_len \<le> length payload then
             (case read_route_option payload of
                None \<Rightarrow> None
              | Some ro \<Rightarrow>
                  if 128 < ro_prefix_length ro then Some t
                  else
                    (let prefix_len_bytes = u8 ((unat (ro_prefix_length ro) + 7) div 8);
                         rio_data_len = u8 (opt_len + sizeof_ip6_addr_p - sizeof_route_option)
                     in ra_options E nif addrs src_addr (drop opt_len payload)
                          (if prefix_len_bytes \<le> rio_data_len
                           then snd (esp_route_table_add_route_entry E (Some (rio_entry nif src_addr ro)) t) else t)))
           else ra_options E nif addrs src_addr (drop opt_len payload) t)
     else Some t)"
  by pat_completeness auto
termination
  by (relation "measure (\<lambda>(E, nif, addrs, src, payload, t). length payload)") auto

declare ra_options.simps [simp del]

definition ra_recv_handler ::
  "'l lwip_env \<Rightarrow> nat \<Rightarrow> (bool \<times> byte list) list \<Rightarrow> byte list \<Rightarrow> ip6_addr_t \<Rightarrow> 'l route_table \<Rightarrow> 'l route_table option" where
  "ra_recv_handler E nif addrs icmp_payload src_addr t =
    (if length icmp_payload < sizeof_ra_header then Some t
     else ra_options E nif addrs src_addr (drop sizeof_ra_header icmp_payload) t)"

text \<open>The tests lwIP has for the scope of an address, and a packet: its bytes in the first buffer and its lengths.\<close>

record ip6_tests =
  ip6_addr_islinklocal :: "byte list \<Rightarrow> bool"
  ip6_addr_isallnodes_linklocal :: "byte list \<Rightarrow> bool"
  ip6_addr_isallrouters_linklocal :: "byte list \<Rightarrow> bool"

record pbuf =
  pb_payload :: "byte list"
  pb_tot_len :: nat
  pb_len :: nat

definition icmp6_raw_recv_handler ::
  "'l lwip_env \<Rightarrow> ip6_tests \<Rightarrow> nat \<Rightarrow> (bool \<times> byte list) list \<Rightarrow> pbuf \<Rightarrow> 'l route_table \<Rightarrow> (nat \<times> 'l route_table) option" where
  "icmp6_raw_recv_handler E T nif addrs p t =
    (if length (pb_payload p) < sizeof_ip6_hdr then None
     else
       (let src = \<lparr>ip6_addr = take 16 (drop 8 (pb_payload p)), ip6_zone = 0\<rparr>;
            dest = take 16 (drop 24 (pb_payload p))
        in if pb_tot_len p \<noteq> pb_len p then Some (0, t)
           else if pb_tot_len p \<le> sizeof_ip6_hdr + sizeof_icmp6_hdr then Some (0, t)
           else if \<not> ip6_addr_islinklocal T dest \<and> \<not> ip6_addr_isallnodes_linklocal T dest \<and>
                   \<not> ip6_addr_isallrouters_linklocal T dest then Some (0, t)
           else
             (let icmp_payload = take (pb_tot_len p - sizeof_ip6_hdr) (drop sizeof_ip6_hdr (pb_payload p))
              in if length icmp_payload < pb_tot_len p - sizeof_ip6_hdr then None
                 else if icmp_payload ! 0 = ICMP6_TYPE_RA
                 then map_option (Pair 0) (ra_recv_handler E nif addrs icmp_payload src t)
                 else Some (0, t))))"

text \<open>
  Installing the hook: the services of lwIP and of the network interface are parameters, the state is the list of
  hooks, each an interface and its raw control block.
\<close>

record hook_env =
  esp_netif_get_netif_impl_index :: "nat \<Rightarrow> int"
  netif_get_by_index :: "nat \<Rightarrow> nat option"
  hook_malloc :: bool
  mld6_joingroup_netif :: "nat \<Rightarrow> bool"
  raw_new_ip_type :: "nat option"

definition esp_route_hook_init ::
  "hook_env \<Rightarrow> nat option \<Rightarrow> (nat \<times> nat) list \<Rightarrow> (esp_err_t \<times> (nat \<times> nat) list) option" where
  "esp_route_hook_init H arg s_hooks =
    (case arg of
       None \<Rightarrow> Some (ESP_ERR_INVALID_ARG, s_hooks)
     | Some nif \<Rightarrow>
         (let netif_idx = esp_netif_get_netif_impl_index H nif
          in if netif_idx < 0 \<or> 255 < netif_idx then Some (ESP_ERR_INVALID_SIZE, s_hooks)
             else
               (case netif_get_by_index H (nat netif_idx) of
                  None \<Rightarrow> Some (ESP_ERR_INVALID_ARG, s_hooks)
                | Some lwip_netif \<Rightarrow>
                    if list_ex (\<lambda>(n, pcb). n = lwip_netif) s_hooks then Some (ESP_OK, s_hooks)
                    else if \<not> hook_malloc H then Some (ESP_ERR_NO_MEM, s_hooks)
                    else if \<not> mld6_joingroup_netif H lwip_netif then Some (ESP_FAIL, s_hooks)
                    else
                      (case raw_new_ip_type H of
                         None \<Rightarrow> None
                       | Some pcb \<Rightarrow> Some (ESP_OK, (lwip_netif, pcb) # s_hooks)))))"

subsection \<open>Options with all their bytes\<close>

text \<open>
  The packet has, for each route information option the loop meets, the 24 bytes that are copied.
\<close>

function options_complete :: "byte list \<Rightarrow> bool" where
  "options_complete payload =
    (if 2 \<le> length payload then
       (let opt_len = u8 (8 * unat (payload ! 1))
        in if opt_len = 0 \<or> length payload < opt_len then True
           else (payload ! 0 = ND6_OPTION_TYPE_ROUTE_INFO \<longrightarrow> sizeof_route_option \<le> length payload) \<and>
                options_complete (drop opt_len payload))
     else True)"
  by pat_completeness auto
termination
  by (relation "measure length") auto

declare options_complete.simps [simp del]

lemma read_route_option_ok: "24 \<le> length p \<Longrightarrow> \<exists>ro. read_route_option p = Some ro"
  by (simp add: read_route_option_def)

text \<open>One round of the loop.\<close>

definition rio_step ::
  "'l lwip_env \<Rightarrow> nat \<Rightarrow> (bool \<times> byte list) list \<Rightarrow> ip6_addr_t \<Rightarrow> byte list \<Rightarrow> 'l route_table \<Rightarrow> (bool \<times> 'l route_table) option" where
  "rio_step E nif addrs src payload t =
    (let n = u8 (8 * unat (payload ! 1))
     in if payload ! 0 = ND6_OPTION_TYPE_ROUTE_INFO \<and> 8 \<le> n \<and> \<not> is_self_address addrs src then
          (case read_route_option payload of
             None \<Rightarrow> None
           | Some ro \<Rightarrow>
               if 128 < ro_prefix_length ro then Some (False, t)
               else Some (True, if u8 ((unat (ro_prefix_length ro) + 7) div 8) \<le> u8 (n - 8)
                                then snd (esp_route_table_add_route_entry E (Some (rio_entry nif src ro)) t) else t))
        else Some (True, t))"

lemma ra_options_step:
  "ra_options E nif addrs src payload t =
    (let n = u8 (8 * unat (payload ! 1))
     in if 2 \<le> length payload \<and> n \<noteq> 0 \<and> n \<le> length payload then
          (case rio_step E nif addrs src payload t of
             None \<Rightarrow> None
           | Some (go, t') \<Rightarrow> if go then ra_options E nif addrs src (drop n payload) t' else Some t')
        else Some t)"
  by (subst ra_options.simps) (auto simp: rio_step_def Let_def split: option.splits)

lemma ra_options_induct:
  assumes step: "\<And>payload t. (\<And>t'. 2 \<le> length payload \<Longrightarrow> u8 (8 * unat (payload ! 1)) \<noteq> 0 \<Longrightarrow>
      u8 (8 * unat (payload ! 1)) \<le> length payload \<Longrightarrow> P (drop (u8 (8 * unat (payload ! 1))) payload) t') \<Longrightarrow> P payload t"
  shows "P payload t"
proof (induction "length payload" arbitrary: payload t rule: less_induct)
  case less
  show ?case by (rule step) (rule less.hyps, simp)
qed

lemma ra_options_safe: "options_complete payload \<Longrightarrow> \<exists>t'. ra_options E nif addrs src payload t = Some t'"
proof (induction payload t rule: ra_options_induct)
  case (1 payload t)
  let ?n = "u8 (8 * unat (payload ! 1))"
  show ?case
  proof (cases "2 \<le> length payload \<and> ?n \<noteq> 0 \<and> ?n \<le> length payload")
    case True
    have rest: "options_complete (drop ?n payload)" and here: "payload ! 0 = 24 \<longrightarrow> 24 \<le> length payload"
      using "1.prems" True by (auto simp: options_complete.simps [of payload] Let_def)
    have "rio_step E nif addrs src payload t \<noteq> None"
      using here read_route_option_ok [of payload] by (cases "read_route_option payload") (auto simp: rio_step_def Let_def simp del: not_None_eq)
    then obtain go t' where "rio_step E nif addrs src payload t = Some (go, t')" by auto
    then show ?thesis using True "1.IH" [OF _ _ _ rest, of t'] by (subst ra_options_step) (auto simp: Let_def)
  qed (subst ra_options_step, auto simp: Let_def)
qed

text \<open>
  The invariant of the table is kept, and the entries have a prefix of at most 128 bits, in 16 bytes.
\<close>

definition prefix_ok :: "esp_route_entry_t \<Rightarrow> bool" where
  "prefix_ok e \<longleftrightarrow> prefix_length e \<le> 128 \<and> length (ip6_addr (prefix e)) = 16"

definition prefixes_ok :: "'l route_table \<Rightarrow> bool" where
  "prefixes_ok t \<longleftrightarrow> list_all (\<lambda>(p, e). prefix_ok e) (s_route_entries t)"

lemma be32_bound: "be32 bs \<le> 0xFFFFFFFF"
proof -
  have b: "unat x \<le> 255" for x :: byte
  proof -
    have "unat x < 2 ^ LENGTH(8)" by (rule unsigned_less)
    then show ?thesis by simp
  qed
  show ?thesis using b [of "bs ! 0"] b [of "bs ! 1"] b [of "bs ! 2"] b [of "bs ! 3"] by (simp add: be32_def)
qed

lemma rio_entry_ok:
  assumes "read_route_option payload = Some ro" and "\<not> 128 < ro_prefix_length ro"
  shows "prefix_ok (rio_entry nif src ro)" and "lifetime_seconds (rio_entry nif src ro) \<le> LWIP_UINT32_MAX"
proof -
  have n: "unat (ro_prefix_length ro) \<le> 128" using assms(2) by (simp add: word_less_nat_alt)
  moreover have "length (ro_prefix ro) = 16" using assms(1) by (auto simp: read_route_option_def split: if_splits)
  ultimately show "prefix_ok (rio_entry nif src ro)" by (simp add: prefix_ok_def rio_entry_def Let_def u8_def)
  show "lifetime_seconds (rio_entry nif src ro) \<le> LWIP_UINT32_MAX"
    using assms(1) be32_bound by (auto simp: rio_entry_def Let_def read_route_option_def split: if_splits)
qed

lemma update_prefixes:
  assumes "prefixes_ok t" and "\<And>e. prefix_ok (f e) = prefix_ok e"
  shows "prefixes_ok (update_entry p f t)"
  using assms by (auto simp: prefixes_ok_def update_entry_def list_all_iff)

lemma add_prefixes:
  assumes "prefixes_ok t" and "prefix_ok r"
  shows "prefixes_ok (snd (esp_route_table_add_route_entry E (Some r) t))"
proof -
  have u: "prefixes_ok (update_entry p (\<lambda>e. e\<lparr>preference := a, lifetime_seconds := b\<rparr>) t')" if "prefixes_ok t'" for p a b t'
    by (rule update_prefixes [OF that]) (simp add: prefix_ok_def)
  have l: "prefixes_ok (t'\<lparr>lwip := l\<rparr>) = prefixes_ok t'" for t' l by (simp add: prefixes_ok_def)
  have n: "prefixes_ok (t\<lparr>lwip := l, s_route_entries := (p, r\<lparr>gateway := g\<rparr>) # s_route_entries t\<rparr>)" for p l g
    using assms by (simp add: prefixes_ok_def prefix_ok_def)
  show ?thesis
  proof (cases "find_route_entry (s_route_entries t) r")
    case None
    then show ?thesis
      by (cases "malloc_entry E (lwip t)"; cases "fst (malloc_entry E (lwip t))")
         (simp_all add: esp_route_table_add_route_entry_def Let_def l u n assms(1))
  next
    case (Some p)
    then show ?thesis by (simp add: esp_route_table_add_route_entry_def Let_def l u assms(1))
  qed
qed

context lwip_services
begin

lemma rio_step_inv:
  assumes "table_inv allocated pending t" and "prefixes_ok t" and "rio_step E nif addrs src payload t = Some (go, t')"
  shows "table_inv allocated pending t' \<and> prefixes_ok t'"
proof -
  have "table_inv allocated pending (snd (esp_route_table_add_route_entry E (Some (rio_entry nif src ro)) t)) \<and>
      prefixes_ok (snd (esp_route_table_add_route_entry E (Some (rio_entry nif src ro)) t))"
    if "read_route_option payload = Some ro" "\<not> 128 < ro_prefix_length ro" for ro
    using add_inv [OF assms(1) rio_entry_ok(2) [OF that], of nif src] add_prefixes [OF assms(2) rio_entry_ok(1) [OF that]]
    by (metis prod.collapse)
  then show ?thesis using assms by (auto simp: rio_step_def Let_def split: if_splits option.splits)
qed

lemma ra_options_inv:
  "table_inv allocated pending t \<Longrightarrow> prefixes_ok t \<Longrightarrow> ra_options E nif addrs src payload t = Some t' \<Longrightarrow>
   table_inv allocated pending t' \<and> prefixes_ok t'"
proof (induction payload t rule: ra_options_induct)
  case (1 payload t)
  let ?n = "u8 (8 * unat (payload ! 1))"
  show ?case
  proof (cases "2 \<le> length payload \<and> ?n \<noteq> 0 \<and> ?n \<le> length payload")
    case True
    then obtain go t1 where t1: "rio_step E nif addrs src payload t = Some (go, t1)"
      "(if go then ra_options E nif addrs src (drop ?n payload) t1 else Some t1) = Some t'"
      using "1.prems"(3) unfolding ra_options_step [of E nif addrs src payload t]
      by (auto simp: Let_def simp del: One_nat_def split: option.splits)
    then show ?thesis
      using "1.IH" [of t1] True rio_step_inv [OF "1.prems"(1,2) t1(1)] by (auto split: if_splits)
  next
    case False
    then show ?thesis using "1.prems" unfolding ra_options_step [of E nif addrs src payload t] by (auto simp: Let_def)
  qed
qed

end

subsection \<open>An option and its entry\<close>

text \<open>The route information option of RFC 4191 with a prefix of up to 16 bytes, in three units of eight bytes.\<close>

definition to_be32 :: "nat \<Rightarrow> byte list" where
  "to_be32 n = [of_nat (n div 2 ^ 24), of_nat (n div 2 ^ 16), of_nat (n div 2 ^ 8), of_nat n]"

definition enc_preference :: "int \<Rightarrow> byte" where
  "enc_preference p = (if p = 1 then 0x08 else if p = 0 then 0 else if p = - 1 then 0x18 else 0x10)"

definition enc_rio :: "esp_route_entry_t \<Rightarrow> byte list" where
  "enc_rio e = [24, 3, of_nat (prefix_length e), enc_preference (preference e)] @ to_be32 (lifetime_seconds e) @
     ip6_addr (prefix e)"

definition rio_ok :: "esp_route_entry_t \<Rightarrow> bool" where
  "rio_ok e \<longleftrightarrow> prefix_length e \<le> 128 \<and> length (ip6_addr (prefix e)) = 16 \<and> - 2 \<le> preference e \<and> preference e \<le> 1 \<and>
     lifetime_seconds e < 2 ^ 32 \<and> ip6_zone (prefix e) = 0 \<and>
     list_all (\<lambda>b. b = 0) (drop ((prefix_length e + 7) div 8) (ip6_addr (prefix e)))"

lemma be32_to_be32: "n < 2 ^ 32 \<Longrightarrow> be32 (to_be32 n) = n"
proof -
  assume n: "n < 2 ^ 32"
  let ?a = "n div 256" let ?b = "?a div 256" let ?c = "?b div 256"
  have d: "n div 65536 = ?b" "n div 16777216 = ?c" by (simp_all add: div_mult2_eq [symmetric])
  have "?c < 256" using n by (simp add: div_mult2_eq [symmetric] less_mult_imp_div_less)
  then have "be32 (to_be32 n) = ((?c * 256 + ?b mod 256) * 256 + ?a mod 256) * 256 + n mod 256"
    by (simp add: be32_def to_be32_def unsigned_of_nat take_bit_nat_def d)
  also have "\<dots> = n" by (simp only: div_mult_mod_eq)
  finally show ?thesis .
qed

lemma route_preference_enc: "- 2 \<le> p \<Longrightarrow> p \<le> 1 \<Longrightarrow> route_preference (enc_preference p) = p"
proof -
  assume "- 2 \<le> p" "p \<le> 1"
  then consider "p = - 2" | "p = - 1" | "p = 0" | "p = 1" by linarith
  then show ?thesis by cases (simp_all add: route_preference_def enc_preference_def)
qed

lemma rio_roundtrip:
  assumes "rio_ok e"
  shows "\<exists>ro. read_route_option (enc_rio e @ r) = Some ro \<and> rio_entry (netif e) (gateway e) ro = e \<and>
    unat (ro_prefix_length ro) = prefix_length e"
proof -
  let ?n = "(prefix_length e + 7) div 8" and ?a = "ip6_addr (prefix e)"
  have len: "length ?a = 16" "prefix_length e \<le> 128" using assms by (simp_all add: rio_ok_def)
  then have n: "?n \<le> 16" by simp
  have pl: "unat (of_nat (prefix_length e) :: byte) = prefix_length e"
    using len by (simp add: unsigned_of_nat take_bit_nat_def)
  have "drop ?n ?a = replicate (16 - ?n) 0"
    using assms len by (auto simp: rio_ok_def list_all_iff intro!: replicate_eqI)
  then have zeros: "take ?n ?a @ replicate (16 - ?n) 0 = ?a" by (metis append_take_drop_id)
  let ?ro = "\<lparr>ro_prefix_length = of_nat (prefix_length e), ro_preference = enc_preference (preference e),
    ro_route_lifetime = lifetime_seconds e, ro_prefix = ?a\<rparr>"
  have "be32 (to_be32 (lifetime_seconds e)) = lifetime_seconds e" using assms be32_to_be32 by (simp add: rio_ok_def)
  then have "read_route_option (enc_rio e @ r) = Some ?ro"
    using len by (simp add: read_route_option_def enc_rio_def to_be32_def)
  moreover have "rio_entry (netif e) (gateway e) ?ro = e"
  proof -
    have "u8 ?n = ?n" using n by (simp add: u8_id)
    moreover have "route_preference (enc_preference (preference e)) = preference e"
      using assms route_preference_enc by (simp add: rio_ok_def)
    moreover have "\<lparr>ip6_addr = ?a, ip6_zone = 0\<rparr> = prefix e"
      using assms by (simp add: rio_ok_def)
    ultimately show ?thesis using pl zeros by (simp add: rio_entry_def Let_def)
  qed
  ultimately show ?thesis using pl by auto
qed

text \<open>An advertisement with one such option adds the entry.\<close>

lemma ra_one_rio:
  assumes e: "rio_ok e" and self: "\<not> is_self_address addrs (gateway e)" and hdr: "length hdr = 16"
  shows "ra_recv_handler E (netif e) addrs (hdr @ enc_rio e) (gateway e) t =
    Some (snd (esp_route_table_add_route_entry E (Some e) t))"
proof -
  obtain ro where ro: "read_route_option (enc_rio e) = Some ro" "rio_entry (netif e) (gateway e) ro = e"
    "unat (ro_prefix_length ro) = prefix_length e"
    using rio_roundtrip [OF e, of "[]"] by auto
  have pl: "prefix_length e \<le> 128" "length (ip6_addr (prefix e)) = 16" using e by (simp_all add: rio_ok_def)
  have p: "enc_rio e ! 0 = 24" "enc_rio e ! 1 = 3" "length (enc_rio e) = 24"
    using pl by (simp_all add: enc_rio_def to_be32_def)
  have "\<not> 128 < ro_prefix_length ro" using ro(3) pl by (simp add: word_less_nat_alt)
  then have "rio_step E (netif e) addrs (gateway e) (enc_rio e) t = Some (True, snd (esp_route_table_add_route_entry E (Some e) t))"
    using ro p self pl by (simp add: rio_step_def Let_def u8_def)
  moreover have "ra_options E (netif e) addrs (gateway e) [] t' = Some t'" for t'
    by (subst ra_options_step) (simp add: Let_def)
  ultimately have "ra_options E (netif e) addrs (gateway e) (enc_rio e) t = Some (snd (esp_route_table_add_route_entry E (Some e) t))"
    using p by (subst ra_options_step) (simp add: Let_def u8_def)
  then show ?thesis using hdr by (simp add: ra_recv_handler_def)
qed

text \<open>A default route in an option of one unit of eight bytes at the end of the packet: 24 bytes are copied.\<close>

lemma ra_short_rio:
  assumes self: "\<not> is_self_address addrs src" and hdr: "length hdr = 16" and opt: "length opt = 8" "opt ! 0 = 24" "opt ! 1 = 1"
  shows "ra_recv_handler E nif addrs (hdr @ opt) src t = None"
proof -
  have "rio_step E nif addrs src opt t = None"
    using assms by (simp add: rio_step_def Let_def u8_def read_route_option_def)
  then have "ra_options E nif addrs src opt t = None"
    using opt by (subst ra_options_step) (simp add: Let_def u8_def)
  then show ?thesis using hdr by (simp add: ra_recv_handler_def)
qed

subsection \<open>Installing the hook\<close>

lemma hook_init_distinct:
  assumes "distinct (map fst hooks)" and "esp_route_hook_init H arg hooks = Some (err, hooks')"
  shows "distinct (map fst hooks') \<and> (err \<noteq> ESP_OK \<longrightarrow> hooks' = hooks)"
  using assms by (fastforce simp: esp_route_hook_init_def Let_def list_ex_iff split: option.splits if_splits)

lemma hook_init_again:
  assumes "esp_route_hook_init H arg hooks = Some (ESP_OK, hooks')"
  shows "esp_route_hook_init H arg hooks' = Some (ESP_OK, hooks')"
  using assms by (auto simp: esp_route_hook_init_def Let_def list_ex_iff split: option.splits if_splits)

end
