(* ===== verification/RouteClock.thy ===== *)
theory RouteClock
  imports RouteTable
begin

text \<open>
  The expiry of routes in time: the timers of lwIP with the times at which they end. A run of the system adds routes, lets time pass up to
  the end of the next timer, and runs the handlers of timers that have ended.
\<close>

text \<open>
  The clock of lwIP: \<open>now\<close> is the time in milliseconds, \<open>due\<close> are the pending timers with the times at which they end; \<open>wait\<close> lets time pass.
\<close>

locale lwip_clock = lwip_services E allocated pending fired
  for E :: "'l lwip_env" and allocated :: "'l \<Rightarrow> nat set" and pending :: "'l \<Rightarrow> nat multiset" and fired :: "nat \<Rightarrow> 'l \<Rightarrow> 'l" +
  fixes now :: "'l \<Rightarrow> nat" and due :: "'l \<Rightarrow> (nat \<times> nat) multiset" and wait :: "nat \<Rightarrow> 'l \<Rightarrow> 'l"
  assumes due_pending: "pending l = image_mset snd (due l)"
    and timeout_due: "due (sys_timeout E ms p l) = add_mset (now l + ms, p) (due l)"
    and untimeout_due: "due (sys_untimeout E p l) \<subseteq># due l" "q \<noteq> p \<Longrightarrow> count (due (sys_untimeout E p l)) (d, q) = count (due l) (d, q)"
    and fired_due: "(now l, p) \<in># due l \<Longrightarrow> due (fired p l) = due l - {#(now l, p)#}"
    and memory_due: "due (snd (malloc_entry E l)) = due l" "due (free_entry E p l) = due l"
    and now_same: "now (sys_timeout E ms p l) = now l" "now (sys_untimeout E p l) = now l" "now (fired p l) = now l"
      "now (snd (malloc_entry E l)) = now l" "now (free_entry E p l) = now l"
    and wait_clock: "now (wait n l) = n" "due (wait n l) = due l" "allocated (wait n l) = allocated l"

text \<open>
  A step that does not add or refresh the route with the key \<open>k\<close>: another route is added, the handler of a timer that ends now runs, or time passes.
\<close>

inductive clock_step ::
  "'l lwip_env \<Rightarrow> (nat \<Rightarrow> 'l \<Rightarrow> 'l) \<Rightarrow> ('l \<Rightarrow> nat) \<Rightarrow> ('l \<Rightarrow> (nat \<times> nat) multiset) \<Rightarrow> (nat \<Rightarrow> 'l \<Rightarrow> 'l) \<Rightarrow>
   nat \<times> nat \<times> byte list \<times> byte list \<Rightarrow> 'l route_table \<Rightarrow> 'l route_table \<Rightarrow> bool"
  for E fired now due wait k where
  add_other: "lifetime_seconds r \<le> LWIP_UINT32_MAX \<Longrightarrow> route_key r \<noteq> k \<Longrightarrow> esp_route_table_add_route_entry E (Some r) t = (res, t') \<Longrightarrow>
    clock_step E fired now due wait k t t'"
| timer_ends: "(now (lwip t), p) \<in># due (lwip t) \<Longrightarrow> route_timeout_handler E p (t\<lparr>lwip := fired p (lwip t)\<rparr>) = Some t' \<Longrightarrow>
    clock_step E fired now due wait k t t'"
| time_passes: "now (lwip t) \<le> n \<Longrightarrow> \<forall>(d, q) \<in># due (lwip t). n \<le> d \<Longrightarrow> clock_step E fired now due wait k t (t\<lparr>lwip := wait n (lwip t)\<rparr>)"

definition has_route :: "nat \<times> nat \<times> byte list \<times> byte list \<Rightarrow> 'l route_table \<Rightarrow> bool" where
  "has_route k t \<longleftrightarrow> k \<in> set (map (\<lambda>(p, e). route_key e) (s_route_entries t))"

text \<open>The entry of the route, whose timer and remaining lifetime lead to the time \<open>x\<close>.\<close>

definition runs_until :: "('l \<Rightarrow> (nat \<times> nat) multiset) \<Rightarrow> nat \<times> nat \<times> byte list \<times> byte list \<Rightarrow> nat \<Rightarrow> 'l route_table \<Rightarrow> bool" where
  "runs_until due k x t \<longleftrightarrow> (\<exists>p e s. (p, e) \<in> set (s_route_entries t) \<and> route_key e = k \<and> lifetime_seconds e \<noteq> LWIP_UINT32_MAX \<and>
     s + lifetime_seconds e * 1000 = x \<and> (\<forall>d. (d, p) \<in># due (lwip t) \<longleftrightarrow> d = s + route_delay (lifetime_seconds e)))"

lemma route_delay_eq: "route_delay n = min n LWIP_MAX_TIMEOUT_SECONDS * 1000"
  by (simp add: route_delay_def u32_def min_def)

text \<open>
  The invariant of a run: no timer is overdue, and either the route is in the table until the time \<open>x\<close>, or it is gone and \<open>x\<close> is not in the future.
\<close>

definition clock_inv :: "('l \<Rightarrow> nat set) \<Rightarrow> ('l \<Rightarrow> nat multiset) \<Rightarrow> ('l \<Rightarrow> nat) \<Rightarrow> ('l \<Rightarrow> (nat \<times> nat) multiset) \<Rightarrow>
    nat \<times> nat \<times> byte list \<times> byte list \<Rightarrow> nat \<Rightarrow> 'l route_table \<Rightarrow> bool" where
  "clock_inv allocated pending now due k x t \<longleftrightarrow> table_inv allocated pending t \<and> (\<forall>(d, q) \<in># due (lwip t). now (lwip t) \<le> d) \<and>
     (runs_until due k x t \<or> \<not> has_route k t \<and> x \<le> now (lwip t))"

text \<open>The steps that the handlers of the present entries can still take.\<close>

definition timer_work :: "'l route_table \<Rightarrow> nat" where
  "timer_work t = sum_list (map (\<lambda>(p, e). Suc (lifetime_seconds e)) (s_route_entries t))"

context lwip_clock
begin

lemma due_entry:
  assumes "table_inv allocated pending t" "(d, p) \<in># due (lwip t)"
  shows "p \<in># pending (lwip t)" "p \<in> set (map fst (s_route_entries t))"
proof -
  show "p \<in># pending (lwip t)"
    using assms(2) by (force simp: due_pending)
  then show "p \<in> set (map fst (s_route_entries t))"
    using assms(1) by (auto simp: table_inv_def timed_def)
qed

text \<open>The entries of a table with the invariant have different addresses and different keys.\<close>

lemma entry_unique:
  assumes "table_inv allocated pending t" "(p, e) \<in> set (s_route_entries t)" "(q, f) \<in> set (s_route_entries t)"
  shows "p = q \<Longrightarrow> e = f" "route_key e = route_key f \<Longrightarrow> p = q"
proof -
  have d: "distinct (map fst (s_route_entries t))" "distinct (map (\<lambda>(p, e). route_key e) (s_route_entries t))"
    using assms(1) by (simp_all add: table_inv_def)
  show "p = q \<Longrightarrow> e = f"
    using d(1) assms(2,3) by (metis eq_key_imp_eq_value)
  show "route_key e = route_key f \<Longrightarrow> p = q"
    using d(2) assms(2,3) by (auto simp: distinct_map inj_on_def)
qed

lemma clock_add:
  assumes inv: "clock_inv allocated pending now due k x t" and r: "lifetime_seconds r \<le> LWIP_UINT32_MAX" "route_key r \<noteq> k"
    and add: "esp_route_table_add_route_entry E (Some r) t = (res, t')"
  shows "clock_inv allocated pending now due k x t'"
proof -
  have ti: "table_inv allocated pending t"
    using inv by (simp add: clock_inv_def)
  note ti' = add_inv [OF ti r(1) add]
  show ?thesis
    using ti add
  proof (cases rule: add_cases)
    case (no_memory l)
    then have "due l = due (lwip t)" "now l = now (lwip t)"
      using memory_due(1) [of "lwip t"] now_same(4) [of "lwip t"] by simp_all
    then show ?thesis
      using inv ti' by (auto simp: clock_inv_def runs_until_def has_route_def no_memory(2))
  next
    case (new_entry p l)
    have l: "due l = due (lwip t)" "now l = now (lwip t)"
      using memory_due(1) [of "lwip t"] now_same(4) [of "lwip t"] new_entry(1) by simp_all
    have now: "now (lwip t') = now (lwip t)"
      using l by (simp add: new_entry(6) now_same)
    have due': "(d, q) \<in># due (lwip t') \<longleftrightarrow> (d, q) \<in># due (lwip t) \<or> q = p \<and> lifetime_seconds r \<noteq> LWIP_UINT32_MAX \<and> d = now (lwip t) + route_delay (lifetime_seconds r)" for d q
      using l by (auto simp: new_entry(6) timeout_due)
    have "route_key (r\<lparr>gateway := assign_zone E (gateway r) (netif r)\<rparr>) = route_key r"
      by (simp add: route_key_def zone_addr)
    then have "has_route k t' = has_route k t"
      using r(2) by (simp add: has_route_def new_entry(5))
    moreover have "runs_until due k x t'" if "runs_until due k x t"
    proof -
      obtain q e s where q: "(q, e) \<in> set (s_route_entries t)" "route_key e = k" "lifetime_seconds e \<noteq> LWIP_UINT32_MAX"
        "s + lifetime_seconds e * 1000 = x" "\<forall>d. (d, q) \<in># due (lwip t) \<longleftrightarrow> d = s + route_delay (lifetime_seconds e)"
        using \<open>runs_until due k x t\<close> unfolding runs_until_def by blast
      have "q \<noteq> p"
        using q(1) new_entry(2) by force
      then show ?thesis
        using q due' unfolding runs_until_def by (intro exI [of _ q] exI [of _ e] exI [of _ s]) (simp add: new_entry(5))
    qed
    ultimately show ?thesis
      using inv ti' now due' unfolding clock_inv_def by force
  next
    case (refreshed p e xs ys)
    have now: "now (lwip t') = now (lwip t)"
      by (simp add: refreshed(7) now_same)
    have old: "(d, q) \<in># due (sys_untimeout E p (lwip t)) \<Longrightarrow> (d, q) \<in># due (lwip t)" for d q
      using untimeout_due(1) mset_subset_eqD by metis
    have other: "(d, q) \<in># due (lwip t') \<longleftrightarrow> (d, q) \<in># due (lwip t)" if "q \<noteq> p" for d q
      using untimeout_due(2) [OF that, of "lwip t" d] that by (simp add: refreshed(7) timeout_due) (metis count_greater_zero_iff)
    have later: "now (lwip t) \<le> d" if "(d, q) \<in># due (lwip t')" for d q
      using that inv old [of d q] by (auto simp: refreshed(7) timeout_due clock_inv_def now_same split: if_splits)
    have "has_route k t' = has_route k t"
      by (simp add: has_route_def refreshed(1,6) route_key_def)
    moreover have "runs_until due k x t'" if "runs_until due k x t"
    proof -
      obtain q f s where q: "(q, f) \<in> set (s_route_entries t)" "route_key f = k" "lifetime_seconds f \<noteq> LWIP_UINT32_MAX"
        "s + lifetime_seconds f * 1000 = x" "\<forall>d. (d, q) \<in># due (lwip t) \<longleftrightarrow> d = s + route_delay (lifetime_seconds f)"
        using \<open>runs_until due k x t\<close> unfolding runs_until_def by blast
      have "(p, e) \<in> set (s_route_entries t)"
        by (simp add: refreshed(1))
      then have "q \<noteq> p"
        using entry_unique(1) [OF ti q(1)] q(2) refreshed(4) r(2) by metis
      then show ?thesis
        using q other unfolding runs_until_def by (intro exI [of _ q] exI [of _ f] exI [of _ s]) (auto simp: refreshed(1,6))
    qed
    ultimately show ?thesis
      using inv ti' now later unfolding clock_inv_def by force
  qed
qed

text \<open>A timer that ends now is taken off the list: its entry has no other timer, and the timers of other entries stay.\<close>

lemma fired_gone:
  assumes ti: "table_inv allocated pending t" and p: "(now (lwip t), p) \<in># due (lwip t)"
  shows "(d, p) \<notin># due (fired p (lwip t))"
proof
  assume "(d, p) \<in># due (fired p (lwip t))"
  then have "p \<in># pending (fired p (lwip t))"
    by (force simp: due_pending)
  then have "p \<in># pending (lwip t) - {#p#}"
    by (simp add: fired_pending)
  moreover have "distinct (map fst (filter (\<lambda>(p, e). lifetime_seconds e \<noteq> LWIP_UINT32_MAX) (s_route_entries t)))"
    using ti by (intro distinct_map_filter) (simp add: table_inv_def)
  then have "count (pending (lwip t)) p \<le> 1"
    using ti by (simp add: table_inv_def timed_def distinct_count_atmost_1)
  ultimately show False
    by (simp add: in_diff_count)
qed

lemma fired_other:
  assumes "(now (lwip t), p) \<in># due (lwip t)" "q \<noteq> p"
  shows "(d, q) \<in># due (fired p (lwip t)) \<longleftrightarrow> (d, q) \<in># due (lwip t)"
  using assms(2) by (simp add: fired_due [OF assms(1)] in_diff_count)

lemma fired_later:
  assumes "\<forall>(d, q) \<in># due (lwip t). now (lwip t) \<le> d" "(now (lwip t), p) \<in># due (lwip t)" "(d, q) \<in># due (fired p (lwip t))"
  shows "now (lwip t) \<le> d"
  using assms(1) in_diffD [OF assms(3) [unfolded fired_due [OF assms(2)]]] by auto

text \<open>The entry of the route in a table where the timer of \<open>p\<close> ends: it is at another address, or the time of its timer is now.\<close>

lemma runs_until_cases:
  assumes ti: "table_inv allocated pending t" and p: "(now (lwip t), p) \<in># due (lwip t)" "s_route_entries t = xs @ (p, e) # ys"
    and runs: "runs_until due k x t"
  obtains (own) s where "route_key e = k" "s + lifetime_seconds e * 1000 = x" "now (lwip t) = s + route_delay (lifetime_seconds e)"
  | (other) q f s where "q \<noteq> p" "(q, f) \<in> set xs \<union> set ys" "route_key f = k" "lifetime_seconds f \<noteq> LWIP_UINT32_MAX" "s + lifetime_seconds f * 1000 = x"
      "\<And>d. (d, q) \<in># due (lwip t) \<longleftrightarrow> d = s + route_delay (lifetime_seconds f)"
proof -
  obtain q f s where q: "(q, f) \<in> set (s_route_entries t)" "route_key f = k" "lifetime_seconds f \<noteq> LWIP_UINT32_MAX"
    "s + lifetime_seconds f * 1000 = x" "\<forall>d. (d, q) \<in># due (lwip t) \<longleftrightarrow> d = s + route_delay (lifetime_seconds f)"
    using runs unfolding runs_until_def by blast
  show thesis
  proof (cases "q = p")
    case True
    have "(p, e) \<in> set (s_route_entries t)"
      by (simp add: p(2))
    then have "f = e"
      using entry_unique(1) [OF ti q(1)] True by blast
    then show ?thesis
      using own [of s] q(2,4,5) p(1) True by blast
  next
    case False
    then have "(q, f) \<in> set xs \<union> set ys"
      using q(1) by (simp add: p(2))
    then show ?thesis
      using other [OF False _ q(2-4)] q(5) by blast
  qed
qed

lemma removed_runs:
  assumes ti: "table_inv allocated pending t" and p: "(now (lwip t), p) \<in># due (lwip t)"
    and t: "s_route_entries t = xs @ (p, e) # ys" "lifetime_seconds e \<le> LWIP_MAX_TIMEOUT_SECONDS"
    and t': "s_route_entries t' = xs @ ys" "lwip t' = free_entry E p (fired p (lwip t))"
    and runs: "runs_until due k x t"
  shows "runs_until due k x t' \<or> \<not> has_route k t' \<and> x \<le> now (lwip t')"
  using ti p t(1) runs
proof (cases rule: runs_until_cases)
  case (own s)
  have "x = now (lwip t')"
    using own t(2) by (simp add: t'(2) now_same route_delay_eq)
  moreover have "distinct (map (\<lambda>(p, e). route_key e) (xs @ (p, e) # ys))"
    using ti by (simp add: table_inv_def t(1))
  then have "\<not> has_route k t'"
    using own(1) by (simp add: has_route_def t'(1))
  ultimately show ?thesis
    by simp
next
  case (other q f s)
  have "(d, q) \<in># due (lwip t') \<longleftrightarrow> d = s + route_delay (lifetime_seconds f)" for d
    using fired_other [OF p other(1)] other(6) by (simp add: t'(2) memory_due)
  then have "runs_until due k x t'"
    using other(2-5) unfolding runs_until_def by (intro exI [of _ q] exI [of _ f] exI [of _ s]) (simp add: t'(1))
  then show ?thesis ..
qed

lemma goes_on_runs:
  assumes ti: "table_inv allocated pending t" and p: "(now (lwip t), p) \<in># due (lwip t)"
    and t: "s_route_entries t = xs @ (p, e) # ys" "LWIP_MAX_TIMEOUT_SECONDS < lifetime_seconds e"
    and n: "n = lifetime_seconds e - LWIP_MAX_TIMEOUT_SECONDS"
    and t': "s_route_entries t' = xs @ (p, e\<lparr>lifetime_seconds := n\<rparr>) # ys" "lwip t' = sys_timeout E (route_delay n) p (fired p (lwip t))"
    and runs: "runs_until due k x t"
  shows "runs_until due k x t'"
  using ti p t(1) runs
proof (cases rule: runs_until_cases)
  case (own s)
  have x: "now (lwip t) + n * 1000 = x"
    using own(2,3) t(2) by (simp add: route_delay_eq n)
  have "lifetime_seconds e \<le> LWIP_UINT32_MAX"
    using ti by (simp add: table_inv_def t(1))
  then have "n \<noteq> LWIP_UINT32_MAX"
    using t(2) by (simp add: n)
  moreover have "(d, p) \<in># due (lwip t') \<longleftrightarrow> d = now (lwip t) + route_delay n" for d
    using fired_gone [OF ti p] by (auto simp: t'(2) timeout_due now_same)
  moreover have "route_key (e\<lparr>lifetime_seconds := n\<rparr>) = k"
    using own(1) by (simp add: route_key_def)
  ultimately show ?thesis
    using x unfolding runs_until_def by (intro exI [of _ p] exI [of _ "e\<lparr>lifetime_seconds := n\<rparr>"] exI [of _ "now (lwip t)"]) (simp add: t'(1))
next
  case (other q f s)
  have "(d, q) \<in># due (lwip t') \<longleftrightarrow> d = s + route_delay (lifetime_seconds f)" for d
    using fired_other [OF p other(1)] other(1,6) by (simp add: t'(2) timeout_due)
  moreover have "(q, f) \<in> set (s_route_entries t')"
    using other(2) by (auto simp: t'(1))
  ultimately show ?thesis
    using other(3-5) unfolding runs_until_def by blast
qed

lemma clock_timer:
  assumes inv: "clock_inv allocated pending now due k x t" and p: "(now (lwip t), p) \<in># due (lwip t)"
  shows "\<exists>t'. route_timeout_handler E p (t\<lparr>lwip := fired p (lwip t)\<rparr>) = Some t' \<and> clock_inv allocated pending now due k x t' \<and> timer_work t' < timer_work t"
proof -
  have ti: "table_inv allocated pending t" and ahead: "\<forall>(d, q) \<in># due (lwip t). now (lwip t) \<le> d"
    and obs: "runs_until due k x t \<or> \<not> has_route k t \<and> x \<le> now (lwip t)"
    using inv by (simp_all add: clock_inv_def)
  note pend = due_entry(1) [OF ti p]
  obtain t' where t': "route_timeout_handler E p (t\<lparr>lwip := fired p (lwip t)\<rparr>) = Some t'" "table_inv allocated pending t'"
    using timer_ok [OF ti pend] by blast
  show ?thesis
    using ti pend
  proof (cases rule: timer_cases)
    case (removed xs e ys)
    have eq: "s_route_entries t' = xs @ ys" "lwip t' = free_entry E p (fired p (lwip t))"
      using t'(1) removed(5) by auto
    have "runs_until due k x t' \<or> \<not> has_route k t' \<and> x \<le> now (lwip t')"
      using obs
    proof
      assume "\<not> has_route k t \<and> x \<le> now (lwip t)"
      then show ?thesis
        by (simp add: has_route_def removed(1) eq now_same)
    qed (rule removed_runs [OF ti p removed(1,4) eq])
    moreover have "\<forall>(d, q) \<in># due (lwip t'). now (lwip t') \<le> d"
      using fired_later [OF ahead p] by (auto simp: eq(2) memory_due now_same)
    moreover have "timer_work t' < timer_work t"
      by (simp add: timer_work_def eq(1) removed(1))
    ultimately show ?thesis
      using t' unfolding clock_inv_def by blast
  next
    case (goes_on xs e ys)
    let ?n = "lifetime_seconds e - LWIP_MAX_TIMEOUT_SECONDS"
    have eq: "s_route_entries t' = xs @ (p, e\<lparr>lifetime_seconds := ?n\<rparr>) # ys" "lwip t' = sys_timeout E (route_delay ?n) p (fired p (lwip t))"
      using t'(1) goes_on(5) by auto
    have "runs_until due k x t' \<or> \<not> has_route k t' \<and> x \<le> now (lwip t')"
      using obs
    proof
      assume "\<not> has_route k t \<and> x \<le> now (lwip t)"
      then show ?thesis
        by (simp add: has_route_def goes_on(1) eq now_same route_key_def)
    qed (rule disjI1 [OF goes_on_runs [OF ti p goes_on(1,4) refl eq]])
    moreover have "\<forall>(d, q) \<in># due (lwip t'). now (lwip t') \<le> d"
      using fired_later [OF ahead p] by (auto simp: eq(2) timeout_due now_same)
    moreover have "timer_work t' < timer_work t"
      using goes_on(4) by (simp add: timer_work_def eq(1) goes_on(1))
    ultimately show ?thesis
      using t' unfolding clock_inv_def by blast
  qed
qed

lemma clock_wait:
  assumes "clock_inv allocated pending now due k x t" "now (lwip t) \<le> n" "\<forall>(d, q) \<in># due (lwip t). n \<le> d"
  shows "clock_inv allocated pending now due k x (t\<lparr>lwip := wait n (lwip t)\<rparr>)"
  using assms by (auto simp: clock_inv_def table_inv_def runs_until_def has_route_def due_pending wait_clock)

lemma clock_step_inv: "clock_step E fired now due wait k t t' \<Longrightarrow> clock_inv allocated pending now due k x t \<Longrightarrow> clock_inv allocated pending now due k x t'"
proof (induction rule: clock_step.induct)
  case (add_other r t res t')
  then show ?case
    using clock_add by blast
next
  case (timer_ends t p t')
  then show ?case
    using clock_timer [OF timer_ends.prems timer_ends.hyps(1)] by auto
next
  case (time_passes t n)
  then show ?case
    using clock_wait by blast
qed

lemma clock_reachable: "(clock_step E fired now due wait k)\<^sup>*\<^sup>* t t' \<Longrightarrow> clock_inv allocated pending now due k x t \<Longrightarrow> clock_inv allocated pending now due k x t'"
  by (induction rule: rtranclp_induct) (auto intro: clock_step_inv)

text \<open>Adding the route, new or again, starts its time.\<close>

lemma clock_start:
  assumes inv: "table_inv allocated pending t" "\<forall>(d, q) \<in># due (lwip t). now (lwip t) \<le> d" and r: "lifetime_seconds r < LWIP_UINT32_MAX"
    and add: "esp_route_table_add_route_entry E (Some r) t = (Some p, t')"
  shows "clock_inv allocated pending now due (route_key r) (now (lwip t) + lifetime_seconds r * 1000) t'"
proof -
  have ti': "table_inv allocated pending t'"
    using add_inv [OF inv(1) _ add] r by simp
  show ?thesis
    using inv(1) add
  proof (cases rule: add_cases)
    case (no_memory l)
    then show ?thesis
      by simp
  next
    case (new_entry q l)
    let ?e = "r\<lparr>gateway := assign_zone E (gateway r) (netif r)\<rparr>"
    have l: "due l = due (lwip t)" "now l = now (lwip t)"
      using memory_due(1) [of "lwip t"] now_same(4) [of "lwip t"] new_entry(1) by simp_all
    have due': "due (lwip t') = add_mset (now (lwip t) + route_delay (lifetime_seconds r), q) (due (lwip t))" "now (lwip t') = now (lwip t)"
      using r l by (simp_all add: new_entry(6) timeout_due now_same)
    have "(d, q) \<notin># due (lwip t)" for d
      using due_entry(2) [OF inv(1)] new_entry(2) by blast
    moreover have "(q, ?e) \<in> set (s_route_entries t')" "route_key ?e = route_key r" "lifetime_seconds ?e = lifetime_seconds r"
      by (simp_all add: new_entry(5) route_key_def zone_addr)
    ultimately have "runs_until due (route_key r) (now (lwip t) + lifetime_seconds r * 1000) t'"
      using r unfolding runs_until_def due'
      by (intro exI [of _ q] exI [of _ ?e] exI [of _ "now (lwip t)"]) auto
    then show ?thesis
      using ti' inv(2) by (auto simp: clock_inv_def due')
  next
    case (refreshed q e xs ys)
    let ?e = "e\<lparr>preference := preference r, lifetime_seconds := lifetime_seconds r\<rparr>" and ?l = "sys_untimeout E q (lwip t)"
    have due': "due (lwip t') = add_mset (now (lwip t) + route_delay (lifetime_seconds r), q) (due ?l)" "now (lwip t') = now (lwip t)"
      using r by (simp_all add: refreshed(7) timeout_due now_same)
    have "(d, q) \<notin># due ?l" for d
    proof
      assume "(d, q) \<in># due ?l"
      then have "q \<in># pending ?l"
        by (force simp: due_pending)
      then show False
        using inv(1) timed_remove [OF refreshed(2,3)] timed_notin refreshed(2,3)
        by (auto simp: table_inv_def untimeout_pending refreshed(1))
    qed
    moreover have "(q, ?e) \<in> set (s_route_entries t')" "route_key ?e = route_key r"
      using refreshed(4) by (auto simp: refreshed(6) route_key_def)
    ultimately have "runs_until due (route_key r) (now (lwip t) + lifetime_seconds r * 1000) t'"
      using r unfolding runs_until_def due'
      by (intro exI [of _ q] exI [of _ ?e] exI [of _ "now (lwip t)"]) auto
    moreover have "now (lwip t) \<le> d" if "(d, q') \<in># due ?l" for d q'
      using inv(2) mset_subset_eqD [OF untimeout_due(1) that] by auto
    ultimately show ?thesis
      using ti' by (auto simp: clock_inv_def due')
  qed
qed

text \<open>What the invariant says of the route before and after the time \<open>x\<close>.\<close>

lemma clock_inv_times:
  assumes "clock_inv allocated pending now due k x t"
  shows "now (lwip t) < x \<Longrightarrow> has_route k t" "x < now (lwip t) \<Longrightarrow> \<not> has_route k t"
proof -
  have obs: "runs_until due k x t \<or> \<not> has_route k t \<and> x \<le> now (lwip t)"
    using assms by (simp add: clock_inv_def)
  have "has_route k t" "now (lwip t) \<le> x" if "runs_until due k x t"
  proof -
    from that obtain p e s where p: "(p, e) \<in> set (s_route_entries t)" "route_key e = k" "s + lifetime_seconds e * 1000 = x"
      "(s + route_delay (lifetime_seconds e), p) \<in># due (lwip t)"
      unfolding runs_until_def by blast
    then show "has_route k t"
      by (force simp: has_route_def)
    have "now (lwip t) \<le> s + route_delay (lifetime_seconds e)"
      using assms p(4) by (auto simp: clock_inv_def)
    then show "now (lwip t) \<le> x"
      using p(3) by (simp add: route_delay_eq)
  qed
  then show "now (lwip t) < x \<Longrightarrow> has_route k t" "x < now (lwip t) \<Longrightarrow> \<not> has_route k t"
    using obs by auto
qed

text \<open>As long as the route is in the table, waiting for the next timer and running its handler leads on, to a state without the route.\<close>

lemma clock_ends:
  assumes "clock_inv allocated pending now due k x t"
  shows "\<exists>t'. (clock_step E fired now due wait k)\<^sup>*\<^sup>* t t' \<and> \<not> has_route k t'"
  using assms
proof (induction "timer_work t" arbitrary: t rule: less_induct)
  case less
  show ?case
  proof (cases "has_route k t")
    case True
    then have "due (lwip t) \<noteq> {#}"
      using less.prems by (auto simp: clock_inv_def runs_until_def)
    then have "Min (fst ` set_mset (due (lwip t))) \<in> fst ` set_mset (due (lwip t))"
      by (intro Min_in) auto
    then obtain n p where "(n, p) \<in># due (lwip t)" and min: "n = Min (fst ` set_mset (due (lwip t)))"
      by auto
    moreover have "n \<le> d" if "(d, q) \<in># due (lwip t)" for d q
      unfolding min using that by (intro Min_le) force+
    ultimately have n: "(n, p) \<in># due (lwip t)" "\<forall>(d, q) \<in># due (lwip t). n \<le> d"
      by auto
    let ?t = "t\<lparr>lwip := wait n (lwip t)\<rparr>"
    have now: "now (lwip t) \<le> n"
      using less.prems n(1) by (auto simp: clock_inv_def)
    have w: "clock_step E fired now due wait k t ?t"
      using now n(2) by (rule clock_step.time_passes)
    have inv: "clock_inv allocated pending now due k x ?t"
      using less.prems now n(2) by (rule clock_wait)
    have p: "(now (lwip ?t), p) \<in># due (lwip ?t)"
      using n(1) by (simp add: wait_clock)
    obtain t1 where t1: "route_timeout_handler E p (?t\<lparr>lwip := fired p (lwip ?t)\<rparr>) = Some t1" "clock_inv allocated pending now due k x t1" "timer_work t1 < timer_work ?t"
      using clock_timer [OF inv p] by blast
    have f: "clock_step E fired now due wait k ?t t1"
      using p t1(1) by (rule clock_step.timer_ends)
    have "timer_work ?t = timer_work t"
      by (simp add: timer_work_def)
    then show ?thesis
      using less.hyps [OF _ t1(2)] t1(3) w f by (metis converse_rtranclp_into_rtranclp)
  qed blast
qed

end

subsection \<open>A clock\<close>

text \<open>The allocated addresses, the time, and the pending timers with their ends as a list.\<close>

type_synonym ticking = "nat list \<times> nat \<times> (nat \<times> nat) list"

fun drop_timer :: "nat \<Rightarrow> (nat \<times> nat) list \<Rightarrow> (nat \<times> nat) list" where
  "drop_timer p [] = []"
| "drop_timer p ((d, r) # q) = (if r = p then q else (d, r) # drop_timer p q)"

definition tick_lwip :: "ticking lwip_env" where
  "tick_lwip =
    \<lparr>malloc_entry = (\<lambda>(a, c, q). (Some (Suc (foldr max a 0)), (Suc (foldr max a 0) # a, c, q))),
     free_entry = (\<lambda>p (a, c, q). (removeAll p a, c, q)),
     sys_timeout = (\<lambda>ms p (a, c, q). (a, c, (c + ms, p) # q)),
     sys_untimeout = (\<lambda>p (a, c, q). (a, c, drop_timer p q)),
     assign_zone = (\<lambda>a n. a)\<rparr>"

definition tick_allocated :: "ticking \<Rightarrow> nat set" where
  "tick_allocated l = set (fst l)"

definition tick_now :: "ticking \<Rightarrow> nat" where
  "tick_now l = fst (snd l)"

definition tick_due :: "ticking \<Rightarrow> (nat \<times> nat) multiset" where
  "tick_due l = mset (snd (snd l))"

definition tick_pending :: "ticking \<Rightarrow> nat multiset" where
  "tick_pending l = image_mset snd (tick_due l)"

text \<open>The timer of an entry that ends now is taken off the list, and if there is none the first of its timers.\<close>

definition tick_fired :: "nat \<Rightarrow> ticking \<Rightarrow> ticking" where
  "tick_fired p l = (case l of (a, c, q) \<Rightarrow>
     (a, c, if (c, p) \<in> set q then remove1 (c, p) q else drop_timer p q))"

definition tick_wait :: "nat \<Rightarrow> ticking \<Rightarrow> ticking" where
  "tick_wait n l = (case l of (a, c, q) \<Rightarrow> (a, n, q))"

lemma remove_timer:
  "image_mset snd (mset (drop_timer p q)) = image_mset snd (mset q) - {#p#}"
  "mset (drop_timer p q) \<subseteq># mset q"
  "p' \<noteq> p \<Longrightarrow> count (mset (drop_timer p q)) (d, p') = count (mset q) (d, p')"
  by (induction p q rule: drop_timer.induct) auto

lemma remove_due: "(c, p) \<in> set q \<Longrightarrow> image_mset snd (mset q - {#(c, p)#}) = image_mset snd (mset q) - {#p#}"
  by (simp add: image_mset_Diff)

interpretation ticking: lwip_clock tick_lwip tick_allocated tick_pending tick_fired tick_now tick_due tick_wait
  by standard
     (auto simp: tick_lwip_def tick_allocated_def tick_pending_def tick_fired_def tick_now_def tick_due_def tick_wait_def foldr_max_fresh
        remove_timer remove_due split: prod.splits)

end
