(* ===== verification/TlvTypes.thy ===== *)
theory TlvTypes
  imports Prelude ChipError
begin

text \<open>
  Types and tags of the TLV encoding (\<^verbatim>\<open>src/lib/core/TLVTypes.h\<close>, \<^verbatim>\<open>TLVTags.h\<close> and
  \<^verbatim>\<open>TLVCommon.h\<close>) and the little-endian fields of an element. The code casts between \<^verbatim>\<open>TLVType\<close> and
  \<^verbatim>\<open>TLVElementType\<close> and compares with negative special values, therefore both are integers here.
  A tag is its 64 bit representation.
\<close>

subsection \<open>32 bit arithmetic\<close>

definition UINT32_MAX :: nat where
  [simp]: "UINT32_MAX = 4294967295"

definition u32 :: "nat \<Rightarrow> nat" where
  "u32 x = x mod 4294967296"

definition sub32 :: "nat \<Rightarrow> nat \<Rightarrow> nat" where
  "sub32 a b = (a + 4294967296 - b mod 4294967296) mod 4294967296"

lemma u32_id [c_arith]: "x \<le> 4294967295 \<Longrightarrow> u32 x = x"
  by (simp add: u32_def)

lemma u32_less [simp]: "u32 x < 4294967296"
  by (simp add: u32_def)

lemma sub32_less [simp]: "sub32 a b < 4294967296"
  by (simp add: sub32_def)

lemma sub32_le [c_arith]:
  assumes "b \<le> a" and "a \<le> 4294967295"
  shows "sub32 a b = a - b"
proof -
  have "a + 4294967296 - b mod 4294967296 = (a - b) + 4294967296"
    using assms by simp
  then have "sub32 a b = ((a - b) + 4294967296) mod 4294967296"
    by (simp only: sub32_def)
  also have "\<dots> = (a - b) mod 4294967296"
    by (rule mod_add_self2)
  also have "\<dots> = a - b"
    using assms by simp
  finally show ?thesis .
qed

subsection \<open>Element types\<close>

type_synonym TLVType = int
type_synonym TLVElementType = int
type_synonym TLVFieldSize = int

abbreviation (input) kTLVType_NotSpecified :: TLVType where "kTLVType_NotSpecified \<equiv> - 1"
abbreviation (input) kTLVType_UnknownContainer :: TLVType where "kTLVType_UnknownContainer \<equiv> - 2"
abbreviation (input) kTLVType_SignedInteger :: TLVType where "kTLVType_SignedInteger \<equiv> 0x00"
abbreviation (input) kTLVType_UnsignedInteger :: TLVType where "kTLVType_UnsignedInteger \<equiv> 0x04"
abbreviation (input) kTLVType_Boolean :: TLVType where "kTLVType_Boolean \<equiv> 0x08"
abbreviation (input) kTLVType_FloatingPointNumber :: TLVType where "kTLVType_FloatingPointNumber \<equiv> 0x0A"
abbreviation (input) kTLVType_UTF8String :: TLVType where "kTLVType_UTF8String \<equiv> 0x0C"
abbreviation (input) kTLVType_ByteString :: TLVType where "kTLVType_ByteString \<equiv> 0x10"
abbreviation (input) kTLVType_Null :: TLVType where "kTLVType_Null \<equiv> 0x14"
abbreviation (input) kTLVType_Structure :: TLVType where "kTLVType_Structure \<equiv> 0x15"
abbreviation (input) kTLVType_Array :: TLVType where "kTLVType_Array \<equiv> 0x16"
abbreviation (input) kTLVType_List :: TLVType where "kTLVType_List \<equiv> 0x17"

abbreviation (input) ET_NotSpecified :: TLVElementType where "ET_NotSpecified \<equiv> - 1"
abbreviation (input) ET_Int8 :: TLVElementType where "ET_Int8 \<equiv> 0x00"
abbreviation (input) ET_Int16 :: TLVElementType where "ET_Int16 \<equiv> 0x01"
abbreviation (input) ET_Int32 :: TLVElementType where "ET_Int32 \<equiv> 0x02"
abbreviation (input) ET_Int64 :: TLVElementType where "ET_Int64 \<equiv> 0x03"
abbreviation (input) ET_UInt8 :: TLVElementType where "ET_UInt8 \<equiv> 0x04"
abbreviation (input) ET_UInt16 :: TLVElementType where "ET_UInt16 \<equiv> 0x05"
abbreviation (input) ET_UInt32 :: TLVElementType where "ET_UInt32 \<equiv> 0x06"
abbreviation (input) ET_UInt64 :: TLVElementType where "ET_UInt64 \<equiv> 0x07"
abbreviation (input) ET_BooleanFalse :: TLVElementType where "ET_BooleanFalse \<equiv> 0x08"
abbreviation (input) ET_BooleanTrue :: TLVElementType where "ET_BooleanTrue \<equiv> 0x09"
abbreviation (input) ET_FloatingPointNumber32 :: TLVElementType where "ET_FloatingPointNumber32 \<equiv> 0x0A"
abbreviation (input) ET_FloatingPointNumber64 :: TLVElementType where "ET_FloatingPointNumber64 \<equiv> 0x0B"
abbreviation (input) ET_UTF8String_1ByteLength :: TLVElementType where "ET_UTF8String_1ByteLength \<equiv> 0x0C"
abbreviation (input) ET_UTF8String_8ByteLength :: TLVElementType where "ET_UTF8String_8ByteLength \<equiv> 0x0F"
abbreviation (input) ET_ByteString_1ByteLength :: TLVElementType where "ET_ByteString_1ByteLength \<equiv> 0x10"
abbreviation (input) ET_ByteString_8ByteLength :: TLVElementType where "ET_ByteString_8ByteLength \<equiv> 0x13"
abbreviation (input) ET_Null :: TLVElementType where "ET_Null \<equiv> 0x14"
abbreviation (input) ET_Structure :: TLVElementType where "ET_Structure \<equiv> 0x15"
abbreviation (input) ET_List :: TLVElementType where "ET_List \<equiv> 0x17"
abbreviation (input) ET_EndOfContainer :: TLVElementType where "ET_EndOfContainer \<equiv> 0x18"

definition IsValidTLVType :: "TLVElementType \<Rightarrow> bool" where
  "IsValidTLVType type \<longleftrightarrow> type \<le> ET_EndOfContainer"

definition TLVTypeHasValue :: "TLVElementType \<Rightarrow> bool" where
  "TLVTypeHasValue type \<longleftrightarrow>
     type \<le> ET_UInt64 \<or> ET_FloatingPointNumber32 \<le> type \<and> type \<le> ET_ByteString_8ByteLength"

definition TLVTypeHasLength :: "TLVElementType \<Rightarrow> bool" where
  "TLVTypeHasLength type \<longleftrightarrow> ET_UTF8String_1ByteLength \<le> type \<and> type \<le> ET_ByteString_8ByteLength"

definition TLVTypeIsContainer :: "TLVElementType \<Rightarrow> bool" where
  "TLVTypeIsContainer type \<longleftrightarrow> ET_Structure \<le> type \<and> type \<le> ET_List"

definition TLVTypeIsString :: "TLVElementType \<Rightarrow> bool" where
  "TLVTypeIsString type \<longleftrightarrow> ET_UTF8String_1ByteLength \<le> type \<and> type \<le> ET_ByteString_8ByteLength"

definition TLVTypeIsUTF8String :: "TLVElementType \<Rightarrow> bool" where
  "TLVTypeIsUTF8String type \<longleftrightarrow> ET_UTF8String_1ByteLength \<le> type \<and> type \<le> ET_UTF8String_8ByteLength"

definition TLVTypeIsByteString :: "TLVElementType \<Rightarrow> bool" where
  "TLVTypeIsByteString type \<longleftrightarrow> ET_ByteString_1ByteLength \<le> type \<and> type \<le> ET_ByteString_8ByteLength"

definition GetTLVFieldSize :: "TLVElementType \<Rightarrow> TLVFieldSize" where
  "GetTLVFieldSize type = (if TLVTypeHasValue type then type mod 256 mod 4 else - 1)"

definition TLVFieldSizeToBytes :: "TLVFieldSize \<Rightarrow> nat" where
  "TLVFieldSizeToBytes fieldSize = (if fieldSize \<noteq> - 1 then 2 ^ nat fieldSize else 0)"

lemmas tlv_type_defs =
  IsValidTLVType_def TLVTypeHasValue_def TLVTypeHasLength_def TLVTypeIsContainer_def
  TLVTypeIsString_def TLVTypeIsUTF8String_def TLVTypeIsByteString_def

subsection \<open>Tags\<close>

type_synonym Tag = "64 word"

abbreviation (input) kSpecialTagProfileId :: "32 word" where "kSpecialTagProfileId \<equiv> 0xFFFFFFFF"
abbreviation (input) kProfileIdNotSpecified :: "32 word" where "kProfileIdNotSpecified \<equiv> 0xFFFFFFFF"
abbreviation (input) kCommonProfileId :: "32 word" where "kCommonProfileId \<equiv> 0"
abbreviation (input) kContextTagMaxNum :: "32 word" where "kContextTagMaxNum \<equiv> 255"
abbreviation (input) kAnonymousTagNum :: "32 word" where "kAnonymousTagNum \<equiv> 256"
abbreviation (input) kUnknownImplicitTagNum :: "32 word" where "kUnknownImplicitTagNum \<equiv> 257"

definition ProfileTag :: "32 word \<Rightarrow> 32 word \<Rightarrow> Tag" where
  "ProfileTag profileId tagNum = push_bit 32 (ucast (NOT profileId)) OR ucast tagNum"

definition VendorProfileTag :: "16 word \<Rightarrow> 16 word \<Rightarrow> 32 word \<Rightarrow> Tag" where
  "VendorProfileTag vendorId profileNum tagNum =
     ProfileTag (push_bit 16 (ucast vendorId) OR ucast profileNum) tagNum"

definition ContextTag :: "8 word \<Rightarrow> Tag" where
  "ContextTag tagNum = ProfileTag kSpecialTagProfileId (ucast tagNum)"

definition CommonTag :: "32 word \<Rightarrow> Tag" where
  "CommonTag tagNum = ProfileTag kCommonProfileId tagNum"

definition AnonymousTag :: Tag where
  "AnonymousTag = ProfileTag kSpecialTagProfileId kAnonymousTagNum"

definition UnknownImplicitTag :: Tag where
  "UnknownImplicitTag = ProfileTag kSpecialTagProfileId kUnknownImplicitTagNum"

definition ProfileIdFromTag :: "Tag \<Rightarrow> 32 word" where
  "ProfileIdFromTag tag = NOT (ucast (drop_bit 32 tag))"

definition TagNumFromTag :: "Tag \<Rightarrow> 32 word" where
  "TagNumFromTag tag = ucast tag"

definition VendorIdFromTag :: "Tag \<Rightarrow> 16 word" where
  "VendorIdFromTag tag = ucast (drop_bit 16 (ProfileIdFromTag tag))"

definition ProfileNumFromTag :: "Tag \<Rightarrow> 16 word" where
  "ProfileNumFromTag tag = ucast (ProfileIdFromTag tag)"

definition IsProfileTag :: "Tag \<Rightarrow> bool" where
  "IsProfileTag tag \<longleftrightarrow> ProfileIdFromTag tag \<noteq> kSpecialTagProfileId"

definition IsContextTag :: "Tag \<Rightarrow> bool" where
  "IsContextTag tag \<longleftrightarrow> ProfileIdFromTag tag = kSpecialTagProfileId \<and> TagNumFromTag tag \<le> kContextTagMaxNum"

definition IsSpecialTag :: "Tag \<Rightarrow> bool" where
  "IsSpecialTag tag \<longleftrightarrow> ProfileIdFromTag tag = kSpecialTagProfileId"

abbreviation (input) TC_Anonymous :: byte where "TC_Anonymous \<equiv> 0x00"
abbreviation (input) TC_ContextSpecific :: byte where "TC_ContextSpecific \<equiv> 0x20"
abbreviation (input) TC_CommonProfile_2Bytes :: byte where "TC_CommonProfile_2Bytes \<equiv> 0x40"
abbreviation (input) TC_CommonProfile_4Bytes :: byte where "TC_CommonProfile_4Bytes \<equiv> 0x60"
abbreviation (input) TC_ImplicitProfile_2Bytes :: byte where "TC_ImplicitProfile_2Bytes \<equiv> 0x80"
abbreviation (input) TC_ImplicitProfile_4Bytes :: byte where "TC_ImplicitProfile_4Bytes \<equiv> 0xA0"
abbreviation (input) TC_FullyQualified_6Bytes :: byte where "TC_FullyQualified_6Bytes \<equiv> 0xC0"
abbreviation (input) TC_FullyQualified_8Bytes :: byte where "TC_FullyQualified_8Bytes \<equiv> 0xE0"

subsection \<open>Little-endian fields\<close>

text \<open>\<^verbatim>\<open>BufferWriter::EndianPut\<close>, and the value of the bytes of a field.\<close>

fun EndianPut :: "nat \<Rightarrow> 64 word \<Rightarrow> byte list" where
  "EndianPut 0 x = []"
| "EndianPut (Suc n) x = ucast (x AND 0xff) # EndianPut n (drop_bit 8 x)"

fun le_value :: "byte list \<Rightarrow> nat" where
  "le_value [] = 0"
| "le_value (b # bs) = unat b + 256 * le_value bs"

lemma length_EndianPut [simp]: "length (EndianPut n x) = n"
  by (induction n arbitrary: x) simp_all

lemma le_value_less: "le_value bs < 256 ^ length bs"
proof (induction bs)
  case (Cons b bs)
  have "unat b < 256"
    using unsigned_less [of b] by simp
  with Cons show ?case
    by simp
qed simp

lemma le_value_EndianPut: "le_value (EndianPut n x) = unat x mod 256 ^ n"
proof (induction n arbitrary: x)
  case (Suc n)
  have "x AND 0xff = take_bit 8 x"
    using take_bit_eq_mask [of 8 x] by (simp add: mask_eq_exp_minus_1)
  then have "unat (ucast (x AND 0xff) :: byte) = unat x mod 256"
    by (simp add: unsigned_ucast_eq take_bit_eq_mod unat_mod)
  moreover have "unat (drop_bit 8 x) = unat x div 256"
    by (simp add: drop_bit_eq_div unat_div)
  ultimately show ?case
    by (simp add: Suc mod_mult2_eq)
qed simp

lemma unat_ucast_64: "LENGTH('a) \<le> 64 \<Longrightarrow> unat (ucast (x :: 'a::len word) :: 64 word) = unat x"
proof -
  assume "LENGTH('a) \<le> 64"
  then have "(2::nat) ^ LENGTH('a) \<le> 2 ^ 64"
    by (rule power_increasing) simp
  then have "unat x < 2 ^ 64"
    using unsigned_less [of x, where 'a = nat] by linarith
  then show ?thesis
    by (simp only: unsigned_ucast_eq take_bit_nat_eq_self len_bit0 len_num1 mult_1_right) (simp add: take_bit_nat_eq_self)
qed

lemma le_value_inj: "length as = length bs \<Longrightarrow> le_value as = le_value bs \<Longrightarrow> as = bs"
proof (induction as bs rule: list_induct2)
  case (Cons a as b bs)
  have "unat a < 256" "unat b < 256"
    using unsigned_less [of a, where 'a = nat] unsigned_less [of b, where 'a = nat] by simp_all
  moreover have "unat a = (unat a + 256 * le_value as) mod 256" "unat b = (unat b + 256 * le_value bs) mod 256"
    using calculation by simp_all
  ultimately have "unat a = unat b"
    using Cons.prems by (metis le_value.simps(2))
  then show ?case
    using Cons by (simp add: word_unat_eq_iff)
qed simp

subsection \<open>Tags and their parts\<close>

lemma ProfileIdFromTag_ProfileTag [simp]: "ProfileIdFromTag (ProfileTag p n) = p"
  by (rule bit_word_eqI) (auto simp: ProfileIdFromTag_def ProfileTag_def bit_simps dest: bit_imp_le_length)

lemma TagNumFromTag_ProfileTag [simp]: "TagNumFromTag (ProfileTag p n) = n"
  by (rule bit_word_eqI) (auto simp: TagNumFromTag_def ProfileTag_def bit_simps)

lemma ProfileTag_parts [simp]: "ProfileTag (ProfileIdFromTag t) (TagNumFromTag t) = t"
  by (rule bit_word_eqI) (auto simp: ProfileTag_def ProfileIdFromTag_def TagNumFromTag_def bit_simps)

lemma ProfileTag_eq_iff [simp]: "ProfileTag p n = ProfileTag q m \<longleftrightarrow> p = q \<and> n = m"
  by (metis ProfileIdFromTag_ProfileTag TagNumFromTag_ProfileTag)

end
