(* ===== verification/Utf8.thy ===== *)
theory Utf8
  imports Prelude
begin

text \<open>
  The check of UTF-8 strings (\<^verbatim>\<open>src/lib/support/utf8.cpp\<close>): the state machine of \<^verbatim>\<open>Utf8::IsValid\<close>,
  and the proof that it accepts exactly the concatenations of encoded Unicode scalar values.
\<close>

datatype ParserState =
    kFirstByte | kSecondByte_A | kSecondByte_B | kSecondByte_C | kSecondByte_D
  | kExtraOneByte | kExtraTwoBytes | kExtraThreeBytes | kInvalid

fun NextState :: "ParserState \<Rightarrow> byte \<Rightarrow> ParserState" where
  "NextState kFirstByte value =
    (if value \<le> 0x7F then kFirstByte
     else if 0xC2 \<le> value \<and> value \<le> 0xDF then kExtraOneByte
     else if value = 0xE0 then kSecondByte_A
     else if 0xE1 \<le> value \<and> value \<le> 0xEC then kExtraTwoBytes
     else if value = 0xED then kSecondByte_B
     else if 0xEE \<le> value \<and> value \<le> 0xEF then kExtraTwoBytes
     else if value = 0xF0 then kSecondByte_C
     else if 0xF1 \<le> value \<and> value \<le> 0xF3 then kExtraThreeBytes
     else if value = 0xF4 then kSecondByte_D
     else kInvalid)"
| "NextState kSecondByte_A value = (if 0xA0 \<le> value \<and> value \<le> 0xBF then kExtraOneByte else kInvalid)"
| "NextState kSecondByte_B value = (if 0x80 \<le> value \<and> value \<le> 0x9F then kExtraOneByte else kInvalid)"
| "NextState kSecondByte_C value = (if 0x90 \<le> value \<and> value \<le> 0xBF then kExtraTwoBytes else kInvalid)"
| "NextState kSecondByte_D value = (if 0x80 \<le> value \<and> value \<le> 0x8F then kExtraTwoBytes else kInvalid)"
| "NextState kExtraOneByte value = (if 0x80 \<le> value \<and> value \<le> 0xBF then kFirstByte else kInvalid)"
| "NextState kExtraTwoBytes value = (if 0x80 \<le> value \<and> value \<le> 0xBF then kExtraOneByte else kInvalid)"
| "NextState kExtraThreeBytes value = (if 0x80 \<le> value \<and> value \<le> 0xBF then kExtraTwoBytes else kInvalid)"
| "NextState kInvalid value = kInvalid"

fun IsValid_loop :: "ParserState \<Rightarrow> byte list \<Rightarrow> bool" where
  "IsValid_loop state [] \<longleftrightarrow> state = kFirstByte"
| "IsValid_loop state (b # bs) \<longleftrightarrow>
    (let state = NextState state b in if state = kInvalid then False else IsValid_loop state bs)"

definition Utf8_IsValid :: "byte list \<Rightarrow> bool" where
  "Utf8_IsValid span \<longleftrightarrow> IsValid_loop kFirstByte span"

subsection \<open>Unicode scalar values and their encoding\<close>

definition scalar :: "nat \<Rightarrow> bool" where
  "scalar c \<longleftrightarrow> c < 0xD800 \<or> 0xE000 \<le> c \<and> c < 0x110000"

definition utf8_char :: "nat \<Rightarrow> byte list" where
  "utf8_char c =
    (if c < 0x80 then [of_nat c]
     else if c < 0x800 then [of_nat (0xC0 + c div 0x40), of_nat (0x80 + c mod 0x40)]
     else if c < 0x10000 then
       [of_nat (0xE0 + c div 0x1000), of_nat (0x80 + c div 0x40 mod 0x40), of_nat (0x80 + c mod 0x40)]
     else
       [of_nat (0xF0 + c div 0x40000), of_nat (0x80 + c div 0x1000 mod 0x40),
        of_nat (0x80 + c div 0x40 mod 0x40), of_nat (0x80 + c mod 0x40)])"

definition utf8_encode :: "nat list \<Rightarrow> byte list" where
  "utf8_encode cs = concat (map utf8_char cs)"


lemma unat_of_nat_byte: "n < 256 \<Longrightarrow> unat (of_nat n :: byte) = n"
  by (simp add: unsigned_of_nat take_bit_nat_def)

lemmas byte_cmp = word_le_nat_alt word_unat_eq_iff

text \<open>The state machine on the digits of a character.\<close>

lemma accept1: "unat a < 0x80 \<Longrightarrow> IsValid_loop kFirstByte (a # bs) = IsValid_loop kFirstByte bs"
  by (simp add: byte_cmp)

lemma accept2:
  assumes "unat a = 0xC0 + x" "unat b = 0x80 + y" "2 \<le> x" "x < 0x20" "y < 0x40"
  shows "IsValid_loop kFirstByte (a # b # bs) = IsValid_loop kFirstByte bs"
  using assms by (simp add: byte_cmp)

lemma accept3:
  assumes "unat a = 0xE0 + x" "unat b = 0x80 + y" "unat c = 0x80 + z"
    and "x < 0x10" "y < 0x40" "z < 0x40" "x = 0 \<Longrightarrow> 0x20 \<le> y" "x = 0xD \<Longrightarrow> y < 0x20"
  shows "IsValid_loop kFirstByte (a # b # c # bs) = IsValid_loop kFirstByte bs"
  using assms by (auto simp: byte_cmp)

lemma accept4:
  assumes "unat a = 0xF0 + w" "unat b = 0x80 + x" "unat c = 0x80 + y" "unat d = 0x80 + z"
    and "w < 5" "x < 0x40" "y < 0x40" "z < 0x40" "w = 0 \<Longrightarrow> 0x10 \<le> x" "w = 4 \<Longrightarrow> x < 0x10"
  shows "IsValid_loop kFirstByte (a # b # c # d # bs) = IsValid_loop kFirstByte bs"
  using assms by (auto simp: byte_cmp)

lemma digits: "(c::nat) = 0x40 * (c div 0x40) + c mod 0x40"
  "c = 0x1000 * (c div 0x1000) + 0x40 * (c div 0x40 mod 0x40) + c mod 0x40"
  "c = 0x40000 * (c div 0x40000) + 0x1000 * (c div 0x1000 mod 0x40) + 0x40 * (c div 0x40 mod 0x40) + c mod 0x40"
proof -
  have 1: "c div 0x1000 = c div 0x40 div 0x40" "c div 0x40000 = c div 0x1000 div 0x40"
    by (simp_all add: div_mult2_eq [symmetric])
  show "c = 0x40 * (c div 0x40) + c mod 0x40"
    by simp
  show "c = 0x1000 * (c div 0x1000) + 0x40 * (c div 0x40 mod 0x40) + c mod 0x40"
    using mult_div_mod_eq [of "0x40" c] mult_div_mod_eq [of "0x40" "c div 0x40"] unfolding 1 by linarith
  then show "c = 0x40000 * (c div 0x40000) + 0x1000 * (c div 0x1000 mod 0x40) + 0x40 * (c div 0x40 mod 0x40) + c mod 0x40"
    using mult_div_mod_eq [of "0x40" "c div 0x1000"] unfolding 1(2) by linarith
qed

lemma utf8_char_accepted:
  assumes "scalar c"
  shows "IsValid_loop kFirstByte (utf8_char c @ bs) \<longleftrightarrow> IsValid_loop kFirstByte bs"
proof -
  note eqs = digits [of c]
  have m: "c mod 0x40 < 0x40" "c div 0x40 mod 0x40 < 0x40" "c div 0x1000 mod 0x40 < 0x40"
    by simp_all
  consider "c < 0x80" | "0x80 \<le> c" "c < 0x800" | "0x800 \<le> c" "c < 0x10000" | "0x10000 \<le> c" "c < 0x110000"
    using assms by (force simp: scalar_def)
  then show ?thesis
  proof cases
    case 1
    then show ?thesis by (simp add: utf8_char_def accept1 unat_of_nat_byte del: IsValid_loop.simps of_nat_add)
  next
    case 2
    then have "2 \<le> c div 0x40" "c div 0x40 < 0x20"
      using eqs(1) m(1) by linarith+
    with 2 m show ?thesis
      by (simp add: utf8_char_def accept2 [of _ "c div 0x40" _ "c mod 0x40"] unat_of_nat_byte del: IsValid_loop.simps of_nat_add)
  next
    case 3
    then have "c div 0x1000 < 0x10" "c div 0x1000 = 0 \<Longrightarrow> 0x20 \<le> c div 0x40 mod 0x40"
      using eqs(2) m by linarith+
    moreover have "c div 0x1000 = 0xD \<Longrightarrow> c div 0x40 mod 0x40 < 0x20"
      using assms eqs(2) m unfolding scalar_def by linarith
    ultimately show ?thesis
      using 3 m
      by (simp add: utf8_char_def accept3 [of _ "c div 0x1000" _ "c div 0x40 mod 0x40" _ "c mod 0x40"]
          unat_of_nat_byte del: IsValid_loop.simps of_nat_add)
  next
    case 4
    then have "c div 0x40000 < 5" "c div 0x40000 = 0 \<Longrightarrow> 0x10 \<le> c div 0x1000 mod 0x40"
      "c div 0x40000 = 4 \<Longrightarrow> c div 0x1000 mod 0x40 < 0x10"
      using eqs(3) m by linarith+
    then show ?thesis
      using 4 m
      by (simp add: utf8_char_def accept4 [of _ "c div 0x40000" _ "c div 0x1000 mod 0x40" _ "c div 0x40 mod 0x40" _ "c mod 0x40"]
          unat_of_nat_byte del: IsValid_loop.simps of_nat_add)
  qed
qed

text \<open>The characters at the start of an accepted string.\<close>

lemma utf8_char_digits:
  "c < 0x80 \<Longrightarrow> scalar c \<and> utf8_char c = [of_nat c]"
  "2 \<le> x \<Longrightarrow> x < 0x20 \<Longrightarrow> y < 0x40 \<Longrightarrow>
   scalar (0x40 * x + y) \<and> utf8_char (0x40 * x + y) = [of_nat (0xC0 + x), of_nat (0x80 + y)]"
  by (simp_all add: scalar_def utf8_char_def del: of_nat_add)

lemma base64: "z < 0x40 \<Longrightarrow> (0x40 * k + z) div 0x40 = (k::nat)" "z < 0x40 \<Longrightarrow> (0x40 * k + z) mod 0x40 = z"
  by simp_all

lemma utf8_char_digits3:
  assumes "x < 0x10" "y < 0x40" "z < 0x40" "x = 0 \<Longrightarrow> 0x20 \<le> y" "x = 0xD \<Longrightarrow> y < 0x20"
  shows "scalar (0x40 * (0x40 * x + y) + z)"
    and "utf8_char (0x40 * (0x40 * x + y) + z) = [of_nat (0xE0 + x), of_nat (0x80 + y), of_nat (0x80 + z)]"
proof -
  define c where "c = 0x40 * (0x40 * x + y) + z"
  have c: "c div 0x40 = 0x40 * x + y" "c mod 0x40 = z"
    unfolding c_def using base64 assms(3) by blast+
  have d: "c div 0x1000 = x" "c div 0x40 mod 0x40 = y"
    using div_mult2_eq [of c "0x40" "0x40"] base64 [OF assms(2)] by (simp_all add: c(1))
  have "0x800 \<le> c"
    using assms(4) unfolding c_def by (cases "x = 0") simp_all
  moreover have "c < 0x10000"
    using assms(1-3) unfolding c_def by simp
  ultimately have r: "0x800 \<le> c" "c < 0x10000" .
  consider "x < 0xD" | "x = 0xD" | "0xE \<le> x"
    by linarith
  then show "scalar (0x40 * (0x40 * x + y) + z)"
    using assms by cases (simp_all add: scalar_def)
  show "utf8_char (0x40 * (0x40 * x + y) + z) = [of_nat (0xE0 + x), of_nat (0x80 + y), of_nat (0x80 + z)]"
    unfolding c_def [symmetric] utf8_char_def using c(2) d r by (simp del: of_nat_add)
qed

lemma utf8_char_digits4:
  assumes "w < 5" "x < 0x40" "y < 0x40" "z < 0x40" "w = 0 \<Longrightarrow> 0x10 \<le> x" "w = 4 \<Longrightarrow> x < 0x10"
  shows "scalar (0x40 * (0x40 * (0x40 * w + x) + y) + z)"
    and "utf8_char (0x40 * (0x40 * (0x40 * w + x) + y) + z) =
      [of_nat (0xF0 + w), of_nat (0x80 + x), of_nat (0x80 + y), of_nat (0x80 + z)]"
proof -
  define c where "c = 0x40 * (0x40 * (0x40 * w + x) + y) + z"
  have c: "c div 0x40 = 0x40 * (0x40 * w + x) + y" "c mod 0x40 = z"
    unfolding c_def using base64 assms(4) by blast+
  have d: "c div 0x1000 = 0x40 * w + x" "c div 0x40 mod 0x40 = y"
    using div_mult2_eq [of c "0x40" "0x40"] base64 [OF assms(3)] by (simp_all only: c(1)) simp
  have e: "c div 0x40000 = w" "c div 0x1000 mod 0x40 = x"
    using div_mult2_eq [of c "0x1000" "0x40"] base64 [OF assms(2)] by (simp_all add: d(1))
  have "0x10000 \<le> c"
    using assms(5) unfolding c_def by (cases "w = 0") simp_all
  moreover have "c < 0x110000"
    using assms(1-4,6) unfolding c_def by (cases "w = 4") simp_all
  ultimately have r: "0x10000 \<le> c" "c < 0x110000" .
  then show "scalar (0x40 * (0x40 * (0x40 * w + x) + y) + z)"
    unfolding c_def [symmetric] scalar_def by simp
  show "utf8_char (0x40 * (0x40 * (0x40 * w + x) + y) + z) =
      [of_nat (0xF0 + w), of_nat (0x80 + x), of_nat (0x80 + y), of_nat (0x80 + z)]"
    unfolding c_def [symmetric] utf8_char_def using c(2) d(2) e r by (simp del: of_nat_add)
qed

lemma byte_offset:
  assumes "k \<le> unat (b::byte)" "unat b < k + n"
  obtains y where "y < n" "b = of_nat (k + y)"
  using assms by (intro that [of "unat b - k"]) simp_all

lemma tail:
  assumes "IsValid_loop st bs" "st \<noteq> kFirstByte"
    and "\<And>b. NextState st b \<noteq> kInvalid \<Longrightarrow> NextState st b = st' \<and> k \<le> unat b \<and> unat b < k + n"
  obtains y r where "y < n" "bs = of_nat (k + y) # r" "IsValid_loop st' r"
proof (cases bs)
  case (Cons b r)
  then have "NextState st b \<noteq> kInvalid" "IsValid_loop (NextState st b) r"
    using assms(1) by (auto simp: Let_def split: if_splits)
  then show thesis
    using assms(3) [of b] that Cons by (auto elim!: byte_offset [of k b n])
qed (use assms in simp)

lemma tail_states:
  "NextState kExtraOneByte b \<noteq> kInvalid \<Longrightarrow>
    NextState kExtraOneByte b = kFirstByte \<and> 0x80 \<le> unat b \<and> unat b < 0x80 + 0x40"
  "NextState kExtraTwoBytes b \<noteq> kInvalid \<Longrightarrow>
    NextState kExtraTwoBytes b = kExtraOneByte \<and> 0x80 \<le> unat b \<and> unat b < 0x80 + 0x40"
  "NextState kExtraThreeBytes b \<noteq> kInvalid \<Longrightarrow>
    NextState kExtraThreeBytes b = kExtraTwoBytes \<and> 0x80 \<le> unat b \<and> unat b < 0x80 + 0x40"
  "NextState kSecondByte_A b \<noteq> kInvalid \<Longrightarrow>
    NextState kSecondByte_A b = kExtraOneByte \<and> 0xA0 \<le> unat b \<and> unat b < 0xA0 + 0x20"
  "NextState kSecondByte_B b \<noteq> kInvalid \<Longrightarrow>
    NextState kSecondByte_B b = kExtraOneByte \<and> 0x80 \<le> unat b \<and> unat b < 0x80 + 0x20"
  "NextState kSecondByte_C b \<noteq> kInvalid \<Longrightarrow>
    NextState kSecondByte_C b = kExtraTwoBytes \<and> 0x90 \<le> unat b \<and> unat b < 0x90 + 0x30"
  "NextState kSecondByte_D b \<noteq> kInvalid \<Longrightarrow>
    NextState kSecondByte_D b = kExtraTwoBytes \<and> 0x80 \<le> unat b \<and> unat b < 0x80 + 0x10"
  by (auto simp: byte_cmp split: if_splits)

lemma lead_states:
  assumes "NextState kFirstByte a \<noteq> kInvalid"
  obtains "unat a < 0x80" "NextState kFirstByte a = kFirstByte"
  | x where "a = of_nat (0xC0 + x)" "2 \<le> x" "x < 0x20" "NextState kFirstByte a = kExtraOneByte"
  | "a = of_nat (0xE0 + 0)" "NextState kFirstByte a = kSecondByte_A"
  | x where "a = of_nat (0xE0 + x)" "x \<noteq> 0" "x \<noteq> 0xD" "x < 0x10" "NextState kFirstByte a = kExtraTwoBytes"
  | "a = of_nat (0xE0 + 0xD)" "NextState kFirstByte a = kSecondByte_B"
  | "a = of_nat (0xF0 + 0)" "NextState kFirstByte a = kSecondByte_C"
  | x where "a = of_nat (0xF0 + x)" "x \<noteq> 0" "x < 4" "NextState kFirstByte a = kExtraThreeBytes"
  | "a = of_nat (0xF0 + 4)" "NextState kFirstByte a = kSecondByte_D"
proof -
  consider "unat a < 0x80" | "0xC2 \<le> unat a" "unat a < 0xE0" | "unat a = 0xE0" | "0xE0 < unat a" "unat a < 0xF0" "unat a \<noteq> 0xED"
    | "unat a = 0xED" | "unat a = 0xF0" | "0xF0 < unat a" "unat a < 0xF4" | "unat a = 0xF4"
    using assms by (fastforce simp: byte_cmp split: if_splits)
  then show thesis
  proof cases
    case 1 then show ?thesis by (intro that(1)) (simp_all add: byte_cmp)
  next
    case 2 then show ?thesis by (intro that(2) [of "unat a - 0xC0"]) (simp_all add: byte_cmp)
  next
    case 3 then show ?thesis by (intro that(3)) (simp_all add: byte_cmp)
  next
    case 4 then show ?thesis by (intro that(4) [of "unat a - 0xE0"]) (simp_all add: byte_cmp)
  next
    case 5 then show ?thesis by (intro that(5)) (simp_all add: byte_cmp)
  next
    case 6 then show ?thesis by (intro that(6)) (simp_all add: byte_cmp)
  next
    case 7 then show ?thesis by (intro that(7) [of "unat a - 0xF0"]) (simp_all add: byte_cmp)
  next
    case 8 then show ?thesis by (intro that(8)) (simp_all add: byte_cmp)
  qed
qed

text \<open>An accepted string starts with an encoded scalar value.\<close>

definition starts_char :: "byte list \<Rightarrow> bool" where
  "starts_char bs \<longleftrightarrow> (\<exists>c r. scalar c \<and> bs = utf8_char c @ r \<and> IsValid_loop kFirstByte r)"

lemma starts_charI: "scalar c \<Longrightarrow> utf8_char c = cs \<Longrightarrow> IsValid_loop kFirstByte r \<Longrightarrow> starts_char (cs @ r)"
  by (auto simp: starts_char_def)

lemma starts3:
  assumes "IsValid_loop kExtraOneByte r" "x < 0x10" "y < 0x40" "x = 0 \<Longrightarrow> 0x20 \<le> y" "x = 0xD \<Longrightarrow> y < 0x20"
  shows "starts_char (of_nat (0xE0 + x) # of_nat (0x80 + y) # r)"
  using assms(1)
proof (rule tail [OF _ _ tail_states(1)])
  fix z r' assume "z < 0x40" "r = of_nat (0x80 + z) # r'" "IsValid_loop kFirstByte r'"
  then show ?thesis
    using starts_charI [OF utf8_char_digits3 [of x y z]] assms(2-) by (simp del: of_nat_add)
qed simp_all

lemma starts4:
  assumes "IsValid_loop kExtraTwoBytes r" "w < 5" "x < 0x40" "w = 0 \<Longrightarrow> 0x10 \<le> x" "w = 4 \<Longrightarrow> x < 0x10"
  shows "starts_char (of_nat (0xF0 + w) # of_nat (0x80 + x) # r)"
  using assms(1)
proof (rule tail [OF _ _ tail_states(2)])
  fix y r' assume y: "y < 0x40" "r = of_nat (0x80 + y) # r'" and "IsValid_loop kExtraOneByte r'"
  from this(3) show ?thesis
  proof (rule tail [OF _ _ tail_states(1)])
    fix z r'' assume "z < 0x40" "r' = of_nat (0x80 + z) # r''" "IsValid_loop kFirstByte r''"
    then show ?thesis
      using starts_charI [OF utf8_char_digits4 [of w x y z]] assms(2-) y by (simp del: of_nat_add)
  qed simp_all
qed simp_all

lemma accepted_char:
  assumes "IsValid_loop kFirstByte (a # bs)"
  shows "starts_char (a # bs)"
proof -
  have ok: "NextState kFirstByte a \<noteq> kInvalid" and rest: "IsValid_loop (NextState kFirstByte a) bs"
    using assms by (auto simp: Let_def simp del: NextState.simps split: if_splits)
  from ok show ?thesis
  proof (cases rule: lead_states)
    case 1
    then show ?thesis
      using rest starts_charI [of "unat a" "[a]" bs] utf8_char_digits(1) [of "unat a"] by simp
  next
    case (2 x)
    from rest [unfolded 2(4)] show ?thesis
    proof (rule tail [OF _ _ tail_states(1)])
      fix y r assume "y < 0x40" "bs = of_nat (0x80 + y) # r" "IsValid_loop kFirstByte r"
      then show ?thesis
        using starts_charI [of "0x40 * x + y" "[of_nat (0xC0 + x), of_nat (0x80 + y)]" r] utf8_char_digits(2) [of x y] 2 by (simp del: of_nat_add)
    qed simp_all
  next
    case 3
    from rest [unfolded 3(2)] show ?thesis
    proof (rule tail [OF _ _ tail_states(4)])
      fix y r assume y: "y < 0x20" "bs = of_nat (0xA0 + y) # r" "IsValid_loop kExtraOneByte r"
      have "bs = of_nat (0x80 + (0x20 + y)) # r"
        using y by simp
      then show ?thesis
        using starts3 [of r 0 "0x20 + y"] 3 y by (simp del: of_nat_add)
    qed simp_all
  next
    case (4 x)
    from rest [unfolded 4(5)] show ?thesis
      by (rule tail [OF _ _ tail_states(2)]) (use 4 starts3 [of _ x] in \<open>simp_all del: of_nat_add\<close>)
  next
    case 5
    from rest [unfolded 5(2)] show ?thesis
      by (rule tail [OF _ _ tail_states(5)]) (use 5 starts3 [of _ "0xD"] in \<open>simp_all del: of_nat_add\<close>)
  next
    case 6
    from rest [unfolded 6(2)] show ?thesis
    proof (rule tail [OF _ _ tail_states(6)])
      fix x r assume x: "x < 0x30" "bs = of_nat (0x90 + x) # r" "IsValid_loop kExtraTwoBytes r"
      have "bs = of_nat (0x80 + (0x10 + x)) # r"
        using x by simp
      then show ?thesis
        using starts4 [of r 0 "0x10 + x"] 6 x by (simp del: of_nat_add)
    qed simp_all
  next
    case (7 x)
    from rest [unfolded 7(4)] show ?thesis
      by (rule tail [OF _ _ tail_states(3)]) (use 7 starts4 [of _ x] in \<open>simp_all del: of_nat_add\<close>)
  next
    case 8
    from rest [unfolded 8(2)] show ?thesis
      by (rule tail [OF _ _ tail_states(7)]) (use 8 starts4 [of _ 4] in \<open>simp_all del: of_nat_add\<close>)
  qed
qed

lemma utf8_char_nonempty: "utf8_char c \<noteq> []"
  by (simp add: utf8_char_def)

lemma valid_imp_encoded: "IsValid_loop kFirstByte bs \<Longrightarrow> \<exists>cs. (\<forall>c\<in>set cs. scalar c) \<and> bs = utf8_encode cs"
proof (induction bs rule: length_induct)
  case (1 bs)
  show ?case
  proof (cases bs)
    case Nil
    then show ?thesis
      by (intro exI [of _ "[]"]) (simp add: utf8_encode_def)
  next
    case (Cons a r)
    then obtain c r where c: "scalar c" "bs = utf8_char c @ r" "IsValid_loop kFirstByte r"
      using accepted_char [of a r] 1 by (auto simp: starts_char_def)
    then obtain cs where "\<forall>c\<in>set cs. scalar c" "r = utf8_encode cs"
      using 1(1) utf8_char_nonempty [of c] by (metis add_less_cancel_right add_0 length_append length_greater_0_conv)
    with c show ?thesis
      by (intro exI [of _ "c # cs"]) (simp add: utf8_encode_def)
  qed
qed

lemma encoded_imp_valid: "\<forall>c\<in>set cs. scalar c \<Longrightarrow> IsValid_loop kFirstByte (utf8_encode cs)"
  by (induction cs) (simp_all add: utf8_encode_def utf8_char_accepted)

lemma Utf8_IsValid_iff:
  "Utf8_IsValid bs \<longleftrightarrow> (\<exists>cs. (\<forall>c\<in>set cs. scalar c) \<and> bs = utf8_encode cs)"
  unfolding Utf8_IsValid_def using valid_imp_encoded encoded_imp_valid by blast

end
