(* ===== verification/TlvReader.thy ===== *)
theory TlvReader
  imports TlvTypes Utf8
begin

text \<open>
  The TLV reader on a contiguous buffer (\<^verbatim>\<open>src/lib/core/TLVReader.cpp\<close>, with \<^verbatim>\<open>mBackingStore == nullptr\<close>, as
  \<^verbatim>\<open>ContiguousBufferTLVReader\<close> guarantees). A member \<^verbatim>\<open>mX\<close> of the class is the field \<open>rX\<close>;
  \<open>rReadPoint\<close> holds the bytes from \<^verbatim>\<open>mReadPoint\<close> to \<^verbatim>\<open>mBufEnd\<close>. A method \<^verbatim>\<open>TLVReader::m\<close> is the
  definition \<open>TLVReader_m\<close>, which returns its status, its outputs and the new reader. Lengths are natural
  numbers; \<^verbatim>\<open>Init\<close> admits at most \<^verbatim>\<open>UINT32_MAX\<close> bytes, and differences of 32 bits are \<open>sub32\<close>. A buffer that is
  not empty has an address, so that the comparison with \<^verbatim>\<open>nullptr\<close> in \<^verbatim>\<open>ReadElement\<close> never fails.
\<close>

record tlv_reader =
  rImplicitProfileId :: "32 word"
  rElemTag :: Tag
  rElemLenOrVal :: "64 word"
  rReadPoint :: "byte list"
  rLenRead :: nat
  rMaxLen :: nat
  rContainerType :: TLVType
  rControlByte :: "16 word"
  rContainerOpen :: bool

abbreviation (input) kTLVControlByte_NotSpecified :: "16 word" where "kTLVControlByte_NotSpecified \<equiv> 0xFFFF"

subsection \<open>Initialisation and the current element\<close>

definition TLVReader_ClearElementState :: "tlv_reader \<Rightarrow> tlv_reader" where
  "TLVReader_ClearElementState r =
     r\<lparr>rElemTag := AnonymousTag, rControlByte := kTLVControlByte_NotSpecified, rElemLenOrVal := 0\<rparr>"

definition TLVReader_Init :: "byte list \<Rightarrow> tlv_reader" where
  "TLVReader_Init data =
    (let actualDataLen = (if length data > UINT32_MAX then UINT32_MAX else length data)
     in \<lparr>rImplicitProfileId = kProfileIdNotSpecified, rElemTag = AnonymousTag, rElemLenOrVal = 0,
         rReadPoint = take actualDataLen data, rLenRead = 0, rMaxLen = actualDataLen,
         rContainerType = kTLVType_NotSpecified, rControlByte = kTLVControlByte_NotSpecified,
         rContainerOpen = False\<rparr>)"

definition TLVReader_ElementType :: "tlv_reader \<Rightarrow> TLVElementType" where
  "TLVReader_ElementType r =
    (if rControlByte r = kTLVControlByte_NotSpecified then ET_NotSpecified
     else int (unat (rControlByte r AND 0x1F)))"

definition TLVReader_GetType :: "tlv_reader \<Rightarrow> TLVType" where
  "TLVReader_GetType r =
    (let elemType = TLVReader_ElementType r
     in if elemType = ET_EndOfContainer then kTLVType_NotSpecified
        else if elemType = ET_FloatingPointNumber32 \<or> elemType = ET_FloatingPointNumber64 then kTLVType_FloatingPointNumber
        else if elemType = ET_NotSpecified \<or> ET_Null \<le> elemType then elemType
        else elemType - elemType mod 4)"

definition TLVReader_GetLength :: "tlv_reader \<Rightarrow> nat" where
  "TLVReader_GetLength r =
    (if TLVTypeHasLength (TLVReader_ElementType r) then u32 (unat (rElemLenOrVal r)) else 0)"

subsection \<open>Reading bytes\<close>

definition TLVReader_EnsureData :: "CHIP_ERROR \<Rightarrow> tlv_reader \<Rightarrow> CHIP_ERROR" where
  "TLVReader_EnsureData noDataErr r = (if rReadPoint r = [] then noDataErr else CHIP_NO_ERROR)"

text \<open>The bytes are part of the result: a caller that passes \<^verbatim>\<open>nullptr\<close> ignores them.\<close>

function TLVReader_ReadData :: "nat \<Rightarrow> tlv_reader \<Rightarrow> CHIP_ERROR \<times> byte list \<times> tlv_reader" where
  "TLVReader_ReadData len r =
    (if 0 < len then
       (let err = TLVReader_EnsureData CHIP_ERROR_TLV_UNDERRUN r
        in if err \<noteq> CHIP_NO_ERROR then (err, [], r)
           else
             (let remainingLen = length (rReadPoint r);
                  readLen = (if len > remainingLen then remainingLen else len);
                  buf = take readLen (rReadPoint r)
              in case TLVReader_ReadData (len - readLen)
                        (r\<lparr>rReadPoint := drop readLen (rReadPoint r), rLenRead := u32 (rLenRead r + readLen)\<rparr>) of
                   (err, bs, r) \<Rightarrow> (err, buf @ bs, r)))
     else (CHIP_NO_ERROR, [], r))"
  by auto
termination
  by (relation "measure fst") (auto simp: TLVReader_EnsureData_def split: if_splits)

subsection \<open>Reading an element\<close>

fun sTagSizes :: "byte \<Rightarrow> nat" where
  "sTagSizes tagControl = [0, 1, 2, 4, 2, 4, 6, 8] ! unat (drop_bit 5 tagControl)"

text \<open>The tag, and the rest of the staging buffer behind the bytes that were read.\<close>

definition TLVReader_ReadTag :: "tlv_reader \<Rightarrow> byte \<Rightarrow> byte list \<Rightarrow> Tag \<times> byte list" where
  "TLVReader_ReadTag r tagControl p =
    (if tagControl = TC_ContextSpecific then (ContextTag (of_nat (le_value (take 1 p))), drop 1 p)
     else if tagControl = TC_CommonProfile_2Bytes then (CommonTag (of_nat (le_value (take 2 p))), drop 2 p)
     else if tagControl = TC_CommonProfile_4Bytes then (CommonTag (of_nat (le_value (take 4 p))), drop 4 p)
     else if tagControl = TC_ImplicitProfile_2Bytes then
       (if rImplicitProfileId r = kProfileIdNotSpecified then (UnknownImplicitTag, p)
        else (ProfileTag (rImplicitProfileId r) (of_nat (le_value (take 2 p))), drop 2 p))
     else if tagControl = TC_ImplicitProfile_4Bytes then
       (if rImplicitProfileId r = kProfileIdNotSpecified then (UnknownImplicitTag, p)
        else (ProfileTag (rImplicitProfileId r) (of_nat (le_value (take 4 p))), drop 4 p))
     else if tagControl = TC_FullyQualified_6Bytes then
       (VendorProfileTag (of_nat (le_value (take 2 p))) (of_nat (le_value (take 2 (drop 2 p))))
          (of_nat (le_value (take 2 (drop 4 p)))), drop 6 p)
     else if tagControl = TC_FullyQualified_8Bytes then
       (VendorProfileTag (of_nat (le_value (take 2 p))) (of_nat (le_value (take 2 (drop 2 p))))
          (of_nat (le_value (take 4 (drop 4 p)))), drop 8 p)
     else (AnonymousTag, p))"

definition TLVReader_VerifyElement :: "tlv_reader \<Rightarrow> CHIP_ERROR" where
  "TLVReader_VerifyElement r =
    (let elemType = TLVReader_ElementType r; tag = rElemTag r; ct = rContainerType r;
         err = (if elemType = ET_EndOfContainer then
                  (if ct = kTLVType_NotSpecified then CHIP_ERROR_INVALID_TLV_ELEMENT
                   else if tag \<noteq> AnonymousTag then CHIP_ERROR_INVALID_TLV_TAG else CHIP_NO_ERROR)
                else if tag = UnknownImplicitTag then CHIP_ERROR_UNKNOWN_IMPLICIT_TLV_TAG
                else if ct = kTLVType_NotSpecified then
                  (if IsContextTag tag then CHIP_ERROR_INVALID_TLV_TAG else CHIP_NO_ERROR)
                else if ct = kTLVType_Structure then
                  (if tag = AnonymousTag then CHIP_ERROR_INVALID_TLV_TAG else CHIP_NO_ERROR)
                else if ct = kTLVType_Array then
                  (if tag \<noteq> AnonymousTag then CHIP_ERROR_INVALID_TLV_TAG else CHIP_NO_ERROR)
                else if ct = kTLVType_UnknownContainer \<or> ct = kTLVType_List then CHIP_NO_ERROR
                else CHIP_ERROR_INCORRECT_STATE)
     in if err \<noteq> CHIP_NO_ERROR then err
        else if TLVTypeHasLength elemType \<and> sub32 (rMaxLen r) (rLenRead r) < u32 (unat (rElemLenOrVal r))
        then CHIP_ERROR_TLV_UNDERRUN
        else CHIP_NO_ERROR)"

definition TLVReader_ReadElement :: "tlv_reader \<Rightarrow> CHIP_ERROR \<times> tlv_reader" where
  "TLVReader_ReadElement r =
    (let err = TLVReader_EnsureData CHIP_END_OF_TLV r
     in if err \<noteq> CHIP_NO_ERROR then (err, r)
        else
          (let controlByte = hd (rReadPoint r);
               r = r\<lparr>rControlByte := ucast controlByte\<rparr>;
               elemType = TLVReader_ElementType r
           in if \<not> IsValidTLVType elemType then (CHIP_ERROR_INVALID_TLV_ELEMENT, r)
              else
                (let tagControl = controlByte AND 0xE0;
                     tagBytes = sTagSizes tagControl;
                     valOrLenBytes = TLVFieldSizeToBytes (GetTLVFieldSize elemType);
                     elemHeadBytes = u8 (1 + tagBytes + valOrLenBytes)
                 in case TLVReader_ReadData elemHeadBytes r of (err, stagingBuf, r) \<Rightarrow>
                      if err \<noteq> CHIP_NO_ERROR then (err, r)
                      else
                        (case TLVReader_ReadTag r tagControl (drop 1 stagingBuf) of (tag, p) \<Rightarrow>
                           let r = r\<lparr>rElemTag := tag, rElemLenOrVal := of_nat (le_value (take valOrLenBytes p))\<rparr>
                           in if TLVTypeHasLength elemType \<and> UINT32_MAX < unat (rElemLenOrVal r)
                              then (CHIP_ERROR_NOT_IMPLEMENTED, r)
                              else (TLVReader_VerifyElement r, r)))))"

subsection \<open>Reading stays inside the buffer\<close>

declare TLVReader_ReadData.simps [simp del]

lemma ReadData_within:
  assumes "len \<le> length (rReadPoint r)" and "rLenRead r \<le> UINT32_MAX"
  shows "TLVReader_ReadData len r =
    (CHIP_NO_ERROR, take len (rReadPoint r),
     r\<lparr>rReadPoint := drop len (rReadPoint r), rLenRead := u32 (rLenRead r + len)\<rparr>)"
proof (cases "len = 0")
  case False
  then show ?thesis
    using assms TLVReader_ReadData.simps [of 0] TLVReader_ReadData.simps [of len]
    by (auto simp: TLVReader_EnsureData_def Let_def)
qed (use assms in \<open>simp add: TLVReader_ReadData.simps [of 0] u32_id\<close>)

lemma ReadData_underrun:
  assumes "length (rReadPoint r) < len" and "rLenRead r \<le> UINT32_MAX"
  shows "TLVReader_ReadData len r =
    (CHIP_ERROR_TLV_UNDERRUN, rReadPoint r,
     r\<lparr>rReadPoint := [], rLenRead := u32 (rLenRead r + length (rReadPoint r))\<rparr>)"
proof (cases "rReadPoint r = []")
  case False
  then show ?thesis
    using assms TLVReader_ReadData.simps [of len] TLVReader_ReadData.simps [of "len - length (rReadPoint r)"]
    by (auto simp: TLVReader_EnsureData_def Let_def)
next
  case True
  then have "r\<lparr>rReadPoint := [], rLenRead := u32 (rLenRead r + length (rReadPoint r))\<rparr> = r"
    using assms by (cases r) (simp add: u32_id)
  then show ?thesis
    using assms True TLVReader_ReadData.simps [of len] by (simp add: TLVReader_EnsureData_def)
qed

lemma ReadData_length:
  "TLVReader_ReadData len r = (err, bs, r') \<Longrightarrow>
   length (rReadPoint r') \<le> length (rReadPoint r) \<and>
   (err = CHIP_NO_ERROR \<longrightarrow> length (rReadPoint r') + len = length (rReadPoint r))"
proof (induction len r arbitrary: err bs r' rule: TLVReader_ReadData.induct)
  case (1 len r)
  show ?case
  proof (cases "0 < len \<and> rReadPoint r \<noteq> []")
    case True
    define readLen where "readLen = (if len > length (rReadPoint r) then length (rReadPoint r) else len)"
    let ?r = "r\<lparr>rReadPoint := drop readLen (rReadPoint r), rLenRead := u32 (rLenRead r + readLen)\<rparr>"
    obtain e b q where rec: "TLVReader_ReadData (len - readLen) ?r = (e, b, q)"
      by (metis surj_pair)
    have "err = e" "r' = q"
      using True "1.prems" rec
      by (auto simp: TLVReader_ReadData.simps [of len r] TLVReader_EnsureData_def Let_def readLen_def split: if_splits)
    moreover have "length (rReadPoint q) \<le> length (rReadPoint ?r) \<and>
      (e = CHIP_NO_ERROR \<longrightarrow> length (rReadPoint q) + (len - readLen) = length (rReadPoint ?r))"
      using True rec by (intro "1.IH") (auto simp: TLVReader_EnsureData_def readLen_def)
    ultimately show ?thesis
      by (auto simp: readLen_def split: if_splits)
  next
    case False
    then show ?thesis
      using "1.prems" by (auto simp: TLVReader_ReadData.simps [of len r] TLVReader_EnsureData_def split: if_splits)
  qed
qed

lemma sTagSizes_le: "sTagSizes c \<le> 8"
proof -
  have "unat c < 256"
    using unsigned_less [of c] by simp
  then have "unat (drop_bit 5 c) < 8"
    by (simp add: drop_bit_eq_div unat_div)
  moreover have "\<forall>i < 8. [0, 1, 2, 4, 2, 4, 6, 8 :: nat] ! i \<le> 8"
    by (simp add: All_less_Suc numeral_eq_Suc)
  ultimately show ?thesis
    by simp
qed

lemma field_bytes_le: "TLVFieldSizeToBytes (GetTLVFieldSize type) \<le> 8"
proof -
  have "nat (type mod 256 mod 4) \<le> 3"
    using pos_mod_bound [of 4 "type mod 256"] by linarith
  then have "(2::nat) ^ nat (type mod 256 mod 4) \<le> 2 ^ 3"
    by (rule power_increasing) simp
  then show ?thesis
    by (simp add: TLVFieldSizeToBytes_def GetTLVFieldSize_def)
qed

lemma head_bytes:
  "u8 (1 + sTagSizes c + TLVFieldSizeToBytes (GetTLVFieldSize type)) =
   1 + sTagSizes c + TLVFieldSizeToBytes (GetTLVFieldSize type)"
  using sTagSizes_le [of c] field_bytes_le [of type] by (intro u8_id) linarith

lemma ReadElement_consumes:
  "TLVReader_ReadElement r = (err, r') \<Longrightarrow> length (rReadPoint r') \<le> length (rReadPoint r)"
  "TLVReader_ReadElement r = (CHIP_NO_ERROR, r') \<Longrightarrow> length (rReadPoint r') < length (rReadPoint r)"
  by (auto simp: TLVReader_ReadElement_def TLVReader_EnsureData_def Let_def head_bytes
      simp del: sTagSizes.simps One_nat_def split: if_splits prod.splits dest!: ReadData_length)

subsection \<open>Containers and skipping\<close>

definition TLVReader_SkipData :: "tlv_reader \<Rightarrow> CHIP_ERROR \<times> tlv_reader" where
  "TLVReader_SkipData r =
    (if TLVTypeHasLength (TLVReader_ElementType r) then
       (case TLVReader_ReadData (u32 (unat (rElemLenOrVal r))) r of (err, bs, r) \<Rightarrow> (err, r))
     else (CHIP_NO_ERROR, r))"

lemma SkipData_length:
  "TLVReader_SkipData r = (err, r') \<Longrightarrow> length (rReadPoint r') \<le> length (rReadPoint r)"
  by (auto simp: TLVReader_SkipData_def split: if_splits prod.splits dest!: ReadData_length)

text \<open>
  The loop of \<^verbatim>\<open>SkipToEndOfContainer\<close>. Every round consumes at least the control byte of an element,
  so that the loop ends and \<^verbatim>\<open>nestLevel\<close> stays below the length of the buffer.
\<close>

definition SkipToEnd_round :: "TLVType \<Rightarrow> nat \<Rightarrow> tlv_reader \<Rightarrow> CHIP_ERROR \<times> nat \<times> tlv_reader" where
  "SkipToEnd_round outerContainerType nestLevel r =
    (let elemType = TLVReader_ElementType r;
         (nestLevel, r) =
           (if elemType = ET_EndOfContainer then
              (nestLevel - 1,
               r\<lparr>rContainerType := (if nestLevel - 1 = 0 then outerContainerType else kTLVType_UnknownContainer)\<rparr>)
            else if TLVTypeIsContainer elemType then (nestLevel + 1, r\<lparr>rContainerType := elemType\<rparr>)
            else (nestLevel, r))
     in case TLVReader_SkipData r of (err, r) \<Rightarrow>
          if err \<noteq> CHIP_NO_ERROR then (err, nestLevel, r)
          else (case TLVReader_ReadElement r of (err, r) \<Rightarrow> (err, nestLevel, r)))"

lemma SkipToEnd_round_length:
  "SkipToEnd_round outer n r = (err, n', r') \<Longrightarrow> length (rReadPoint r') \<le> length (rReadPoint r)"
  "SkipToEnd_round outer n r = (CHIP_NO_ERROR, n', r') \<Longrightarrow> length (rReadPoint r') < length (rReadPoint r)"
  by (auto simp: SkipToEnd_round_def Let_def split: if_splits prod.splits dest!: SkipData_length ReadElement_consumes)

function SkipToEnd_loop :: "TLVType \<Rightarrow> nat \<Rightarrow> tlv_reader \<Rightarrow> CHIP_ERROR \<times> tlv_reader" where
  "SkipToEnd_loop outerContainerType nestLevel r =
    (if TLVReader_ElementType r = ET_EndOfContainer \<and> nestLevel = 0 then (CHIP_NO_ERROR, r)
     else
       (case SkipToEnd_round outerContainerType nestLevel r of (err, nestLevel, r) \<Rightarrow>
          if err \<noteq> CHIP_NO_ERROR then (err, r) else SkipToEnd_loop outerContainerType nestLevel r))"
  by auto
termination
  by (relation "measure (\<lambda>(outer, nest, r). length (rReadPoint r))") (auto dest: SkipToEnd_round_length(2) [OF sym])

definition TLVReader_SkipToEndOfContainer :: "tlv_reader \<Rightarrow> CHIP_ERROR \<times> tlv_reader" where
  "TLVReader_SkipToEndOfContainer r = SkipToEnd_loop (rContainerType r) 0 (r\<lparr>rContainerOpen := False\<rparr>)"

definition TLVReader_EnterContainer :: "tlv_reader \<Rightarrow> CHIP_ERROR \<times> TLVType \<times> tlv_reader" where
  "TLVReader_EnterContainer r =
    (let elemType = TLVReader_ElementType r
     in if \<not> TLVTypeIsContainer elemType then (CHIP_ERROR_INCORRECT_STATE, kTLVType_NotSpecified, r)
        else (CHIP_NO_ERROR, rContainerType r,
              (TLVReader_ClearElementState (r\<lparr>rContainerType := elemType\<rparr>))\<lparr>rContainerOpen := False\<rparr>))"

definition TLVReader_ExitContainer :: "TLVType \<Rightarrow> tlv_reader \<Rightarrow> CHIP_ERROR \<times> tlv_reader" where
  "TLVReader_ExitContainer outerContainerType r =
    (case TLVReader_SkipToEndOfContainer r of (err, r) \<Rightarrow>
       if err \<noteq> CHIP_NO_ERROR then (err, r)
       else (CHIP_NO_ERROR, TLVReader_ClearElementState (r\<lparr>rContainerType := outerContainerType\<rparr>)))"

text \<open>\<^verbatim>\<open>OpenContainer\<close> returns the reader and the container reader.\<close>

definition TLVReader_OpenContainer :: "tlv_reader \<Rightarrow> tlv_reader \<Rightarrow> CHIP_ERROR \<times> tlv_reader \<times> tlv_reader" where
  "TLVReader_OpenContainer r containerReader =
    (let elemType = TLVReader_ElementType r
     in if \<not> TLVTypeIsContainer elemType then (CHIP_ERROR_INCORRECT_STATE, r, containerReader)
        else (CHIP_NO_ERROR, r\<lparr>rContainerOpen := True\<rparr>,
              (TLVReader_ClearElementState
                 (containerReader\<lparr>rReadPoint := rReadPoint r, rLenRead := rLenRead r, rMaxLen := rMaxLen r\<rparr>))
              \<lparr>rContainerType := elemType, rContainerOpen := False, rImplicitProfileId := rImplicitProfileId r\<rparr>))"

definition TLVReader_CloseContainer :: "tlv_reader \<Rightarrow> tlv_reader \<Rightarrow> CHIP_ERROR \<times> tlv_reader \<times> tlv_reader" where
  "TLVReader_CloseContainer r containerReader =
    (if \<not> rContainerOpen r then (CHIP_ERROR_INCORRECT_STATE, r, containerReader)
     else if rContainerType containerReader \<noteq> TLVReader_ElementType r then (CHIP_ERROR_INCORRECT_STATE, r, containerReader)
     else
       (case TLVReader_SkipToEndOfContainer containerReader of (err, containerReader) \<Rightarrow>
          if err \<noteq> CHIP_NO_ERROR then (err, r, containerReader)
          else
            (CHIP_NO_ERROR,
             TLVReader_ClearElementState
               (r\<lparr>rReadPoint := rReadPoint containerReader, rLenRead := rLenRead containerReader,
                  rMaxLen := rMaxLen containerReader\<rparr>),
             containerReader)))"

definition TLVReader_Skip :: "tlv_reader \<Rightarrow> CHIP_ERROR \<times> tlv_reader" where
  "TLVReader_Skip r =
    (let elemType = TLVReader_ElementType r
     in if elemType = ET_EndOfContainer then (CHIP_END_OF_TLV, r)
        else if TLVTypeIsContainer elemType then
          (case TLVReader_EnterContainer r of (err, outerContainerType, r) \<Rightarrow>
             if err \<noteq> CHIP_NO_ERROR then (err, r) else TLVReader_ExitContainer outerContainerType r)
        else
          (case TLVReader_SkipData r of (err, r) \<Rightarrow>
             if err \<noteq> CHIP_NO_ERROR then (err, r) else (CHIP_NO_ERROR, TLVReader_ClearElementState r)))"

definition TLVReader_Next :: "tlv_reader \<Rightarrow> CHIP_ERROR \<times> tlv_reader" where
  "TLVReader_Next r =
    (case TLVReader_Skip r of (err, r) \<Rightarrow>
       if err \<noteq> CHIP_NO_ERROR then (err, r)
       else
         (case TLVReader_ReadElement r of (err, r) \<Rightarrow>
            if err \<noteq> CHIP_NO_ERROR then (err, r)
            else
              (let elemType = TLVReader_ElementType r
               in if elemType = ET_EndOfContainer then (CHIP_END_OF_TLV, r)
                  else if TLVTypeIsString elemType \<and> TLVReader_GetLength r \<noteq> 0
                  then (TLVReader_EnsureData CHIP_ERROR_TLV_UNDERRUN r, r)
                  else (CHIP_NO_ERROR, r))))"

definition TLVReader_VerifyEndOfContainer :: "tlv_reader \<Rightarrow> CHIP_ERROR \<times> tlv_reader" where
  "TLVReader_VerifyEndOfContainer r =
    (case TLVReader_Next r of (err, r) \<Rightarrow>
       if err = CHIP_END_OF_TLV then (CHIP_NO_ERROR, r)
       else if err = CHIP_NO_ERROR then (CHIP_ERROR_UNEXPECTED_TLV_ELEMENT, r)
       else (err, r))"

definition TLVReader_ExpectTag :: "Tag \<Rightarrow> tlv_reader \<Rightarrow> CHIP_ERROR" where
  "TLVReader_ExpectTag expectedTag r =
    (if TLVReader_GetType r = kTLVType_NotSpecified then CHIP_ERROR_WRONG_TLV_TYPE
     else if rElemTag r \<noteq> expectedTag then CHIP_ERROR_UNEXPECTED_TLV_ELEMENT
     else CHIP_NO_ERROR)"

definition TLVReader_NextTag :: "Tag \<Rightarrow> tlv_reader \<Rightarrow> CHIP_ERROR \<times> tlv_reader" where
  "TLVReader_NextTag expectedTag r =
    (case TLVReader_Next r of (err, r) \<Rightarrow>
       if err \<noteq> CHIP_NO_ERROR then (err, r) else (TLVReader_ExpectTag expectedTag r, r))"

definition TLVReader_Expect :: "TLVType \<Rightarrow> Tag \<Rightarrow> tlv_reader \<Rightarrow> CHIP_ERROR" where
  "TLVReader_Expect expectedType expectedTag r =
    (if TLVReader_GetType r \<noteq> expectedType then CHIP_ERROR_WRONG_TLV_TYPE
     else if rElemTag r \<noteq> expectedTag then CHIP_ERROR_UNEXPECTED_TLV_ELEMENT
     else CHIP_NO_ERROR)"

definition TLVReader_NextType :: "TLVType \<Rightarrow> Tag \<Rightarrow> tlv_reader \<Rightarrow> CHIP_ERROR \<times> tlv_reader" where
  "TLVReader_NextType expectedType expectedTag r =
    (case TLVReader_Next r of (err, r) \<Rightarrow>
       if err \<noteq> CHIP_NO_ERROR then (err, r) else (TLVReader_Expect expectedType expectedTag r, r))"

subsection \<open>Values\<close>

text \<open>
  An output parameter is part of the result, \<open>None\<close> when the method leaves it alone. A value of type
  \<^verbatim>\<open>float\<close> or \<^verbatim>\<open>double\<close> is its bit pattern; the promotion from single to double precision is a parameter.
\<close>

definition CanCastTo :: "int \<Rightarrow> int \<Rightarrow> int \<Rightarrow> bool" where
  "CanCastTo lo hi v \<longleftrightarrow> lo \<le> v \<and> v \<le> hi"

definition TLVReader_Get_bool :: "tlv_reader \<Rightarrow> CHIP_ERROR \<times> bool option" where
  "TLVReader_Get_bool r =
    (let elemType = TLVReader_ElementType r
     in if elemType = ET_BooleanFalse then (CHIP_NO_ERROR, Some False)
        else if elemType = ET_BooleanTrue then (CHIP_NO_ERROR, Some True)
        else (CHIP_ERROR_WRONG_TLV_TYPE, None))"

definition TLVReader_Get_int64 :: "tlv_reader \<Rightarrow> CHIP_ERROR \<times> int option" where
  "TLVReader_Get_int64 r =
    (let elemType = TLVReader_ElementType r; v = rElemLenOrVal r
     in if elemType = ET_Int8 then (CHIP_NO_ERROR, Some (sint (ucast v :: 8 word)))
        else if elemType = ET_Int16 then (CHIP_NO_ERROR, Some (sint (ucast v :: 16 word)))
        else if elemType = ET_Int32 then (CHIP_NO_ERROR, Some (sint (ucast v :: 32 word)))
        else if elemType = ET_Int64 then (CHIP_NO_ERROR, Some (sint v))
        else (CHIP_ERROR_WRONG_TLV_TYPE, None))"

definition TLVReader_Get_uint64 :: "tlv_reader \<Rightarrow> CHIP_ERROR \<times> int option" where
  "TLVReader_Get_uint64 r =
    (let elemType = TLVReader_ElementType r
     in if elemType = ET_UInt8 \<or> elemType = ET_UInt16 \<or> elemType = ET_UInt32 \<or> elemType = ET_UInt64
        then (CHIP_NO_ERROR, Some (uint (rElemLenOrVal r)))
        else (CHIP_ERROR_WRONG_TLV_TYPE, None))"

text \<open>
  The narrower variants share one body: the local variable \<^verbatim>\<open>v64\<close> is 0 when the inner call fails, and is
  then stored as well.
\<close>

definition narrow :: "int \<Rightarrow> int \<Rightarrow> CHIP_ERROR \<times> int option \<Rightarrow> CHIP_ERROR \<times> int option" where
  "narrow lo hi get64 =
    (case get64 of (err, v) \<Rightarrow>
       let v64 = (case v of None \<Rightarrow> 0 | Some v \<Rightarrow> v)
       in if \<not> CanCastTo lo hi v64 then (CHIP_ERROR_INVALID_INTEGER_VALUE, None) else (err, Some v64))"

definition TLVReader_Get_int8 :: "tlv_reader \<Rightarrow> CHIP_ERROR \<times> int option" where
  "TLVReader_Get_int8 r = narrow (- 128) 127 (TLVReader_Get_int64 r)"

definition TLVReader_Get_int16 :: "tlv_reader \<Rightarrow> CHIP_ERROR \<times> int option" where
  "TLVReader_Get_int16 r = narrow (- 32768) 32767 (TLVReader_Get_int64 r)"

definition TLVReader_Get_int32 :: "tlv_reader \<Rightarrow> CHIP_ERROR \<times> int option" where
  "TLVReader_Get_int32 r = narrow (- 2147483648) 2147483647 (TLVReader_Get_int64 r)"

definition TLVReader_Get_uint8 :: "tlv_reader \<Rightarrow> CHIP_ERROR \<times> int option" where
  "TLVReader_Get_uint8 r = narrow 0 255 (TLVReader_Get_uint64 r)"

definition TLVReader_Get_uint16 :: "tlv_reader \<Rightarrow> CHIP_ERROR \<times> int option" where
  "TLVReader_Get_uint16 r = narrow 0 65535 (TLVReader_Get_uint64 r)"

definition TLVReader_Get_uint32 :: "tlv_reader \<Rightarrow> CHIP_ERROR \<times> int option" where
  "TLVReader_Get_uint32 r = narrow 0 4294967295 (TLVReader_Get_uint64 r)"

definition TLVReader_Get_float :: "tlv_reader \<Rightarrow> CHIP_ERROR \<times> 32 word option" where
  "TLVReader_Get_float r =
    (if TLVReader_ElementType r = ET_FloatingPointNumber32 then (CHIP_NO_ERROR, Some (ucast (rElemLenOrVal r)))
     else (CHIP_ERROR_WRONG_TLV_TYPE, None))"

definition TLVReader_Get_double :: "(32 word \<Rightarrow> 64 word) \<Rightarrow> tlv_reader \<Rightarrow> CHIP_ERROR \<times> 64 word option" where
  "TLVReader_Get_double float_to_double r =
    (let elemType = TLVReader_ElementType r
     in if elemType = ET_FloatingPointNumber32 then (CHIP_NO_ERROR, Some (float_to_double (ucast (rElemLenOrVal r))))
        else if elemType = ET_FloatingPointNumber64 then (CHIP_NO_ERROR, Some (rElemLenOrVal r))
        else (CHIP_ERROR_WRONG_TLV_TYPE, None))"

text \<open>A pointer into the buffer is the bytes behind it; \<open>Some None\<close> is the null pointer.\<close>

definition TLVReader_GetDataPtr :: "tlv_reader \<Rightarrow> CHIP_ERROR \<times> byte list option option" where
  "TLVReader_GetDataPtr r =
    (if \<not> TLVTypeIsString (TLVReader_ElementType r) then (CHIP_ERROR_WRONG_TLV_TYPE, None)
     else if TLVReader_GetLength r = 0 then (CHIP_NO_ERROR, Some None)
     else if length (rReadPoint r) < u32 (unat (rElemLenOrVal r)) then (CHIP_ERROR_TLV_UNDERRUN, None)
     else (CHIP_NO_ERROR, Some (Some (rReadPoint r))))"

definition TLVReader_Get_ByteSpan :: "tlv_reader \<Rightarrow> CHIP_ERROR \<times> byte list option" where
  "TLVReader_Get_ByteSpan r =
    (case TLVReader_GetDataPtr r of
       (err, Some p) \<Rightarrow> (err, Some (case p of None \<Rightarrow> [] | Some bs \<Rightarrow> take (TLVReader_GetLength r) bs))
     | (err, None) \<Rightarrow> (err, None))"

text \<open>The argument is \<^verbatim>\<open>CHIP_CONFIG_TLV_VALIDATE_CHAR_STRING_ON_READ\<close>.\<close>

definition TLVReader_Get_CharSpan :: "bool \<Rightarrow> tlv_reader \<Rightarrow> CHIP_ERROR \<times> byte list option" where
  "TLVReader_Get_CharSpan validate r =
    (if \<not> TLVTypeIsUTF8String (TLVReader_ElementType r) then (CHIP_ERROR_WRONG_TLV_TYPE, None)
     else
       (case TLVReader_GetDataPtr r of
          (err, None) \<Rightarrow> (err, None)
        | (err, Some None) \<Rightarrow> (CHIP_NO_ERROR, Some [])
        | (err, Some (Some bytes)) \<Rightarrow>
            (let v = takeWhile (\<lambda>b. b \<noteq> 0x1F) (take (TLVReader_GetLength r) bytes)
             in if validate \<and> \<not> Utf8_IsValid v then (CHIP_ERROR_INVALID_UTF8, Some v)
                else if validate \<and> v \<noteq> [] \<and> last v = 0 then (CHIP_ERROR_INVALID_TLV_CHAR_STRING, Some v)
                else (CHIP_NO_ERROR, Some v))))"

definition hex_digit :: "byte \<Rightarrow> nat option" where
  "hex_digit c =
    (if 0x30 \<le> c \<and> c \<le> 0x39 then Some (unat c - 0x30)
     else if 0x41 \<le> c \<and> c \<le> 0x46 then Some (unat c - 0x41 + 0xA)
     else None)"

fun UppercaseHexToUint16 :: "byte list \<Rightarrow> nat option" where
  "UppercaseHexToUint16 [a, b, c, d] =
    (case (hex_digit a, hex_digit b, hex_digit c, hex_digit d) of
       (Some a, Some b, Some c, Some d) \<Rightarrow> Some (256 * (16 * a + b) + (16 * c + d))
     | _ \<Rightarrow> None)"
| "UppercaseHexToUint16 _ = None"

definition TLVReader_Get_lsid :: "tlv_reader \<Rightarrow> CHIP_ERROR \<times> nat option" where
  "TLVReader_Get_lsid r =
    (if \<not> TLVTypeIsUTF8String (TLVReader_ElementType r) then (CHIP_ERROR_WRONG_TLV_TYPE, None)
     else
       (case TLVReader_GetDataPtr r of
          (err, None) \<Rightarrow> (err, None)
        | (err, Some None) \<Rightarrow> (CHIP_NO_ERROR, None)
        | (err, Some (Some bytes)) \<Rightarrow>
            (let str = take (TLVReader_GetLength r) bytes
             in if 0x1F \<notin> set str then (CHIP_NO_ERROR, None)
                else
                  (let lsid = takeWhile (\<lambda>b. b \<noteq> 0x1F) (tl (dropWhile (\<lambda>b. b \<noteq> 0x1F) str))
                   in if lsid = [] then (CHIP_NO_ERROR, None)
                      else if 4 < length lsid then (CHIP_ERROR_INVALID_TLV_ELEMENT, None)
                      else if hd lsid = 0x30 then (CHIP_ERROR_INVALID_TLV_ELEMENT, None)
                      else
                        (case UppercaseHexToUint16 (replicate (4 - length lsid) 0x30 @ lsid) of
                           None \<Rightarrow> (CHIP_ERROR_INVALID_TLV_ELEMENT, None)
                         | Some ident \<Rightarrow> (CHIP_NO_ERROR, Some ident))))))"

text \<open>The bytes written to the buffer of the caller are returned; a partial copy on an underrun too.\<close>

definition TLVReader_GetBytes :: "nat \<Rightarrow> tlv_reader \<Rightarrow> CHIP_ERROR \<times> byte list \<times> tlv_reader" where
  "TLVReader_GetBytes bufSize r =
    (if \<not> TLVTypeIsString (TLVReader_ElementType r) then (CHIP_ERROR_WRONG_TLV_TYPE, [], r)
     else if bufSize < unat (rElemLenOrVal r) then (CHIP_ERROR_BUFFER_TOO_SMALL, [], r)
     else
       (case TLVReader_ReadData (u32 (unat (rElemLenOrVal r))) r of (err, bs, r) \<Rightarrow>
          if err \<noteq> CHIP_NO_ERROR then (err, bs, r) else (CHIP_NO_ERROR, bs, r\<lparr>rElemLenOrVal := 0\<rparr>)))"

text \<open>The buffer of the caller before and after the call.\<close>

definition TLVReader_GetString :: "byte list \<Rightarrow> tlv_reader \<Rightarrow> CHIP_ERROR \<times> byte list \<times> tlv_reader" where
  "TLVReader_GetString buf r =
    (if \<not> TLVTypeIsString (TLVReader_ElementType r) then (CHIP_ERROR_WRONG_TLV_TYPE, buf, r)
     else if length buf \<le> unat (rElemLenOrVal r) then (CHIP_ERROR_BUFFER_TOO_SMALL, buf, r)
     else
       (let buf = list_write (unat (rElemLenOrVal r)) [0] buf
        in case TLVReader_GetBytes (u32 (unat (rElemLenOrVal r))) r of (err, bs, r) \<Rightarrow> (err, list_write 0 bs buf, r)))"

text \<open>
  \<^verbatim>\<open>MemoryAlloc\<close> is the parameter \<open>alloc\<close>, which says whether a block of the given size is available. The result
  is the new block.
\<close>

definition TLVReader_DupBytes :: "(nat \<Rightarrow> bool) \<Rightarrow> tlv_reader \<Rightarrow> CHIP_ERROR \<times> byte list option \<times> tlv_reader" where
  "TLVReader_DupBytes alloc r =
    (if \<not> TLVTypeIsString (TLVReader_ElementType r) then (CHIP_ERROR_WRONG_TLV_TYPE, None, r)
     else if \<not> alloc (u32 (unat (rElemLenOrVal r))) then (CHIP_ERROR_NO_MEMORY, None, r)
     else
       (case TLVReader_ReadData (u32 (unat (rElemLenOrVal r))) r of (err, bs, r) \<Rightarrow>
          if err \<noteq> CHIP_NO_ERROR then (err, None, r) else (CHIP_NO_ERROR, Some bs, r\<lparr>rElemLenOrVal := 0\<rparr>)))"

definition TLVReader_DupString :: "(nat \<Rightarrow> bool) \<Rightarrow> tlv_reader \<Rightarrow> CHIP_ERROR \<times> byte list option \<times> tlv_reader" where
  "TLVReader_DupString alloc r =
    (if \<not> TLVTypeIsString (TLVReader_ElementType r) then (CHIP_ERROR_WRONG_TLV_TYPE, None, r)
     else if UINT32_MAX - 1 < unat (rElemLenOrVal r) then (CHIP_ERROR_NO_MEMORY, None, r)
     else if \<not> alloc (unat (rElemLenOrVal r) + 1) then (CHIP_ERROR_NO_MEMORY, None, r)
     else
       (case TLVReader_ReadData (u32 (unat (rElemLenOrVal r))) r of (err, bs, r) \<Rightarrow>
          if err \<noteq> CHIP_NO_ERROR then (err, None, r) else (CHIP_NO_ERROR, Some (bs @ [0]), r\<lparr>rElemLenOrVal := 0\<rparr>)))"

definition ContiguousBufferTLVReader_GetByteView :: "tlv_reader \<Rightarrow> CHIP_ERROR \<times> byte list option" where
  "ContiguousBufferTLVReader_GetByteView r =
    (if \<not> TLVTypeIsByteString (TLVReader_ElementType r) then (CHIP_ERROR_WRONG_TLV_TYPE, None)
     else TLVReader_Get_ByteSpan r)"

definition TLVReader_GetElementHeadLength :: "tlv_reader \<Rightarrow> CHIP_ERROR \<times> nat option" where
  "TLVReader_GetElementHeadLength r =
    (let elemType = TLVReader_ElementType r
     in if \<not> IsValidTLVType elemType then (CHIP_ERROR_INVALID_TLV_ELEMENT, None)
        else
          (let tagBytes = sTagSizes (ucast (rControlByte r) AND 0xE0);
               valOrLenBytes = TLVFieldSizeToBytes (GetTLVFieldSize elemType)
           in if 255 < 1 + tagBytes + valOrLenBytes then (CHIP_ERROR_INTERNAL, None)
              else (CHIP_NO_ERROR, Some (1 + tagBytes + valOrLenBytes))))"

subsection \<open>Every element consumes input\<close>

lemma ClearElementState_simps [simp]:
  "rReadPoint (TLVReader_ClearElementState r) = rReadPoint r" "rLenRead (TLVReader_ClearElementState r) = rLenRead r"
  "rMaxLen (TLVReader_ClearElementState r) = rMaxLen r" "rContainerType (TLVReader_ClearElementState r) = rContainerType r"
  "rElemTag (TLVReader_ClearElementState r) = AnonymousTag" "rElemLenOrVal (TLVReader_ClearElementState r) = 0"
  "rControlByte (TLVReader_ClearElementState r) = 0xFFFF" "rContainerOpen (TLVReader_ClearElementState r) = rContainerOpen r"
  "rImplicitProfileId (TLVReader_ClearElementState r) = rImplicitProfileId r"
  by (simp_all add: TLVReader_ClearElementState_def)

declare SkipToEnd_loop.simps [simp del]

lemma SkipToEnd_induct [case_names round]:
  assumes "SkipToEnd_loop outer n r = (err, r')" and "P r"
    and round: "\<And>n r err n' r'. P r \<Longrightarrow> SkipToEnd_round outer n r = (err, n', r') \<Longrightarrow> P r'"
  shows "P r'"
  using assms(1,2)
proof (induction "length (rReadPoint r)" arbitrary: n r rule: less_induct)
  case less
  obtain e m q where body: "SkipToEnd_round outer n r = (e, m, q)"
    by (metis surj_pair)
  show ?case
  proof (cases "TLVReader_ElementType r = ET_EndOfContainer \<and> n = 0")
    case False
    then show ?thesis
      using less.prems less.hyps [of q m] body round [OF _ body] SkipToEnd_round_length(2) [of outer n r m q]
      by (auto simp: SkipToEnd_loop.simps [of outer n r] split: if_splits)
  qed (use less.prems in \<open>simp add: SkipToEnd_loop.simps [of outer 0 r]\<close>)
qed

lemma SkipToEnd_length:
  "SkipToEnd_loop outer n r = (err, r') \<Longrightarrow> length (rReadPoint r') \<le> length (rReadPoint r)"
  by (rule SkipToEnd_induct [where P = "\<lambda>q. length (rReadPoint q) \<le> length (rReadPoint r)"])
    (auto dest: SkipToEnd_round_length(1))


lemma Skip_length:
  "TLVReader_Skip r = (err, r') \<Longrightarrow> length (rReadPoint r') \<le> length (rReadPoint r)"
  by (auto simp: TLVReader_Skip_def TLVReader_EnterContainer_def TLVReader_ExitContainer_def
      TLVReader_SkipToEndOfContainer_def Let_def split: if_splits prod.splits
      dest!: SkipToEnd_length SkipData_length)

lemma Next_length:
  "TLVReader_Next r = (err, r') \<Longrightarrow> length (rReadPoint r') \<le> length (rReadPoint r)"
  "TLVReader_Next r = (CHIP_NO_ERROR, r') \<Longrightarrow> length (rReadPoint r') < length (rReadPoint r)"
  by (auto simp: TLVReader_Next_def Let_def split: if_splits prod.splits dest!: Skip_length ReadElement_consumes)

subsection \<open>Loops over the elements\<close>

text \<open>The result of \<^verbatim>\<open>FindElementWithTag\<close> is the status and the reader positioned on the element.\<close>

function TLVReader_FindElementWithTag :: "Tag \<Rightarrow> tlv_reader \<Rightarrow> CHIP_ERROR \<times> tlv_reader option" where
  "TLVReader_FindElementWithTag tag r =
    (case TLVReader_Next r of (err, r) \<Rightarrow>
       if err \<noteq> CHIP_NO_ERROR then (err, None)
       else if TLVReader_GetType r = kTLVType_NotSpecified then (CHIP_ERROR_INVALID_TLV_ELEMENT, None)
       else if tag = rElemTag r then (CHIP_NO_ERROR, Some r)
       else TLVReader_FindElementWithTag tag r)"
  by auto
termination
  by (relation "measure (\<lambda>(tag, r). length (rReadPoint r))") (auto dest: Next_length(2) [OF sym])

function count_elements :: "tlv_reader \<Rightarrow> CHIP_ERROR \<times> nat" where
  "count_elements r =
    (case TLVReader_Next r of (err, r) \<Rightarrow>
       if err \<noteq> CHIP_NO_ERROR then (err, 0)
       else (case count_elements r of (err, count) \<Rightarrow> (err, count + 1)))"
  by auto
termination
  by (relation "measure (\<lambda>r. length (rReadPoint r))") (auto dest: Next_length(2) [OF sym])

definition TLVReader_CountRemainingInContainer :: "tlv_reader \<Rightarrow> CHIP_ERROR \<times> nat option" where
  "TLVReader_CountRemainingInContainer r =
    (if rContainerType r = kTLVType_NotSpecified then (CHIP_ERROR_INCORRECT_STATE, None)
     else
       (case count_elements r of (err, count) \<Rightarrow>
          if err = CHIP_END_OF_TLV then (CHIP_NO_ERROR, Some count) else (err, None)))"

declare TLVReader_FindElementWithTag.simps [simp del] count_elements.simps [simp del]

subsection \<open>The reader invariant\<close>

text \<open>
  The bytes read and the bytes left add up to the length the reader was given: no byte outside of the
  buffer is read, and no counter wraps around.
\<close>

definition reader_inv :: "tlv_reader \<Rightarrow> bool" where
  "reader_inv r \<longleftrightarrow> rLenRead r + length (rReadPoint r) = rMaxLen r \<and> rMaxLen r \<le> UINT32_MAX"

lemma reader_inv_Init: "reader_inv (TLVReader_Init data)"
  by (simp add: reader_inv_def TLVReader_Init_def)

lemma reader_inv_ReadData:
  assumes "reader_inv r" and "TLVReader_ReadData len r = (err, bs, r')"
  shows "reader_inv r' \<and> rMaxLen r' = rMaxLen r"
proof (cases "len \<le> length (rReadPoint r)")
  case True
  then show ?thesis
    using assms ReadData_within [of len r] by (auto simp: reader_inv_def u32_id)
next
  case False
  then show ?thesis
    using assms ReadData_underrun [of r len] by (auto simp: reader_inv_def u32_id)
qed

lemma reader_inv_fields [simp]:
  "reader_inv (r\<lparr>rContainerType := ct\<rparr>) = reader_inv r" "reader_inv (r\<lparr>rContainerOpen := b\<rparr>) = reader_inv r"
  "reader_inv (r\<lparr>rControlByte := c\<rparr>) = reader_inv r" "reader_inv (r\<lparr>rElemTag := t\<rparr>) = reader_inv r"
  "reader_inv (TLVReader_ClearElementState r) = reader_inv r" "reader_inv (r\<lparr>rElemLenOrVal := v\<rparr>) = reader_inv r"
  by (simp_all add: reader_inv_def)

lemma reader_inv_SkipData:
  "reader_inv r \<Longrightarrow> TLVReader_SkipData r = (err, r') \<Longrightarrow> reader_inv r'"
  by (auto simp: TLVReader_SkipData_def split: if_splits prod.splits dest: reader_inv_ReadData)

lemma reader_inv_ReadElement:
  "reader_inv r \<Longrightarrow> TLVReader_ReadElement r = (err, r') \<Longrightarrow> reader_inv r'"
  by (auto simp: TLVReader_ReadElement_def Let_def split: if_splits prod.splits dest!: reader_inv_ReadData [rotated])

lemma reader_inv_SkipToEnd:
  "reader_inv r \<Longrightarrow> SkipToEnd_loop outer n r = (err, r') \<Longrightarrow> reader_inv r'"
  by (erule SkipToEnd_induct)
    (auto simp: SkipToEnd_round_def Let_def split: if_splits prod.splits
      dest!: reader_inv_SkipData [rotated] reader_inv_ReadElement [rotated])

lemma reader_inv_Skip:
  "reader_inv r \<Longrightarrow> TLVReader_Skip r = (err, r') \<Longrightarrow> reader_inv r'"
  by (auto simp: TLVReader_Skip_def TLVReader_EnterContainer_def TLVReader_ExitContainer_def
      TLVReader_SkipToEndOfContainer_def Let_def split: if_splits prod.splits
      dest!: reader_inv_SkipToEnd [rotated] reader_inv_SkipData [rotated])

lemma reader_inv_Next:
  "reader_inv r \<Longrightarrow> TLVReader_Next r = (err, r') \<Longrightarrow> reader_inv r'"
  by (auto simp: TLVReader_Next_def Let_def split: if_splits prod.splits
      dest!: reader_inv_Skip [rotated] reader_inv_ReadElement [rotated])

end
