(* ===== verification/TlvWriter.thy ===== *)
theory TlvWriter
  imports TlvReader
begin

text \<open>
  The TLV writer on a contiguous buffer (\<^verbatim>\<open>src/lib/core/TLVWriter.cpp\<close>, with \<^verbatim>\<open>mBackingStore == nullptr\<close>). A
  member \<^verbatim>\<open>mX\<close> of the class is the field \<open>wX\<close>; \<open>wBuf\<close> holds the bytes from \<^verbatim>\<open>mBufStart\<close> to \<^verbatim>\<open>mWritePoint\<close>, and
  \<open>wInitialized\<close> says that the initialization cookie has its expected value. A method \<^verbatim>\<open>TLVWriter::m\<close> is the
  definition \<open>TLVWriter_m\<close>, with the types of its arguments in the name where it is overloaded. The counters
  are 32 bits wide; \<open>u32\<close> and \<open>sub32\<close> mark where they may wrap around.
\<close>

record tlv_writer =
  wImplicitProfileId :: "32 word"
  wBuf :: "byte list"
  wRemainingLen :: nat
  wLenWritten :: nat
  wMaxLen :: nat
  wReservedSize :: nat
  wContainerType :: TLVType
  wInitialized :: bool
  wContainerOpen :: bool
  wCloseContainerReserved :: bool

definition kEndOfContainerMarkerSize :: nat where
  [simp]: "kEndOfContainerMarkerSize = 1"

subsection \<open>Initialisation and reservation\<close>

definition TLVWriter_Init :: "nat \<Rightarrow> tlv_writer" where
  "TLVWriter_Init maxLen =
    (let actualMaxLen = (if maxLen > UINT32_MAX then UINT32_MAX else maxLen)
     in \<lparr>wImplicitProfileId = kProfileIdNotSpecified, wBuf = [], wRemainingLen = actualMaxLen, wLenWritten = 0,
         wMaxLen = actualMaxLen, wReservedSize = 0, wContainerType = kTLVType_NotSpecified, wInitialized = True,
         wContainerOpen = False, wCloseContainerReserved = True\<rparr>)"

definition TLVWriter_Finalize :: "tlv_writer \<Rightarrow> CHIP_ERROR" where
  "TLVWriter_Finalize w =
    (if \<not> wInitialized w then CHIP_ERROR_INCORRECT_STATE
     else if wContainerOpen w then CHIP_ERROR_TLV_CONTAINER_OPEN
     else CHIP_NO_ERROR)"

definition TLVWriter_ReserveBuffer :: "nat \<Rightarrow> tlv_writer \<Rightarrow> CHIP_ERROR \<times> tlv_writer" where
  "TLVWriter_ReserveBuffer aBufferSize w =
    (if \<not> wInitialized w then (CHIP_ERROR_INCORRECT_STATE, w)
     else if wRemainingLen w < aBufferSize then (CHIP_ERROR_NO_MEMORY, w)
     else (CHIP_NO_ERROR, w\<lparr>wReservedSize := u32 (wReservedSize w + aBufferSize), wRemainingLen := wRemainingLen w - aBufferSize\<rparr>))"

definition TLVWriter_UnreserveBuffer :: "nat \<Rightarrow> tlv_writer \<Rightarrow> CHIP_ERROR \<times> tlv_writer" where
  "TLVWriter_UnreserveBuffer aBufferSize w =
    (if \<not> wInitialized w then (CHIP_ERROR_INCORRECT_STATE, w)
     else if wReservedSize w < aBufferSize then (CHIP_ERROR_NO_MEMORY, w)
     else (CHIP_NO_ERROR, w\<lparr>wReservedSize := wReservedSize w - aBufferSize, wRemainingLen := u32 (wRemainingLen w + aBufferSize)\<rparr>))"

subsection \<open>Writing bytes and element heads\<close>

function WriteData_loop :: "byte list \<Rightarrow> tlv_writer \<Rightarrow> CHIP_ERROR \<times> tlv_writer" where
  "WriteData_loop p w =
    (if 0 < length p then
       (if wRemainingLen w = 0 then (CHIP_ERROR_NO_MEMORY, w)
        else
          (let writeLen = (if length p > wRemainingLen w then wRemainingLen w else length p)
           in WriteData_loop (drop writeLen p)
                (w\<lparr>wBuf := wBuf w @ take writeLen p, wRemainingLen := wRemainingLen w - writeLen,
                   wLenWritten := u32 (wLenWritten w + writeLen)\<rparr>)))
     else (CHIP_NO_ERROR, w))"
  by auto
termination
  by (relation "measure (\<lambda>(p, w). length p)") auto

definition TLVWriter_WriteData :: "byte list \<Rightarrow> tlv_writer \<Rightarrow> CHIP_ERROR \<times> tlv_writer" where
  "TLVWriter_WriteData p w =
    (if \<not> wInitialized w then (CHIP_ERROR_INCORRECT_STATE, w)
     else if wMaxLen w < u32 (wLenWritten w + length p) then (CHIP_ERROR_BUFFER_TOO_SMALL, w)
     else WriteData_loop p w)"

text \<open>The control byte and the tag, as \<^verbatim>\<open>WriteElementHead\<close> puts them into the staging buffer.\<close>

definition head_tag :: "TLVElementType \<Rightarrow> Tag \<Rightarrow> tlv_writer \<Rightarrow> CHIP_ERROR + byte list" where
  "head_tag elemType tag w =
    (let tagNum = TagNumFromTag tag; ct = wContainerType w; et = (of_int elemType :: byte);
         Put16 = (\<lambda>x :: 16 word. EndianPut 2 (ucast x)); Put32 = (\<lambda>x :: 32 word. EndianPut 4 (ucast x))
     in if IsSpecialTag tag then
          (if tagNum \<le> kContextTagMaxNum then
             (if ct \<noteq> kTLVType_Structure \<and> ct \<noteq> kTLVType_List then Inl CHIP_ERROR_INVALID_TLV_TAG
              else Inr [TC_ContextSpecific OR et, ucast tagNum])
           else
             (if elemType \<noteq> ET_EndOfContainer \<and> ct \<noteq> kTLVType_NotSpecified \<and> ct \<noteq> kTLVType_Array \<and> ct \<noteq> kTLVType_List
              then Inl CHIP_ERROR_INVALID_TLV_TAG
              else Inr [TC_Anonymous OR et]))
        else
          (let profileId = ProfileIdFromTag tag
           in if ct \<noteq> kTLVType_NotSpecified \<and> ct \<noteq> kTLVType_Structure \<and> ct \<noteq> kTLVType_List
              then Inl CHIP_ERROR_INVALID_TLV_TAG
              else if profileId = kCommonProfileId then
                (if tagNum \<le> 0xFFFF then Inr ((TC_CommonProfile_2Bytes OR et) # Put16 (ucast tagNum))
                 else Inr ((TC_CommonProfile_4Bytes OR et) # Put32 tagNum))
              else if profileId = wImplicitProfileId w then
                (if tagNum \<le> 0xFFFF then Inr ((TC_ImplicitProfile_2Bytes OR et) # Put16 (ucast tagNum))
                 else Inr ((TC_ImplicitProfile_4Bytes OR et) # Put32 tagNum))
              else
                (let vendorId = ucast (drop_bit 16 profileId); profileNum = ucast profileId
                 in if tagNum \<le> 0xFFFF
                    then Inr ((TC_FullyQualified_6Bytes OR et) # Put16 vendorId @ Put16 profileNum @ Put16 (ucast tagNum))
                    else Inr ((TC_FullyQualified_8Bytes OR et) # Put16 vendorId @ Put16 profileNum @ Put32 tagNum))))"

definition TLVWriter_WriteElementHead :: "TLVElementType \<Rightarrow> Tag \<Rightarrow> 64 word \<Rightarrow> tlv_writer \<Rightarrow> CHIP_ERROR \<times> tlv_writer" where
  "TLVWriter_WriteElementHead elemType tag lenOrVal w =
    (if \<not> wInitialized w then (CHIP_ERROR_INCORRECT_STATE, w)
     else if wContainerOpen w then (CHIP_ERROR_TLV_CONTAINER_OPEN, w)
     else
       (case head_tag elemType tag w of
          Inl err \<Rightarrow> (err, w)
        | Inr stagingBuf \<Rightarrow>
            TLVWriter_WriteData (stagingBuf @ EndianPut (TLVFieldSizeToBytes (GetTLVFieldSize elemType)) lenOrVal) w))"

definition len_field_size :: "nat \<Rightarrow> TLVFieldSize" where
  "len_field_size dataLen = (if dataLen \<le> 255 then 0 else if dataLen \<le> 65535 then 1 else 2)"

definition TLVWriter_WriteElementWithData :: "TLVType \<Rightarrow> Tag \<Rightarrow> byte list \<Rightarrow> tlv_writer \<Rightarrow> CHIP_ERROR \<times> tlv_writer" where
  "TLVWriter_WriteElementWithData type tag data w =
    (if \<not> wInitialized w then (CHIP_ERROR_INCORRECT_STATE, w)
     else if type mod 4 \<noteq> 0 then (CHIP_ERROR_INVALID_ARGUMENT, w)
     else
       (case TLVWriter_WriteElementHead (type OR len_field_size (length data)) tag (of_nat (length data)) w of (err, w) \<Rightarrow>
          if err \<noteq> CHIP_NO_ERROR then (err, w) else TLVWriter_WriteData data w))"

subsection \<open>Scalars and strings\<close>

definition TLVWriter_PutBoolean :: "Tag \<Rightarrow> bool \<Rightarrow> tlv_writer \<Rightarrow> CHIP_ERROR \<times> tlv_writer" where
  "TLVWriter_PutBoolean tag v w = TLVWriter_WriteElementHead (if v then ET_BooleanTrue else ET_BooleanFalse) tag 0 w"

definition TLVWriter_Put_uint64 :: "Tag \<Rightarrow> 64 word \<Rightarrow> tlv_writer \<Rightarrow> CHIP_ERROR \<times> tlv_writer" where
  "TLVWriter_Put_uint64 tag v w =
    (let elemType = (if v \<le> 0xFF then ET_UInt8 else if v \<le> 0xFFFF then ET_UInt16
                     else if v \<le> 0xFFFFFFFF then ET_UInt32 else ET_UInt64)
     in TLVWriter_WriteElementHead elemType tag v w)"

text \<open>The variants for narrower types, with \<^verbatim>\<open>preserveSize\<close>.\<close>

definition TLVWriter_Put_uint8 :: "Tag \<Rightarrow> 8 word \<Rightarrow> bool \<Rightarrow> tlv_writer \<Rightarrow> CHIP_ERROR \<times> tlv_writer" where
  "TLVWriter_Put_uint8 tag v preserveSize w =
    (if preserveSize then TLVWriter_WriteElementHead ET_UInt8 tag (ucast v) w else TLVWriter_Put_uint64 tag (ucast v) w)"

definition TLVWriter_Put_uint16 :: "Tag \<Rightarrow> 16 word \<Rightarrow> bool \<Rightarrow> tlv_writer \<Rightarrow> CHIP_ERROR \<times> tlv_writer" where
  "TLVWriter_Put_uint16 tag v preserveSize w =
    (if preserveSize then TLVWriter_WriteElementHead ET_UInt16 tag (ucast v) w else TLVWriter_Put_uint64 tag (ucast v) w)"

definition TLVWriter_Put_uint32 :: "Tag \<Rightarrow> 32 word \<Rightarrow> bool \<Rightarrow> tlv_writer \<Rightarrow> CHIP_ERROR \<times> tlv_writer" where
  "TLVWriter_Put_uint32 tag v preserveSize w =
    (if preserveSize then TLVWriter_WriteElementHead ET_UInt32 tag (ucast v) w else TLVWriter_Put_uint64 tag (ucast v) w)"

definition TLVWriter_Put_uint64_size :: "Tag \<Rightarrow> 64 word \<Rightarrow> bool \<Rightarrow> tlv_writer \<Rightarrow> CHIP_ERROR \<times> tlv_writer" where
  "TLVWriter_Put_uint64_size tag v preserveSize w =
    (if preserveSize then TLVWriter_WriteElementHead ET_UInt64 tag v w else TLVWriter_Put_uint64 tag v w)"

text \<open>A signed integer is the \<^verbatim>\<open>int64_t\<close> as a word; comparisons are signed.\<close>

definition TLVWriter_Put_int64 :: "Tag \<Rightarrow> 64 word \<Rightarrow> tlv_writer \<Rightarrow> CHIP_ERROR \<times> tlv_writer" where
  "TLVWriter_Put_int64 tag v w =
    (let elemType = (if - 128 \<le> sint v \<and> sint v \<le> 127 then ET_Int8
                     else if - 32768 \<le> sint v \<and> sint v \<le> 32767 then ET_Int16
                     else if - 2147483648 \<le> sint v \<and> sint v \<le> 2147483647 then ET_Int32
                     else ET_Int64)
     in TLVWriter_WriteElementHead elemType tag v w)"

definition TLVWriter_Put_int8 :: "Tag \<Rightarrow> 8 word \<Rightarrow> bool \<Rightarrow> tlv_writer \<Rightarrow> CHIP_ERROR \<times> tlv_writer" where
  "TLVWriter_Put_int8 tag v preserveSize w =
    (if preserveSize then TLVWriter_WriteElementHead ET_Int8 tag (ucast v) w else TLVWriter_Put_int64 tag (scast v) w)"

definition TLVWriter_Put_int16 :: "Tag \<Rightarrow> 16 word \<Rightarrow> bool \<Rightarrow> tlv_writer \<Rightarrow> CHIP_ERROR \<times> tlv_writer" where
  "TLVWriter_Put_int16 tag v preserveSize w =
    (if preserveSize then TLVWriter_WriteElementHead ET_Int16 tag (ucast v) w else TLVWriter_Put_int64 tag (scast v) w)"

definition TLVWriter_Put_int32 :: "Tag \<Rightarrow> 32 word \<Rightarrow> bool \<Rightarrow> tlv_writer \<Rightarrow> CHIP_ERROR \<times> tlv_writer" where
  "TLVWriter_Put_int32 tag v preserveSize w =
    (if preserveSize then TLVWriter_WriteElementHead ET_Int32 tag (ucast v) w else TLVWriter_Put_int64 tag (scast v) w)"

definition TLVWriter_Put_int64_size :: "Tag \<Rightarrow> 64 word \<Rightarrow> bool \<Rightarrow> tlv_writer \<Rightarrow> CHIP_ERROR \<times> tlv_writer" where
  "TLVWriter_Put_int64_size tag v preserveSize w =
    (if preserveSize then TLVWriter_WriteElementHead ET_Int64 tag v w else TLVWriter_Put_int64 tag v w)"

text \<open>Floating point values are their bit patterns.\<close>

definition TLVWriter_Put_float :: "Tag \<Rightarrow> 32 word \<Rightarrow> tlv_writer \<Rightarrow> CHIP_ERROR \<times> tlv_writer" where
  "TLVWriter_Put_float tag v w = TLVWriter_WriteElementHead ET_FloatingPointNumber32 tag (ucast v) w"

definition TLVWriter_Put_double :: "Tag \<Rightarrow> 64 word \<Rightarrow> tlv_writer \<Rightarrow> CHIP_ERROR \<times> tlv_writer" where
  "TLVWriter_Put_double tag v w = TLVWriter_WriteElementHead ET_FloatingPointNumber64 tag v w"

definition TLVWriter_PutNull :: "Tag \<Rightarrow> tlv_writer \<Rightarrow> CHIP_ERROR \<times> tlv_writer" where
  "TLVWriter_PutNull tag w = TLVWriter_WriteElementHead ET_Null tag 0 w"

definition TLVWriter_PutBytes :: "Tag \<Rightarrow> byte list \<Rightarrow> tlv_writer \<Rightarrow> CHIP_ERROR \<times> tlv_writer" where
  "TLVWriter_PutBytes tag buf w = TLVWriter_WriteElementWithData kTLVType_ByteString tag buf w"

definition TLVWriter_Put_ByteSpan :: "Tag \<Rightarrow> byte list \<Rightarrow> tlv_writer \<Rightarrow> CHIP_ERROR \<times> tlv_writer" where
  "TLVWriter_Put_ByteSpan tag data w =
    (if UINT32_MAX < length data then (CHIP_ERROR_MESSAGE_TOO_LONG, w) else TLVWriter_PutBytes tag data w)"

text \<open>The first argument is \<^verbatim>\<open>CHIP_CONFIG_TLV_VALIDATE_CHAR_STRING_ON_WRITE\<close>.\<close>

definition TLVWriter_PutString :: "bool \<Rightarrow> Tag \<Rightarrow> byte list \<Rightarrow> tlv_writer \<Rightarrow> CHIP_ERROR \<times> tlv_writer" where
  "TLVWriter_PutString validate tag buf w =
    (if validate \<and> \<not> Utf8_IsValid buf then (CHIP_ERROR_INVALID_UTF8, w)
     else if validate \<and> buf \<noteq> [] \<and> last buf = 0 then (CHIP_ERROR_INVALID_TLV_CHAR_STRING, w)
     else TLVWriter_WriteElementWithData kTLVType_UTF8String tag buf w)"

definition TLVWriter_PutString_CharSpan :: "bool \<Rightarrow> Tag \<Rightarrow> byte list \<Rightarrow> tlv_writer \<Rightarrow> CHIP_ERROR \<times> tlv_writer" where
  "TLVWriter_PutString_CharSpan validate tag str w =
    (if UINT32_MAX < length str then (CHIP_ERROR_INVALID_ARGUMENT, w) else TLVWriter_PutString validate tag str w)"

definition strnlen :: "cmem \<Rightarrow> nat \<Rightarrow> nat" where
  "strnlen s maxlen = length (takeWhile (\<lambda>b. b \<noteq> 0) (map s [0..<maxlen]))"

text \<open>The variant for strings that end with a null byte; \<open>None\<close> is the null pointer.\<close>

definition TLVWriter_PutString_cstr :: "bool \<Rightarrow> Tag \<Rightarrow> cmem option \<Rightarrow> tlv_writer \<Rightarrow> CHIP_ERROR \<times> tlv_writer" where
  "TLVWriter_PutString_cstr validate tag buf w =
    (case buf of
       None \<Rightarrow> (CHIP_ERROR_INVALID_ARGUMENT, w)
     | Some s \<Rightarrow>
         if wMaxLen w = 0 then (CHIP_ERROR_INCORRECT_STATE, w)
         else
           (let len = strnlen s (wMaxLen w)
            in if UINT32_MAX < len then (CHIP_ERROR_INVALID_ARGUMENT, w)
               else if len = wMaxLen w then (CHIP_ERROR_BUFFER_TOO_SMALL, w)
               else TLVWriter_PutString validate tag (map s [0..<len]) w))"

text \<open>
  \<open>txt\<close> is the output of \<^verbatim>\<open>vsnprintf\<close> for the format and its arguments, \<open>None\<close> if it fails (the negative result is then
  converted to a \<^verbatim>\<open>size_t\<close> above \<^verbatim>\<open>UINT32_MAX\<close>); \<open>alloc\<close> says whether a block is available (\<^verbatim>\<open>CONFIG_HAVE_VCBPRINTF\<close> is not
  set).
\<close>

definition TLVWriter_VPutStringF :: "(nat \<Rightarrow> bool) \<Rightarrow> Tag \<Rightarrow> byte list option \<Rightarrow> tlv_writer \<Rightarrow> CHIP_ERROR \<times> tlv_writer" where
  "TLVWriter_VPutStringF alloc tag txt w =
    (case txt of
       None \<Rightarrow> (CHIP_ERROR_INVALID_ARGUMENT, w)
     | Some txt \<Rightarrow>
         (let dataLen = length txt
          in if UINT32_MAX < dataLen then (CHIP_ERROR_INVALID_ARGUMENT, w)
             else
               (case TLVWriter_WriteElementHead (kTLVType_UTF8String OR len_field_size dataLen) tag (of_nat dataLen) w of (err, w) \<Rightarrow>
                  if err \<noteq> CHIP_NO_ERROR then (err, w)
                  else if wMaxLen w < wLenWritten w + dataLen then (CHIP_ERROR_BUFFER_TOO_SMALL, w)
                  else if \<not> alloc (dataLen + 1) then (CHIP_ERROR_NO_MEMORY, w)
                  else TLVWriter_WriteData txt w)))"

subsection \<open>Containers\<close>

definition reserve_end :: "tlv_writer \<Rightarrow> tlv_writer" where
  "reserve_end w = (if wCloseContainerReserved w then w\<lparr>wMaxLen := wMaxLen w - kEndOfContainerMarkerSize\<rparr> else w)"

definition release_end :: "tlv_writer \<Rightarrow> tlv_writer" where
  "release_end w = (if wCloseContainerReserved w then w\<lparr>wMaxLen := u32 (wMaxLen w + kEndOfContainerMarkerSize)\<rparr> else w)"

definition TLVWriter_StartContainer :: "Tag \<Rightarrow> TLVType \<Rightarrow> tlv_writer \<Rightarrow> CHIP_ERROR \<times> TLVType option \<times> tlv_writer" where
  "TLVWriter_StartContainer tag containerType w =
    (if \<not> wInitialized w then (CHIP_ERROR_INCORRECT_STATE, None, w)
     else if \<not> TLVTypeIsContainer containerType then (CHIP_ERROR_WRONG_TLV_TYPE, None, w)
     else if wCloseContainerReserved w \<and> wMaxLen w < kEndOfContainerMarkerSize then (CHIP_ERROR_BUFFER_TOO_SMALL, None, w)
     else
       (case TLVWriter_WriteElementHead containerType tag 0 (reserve_end w) of (err, w) \<Rightarrow>
          if err \<noteq> CHIP_NO_ERROR then (err, None, release_end w)
          else (CHIP_NO_ERROR, Some (wContainerType w), w\<lparr>wContainerType := containerType, wContainerOpen := False\<rparr>)))"

definition TLVWriter_EndContainer :: "TLVType \<Rightarrow> tlv_writer \<Rightarrow> CHIP_ERROR \<times> tlv_writer" where
  "TLVWriter_EndContainer outerContainerType w =
    (if \<not> wInitialized w then (CHIP_ERROR_INCORRECT_STATE, w)
     else if \<not> TLVTypeIsContainer (wContainerType w) then (CHIP_ERROR_INCORRECT_STATE, w)
     else TLVWriter_WriteElementHead ET_EndOfContainer AnonymousTag 0 (release_end (w\<lparr>wContainerType := outerContainerType\<rparr>)))"

text \<open>The results are the writer and the container writer.\<close>

definition TLVWriter_OpenContainer ::
  "Tag \<Rightarrow> TLVType \<Rightarrow> tlv_writer \<Rightarrow> tlv_writer \<Rightarrow> CHIP_ERROR \<times> tlv_writer \<times> tlv_writer" where
  "TLVWriter_OpenContainer tag containerType w containerWriter =
    (if \<not> wInitialized w then (CHIP_ERROR_INCORRECT_STATE, w, containerWriter)
     else if \<not> TLVTypeIsContainer containerType then (CHIP_ERROR_WRONG_TLV_TYPE, w, containerWriter)
     else if wCloseContainerReserved w \<and> wMaxLen w < kEndOfContainerMarkerSize
     then (CHIP_ERROR_BUFFER_TOO_SMALL, w, containerWriter)
     else
       (case TLVWriter_WriteElementHead containerType tag 0 (reserve_end w) of (err, w) \<Rightarrow>
          if err \<noteq> CHIP_NO_ERROR then (err, release_end w, containerWriter)
          else
            (CHIP_NO_ERROR, w\<lparr>wContainerOpen := True\<rparr>,
             containerWriter\<lparr>wBuf := wBuf w, wRemainingLen := wRemainingLen w, wLenWritten := 0,
               wMaxLen := sub32 (wMaxLen w) (wLenWritten w), wContainerType := containerType, wContainerOpen := False,
               wCloseContainerReserved := wCloseContainerReserved w, wImplicitProfileId := wImplicitProfileId w,
               wInitialized := True\<rparr>)))"

definition TLVWriter_CloseContainer :: "tlv_writer \<Rightarrow> tlv_writer \<Rightarrow> CHIP_ERROR \<times> tlv_writer \<times> tlv_writer" where
  "TLVWriter_CloseContainer w containerWriter =
    (if \<not> wInitialized w then (CHIP_ERROR_INCORRECT_STATE, w, containerWriter)
     else if \<not> TLVTypeIsContainer (wContainerType containerWriter) then (CHIP_ERROR_INCORRECT_STATE, w, containerWriter)
     else if wContainerOpen containerWriter then (CHIP_ERROR_TLV_CONTAINER_OPEN, w, containerWriter)
     else
       (let w = w\<lparr>wBuf := wBuf containerWriter, wRemainingLen := wRemainingLen containerWriter,
                  wLenWritten := u32 (wLenWritten w + wLenWritten containerWriter)\<rparr>;
            w = (release_end w)\<lparr>wContainerOpen := False\<rparr>
        in case TLVWriter_WriteElementHead ET_EndOfContainer AnonymousTag 0 w of (err, w) \<Rightarrow>
             (err, w, TLVWriter_Init 0)))"

definition TLVWriter_PutPreEncodedContainer :: "Tag \<Rightarrow> TLVType \<Rightarrow> byte list \<Rightarrow> tlv_writer \<Rightarrow> CHIP_ERROR \<times> tlv_writer" where
  "TLVWriter_PutPreEncodedContainer tag containerType data w =
    (if \<not> TLVTypeIsContainer containerType then (CHIP_ERROR_INVALID_ARGUMENT, w)
     else
       (case TLVWriter_WriteElementHead containerType tag 0 w of (err, w) \<Rightarrow>
          if err \<noteq> CHIP_NO_ERROR then (err, w) else TLVWriter_WriteData data w))"

subsection \<open>Copying from a reader\<close>

text \<open>The copying methods return the writer and the reader.\<close>

function copy_chunks :: "nat \<Rightarrow> tlv_reader \<Rightarrow> tlv_writer \<Rightarrow> CHIP_ERROR \<times> tlv_writer" where
  "copy_chunks copyDataLen readerHelper w =
    (if 0 < copyDataLen then
       (let chunkSize = (if copyDataLen > 16 then 16 else copyDataLen)
        in case TLVReader_ReadData chunkSize readerHelper of (err, chunk, readerHelper) \<Rightarrow>
             if err \<noteq> CHIP_NO_ERROR then (err, w)
             else
               (case TLVWriter_WriteData chunk w of (err, w) \<Rightarrow>
                  if err \<noteq> CHIP_NO_ERROR then (err, w) else copy_chunks (copyDataLen - chunkSize) readerHelper w))
     else (CHIP_NO_ERROR, w))"
  by auto
termination
  by (relation "measure fst") auto

definition TLVWriter_CopyElement :: "Tag \<Rightarrow> tlv_reader \<Rightarrow> tlv_writer \<Rightarrow> CHIP_ERROR \<times> tlv_writer \<times> tlv_reader" where
  "TLVWriter_CopyElement tag reader w =
    (let elemType = TLVReader_ElementType reader; elemLenOrVal = rElemLenOrVal reader; readerHelper = reader
     in if elemType = ET_NotSpecified \<or> elemType = ET_EndOfContainer then (CHIP_ERROR_INCORRECT_STATE, w, reader)
        else
          (case TLVReader_Skip reader of (err, reader) \<Rightarrow>
             if err \<noteq> CHIP_NO_ERROR then (err, w, reader)
             else
               (let copyDataLen = sub32 (rLenRead reader) (rLenRead readerHelper)
                in case TLVWriter_WriteElementHead elemType tag elemLenOrVal w of (err, w) \<Rightarrow>
                     if err \<noteq> CHIP_NO_ERROR then (err, w, reader)
                     else (case copy_chunks copyDataLen readerHelper w of (err, w) \<Rightarrow> (err, w, reader)))))"

definition TLVWriter_CopyContainer :: "Tag \<Rightarrow> tlv_reader \<Rightarrow> tlv_writer \<Rightarrow> CHIP_ERROR \<times> tlv_writer \<times> tlv_reader" where
  "TLVWriter_CopyContainer tag container w =
    (if \<not> wInitialized w then (CHIP_ERROR_INCORRECT_STATE, w, container)
     else
       (let containerType = TLVReader_GetType container
        in case TLVReader_EnterContainer container of (err, outerContainerType, container) \<Rightarrow>
             if err \<noteq> CHIP_NO_ERROR then (err, w, container)
             else
               (let containerStart = rReadPoint container
                in case TLVReader_ExitContainer outerContainerType container of (err, container) \<Rightarrow>
                     if err \<noteq> CHIP_NO_ERROR then (err, w, container)
                     else
                       (case TLVWriter_PutPreEncodedContainer tag containerType
                               (take (length containerStart - length (rReadPoint container)) containerStart) w of
                          (err, w) \<Rightarrow> (err, w, container)))))"

definition TLVWriter_CopyContainer_encoded :: "Tag \<Rightarrow> byte list \<Rightarrow> tlv_writer \<Rightarrow> CHIP_ERROR \<times> tlv_writer" where
  "TLVWriter_CopyContainer_encoded tag encodedContainer w =
    (if \<not> wInitialized w then (CHIP_ERROR_INCORRECT_STATE, w)
     else
       (case TLVReader_Next (TLVReader_Init encodedContainer) of (err, reader) \<Rightarrow>
          if err \<noteq> CHIP_NO_ERROR then (err, w)
          else TLVWriter_PutPreEncodedContainer tag (TLVReader_GetType reader)
                 (take (sub32 (rMaxLen reader) (rLenRead reader)) (rReadPoint reader)) w))"

end
