(* ===== verification/TlvCodec.thy ===== *)
theory TlvCodec
  imports TlvWriter
begin

text \<open>
  Writer and reader together: what a successful call of the writer appends to the buffer, what the
  reader makes of it, and the round trip of whole sequences of calls.
\<close>

subsection \<open>The encoding of tags and heads\<close>

text \<open>The bits of the control byte and the bytes of a tag, for a given implicit profile.\<close>

definition tag_code :: "32 word \<Rightarrow> Tag \<Rightarrow> byte \<times> byte list" where
  "tag_code p tag =
    (let num = TagNumFromTag tag; profile = ProfileIdFromTag tag; short = (num \<le> 0xFFFF);
         num_bytes = (if short then EndianPut 2 (ucast (ucast num :: 16 word)) else EndianPut 4 (ucast num))
     in if IsSpecialTag tag then
          (if num \<le> 255 then (0x20, [ucast num]) else (0, []))
        else if profile = 0 then (if short then 0x40 else 0x60, num_bytes)
        else if profile = p then (if short then 0x80 else 0xA0, num_bytes)
        else (if short then 0xC0 else 0xE0,
              EndianPut 2 (ucast (ucast (drop_bit 16 profile) :: 16 word)) @ EndianPut 2 (ucast (ucast profile :: 16 word)) @ num_bytes))"

definition tag_allowed :: "TLVType \<Rightarrow> Tag \<Rightarrow> bool" where
  "tag_allowed ct tag \<longleftrightarrow>
    (if IsContextTag tag then ct = kTLVType_Structure \<or> ct = kTLVType_List
     else if IsSpecialTag tag then ct = kTLVType_NotSpecified \<or> ct = kTLVType_Array \<or> ct = kTLVType_List
     else ct = kTLVType_NotSpecified \<or> ct = kTLVType_Structure \<or> ct = kTLVType_List)"

text \<open>The tags the API constructs.\<close>

definition api_tag :: "Tag \<Rightarrow> bool" where
  "api_tag tag \<longleftrightarrow> IsProfileTag tag \<or> IsContextTag tag \<or> tag = AnonymousTag"

definition elem_head :: "32 word \<Rightarrow> TLVElementType \<Rightarrow> Tag \<Rightarrow> 64 word \<Rightarrow> byte list" where
  "elem_head p et tag v =
    (fst (tag_code p tag) OR of_int et) # snd (tag_code p tag) @ EndianPut (TLVFieldSizeToBytes (GetTLVFieldSize et)) v"

lemma head_tag_eq:
  "head_tag et tag w =
    (if tag_allowed (wContainerType w) tag \<or> et = ET_EndOfContainer \<and> IsSpecialTag tag \<and> \<not> IsContextTag tag
     then Inr ((fst (tag_code (wImplicitProfileId w) tag) OR of_int et) # snd (tag_code (wImplicitProfileId w) tag))
     else Inl CHIP_ERROR_INVALID_TLV_TAG)"
  by (auto simp: head_tag_def tag_allowed_def tag_code_def Let_def IsContextTag_def IsSpecialTag_def)

lemma u32_le [simp]: "u32 x \<le> 4294967295"
  using u32_less [of x] by linarith

subsection \<open>Successful writes\<close>

text \<open>The writer after \<open>bs\<close> has been written.\<close>

definition written :: "byte list \<Rightarrow> tlv_writer \<Rightarrow> tlv_writer" where
  "written bs w = w\<lparr>wBuf := wBuf w @ bs, wRemainingLen := wRemainingLen w - length bs, wLenWritten := u32 (wLenWritten w + length bs)\<rparr>"

lemma written_simps [simp]:
  "wBuf (written bs w) = wBuf w @ bs" "wRemainingLen (written bs w) = wRemainingLen w - length bs"
  "wLenWritten (written bs w) = u32 (wLenWritten w + length bs)" "wMaxLen (written bs w) = wMaxLen w"
  "wContainerType (written bs w) = wContainerType w" "wInitialized (written bs w) = wInitialized w"
  "wContainerOpen (written bs w) = wContainerOpen w" "wCloseContainerReserved (written bs w) = wCloseContainerReserved w"
  "wImplicitProfileId (written bs w) = wImplicitProfileId w" "wReservedSize (written bs w) = wReservedSize w"
  by (simp_all add: written_def)

declare WriteData_loop.simps [simp del]

lemma WriteData_loop_eq:
  assumes "wLenWritten w \<le> UINT32_MAX"
  shows "WriteData_loop p w =
    (if length p \<le> wRemainingLen w then (CHIP_NO_ERROR, written p w)
     else (CHIP_ERROR_NO_MEMORY, written (take (wRemainingLen w) p) w))"
proof (cases "p = []")
  case True
  then show ?thesis
    using assms by (simp add: WriteData_loop.simps [of "[]"] written_def u32_id)
next
  case False
  let ?n = "if length p > wRemainingLen w then wRemainingLen w else length p"
  show ?thesis
  proof (cases "wRemainingLen w = 0")
    case True
    then show ?thesis
      using False assms by (simp add: WriteData_loop.simps [of p] written_def u32_id)
  next
    case n: False
    have "WriteData_loop p w = WriteData_loop (drop ?n p) (written (take ?n p) w)"
      using False n by (subst WriteData_loop.simps) (simp add: written_def Let_def)
    then show ?thesis
      by (simp add: WriteData_loop.simps [of "[]"] WriteData_loop.simps [of "drop (wRemainingLen w) p"])
  qed
qed

lemma WriteData_eq:
  assumes "wInitialized w" and "wLenWritten w \<le> UINT32_MAX"
  shows "TLVWriter_WriteData p w =
    (if wMaxLen w < u32 (wLenWritten w + length p) then (CHIP_ERROR_BUFFER_TOO_SMALL, w)
     else if length p \<le> wRemainingLen w then (CHIP_NO_ERROR, written p w)
     else (CHIP_ERROR_NO_MEMORY, written (take (wRemainingLen w) p) w))"
  using assms by (simp add: TLVWriter_WriteData_def WriteData_loop_eq)

lemma WriteData_ok:
  assumes "TLVWriter_WriteData p w = (CHIP_NO_ERROR, w')" and "wLenWritten w \<le> UINT32_MAX"
  shows "w' = written p w \<and> length p \<le> wRemainingLen w \<and> wInitialized w"
  using assms by (auto simp: TLVWriter_WriteData_def WriteData_loop_eq split: if_splits)

lemma written_append: "wLenWritten w \<le> UINT32_MAX \<Longrightarrow> written bs (written as w) = written (as @ bs) w"
  by (simp add: written_def u32_def mod_add_left_eq add.assoc)

lemma WriteElementHead_ok:
  assumes "TLVWriter_WriteElementHead et tag v w = (CHIP_NO_ERROR, w')" and "wLenWritten w \<le> UINT32_MAX"
  shows "w' = written (elem_head (wImplicitProfileId w) et tag v) w"
    and "length (elem_head (wImplicitProfileId w) et tag v) \<le> wRemainingLen w"
    and "tag_allowed (wContainerType w) tag \<or> et = ET_EndOfContainer"
    and "wInitialized w" "\<not> wContainerOpen w"
  using assms
  by (auto simp: TLVWriter_WriteElementHead_def head_tag_eq elem_head_def split: if_splits dest!: WriteData_ok)

lemma WriteElementWithData_ok:
  assumes "TLVWriter_WriteElementWithData ty tag data w = (CHIP_NO_ERROR, w')" and "wLenWritten w \<le> UINT32_MAX"
  defines "h \<equiv> elem_head (wImplicitProfileId w) (ty OR len_field_size (length data)) tag (of_nat (length data))"
  shows "w' = written (h @ data) w" "length (h @ data) \<le> wRemainingLen w"
    and "tag_allowed (wContainerType w) tag \<or> ty OR len_field_size (length data) = ET_EndOfContainer"
proof -
  obtain w1 where 1: "TLVWriter_WriteElementHead (ty OR len_field_size (length data)) tag (of_nat (length data)) w = (CHIP_NO_ERROR, w1)"
    and 2: "TLVWriter_WriteData data w1 = (CHIP_NO_ERROR, w')"
    using assms(1) by (auto simp: TLVWriter_WriteElementWithData_def split: if_splits prod.splits)
  note 3 = WriteElementHead_ok [OF 1 assms(2), folded h_def]
  show "w' = written (h @ data) w" "length (h @ data) \<le> wRemainingLen w"
    using WriteData_ok [OF 2] 3(1,2) assms(2) by (auto simp: written_append u32_le)
  show "tag_allowed (wContainerType w) tag \<or> ty OR len_field_size (length data) = ET_EndOfContainer"
    using 3(3) by blast
qed

subsection \<open>Reading a head\<close>

lemma tag_control_bits:
  "fst (tag_code p tag) AND 0xE0 = fst (tag_code p tag)" "fst (tag_code p tag) AND 0x1F = 0"
  by (simp_all add: tag_code_def Let_def)

lemma elem_type_bits:
  assumes "0 \<le> et" "et < 32"
  shows "(of_int et :: byte) AND 0xE0 = 0" "(of_int et :: byte) AND 0x1F = of_int et" "uint (of_int et :: byte) = et"
proof -
  have e: "take_bit 5 et = et"
    using assms by (simp add: take_bit_int_eq_self)
  have "(of_int et :: byte) = take_bit 5 (of_int et)"
    using e by (metis take_bit_of_int)
  also have "\<dots> = of_int et AND mask 5"
    by (simp add: take_bit_eq_mask)
  finally have "(of_int et :: byte) = of_int et AND 0x1F"
    by (simp add: mask_eq_exp_minus_1)
  then show "(of_int et :: byte) AND 0x1F = of_int et" ..
  then have "(of_int et :: byte) AND 0xE0 = of_int et AND (0x1F AND 0xE0)"
    by (metis and.assoc)
  then show "(of_int et :: byte) AND 0xE0 = 0"
    by simp
  show "uint (of_int et :: byte) = et"
    using assms by (simp add: uint_word_of_int)
qed

lemma control_byte:
  assumes "0 \<le> et" "et < 32"
  shows "(fst (tag_code p tag) OR of_int et) AND 0xE0 = fst (tag_code p tag)"
    and "(fst (tag_code p tag) OR of_int et) AND 0x1F = of_int et"
  using elem_type_bits [OF assms(1,2)] tag_control_bits [of p tag]
  by (simp_all add: bit.conj_disj_distrib2)

lemma ElementType_control:
  assumes "0 \<le> et" "et < 32"
  shows "TLVReader_ElementType (r\<lparr>rControlByte := ucast (fst (tag_code p tag) OR of_int et)\<rparr>) = et"
proof -
  let ?c = "fst (tag_code p tag) OR of_int et :: byte"
  have "(ucast ?c :: 16 word) \<noteq> 0xFFFF"
  proof
    assume "(ucast ?c :: 16 word) = 0xFFFF"
    then have "uint (ucast ?c :: 16 word) = 0xFFFF"
      by simp
    moreover have "uint (ucast ?c :: 16 word) = uint ?c"
      by (simp add: uint_up_ucast is_up)
    moreover have "uint ?c < 256"
      using uint_lt2p [of ?c] by simp
    ultimately show False
      by simp
  qed
  moreover have "(ucast ?c :: 16 word) AND 0x1F = ucast (?c AND 0x1F)"
    by (simp add: unsigned_and_eq)
  moreover have "int (unat (ucast (?c AND 0x1F) :: 16 word)) = et"
    using control_byte(2) [OF assms] elem_type_bits(3) [OF assms] by (simp add: uint_up_ucast is_up)
  ultimately show ?thesis
    by (simp add: TLVReader_ElementType_def)
qed

lemma le_value_field:
  "le_value (EndianPut 2 (ucast (x :: 16 word))) = unat x"
  "le_value (EndianPut 4 (ucast (y :: 32 word))) = unat y"
  using unsigned_less [of x, where 'a = nat] unsigned_less [of y, where 'a = nat]
  by (simp_all add: le_value_EndianPut unat_ucast_64 del: EndianPut.simps)

lemma ucast_short: "n \<le> 0xFFFF \<Longrightarrow> ucast (ucast (n :: 32 word) :: 16 word) = n"
  "n \<le> 0xFF \<Longrightarrow> ucast (ucast (n :: 32 word) :: 8 word) = n"
  by (simp_all add: word_unat_eq_iff unsigned_ucast_eq unsigned_take_bit_eq take_bit_nat_eq_self word_le_nat_alt)

lemma profile_parts:
  "push_bit 16 (ucast (ucast (drop_bit 16 (x :: 32 word)) :: 16 word)) OR ucast (ucast x :: 16 word) = x"
  by (rule bit_word_eqI) (auto simp: bit_simps)

lemma ReadTag_tag_code:
  assumes "api_tag tag" and "rImplicitProfileId r = p"
  shows "TLVReader_ReadTag r (fst (tag_code p tag)) (snd (tag_code p tag) @ q) = (tag, q)"
proof -
  let ?n = "TagNumFromTag tag" and ?p = "ProfileIdFromTag tag"
  have tag: "tag = ProfileTag ?p ?n"
    by simp
  have special: "tag = ProfileTag 0xFFFFFFFF ?n" if "IsSpecialTag tag"
    using ProfileTag_parts [of tag, symmetric] that unfolding IsSpecialTag_def by (simp only:)
  have anon: "tag = AnonymousTag" if "IsSpecialTag tag" "\<not> ?n \<le> 255"
    using assms(1) that by (auto simp: api_tag_def IsProfileTag_def IsContextTag_def IsSpecialTag_def)
  have implicit: "p \<noteq> 0xFFFFFFFF" if "\<not> IsSpecialTag tag" "?p = p"
    using that by (auto simp: IsSpecialTag_def)
  consider "IsSpecialTag tag" "?n \<le> 255" | "IsSpecialTag tag" "\<not> ?n \<le> 255"
    | "\<not> IsSpecialTag tag" "?p = 0" | "\<not> IsSpecialTag tag" "?p \<noteq> 0" "?p = p"
    | "\<not> IsSpecialTag tag" "?p \<noteq> 0" "?p \<noteq> p"
    by blast
  then show ?thesis
  proof cases
    case 1
    then show ?thesis
      using special by (simp add: tag_code_def Let_def TLVReader_ReadTag_def ContextTag_def ucast_short)
  next
    case 2
    then show ?thesis
      using anon by (simp add: tag_code_def Let_def TLVReader_ReadTag_def)
  next
    case 3
    then show ?thesis
      using tag by (simp add: tag_code_def Let_def TLVReader_ReadTag_def CommonTag_def le_value_field ucast_short del: EndianPut.simps)
  next
    case 4
    then show ?thesis
      using tag implicit assms(2)
      by (simp add: tag_code_def Let_def TLVReader_ReadTag_def le_value_field ucast_short del: EndianPut.simps)
  next
    case 5
    then show ?thesis
      using tag by (simp add: tag_code_def Let_def TLVReader_ReadTag_def VendorProfileTag_def le_value_field
          ucast_short profile_parts del: EndianPut.simps)
  qed
qed

lemma sTagSizes_tag_code: "sTagSizes (fst (tag_code p tag)) = length (snd (tag_code p tag))"
  by (simp add: tag_code_def Let_def drop_bit_eq_div)

text \<open>The reader \<open>r\<close> after it has read the head of an element, with \<open>rest\<close> behind it.\<close>

definition on_element :: "TLVElementType \<Rightarrow> Tag \<Rightarrow> 64 word \<Rightarrow> byte list \<Rightarrow> tlv_reader \<Rightarrow> tlv_reader" where
  "on_element et tag v rest r =
     r\<lparr>rControlByte := ucast (fst (tag_code (rImplicitProfileId r) tag) OR of_int et), rReadPoint := rest,
       rLenRead := rMaxLen r - length rest, rElemTag := tag,
       rElemLenOrVal := of_nat (unat v mod 256 ^ TLVFieldSizeToBytes (GetTLVFieldSize et))\<rparr>"

lemma on_element_simps [simp]:
  "rReadPoint (on_element et tag v rest r) = rest" "rElemTag (on_element et tag v rest r) = tag"
  "rElemLenOrVal (on_element et tag v rest r) = of_nat (unat v mod 256 ^ TLVFieldSizeToBytes (GetTLVFieldSize et))"
  "rContainerType (on_element et tag v rest r) = rContainerType r" "rMaxLen (on_element et tag v rest r) = rMaxLen r"
  "rLenRead (on_element et tag v rest r) = rMaxLen r - length rest"
  "rImplicitProfileId (on_element et tag v rest r) = rImplicitProfileId r"
  "rContainerOpen (on_element et tag v rest r) = rContainerOpen r"
  by (simp_all add: on_element_def)

lemma ElementType_cong: "rControlByte r = rControlByte q \<Longrightarrow> TLVReader_ElementType r = TLVReader_ElementType q"
  by (simp add: TLVReader_ElementType_def)

lemma ElementType_on_element [simp]:
  "0 \<le> et \<Longrightarrow> et < 32 \<Longrightarrow> TLVReader_ElementType (on_element et tag v rest r) = et"
  using ElementType_control [where p = "rImplicitProfileId r" and tag = tag and et = et and r = r]
    ElementType_cong [of "on_element et tag v rest r" "r\<lparr>rControlByte := ucast (fst (tag_code (rImplicitProfileId r) tag) OR of_int et)\<rparr>"]
  by (simp add: on_element_def)

lemma ReadElement_head:
  assumes "reader_inv r" and "rReadPoint r = elem_head (rImplicitProfileId r) et tag v @ rest"
    and "api_tag tag" and "0 \<le> et" "et \<le> 24"
  shows "TLVReader_ReadElement r =
    (if TLVTypeHasLength et \<and> UINT32_MAX < unat (rElemLenOrVal (on_element et tag v rest r)) then CHIP_ERROR_NOT_IMPLEMENTED
     else TLVReader_VerifyElement (on_element et tag v rest r),
     on_element et tag v rest r)"
proof -
  let ?p = "rImplicitProfileId r" and ?n = "TLVFieldSizeToBytes (GetTLVFieldSize et)"
  let ?c = "fst (tag_code ?p tag) OR of_int et :: byte" and ?t = "snd (tag_code ?p tag)"
  let ?r = "r\<lparr>rControlByte := ucast ?c\<rparr>"
  let ?q = "?r\<lparr>rReadPoint := rest, rLenRead := rMaxLen r - length rest\<rparr>"
  have rp: "rReadPoint r = ?c # ?t @ EndianPut ?n v @ rest"
    using assms(2) by (simp add: elem_head_def)
  have len: "u8 (1 + length ?t + ?n) = 1 + length ?t + ?n"
    using head_bytes [of "fst (tag_code ?p tag)" et] by (simp only: sTagSizes_tag_code)
  have inv: "rLenRead r + (1 + length ?t + ?n) = rMaxLen r - length rest" "rMaxLen r \<le> UINT32_MAX" "rLenRead r \<le> UINT32_MAX"
    using assms(1) rp by (auto simp: reader_inv_def)
  have rd: "TLVReader_ReadData (1 + length ?t + ?n) ?r = (CHIP_NO_ERROR, ?c # ?t @ EndianPut ?n v, ?q)"
    using ReadData_within [of "1 + length ?t + ?n" ?r] rp inv by (simp add: u32_id)
  have tag: "TLVReader_ReadTag ?q (fst (tag_code ?p tag)) (?t @ EndianPut ?n v) = (tag, EndianPut ?n v)"
    by (rule ReadTag_tag_code) (use assms(3) in simp_all)
  have et: "TLVReader_ElementType ?r = et" "et < 32"
    using ElementType_control [of et] assms(4,5) by simp_all
  have on: "?q\<lparr>rElemTag := tag, rElemLenOrVal := of_nat (le_value (EndianPut ?n v))\<rparr> = on_element et tag v rest r"
    by (simp add: on_element_def le_value_EndianPut)
  show ?thesis
    using rp assms(5) len rd tag et control_byte(1) [OF assms(4) et(2), of ?p tag] on
    by (simp add: TLVReader_ReadElement_def TLVReader_EnsureData_def Let_def IsValidTLVType_def sTagSizes_tag_code
        drop_Cons' le_value_EndianPut del: sTagSizes.simps One_nat_def)
qed

lemma api_tag_not_unknown: "api_tag tag \<Longrightarrow> tag \<noteq> UnknownImplicitTag"
  by (auto simp: api_tag_def UnknownImplicitTag_def AnonymousTag_def IsProfileTag_def IsContextTag_def)

lemma anonymous_tag [simp]: "IsSpecialTag AnonymousTag" "\<not> IsContextTag AnonymousTag" "api_tag AnonymousTag"
  by (auto simp: AnonymousTag_def IsSpecialTag_def IsContextTag_def api_tag_def)

lemma special_api_tag: "api_tag tag \<Longrightarrow> IsSpecialTag tag \<Longrightarrow> \<not> IsContextTag tag \<Longrightarrow> tag = AnonymousTag"
  by (auto simp: api_tag_def IsProfileTag_def IsSpecialTag_def)

lemma VerifyElement_ok:
  assumes "tag_allowed (rContainerType r) tag \<or> rContainerType r = kTLVType_UnknownContainer"
    and "api_tag tag" "0 \<le> et" "et < 24"
    and "rMaxLen r \<le> UINT32_MAX" "length rest \<le> rMaxLen r"
    and "TLVTypeHasLength et \<Longrightarrow> u32 (unat (rElemLenOrVal (on_element et tag v rest r))) \<le> length rest"
  shows "TLVReader_VerifyElement (on_element et tag v rest r) = CHIP_NO_ERROR"
proof -
  have tags: "tag \<noteq> UnknownImplicitTag"
    "rContainerType r = kTLVType_NotSpecified \<Longrightarrow> \<not> IsContextTag tag"
    "rContainerType r = kTLVType_Structure \<Longrightarrow> tag \<noteq> AnonymousTag"
    "rContainerType r = kTLVType_Array \<Longrightarrow> tag = AnonymousTag"
    "rContainerType r \<in> {kTLVType_NotSpecified, kTLVType_Structure, kTLVType_Array, kTLVType_List, kTLVType_UnknownContainer}"
    using assms(1,2) special_api_tag [of tag] by (auto simp: tag_allowed_def api_tag_not_unknown split: if_splits)
  moreover have "sub32 (rMaxLen r) (rMaxLen r - length rest) = length rest"
    using assms(5,6) by (simp add: sub32_le)
  ultimately show ?thesis
    using assms(3-) by (auto simp: TLVReader_VerifyElement_def Let_def)
qed

subsection \<open>Values and their encoding\<close>

datatype tlv_value =
    VInt "64 word" | VUInt "64 word" | VBool bool | VFloat "32 word" | VDouble "64 word"
  | VString "byte list" | VBytes "byte list" | VNull

fun value_code :: "tlv_value \<Rightarrow> TLVElementType \<times> 64 word \<times> byte list" where
  "value_code (VInt v) =
    (if - 128 \<le> sint v \<and> sint v \<le> 127 then ET_Int8
     else if - 32768 \<le> sint v \<and> sint v \<le> 32767 then ET_Int16
     else if - 2147483648 \<le> sint v \<and> sint v \<le> 2147483647 then ET_Int32 else ET_Int64, v, [])"
| "value_code (VUInt v) =
    (if v \<le> 0xFF then ET_UInt8 else if v \<le> 0xFFFF then ET_UInt16
     else if v \<le> 0xFFFFFFFF then ET_UInt32 else ET_UInt64, v, [])"
| "value_code (VBool b) = (if b then ET_BooleanTrue else ET_BooleanFalse, 0, [])"
| "value_code (VFloat v) = (ET_FloatingPointNumber32, ucast v, [])"
| "value_code (VDouble v) = (ET_FloatingPointNumber64, v, [])"
| "value_code (VString bs) = (kTLVType_UTF8String + len_field_size (length bs), of_nat (length bs), bs)"
| "value_code (VBytes bs) = (kTLVType_ByteString + len_field_size (length bs), of_nat (length bs), bs)"
| "value_code VNull = (ET_Null, 0, [])"

definition leaf_code :: "32 word \<Rightarrow> Tag \<Rightarrow> tlv_value \<Rightarrow> byte list" where
  "leaf_code p tag v = (case value_code v of (et, x, data) \<Rightarrow> elem_head p et tag x @ data)"

text \<open>Writing a value of any type.\<close>

definition put_value :: "bool \<Rightarrow> Tag \<Rightarrow> tlv_value \<Rightarrow> tlv_writer \<Rightarrow> CHIP_ERROR \<times> tlv_writer" where
  "put_value validate tag v w =
    (case v of
       VInt x \<Rightarrow> TLVWriter_Put_int64 tag x w | VUInt x \<Rightarrow> TLVWriter_Put_uint64 tag x w
     | VBool b \<Rightarrow> TLVWriter_PutBoolean tag b w | VFloat x \<Rightarrow> TLVWriter_Put_float tag x w
     | VDouble x \<Rightarrow> TLVWriter_Put_double tag x w | VString bs \<Rightarrow> TLVWriter_PutString_CharSpan validate tag bs w
     | VBytes bs \<Rightarrow> TLVWriter_Put_ByteSpan tag bs w | VNull \<Rightarrow> TLVWriter_PutNull tag w)"

text \<open>The value of the current element, by its type.\<close>

definition get_value :: "tlv_reader \<Rightarrow> CHIP_ERROR \<times> tlv_value option" where
  "get_value r =
    (let ty = TLVReader_GetType r
     in if ty = kTLVType_SignedInteger then map_prod id (map_option (\<lambda>v. VInt (of_int v))) (TLVReader_Get_int64 r)
        else if ty = kTLVType_UnsignedInteger then map_prod id (map_option (\<lambda>v. VUInt (of_int v))) (TLVReader_Get_uint64 r)
        else if ty = kTLVType_Boolean then map_prod id (map_option VBool) (TLVReader_Get_bool r)
        else if ty = kTLVType_FloatingPointNumber then
          (if TLVReader_ElementType r = ET_FloatingPointNumber64
           then map_prod id (map_option VDouble) (TLVReader_Get_double ucast r)
           else map_prod id (map_option VFloat) (TLVReader_Get_float r))
        else if ty = kTLVType_UTF8String then map_prod id (map_option VString) (TLVReader_Get_ByteSpan r)
        else if ty = kTLVType_ByteString then map_prod id (map_option VBytes) (TLVReader_Get_ByteSpan r)
        else if ty = kTLVType_Null then (CHIP_NO_ERROR, Some VNull)
        else (CHIP_ERROR_WRONG_TLV_TYPE, None))"

lemma len_field_size_or:
  "kTLVType_UTF8String OR len_field_size n = kTLVType_UTF8String + len_field_size n"
  "kTLVType_ByteString OR len_field_size n = kTLVType_ByteString + len_field_size n"
  by (simp_all add: len_field_size_def)

lemma len_field_size_le: "0 \<le> len_field_size n" "len_field_size n \<le> 2"
  by (simp_all add: len_field_size_def)

definition value_ok :: "tlv_value \<Rightarrow> bool" where
  "value_ok v \<longleftrightarrow> length (snd (snd (value_code v))) \<le> UINT32_MAX"

lemma put_scalar:
  assumes "\<And>bs. v \<noteq> VString bs" "\<And>bs. v \<noteq> VBytes bs"
  shows "put_value validate tag v w = TLVWriter_WriteElementHead (fst (value_code v)) tag (fst (snd (value_code v))) w"
    and "snd (snd (value_code v)) = []" and "fst (value_code v) \<noteq> ET_EndOfContainer"
  using assms
  by (cases v; simp add: put_value_def TLVWriter_Put_int64_def TLVWriter_Put_uint64_def TLVWriter_PutBoolean_def
      TLVWriter_Put_float_def TLVWriter_Put_double_def TLVWriter_PutNull_def Let_def)+

lemma put_value_ok:
  assumes "put_value validate tag v w = (CHIP_NO_ERROR, w')" and "wLenWritten w \<le> UINT32_MAX"
  shows "w' = written (leaf_code (wImplicitProfileId w) tag v) w"
    and "length (leaf_code (wImplicitProfileId w) tag v) \<le> wRemainingLen w"
    and "tag_allowed (wContainerType w) tag" "value_ok v"
proof -
  consider (string) bs where "v = VString bs" | (bytes) bs where "v = VBytes bs"
    | (scalar) "\<And>bs. v \<noteq> VString bs" "\<And>bs. v \<noteq> VBytes bs"
    by blast
  then have "w' = written (leaf_code (wImplicitProfileId w) tag v) w \<and>
    length (leaf_code (wImplicitProfileId w) tag v) \<le> wRemainingLen w \<and> tag_allowed (wContainerType w) tag \<and> value_ok v"
  proof cases
    case string
    then have bs: "TLVWriter_WriteElementWithData kTLVType_UTF8String tag bs w = (CHIP_NO_ERROR, w')" "length bs \<le> UINT32_MAX"
      using assms(1) by (auto simp: put_value_def TLVWriter_PutString_CharSpan_def TLVWriter_PutString_def split: if_splits)
    show ?thesis
      using WriteElementWithData_ok [OF bs(1) assms(2)] bs(2) len_field_size_le [of "length bs"] string
      by (simp add: leaf_code_def value_ok_def len_field_size_or)
  next
    case bytes
    then have bs: "TLVWriter_WriteElementWithData kTLVType_ByteString tag bs w = (CHIP_NO_ERROR, w')" "length bs \<le> UINT32_MAX"
      using assms(1) by (auto simp: put_value_def TLVWriter_Put_ByteSpan_def TLVWriter_PutBytes_def split: if_splits)
    show ?thesis
      using WriteElementWithData_ok [OF bs(1) assms(2)] bs(2) len_field_size_le [of "length bs"] bytes
      by (simp add: leaf_code_def value_ok_def len_field_size_or)
  next
    case scalar
    note s = put_scalar [OF scalar]
    show ?thesis
      using s assms WriteElementHead_ok [of "fst (value_code v)" tag "fst (snd (value_code v))" w w']
      by (cases "value_code v") (simp add: leaf_code_def value_ok_def)
  qed
  then show "w' = written (leaf_code (wImplicitProfileId w) tag v) w"
    and "length (leaf_code (wImplicitProfileId w) tag v) \<le> wRemainingLen w"
    and "tag_allowed (wContainerType w) tag" "value_ok v"
    by blast+
qed

subsection \<open>Reading a value\<close>

lemma field_bytes:
  "TLVFieldSizeToBytes (GetTLVFieldSize ET_Int8) = 1" "TLVFieldSizeToBytes (GetTLVFieldSize ET_Int16) = 2"
  "TLVFieldSizeToBytes (GetTLVFieldSize ET_Int32) = 4" "TLVFieldSizeToBytes (GetTLVFieldSize ET_Int64) = 8"
  "TLVFieldSizeToBytes (GetTLVFieldSize ET_UInt8) = 1" "TLVFieldSizeToBytes (GetTLVFieldSize ET_UInt16) = 2"
  "TLVFieldSizeToBytes (GetTLVFieldSize ET_UInt32) = 4" "TLVFieldSizeToBytes (GetTLVFieldSize ET_UInt64) = 8"
  "TLVFieldSizeToBytes (GetTLVFieldSize ET_FloatingPointNumber32) = 4"
  "TLVFieldSizeToBytes (GetTLVFieldSize ET_FloatingPointNumber64) = 8"
  by (simp_all add: TLVFieldSizeToBytes_def GetTLVFieldSize_def TLVTypeHasValue_def)

lemma field_value_bits:
  "(of_nat (unat (v :: 64 word) mod 256) :: 64 word) = take_bit 8 v"
  "(of_nat (unat v mod 65536) :: 64 word) = take_bit 16 v"
  "(of_nat (unat v mod 4294967296) :: 64 word) = take_bit 32 v"
  "unat v mod 18446744073709551616 = unat v"
  using unsigned_less [of v, where 'a = nat]
  by (simp_all add: word_unat_eq_iff unsigned_of_nat unsigned_take_bit_eq take_bit_nat_def)

lemma sint_narrow:
  "- 128 \<le> sint (v :: 64 word) \<Longrightarrow> sint v \<le> 127 \<Longrightarrow> sint (ucast v :: 8 word) = sint v"
  "- 32768 \<le> sint v \<Longrightarrow> sint v \<le> 32767 \<Longrightarrow> sint (ucast v :: 16 word) = sint v"
  "- 2147483648 \<le> sint v \<Longrightarrow> sint v \<le> 2147483647 \<Longrightarrow> sint (ucast v :: 32 word) = sint v"
proof -
  have "signed_take_bit n (uint v) = signed_take_bit n (sint v)" if "n \<le> 63" for n
    using that by (simp add: sint_uint signed_take_bit_signed_take_bit min_def)
  then have *: "signed_take_bit n (uint v) = sint v" if "n \<le> 63" "- (2 ^ n) \<le> sint v" "sint v < 2 ^ n" for n
    using that by (simp add: signed_take_bit_int_eq_self)
  show "- 128 \<le> sint v \<Longrightarrow> sint v \<le> 127 \<Longrightarrow> sint (ucast v :: 8 word) = sint v"
    "- 32768 \<le> sint v \<Longrightarrow> sint v \<le> 32767 \<Longrightarrow> sint (ucast v :: 16 word) = sint v"
    "- 2147483648 \<le> sint v \<Longrightarrow> sint v \<le> 2147483647 \<Longrightarrow> sint (ucast v :: 32 word) = sint v"
    using * [of 7] * [of 15] * [of 31] by (simp_all add: signed_ucast_eq)
qed

lemma scast_narrow:
  "- 128 \<le> sint (v :: 64 word) \<Longrightarrow> sint v \<le> 127 \<Longrightarrow> scast (ucast (take_bit 8 v) :: 8 word) = v"
  "- 32768 \<le> sint v \<Longrightarrow> sint v \<le> 32767 \<Longrightarrow> scast (ucast (take_bit 16 v) :: 16 word) = v"
  "- 2147483648 \<le> sint v \<Longrightarrow> sint v \<le> 2147483647 \<Longrightarrow> scast (ucast (take_bit 32 v) :: 32 word) = v"
proof -
  have "(ucast (take_bit 8 v) :: 8 word) = ucast v" "(ucast (take_bit 16 v) :: 16 word) = ucast v"
    "(ucast (take_bit 32 v) :: 32 word) = ucast v"
    by (rule bit_word_eqI; auto simp: bit_simps)+
  moreover have "sint (ucast v :: 'a::len word) = sint v \<Longrightarrow> scast (ucast v :: 'a word) = v"
    by (metis of_int_sint scast_id)
  ultimately show
    "- 128 \<le> sint v \<Longrightarrow> sint v \<le> 127 \<Longrightarrow> scast (ucast (take_bit 8 v) :: 8 word) = v"
    "- 32768 \<le> sint v \<Longrightarrow> sint v \<le> 32767 \<Longrightarrow> scast (ucast (take_bit 16 v) :: 16 word) = v"
    "- 2147483648 \<le> sint v \<Longrightarrow> sint v \<le> 2147483647 \<Longrightarrow> scast (ucast (take_bit 32 v) :: 32 word) = v"
    using sint_narrow [of v] by simp_all
qed

lemma value_code_type:
  "value_code v = (et, x, data) \<Longrightarrow> 0 \<le> et \<and> et < 21"
  using len_field_size_le [of "length data"] by (cases v) (auto split: if_splits)

lemma string_length:
  assumes "ty = kTLVType_UTF8String \<or> ty = kTLVType_ByteString" "n \<le> UINT32_MAX"
  shows "unat (of_nat (unat (of_nat n :: 64 word) mod 256 ^ TLVFieldSizeToBytes (GetTLVFieldSize (ty + len_field_size n))) :: 64 word) = n"
proof -
  have n: "unat (of_nat n :: 64 word) = n"
    using assms(2) by (simp add: unsigned_of_nat take_bit_nat_def)
  have "256 ^ TLVFieldSizeToBytes (GetTLVFieldSize (ty + len_field_size n)) > n"
    using assms by (auto simp: len_field_size_def TLVFieldSizeToBytes_def GetTLVFieldSize_def TLVTypeHasValue_def)
  then show ?thesis
    by (simp add: n)
qed

lemma value_length:
  assumes "value_code v = (et, x, data)" "value_ok v" "TLVTypeHasLength et"
  shows "unat (rElemLenOrVal (on_element et tag x rest r)) = length data"
  using assms string_length [of kTLVType_UTF8String "length data"] string_length [of kTLVType_ByteString "length data"]
  by (cases v) (auto simp: value_ok_def TLVTypeHasLength_def split: if_splits)

lemma value_no_length:
  "value_code v = (et, x, data) \<Longrightarrow> \<not> TLVTypeHasLength et \<Longrightarrow> data = []"
  using len_field_size_le [of "length data"] by (cases v) (auto simp: TLVTypeHasLength_def split: if_splits)

lemma take_bit_small:
  "(v :: 64 word) \<le> 0xFF \<Longrightarrow> take_bit 8 v = v" "v \<le> 0xFFFF \<Longrightarrow> take_bit 16 v = v" "v \<le> 0xFFFFFFFF \<Longrightarrow> take_bit 32 v = v"
  by (simp_all add: word_unat_eq_iff unsigned_take_bit_eq take_bit_nat_eq_self word_le_nat_alt)

lemma string_type:
  "0 \<le> l \<Longrightarrow> l \<le> 2 \<Longrightarrow> kTLVType_UTF8String + l - (kTLVType_UTF8String + l) mod 4 = kTLVType_UTF8String"
  "0 \<le> l \<Longrightarrow> l \<le> 2 \<Longrightarrow> kTLVType_ByteString + l - (kTLVType_ByteString + l) mod 4 = kTLVType_ByteString"
  by presburger+

lemma Get_ByteSpan_on_element:
  assumes "TLVTypeIsString et" "length data \<le> UINT32_MAX"
    and "unat (rElemLenOrVal (on_element et tag x (data @ rest) r)) = length data"
  shows "TLVReader_Get_ByteSpan (on_element et tag x (data @ rest) r) = (CHIP_NO_ERROR, Some data)"
proof -
  have "TLVReader_ElementType (on_element et tag x (data @ rest) r) = et" "TLVTypeHasLength et"
    using assms(1) by (simp_all add: TLVTypeIsString_def TLVTypeHasLength_def)
  moreover have "u32 (length data) = length data"
    using assms(2) by (simp add: u32_id)
  ultimately show ?thesis
    using assms(1,3) by (simp add: TLVReader_Get_ByteSpan_def TLVReader_GetDataPtr_def TLVReader_GetLength_def)
qed

lemma GetType_string:
  assumes "0 \<le> l" "l \<le> 2"
  shows "TLVReader_GetType (on_element (kTLVType_UTF8String + l) tag x rest r) = kTLVType_UTF8String"
    and "TLVReader_GetType (on_element (kTLVType_ByteString + l) tag x rest r) = kTLVType_ByteString"
  using assms string_type [OF assms] by (simp_all add: TLVReader_GetType_def)

lemma get_value_on_element:
  assumes "value_code v = (et, x, data)" "value_ok v"
  shows "get_value (on_element et tag x (data @ rest) r) = (CHIP_NO_ERROR, Some v)"
proof (cases v)
  case (VInt y)
  then show ?thesis
    using assms(1) scast_narrow [of y]
    by (auto simp: get_value_def TLVReader_GetType_def TLVReader_Get_int64_def field_bytes field_value_bits split: if_splits)
next
  case (VUInt y)
  then show ?thesis
    using assms(1) take_bit_small [of y]
    by (auto simp: get_value_def TLVReader_GetType_def TLVReader_Get_uint64_def field_bytes field_value_bits split: if_splits)
next
  case (VBool b)
  then show ?thesis
    using assms(1) by (cases b) (auto simp: get_value_def TLVReader_GetType_def TLVReader_Get_bool_def)
next
  case (VFloat y)
  have "ucast (take_bit 32 (ucast y :: 64 word)) = y"
    by (rule bit_word_eqI) (auto simp: bit_simps)
  then show ?thesis
    using VFloat assms(1)
    by (auto simp: get_value_def TLVReader_GetType_def TLVReader_Get_float_def field_bytes field_value_bits)
next
  case (VDouble y)
  then show ?thesis
    using assms(1)
    by (auto simp: get_value_def TLVReader_GetType_def TLVReader_Get_double_def field_bytes field_value_bits)
next
  case (VString bs)
  then have v: "et = kTLVType_UTF8String + len_field_size (length bs)" "data = bs"
    using assms(1) by auto
  have "TLVTypeIsString et" "TLVTypeHasLength et"
    using v len_field_size_le [of "length bs"] by (simp_all add: TLVTypeIsString_def TLVTypeHasLength_def)
  then show ?thesis
    using assms Get_ByteSpan_on_element [of et data tag x rest r] value_length [OF assms, of tag "data @ rest" r]
      GetType_string [OF len_field_size_le, of "length bs" tag x "data @ rest" r] VString v
    by (simp add: get_value_def value_ok_def)
next
  case (VBytes bs)
  then have v: "et = kTLVType_ByteString + len_field_size (length bs)" "data = bs"
    using assms(1) by auto
  have "TLVTypeIsString et" "TLVTypeHasLength et"
    using v len_field_size_le [of "length bs"] by (simp_all add: TLVTypeIsString_def TLVTypeHasLength_def)
  then show ?thesis
    using assms Get_ByteSpan_on_element [of et data tag x rest r] value_length [OF assms, of tag "data @ rest" r]
      GetType_string [OF len_field_size_le, of "length bs" tag x "data @ rest" r] VBytes v
    by (simp add: get_value_def value_ok_def)
next
  case VNull
  then show ?thesis
    using assms(1) by (auto simp: get_value_def TLVReader_GetType_def)
qed

subsection \<open>Fields that are written again\<close>

lemma EndianPut_field: "EndianPut n (of_nat (unat x mod 256 ^ n)) = EndianPut n x"
proof -
  have "unat (of_nat (unat x mod 256 ^ n) :: 64 word) = unat x mod 256 ^ n"
    using unsigned_less [of x, where 'a = nat] le_less_trans [OF mod_less_eq_dividend [of "unat x" "256 ^ n"], of "2 ^ 64"]
    by (simp add: unsigned_of_nat take_bit_nat_eq_self)
  then show ?thesis
    by (intro le_value_inj) (simp_all add: le_value_EndianPut)
qed

end
