(* ===== verification/TlvEvents.thy ===== *)
theory TlvEvents
  imports TlvCodec
begin

text \<open>
  Whole TLV documents as sequences of events: a client that calls the writer for every event, a client
  that walks through a document with the reader, and the proof that the second finds what the first wrote.
\<close>

datatype tlv_event = Leaf Tag tlv_value | Open Tag TLVType | Close

subsection \<open>Writing a document\<close>

text \<open>
  The list holds the container types to restore, as the callers of \<^verbatim>\<open>StartContainer\<close> keep them. The run stops at
  the first error.
\<close>

fun put_events :: "bool \<Rightarrow> TLVType list \<Rightarrow> tlv_event list \<Rightarrow> tlv_writer \<Rightarrow> CHIP_ERROR \<times> TLVType list \<times> tlv_writer" where
  "put_events validate outer [] w = (CHIP_NO_ERROR, outer, w)"
| "put_events validate outer (Leaf tag v # es) w =
    (case put_value validate tag v w of (err, w) \<Rightarrow>
       if err \<noteq> CHIP_NO_ERROR then (err, outer, w) else put_events validate outer es w)"
| "put_events validate outer (Open tag ty # es) w =
    (case TLVWriter_StartContainer tag ty w of
       (err, Some ct, w) \<Rightarrow> if err \<noteq> CHIP_NO_ERROR then (err, outer, w) else put_events validate (ct # outer) es w
     | (err, None, w) \<Rightarrow> (err, outer, w))"
| "put_events validate outer (Close # es) w =
    (case outer of
       [] \<Rightarrow> (CHIP_ERROR_INCORRECT_STATE, outer, w)
     | ct # outer \<Rightarrow>
         (case TLVWriter_EndContainer ct w of (err, w) \<Rightarrow>
            if err \<noteq> CHIP_NO_ERROR then (err, outer, w) else put_events validate outer es w))"

subsection \<open>Reading a document\<close>

lemma ExitContainer_length:
  "TLVReader_ExitContainer outer r = (err, r') \<Longrightarrow> length (rReadPoint r') \<le> length (rReadPoint r)"
  by (auto simp: TLVReader_ExitContainer_def TLVReader_SkipToEndOfContainer_def split: if_splits prod.splits dest!: SkipToEnd_length)

lemma EnterContainer_ReadPoint:
  "TLVReader_EnterContainer r = (err, ct, r') \<Longrightarrow> rReadPoint r' = rReadPoint r"
  by (auto simp: TLVReader_EnterContainer_def Let_def split: if_splits)

function read_events :: "TLVType list \<Rightarrow> tlv_reader \<Rightarrow> CHIP_ERROR \<times> tlv_event list" where
  "read_events outer r =
    (case TLVReader_Next r of (err, r) \<Rightarrow>
       if err = CHIP_END_OF_TLV then
         (case outer of
            [] \<Rightarrow> (CHIP_NO_ERROR, [])
          | ct # outer \<Rightarrow>
              (case TLVReader_ExitContainer ct r of (err, r) \<Rightarrow>
                 if err \<noteq> CHIP_NO_ERROR then (err, []) else map_prod id (Cons Close) (read_events outer r)))
       else if err \<noteq> CHIP_NO_ERROR then (err, [])
       else if TLVTypeIsContainer (TLVReader_ElementType r) then
         (case TLVReader_EnterContainer r of (err, ct, q) \<Rightarrow>
            if err \<noteq> CHIP_NO_ERROR then (err, [])
            else map_prod id (Cons (Open (rElemTag r) (TLVReader_GetType r))) (read_events (ct # outer) q))
       else
         (case get_value r of
            (err, Some v) \<Rightarrow>
              if err \<noteq> CHIP_NO_ERROR then (err, []) else map_prod id (Cons (Leaf (rElemTag r) v)) (read_events outer r)
          | (err, None) \<Rightarrow> (err, [])))"
  by auto
termination
  by (relation "measures [\<lambda>(outer, r). length (rReadPoint r), \<lambda>(outer, r). length outer]")
    (auto dest!: Next_length [OF sym] EnterContainer_ReadPoint [OF sym] ExitContainer_length [OF sym])

declare read_events.simps [simp del]

subsection \<open>Documents and their encoding\<close>

fun legal :: "TLVType \<Rightarrow> TLVType list \<Rightarrow> tlv_event list \<Rightarrow> bool" where
  "legal ct outer [] \<longleftrightarrow> outer = []"
| "legal ct outer (Leaf tag v # es) \<longleftrightarrow> tag_allowed ct tag \<and> api_tag tag \<and> value_ok v \<and> legal ct outer es"
| "legal ct outer (Open tag ty # es) \<longleftrightarrow>
    tag_allowed ct tag \<and> api_tag tag \<and> TLVTypeIsContainer ty \<and> legal ty (ct # outer) es"
| "legal ct outer (Close # es) \<longleftrightarrow>
    TLVTypeIsContainer ct \<and> (case outer of [] \<Rightarrow> False | ct' # outer \<Rightarrow> legal ct' outer es)"

fun event_code :: "32 word \<Rightarrow> tlv_event \<Rightarrow> byte list" where
  "event_code p (Leaf tag v) = leaf_code p tag v"
| "event_code p (Open tag ty) = elem_head p ty tag 0"
| "event_code p Close = [0x18]"

definition encode :: "32 word \<Rightarrow> tlv_event list \<Rightarrow> byte list" where
  "encode p es = concat (map (event_code p) es)"

lemma encode_simps [simp]: "encode p [] = []" "encode p (e # es) = event_code p e @ encode p es"
  by (simp_all add: encode_def)

fun event_tag_ok :: "tlv_event \<Rightarrow> bool" where
  "event_tag_ok (Leaf tag v) \<longleftrightarrow> api_tag tag"
| "event_tag_ok (Open tag ty) \<longleftrightarrow> api_tag tag"
| "event_tag_ok Close \<longleftrightarrow> True"

lemma end_head: "elem_head p ET_EndOfContainer AnonymousTag v = [0x18]"
  by (simp add: elem_head_def tag_code_def Let_def TLVFieldSizeToBytes_def GetTLVFieldSize_def TLVTypeHasValue_def)
    (simp add: AnonymousTag_def)

lemma StartContainer_ok:
  assumes "TLVWriter_StartContainer tag ty w = (CHIP_NO_ERROR, ct, w')" and "wLenWritten w \<le> UINT32_MAX"
  shows "ct = Some (wContainerType w)" "wContainerType w' = ty" "wImplicitProfileId w' = wImplicitProfileId w"
    "wBuf w' = wBuf w @ elem_head (wImplicitProfileId w) ty tag 0" "tag_allowed (wContainerType w) tag"
    "TLVTypeIsContainer ty" "length (wBuf w') + wRemainingLen w' \<le> length (wBuf w) + wRemainingLen w"
    "wLenWritten w' \<le> UINT32_MAX"
proof -
  have r: "wImplicitProfileId (reserve_end w) = wImplicitProfileId w" "wContainerType (reserve_end w) = wContainerType w"
    "wBuf (reserve_end w) = wBuf w" "wRemainingLen (reserve_end w) = wRemainingLen w" "wLenWritten (reserve_end w) = wLenWritten w"
    by (simp_all add: reserve_end_def)
  obtain w1 where h: "TLVWriter_WriteElementHead ty tag 0 (reserve_end w) = (CHIP_NO_ERROR, w1)"
    and w': "w' = w1\<lparr>wContainerType := ty, wContainerOpen := False\<rparr>" "ct = Some (wContainerType w1)" and ty: "TLVTypeIsContainer ty"
    using assms(1) by (auto simp: TLVWriter_StartContainer_def split: if_splits prod.splits)
  note ok = WriteElementHead_ok [OF h, unfolded r, OF assms(2)]
  show "ct = Some (wContainerType w)" "wContainerType w' = ty" "wImplicitProfileId w' = wImplicitProfileId w"
    "wBuf w' = wBuf w @ elem_head (wImplicitProfileId w) ty tag 0" "tag_allowed (wContainerType w) tag"
    "TLVTypeIsContainer ty" "length (wBuf w') + wRemainingLen w' \<le> length (wBuf w) + wRemainingLen w"
    "wLenWritten w' \<le> UINT32_MAX"
    using ok w' ty by (auto simp: r TLVTypeIsContainer_def)
qed

lemma EndContainer_ok:
  assumes "TLVWriter_EndContainer ct w = (CHIP_NO_ERROR, w')" and "wLenWritten w \<le> UINT32_MAX"
  shows "wContainerType w' = ct" "wImplicitProfileId w' = wImplicitProfileId w"
    "wBuf w' = wBuf w @ [0x18]" "TLVTypeIsContainer (wContainerType w)"
    "length (wBuf w') + wRemainingLen w' \<le> length (wBuf w) + wRemainingLen w" "wLenWritten w' \<le> UINT32_MAX"
proof -
  let ?w = "release_end (w\<lparr>wContainerType := ct\<rparr>)"
  have r: "wImplicitProfileId ?w = wImplicitProfileId w" "wContainerType ?w = ct"
    "wBuf ?w = wBuf w" "wRemainingLen ?w = wRemainingLen w" "wLenWritten ?w = wLenWritten w"
    by (simp_all add: release_end_def)
  have h: "TLVWriter_WriteElementHead ET_EndOfContainer AnonymousTag 0 ?w = (CHIP_NO_ERROR, w')"
    and ty: "TLVTypeIsContainer (wContainerType w)"
    using assms(1) by (auto simp: TLVWriter_EndContainer_def split: if_splits)
  note ok = WriteElementHead_ok [OF h, unfolded r, OF assms(2), unfolded end_head]
  show "wContainerType w' = ct" "wImplicitProfileId w' = wImplicitProfileId w"
    "wBuf w' = wBuf w @ [0x18]" "TLVTypeIsContainer (wContainerType w)"
    "length (wBuf w') + wRemainingLen w' \<le> length (wBuf w) + wRemainingLen w" "wLenWritten w' \<le> UINT32_MAX"
    using ok ty by (auto simp: r)
qed

lemma put_events_ok:
  assumes "put_events validate outer es w = (CHIP_NO_ERROR, [], w')" "wLenWritten w \<le> UINT32_MAX" "list_all event_tag_ok es"
  shows "wBuf w' = wBuf w @ encode (wImplicitProfileId w) es \<and> legal (wContainerType w) outer es \<and>
    length (wBuf w') \<le> length (wBuf w) + wRemainingLen w"
  using assms
proof (induction validate outer es w rule: put_events.induct)
  case (2 validate outer tag v es w)
  then obtain w1 where 1: "put_value validate tag v w = (CHIP_NO_ERROR, w1)"
    and 2: "put_events validate outer es w1 = (CHIP_NO_ERROR, [], w')"
    by (auto split: if_splits prod.splits)
  note ok = put_value_ok [OF 1 "2.prems"(2)]
  show ?case
    using "2.IH" [OF 1 [symmetric] _ 2] ok "2.prems"(3) by auto
next
  case (3 validate outer tag ty es w)
  then obtain ct w1 where 1: "TLVWriter_StartContainer tag ty w = (CHIP_NO_ERROR, Some ct, w1)"
    and 2: "put_events validate (ct # outer) es w1 = (CHIP_NO_ERROR, [], w')"
    using StartContainer_ok(1) [of tag ty w None w'] by (auto split: if_splits prod.splits option.splits)
  note ok = StartContainer_ok [OF 1 "3.prems"(2)]
  show ?case
    using "3.IH" [OF 1 [symmetric] _ _ _ 2] ok "3.prems"(3) by auto
next
  case (4 validate outer es w)
  then obtain ct outer' w1 where o: "outer = ct # outer'" and 1: "TLVWriter_EndContainer ct w = (CHIP_NO_ERROR, w1)"
    and 2: "put_events validate outer' es w1 = (CHIP_NO_ERROR, [], w')"
    by (auto split: if_splits prod.splits list.splits)
  note ok = EndContainer_ok [OF 1 "4.prems"(2)]
  show ?case
    using "4.IH" [OF o 1 [symmetric] _ 2] ok o "4.prems"(3) by auto
qed simp

subsection \<open>A reader in front of some bytes\<close>

definition before :: "32 word \<Rightarrow> TLVType \<Rightarrow> byte list \<Rightarrow> tlv_reader \<Rightarrow> bool" where
  "before p ct bs r \<longleftrightarrow>
    (\<exists>q. TLVReader_Skip r = (CHIP_NO_ERROR, q) \<and> reader_inv q \<and> rReadPoint q = bs \<and> rContainerType q = ct \<and>
         rImplicitProfileId q = p)"

lemma before_cleared:
  assumes "rControlByte r = 0xFFFF" "reader_inv r" "rReadPoint r = bs" "rContainerType r = ct" "rImplicitProfileId r = p"
  shows "before p ct bs r"
  using assms
  by (simp add: before_def TLVReader_Skip_def TLVReader_SkipData_def TLVReader_ElementType_def TLVTypeIsContainer_def
      TLVTypeHasLength_def)

lemma before_Init: "length data \<le> UINT32_MAX \<Longrightarrow> before 0xFFFFFFFF kTLVType_NotSpecified data (TLVReader_Init data)"
  using reader_inv_Init [of data] by (intro before_cleared) (simp_all add: TLVReader_Init_def)

lemma reader_inv_on_element:
  "reader_inv r \<Longrightarrow> length rest \<le> length (rReadPoint r) \<Longrightarrow> reader_inv (on_element et tag x rest r)"
  by (auto simp: reader_inv_def)

lemma container_head:
  "TLVTypeIsContainer ty \<Longrightarrow> \<not> TLVTypeHasLength ty" "TLVTypeIsContainer ty \<Longrightarrow> \<not> TLVTypeIsString ty"
  "TLVTypeIsContainer ty \<Longrightarrow> 0 \<le> ty" "TLVTypeIsContainer ty \<Longrightarrow> ty < 24"
  by (auto simp: tlv_type_defs)

subsection \<open>Reading the next head\<close>

lemma ReadElement_leaf:
  assumes "reader_inv q" "rReadPoint q = leaf_code (rImplicitProfileId q) tag v @ rest" "value_code v = (et, x, data)"
    and "tag_allowed (rContainerType q) tag \<or> rContainerType q = kTLVType_UnknownContainer" "api_tag tag" "value_ok v"
  shows "TLVReader_ReadElement q = (CHIP_NO_ERROR, on_element et tag x (data @ rest) q)"
proof -
  let ?r = "on_element et tag x (data @ rest) q"
  have rp: "rReadPoint q = elem_head (rImplicitProfileId q) et tag x @ data @ rest"
    using assms(2,3) by (simp add: leaf_code_def)
  have et: "0 \<le> et" "et < 21"
    using value_code_type [OF assms(3)] by simp_all
  have len: "TLVTypeHasLength et \<Longrightarrow> unat (rElemLenOrVal ?r) = length data" "length data \<le> UINT32_MAX"
    using value_length [OF assms(3,6)] assms(3,6) by (simp_all add: value_ok_def)
  have "TLVReader_VerifyElement ?r = CHIP_NO_ERROR"
    using assms(1,4,5) et len rp
    by (intro VerifyElement_ok) (auto simp: reader_inv_def u32_id simp del: on_element_simps(3))
  then show ?thesis
    using ReadElement_head [OF assms(1) rp assms(5)] et len by (auto simp del: on_element_simps(3))
qed

lemma ReadElement_open:
  assumes "reader_inv q" "rReadPoint q = elem_head (rImplicitProfileId q) ty tag 0 @ rest" "TLVTypeIsContainer ty"
    and "tag_allowed (rContainerType q) tag \<or> rContainerType q = kTLVType_UnknownContainer" "api_tag tag"
  shows "TLVReader_ReadElement q = (CHIP_NO_ERROR, on_element ty tag 0 rest q)"
proof -
  note ty = container_head [OF assms(3)]
  have "TLVReader_VerifyElement (on_element ty tag 0 rest q) = CHIP_NO_ERROR"
    using assms ty by (intro VerifyElement_ok) (auto simp: reader_inv_def)
  then show ?thesis
    using ReadElement_head [OF assms(1,2,5)] ty by auto
qed

lemma ReadElement_close:
  assumes "reader_inv q" "rReadPoint q = 0x18 # rest" "rContainerType q \<noteq> kTLVType_NotSpecified"
  shows "TLVReader_ReadElement q = (CHIP_NO_ERROR, on_element 24 AnonymousTag 0 rest q)"
proof -
  have rp: "rReadPoint q = elem_head (rImplicitProfileId q) 24 AnonymousTag 0 @ rest"
    using assms(2) by (simp add: end_head)
  have "TLVReader_VerifyElement (on_element 24 AnonymousTag 0 rest q) = CHIP_NO_ERROR"
    using assms(3) by (simp add: TLVReader_VerifyElement_def tlv_type_defs)
  then show ?thesis
    using ReadElement_head [OF assms(1) rp] by (simp add: TLVTypeHasLength_def)
qed

lemma SkipData_leaf:
  assumes "reader_inv r" "value_code v = (et, x, data)" "value_ok v" "length (data @ rest) \<le> length (rReadPoint r)"
  obtains q where "TLVReader_SkipData (on_element et tag x (data @ rest) r) = (CHIP_NO_ERROR, q)" "reader_inv q"
    "rReadPoint q = rest" "rContainerType q = rContainerType r" "rImplicitProfileId q = rImplicitProfileId r" "rMaxLen q = rMaxLen r"
proof -
  let ?r = "on_element et tag x (data @ rest) r"
  have et: "TLVReader_ElementType ?r = et"
    using value_code_type [OF assms(2)] by simp
  have inv: "reader_inv ?r"
    using assms(1,4) by (rule reader_inv_on_element)
  show thesis
  proof (cases "TLVTypeHasLength et")
    case True
    have len: "u32 (unat (rElemLenOrVal ?r)) = length data"
      using value_length [OF assms(2,3) True, of tag "data @ rest" r] assms(2,3) by (simp add: value_ok_def u32_id)
    have read: "TLVReader_ReadData (length data) ?r =
      (CHIP_NO_ERROR, data, ?r\<lparr>rReadPoint := rest, rLenRead := u32 (rLenRead ?r + length data)\<rparr>)"
      using ReadData_within [of "length data" ?r] inv by (simp add: reader_inv_def)
    then show thesis
      using that et True len reader_inv_ReadData [OF inv read]
      by (simp add: TLVReader_SkipData_def del: on_element_simps(3,6))
  next
    case False
    then show thesis
      using that [of ?r] et inv value_no_length [OF assms(2)] by (simp add: TLVReader_SkipData_def)
  qed
qed

lemma Next_leaf:
  assumes "before p ct (leaf_code p tag v @ rest) r" "tag_allowed ct tag" "api_tag tag" "value_ok v"
  obtains q et x data where "value_code v = (et, x, data)" "reader_inv q" "rImplicitProfileId q = p" "rContainerType q = ct"
    "length (data @ rest) \<le> length (rReadPoint q)" "TLVReader_Next r = (CHIP_NO_ERROR, on_element et tag x (data @ rest) q)"
    "get_value (on_element et tag x (data @ rest) q) = (CHIP_NO_ERROR, Some v)"
    "\<not> TLVTypeIsContainer (TLVReader_ElementType (on_element et tag x (data @ rest) q))"
    "before p ct rest (on_element et tag x (data @ rest) q)"
proof -
  obtain et x data where v: "value_code v = (et, x, data)"
    by (metis surj_pair)
  obtain q where q: "TLVReader_Skip r = (CHIP_NO_ERROR, q)" "reader_inv q" "rContainerType q = ct" "rImplicitProfileId q = p"
    and rp: "rReadPoint q = leaf_code p tag v @ rest"
    using assms(1) by (auto simp: before_def)
  let ?r = "on_element et tag x (data @ rest) q"
  have et: "TLVReader_ElementType ?r = et" "et < 21" "\<not> TLVTypeIsContainer et"
    using value_code_type [OF v] by (simp_all add: TLVTypeIsContainer_def)
  have le: "length (data @ rest) \<le> length (rReadPoint q)"
    using rp v by (simp add: leaf_code_def)
  have "TLVReader_ReadElement q = (CHIP_NO_ERROR, ?r)"
    using ReadElement_leaf [of q tag v rest, OF q(2) _ v] q rp assms by simp
  moreover have "data \<noteq> []" if "TLVTypeIsString et" "TLVReader_GetLength ?r \<noteq> 0"
  proof -
    have "TLVTypeHasLength et"
      using that(1) by (simp add: TLVTypeIsString_def TLVTypeHasLength_def)
    then show ?thesis
      using that(2) et(1) value_length [OF v assms(4), of tag "data @ rest" q]
      by (auto simp: TLVReader_GetLength_def u32_def simp del: on_element_simps(3))
  qed
  ultimately have "TLVReader_Next r = (CHIP_NO_ERROR, ?r)"
    using q(1) et by (auto simp: TLVReader_Next_def TLVReader_EnsureData_def)
  moreover have "before p ct rest ?r"
    using et q(3,4) by (auto simp: before_def TLVReader_Skip_def intro: SkipData_leaf [OF q(2) v assms(4) le, of tag])
  ultimately show thesis
    using that [OF v q(2,4,3) le] get_value_on_element [OF v assms(4)] et by simp
qed

lemma Next_open:
  assumes "before p ct (elem_head p ty tag 0 @ rest) r" "tag_allowed ct tag" "api_tag tag" "TLVTypeIsContainer ty"
  obtains q where "reader_inv q" "rImplicitProfileId q = p" "rContainerType q = ct" "length rest \<le> length (rReadPoint q)"
    "TLVReader_Next r = (CHIP_NO_ERROR, on_element ty tag 0 rest q)"
proof -
  obtain q where q: "TLVReader_Skip r = (CHIP_NO_ERROR, q)" "reader_inv q" "rContainerType q = ct" "rImplicitProfileId q = p"
    and rp: "rReadPoint q = elem_head p ty tag 0 @ rest"
    using assms(1) by (auto simp: before_def)
  have "TLVReader_ReadElement q = (CHIP_NO_ERROR, on_element ty tag 0 rest q)"
    using ReadElement_open [OF q(2) _ assms(4)] q rp assms(2,3) by simp
  then have "TLVReader_Next r = (CHIP_NO_ERROR, on_element ty tag 0 rest q)"
    using q(1) container_head [OF assms(4)] by (simp add: TLVReader_Next_def)
  then show thesis
    using that q rp by simp
qed

lemma Enter_open:
  assumes "reader_inv q" "length rest \<le> length (rReadPoint q)" "TLVTypeIsContainer ty"
  obtains q' where "TLVReader_EnterContainer (on_element ty tag 0 rest q) = (CHIP_NO_ERROR, rContainerType q, q')"
    "before (rImplicitProfileId q) ty rest q'" "TLVReader_GetType (on_element ty tag 0 rest q) = ty"
    "TLVReader_ElementType (on_element ty tag 0 rest q) = ty"
proof -
  let ?r = "on_element ty tag 0 rest q"
  let ?q = "(TLVReader_ClearElementState (?r\<lparr>rContainerType := ty\<rparr>))\<lparr>rContainerOpen := False\<rparr>"
  note ty = container_head [OF assms(3)]
  have "before (rImplicitProfileId q) ty rest ?q"
    using reader_inv_on_element [OF assms(1,2)] by (intro before_cleared) simp_all
  then show thesis
    using that [of ?q] ty assms(3) by (simp add: TLVReader_EnterContainer_def TLVReader_GetType_def TLVTypeIsContainer_def)
qed

lemma Next_close:
  assumes "before p ct (0x18 # rest) r" "TLVTypeIsContainer ct"
  obtains r' q where "TLVReader_Next r = (CHIP_END_OF_TLV, r')"
    "TLVReader_ExitContainer outer r' = (CHIP_NO_ERROR, q)" "before p outer rest q"
proof -
  obtain q where q: "TLVReader_Skip r = (CHIP_NO_ERROR, q)" "reader_inv q" "rContainerType q = ct" "rImplicitProfileId q = p"
    and rp: "rReadPoint q = 0x18 # rest"
    using assms(1) by (auto simp: before_def)
  let ?r = "on_element 24 AnonymousTag 0 rest q"
  have "TLVReader_ReadElement q = (CHIP_NO_ERROR, ?r)"
    using q rp assms(2) by (intro ReadElement_close) (auto simp: TLVTypeIsContainer_def)
  then have n: "TLVReader_Next r = (CHIP_END_OF_TLV, ?r)"
    using q(1) by (simp add: TLVReader_Next_def)
  let ?q = "TLVReader_ClearElementState (?r\<lparr>rContainerOpen := False, rContainerType := outer\<rparr>)"
  have "TLVReader_ElementType (?r\<lparr>rContainerOpen := False\<rparr>) = TLVReader_ElementType ?r"
    by (rule ElementType_cong) simp
  then have "TLVReader_ExitContainer outer ?r = (CHIP_NO_ERROR, ?q)"
    by (simp add: TLVReader_ExitContainer_def TLVReader_SkipToEndOfContainer_def SkipToEnd_loop.simps [of _ 0])
  moreover have "reader_inv ?r"
    using q rp by (intro reader_inv_on_element) auto
  then have "before p outer rest ?q"
    using q by (intro before_cleared) simp_all
  ultimately show thesis
    using that n by blast
qed

lemma Next_end:
  assumes "before p ct [] r"
  obtains r' where "TLVReader_Next r = (CHIP_END_OF_TLV, r')"
  using assms by (auto simp: before_def TLVReader_Next_def TLVReader_ReadElement_def TLVReader_EnsureData_def)

lemma read_events_encode:
  "legal ct outer es \<Longrightarrow> before p ct (encode p es) r \<Longrightarrow> read_events outer r = (CHIP_NO_ERROR, es)"
proof (induction ct outer es arbitrary: r rule: legal.induct)
  case (1 ct outer)
  then show ?case
    by (auto simp: read_events.simps [of "[]" r] elim: Next_end)
next
  case (2 ct outer tag v es)
  then have "before p ct (leaf_code p tag v @ encode p es) r" "tag_allowed ct tag" "api_tag tag" "value_ok v"
    by simp_all
  then show ?case
    by (rule Next_leaf) (use 2 in \<open>simp add: read_events.simps [of outer r]\<close>)
next
  case (3 ct outer tag ty es)
  then have "before p ct (elem_head p ty tag 0 @ encode p es) r" "tag_allowed ct tag" "api_tag tag" and ty: "TLVTypeIsContainer ty"
    by simp_all
  then obtain q where q: "reader_inv q" "rImplicitProfileId q = p" "rContainerType q = ct" "length (encode p es) \<le> length (rReadPoint q)"
    "TLVReader_Next r = (CHIP_NO_ERROR, on_element ty tag 0 (encode p es) q)"
    by (rule Next_open)
  show ?case
    by (rule Enter_open [OF q(1,4) ty, of tag]) (use 3 q in \<open>simp add: read_events.simps [of outer r]\<close>)
next
  case (4 ct outer es)
  then obtain ct' outer' where o: "outer = ct' # outer'" "legal ct' outer' es"
    by (auto split: list.splits)
  from 4 have "before p ct (0x18 # encode p es) r" "TLVTypeIsContainer ct"
    by simp_all
  then obtain r' q where "TLVReader_Next r = (CHIP_END_OF_TLV, r')"
    "TLVReader_ExitContainer ct' r' = (CHIP_NO_ERROR, q)" "before p ct' (encode p es) q"
    by (rule Next_close)
  then show ?case
    using 4 o by (simp add: read_events.simps [of "ct' # outer'" r])
qed

text \<open>What the writer accepts, the reader reads back.\<close>

lemma document_roundtrip:
  assumes "put_events validate [] es ((TLVWriter_Init maxLen)\<lparr>wImplicitProfileId := p\<rparr>) = (CHIP_NO_ERROR, [], w)"
    and "list_all event_tag_ok es"
  shows "wBuf w = encode p es" "read_events [] ((TLVReader_Init (wBuf w))\<lparr>rImplicitProfileId := p\<rparr>) = (CHIP_NO_ERROR, es)"
proof -
  let ?w = "(TLVWriter_Init maxLen)\<lparr>wImplicitProfileId := p\<rparr>"
  have w: "wBuf ?w = []" "wLenWritten ?w \<le> UINT32_MAX" "wContainerType ?w = -1" "wRemainingLen ?w \<le> UINT32_MAX"
    "wImplicitProfileId ?w = p"
    by (simp_all add: TLVWriter_Init_def)
  have e: "wBuf w = encode p es" "legal (-1) [] es" "length (wBuf w) \<le> UINT32_MAX"
    using put_events_ok [OF assms(1) w(2) assms(2)] w by auto
  then show "wBuf w = encode p es"
    by simp
  have "before p (-1) (encode p es) ((TLVReader_Init (wBuf w))\<lparr>rImplicitProfileId := p\<rparr>)"
    using e by (intro before_cleared) (auto simp: TLVReader_Init_def reader_inv_def)
  then show "read_events [] ((TLVReader_Init (wBuf w))\<lparr>rImplicitProfileId := p\<rparr>) = (CHIP_NO_ERROR, es)"
    using e(2) by (rule read_events_encode [rotated])
qed

end
