(* ===== verification/TlvSpace.thy ===== *)
theory TlvSpace
  imports TlvEvents
begin

text \<open>
  The space of the writer: every successful \<^verbatim>\<open>StartContainer\<close> sets a byte aside for the end of the container, so
  that a document can be completed whatever happened in between, failed calls included.
\<close>

definition room :: "nat \<Rightarrow> tlv_writer \<Rightarrow> bool" where
  "room d w \<longleftrightarrow> wInitialized w \<and> \<not> wContainerOpen w \<and> wCloseContainerReserved w \<and> wLenWritten w \<le> wMaxLen w \<and>
     wMaxLen w + d \<le> wLenWritten w + wRemainingLen w \<and> wLenWritten w + wRemainingLen w \<le> 0x7FFFFFFF"

lemma room_Init: "n \<le> 0x7FFFFFFF \<Longrightarrow> room 0 (TLVWriter_Init n)"
  by (simp add: room_def TLVWriter_Init_def)

lemma room_WriteData:
  assumes "room d w" "length p \<le> 0x7FFFFFFF"
  shows "TLVWriter_WriteData p w = (CHIP_ERROR_BUFFER_TOO_SMALL, w) \<and> wMaxLen w < wLenWritten w + length p \<or>
    TLVWriter_WriteData p w = (CHIP_NO_ERROR, written p w) \<and> room d (written p w) \<and> wLenWritten w + length p \<le> wMaxLen w"
proof -
  have "u32 (wLenWritten w + length p) = wLenWritten w + length p"
    using assms by (intro u32_id) (simp add: room_def)
  then show ?thesis
    using assms by (auto simp: room_def WriteData_eq)
qed

lemma elem_head_length: "length (elem_head p et tag v) \<le> 17"
  using field_bytes_le [of et] by (auto simp: elem_head_def tag_code_def Let_def)

lemma room_WriteElementHead:
  assumes "room d w" "TLVWriter_WriteElementHead et tag v w = (err, w')"
  shows "err \<noteq> CHIP_NO_ERROR \<and> w' = w \<or>
    err = CHIP_NO_ERROR \<and> w' = written (elem_head (wImplicitProfileId w) et tag v) w \<and> room d w'"
proof -
  have "length (elem_head (wImplicitProfileId w) et tag v) \<le> 0x7FFFFFFF"
    using elem_head_length [of "wImplicitProfileId w" et tag v] by simp
  from room_WriteData [OF assms(1) this] show ?thesis
    using assms by (auto simp: TLVWriter_WriteElementHead_def head_tag_eq elem_head_def split: if_splits)
qed

lemma room_WriteElementWithData:
  assumes "room d w" "TLVWriter_WriteElementWithData ty tag data w = (err, w')" "length data \<le> 0x7FFFFFFF"
  shows "room d w' \<and> wContainerType w' = wContainerType w"
proof (cases "TLVWriter_WriteElementHead (ty OR len_field_size (length data)) tag (of_nat (length data)) w")
  case (Pair e w1)
  from room_WriteElementHead [OF assms(1) Pair] show ?thesis
  proof (elim disjE conjE)
    assume "e = CHIP_NO_ERROR" "room d w1"
      "w1 = written (elem_head (wImplicitProfileId w) (ty OR len_field_size (length data)) tag (of_nat (length data))) w"
    then show ?thesis
      using Pair assms(1,2) room_WriteData [OF \<open>room d w1\<close> assms(3)]
      by (auto simp: TLVWriter_WriteElementWithData_def split: if_splits)
  qed (use assms(1,2) Pair in \<open>auto simp: TLVWriter_WriteElementWithData_def split: if_splits\<close>)
qed

lemma room_put_value:
  assumes "room d w" "put_value validate tag v w = (err, w')" "length (snd (snd (value_code v))) \<le> 0x7FFFFFFF"
  shows "room d w' \<and> wContainerType w' = wContainerType w"
proof -
  consider (string) bs where "v = VString bs" | (bytes) bs where "v = VBytes bs"
    | (scalar) "\<And>bs. v \<noteq> VString bs" "\<And>bs. v \<noteq> VBytes bs"
    by blast
  then show ?thesis
  proof cases
    case string
    then show ?thesis
      using assms(1,2) room_WriteElementWithData [OF assms(1), of kTLVType_UTF8String tag bs err w'] assms(3)
      by (simp add: put_value_def TLVWriter_PutString_CharSpan_def TLVWriter_PutString_def split: if_split_asm)
  next
    case bytes
    then show ?thesis
      using assms(1,2) room_WriteElementWithData [OF assms(1), of kTLVType_ByteString tag bs err w'] assms(3)
      by (simp add: put_value_def TLVWriter_Put_ByteSpan_def TLVWriter_PutBytes_def split: if_split_asm)
  next
    case scalar
    have "TLVWriter_WriteElementHead (fst (value_code v)) tag (fst (snd (value_code v))) w = (err, w')"
      using assms(2) put_scalar(1) [OF scalar, of validate tag w] by simp
    from room_WriteElementHead [OF assms(1) this] show ?thesis
      using assms(1) by auto
  qed
qed

lemma room_StartContainer:
  assumes "room d w" "TLVWriter_StartContainer tag ty w = (err, ct, w')"
  shows "err \<noteq> CHIP_NO_ERROR \<and> ct = None \<and> w' = w \<or>
    err = CHIP_NO_ERROR \<and> ct = Some (wContainerType w) \<and> room (Suc d) w' \<and> wContainerType w' = ty \<and> TLVTypeIsContainer ty"
proof -
  let ?w = "reserve_end w" and ?h = "elem_head (wImplicitProfileId w) ty tag 0"
  have len: "1 \<le> length ?h" "length ?h \<le> 17"
    using elem_head_length by (simp_all add: elem_head_def)
  have res: "wCloseContainerReserved w"
    using assms(1) by (simp add: room_def)
  then have w: "?w = w\<lparr>wMaxLen := wMaxLen w - 1\<rparr>"
    using assms(1) by (simp add: room_def reserve_end_def)
  have undo: "1 \<le> wMaxLen w \<Longrightarrow> release_end ?w = w"
    using assms(1) by (simp add: room_def w release_end_def u32_id)
  have u: "u32 (wLenWritten w + length ?h) = wLenWritten w + length ?h"
    using assms(1) len by (intro u32_id) (simp add: room_def)
  have data: "TLVWriter_WriteData ?h ?w =
    (if wMaxLen w - 1 < wLenWritten w + length ?h then (CHIP_ERROR_BUFFER_TOO_SMALL, ?w) else (CHIP_NO_ERROR, written ?h ?w))"
    using assms(1) u len by (auto simp: WriteData_eq room_def w)
  have room: "\<not> wMaxLen w - 1 < wLenWritten w + length ?h \<Longrightarrow>
      room (Suc d) ((written ?h ?w)\<lparr>wContainerType := ty, wContainerOpen := False\<rparr>)"
    using assms(1) u len by (auto simp: room_def w)
  have "TLVWriter_WriteElementHead ty tag 0 ?w =
    (if \<not> (tag_allowed (wContainerType w) tag \<or> ty = ET_EndOfContainer \<and> IsSpecialTag tag \<and> \<not> IsContextTag tag)
     then (CHIP_ERROR_INVALID_TLV_TAG, ?w) else TLVWriter_WriteData ?h ?w)"
    using assms(1) by (simp add: TLVWriter_WriteElementHead_def head_tag_eq room_def w elem_head_def)
  then show ?thesis
    using assms(2) undo data room res by (auto simp: TLVWriter_StartContainer_def w split: if_splits)
qed

lemma room_EndContainer:
  assumes "room (Suc d) w" "TLVTypeIsContainer (wContainerType w)"
  obtains w' where "TLVWriter_EndContainer ct w = (CHIP_NO_ERROR, w')" "room d w'" "wContainerType w' = ct"
proof -
  let ?w = "release_end (w\<lparr>wContainerType := ct\<rparr>)"
  have w: "?w = w\<lparr>wContainerType := ct, wMaxLen := wMaxLen w + 1\<rparr>"
    using assms(1) by (simp add: room_def release_end_def u32_id)
  have r: "room d ?w" "wLenWritten ?w + length [0x18 :: byte] \<le> wMaxLen ?w"
    using assms(1) by (simp_all add: w room_def)
  have "TLVWriter_WriteElementHead ET_EndOfContainer AnonymousTag 0 ?w = TLVWriter_WriteData [0x18] ?w"
    using r(1) end_head [of "wImplicitProfileId ?w" 0]
    by (simp add: TLVWriter_WriteElementHead_def head_tag_eq elem_head_def room_def)
  moreover have "TLVWriter_WriteData [0x18] ?w = (CHIP_NO_ERROR, written [0x18] ?w)" "room d (written [0x18] ?w)"
    using room_WriteData [OF r(1), of "[0x18]"] r(2) by auto
  ultimately show thesis
    using that [of "written [0x18] ?w"] assms by (simp add: TLVWriter_EndContainer_def room_def w)
qed

subsection \<open>Sessions\<close>

text \<open>
  A session calls \<^verbatim>\<open>Put\<close> methods, \<^verbatim>\<open>StartContainer\<close> and \<^verbatim>\<open>EndContainer\<close> in any order and goes on after errors. Values are shorter than $2^{31}$ bytes.
\<close>

inductive session :: "TLVType list \<times> tlv_writer \<Rightarrow> TLVType list \<times> tlv_writer \<Rightarrow> bool" where
  start: "session s s"
| leaf: "session s (outer, w) \<Longrightarrow> length (snd (snd (value_code v))) \<le> 0x7FFFFFFF \<Longrightarrow>
    put_value validate tag v w = (err, w') \<Longrightarrow> session s (outer, w')"
| opened: "session s (outer, w) \<Longrightarrow> TLVWriter_StartContainer tag ty w = (err, Some ct, w') \<Longrightarrow> session s (ct # outer, w')"
| not_opened: "session s (outer, w) \<Longrightarrow> TLVWriter_StartContainer tag ty w = (err, None, w') \<Longrightarrow> session s (outer, w')"
| closed: "session s (ct # outer, w) \<Longrightarrow> TLVWriter_EndContainer ct w = (err, w') \<Longrightarrow> session s (outer, w')"

definition nested :: "TLVType list \<times> tlv_writer \<Rightarrow> bool" where
  "nested s \<longleftrightarrow> room (length (fst s)) (snd s) \<and> list_all TLVTypeIsContainer (butlast (wContainerType (snd s) # fst s))"

lemma nested_Cons:
  "nested (ct # outer, w) \<longleftrightarrow>
   room (Suc (length outer)) w \<and> TLVTypeIsContainer (wContainerType w) \<and> list_all TLVTypeIsContainer (butlast (ct # outer))"
  by (simp add: nested_def)

lemma nested_close:
  assumes "nested (ct # outer, w)"
  obtains w' where "TLVWriter_EndContainer ct w = (CHIP_NO_ERROR, w')" "nested (outer, w')"
proof -
  have "room (Suc (length outer)) w" "TLVTypeIsContainer (wContainerType w)"
    using assms by (simp_all add: nested_Cons)
  then obtain w' where "TLVWriter_EndContainer ct w = (CHIP_NO_ERROR, w')" "room (length outer) w'" "wContainerType w' = ct"
    by (rule room_EndContainer)
  then show thesis
    using that [of w'] assms by (auto simp: nested_def)
qed

lemma session_nested: "session s t \<Longrightarrow> nested s \<Longrightarrow> nested t"
proof (induction rule: session.induct)
  case (leaf s outer w v validate tag err w')
  then show ?case
    using room_put_value [of "length outer" w validate tag v err w'] by (simp add: nested_def)
next
  case (opened s outer w tag ty err ct w')
  then have "room (length outer) w"
    by (simp add: nested_def)
  from room_StartContainer [OF this opened.hyps(2)] show ?case
    using opened.IH [OF opened.prems] by (simp add: nested_Cons nested_def)
next
  case (not_opened s outer w tag ty err w')
  then have "room (length outer) w"
    by (simp add: nested_def)
  from room_StartContainer [OF this not_opened.hyps(2)] show ?case
    using not_opened.IH [OF not_opened.prems] by simp
next
  case (closed s ct outer w err w')
  then show ?case
    using nested_close [of ct outer w] by (metis prod.inject)
qed simp

lemma close_all:
  "nested (outer, w) \<Longrightarrow>
   \<exists>w'. put_events validate outer (replicate (length outer) Close) w = (CHIP_NO_ERROR, [], w')"
proof (induction outer arbitrary: w)
  case (Cons ct outer)
  obtain w1 where "TLVWriter_EndContainer ct w = (CHIP_NO_ERROR, w1)" "nested (outer, w1)"
    using nested_close [OF Cons.prems] .
  with Cons.IH [of w1] show ?case
    by simp
qed simp

lemma nested_Init: "n \<le> 0x7FFFFFFF \<Longrightarrow> nested ([], TLVWriter_Init n)"
  by (simp add: nested_def room_Init)

end
