(* ===== verification/TlvCopy.thy ===== *)
theory TlvCopy
  imports TlvSpace
begin

text \<open>
  Skipping and copying whole elements: \<^verbatim>\<open>Skip\<close> on a container moves exactly behind its end, although it does not
  know the types of the containers around an element, and \<^verbatim>\<open>CopyElement\<close> copies a container with its contents.
\<close>

text \<open>The contents of a container up to its end; the list holds the types of the containers that are open inside.\<close>

fun contents :: "TLVType \<Rightarrow> TLVType list \<Rightarrow> tlv_event list \<Rightarrow> bool" where
  "contents ct outer [] \<longleftrightarrow> False"
| "contents ct outer (Leaf tag v # es) \<longleftrightarrow> tag_allowed ct tag \<and> api_tag tag \<and> value_ok v \<and> contents ct outer es"
| "contents ct outer (Open tag ty # es) \<longleftrightarrow>
    tag_allowed ct tag \<and> api_tag tag \<and> TLVTypeIsContainer ty \<and> contents ty (ct # outer) es"
| "contents ct outer (Close # es) \<longleftrightarrow>
    TLVTypeIsContainer ct \<and> (case outer of [] \<Rightarrow> es = [] | ct' # outer \<Rightarrow> contents ct' outer es)"

subsection \<open>Skipping a container\<close>

text \<open>The rest of a round, after the data of the current element.\<close>

definition skip_on :: "TLVType \<Rightarrow> nat \<Rightarrow> tlv_reader \<Rightarrow> CHIP_ERROR \<times> tlv_reader" where
  "skip_on outer n q =
    (case TLVReader_ReadElement q of (err, r) \<Rightarrow> if err \<noteq> CHIP_NO_ERROR then (err, r) else SkipToEnd_loop outer n r)"

lemma SkipToEnd_skip_on:
  assumes "TLVReader_ElementType r \<noteq> ET_EndOfContainer" "\<not> TLVTypeIsContainer (TLVReader_ElementType r)"
    and "TLVReader_SkipData r = (CHIP_NO_ERROR, q)"
  shows "SkipToEnd_loop outer n r = skip_on outer n q"
  using assms by (subst SkipToEnd_loop.simps) (auto simp: SkipToEnd_round_def skip_on_def split: prod.splits)

lemma SkipData_none: "\<not> TLVTypeHasLength (TLVReader_ElementType r) \<Longrightarrow> TLVReader_SkipData r = (CHIP_NO_ERROR, r)"
  by (simp add: TLVReader_SkipData_def)

lemma ElementType_container_type [simp]:
  "TLVReader_ElementType (r\<lparr>rContainerType := ct\<rparr>) = TLVReader_ElementType r"
  "TLVReader_ElementType (r\<lparr>rContainerOpen := b\<rparr>) = TLVReader_ElementType r"
  by (rule ElementType_cong, simp)+

lemma SkipToEnd_open:
  assumes "TLVReader_ElementType r = ty" "TLVTypeIsContainer ty"
  shows "SkipToEnd_loop outer n r = skip_on outer (Suc n) (r\<lparr>rContainerType := ty\<rparr>)"
  using assms container_head [OF assms(2)] SkipData_none [of "r\<lparr>rContainerType := ty\<rparr>"]
  by (subst SkipToEnd_loop.simps) (auto simp: SkipToEnd_round_def skip_on_def split: prod.splits)

lemma SkipToEnd_close:
  assumes "TLVReader_ElementType r = 24"
  shows "SkipToEnd_loop outer (Suc n) r =
    skip_on outer n (r\<lparr>rContainerType := if n = 0 then outer else kTLVType_UnknownContainer\<rparr>)"
  using assms SkipData_none [of "r\<lparr>rContainerType := if n = 0 then outer else kTLVType_UnknownContainer\<rparr>"]
  by (subst SkipToEnd_loop.simps) (auto simp: SkipToEnd_round_def skip_on_def TLVTypeHasLength_def split: prod.splits)

lemma skip_contents:
  assumes "contents ct S es" "last (ct # S) = outer" "reader_inv q" "rImplicitProfileId q = p"
    and "rReadPoint q = encode p es @ rest" "rContainerType q = ct \<or> rContainerType q = kTLVType_UnknownContainer"
  shows "\<exists>r. skip_on outer (length S) q = (CHIP_NO_ERROR, r) \<and> reader_inv r \<and> rReadPoint r = rest \<and>
    rImplicitProfileId r = p \<and> rMaxLen r = rMaxLen q"
  using assms
proof (induction ct S es arbitrary: q rule: contents.induct)
  case (2 ct S tag v es)
  obtain et x data where v: "value_code v = (et, x, data)"
    by (metis surj_pair)
  let ?r = "on_element et tag x (data @ encode p es @ rest) q"
  have rd: "TLVReader_ReadElement q = (CHIP_NO_ERROR, ?r)"
    using "2.prems" ReadElement_leaf [OF "2.prems"(3) _ v, of tag "encode p es @ rest"] by auto
  obtain q' where q': "TLVReader_SkipData ?r = (CHIP_NO_ERROR, q')" "reader_inv q'" "rReadPoint q' = encode p es @ rest"
    "rContainerType q' = rContainerType q" "rImplicitProfileId q' = rImplicitProfileId q" "rMaxLen q' = rMaxLen q"
    using SkipData_leaf [OF "2.prems"(3) v, of "encode p es @ rest" tag] "2.prems"(1,4,5) v by (auto simp: leaf_code_def)
  have et: "TLVReader_ElementType ?r = et" "et \<noteq> 24" "\<not> TLVTypeIsContainer et"
    using value_code_type [OF v] by (simp_all add: TLVTypeIsContainer_def)
  have "skip_on outer (length S) q = skip_on outer (length S) q'"
    using rd SkipToEnd_skip_on [of ?r q'] et q'(1) by (simp add: skip_on_def [of _ _ q])
  moreover have "\<exists>r. skip_on outer (length S) q' = (CHIP_NO_ERROR, r) \<and> reader_inv r \<and> rReadPoint r = rest \<and>
      rImplicitProfileId r = p \<and> rMaxLen r = rMaxLen q'"
    by (rule "2.IH") (use "2.prems" q' in simp_all)
  ultimately show ?case
    using q'(6) by simp
next
  case (3 ct S tag ty es)
  let ?r = "on_element ty tag 0 (encode p es @ rest) q"
  let ?q = "?r\<lparr>rContainerType := ty\<rparr>"
  have ty: "TLVTypeIsContainer ty"
    using "3.prems"(1) by simp
  have rd: "TLVReader_ReadElement q = (CHIP_NO_ERROR, ?r)"
    using "3.prems" by (intro ReadElement_open) auto
  have "reader_inv ?r"
    using "3.prems"(3,5) by (intro reader_inv_on_element) simp_all
  then have "\<exists>r. skip_on outer (length (ct # S)) ?q = (CHIP_NO_ERROR, r) \<and> reader_inv r \<and> rReadPoint r = rest \<and>
      rImplicitProfileId r = p \<and> rMaxLen r = rMaxLen ?q"
    using "3.prems" by (intro "3.IH") simp_all
  moreover have "skip_on outer (length S) q = skip_on outer (length (ct # S)) ?q"
    using rd SkipToEnd_open [of ?r ty] ty container_head [OF ty] by (simp add: skip_on_def [of _ _ q])
  ultimately show ?case
    by simp
next
  case (4 ct S es)
  let ?r = "on_element 24 AnonymousTag 0 (encode p es @ rest) q"
  have rd: "TLVReader_ReadElement q = (CHIP_NO_ERROR, ?r)"
    using "4.prems" by (intro ReadElement_close) (auto simp: TLVTypeIsContainer_def)
  have inv: "reader_inv ?r"
    using "4.prems"(3,5) by (intro reader_inv_on_element) simp_all
  show ?case
  proof (cases S)
    case Nil
    then have "skip_on outer (length S) q = (CHIP_NO_ERROR, ?r)"
      using rd by (simp add: skip_on_def SkipToEnd_loop.simps [of _ 0])
    then show ?thesis
      using inv "4.prems"(1,4) Nil by simp
  next
    case (Cons ct' S')
    let ?q = "?r\<lparr>rContainerType := if length S' = 0 then outer else kTLVType_UnknownContainer\<rparr>"
    have "\<exists>r. skip_on outer (length S') ?q = (CHIP_NO_ERROR, r) \<and> reader_inv r \<and> rReadPoint r = rest \<and>
      rImplicitProfileId r = p \<and> rMaxLen r = rMaxLen ?q"
      using "4.prems" Cons inv by (intro "4.IH") auto
    moreover have "skip_on outer (length S) q = skip_on outer (length S') ?q"
      using rd SkipToEnd_close [of ?r outer "length S'"] Cons by (simp add: skip_on_def [of _ _ q])
    ultimately show ?thesis
      by simp
  qed
qed simp

text \<open>\<^verbatim>\<open>Skip\<close> on a container.\<close>

lemma Skip_container:
  assumes "contents ty [] es" "TLVTypeIsContainer ty" "reader_inv q" "length (encode p es @ rest) \<le> length (rReadPoint q)"
    and "rImplicitProfileId q = p"
  obtains q' where "TLVReader_Skip (on_element ty tag 0 (encode p es @ rest) q) = (CHIP_NO_ERROR, q')" "reader_inv q'"
    "rReadPoint q' = rest" "rContainerType q' = rContainerType q" "rImplicitProfileId q' = p" "rMaxLen q' = rMaxLen q" "rControlByte q' = 0xFFFF"
proof -
  let ?r = "on_element ty tag 0 (encode p es @ rest) q"
  let ?e = "(TLVReader_ClearElementState (?r\<lparr>rContainerType := ty\<rparr>))\<lparr>rContainerOpen := False\<rparr>"
  note ty = container_head [OF assms(2)]
  have cleared: "TLVReader_ElementType ?e = - 1"
    by (simp add: TLVReader_ElementType_def)
  have "SkipToEnd_loop ty 0 ?e = skip_on ty 0 ?e"
    using cleared SkipData_none [of ?e] by (intro SkipToEnd_skip_on) (simp_all add: TLVTypeIsContainer_def TLVTypeHasLength_def)
  moreover have "\<exists>r. skip_on ty (length ([] :: TLVType list)) ?e = (CHIP_NO_ERROR, r) \<and> reader_inv r \<and> rReadPoint r = rest \<and>
      rImplicitProfileId r = p \<and> rMaxLen r = rMaxLen ?e"
    using assms reader_inv_on_element [OF assms(3,4)] by (intro skip_contents [OF assms(1)]) simp_all
  ultimately obtain r where r: "SkipToEnd_loop ty 0 ?e = (CHIP_NO_ERROR, r)" "reader_inv r" "rReadPoint r = rest"
    "rImplicitProfileId r = p" "rMaxLen r = rMaxLen q"
    by auto
  have "TLVReader_Skip ?r = (CHIP_NO_ERROR, TLVReader_ClearElementState (r\<lparr>rContainerType := rContainerType q\<rparr>))"
    using ty assms(2) r(1)
    by (simp add: TLVReader_Skip_def TLVReader_EnterContainer_def TLVReader_ExitContainer_def TLVReader_SkipToEndOfContainer_def)
  then show thesis
    by (rule that) (use r in simp_all)
qed

subsection \<open>Copying\<close>

declare copy_chunks.simps [simp del]

lemma copy_chunks_ok:
  "room d w \<Longrightarrow> wLenWritten w + n \<le> wMaxLen w \<Longrightarrow> n \<le> length (rReadPoint h) \<Longrightarrow> reader_inv h \<Longrightarrow>
   copy_chunks n h w = (CHIP_NO_ERROR, written (take n (rReadPoint h)) w)"
proof (induction n h w rule: copy_chunks.induct)
  case (1 n h w)
  show ?case
  proof (cases "n = 0")
    case True
    then show ?thesis
      using "1.prems"(1) by (simp add: copy_chunks.simps [of 0] written_def room_def u32_id)
  next
    case False
    define k where "k = (if n > 16 then 16 else n)"
    let ?bs = "take k (rReadPoint h)"
    let ?h = "h\<lparr>rReadPoint := drop k (rReadPoint h), rLenRead := u32 (rLenRead h + k)\<rparr>"
    have k: "0 < k" "k \<le> n" "k \<le> 16" "length ?bs = k"
      using False "1.prems"(3) by (simp_all add: k_def)
    have rd: "TLVReader_ReadData k h = (CHIP_NO_ERROR, ?bs, ?h)"
      using k "1.prems"(3,4) by (intro ReadData_within) (auto simp: reader_inv_def)
    have wr: "TLVWriter_WriteData ?bs w = (CHIP_NO_ERROR, written ?bs w)" "room d (written ?bs w)"
      using room_WriteData [OF "1.prems"(1), of ?bs] k "1.prems"(2) by auto
    have u: "u32 (wLenWritten w + k) = wLenWritten w + k" "wLenWritten w \<le> UINT32_MAX"
      using "1.prems"(1,2) k by (auto simp: room_def intro!: u32_id)
    have "copy_chunks (n - k) ?h (written ?bs w) = (CHIP_NO_ERROR, written (take (n - k) (rReadPoint ?h)) (written ?bs w))"
      using False rd wr u k "1.prems" reader_inv_ReadData [OF "1.prems"(4) rd]
      by (intro "1.IH" [OF _ k_def rd [symmetric]]) auto
    moreover have "?bs @ take (n - k) (drop k (rReadPoint h)) = take n (rReadPoint h)"
      using take_add [of k "n - k" "rReadPoint h"] k by simp
    ultimately have "copy_chunks (n - k) ?h (written ?bs w) = (CHIP_NO_ERROR, written (take n (rReadPoint h)) w)"
      by (simp add: written_append [OF u(2)])
    then show ?thesis
      using False rd wr(1) by (subst copy_chunks.simps) (simp add: k_def)
  qed
qed

text \<open>An element of a document: a value, or a container with its contents.\<close>

datatype tlv_element = Single tlv_value | Whole TLVType "tlv_event list"

fun element_ok :: "tlv_element \<Rightarrow> bool" where
  "element_ok (Single v) \<longleftrightarrow> value_ok v"
| "element_ok (Whole ty es) \<longleftrightarrow> TLVTypeIsContainer ty \<and> contents ty [] es"

fun element_events :: "Tag \<Rightarrow> tlv_element \<Rightarrow> tlv_event list" where
  "element_events tag (Single v) = [Leaf tag v]"
| "element_events tag (Whole ty es) = Open tag ty # es"

text \<open>Reading the head of an element, skipping it and copying it under another tag.\<close>

lemma Next_element:
  assumes "before p ct (encode p (element_events tag e) @ rest) r" "tag_allowed ct tag" "api_tag tag" "element_ok e"
  obtains q et x body q' where "TLVReader_Next r = (CHIP_NO_ERROR, on_element et tag x (body @ rest) q)"
    "TLVReader_ElementType (on_element et tag x (body @ rest) q) = et" "et \<noteq> ET_EndOfContainer" "et \<noteq> ET_NotSpecified"
    "\<And>tag'. encode p (element_events tag' e) = elem_head p et tag' x @ body"
    "reader_inv (on_element et tag x (body @ rest) q)"
    "TLVReader_Skip (on_element et tag x (body @ rest) q) = (CHIP_NO_ERROR, q')" "reader_inv q'" "rReadPoint q' = rest"
    "rContainerType q' = ct" "rImplicitProfileId q' = p" "rMaxLen q' = rMaxLen q" "rControlByte q' = 0xFFFF"
proof (cases e)
  case (Single v)
  then have v: "before p ct (leaf_code p tag v @ rest) r" "value_ok v"
    using assms(1,4) by simp_all
  show thesis
  proof (rule Next_leaf [OF v(1) assms(2,3) v(2)])
    fix q et x data
    assume *: "value_code v = (et, x, data)" "reader_inv q" "rImplicitProfileId q = p" "rContainerType q = ct"
      "length (data @ rest) \<le> length (rReadPoint q)" "TLVReader_Next r = (CHIP_NO_ERROR, on_element et tag x (data @ rest) q)"
    have et: "TLVReader_ElementType (on_element et tag x (data @ rest) q) = et" "\<not> TLVTypeIsContainer et" "et \<noteq> 24" "et \<noteq> - 1"
      using value_code_type [OF *(1)] by (simp_all add: TLVTypeIsContainer_def)
    obtain q' where q': "TLVReader_SkipData (on_element et tag x (data @ rest) q) = (CHIP_NO_ERROR, q')" "reader_inv q'"
      "rReadPoint q' = rest" "rContainerType q' = rContainerType q" "rImplicitProfileId q' = rImplicitProfileId q" "rMaxLen q' = rMaxLen q"
      using SkipData_leaf [OF *(2,1) \<open>value_ok v\<close> *(5), of tag] .
    show thesis
      by (rule that [OF *(6) et(1,3,4), where q' = "TLVReader_ClearElementState q'"])
        (use * et q' Single in \<open>simp_all add: leaf_code_def TLVReader_Skip_def reader_inv_on_element\<close>)
  qed
next
  case (Whole ty es)
  then have "before p ct (elem_head p ty tag 0 @ encode p es @ rest) r" and ty: "TLVTypeIsContainer ty" "contents ty [] es"
    using assms(1,4) by simp_all
  from Next_open [OF this(1) assms(2,3) ty(1)] obtain q where
    q: "reader_inv q" "rImplicitProfileId q = p" "rContainerType q = ct" "length (encode p es @ rest) \<le> length (rReadPoint q)"
    "TLVReader_Next r = (CHIP_NO_ERROR, on_element ty tag 0 (encode p es @ rest) q)" .
  obtain q' where q': "TLVReader_Skip (on_element ty tag 0 (encode p es @ rest) q) = (CHIP_NO_ERROR, q')" "reader_inv q'"
    "rReadPoint q' = rest" "rContainerType q' = rContainerType q" "rImplicitProfileId q' = p" "rMaxLen q' = rMaxLen q" "rControlByte q' = 0xFFFF"
    using Skip_container [OF ty(2,1) q(1,4,2), of tag] .
  show thesis
    by (rule that [OF q(5) _ _ _ _ _ q'(1)])
      (use q q' Whole container_head [OF ty(1)] in \<open>simp_all add: reader_inv_on_element\<close>)
qed

lemma CopyElement_ok:
  assumes "before p ct (encode p (element_events tag e) @ rest) r" "tag_allowed ct tag" "api_tag tag" "element_ok e"
    and "room d w" "wImplicitProfileId w = p" "tag_allowed (wContainerType w) tag'"
    and "wLenWritten w + length (encode p (element_events tag' e)) \<le> wMaxLen w"
  obtains r1 r2 where "TLVReader_Next r = (CHIP_NO_ERROR, r1)" "rElemTag r1 = tag"
    "TLVWriter_CopyElement tag' r1 w = (CHIP_NO_ERROR, written (encode p (element_events tag' e)) w, r2)"
    "before p ct rest r2"
proof (rule Next_element [OF assms(1-4)])
  fix q et x body q'
  let ?r = "on_element et tag x (body @ rest) q" and ?h = "elem_head p et tag' x"
  assume *: "TLVReader_Next r = (CHIP_NO_ERROR, ?r)" "TLVReader_ElementType ?r = et" "et \<noteq> ET_EndOfContainer" "et \<noteq> ET_NotSpecified"
    "\<And>tag'. encode p (element_events tag' e) = elem_head p et tag' x @ body" "reader_inv ?r"
    "TLVReader_Skip ?r = (CHIP_NO_ERROR, q')" "reader_inv q'" "rReadPoint q' = rest"
    "rContainerType q' = ct" "rImplicitProfileId q' = p" "rMaxLen q' = rMaxLen q" "rControlByte q' = 0xFFFF"
  have len: "sub32 (rLenRead q') (rLenRead ?r) = length body"
  proof -
    have "rLenRead q' = rMaxLen q - length rest" "length (body @ rest) \<le> rMaxLen q" "rMaxLen q \<le> UINT32_MAX"
      using *(6,8,9,12) by (auto simp: reader_inv_def)
    then show ?thesis
      by (simp add: sub32_le)
  qed
  have "TLVFieldSizeToBytes (GetTLVFieldSize et) \<le> 8"
    by (rule field_bytes_le)
  then have head: "elem_head p et tag' (rElemLenOrVal ?r) = ?h"
    by (simp add: elem_head_def EndianPut_field)
  have fits: "wLenWritten w + length ?h + length body \<le> wMaxLen w" "wLenWritten w + length ?h \<le> UINT32_MAX"
    using assms(5,8) *(5) by (simp_all add: room_def)
  have wh: "TLVWriter_WriteElementHead et tag' (rElemLenOrVal ?r) w = (CHIP_NO_ERROR, written ?h w)" "room d (written ?h w)"
  proof -
    have "TLVWriter_WriteElementHead et tag' (rElemLenOrVal ?r) w = TLVWriter_WriteData ?h w"
      using assms(5-7) head by (simp add: TLVWriter_WriteElementHead_def head_tag_eq room_def elem_head_def)
    then show "TLVWriter_WriteElementHead et tag' (rElemLenOrVal ?r) w = (CHIP_NO_ERROR, written ?h w)" "room d (written ?h w)"
      using room_WriteData [OF assms(5), of ?h] elem_head_length [of p et tag' x] fits by auto
  qed
  have "copy_chunks (length body) ?r (written ?h w) = (CHIP_NO_ERROR, written (take (length body) (rReadPoint ?r)) (written ?h w))"
    using wh(2) fits *(6) by (intro copy_chunks_ok) (simp_all add: u32_id)
  then have "TLVWriter_CopyElement tag' ?r w = (CHIP_NO_ERROR, written (encode p (element_events tag' e)) w, q')"
    using *(2-5,7) len wh(1) assms(5)
    by (simp add: TLVWriter_CopyElement_def written_append room_def del: on_element_simps(3,6))
  moreover have "before p ct rest q'"
    using *(8-11,13) by (intro before_cleared)
  ultimately show thesis
    using that *(1) by simp
qed

end
