(* ===== verification/TlvSafety.thy ===== *)
theory TlvSafety
  imports TlvReader
begin

text \<open>
  The reader on arbitrary bytes: in every state that its operations reach, container readers included, the
  unread bytes are the rest of the buffer it was given behind the bytes it has counted as read.
\<close>

definition reads_from :: "byte list \<Rightarrow> tlv_reader \<Rightarrow> bool" where
  "reads_from data r \<longleftrightarrow> rReadPoint r = drop (rLenRead r) data \<and> rLenRead r \<le> length data \<and> rMaxLen r = length data \<and>
     length data \<le> UINT32_MAX"

lemma reads_from_inv: "reads_from data r \<Longrightarrow> reader_inv r"
  by (simp add: reads_from_def reader_inv_def)

lemma reads_from_Init: "reads_from (take UINT32_MAX data) (TLVReader_Init data)"
  by (simp add: reads_from_def TLVReader_Init_def)

lemma reads_from_fields [simp]:
  "reads_from data (r\<lparr>rContainerType := ct\<rparr>) = reads_from data r" "reads_from data (r\<lparr>rContainerOpen := b\<rparr>) = reads_from data r"
  "reads_from data (r\<lparr>rControlByte := c\<rparr>) = reads_from data r" "reads_from data (r\<lparr>rElemTag := t\<rparr>) = reads_from data r"
  "reads_from data (TLVReader_ClearElementState r) = reads_from data r" "reads_from data (r\<lparr>rElemLenOrVal := v\<rparr>) = reads_from data r"
  "reads_from data (r\<lparr>rImplicitProfileId := p\<rparr>) = reads_from data r"
  by (simp_all add: reads_from_def)

lemma reads_from_ReadData:
  assumes "reads_from data r" "TLVReader_ReadData len r = (err, bs, r')"
  shows "reads_from data r'"
proof (cases "len \<le> length (rReadPoint r)")
  case True
  then show ?thesis
    using assms ReadData_within [of len r] by (auto simp: reads_from_def u32_id add.commute)
next
  case False
  then show ?thesis
    using assms ReadData_underrun [of r len] by (auto simp: reads_from_def u32_id)
qed

lemma reads_from_SkipData:
  "reads_from data r \<Longrightarrow> TLVReader_SkipData r = (err, r') \<Longrightarrow> reads_from data r'"
  by (auto simp: TLVReader_SkipData_def split: if_splits prod.splits dest: reads_from_ReadData)

lemma reads_from_ReadElement:
  "reads_from data r \<Longrightarrow> TLVReader_ReadElement r = (err, r') \<Longrightarrow> reads_from data r'"
  by (auto simp: TLVReader_ReadElement_def Let_def split: if_splits prod.splits dest!: reads_from_ReadData [rotated])

lemma reads_from_SkipToEnd:
  "reads_from data r \<Longrightarrow> SkipToEnd_loop outer n r = (err, r') \<Longrightarrow> reads_from data r'"
  by (erule SkipToEnd_induct)
    (auto simp: SkipToEnd_round_def Let_def split: if_splits prod.splits
      dest!: reads_from_SkipData [rotated] reads_from_ReadElement [rotated])

lemma reads_from_SkipToEndOfContainer:
  "reads_from data r \<Longrightarrow> TLVReader_SkipToEndOfContainer r = (err, r') \<Longrightarrow> reads_from data r'"
  unfolding TLVReader_SkipToEndOfContainer_def by (erule reads_from_SkipToEnd [rotated]) simp

lemma reads_from_Enter:
  "reads_from data r \<Longrightarrow> TLVReader_EnterContainer r = (err, ct, r') \<Longrightarrow> reads_from data r'"
  by (auto simp: TLVReader_EnterContainer_def Let_def split: if_splits)

lemma reads_from_Exit:
  "reads_from data r \<Longrightarrow> TLVReader_ExitContainer ct r = (err, r') \<Longrightarrow> reads_from data r'"
  by (auto simp: TLVReader_ExitContainer_def split: if_splits prod.splits dest!: reads_from_SkipToEndOfContainer [rotated])

lemma reads_from_Skip:
  "reads_from data r \<Longrightarrow> TLVReader_Skip r = (err, r') \<Longrightarrow> reads_from data r'"
  by (auto simp: TLVReader_Skip_def Let_def split: if_splits prod.splits
      dest!: reads_from_Exit [rotated] reads_from_Enter [rotated] reads_from_SkipData [rotated])

lemma reads_from_Next:
  "reads_from data r \<Longrightarrow> TLVReader_Next r = (err, r') \<Longrightarrow> reads_from data r'"
  by (auto simp: TLVReader_Next_def Let_def split: if_splits prod.splits
      dest!: reads_from_Skip [rotated] reads_from_ReadElement [rotated])

text \<open>All operations that move a reader; the container reader of \<^verbatim>\<open>OpenContainer\<close> is a reader of its own.\<close>

inductive reader_run :: "byte list \<Rightarrow> tlv_reader \<Rightarrow> bool" for data where
  Init: "reader_run data (TLVReader_Init data)"
| implicit: "reader_run data r \<Longrightarrow> reader_run data (r\<lparr>rImplicitProfileId := p\<rparr>)"
| Next: "reader_run data r \<Longrightarrow> TLVReader_Next r = (err, r') \<Longrightarrow> reader_run data r'"
| Skip: "reader_run data r \<Longrightarrow> TLVReader_Skip r = (err, r') \<Longrightarrow> reader_run data r'"
| Enter: "reader_run data r \<Longrightarrow> TLVReader_EnterContainer r = (err, ct, r') \<Longrightarrow> reader_run data r'"
| Exit: "reader_run data r \<Longrightarrow> TLVReader_ExitContainer ct r = (err, r') \<Longrightarrow> reader_run data r'"
| GetBytes: "reader_run data r \<Longrightarrow> TLVReader_GetBytes n r = (err, bs, r') \<Longrightarrow> reader_run data r'"
| GetString: "reader_run data r \<Longrightarrow> TLVReader_GetString buf r = (err, buf', r') \<Longrightarrow> reader_run data r'"
| DupBytes: "reader_run data r \<Longrightarrow> TLVReader_DupBytes alloc r = (err, bs', r') \<Longrightarrow> reader_run data r'"
| DupString: "reader_run data r \<Longrightarrow> TLVReader_DupString alloc r = (err, bs', r') \<Longrightarrow> reader_run data r'"
| Open_outer: "reader_run data r \<Longrightarrow> TLVReader_OpenContainer r c = (err, r', c') \<Longrightarrow> reader_run data r'"
| Open_inner: "reader_run data r \<Longrightarrow> TLVReader_OpenContainer r c = (CHIP_NO_ERROR, r', c') \<Longrightarrow> reader_run data c'"
| Close: "reader_run data r \<Longrightarrow> reader_run data c \<Longrightarrow> TLVReader_CloseContainer r c = (err, r', c') \<Longrightarrow> reader_run data r'"

lemma reads_from_GetBytes:
  "reads_from data r \<Longrightarrow> TLVReader_GetBytes n r = (err, bs, r') \<Longrightarrow> reads_from data r'"
  by (auto simp: TLVReader_GetBytes_def split: if_splits prod.splits dest: reads_from_ReadData)

lemma reads_from_Dup:
  "reads_from data r \<Longrightarrow> TLVReader_DupBytes alloc r = (err, bs', r') \<Longrightarrow> reads_from data r'"
  "reads_from data r \<Longrightarrow> TLVReader_DupString alloc r = (err, bs', r') \<Longrightarrow> reads_from data r'"
  by (auto simp: TLVReader_DupBytes_def TLVReader_DupString_def split: if_splits prod.splits dest: reads_from_ReadData)

lemma reader_run_reads_from: "reader_run data r \<Longrightarrow> reads_from (take UINT32_MAX data) r"
proof (induction rule: reader_run.induct)
  case Init
  show ?case by (rule reads_from_Init)
next
  case (GetString r buf err buf' r')
  then show ?case
    by (auto simp: TLVReader_GetString_def Let_def split: if_splits prod.splits dest!: reads_from_GetBytes [rotated])
next
  case (Open_outer r c err r' c')
  then show ?case
    by (auto simp: TLVReader_OpenContainer_def Let_def split: if_splits)
next
  case (Open_inner r c r' c')
  then show ?case
    by (auto simp: TLVReader_OpenContainer_def Let_def reads_from_def split: if_splits)
next
  case (Close r c err r' c')
  then show ?case
    by (auto simp: TLVReader_CloseContainer_def reads_from_def split: if_splits prod.splits
        dest!: reads_from_SkipToEndOfContainer [rotated, where data = "take UINT32_MAX data"])
qed (auto intro: reads_from_Next reads_from_Skip reads_from_Enter reads_from_Exit reads_from_GetBytes reads_from_Dup)

end
