(* ===== verification/TlvQuery.thy ===== *)
theory TlvQuery
  imports TlvCopy TlvSafety
begin

text \<open>
  Queries on a container (\<^verbatim>\<open>CountRemainingInContainer\<close>, \<^verbatim>\<open>FindElementWithTag\<close>), the integer getters on what the
  integer setters wrote, and what a failed call leaves behind.
\<close>

subsection \<open>The elements of a container\<close>

definition elements_code :: "32 word \<Rightarrow> (Tag \<times> tlv_element) list \<Rightarrow> byte list" where
  "elements_code p es = encode p (concat (map (\<lambda>(tag, e). element_events tag e) es))"

definition elements_ok :: "TLVType \<Rightarrow> (Tag \<times> tlv_element) list \<Rightarrow> bool" where
  "elements_ok ct es \<longleftrightarrow> list_all (\<lambda>(tag, e). tag_allowed ct tag \<and> api_tag tag \<and> element_ok e) es"

lemma elements_code_simps [simp]:
  "elements_code p [] = []"
  "elements_code p ((tag, e) # es) = encode p (element_events tag e) @ elements_code p es"
  by (simp_all add: elements_code_def encode_def)

lemma elements_ok_simps [simp]:
  "elements_ok ct []"
  "elements_ok ct ((tag, e) # es) \<longleftrightarrow> tag_allowed ct tag \<and> api_tag tag \<and> element_ok e \<and> elements_ok ct es"
  by (auto simp: elements_ok_def)

lemma ElementType_range: "TLVReader_ElementType r = - 1 \<or> 0 \<le> TLVReader_ElementType r"
  by (simp add: TLVReader_ElementType_def)

lemma Next_over_element:
  assumes "before p ct (encode p (element_events tag e) @ rest) r" "tag_allowed ct tag" "api_tag tag" "element_ok e"
  obtains r' where "TLVReader_Next r = (CHIP_NO_ERROR, r')" "rElemTag r' = tag" "TLVReader_GetType r' \<noteq> kTLVType_NotSpecified"
    "before p ct rest r'"
proof (rule Next_element [OF assms])
  fix q et x body q'
  let ?r = "on_element et tag x (body @ rest) q"
  assume *: "TLVReader_Next r = (CHIP_NO_ERROR, ?r)" "TLVReader_ElementType ?r = et" "et \<noteq> ET_EndOfContainer" "et \<noteq> ET_NotSpecified"
    "TLVReader_Skip ?r = (CHIP_NO_ERROR, q')" "reader_inv q'" "rReadPoint q' = rest"
    "rContainerType q' = ct" "rImplicitProfileId q' = p"
  have "0 \<le> et"
    using *(2,4) ElementType_range [of ?r] by auto
  then have "0 \<le> et - et mod 4"
    by (simp add: minus_mod_eq_mult_div)
  then have "TLVReader_GetType ?r \<noteq> - 1"
    using *(2-4) \<open>0 \<le> et\<close> by (auto simp: TLVReader_GetType_def)
  then show thesis
    using that [OF *(1)] *(5-9) by (auto simp: before_def)
qed

lemma count_elements_ok:
  assumes "elements_ok ct es" "before p ct (elements_code p es @ bs) r" "bs = [] \<or> bs = 0x18 # rest \<and> TLVTypeIsContainer ct"
  shows "count_elements r = (CHIP_END_OF_TLV, length es)"
  using assms(1,2)
proof (induction es arbitrary: r)
  case Nil
  then have "\<exists>r'. TLVReader_Next r = (CHIP_END_OF_TLV, r')"
    using assms(3) Next_end [of p ct r] Next_close [of p ct rest r ct] by (metis append_Nil elements_code_simps(1))
  then show ?case
    by (auto simp: count_elements.simps [of r])
next
  case (Cons x es)
  obtain tag e where x: "x = (tag, e)"
    by force
  then have "before p ct (encode p (element_events tag e) @ elements_code p es @ bs) r" "tag_allowed ct tag" "api_tag tag" "element_ok e"
    "elements_ok ct es"
    using Cons.prems by simp_all
  then show ?case
    by (elim Next_over_element) (use Cons.IH in \<open>auto simp: count_elements.simps [of r]\<close>)
qed

lemma FindElementWithTag_ok:
  assumes "elements_ok ct es" "before p ct (elements_code p es @ bs) r" "bs = [] \<or> bs = 0x18 # rest \<and> TLVTypeIsContainer ct"
  shows "if tag \<in> fst ` set es
    then \<exists>r'. TLVReader_FindElementWithTag tag r = (CHIP_NO_ERROR, Some r') \<and> rElemTag r' = tag \<and>
         before p ct (elements_code p (tl (dropWhile (\<lambda>x. fst x \<noteq> tag) es)) @ bs) r'
    else TLVReader_FindElementWithTag tag r = (CHIP_END_OF_TLV, None)"
  using assms(1,2)
proof (induction es arbitrary: r)
  case Nil
  then have "\<exists>r'. TLVReader_Next r = (CHIP_END_OF_TLV, r')"
    using assms(3) Next_end [of p ct r] Next_close [of p ct rest r ct] by (metis append_Nil elements_code_simps(1))
  then show ?case
    by (auto simp: TLVReader_FindElementWithTag.simps [of tag r])
next
  case (Cons x es)
  obtain tag' e where x: "x = (tag', e)"
    by force
  then have "before p ct (encode p (element_events tag' e) @ elements_code p es @ bs) r" "tag_allowed ct tag'" "api_tag tag'" "element_ok e"
    and es: "elements_ok ct es"
    using Cons.prems by simp_all
  from this(1-4) obtain r' where r': "TLVReader_Next r = (CHIP_NO_ERROR, r')" "rElemTag r' = tag'" "TLVReader_GetType r' \<noteq> kTLVType_NotSpecified"
    "before p ct (elements_code p es @ bs) r'"
    by (rule Next_over_element)
  then have "TLVReader_FindElementWithTag tag r =
      (if tag = tag' then (CHIP_NO_ERROR, Some r') else TLVReader_FindElementWithTag tag r')"
    by (simp add: TLVReader_FindElementWithTag.simps [of tag r])
  then show ?case
    using Cons.IH [OF es r'(4)] r' x by auto
qed

subsection \<open>Integers\<close>

lemma read_single:
  assumes "put_value validate tag v (TLVWriter_Init n) = (CHIP_NO_ERROR, w)" "api_tag tag"
  obtains q et x data where "value_code v = (et, x, data)"
    "TLVReader_Next (TLVReader_Init (wBuf w)) = (CHIP_NO_ERROR, on_element et tag x data q)"
proof -
  let ?p = "0xFFFFFFFF :: 32 word"
  have init: "wLenWritten (TLVWriter_Init n) \<le> UINT32_MAX" "wImplicitProfileId (TLVWriter_Init n) = ?p" "wBuf (TLVWriter_Init n) = []"
    "wRemainingLen (TLVWriter_Init n) \<le> UINT32_MAX" "wContainerType (TLVWriter_Init n) = - 1"
    by (simp_all add: TLVWriter_Init_def)
  note ok = put_value_ok [OF assms(1) init(1), unfolded init]
  have len: "length (leaf_code ?p tag v) \<le> UINT32_MAX"
    using ok(2) init(4) by linarith
  have "before ?p (- 1) (leaf_code ?p tag v @ []) (TLVReader_Init (wBuf w))"
    using ok(1) init(3) len by (intro before_cleared) (simp_all add: TLVReader_Init_def reader_inv_def)
  from Next_leaf [OF this ok(3) assms(2) ok(4)] show thesis
    using that by (metis append_Nil2)
qed

lemma Get_uint64_on_element:
  assumes "value_code (VUInt v) = (et, x, data)"
  shows "TLVReader_Get_uint64 (on_element et tag x data q) = (CHIP_NO_ERROR, Some (uint v))"
    and "TLVReader_Get_int64 (on_element et tag x data q) = (CHIP_ERROR_WRONG_TLV_TYPE, None)"
  using assms take_bit_small [of v]
  by (auto simp: TLVReader_Get_uint64_def TLVReader_Get_int64_def field_bytes field_value_bits split: if_splits)

lemma Get_int64_on_element:
  assumes "value_code (VInt v) = (et, x, data)"
  shows "TLVReader_Get_int64 (on_element et tag x data q) = (CHIP_NO_ERROR, Some (sint v))"
    and "TLVReader_Get_uint64 (on_element et tag x data q) = (CHIP_ERROR_WRONG_TLV_TYPE, None)"
proof -
  have "(ucast (take_bit 8 v) :: 8 word) = ucast v" "(ucast (take_bit 16 v) :: 16 word) = ucast v"
    "(ucast (take_bit 32 v) :: 32 word) = ucast v"
    by (rule bit_word_eqI; auto simp: bit_simps)+
  then show "TLVReader_Get_int64 (on_element et tag x data q) = (CHIP_NO_ERROR, Some (sint v))"
    and "TLVReader_Get_uint64 (on_element et tag x data q) = (CHIP_ERROR_WRONG_TLV_TYPE, None)"
    using assms sint_narrow [of v]
    by (auto simp: TLVReader_Get_uint64_def TLVReader_Get_int64_def field_bytes field_value_bits split: if_splits)
qed

definition fits :: "int \<Rightarrow> int \<Rightarrow> int \<Rightarrow> CHIP_ERROR \<times> int option" where
  "fits lo hi v = (if lo \<le> v \<and> v \<le> hi then (CHIP_NO_ERROR, Some v) else (CHIP_ERROR_INVALID_INTEGER_VALUE, None))"

lemma narrow_simps:
  "narrow lo hi (CHIP_NO_ERROR, Some v) = fits lo hi v"
  "lo \<le> 0 \<Longrightarrow> 0 \<le> hi \<Longrightarrow> narrow lo hi (err, None) = (err, Some 0)"
  by (simp_all add: narrow_def fits_def CanCastTo_def)

subsection \<open>Failed calls\<close>

text \<open>A call for a string or byte string that fails after its head has been written leaves the head behind.\<close>

lemma failed_put_value:
  assumes "room d w" "put_value validate tag v w = (err, w')" "err \<noteq> CHIP_NO_ERROR"
    and "value_code v = (et, x, data)" "length data \<le> 0x7FFFFFFF"
  shows "w' = w \<or>
    err = CHIP_ERROR_BUFFER_TOO_SMALL \<and> w' = written (elem_head (wImplicitProfileId w) et tag x) w \<and>
    wMaxLen w < wLenWritten w + length (leaf_code (wImplicitProfileId w) tag v) \<and> data \<noteq> []"
proof -
  have data: "w' = w \<or> err = CHIP_ERROR_BUFFER_TOO_SMALL \<and>
      w' = written (elem_head (wImplicitProfileId w) (ty OR len_field_size (length bs)) tag (of_nat (length bs))) w \<and>
      wMaxLen w < wLenWritten w + length (elem_head (wImplicitProfileId w) (ty OR len_field_size (length bs)) tag (of_nat (length bs))) + length bs \<and>
      bs \<noteq> []"
    if *: "TLVWriter_WriteElementWithData ty tag bs w = (err, w')" "length bs \<le> 0x7FFFFFFF" for ty bs
  proof (cases "TLVWriter_WriteElementHead (ty OR len_field_size (length bs)) tag (of_nat (length bs)) w")
    case (Pair e w1)
    let ?h = "elem_head (wImplicitProfileId w) (ty OR len_field_size (length bs)) tag (of_nat (length bs))"
    from room_WriteElementHead [OF assms(1) Pair] consider "e \<noteq> CHIP_NO_ERROR" "w1 = w"
      | "e = CHIP_NO_ERROR" "w1 = written ?h w" "room d w1"
      by blast
    then show ?thesis
    proof cases
      case 1
      then show ?thesis
        using *(1) Pair by (auto simp: TLVWriter_WriteElementWithData_def split: if_splits)
    next
      case 2
      have "u32 (wLenWritten w + length ?h) = wLenWritten w + length ?h"
        using assms(1) elem_head_length by (intro u32_id order_trans [OF add_mono [OF _ elem_head_length]]) (auto simp: room_def)
      then show ?thesis
        using *(1) 2 Pair room_WriteData [OF 2(3) *(2)] assms(3)
        by (auto simp: TLVWriter_WriteElementWithData_def room_def split: if_splits)
    qed
  qed
  consider (string) bs where "v = VString bs" | (bytes) bs where "v = VBytes bs"
    | (scalar) "\<And>bs. v \<noteq> VString bs" "\<And>bs. v \<noteq> VBytes bs"
    by blast
  then show ?thesis
  proof cases
    case string
    then show ?thesis
      using assms(2-5) data [of kTLVType_UTF8String bs]
      by (auto simp: put_value_def TLVWriter_PutString_CharSpan_def TLVWriter_PutString_def leaf_code_def len_field_size_or split: if_splits)
  next
    case bytes
    then show ?thesis
      using assms(2-5) data [of kTLVType_ByteString bs]
      by (auto simp: put_value_def TLVWriter_Put_ByteSpan_def TLVWriter_PutBytes_def leaf_code_def len_field_size_or split: if_splits)
  next
    case scalar
    have "TLVWriter_WriteElementHead (fst (value_code v)) tag (fst (snd (value_code v))) w = (err, w')"
      using assms(2) put_scalar(1) [OF scalar, of validate tag w] by simp
    from room_WriteElementHead [OF assms(1) this] show ?thesis
      using assms(3) by blast
  qed
qed

subsection \<open>Evaluation of concrete calls\<close>

lemmas tlv_tag_eval = AnonymousTag_def ContextTag_def CommonTag_def IsContextTag_def IsSpecialTag_def IsProfileTag_def
  tag_allowed_def tag_code_def api_tag_def

lemmas tlv_eval = TLVWriter_Init_def TLVWriter_StartContainer_def TLVWriter_EndContainer_def TLVWriter_WriteElementHead_def
  TLVTypeIsContainer_def reserve_end_def release_end_def head_tag_eq WriteData_eq written_def u32_def
  put_value_def TLVWriter_Put_uint64_def TLVWriter_Put_int64_def TLVWriter_PutNull_def TLVWriter_Put_ByteSpan_def
  TLVWriter_PutBytes_def TLVWriter_WriteElementWithData_def len_field_size_def
  TLVFieldSizeToBytes_def GetTLVFieldSize_def TLVTypeHasValue_def tlv_tag_eval

end
