(* ===== verification/TlvUpdater.thy ===== *)
theory TlvUpdater
  imports TlvQuery "HOL-Library.Monad_Syntax"
begin

text \<open>
  Editing a document in place (\<^verbatim>\<open>src/lib/core/TLVUpdater.cpp\<close>). The reader and the writer of the updater share one
  buffer: the memory \<open>uMem\<close>, with pointers as offsets into it. The reader takes its bytes from the memory at the time
  of a call (\<open>updater_reader\<close>) and the bytes a call of the writer appends are stored in the memory, so that a write over
  bytes that are still to be read would show. \<open>None\<close> stands for an access outside of the
  buffer and for \<^verbatim>\<open>VerifyOrDie\<close>.
\<close>

record tlv_updater =
  uMem :: "byte list"
  uReader :: tlv_reader
  uReadPoint :: nat
  uBufEnd :: nat
  uWriter :: tlv_writer
  uElementStartAddr :: nat

definition updater_reader :: "tlv_updater \<Rightarrow> tlv_reader" where
  "updater_reader u = (uReader u)\<lparr>rReadPoint := take (uBufEnd u - uReadPoint u) (drop (uReadPoint u) (uMem u))\<rparr>"

text \<open>
  A call of the reader. Behind the end of its buffer the comparison in \<^verbatim>\<open>EnsureData\<close> does not stop it, and it reads
  whatever is there.
\<close>

definition on_reader :: "(tlv_reader \<Rightarrow> CHIP_ERROR \<times> tlv_reader) \<Rightarrow> tlv_updater \<Rightarrow> (CHIP_ERROR \<times> tlv_updater) option" where
  "on_reader f u =
    (if uReadPoint u \<le> uBufEnd u \<and> uBufEnd u \<le> length (uMem u) then
       (case f (updater_reader u) of (err, r) \<Rightarrow>
          Some (err, u\<lparr>uReader := r, uReadPoint := uBufEnd u - length (rReadPoint r)\<rparr>))
     else None)"

text \<open>The writer after a call, and the bytes it added in the memory.\<close>

definition store_writer :: "tlv_writer \<Rightarrow> tlv_updater \<Rightarrow> tlv_updater" where
  "store_writer w u =
    (let n = length (wBuf (uWriter u))
     in u\<lparr>uWriter := w, uMem := list_write n (drop n (wBuf w)) (uMem u)\<rparr>)"

definition on_writer :: "(tlv_writer \<Rightarrow> CHIP_ERROR \<times> tlv_writer) \<Rightarrow> tlv_updater \<Rightarrow> (CHIP_ERROR \<times> tlv_updater) option" where
  "on_writer f u =
    (case f (uWriter u) of (err, w) \<Rightarrow> if length (wBuf w) \<le> length (uMem u) then Some (err, store_writer w u) else None)"

subsection \<open>The operations\<close>

text \<open>The buffer has \<open>length mem\<close> bytes; \<open>mem\<close> stands for \<^verbatim>\<open>buf\<close> with \<^verbatim>\<open>maxLen\<close> bytes.\<close>

definition TLVUpdater_Init :: "byte list option \<Rightarrow> nat \<Rightarrow> nat \<Rightarrow> CHIP_ERROR + tlv_updater" where
  "TLVUpdater_Init buf dataLen maxLen =
    (case buf of
       None \<Rightarrow> Inl CHIP_ERROR_INVALID_ARGUMENT
     | Some mem \<Rightarrow>
         if maxLen < dataLen then Inl CHIP_ERROR_BUFFER_TOO_SMALL
         else
           (let freeLen = maxLen - dataLen; mem = list_write freeLen (take dataLen mem) mem
            in Inr \<lparr>uMem = mem, uReader = TLVReader_Init (take dataLen (drop freeLen mem)), uReadPoint = freeLen, uBufEnd = maxLen,
                    uWriter = (TLVWriter_Init freeLen)\<lparr>wCloseContainerReserved := False\<rparr>, uElementStartAddr = freeLen\<rparr>))"

text \<open>
  The second form takes over a reader on the start of the buffer and the free bytes behind its data. The
  initialization cookie and \<^verbatim>\<open>mReservedSize\<close> of the writer are those of a new object.
\<close>

definition TLVUpdater_Init_reader :: "byte list \<Rightarrow> tlv_reader \<Rightarrow> nat \<Rightarrow> CHIP_ERROR + tlv_updater" where
  "TLVUpdater_Init_reader mem aReader freeLen =
    (case (if TLVReader_ElementType aReader \<noteq> ET_NotSpecified then TLVReader_GetElementHeadLength aReader
           else (CHIP_NO_ERROR, Some 0)) of
       (err, None) \<Rightarrow> Inl err
     | (err, Some elemHeadLen) \<Rightarrow>
         (let remainingDataLen = u32 (sub32 (rMaxLen aReader) (rLenRead aReader) + elemHeadLen);
              readDataLen = sub32 (rLenRead aReader) elemHeadLen;
              mem = list_write (readDataLen + freeLen) (take remainingDataLen (drop readDataLen mem)) mem
          in Inr \<lparr>uMem = mem,
                  uReader = (TLVReader_ClearElementState aReader)\<lparr>rLenRead := readDataLen, rContainerOpen := False\<rparr>,
                  uReadPoint = readDataLen + freeLen, uBufEnd = readDataLen + freeLen + remainingDataLen,
                  uWriter = (TLVWriter_Init 0)\<lparr>wBuf := take readDataLen mem, wRemainingLen := freeLen, wLenWritten := readDataLen,
                    wMaxLen := u32 (readDataLen + freeLen), wContainerType := rContainerType aReader,
                    wCloseContainerReserved := False, wImplicitProfileId := rImplicitProfileId aReader\<rparr>,
                  uElementStartAddr = readDataLen + freeLen\<rparr>))"

definition TLVUpdater_SetImplicitProfileId :: "32 word \<Rightarrow> tlv_updater \<Rightarrow> tlv_updater" where
  "TLVUpdater_SetImplicitProfileId profileId u =
     u\<lparr>uReader := (uReader u)\<lparr>rImplicitProfileId := profileId\<rparr>, uWriter := (uWriter u)\<lparr>wImplicitProfileId := profileId\<rparr>\<rparr>"

definition adjust_space :: "tlv_updater \<Rightarrow> tlv_updater" where
  "adjust_space u =
    (let nextElementStart = uReadPoint u
     in if nextElementStart \<noteq> uElementStartAddr u then
          (let spaceIncrease = nextElementStart - uElementStartAddr u; w = uWriter u
           in u\<lparr>uWriter := w\<lparr>wRemainingLen := u32 (wRemainingLen w + spaceIncrease), wMaxLen := u32 (wMaxLen w + spaceIncrease)\<rparr>,
                uElementStartAddr := nextElementStart\<rparr>)
        else u)"

definition TLVUpdater_AdjustInternalWriterFreeSpace :: "tlv_updater \<Rightarrow> tlv_updater option" where
  "TLVUpdater_AdjustInternalWriterFreeSpace u = (if \<not> wInitialized (uWriter u) then None else Some (adjust_space u))"

definition TLVUpdater_Next :: "tlv_updater \<Rightarrow> (CHIP_ERROR \<times> tlv_updater) option" where
  "TLVUpdater_Next u =
    do {
      (err, u) \<leftarrow> on_reader TLVReader_Skip u;
      if err \<noteq> CHIP_NO_ERROR then Some (err, u)
      else do {
        u \<leftarrow> TLVUpdater_AdjustInternalWriterFreeSpace u;
        on_reader TLVReader_Next u
      }
    }"

text \<open>The bytes from \<^verbatim>\<open>mElementStartAddr\<close> on are moved to the write point (\<^verbatim>\<open>memmove\<close>).\<close>

definition move_bytes :: "nat \<Rightarrow> tlv_updater \<Rightarrow> tlv_updater" where
  "move_bytes copyLen u =
    (let w = uWriter u; bs = take copyLen (drop (uElementStartAddr u) (uMem u))
     in u\<lparr>uMem := list_write (length (wBuf w)) bs (uMem u), uElementStartAddr := uElementStartAddr u + copyLen,
          uWriter := w\<lparr>wBuf := wBuf w @ bs, wLenWritten := u32 (wLenWritten w + copyLen), wMaxLen := u32 (wMaxLen w + copyLen)\<rparr>\<rparr>)"

definition TLVUpdater_Move :: "tlv_updater \<Rightarrow> (CHIP_ERROR \<times> tlv_updater) option" where
  "TLVUpdater_Move u =
    (if \<not> wInitialized (uWriter u) then Some (CHIP_ERROR_INCORRECT_STATE, u)
     else if rControlByte (uReader u) AND 0x1F = 0x18 then Some (CHIP_END_OF_TLV, u)
     else if TLVReader_GetType (uReader u) = kTLVType_NotSpecified then Some (CHIP_ERROR_INVALID_TLV_ELEMENT, u)
     else
       do {
         (err, u) \<leftarrow> on_reader TLVReader_Skip u;
         Some (if err \<noteq> CHIP_NO_ERROR then (err, u)
               else (CHIP_NO_ERROR, move_bytes (uReadPoint u - uElementStartAddr u) u))
       })"

definition TLVUpdater_MoveUntilEnd :: "tlv_updater \<Rightarrow> tlv_updater option" where
  "TLVUpdater_MoveUntilEnd u =
    (if \<not> wInitialized (uWriter u) then None
     else
       (let buffEnd = uReadPoint u + sub32 (rMaxLen (uReader u)) (rLenRead (uReader u));
            copyLen = buffEnd - uElementStartAddr u;
            u = move_bytes copyLen u; w = uWriter u; r = uReader u
        in Some (u\<lparr>uWriter := w\<lparr>wContainerType := kTLVType_NotSpecified, wContainerOpen := False, wCloseContainerReserved := False\<rparr>,
             uReadPoint := uReadPoint u + copyLen,
             uReader := (TLVReader_ClearElementState r)\<lparr>rLenRead := u32 (rLenRead r + copyLen),
               rContainerType := kTLVType_NotSpecified, rContainerOpen := False\<rparr>\<rparr>)))"

definition TLVUpdater_EnterContainer :: "tlv_updater \<Rightarrow> (CHIP_ERROR \<times> TLVType option \<times> tlv_updater) option" where
  "TLVUpdater_EnterContainer u =
    (if \<not> wInitialized (uWriter u) then Some (CHIP_ERROR_INCORRECT_STATE, None, u)
     else if \<not> TLVTypeIsContainer (int (unat (rControlByte (uReader u) AND 0x1F))) then Some (CHIP_ERROR_INCORRECT_STATE, None, u)
     else
       do {
         u \<leftarrow> TLVUpdater_AdjustInternalWriterFreeSpace u;
         case TLVWriter_StartContainer (rElemTag (uReader u)) (TLVReader_GetType (uReader u)) (uWriter u) of (err, ct, w) \<Rightarrow>
           if length (uMem u) < length (wBuf w) then None
           else
             (let u = store_writer w u
              in if err \<noteq> CHIP_NO_ERROR then Some (err, None, u)
                 else
                   (case TLVReader_EnterContainer (uReader u) of (err, containerType, r) \<Rightarrow>
                      Some (err, if err \<noteq> CHIP_NO_ERROR then None else Some containerType, u\<lparr>uReader := r\<rparr>)))
       })"

definition TLVUpdater_ExitContainer :: "TLVType \<Rightarrow> tlv_updater \<Rightarrow> (CHIP_ERROR \<times> tlv_updater) option" where
  "TLVUpdater_ExitContainer outerContainerType u =
    do {
      (err, u) \<leftarrow> on_reader (TLVReader_ExitContainer outerContainerType) u;
      if err \<noteq> CHIP_NO_ERROR then Some (err, u)
      else do {
        u \<leftarrow> TLVUpdater_AdjustInternalWriterFreeSpace u;
        on_writer (TLVWriter_EndContainer outerContainerType) u
      }
    }"


subsection \<open>Operations of the parts\<close>

text \<open>Methods of the reader only move forward over its buffer.\<close>

definition reader_op :: "(tlv_reader \<Rightarrow> CHIP_ERROR \<times> tlv_reader) \<Rightarrow> bool" where
  "reader_op f \<longleftrightarrow> (\<forall>data r err r'. reads_from data r \<longrightarrow> f r = (err, r') \<longrightarrow>
     reads_from data r' \<and> length (rReadPoint r') \<le> length (rReadPoint r))"

lemma reader_op_methods:
  "reader_op TLVReader_Skip" "reader_op TLVReader_Next" "reader_op (TLVReader_ExitContainer ct)"
  by (auto simp: reader_op_def intro: reads_from_Skip Skip_length reads_from_Next Next_length(1) reads_from_Exit ExitContainer_length)

text \<open>A writer whose free space is exactly what it may still write; its methods only append.\<close>

definition free_writer :: "tlv_writer \<Rightarrow> bool" where
  "free_writer w \<longleftrightarrow> wInitialized w \<and> \<not> wContainerOpen w \<and> \<not> wCloseContainerReserved w \<and>
     wMaxLen w = wLenWritten w + wRemainingLen w \<and> wMaxLen w \<le> 0x7FFFFFFF"

definition grows :: "tlv_writer \<Rightarrow> tlv_writer \<Rightarrow> bool" where
  "grows w w' \<longleftrightarrow> free_writer w' \<and> wMaxLen w' = wMaxLen w \<and> wImplicitProfileId w' = wImplicitProfileId w \<and>
     (\<exists>bs. wBuf w' = wBuf w @ bs \<and> wLenWritten w' = wLenWritten w + length bs)"

definition writer_op :: "(tlv_writer \<Rightarrow> CHIP_ERROR \<times> tlv_writer) \<Rightarrow> bool" where
  "writer_op f \<longleftrightarrow> (\<forall>w err w'. free_writer w \<longrightarrow> f w = (err, w') \<longrightarrow> grows w w')"

lemma grows_refl: "free_writer w \<Longrightarrow> grows w w"
  by (simp add: grows_def)

lemma grows_trans: "grows w w' \<Longrightarrow> grows w' w'' \<Longrightarrow> grows w w''"
  by (auto simp: grows_def)

lemma grows_free: "grows w w' \<Longrightarrow> free_writer w'"
  by (simp add: grows_def)

lemma free_WriteData:
  assumes "free_writer w" "length p \<le> 0x7FFFFFFF"
  shows "TLVWriter_WriteData p w =
    (if wMaxLen w < wLenWritten w + length p then (CHIP_ERROR_BUFFER_TOO_SMALL, w) else (CHIP_NO_ERROR, written p w))"
proof -
  have "u32 (wLenWritten w + length p) = wLenWritten w + length p"
    using assms by (intro u32_id) (simp add: free_writer_def)
  then show ?thesis
    using assms by (auto simp: free_writer_def WriteData_eq)
qed

lemma grows_written: "free_writer w \<Longrightarrow> wLenWritten w + length p \<le> wMaxLen w \<Longrightarrow> grows w (written p w)"
  by (auto simp: grows_def free_writer_def u32_id)

lemma grows_WriteData: "free_writer w \<Longrightarrow> length p \<le> 0x7FFFFFFF \<Longrightarrow> TLVWriter_WriteData p w = (err, w') \<Longrightarrow> grows w w'"
  by (auto simp: free_WriteData grows_refl grows_written split: if_splits)

lemma free_WriteElementHead:
  assumes "free_writer w"
  shows "TLVWriter_WriteElementHead et tag v w =
    (if \<not> (tag_allowed (wContainerType w) tag \<or> et = ET_EndOfContainer \<and> IsSpecialTag tag \<and> \<not> IsContextTag tag)
     then (CHIP_ERROR_INVALID_TLV_TAG, w)
     else TLVWriter_WriteData (elem_head (wImplicitProfileId w) et tag v) w)"
  using assms by (simp add: TLVWriter_WriteElementHead_def head_tag_eq free_writer_def elem_head_def)

lemma head_small: "length (elem_head p et tag v) \<le> 0x7FFFFFFF"
  using elem_head_length [of p et tag v] by simp

lemma grows_WriteElementHead:
  "free_writer w \<Longrightarrow> TLVWriter_WriteElementHead et tag v w = (err, w') \<Longrightarrow> grows w w'"
  using grows_WriteData [OF _ head_small] by (auto simp: free_WriteElementHead grows_refl split: if_splits)

lemma grows_WriteElementWithData:
  assumes "free_writer w" "length data \<le> 0x7FFFFFFF" "TLVWriter_WriteElementWithData ty tag data w = (err, w')"
  shows "grows w w'"
proof (cases "TLVWriter_WriteElementHead (ty OR len_field_size (length data)) tag (of_nat (length data)) w")
  case (Pair e w1)
  then have "grows w w1"
    using assms(1) grows_WriteElementHead by blast
  moreover have "grows w1 w2" if "TLVWriter_WriteData data w1 = (e2, w2)" for e2 w2
    using grows_WriteData [OF grows_free [OF \<open>grows w w1\<close>] assms(2) that] .
  ultimately show ?thesis
    using assms(1,3) Pair by (auto simp: TLVWriter_WriteElementWithData_def grows_refl split: if_splits intro: grows_trans)
qed

lemma writer_op_put_value:
  assumes "length (snd (snd (value_code v))) \<le> 0x7FFFFFFF"
  shows "writer_op (put_value validate tag v)"
  unfolding writer_op_def
proof (intro allI impI)
  fix w err w'
  assume w: "free_writer w" "put_value validate tag v w = (err, w')"
  consider (string) bs where "v = VString bs" | (bytes) bs where "v = VBytes bs"
    | (scalar) "\<And>bs. v \<noteq> VString bs" "\<And>bs. v \<noteq> VBytes bs"
    by blast
  then show "grows w w'"
  proof cases
    case string
    then show ?thesis
      using w assms grows_WriteElementWithData [OF w(1), of bs kTLVType_UTF8String tag err w'] grows_refl [OF w(1)]
      by (simp add: put_value_def TLVWriter_PutString_CharSpan_def TLVWriter_PutString_def split: if_split_asm)
  next
    case bytes
    then show ?thesis
      using w assms grows_WriteElementWithData [OF w(1), of bs kTLVType_ByteString tag err w'] grows_refl [OF w(1)]
      by (simp add: put_value_def TLVWriter_Put_ByteSpan_def TLVWriter_PutBytes_def split: if_split_asm)
  next
    case scalar
    then show ?thesis
      using w grows_WriteElementHead [OF w(1)] put_scalar(1) [OF scalar, of validate tag w] by metis
  qed
qed

lemma free_container_type: "free_writer w \<Longrightarrow> free_writer (w\<lparr>wContainerType := ct\<rparr>)"
  by (simp add: free_writer_def)

lemma grows_StartContainer:
  assumes "free_writer w" "TLVWriter_StartContainer tag ty w = (err, ct, w')"
  shows "grows w w'"
proof -
  have r: "reserve_end w = w" "\<And>w'. grows w w' \<Longrightarrow> release_end w' = w'"
    using assms(1) by (auto simp: free_writer_def reserve_end_def release_end_def grows_def)
  obtain e w1 where h: "TLVWriter_WriteElementHead ty tag 0 w = (e, w1)"
    by fastforce
  then have "grows w w1"
    using assms(1) grows_WriteElementHead by blast
  then show ?thesis
    using assms h r by (auto simp: TLVWriter_StartContainer_def grows_def free_writer_def split: if_splits)
qed

lemma writer_op_EndContainer: "writer_op (TLVWriter_EndContainer ct)"
  unfolding writer_op_def
proof (intro allI impI)
  fix w err w'
  assume w: "free_writer w" "TLVWriter_EndContainer ct w = (err, w')"
  have "release_end (w\<lparr>wContainerType := ct\<rparr>) = w\<lparr>wContainerType := ct\<rparr>"
    using w(1) by (simp add: release_end_def free_writer_def)
  then show "grows w w'"
    using w grows_WriteElementHead [OF free_container_type [OF w(1)], of ET_EndOfContainer AnonymousTag 0 ct err w'] grows_refl [OF w(1)]
    by (auto simp: TLVWriter_EndContainer_def grows_def split: if_splits)
qed

text \<open>The methods that read strings, and the start of a container; their other results are left out.\<close>

lemma ReadData_shorter: "reads_from data r \<Longrightarrow> TLVReader_ReadData n r = (err, bs, r') \<Longrightarrow> length (rReadPoint r') \<le> length (rReadPoint r)"
  using ReadData_within [of n r] ReadData_underrun [of r n] reads_from_inv [of data r]
  by (cases "n \<le> length (rReadPoint r)") (auto simp: reader_inv_def)

lemma GetBytes_shorter: "reads_from data r \<Longrightarrow> TLVReader_GetBytes n r = (err, bs, r') \<Longrightarrow> length (rReadPoint r') \<le> length (rReadPoint r)"
  by (auto simp: TLVReader_GetBytes_def split: if_splits prod.splits dest: ReadData_shorter)

lemma reader_op_strings:
  "reader_op (\<lambda>r. case TLVReader_GetBytes n r of (err, bs, r) \<Rightarrow> (err, r))"
  "reader_op (\<lambda>r. case TLVReader_GetString buf r of (err, bs, r) \<Rightarrow> (err, r))"
  "reader_op (\<lambda>r. case TLVReader_DupBytes alloc r of (err, bs, r) \<Rightarrow> (err, r))"
  "reader_op (\<lambda>r. case TLVReader_DupString alloc r of (err, bs, r) \<Rightarrow> (err, r))"
proof -
  have s: "reads_from data r'" "length (rReadPoint r') \<le> length (rReadPoint r)" if "reads_from data r" "TLVReader_GetString buf r = (err, bs, r')" for data r err bs r'
    using that by (auto simp: TLVReader_GetString_def Let_def split: if_splits prod.splits dest: reads_from_GetBytes GetBytes_shorter)
  have d: "reads_from data r \<Longrightarrow> TLVReader_DupBytes alloc r = (err, bs, r') \<Longrightarrow> length (rReadPoint r') \<le> length (rReadPoint r)"
    "reads_from data r \<Longrightarrow> TLVReader_DupString alloc r = (err, bs, r') \<Longrightarrow> length (rReadPoint r') \<le> length (rReadPoint r)" for data r err bs r'
    by (auto simp: TLVReader_DupBytes_def TLVReader_DupString_def split: if_splits prod.splits dest: ReadData_shorter)
  show "reader_op (\<lambda>r. case TLVReader_GetBytes n r of (err, bs, r) \<Rightarrow> (err, r))"
    by (auto simp: reader_op_def split: prod.splits dest: reads_from_GetBytes GetBytes_shorter)
  show "reader_op (\<lambda>r. case TLVReader_GetString buf r of (err, bs, r) \<Rightarrow> (err, r))"
    by (auto simp: reader_op_def split: prod.splits dest: s)
  show "reader_op (\<lambda>r. case TLVReader_DupBytes alloc r of (err, bs, r) \<Rightarrow> (err, r))" "reader_op (\<lambda>r. case TLVReader_DupString alloc r of (err, bs, r) \<Rightarrow> (err, r))"
    by (auto simp: reader_op_def split: prod.splits dest: reads_from_Dup d)
qed

lemma writer_op_StartContainer: "writer_op (\<lambda>w. case TLVWriter_StartContainer tag ty w of (err, ct, w) \<Rightarrow> (err, w))"
  by (auto simp: writer_op_def split: prod.splits dest: grows_StartContainer)


subsection \<open>The invariant\<close>

text \<open>
  The output lies at the start of the memory, the free space of the writer ends where the current element starts, and
  the reader is behind that point.
\<close>

definition updater_inv :: "tlv_updater \<Rightarrow> bool" where
  "updater_inv u \<longleftrightarrow> free_writer (uWriter u) \<and> length (wBuf (uWriter u)) = wLenWritten (uWriter u) \<and>
     wMaxLen (uWriter u) = uElementStartAddr u \<and> uElementStartAddr u \<le> uReadPoint u \<and> uReadPoint u \<le> uBufEnd u \<and>
     uBufEnd u \<le> length (uMem u) \<and> uBufEnd u \<le> 0x7FFFFFFF \<and> take (wLenWritten (uWriter u)) (uMem u) = wBuf (uWriter u) \<and>
     rLenRead (uReader u) + (uBufEnd u - uReadPoint u) = rMaxLen (uReader u) \<and> rMaxLen (uReader u) \<le> UINT32_MAX"

lemma updater_invD:
  assumes "updater_inv u"
  shows "wLenWritten (uWriter u) + wRemainingLen (uWriter u) = uElementStartAddr u" "uElementStartAddr u \<le> uReadPoint u"
    "uReadPoint u \<le> uBufEnd u" "uBufEnd u \<le> length (uMem u)" "uBufEnd u \<le> 0x7FFFFFFF"
    "length (wBuf (uWriter u)) = wLenWritten (uWriter u)" "take (wLenWritten (uWriter u)) (uMem u) = wBuf (uWriter u)"
    "free_writer (uWriter u)"
  using assms by (auto simp: updater_inv_def free_writer_def)

lemma updater_reader_simps [simp]:
  "rReadPoint (updater_reader u) = take (uBufEnd u - uReadPoint u) (drop (uReadPoint u) (uMem u))"
  "rLenRead (updater_reader u) = rLenRead (uReader u)" "rMaxLen (updater_reader u) = rMaxLen (uReader u)"
  "rContainerType (updater_reader u) = rContainerType (uReader u)" "rControlByte (updater_reader u) = rControlByte (uReader u)"
  "rElemTag (updater_reader u) = rElemTag (uReader u)" "rImplicitProfileId (updater_reader u) = rImplicitProfileId (uReader u)"
  "TLVReader_ElementType (updater_reader u) = TLVReader_ElementType (uReader u)"
  "TLVReader_GetType (updater_reader u) = TLVReader_GetType (uReader u)"
  by (simp_all add: updater_reader_def TLVReader_ElementType_def TLVReader_GetType_def)

lemma updater_reader_length: "updater_inv u \<Longrightarrow> length (rReadPoint (updater_reader u)) = uBufEnd u - uReadPoint u"
  by (auto simp: updater_inv_def)

lemma updater_inv_reads_from:
  assumes "updater_inv u"
  shows "reads_from (replicate (rLenRead (uReader u)) 0 @ rReadPoint (updater_reader u)) (updater_reader u)"
  using assms by (auto simp: updater_inv_def reads_from_def)

lemma reads_from_length: "reads_from data r \<Longrightarrow> rLenRead r + length (rReadPoint r) = length data"
  by (simp add: reads_from_def)

text \<open>The bytes from the current element on do not change, whatever is read and written.\<close>

definition same_input :: "tlv_updater \<Rightarrow> tlv_updater \<Rightarrow> bool" where
  "same_input u u' \<longleftrightarrow> length (uMem u') = length (uMem u) \<and> uBufEnd u' = uBufEnd u \<and> uElementStartAddr u \<le> uElementStartAddr u' \<and>
     drop (uElementStartAddr u') (uMem u') = drop (uElementStartAddr u') (uMem u)"

lemma same_input_refl: "same_input u u"
  by (simp add: same_input_def)

lemma same_input_trans:
  assumes "same_input u u'" "same_input u' u''"
  shows "same_input u u''"
proof -
  have le: "uElementStartAddr u' \<le> uElementStartAddr u''"
    and eq: "drop (uElementStartAddr u') (uMem u') = drop (uElementStartAddr u') (uMem u)"
    using assms by (simp_all add: same_input_def)
  have split: "drop (uElementStartAddr u'') xs = drop (uElementStartAddr u'' - uElementStartAddr u') (drop (uElementStartAddr u') xs)"
    for xs :: "byte list"
    using le by (simp add: drop_drop)
  have "drop (uElementStartAddr u'') (uMem u') = drop (uElementStartAddr u'') (uMem u)"
    unfolding split [of "uMem u'"] split [of "uMem u"] eq ..
  then show ?thesis
    using assms by (auto simp: same_input_def)
qed

lemma on_reader_ok:
  assumes "updater_inv u" "reader_op f" "f (updater_reader u) = (err, r)"
  obtains u' where "on_reader f u = Some (err, u')" "updater_inv u'" "updater_reader u' = r" "same_input u u'"
    "uWriter u' = uWriter u" "uElementStartAddr u' = uElementStartAddr u" "uMem u' = uMem u"
    "uReadPoint u' = uBufEnd u - length (rReadPoint r)"
proof -
  let ?p = "updater_reader u" and ?data = "replicate (rLenRead (uReader u)) 0 @ rReadPoint (updater_reader u)"
  let ?u = "u\<lparr>uReader := r, uReadPoint := uBufEnd u - length (rReadPoint r)\<rparr>"
  have inv: "reads_from ?data ?p"
    using assms(1) by (rule updater_inv_reads_from)
  then have r: "reads_from ?data r" and le: "length (rReadPoint r) \<le> length (rReadPoint ?p)"
    using assms(2,3) unfolding reader_op_def by blast+
  have len: "length (rReadPoint ?p) = uBufEnd u - uReadPoint u" "length ?data = rMaxLen (uReader u)"
    using assms(1) by (auto simp: updater_inv_def)
  define k where "k = length (rReadPoint ?p) - length (rReadPoint r)"
  have "rLenRead r + length (rReadPoint r) = length ?data" "rLenRead (uReader u) + length (rReadPoint ?p) = length ?data"
    using reads_from_length [OF r] reads_from_length [OF inv] by simp_all
  then have lr: "rLenRead r = rLenRead (uReader u) + k"
    using le unfolding k_def by linarith
  then have rp: "rReadPoint r = drop k (rReadPoint ?p)" and mx: "rMaxLen r = rMaxLen (uReader u)"
    using r len by (simp_all add: reads_from_def)
  have k: "k \<le> uBufEnd u - uReadPoint u" "uBufEnd u - length (rReadPoint r) = uReadPoint u + k" "length (rReadPoint r) = uBufEnd u - uReadPoint u - k"
    using le len assms(1) by (auto simp: k_def updater_inv_def)
  have "updater_reader ?u = r"
    using rp k(2) by (simp add: updater_reader_def drop_take add.commute)
  moreover have "updater_inv ?u"
    using assms(1) lr mx k(1) unfolding updater_inv_def by (simp add: k(2)) arith
  moreover have "on_reader f u = Some (err, ?u)"
    using assms(1,3) by (simp add: on_reader_def updater_inv_def)
  ultimately show thesis
    using that [of ?u] by (simp add: same_input_def)
qed

lemma store_writer_ok:
  assumes "updater_inv u" "grows (uWriter u) w"
  shows "length (wBuf w) \<le> length (uMem u)" "updater_inv (store_writer w u)" "updater_reader (store_writer w u) = updater_reader u"
    "same_input u (store_writer w u)" "uElementStartAddr (store_writer w u) = uElementStartAddr u"
    "uWriter (store_writer w u) = w" "uReader (store_writer w u) = uReader u" "uReadPoint (store_writer w u) = uReadPoint u"
proof -
  obtain bs where w: "free_writer w" "wMaxLen w = uElementStartAddr u" "wBuf w = wBuf (uWriter u) @ bs"
    "wLenWritten w = wLenWritten (uWriter u) + length bs"
    using assms by (auto simp: grows_def updater_inv_def)
  let ?n = "length (wBuf (uWriter u))" and ?u = "store_writer w u"
  have u: "?n = wLenWritten (uWriter u)" "uElementStartAddr u \<le> uReadPoint u" "uReadPoint u \<le> length (uMem u)"
    "take ?n (uMem u) = wBuf (uWriter u)"
    using assms(1) by (auto simp: updater_inv_def)
  have fit: "?n + length bs \<le> uElementStartAddr u"
    using w u(1) by (simp add: free_writer_def)
  then show "length (wBuf w) \<le> length (uMem u)"
    using w u by simp
  have mem: "uMem ?u = list_write ?n bs (uMem u)"
    using w by (simp add: store_writer_def)
  have drop: "drop k (uMem ?u) = drop k (uMem u)" if "?n + length bs \<le> k" for k
    using that fit u by (simp add: mem list_write_def)
  have take: "take (?n + length bs) (uMem ?u) = wBuf w"
    using u fit w by (simp add: mem list_write_def)
  show r: "updater_reader ?u = updater_reader u"
    using drop [of "uReadPoint u"] fit u(2) by (simp add: updater_reader_def) (simp add: store_writer_def Let_def)
  show f: "uElementStartAddr ?u = uElementStartAddr u" "uWriter ?u = w" "uReader ?u = uReader u" "uReadPoint ?u = uReadPoint u"
    by (simp_all add: store_writer_def Let_def)
  have len: "length (uMem ?u) = length (uMem u)" "uBufEnd ?u = uBufEnd u"
    using fit u by (simp_all add: mem) (simp add: store_writer_def Let_def)
  show "same_input u ?u"
    using drop [OF fit] len f by (simp add: same_input_def)
  show "updater_inv ?u"
    using assms(1) w take f len u by (simp add: updater_inv_def)
qed

lemma on_writer_ok:
  assumes "updater_inv u" "writer_op f" "f (uWriter u) = (err, w)"
  shows "on_writer f u = Some (err, store_writer w u)" "grows (uWriter u) w"
proof -
  show g: "grows (uWriter u) w"
    using assms by (auto simp: writer_op_def updater_inv_def)
  show "on_writer f u = Some (err, store_writer w u)"
    using assms(3) store_writer_ok(1) [OF assms(1) g] by (simp add: on_writer_def)
qed

lemma Adjust_ok:
  assumes "updater_inv u"
  shows "updater_inv (adjust_space u)"
    "uElementStartAddr (adjust_space u) = uReadPoint u"
    "updater_reader (adjust_space u) = updater_reader u"
    "same_input u (adjust_space u)"
    "uReader (adjust_space u) = uReader u"
    "uReadPoint (adjust_space u) = uReadPoint u"
    "wBuf (uWriter (adjust_space u)) = wBuf (uWriter u)"
    "wContainerType (uWriter (adjust_space u)) = wContainerType (uWriter u)"
    "wImplicitProfileId (uWriter (adjust_space u)) = wImplicitProfileId (uWriter u)"
    "uMem (adjust_space u) = uMem u" "uBufEnd (adjust_space u) = uBufEnd u"
    "TLVUpdater_AdjustInternalWriterFreeSpace u = Some (adjust_space u)"
  using assms
  by (auto simp: TLVUpdater_AdjustInternalWriterFreeSpace_def adjust_space_def updater_inv_def free_writer_def updater_reader_def same_input_def u32_id Let_def)


subsection \<open>Moving elements\<close>

text \<open>\<^verbatim>\<open>move_bytes\<close> up to the read point keeps the invariant and appends the bytes of the input.\<close>

lemma move_bytes_ok:
  assumes "updater_inv u" and n: "n = uReadPoint u - uElementStartAddr u"
  shows "updater_inv (move_bytes n u)" "updater_reader (move_bytes n u) = updater_reader u" "same_input u (move_bytes n u)"
    "uElementStartAddr (move_bytes n u) = uReadPoint u"
    "wBuf (uWriter (move_bytes n u)) = wBuf (uWriter u) @ take n (drop (uElementStartAddr u) (uMem u))"
    "wContainerType (uWriter (move_bytes n u)) = wContainerType (uWriter u)"
    "wImplicitProfileId (uWriter (move_bytes n u)) = wImplicitProfileId (uWriter u)" "uReader (move_bytes n u) = uReader u"
    "uReadPoint (move_bytes n u) = uReadPoint u"
proof -
  let ?w = "uWriter u" and ?u = "move_bytes n u" and ?e = "uElementStartAddr u" and ?bs = "take n (drop (uElementStartAddr u) (uMem u))"
  have u: "length (wBuf ?w) = wLenWritten ?w" "wLenWritten ?w + wRemainingLen ?w = ?e" "wMaxLen ?w = ?e" "?e + n = uReadPoint u"
    "uReadPoint u \<le> length (uMem u)" "uReadPoint u \<le> 0x7FFFFFFF" "take (wLenWritten ?w) (uMem u) = wBuf ?w"
    using assms by (auto simp: updater_inv_def free_writer_def)
  have bs: "length ?bs = n"
    using u by simp
  have mem: "uMem ?u = list_write (wLenWritten ?w) ?bs (uMem u)"
    using u by (simp add: move_bytes_def Let_def)
  have len: "length (uMem ?u) = length (uMem u)"
    using u bs by (simp add: mem)
  have drop: "drop k (uMem ?u) = drop k (uMem u)" if "wLenWritten ?w + n \<le> k" for k
    using that u bs by (simp add: mem list_write_def)
  have tk: "take (wLenWritten ?w + n) (uMem ?u) = wBuf ?w @ ?bs"
    using u bs by (simp add: mem list_write_def)
  show f: "uElementStartAddr ?u = uReadPoint u" "wBuf (uWriter ?u) = wBuf ?w @ ?bs" "wContainerType (uWriter ?u) = wContainerType ?w"
    "wImplicitProfileId (uWriter ?u) = wImplicitProfileId ?w" "uReader ?u = uReader u" "uReadPoint ?u = uReadPoint u"
    using u by (simp_all add: move_bytes_def Let_def)
  have w: "wLenWritten (uWriter ?u) = wLenWritten ?w + n" "wMaxLen (uWriter ?u) = uReadPoint u"
    using u by (simp_all add: move_bytes_def Let_def u32_id)
  have w': "wRemainingLen (uWriter ?u) = wRemainingLen ?w" "wInitialized (uWriter ?u) = wInitialized ?w"
    "wContainerOpen (uWriter ?u) = wContainerOpen ?w" "wCloseContainerReserved (uWriter ?u) = wCloseContainerReserved ?w"
    "uBufEnd ?u = uBufEnd u"
    by (simp_all add: move_bytes_def Let_def)
  show "updater_reader ?u = updater_reader u"
    using drop [of "uReadPoint u"] u f w' by (simp add: updater_reader_def)
  show "same_input u ?u"
    using drop [of "uReadPoint u"] u len f w' by (simp add: same_input_def)
  show "updater_inv ?u"
    using assms(1) f(1,2,5,6) w w' len tk u(1-4) bs by (simp add: updater_inv_def free_writer_def)
qed

lemma Move_ok:
  assumes "updater_inv u" "TLVUpdater_Move u = Some (err, u')"
  shows "updater_inv u'" "same_input u u'"
proof -
  obtain err1 r where sk: "TLVReader_Skip (updater_reader u) = (err1, r)"
    by fastforce
  obtain v where v: "on_reader TLVReader_Skip u = Some (err1, v)" "updater_inv v" "same_input u v"
    "uElementStartAddr v = uElementStartAddr u"
    using on_reader_ok [OF assms(1) reader_op_methods(1) sk] by metis
  note mv = move_bytes_ok [OF v(2) refl]
  show "updater_inv u'"
    using assms v mv(1) by (auto simp: TLVUpdater_Move_def Let_def split: if_splits)
  show "same_input u u'"
    using assms v mv(3) same_input_trans [OF v(3)] same_input_refl by (auto simp: TLVUpdater_Move_def Let_def split: if_splits)
qed

lemma Next_ok:
  assumes "updater_inv u"
  obtains err u' where "TLVUpdater_Next u = Some (err, u')" "updater_inv u'" "same_input u u'"
proof -
  obtain err1 r where sk: "TLVReader_Skip (updater_reader u) = (err1, r)"
    by fastforce
  obtain v where v: "on_reader TLVReader_Skip u = Some (err1, v)" "updater_inv v" "same_input u v"
    using on_reader_ok [OF assms(1) reader_op_methods(1) sk] by metis
  let ?a = "adjust_space v"
  note a = Adjust_ok [OF v(2)]
  obtain err2 r2 where nx: "TLVReader_Next (updater_reader ?a) = (err2, r2)"
    by fastforce
  obtain u2 where u2: "on_reader TLVReader_Next ?a = Some (err2, u2)" "updater_inv u2" "same_input ?a u2"
    using on_reader_ok [OF a(1) reader_op_methods(2) nx] by metis
  show thesis
    using that [of err1 v] that [of err2 u2] v u2 same_input_trans [OF v(3) same_input_trans [OF a(4) u2(3)]]
    by (cases "err1 = CHIP_NO_ERROR") (auto simp: TLVUpdater_Next_def a(12))
qed

lemma Updater_Next_consumes:
  assumes "updater_inv u" "TLVUpdater_Next u = Some (CHIP_NO_ERROR, u')"
  shows "uElementStartAddr u' < uReadPoint u'"
proof -
  obtain err1 r where sk: "TLVReader_Skip (updater_reader u) = (err1, r)"
    by fastforce
  obtain v where v: "on_reader TLVReader_Skip u = Some (err1, v)" "updater_inv v"
    using on_reader_ok [OF assms(1) reader_op_methods(1) sk] by metis
  let ?a = "adjust_space v"
  note a = Adjust_ok [OF v(2)]
  have nx: "on_reader TLVReader_Next ?a = Some (CHIP_NO_ERROR, u')"
    using assms(2) v(1) by (simp add: TLVUpdater_Next_def a(12) split: if_splits)
  obtain err2 r2 where r2: "TLVReader_Next (updater_reader ?a) = (err2, r2)"
    by fastforce
  obtain w where "on_reader TLVReader_Next ?a = Some (err2, w)" "uElementStartAddr w = uElementStartAddr ?a"
    "uReadPoint w = uBufEnd ?a - length (rReadPoint r2)"
    using on_reader_ok [OF a(1) reader_op_methods(2) r2] by metis
  then show ?thesis
    using nx Next_length(2) [of "updater_reader ?a" r2] r2 updater_reader_length [OF a(1)] a(2,6) updater_invD(3) [OF a(1)]
    by (simp del: updater_reader_simps(1))
qed

lemma Move_Some:
  assumes "updater_inv u"
  obtains err u' where "TLVUpdater_Move u = Some (err, u')"
proof -
  obtain err1 r where sk: "TLVReader_Skip (updater_reader u) = (err1, r)"
    by fastforce
  have "TLVUpdater_Move u \<noteq> None"
    by (rule on_reader_ok [OF assms reader_op_methods(1) sk]) (simp add: TLVUpdater_Move_def)
  then show thesis
    using that by auto
qed

lemma Exit_ok:
  assumes "updater_inv u"
  obtains err u' where "TLVUpdater_ExitContainer ct u = Some (err, u')" "updater_inv u'" "same_input u u'"
proof -
  obtain err1 r where ex: "TLVReader_ExitContainer ct (updater_reader u) = (err1, r)"
    by fastforce
  obtain v where v: "on_reader (TLVReader_ExitContainer ct) u = Some (err1, v)" "updater_inv v" "same_input u v"
    using on_reader_ok [OF assms(1) reader_op_methods(3) ex] by metis
  let ?a = "adjust_space v"
  note a = Adjust_ok [OF v(2)]
  obtain err2 w where w: "TLVWriter_EndContainer ct (uWriter ?a) = (err2, w)"
    by fastforce
  note o = on_writer_ok [OF a(1) writer_op_EndContainer w]
  note s = store_writer_ok [OF a(1) o(2)]
  show thesis
    using that [of err1 v] that [of err2 "store_writer w ?a"] v o(1) s same_input_trans [OF v(3) same_input_trans [OF a(4) s(4)]]
    by (cases "err1 = CHIP_NO_ERROR") (auto simp: TLVUpdater_ExitContainer_def a(12))
qed

lemma updater_inv_reader_state:
  assumes "updater_inv u" "rLenRead r = rLenRead (uReader u)" "rMaxLen r = rMaxLen (uReader u)"
  shows "updater_inv (u\<lparr>uReader := r\<rparr>)" "same_input u (u\<lparr>uReader := r\<rparr>)"
  using assms by (simp_all add: updater_inv_def same_input_def)

lemma Enter_ok:
  assumes "updater_inv u"
  obtains err ct u' where "TLVUpdater_EnterContainer u = Some (err, ct, u')" "updater_inv u'" "same_input u u'"
proof (cases "wInitialized (uWriter u) \<and> TLVTypeIsContainer (int (unat (rControlByte (uReader u) AND 0x1F)))")
  case False
  then have "TLVUpdater_EnterContainer u = Some (CHIP_ERROR_INCORRECT_STATE, None, u)"
    by (auto simp: TLVUpdater_EnterContainer_def)
  then show thesis
    using that assms same_input_refl by blast
next
  case True
  let ?a = "adjust_space u"
  note a = Adjust_ok [OF assms]
  obtain err1 ct w where w: "TLVWriter_StartContainer (rElemTag (uReader ?a)) (TLVReader_GetType (uReader ?a)) (uWriter ?a) = (err1, ct, w)"
    by (metis surj_pair)
  have "grows (uWriter ?a) w"
    using grows_StartContainer [OF _ w] a(1) by (simp add: updater_inv_def)
  note s = store_writer_ok [OF a(1) this]
  let ?s = "store_writer w ?a"
  obtain err2 ct2 r where r: "TLVReader_EnterContainer (uReader ?s) = (err2, ct2, r)"
    by (metis surj_pair)
  have "rLenRead r = rLenRead (uReader ?s)" "rMaxLen r = rMaxLen (uReader ?s)"
    using r by (auto simp: TLVReader_EnterContainer_def Let_def split: if_splits)
  note e = updater_inv_reader_state [OF s(2) this]
  have "TLVUpdater_EnterContainer u =
    (if err1 \<noteq> CHIP_NO_ERROR then Some (err1, None, ?s)
     else Some (err2, if err2 \<noteq> CHIP_NO_ERROR then None else Some ct2, ?s\<lparr>uReader := r\<rparr>))"
    using True w r s(1) by (simp add: TLVUpdater_EnterContainer_def a(12) not_less)
  then show thesis
    using that s(2) e(1) same_input_trans [OF a(4) s(4)] same_input_trans [OF same_input_trans [OF a(4) s(4)] e(2)]
    by (auto split: if_splits)
qed

subsection \<open>Sequences of operations keep the input\<close>

text \<open>All operations but \<^verbatim>\<open>MoveUntilEnd\<close>, and the methods of the reader and of the writer that stay in their buffers.\<close>

inductive updater_run :: "tlv_updater \<Rightarrow> tlv_updater \<Rightarrow> bool" for u0 where
  start: "updater_run u0 u0"
| next_element: "updater_run u0 u \<Longrightarrow> TLVUpdater_Next u = Some (err, u') \<Longrightarrow> updater_run u0 u'"
| move: "updater_run u0 u \<Longrightarrow> TLVUpdater_Move u = Some (err, u') \<Longrightarrow> updater_run u0 u'"
| enter: "updater_run u0 u \<Longrightarrow> TLVUpdater_EnterContainer u = Some (err, ct, u') \<Longrightarrow> updater_run u0 u'"
| exit: "updater_run u0 u \<Longrightarrow> TLVUpdater_ExitContainer ct u = Some (err, u') \<Longrightarrow> updater_run u0 u'"
| read: "updater_run u0 u \<Longrightarrow> reader_op f \<Longrightarrow> on_reader f u = Some (err, u') \<Longrightarrow> updater_run u0 u'"
| put: "updater_run u0 u \<Longrightarrow> writer_op f \<Longrightarrow> on_writer f u = Some (err, u') \<Longrightarrow> updater_run u0 u'"
| implicit: "updater_run u0 u \<Longrightarrow> updater_run u0 (TLVUpdater_SetImplicitProfileId p u)"

lemma updater_run_inv: "updater_run u0 u \<Longrightarrow> updater_inv u0 \<Longrightarrow> updater_inv u \<and> same_input u0 u"
proof (induction rule: updater_run.induct)
  case start
  then show ?case
    by (simp add: same_input_refl)
next
  case (next_element u err u')
  then show ?case
    using Next_ok [of u] same_input_trans by (metis option.inject prod.inject)
next
  case (move u err u')
  then show ?case
    using Move_ok [of u err u'] same_input_trans by blast
next
  case (enter u err ct u')
  then show ?case
    using Enter_ok [of u] same_input_trans by (metis option.inject prod.inject)
next
  case (exit u ct err u')
  then show ?case
    using Exit_ok [of u ct] same_input_trans by (metis option.inject prod.inject)
next
  case (read u f err u')
  obtain e r where f: "f (updater_reader u) = (e, r)"
    by fastforce
  show ?case
    by (rule on_reader_ok [OF _ read.hyps(2) f]) (use read same_input_trans in auto)
next
  case (put u f err u')
  then have inv: "updater_inv u" "same_input u0 u"
    by simp_all
  obtain e w where f: "f (uWriter u) = (e, w)"
    by fastforce
  note o = on_writer_ok [OF inv(1) put.hyps(2) f]
  show ?case
    using store_writer_ok(2,4) [OF inv(1) o(2)] o(1) put.hyps(3) same_input_trans [OF inv(2)] by auto
next
  case (implicit u p)
  then show ?case
    by (auto simp: TLVUpdater_SetImplicitProfileId_def updater_inv_def free_writer_def same_input_def)
qed

lemma Init_inv:
  assumes "TLVUpdater_Init (Some buf) dataLen (length buf) = Inr u" "length buf \<le> 0x7FFFFFFF"
  shows "updater_inv u" "dataLen \<le> length buf" "uElementStartAddr u = length buf - dataLen"
    "drop (length buf - dataLen) (uMem u) = take dataLen buf" "updater_reader u = TLVReader_Init (take dataLen buf)"
    "uBufEnd u = length buf" "length (uMem u) = length buf" "uReadPoint u = length buf - dataLen"
    "uWriter u = (TLVWriter_Init (length buf - dataLen))\<lparr>wCloseContainerReserved := False\<rparr>"
proof -
  let ?f = "length buf - dataLen" and ?d = "take dataLen buf"
  have le: "dataLen \<le> length buf"
    using assms(1) by (auto simp: TLVUpdater_Init_def split: if_splits)
  have mem: "list_write ?f ?d buf = take ?f buf @ ?d"
    using le by (simp add: list_write_def)
  have u: "u = \<lparr>uMem = take ?f buf @ ?d, uReader = TLVReader_Init ?d, uReadPoint = ?f, uBufEnd = length buf,
      uWriter = (TLVWriter_Init ?f)\<lparr>wCloseContainerReserved := False\<rparr>, uElementStartAddr = ?f\<rparr>"
    using assms(1) le by (simp add: TLVUpdater_Init_def mem Let_def split: if_splits)
  show "dataLen \<le> length buf" "uElementStartAddr u = ?f" "drop ?f (uMem u) = ?d" "uBufEnd u = length buf" "length (uMem u) = length buf"
    "uReadPoint u = ?f" "uWriter u = (TLVWriter_Init ?f)\<lparr>wCloseContainerReserved := False\<rparr>"
    using le by (simp_all add: u)
  have small: "\<not> 4294967295 < length buf" "\<not> 4294967295 < ?f" "\<not> 4294967295 < dataLen"
    using assms(2) le by linarith+
  then show "updater_reader u = TLVReader_Init ?d"
    using le by (simp add: u updater_reader_def TLVReader_Init_def)
  show "updater_inv u"
    using le assms(2) small by (simp add: u updater_inv_def free_writer_def TLVWriter_Init_def TLVReader_Init_def Let_def)
qed


subsection \<open>Editing a list of elements\<close>

lemma Skip_cleared: "TLVReader_Skip r = (CHIP_NO_ERROR, q) \<Longrightarrow> rControlByte q = 0xFFFF"
  by (auto simp: TLVReader_Skip_def TLVReader_EnterContainer_def TLVReader_ExitContainer_def Let_def split: if_splits prod.splits)

text \<open>The first part of \<^verbatim>\<open>Next\<close>: the current element is skipped and its space becomes free.\<close>

lemma Next_first_part:
  assumes "updater_inv u" "before p ct bs (updater_reader u)"
  obtains a where "updater_inv a" "before p ct bs (updater_reader a)" "TLVUpdater_Next u = on_reader TLVReader_Next a"
    "same_input u a" "rReadPoint (updater_reader a) = bs" "uElementStartAddr a = uReadPoint a"
    "wBuf (uWriter a) = wBuf (uWriter u)" "wContainerType (uWriter a) = wContainerType (uWriter u)"
    "wImplicitProfileId (uWriter a) = wImplicitProfileId (uWriter u)" "wRemainingLen (uWriter u) \<le> wRemainingLen (uWriter a)"
proof -
  obtain q where q: "TLVReader_Skip (updater_reader u) = (CHIP_NO_ERROR, q)" "reader_inv q" "rReadPoint q = bs" "rContainerType q = ct"
    "rImplicitProfileId q = p"
    using assms(2) by (auto simp: before_def)
  obtain v where v: "on_reader TLVReader_Skip u = Some (CHIP_NO_ERROR, v)" "updater_inv v" "updater_reader v = q" "same_input u v"
    "uWriter v = uWriter u" "uElementStartAddr v = uElementStartAddr u"
    using on_reader_ok [OF assms(1) reader_op_methods(1) q(1)] by metis
  let ?a = "adjust_space v"
  note a = Adjust_ok [OF v(2)]
  have "before p ct bs (updater_reader ?a)"
    using q v(3) a(3) Skip_cleared [OF q(1)] by (intro before_cleared) simp_all
  moreover have "wRemainingLen (uWriter u) \<le> wRemainingLen (uWriter ?a)"
  proof -
    have "wLenWritten (uWriter ?a) = wLenWritten (uWriter u)"
      using a(7) v(5) updater_invD(6) [OF v(2)] updater_invD(6) [OF a(1)] by simp
    then show ?thesis
      using a(2) v(5) updater_invD(1) [OF a(1)] updater_invD(1,2) [OF v(2)] by simp
  qed
  ultimately show thesis
    using that [of ?a] a v q same_input_trans [OF v(4) a(4)] by (simp add: TLVUpdater_Next_def a(12) del: updater_reader_simps(1))
qed

lemma Updater_Next_end:
  assumes "updater_inv u" "before p ct bs (updater_reader u)" "bs = [] \<or> bs = 0x18 # rest \<and> TLVTypeIsContainer ct"
  obtains u' where "TLVUpdater_Next u = Some (CHIP_END_OF_TLV, u')" "updater_inv u'" "wBuf (uWriter u') = wBuf (uWriter u)"
    "wContainerType (uWriter u') = wContainerType (uWriter u)" "wImplicitProfileId (uWriter u') = wImplicitProfileId (uWriter u)"
    "wRemainingLen (uWriter u) \<le> wRemainingLen (uWriter u')" "uElementStartAddr u' + length bs = uBufEnd u'"
    "\<exists>r. TLVReader_Next r = (CHIP_END_OF_TLV, updater_reader u') \<and> before p ct bs r"
proof (rule Next_first_part [OF assms(1,2)])
  fix a
  assume a: "updater_inv a" "before p ct bs (updater_reader a)" "TLVUpdater_Next u = on_reader TLVReader_Next a"
    "rReadPoint (updater_reader a) = bs" "uElementStartAddr a = uReadPoint a"
    "wBuf (uWriter a) = wBuf (uWriter u)" "wContainerType (uWriter a) = wContainerType (uWriter u)"
    "wImplicitProfileId (uWriter a) = wImplicitProfileId (uWriter u)" "wRemainingLen (uWriter u) \<le> wRemainingLen (uWriter a)"
  have "\<exists>r. TLVReader_Next (updater_reader a) = (CHIP_END_OF_TLV, r)"
    using assms(3) a(2) Next_end [of p ct "updater_reader a"] Next_close [of p ct rest "updater_reader a" ct] by metis
  then obtain r where r: "TLVReader_Next (updater_reader a) = (CHIP_END_OF_TLV, r)" ..
  obtain u' where u': "on_reader TLVReader_Next a = Some (CHIP_END_OF_TLV, u')" "updater_inv u'" "updater_reader u' = r" "same_input a u'"
    "uWriter u' = uWriter a" "uElementStartAddr u' = uElementStartAddr a"
    using on_reader_ok [OF a(1) reader_op_methods(2) r] by metis
  have "length bs = uBufEnd a - uReadPoint a"
    using updater_reader_length [OF a(1)] unfolding a(4) by simp
  then have "uElementStartAddr u' + length bs = uBufEnd u'"
    using u'(4,6) a(5) updater_invD(3) [OF a(1)] by (simp add: same_input_def)
  then show thesis
    using that [of u'] a(2,3,6-9) u'(1-3,5) r by auto
qed

text \<open>\<^verbatim>\<open>Next\<close> moves onto the next element, which is then either moved to the output or left behind.\<close>

lemma Updater_Next_element:
  assumes "updater_inv u" "before p ct (encode p (element_events tag e) @ rest) (updater_reader u)"
    and "tag_allowed ct tag" "api_tag tag" "element_ok e"
  obtains u' where "TLVUpdater_Next u = Some (CHIP_NO_ERROR, u')" "updater_inv u'" "before p ct rest (updater_reader u')"
    "wBuf (uWriter u') = wBuf (uWriter u)" "wContainerType (uWriter u') = wContainerType (uWriter u)"
    "wImplicitProfileId (uWriter u') = wImplicitProfileId (uWriter u)" "wRemainingLen (uWriter u) \<le> wRemainingLen (uWriter u')"
    "TLVReader_ElementType (uReader u') \<noteq> ET_EndOfContainer" "TLVReader_ElementType (uReader u') \<noteq> ET_NotSpecified"
    "take (uBufEnd u' - uElementStartAddr u') (drop (uElementStartAddr u') (uMem u')) = encode p (element_events tag e) @ rest"
proof (rule Next_first_part [OF assms(1,2)])
  fix a
  assume a: "updater_inv a" "before p ct (encode p (element_events tag e) @ rest) (updater_reader a)"
    "TLVUpdater_Next u = on_reader TLVReader_Next a" "rReadPoint (updater_reader a) = encode p (element_events tag e) @ rest"
    "uElementStartAddr a = uReadPoint a" "wBuf (uWriter a) = wBuf (uWriter u)" "wContainerType (uWriter a) = wContainerType (uWriter u)"
    "wImplicitProfileId (uWriter a) = wImplicitProfileId (uWriter u)" "wRemainingLen (uWriter u) \<le> wRemainingLen (uWriter a)"
  show thesis
  proof (rule Next_element [OF a(2) assms(3-5)])
    fix q et x body q'
    let ?r = "on_element et tag x (body @ rest) q"
    assume *: "TLVReader_Next (updater_reader a) = (CHIP_NO_ERROR, ?r)" "TLVReader_ElementType ?r = et" "et \<noteq> ET_EndOfContainer"
      "et \<noteq> ET_NotSpecified" "TLVReader_Skip ?r = (CHIP_NO_ERROR, q')" "reader_inv q'" "rReadPoint q' = rest"
      "rContainerType q' = ct" "rImplicitProfileId q' = p"
    obtain u' where u': "on_reader TLVReader_Next a = Some (CHIP_NO_ERROR, u')" "updater_inv u'" "updater_reader u' = ?r" "same_input a u'"
      "uWriter u' = uWriter a" "uElementStartAddr u' = uElementStartAddr a" "uMem u' = uMem a"
      using on_reader_ok [OF a(1) reader_op_methods(2) *(1)] by metis
    have "TLVReader_ElementType (uReader u') = et"
      using *(2) u'(3) by (metis updater_reader_simps(8))
    moreover have "uBufEnd u' = uBufEnd a"
      using u'(4) by (simp add: same_input_def)
    moreover have "before p ct rest (updater_reader u')"
      using *(5-9) u'(3) by (auto simp: before_def)
    ultimately show thesis
      using that [of u'] a u' * by simp
  qed
qed

lemma GetType_specified:
  "TLVReader_ElementType r \<noteq> ET_EndOfContainer \<Longrightarrow> TLVReader_ElementType r \<noteq> ET_NotSpecified \<Longrightarrow> TLVReader_GetType r \<noteq> kTLVType_NotSpecified"
proof -
  assume *: "TLVReader_ElementType r \<noteq> ET_EndOfContainer" "TLVReader_ElementType r \<noteq> ET_NotSpecified"
  then have "0 \<le> TLVReader_ElementType r"
    using ElementType_range [of r] by auto
  then have "0 \<le> TLVReader_ElementType r - TLVReader_ElementType r mod 4"
    by (simp add: minus_mod_eq_mult_div)
  then show ?thesis
    using * by (auto simp: TLVReader_GetType_def Let_def)
qed

lemma control_not_end: "TLVReader_ElementType r \<noteq> ET_EndOfContainer \<Longrightarrow> TLVReader_ElementType r \<noteq> ET_NotSpecified \<Longrightarrow> rControlByte r AND 0x1F \<noteq> 0x18"
  by (auto simp: TLVReader_ElementType_def split: if_splits)

lemma Move_element:
  assumes "updater_inv u" "before p ct rest (updater_reader u)"
    and "TLVReader_ElementType (uReader u) \<noteq> ET_EndOfContainer" "TLVReader_ElementType (uReader u) \<noteq> ET_NotSpecified"
    and "take (uBufEnd u - uElementStartAddr u) (drop (uElementStartAddr u) (uMem u)) = bs @ rest"
  obtains u' where "TLVUpdater_Move u = Some (CHIP_NO_ERROR, u')" "updater_inv u'" "before p ct rest (updater_reader u')"
    "wBuf (uWriter u') = wBuf (uWriter u) @ bs" "wContainerType (uWriter u') = wContainerType (uWriter u)"
    "wImplicitProfileId (uWriter u') = wImplicitProfileId (uWriter u)" "wRemainingLen (uWriter u') = wRemainingLen (uWriter u)"
proof -
  obtain q where q: "TLVReader_Skip (updater_reader u) = (CHIP_NO_ERROR, q)" "reader_inv q" "rReadPoint q = rest" "rContainerType q = ct"
    "rImplicitProfileId q = p"
    using assms(2) by (auto simp: before_def)
  obtain v where v: "on_reader TLVReader_Skip u = Some (CHIP_NO_ERROR, v)" "updater_inv v" "updater_reader v = q" "same_input u v"
    "uWriter v = uWriter u" "uElementStartAddr v = uElementStartAddr u" "uMem v = uMem u" "uReadPoint v = uBufEnd u - length rest"
    using on_reader_ok [OF assms(1) reader_op_methods(1) q(1)] q(3) by metis
  let ?n = "uReadPoint v - uElementStartAddr v"
  note m = move_bytes_ok [OF v(2) refl]
  have n: "?n = length bs"
  proof -
    have "length (bs @ rest) = uBufEnd u - uElementStartAddr u"
      using assms(1) arg_cong [OF assms(5), of length] by (auto simp: updater_inv_def)
    then show ?thesis
      using v(6,8) by simp
  qed
  have "take ?n (drop (uElementStartAddr v) (uMem v)) = bs"
  proof -
    have "length bs \<le> uBufEnd u - uElementStartAddr u"
      using n v(8) v(6) by linarith
    then have "take (length bs) (drop (uElementStartAddr u) (uMem u)) = take (length bs) (bs @ rest)"
      unfolding assms(5) [symmetric] by (simp add: min_absorb1)
    then show ?thesis
      using n v(6,7) by simp
  qed
  moreover have "TLVUpdater_Move u = Some (CHIP_NO_ERROR, move_bytes ?n v)"
    using assms(1) v(1) GetType_specified [OF assms(3,4)] control_not_end [OF assms(3,4)]
    by (simp add: TLVUpdater_Move_def updater_inv_def free_writer_def)
  moreover have "before p ct rest (updater_reader (move_bytes ?n v))"
    using q v(3) m(2) Skip_cleared [OF q(1)] by (intro before_cleared) (simp_all del: updater_reader_simps)
  moreover have "wRemainingLen (uWriter (move_bytes ?n v)) = wRemainingLen (uWriter u)"
    using v(5) by (simp add: move_bytes_def Let_def)
  ultimately show thesis
    using that m v(5) by simp
qed


subsection \<open>The rest of the document\<close>

text \<open>
  \<^verbatim>\<open>MoveUntilEnd\<close> appends everything from the current element on. Called between two elements it leaves the reader at the
  end of its buffer; called with the reader on an element it advances the reader by the bytes that were moved,
  although it has already read the head of the element, and the reader ends behind its buffer.
\<close>

lemma MoveUntilEnd_ok:
  assumes "updater_inv u" "TLVUpdater_MoveUntilEnd u = Some u'"
  shows "wBuf (uWriter u') = wBuf (uWriter u) @ take (uBufEnd u - uElementStartAddr u) (drop (uElementStartAddr u) (uMem u))"
    "uBufEnd u' = uBufEnd u" "uReadPoint u' = uBufEnd u + (uReadPoint u - uElementStartAddr u)"
    "uReadPoint u = uElementStartAddr u \<Longrightarrow> updater_inv u'"
proof -
  let ?n = "uBufEnd u - uElementStartAddr u" and ?v = "u\<lparr>uReadPoint := uBufEnd u, uReader := (uReader u)\<lparr>rLenRead := rMaxLen (uReader u)\<rparr>\<rparr>"
  note inv = updater_invD [OF assms(1)]
  have r: "rLenRead (uReader u) + (uBufEnd u - uReadPoint u) = rMaxLen (uReader u)" "rMaxLen (uReader u) \<le> UINT32_MAX"
    using assms(1) by (simp_all add: updater_inv_def)
  have v: "updater_inv ?v"
    using assms(1) by (simp add: updater_inv_def)
  note m = move_bytes_ok [OF v, of ?n]
  have "sub32 (rMaxLen (uReader u)) (rLenRead (uReader u)) = uBufEnd u - uReadPoint u"
    using r by (simp add: sub32_le)
  then have n: "uReadPoint u + sub32 (rMaxLen (uReader u)) (rLenRead (uReader u)) - uElementStartAddr u = ?n"
    using inv(2,3) by simp
  have eq: "uMem (move_bytes ?n u) = uMem (move_bytes ?n ?v)" "uWriter (move_bytes ?n u) = uWriter (move_bytes ?n ?v)"
    "uElementStartAddr (move_bytes ?n u) = uElementStartAddr (move_bytes ?n ?v)" "uBufEnd (move_bytes ?n u) = uBufEnd u"
    "uReadPoint (move_bytes ?n u) = uReadPoint u" "uReader (move_bytes ?n u) = uReader u" "uBufEnd (move_bytes ?n ?v) = uBufEnd u"
    by (simp_all add: move_bytes_def Let_def)
  have u': "u' = (move_bytes ?n u)\<lparr>uWriter := (uWriter (move_bytes ?n ?v))\<lparr>wContainerType := kTLVType_NotSpecified,
      wContainerOpen := False, wCloseContainerReserved := False\<rparr>, uReadPoint := uReadPoint u + ?n,
      uReader := (TLVReader_ClearElementState (uReader u))\<lparr>rLenRead := u32 (rLenRead (uReader u) + ?n),
        rContainerType := kTLVType_NotSpecified, rContainerOpen := False\<rparr>\<rparr>"
    using assms(2) by (simp add: TLVUpdater_MoveUntilEnd_def n eq Let_def split: if_splits)
  show "wBuf (uWriter u') = wBuf (uWriter u) @ take ?n (drop (uElementStartAddr u) (uMem u))" "uBufEnd u' = uBufEnd u"
    "uReadPoint u' = uBufEnd u + (uReadPoint u - uElementStartAddr u)"
    using m(5) inv(2,3) by (simp_all add: u' eq)
  assume at: "uReadPoint u = uElementStartAddr u"
  show "updater_inv u'"
    using m(1,4) at r inv(3) by (simp add: u' eq updater_inv_def free_writer_def u32_id)
qed

lemma MoveUntilEnd_Some: "updater_inv u \<Longrightarrow> TLVUpdater_MoveUntilEnd u \<noteq> None"
  by (simp add: TLVUpdater_MoveUntilEnd_def updater_inv_def free_writer_def Let_def)

lemma on_reader_behind: "uBufEnd u < uReadPoint u \<Longrightarrow> on_reader f u = None"
  by (simp add: on_reader_def)

lemma MoveUntilEnd_behind:
  assumes "updater_inv u" "uElementStartAddr u < uReadPoint u" "TLVUpdater_MoveUntilEnd u = Some u'"
  shows "TLVUpdater_Next u' = None"
  using MoveUntilEnd_ok(2,3) [OF assms(1,3)] assms(2) by (simp add: TLVUpdater_Next_def on_reader_behind)

end
