(* ===== verification/TlvIterate.thy ===== *)
theory TlvIterate
  imports TlvQuery
begin

text \<open>
  Iteration over documents (\<^verbatim>\<open>src/lib/core/TLVUtilities.cpp\<close>). The handler that the C++ code calls with a context
  pointer is a function that takes and returns the context. The two overloads of \<^verbatim>\<open>Iterate\<close> that recurse are
  \<open>Iterate_at\<close> and its loop; all recursion is bounded by the length of the input and by the depth limit.
\<close>

type_synonym 's IterateHandler = "tlv_reader \<Rightarrow> nat \<Rightarrow> 's \<Rightarrow> CHIP_ERROR \<times> 's"

definition kMaxRecursionDepth :: nat where
  [simp]: "kMaxRecursionDepth = 10"

function Iterate_at :: "'s IterateHandler \<Rightarrow> bool \<Rightarrow> nat \<Rightarrow> tlv_reader \<Rightarrow> 's \<Rightarrow> CHIP_ERROR \<times> tlv_reader \<times> 's"
  and Iterate_loop :: "'s IterateHandler \<Rightarrow> bool \<Rightarrow> nat \<Rightarrow> tlv_reader \<Rightarrow> 's \<Rightarrow> CHIP_ERROR \<times> tlv_reader \<times> 's" where
  "Iterate_at aHandler aRecurse aDepth r s =
    (if kMaxRecursionDepth \<le> aDepth then (CHIP_ERROR_RECURSION_DEPTH_LIMIT, r, s)
     else if TLVReader_GetType r = kTLVType_NotSpecified then
       (case TLVReader_Next r of (err, r) \<Rightarrow>
          if err \<noteq> CHIP_NO_ERROR then (err, r, s) else Iterate_loop aHandler aRecurse aDepth r s)
     else Iterate_loop aHandler aRecurse aDepth r s)"
| "Iterate_loop aHandler aRecurse aDepth r s =
    (case aHandler r aDepth s of (err, s) \<Rightarrow>
       if err \<noteq> CHIP_NO_ERROR then (err, r, s)
       else
         (let (err, r, s) =
            (if aRecurse \<and> TLVTypeIsContainer (TLVReader_GetType r) then
               (case TLVReader_EnterContainer r of (err, containerType, r) \<Rightarrow>
                  if err \<noteq> CHIP_NO_ERROR then (err, r, s)
                  else
                    (case Iterate_at aHandler aRecurse (aDepth + 1) r s of (retval, r, s) \<Rightarrow>
                       if retval \<noteq> CHIP_END_OF_TLV \<and> retval \<noteq> CHIP_NO_ERROR then (retval, r, s)
                       else (case TLVReader_ExitContainer containerType r of (err, r) \<Rightarrow> (err, r, s))))
             else (CHIP_NO_ERROR, r, s))
          in if err \<noteq> CHIP_NO_ERROR then (err, r, s)
             else
               (case TLVReader_Next r of (retval, r) \<Rightarrow>
                  if retval = CHIP_NO_ERROR then Iterate_loop aHandler aRecurse aDepth r s else (retval, r, s))))"
  by pat_completeness auto


termination
proof (relation "measures [case_sum (\<lambda>(h, rec, d, r, s). length (rReadPoint r)) (\<lambda>(h, rec, d, r, s). length (rReadPoint r)),
    case_sum (\<lambda>(h, rec, d, r, s). if 10 \<le> d then 0 else 2 * (10 - d) + 1) (\<lambda>(h, rec, d, r, s). if 10 \<le> d then 1 else 2 * (10 - d))]",
    goal_cases)
  case 2
  then show ?case by (auto dest: Next_length [OF sym])
next
  case 4
  then show ?case by (auto dest: EnterContainer_ReadPoint [OF sym])
next
  case 5
  have Iterate_length:
      "Iterate_at_Iterate_loop_dom (Inl (h, rec, d, r, s)) \<Longrightarrow>
        length (rReadPoint (fst (snd (Iterate_at h rec d r s)))) \<le> length (rReadPoint r)"
      "Iterate_at_Iterate_loop_dom (Inr (h, rec, d, r, s)) \<Longrightarrow>
        length (rReadPoint (fst (snd (Iterate_loop h rec d r s)))) \<le> length (rReadPoint r)"
    for h :: "'a IterateHandler" and rec d r s
    proof (induction h rec d r s and h rec d r s rule: Iterate_at_Iterate_loop.pinduct)
      case (1 h rec d r s)
      then show ?case
        using Next_length(1) [of r]
        by (auto simp: Iterate_at.psimps split: prod.splits intro: order_trans)
    next
      case (2 h rec d r s)
      note len = Next_length(1) ExitContainer_length EnterContainer_ReadPoint
      obtain e0 s0 where h: "h r d s = (e0, s0)"
        by fastforce
      define mid where "mid = (if rec \<and> TLVTypeIsContainer (TLVReader_GetType r) then
                   (case TLVReader_EnterContainer r of (err, containerType, r) \<Rightarrow>
                      if err \<noteq> CHIP_NO_ERROR then (err, r, s0)
                      else
                        (case Iterate_at h rec (d + 1) r s0 of (retval, r, s) \<Rightarrow>
                           if retval \<noteq> CHIP_END_OF_TLV \<and> retval \<noteq> CHIP_NO_ERROR then (retval, r, s)
                           else (case TLVReader_ExitContainer containerType r of (err, r) \<Rightarrow> (err, r, s))))
                 else (CHIP_NO_ERROR, r, s0))"
      obtain e1 r1 s1 where m: "mid = (e1, r1, s1)"
        by (metis surj_pair)
      have le: "e0 = CHIP_NO_ERROR \<Longrightarrow> length (rReadPoint r1) \<le> length (rReadPoint r)"
        using "2.IH"(1) [OF h [symmetric]] m
        by (fastforce simp: mid_def split: prod.splits if_splits dest: len)
      obtain e2 r2 where n: "TLVReader_Next r1 = (e2, r2)"
        by fastforce
      have "Iterate_loop h rec d r s = (if e0 \<noteq> CHIP_NO_ERROR then (e0, r, s0) else if e1 \<noteq> CHIP_NO_ERROR then (e1, r1, s1)
        else if e2 = CHIP_NO_ERROR then Iterate_loop h rec d r2 s1 else (e2, r2, s1))"
        using "2.hyps" h m n by (simp add: Iterate_loop.psimps mid_def)
      moreover have "length (rReadPoint (fst (snd (Iterate_loop h rec d r2 s1)))) \<le> length (rReadPoint r2)"
        if "e0 = CHIP_NO_ERROR" "e1 = CHIP_NO_ERROR" "e2 = CHIP_NO_ERROR"
        using "2.IH"(2) [OF h [symmetric] _ m [unfolded mid_def, symmetric] _ _ _ n [symmetric]] that by blast
      ultimately show ?case
        using le len(1) [OF n] by auto
    qed
  from 5 show ?case
    by (auto split: if_splits prod.splits dest!: Next_length(2) [OF sym] EnterContainer_ReadPoint ExitContainer_length Iterate_length(1))
qed auto


declare Iterate_at.simps [simp del] Iterate_loop.simps [simp del]

text \<open>The public overload works on a copy of the reader; \<open>None\<close> is a null handler.\<close>

definition Utilities_Iterate :: "tlv_reader \<Rightarrow> 's IterateHandler option \<Rightarrow> 's \<Rightarrow> bool \<Rightarrow> CHIP_ERROR \<times> 's" where
  "Utilities_Iterate aReader aHandler aContext aRecurse =
    (case aHandler of
       None \<Rightarrow> (CHIP_ERROR_INVALID_ARGUMENT, aContext)
     | Some h \<Rightarrow> (case Iterate_at h aRecurse 0 aReader aContext of (err, temp, s) \<Rightarrow> (err, s)))"

definition CountHandler :: "nat IterateHandler" where
  "CountHandler aReader aDepth count = (CHIP_NO_ERROR, count + 1)"

definition Utilities_Count :: "tlv_reader \<Rightarrow> bool \<Rightarrow> CHIP_ERROR \<times> nat" where
  "Utilities_Count aReader aRecurse =
    (case Utilities_Iterate aReader (Some CountHandler) 0 aRecurse of (retval, aCount) \<Rightarrow>
       (if retval = CHIP_END_OF_TLV then CHIP_NO_ERROR else retval, aCount))"

text \<open>The context of a search is the reader that receives the position.\<close>

definition FindHandler :: "Tag \<Rightarrow> tlv_reader option IterateHandler" where
  "FindHandler aTag aReader aDepth result =
    (if aTag = rElemTag aReader then (CHIP_ERROR_SENTINEL, Some aReader) else (CHIP_NO_ERROR, result))"

definition Utilities_Find :: "tlv_reader \<Rightarrow> Tag \<Rightarrow> bool \<Rightarrow> CHIP_ERROR \<times> tlv_reader option" where
  "Utilities_Find aReader aTag aRecurse =
    (case Utilities_Iterate aReader (Some (FindHandler aTag)) None aRecurse of (retval, aResult) \<Rightarrow>
       (if retval = CHIP_ERROR_SENTINEL then CHIP_NO_ERROR else CHIP_ERROR_TLV_TAG_NOT_FOUND, aResult))"

definition FindPredicateHandler :: "'c IterateHandler \<Rightarrow> (tlv_reader option \<times> 'c) IterateHandler" where
  "FindPredicateHandler mHandler aReader aDepth theContext =
    (case mHandler aReader aDepth (snd theContext) of (err, mContext) \<Rightarrow>
       (err, if err = CHIP_ERROR_SENTINEL then Some aReader else fst theContext, mContext))"

definition Utilities_FindPredicate ::
  "tlv_reader \<Rightarrow> 'c IterateHandler \<Rightarrow> 'c \<Rightarrow> bool \<Rightarrow> CHIP_ERROR \<times> tlv_reader option \<times> 'c" where
  "Utilities_FindPredicate aReader aPredicate aContext aRecurse =
    (case Utilities_Iterate aReader (Some (FindPredicateHandler aPredicate)) (None, aContext) aRecurse of (retval, ctx) \<Rightarrow>
       (if retval = CHIP_ERROR_SENTINEL then CHIP_NO_ERROR else CHIP_ERROR_TLV_TAG_NOT_FOUND, ctx))"

subsection \<open>Documents as trees\<close>

datatype tlv_tree = Value tlv_value | Node TLVType "(Tag \<times> tlv_tree) list"

type_synonym tlv_trees = "(Tag \<times> tlv_tree) list"

fun trees_events :: "tlv_trees \<Rightarrow> tlv_event list" where
  "trees_events [] = []"
| "trees_events ((tag, Value v) # ts) = Leaf tag v # trees_events ts"
| "trees_events ((tag, Node ty us) # ts) = Open tag ty # trees_events us @ Close # trees_events ts"

fun trees_ok :: "TLVType \<Rightarrow> tlv_trees \<Rightarrow> bool" where
  "trees_ok ct [] \<longleftrightarrow> True"
| "trees_ok ct ((tag, Value v) # ts) \<longleftrightarrow> tag_allowed ct tag \<and> api_tag tag \<and> value_ok v \<and> trees_ok ct ts"
| "trees_ok ct ((tag, Node ty us) # ts) \<longleftrightarrow>
    tag_allowed ct tag \<and> api_tag tag \<and> TLVTypeIsContainer ty \<and> trees_ok ty us \<and> trees_ok ct ts"

text \<open>The elements in the order in which they are visited, each with its depth.\<close>

fun preorder :: "bool \<Rightarrow> nat \<Rightarrow> tlv_trees \<Rightarrow> (Tag \<times> tlv_tree \<times> nat) list" where
  "preorder rec d [] = []"
| "preorder rec d ((tag, Value v) # ts) = (tag, Value v, d) # preorder rec d ts"
| "preorder rec d ((tag, Node ty us) # ts) =
    (tag, Node ty us, d) # (if rec then preorder rec (d + 1) us else []) @ preorder rec d ts"

text \<open>Containers below the depth limit.\<close>

fun shallow :: "nat \<Rightarrow> tlv_trees \<Rightarrow> bool" where
  "shallow d [] \<longleftrightarrow> True"
| "shallow d ((tag, Value v) # ts) \<longleftrightarrow> shallow d ts"
| "shallow d ((tag, Node ty us) # ts) \<longleftrightarrow> d + 1 < kMaxRecursionDepth \<and> shallow (d + 1) us \<and> shallow d ts"


lemma contents_trees: "trees_ok ct ts \<Longrightarrow> contents ct S (trees_events ts @ es) \<longleftrightarrow> contents ct S es"
  by (induction ct ts arbitrary: S es rule: trees_ok.induct) simp_all

lemma encode_append [simp]: "encode p (es @ es') = encode p es @ encode p es'"
  by (simp add: encode_def)

text \<open>A reader on the head of an element, with \<open>bs\<close> behind the element.\<close>

definition on_tree :: "32 word \<Rightarrow> TLVType \<Rightarrow> Tag \<Rightarrow> tlv_tree \<Rightarrow> byte list \<Rightarrow> tlv_reader \<Rightarrow> bool" where
  "on_tree p ct tag t bs r \<longleftrightarrow> rElemTag r = tag \<and> TLVReader_GetType r \<noteq> kTLVType_NotSpecified \<and> before p ct bs r \<and>
    (case t of
       Value v \<Rightarrow> get_value r = (CHIP_NO_ERROR, Some v) \<and> \<not> TLVTypeIsContainer (TLVReader_GetType r)
     | Node ty us \<Rightarrow> TLVReader_GetType r = ty \<and> TLVTypeIsContainer ty \<and>
         (\<exists>q. TLVReader_EnterContainer r = (CHIP_NO_ERROR, ct, q) \<and> TLVReader_GetType q = kTLVType_NotSpecified \<and>
              before p ty (encode p (trees_events us) @ 0x18 # bs) q))"

lemma GetType_leaf:
  assumes "value_code v = (et, x, data)"
  shows "TLVReader_GetType (on_element et tag x bs q) \<noteq> kTLVType_NotSpecified"
    and "\<not> TLVTypeIsContainer (TLVReader_GetType (on_element et tag x bs q))"
proof -
  have et: "0 \<le> et" "et < 21"
    using value_code_type [OF assms] by simp_all
  then have "0 \<le> et - et mod 4"
    by (simp add: minus_mod_eq_mult_div)
  then show "TLVReader_GetType (on_element et tag x bs q) \<noteq> kTLVType_NotSpecified"
    and "\<not> TLVTypeIsContainer (TLVReader_GetType (on_element et tag x bs q))"
    using et by (auto simp: TLVReader_GetType_def TLVTypeIsContainer_def)
qed

lemma Next_value:
  assumes "before p ct (leaf_code p tag v @ bs) r" "tag_allowed ct tag" "api_tag tag" "value_ok v"
  obtains r' where "TLVReader_Next r = (CHIP_NO_ERROR, r')" "on_tree p ct tag (Value v) bs r'"
  using assms by (rule Next_leaf) (use GetType_leaf in \<open>auto simp: on_tree_def\<close>)

lemma Next_node:
  assumes "before p ct (elem_head p ty tag 0 @ encode p (trees_events us) @ 0x18 # bs) r" "tag_allowed ct tag" "api_tag tag"
    and "TLVTypeIsContainer ty" "trees_ok ty us"
  obtains r' where "TLVReader_Next r = (CHIP_NO_ERROR, r')" "on_tree p ct tag (Node ty us) bs r'"
proof (rule Next_open [OF assms(1-4)])
  fix q
  let ?bs = "encode p (trees_events us) @ 0x18 # bs"
  let ?r = "on_element ty tag 0 ?bs q"
  assume q: "reader_inv q" "rImplicitProfileId q = p" "rContainerType q = ct" "length ?bs \<le> length (rReadPoint q)"
    "TLVReader_Next r = (CHIP_NO_ERROR, ?r)"
  have "contents ty [] (trees_events us @ [Close])"
    using assms(4,5) by (simp add: contents_trees)
  then have "before p ct bs ?r"
    by (rule Skip_container [OF _ assms(4) q(1) _ q(2), of _ bs tag]) (use q in \<open>auto simp: before_def\<close>)
  then have "on_tree p ct tag (Node ty us) bs ?r"
    by (rule_tac Enter_open [OF q(1,4) assms(4), of tag])
      (use q assms(4) in \<open>auto simp: on_tree_def TLVTypeIsContainer_def TLVReader_EnterContainer_def TLVReader_GetType_def TLVReader_ElementType_def\<close>)
  then show thesis
    using that q(5) by blast
qed


subsection \<open>The elements are visited in order\<close>

text \<open>A handler applied to the positions in turn, until it reports something else than success.\<close>

fun run_handler :: "'s IterateHandler \<Rightarrow> (tlv_reader \<times> nat) list \<Rightarrow> 's \<Rightarrow> CHIP_ERROR \<times> 's" where
  "run_handler h [] s = (CHIP_END_OF_TLV, s)"
| "run_handler h ((r, d) # rs) s = (case h r d s of (err, s) \<Rightarrow> if err = CHIP_NO_ERROR then run_handler h rs s else (err, s))"

lemma run_handler_append:
  assumes "\<And>r d s. fst (h r d s) \<noteq> CHIP_END_OF_TLV"
  shows "run_handler h (rs @ rs') s =
    (case run_handler h rs s of (err, s) \<Rightarrow> if err = CHIP_END_OF_TLV then run_handler h rs' s else (err, s))"
  using assms
proof (induction h rs s rule: run_handler.induct)
  case (2 h r d rs s)
  have "fst (h r d s) \<noteq> CHIP_END_OF_TLV"
    by (rule "2.prems")
  then show ?case
    using "2.IH" [OF _ _ "2.prems"] by (cases "h r d s") auto
qed simp

definition visits :: "32 word \<Rightarrow> tlv_reader \<times> nat \<Rightarrow> Tag \<times> tlv_tree \<times> nat \<Rightarrow> bool" where
  "visits p = (\<lambda>(r, d) (tag, t, d'). d = d' \<and> (\<exists>ct bs. on_tree p ct tag t bs r))"

definition next_loop :: "'s IterateHandler \<Rightarrow> bool \<Rightarrow> nat \<Rightarrow> tlv_reader \<Rightarrow> 's \<Rightarrow> CHIP_ERROR \<times> tlv_reader \<times> 's" where
  "next_loop h rec d r s =
    (case TLVReader_Next r of (retval, r) \<Rightarrow> if retval = CHIP_NO_ERROR then Iterate_loop h rec d r s else (retval, r, s))"

lemma Iterate_at_next_loop:
  "d < kMaxRecursionDepth \<Longrightarrow> TLVReader_GetType r = kTLVType_NotSpecified \<Longrightarrow> Iterate_at h rec d r s = next_loop h rec d r s"
  by (auto simp: Iterate_at.simps [of h rec d r s] next_loop_def split: prod.splits)

text \<open>The iteration from a reader behaves like the handler on the positions, and ends in the reader \<open>q\<close>.\<close>

definition iterates :: "'s IterateHandler \<Rightarrow> (tlv_reader \<times> nat) list \<Rightarrow> tlv_reader \<Rightarrow> ('s \<Rightarrow> CHIP_ERROR \<times> tlv_reader \<times> 's) \<Rightarrow> bool" where
  "iterates h rs q f \<longleftrightarrow> (\<forall>s. \<exists>r'. f s = (fst (run_handler h rs s), r', snd (run_handler h rs s)) \<and>
     (fst (run_handler h rs s) = CHIP_END_OF_TLV \<longrightarrow> r' = q))"

lemma iterates_Nil: "(\<And>s. f s = (CHIP_END_OF_TLV, q, s)) \<Longrightarrow> iterates h [] q f"
  by (simp add: iterates_def)

lemma iterates_leaf:
  assumes "iterates h rs q (next_loop h rec d r)" "\<not> (rec \<and> TLVTypeIsContainer (TLVReader_GetType r))"
    and "\<And>r d s. fst (h r d s) \<noteq> CHIP_END_OF_TLV"
  shows "iterates h ((r, d) # rs) q (Iterate_loop h rec d r)"
  unfolding iterates_def
proof
  fix s
  show "\<exists>r'. Iterate_loop h rec d r s = (fst (run_handler h ((r, d) # rs) s), r', snd (run_handler h ((r, d) # rs) s)) \<and>
      (fst (run_handler h ((r, d) # rs) s) = CHIP_END_OF_TLV \<longrightarrow> r' = q)"
    using assms(1,2) assms(3) [of r d s]
    by (cases "h r d s") (auto simp: Iterate_loop.simps [of h rec d r s] iterates_def next_loop_def split: prod.splits)
qed

lemma iterates_node:
  assumes "TLVReader_EnterContainer r = (CHIP_NO_ERROR, ct, r0)" "iterates h rs0 q0 (Iterate_at h True (d + 1) r0)"
    and "TLVReader_ExitContainer ct q0 = (CHIP_NO_ERROR, q1)" "iterates h rs1 q (next_loop h True d q1)"
    and "TLVTypeIsContainer (TLVReader_GetType r)" and h: "\<And>r d s. fst (h r d s) \<noteq> CHIP_END_OF_TLV"
  shows "iterates h ((r, d) # rs0 @ rs1) q (Iterate_loop h True d r)"
  unfolding iterates_def
proof
  fix s
  obtain e s0 where hs: "h r d s = (e, s0)"
    by fastforce
  obtain e1 s1 where r1: "run_handler h rs0 s0 = (e1, s1)"
    by fastforce
  then obtain r1 where i: "Iterate_at h True (d + 1) r0 s0 = (e1, r1, s1)" "e1 = CHIP_END_OF_TLV \<longrightarrow> r1 = q0"
    using assms(2) unfolding iterates_def by (metis fst_conv snd_conv)
  have ne: "e1 \<noteq> CHIP_NO_ERROR"
    using r1 by (induction h rs0 s0 rule: run_handler.induct) (auto split: prod.splits if_splits)
  have "Iterate_loop h True d r s =
    (if e \<noteq> CHIP_NO_ERROR then (e, r, s0) else if e1 \<noteq> CHIP_END_OF_TLV then (e1, r1, s1) else next_loop h True d q1 s1)"
    using assms(1,3,5) hs i ne by (simp add: Iterate_loop.simps [of h True d r s] next_loop_def)
  moreover have "run_handler h ((r, d) # rs0 @ rs1) s =
    (if e \<noteq> CHIP_NO_ERROR then (e, s0) else if e1 \<noteq> CHIP_END_OF_TLV then (e1, s1) else run_handler h rs1 s1)"
    using hs r1 run_handler_append [of h rs0 rs1 s0, OF h] by simp
  ultimately show "\<exists>r'. Iterate_loop h True d r s =
      (fst (run_handler h ((r, d) # rs0 @ rs1) s), r', snd (run_handler h ((r, d) # rs0 @ rs1) s)) \<and>
      (fst (run_handler h ((r, d) # rs0 @ rs1) s) = CHIP_END_OF_TLV \<longrightarrow> r' = q)"
    using assms(4) h [of r d s] hs by (auto simp: iterates_def)
qed

lemma Iterate_trees:
  assumes "trees_ok ct ts" "rec \<Longrightarrow> shallow d ts" "before p ct (encode p (trees_events ts) @ bs) r"
    and "bs = [] \<or> bs = 0x18 # rest \<and> TLVTypeIsContainer ct" and h: "\<And>r d s. fst (h r d s) \<noteq> CHIP_END_OF_TLV"
  obtains rs q where "list_all2 (visits p) rs (preorder rec d ts)" "iterates h rs q (next_loop h rec d r)"
    "bs = 0x18 # rest \<longrightarrow> (\<exists>q'. TLVReader_ExitContainer outer q = (CHIP_NO_ERROR, q') \<and> before p outer rest q')"
  using assms
proof (induction rec d ts arbitrary: ct bs rest r outer thesis rule: preorder.induct)
  case (1 rec d)
  show ?case
  proof (cases "bs = []")
    case True
    then have "before p ct [] r"
      using "1.prems"(4) by simp
    then obtain q where "TLVReader_Next r = (CHIP_END_OF_TLV, q)"
      by (rule Next_end)
    then show ?thesis
      using "1.prems"(1) [of "[]" q] True by (auto simp: next_loop_def intro: iterates_Nil)
  next
    case False
    then have bs: "bs = 0x18 # rest" "TLVTypeIsContainer ct"
      using "1.prems"(5) by simp_all
    then have "before p ct (0x18 # rest) r"
      using "1.prems"(4) by simp
    from Next_close [OF this bs(2), of outer] obtain q q' where "TLVReader_Next r = (CHIP_END_OF_TLV, q)"
      "TLVReader_ExitContainer outer q = (CHIP_NO_ERROR, q')" "before p outer rest q'" .
    then show ?thesis
      using "1.prems"(1) [of "[]" q] bs by (auto simp: next_loop_def intro: iterates_Nil)
  qed
next
  case (2 rec d tag v ts)
  then have "before p ct (leaf_code p tag v @ encode p (trees_events ts) @ bs) r" "tag_allowed ct tag" "api_tag tag" "value_ok v"
    by simp_all
  then obtain r' where r': "TLVReader_Next r = (CHIP_NO_ERROR, r')" "on_tree p ct tag (Value v) (encode p (trees_events ts) @ bs) r'"
    by (rule Next_value)
  have "trees_ok ct ts" "rec \<Longrightarrow> shallow d ts" "before p ct (encode p (trees_events ts) @ bs) r'"
    using "2.prems" r'(2) by (auto simp: on_tree_def)
  from "2.IH" [OF _ this "2.prems"(5,6), where outer = outer] obtain rs q where rs: "list_all2 (visits p) rs (preorder rec d ts)"
    "iterates h rs q (next_loop h rec d r')"
    "bs = 0x18 # rest \<longrightarrow> (\<exists>q'. TLVReader_ExitContainer outer q = (CHIP_NO_ERROR, q') \<and> before p outer rest q')" .
  have "iterates h ((r', d) # rs) q (Iterate_loop h rec d r')"
    using rs(2) r'(2) "2.prems"(6) by (intro iterates_leaf) (auto simp: on_tree_def)
  moreover have "visits p (r', d) (tag, Value v, d)"
    using r'(2) by (auto simp: visits_def)
  ultimately show ?case
    using "2.prems"(1) [of "(r', d) # rs" q] rs r'(1) by (auto simp: next_loop_def [abs_def])
next
  case (3 rec d tag ty us ts)
  let ?bs = "encode p (trees_events ts) @ bs"
  have "before p ct (elem_head p ty tag 0 @ encode p (trees_events us) @ 0x18 # ?bs) r" "tag_allowed ct tag" "api_tag tag"
    "TLVTypeIsContainer ty" "trees_ok ty us"
    using "3.prems"(2,4) by simp_all
  then obtain r' where r': "TLVReader_Next r = (CHIP_NO_ERROR, r')" "on_tree p ct tag (Node ty us) ?bs r'"
    by (rule Next_node)
  have v: "visits p (r', d) (tag, Node ty us, d)"
    using r'(2) by (auto simp: visits_def)
  have "trees_ok ct ts" "rec \<Longrightarrow> shallow d ts"
    using "3.prems" by auto
  note IH = "3.IH"(2) [OF _ this _ "3.prems"(5,6), where outer = outer]
  show ?case
  proof (cases rec)
    case True
    obtain r0 where r0: "TLVReader_EnterContainer r' = (CHIP_NO_ERROR, ct, r0)" "TLVReader_GetType r0 = kTLVType_NotSpecified"
      "before p ty (encode p (trees_events us) @ 0x18 # ?bs) r0" "TLVReader_GetType r' = ty" "TLVTypeIsContainer ty"
      using r'(2) by (auto simp: on_tree_def)
    have sh: "rec \<Longrightarrow> shallow (d + 1) us" "d + 1 < kMaxRecursionDepth" "trees_ok ty us"
      using "3.prems"(2,3) True by auto
    obtain rs0 q0 where rs0: "list_all2 (visits p) rs0 (preorder rec (d + 1) us)" "iterates h rs0 q0 (next_loop h rec (d + 1) r0)"
      "\<exists>q'. TLVReader_ExitContainer ct q0 = (CHIP_NO_ERROR, q') \<and> before p ct ?bs q'"
      by (rule "3.IH"(1) [OF True _ sh(3,1) r0(3) _ "3.prems"(6), where rest = ?bs and outer = ct]) (use r0 in auto)
    then obtain q1 where q1: "TLVReader_ExitContainer ct q0 = (CHIP_NO_ERROR, q1)" "before p ct ?bs q1"
      by blast
    from IH [OF _ _ q1(2)] obtain rs q where rs: "list_all2 (visits p) rs (preorder rec d ts)"
      "iterates h rs q (next_loop h rec d q1)"
      "bs = 0x18 # rest \<longrightarrow> (\<exists>q'. TLVReader_ExitContainer outer q = (CHIP_NO_ERROR, q') \<and> before p outer rest q')" by blast
    have "iterates h rs0 q0 (Iterate_at h rec (d + 1) r0)"
      using rs0(2) Iterate_at_next_loop [OF sh(2) r0(2), of h rec] by (simp add: iterates_def)
    then have "iterates h ((r', d) # rs0 @ rs) q (Iterate_loop h rec d r')"
      using rs(2) True r0(4,5) by (auto intro: iterates_node [OF r0(1) _ q1(1) _ _ "3.prems"(6)])
    then show ?thesis
      using "3.prems"(1) [of "(r', d) # rs0 @ rs" q] rs rs0(1) v r'(1) True
      by (auto simp: next_loop_def [abs_def] intro: list_all2_appendI)
  next
    case False
    have "before p ct ?bs r'"
      using r'(2) by (auto simp: on_tree_def)
    from IH [OF _ _ this] obtain rs q where rs: "list_all2 (visits p) rs (preorder rec d ts)"
      "iterates h rs q (next_loop h rec d r')"
      "bs = 0x18 # rest \<longrightarrow> (\<exists>q'. TLVReader_ExitContainer outer q = (CHIP_NO_ERROR, q') \<and> before p outer rest q')" by blast
    have "iterates h ((r', d) # rs) q (Iterate_loop h rec d r')"
      using rs(2) False "3.prems"(6) by (intro iterates_leaf) auto
    then show ?thesis
      using "3.prems"(1) [of "(r', d) # rs" q] rs v r'(1) False by (auto simp: next_loop_def [abs_def])
  qed
qed


subsection \<open>Counting and searching\<close>

lemma Iterate_document:
  assumes "trees_ok ct ts" "rec \<Longrightarrow> shallow 0 ts" "before p ct (encode p (trees_events ts) @ bs) r"
    and "TLVReader_GetType r = kTLVType_NotSpecified" "bs = [] \<or> bs = 0x18 # rest \<and> TLVTypeIsContainer ct"
    and "\<And>r d s. fst (h r d s) \<noteq> CHIP_END_OF_TLV"
  obtains rs where "list_all2 (visits p) rs (preorder rec 0 ts)" "Utilities_Iterate r (Some h) s rec = run_handler h rs s"
proof (rule Iterate_trees [OF assms(1-3,5,6), where outer = ct])
  fix rs q
  assume *: "list_all2 (visits p) rs (preorder rec 0 ts)" "iterates h rs q (next_loop h rec 0 r)"
  have "Utilities_Iterate r (Some h) s rec = run_handler h rs s"
  proof -
    obtain r' where "next_loop h rec 0 r s = (fst (run_handler h rs s), r', snd (run_handler h rs s))"
      using *(2) unfolding iterates_def by blast
    then show ?thesis
      using Iterate_at_next_loop [of 0 r h rec s] assms(4) by (simp add: Utilities_Iterate_def)
  qed
  with *(1) show thesis
    by (rule that)
qed

lemma run_CountHandler: "run_handler CountHandler rs n = (CHIP_END_OF_TLV, n + length rs)"
  by (induction CountHandler rs n rule: run_handler.induct) (simp_all add: CountHandler_def)

lemma run_FindHandler:
  "run_handler (FindHandler tag) rs None =
    (case find (\<lambda>(r, d). rElemTag r = tag) rs of
       None \<Rightarrow> (CHIP_END_OF_TLV, None) | Some (r, d) \<Rightarrow> (CHIP_ERROR_SENTINEL, Some r))"
  by (induction rs) (auto simp: FindHandler_def)

lemma find_list_all2:
  assumes "list_all2 R xs ys" "\<And>x y. R x y \<Longrightarrow> P x \<longleftrightarrow> Q y"
  shows "rel_option (\<lambda>x y. R x y \<and> Q y) (find P xs) (find Q ys)"
  using assms(1) by (induction rule: list_all2_induct) (auto simp: assms(2))

lemma Count_trees:
  assumes "trees_ok ct ts" "rec \<Longrightarrow> shallow 0 ts" "before p ct (encode p (trees_events ts) @ bs) r"
    and "TLVReader_GetType r = kTLVType_NotSpecified" "bs = [] \<or> bs = 0x18 # rest \<and> TLVTypeIsContainer ct"
  shows "Utilities_Count r rec = (CHIP_NO_ERROR, length (preorder rec 0 ts))"
proof (rule Iterate_document [OF assms, where h = CountHandler and s = 0])
  show "fst (CountHandler r d s) \<noteq> CHIP_END_OF_TLV" for r d s
    by (simp add: CountHandler_def)
qed (auto simp: Utilities_Count_def run_CountHandler dest: list_all2_lengthD)

lemma Find_trees:
  assumes "trees_ok ct ts" "rec \<Longrightarrow> shallow 0 ts" "before p ct (encode p (trees_events ts) @ bs) r"
    and "TLVReader_GetType r = kTLVType_NotSpecified" "bs = [] \<or> bs = 0x18 # rest \<and> TLVTypeIsContainer ct"
  shows "case find (\<lambda>(tag', t, d). tag' = tag) (preorder rec 0 ts) of
      None \<Rightarrow> Utilities_Find r tag rec = (CHIP_ERROR_TLV_TAG_NOT_FOUND, None)
    | Some (tag', t, d) \<Rightarrow> \<exists>r' ct' bs'. Utilities_Find r tag rec = (CHIP_NO_ERROR, Some r') \<and> on_tree p ct' tag t bs' r'"
proof (rule Iterate_document [OF assms, where h = "FindHandler tag" and s = None])
  show "fst (FindHandler tag r d s) \<noteq> CHIP_END_OF_TLV" for r d s
    by (simp add: FindHandler_def)
next
  fix rs
  assume rs: "list_all2 (visits p) rs (preorder rec 0 ts)"
    and run: "Utilities_Iterate r (Some (FindHandler tag)) None rec = run_handler (FindHandler tag) rs None"
  have "rel_option (\<lambda>x y. visits p x y \<and> (case y of (tag', t, d) \<Rightarrow> tag' = tag))
      (find (\<lambda>(r, d). rElemTag r = tag) rs) (find (\<lambda>(tag', t, d). tag' = tag) (preorder rec 0 ts))"
    by (rule find_list_all2 [OF rs]) (auto simp: visits_def on_tree_def)
  then show ?thesis
    using run
    by (cases "find (\<lambda>(tag', t, d). tag' = tag) (preorder rec 0 ts)")
      (fastforce simp: Utilities_Find_def run_FindHandler visits_def option_rel_Some2)+
qed

end
