(* ===== verification/TlvEdits.thy ===== *)
theory TlvEdits
  imports TlvUpdater TlvIterate
begin

text \<open>
  Editing nested documents with the updater: what an application does with the elements of a document, one after the
  other, and the document that this gives.
\<close>

datatype edit = Keep | Remove | Insert Tag tlv_value | Inside "edit list"

fun run_edits :: "bool \<Rightarrow> edit list \<Rightarrow> tlv_updater \<Rightarrow> (CHIP_ERROR \<times> tlv_updater) option" where
  "run_edits validate [] u = TLVUpdater_Next u"
| "run_edits validate (Keep # xs) u =
    do {
      (err, u) \<leftarrow> TLVUpdater_Next u;
      if err \<noteq> CHIP_NO_ERROR then Some (err, u)
      else do {
        (err, u) \<leftarrow> TLVUpdater_Move u;
        if err \<noteq> CHIP_NO_ERROR then Some (err, u) else run_edits validate xs u
      }
    }"
| "run_edits validate (Remove # xs) u =
    do {
      (err, u) \<leftarrow> TLVUpdater_Next u;
      if err \<noteq> CHIP_NO_ERROR then Some (err, u) else run_edits validate xs u
    }"
| "run_edits validate (Insert tag v # xs) u =
    do {
      (err, u) \<leftarrow> on_writer (put_value validate tag v) u;
      if err \<noteq> CHIP_NO_ERROR then Some (err, u) else run_edits validate xs u
    }"
| "run_edits validate (Inside ys # xs) u =
    do {
      (err, u) \<leftarrow> TLVUpdater_Next u;
      if err \<noteq> CHIP_NO_ERROR then Some (err, u)
      else do {
        (err, outer, u) \<leftarrow> TLVUpdater_EnterContainer u;
        case outer of None \<Rightarrow> Some (err, u)
        | Some ct \<Rightarrow>
            do {
              (err, u) \<leftarrow> run_edits validate ys u;
              if err \<noteq> CHIP_END_OF_TLV then Some (err, u)
              else do {
                (err, u) \<leftarrow> TLVUpdater_ExitContainer ct u;
                if err \<noteq> CHIP_NO_ERROR then Some (err, u) else run_edits validate xs u
              }
            }
      }
    }"

text \<open>
  The intended result, for scripts with one \<open>Keep\<close>, \<open>Remove\<close> or \<open>Inside\<close> per element and values that can be written.
\<close>

fun edited :: "edit list \<Rightarrow> tlv_trees \<Rightarrow> tlv_trees" where
  "edited (Insert tag v # xs) ts = (tag, Value v) # edited xs ts"
| "edited (Keep # xs) (t # ts) = t # edited xs ts"
| "edited (Remove # xs) (t # ts) = edited xs ts"
| "edited (Inside ys # xs) ((tag, Node ty us) # ts) = (tag, Node ty (edited ys us)) # edited xs ts"
| "edited _ _ = []"

definition putable :: "bool \<Rightarrow> tlv_value \<Rightarrow> bool" where
  "putable validate v \<longleftrightarrow> length (snd (snd (value_code v))) \<le> 0x7FFFFFFF \<and>
     (case v of VString bs \<Rightarrow> validate \<longrightarrow> Utf8_IsValid bs \<and> (bs = [] \<or> last bs \<noteq> 0) | _ \<Rightarrow> True)"

fun script_ok :: "bool \<Rightarrow> TLVType \<Rightarrow> edit list \<Rightarrow> tlv_trees \<Rightarrow> bool" where
  "script_ok validate ct (Insert tag v # xs) ts \<longleftrightarrow> tag_allowed ct tag \<and> putable validate v \<and> script_ok validate ct xs ts"
| "script_ok validate ct (Keep # xs) (t # ts) \<longleftrightarrow> script_ok validate ct xs ts"
| "script_ok validate ct (Remove # xs) (t # ts) \<longleftrightarrow> script_ok validate ct xs ts"
| "script_ok validate ct (Inside ys # xs) ((tag, Node ty us) # ts) \<longleftrightarrow> script_ok validate ty ys us \<and> script_ok validate ct xs ts"
| "script_ok validate ct [] [] \<longleftrightarrow> True"
| "script_ok validate ct _ _ \<longleftrightarrow> False"

fun inserted_len :: "32 word \<Rightarrow> edit list \<Rightarrow> nat" where
  "inserted_len p (Insert tag v # xs) = length (leaf_code p tag v) + inserted_len p xs"
| "inserted_len p (Inside ys # xs) = inserted_len p ys + inserted_len p xs"
| "inserted_len p (Keep # xs) = inserted_len p xs"
| "inserted_len p (Remove # xs) = inserted_len p xs"
| "inserted_len p [] = 0"

subsection \<open>Writing in the free space\<close>

lemma free_WriteElementWithData:
  assumes "free_writer w" "tag_allowed (wContainerType w) tag" "length data \<le> 0x7FFFFFFF" "ty mod 4 = 0"
    and "wLenWritten w + length (elem_head (wImplicitProfileId w) (ty OR len_field_size (length data)) tag (of_nat (length data)) @ data) \<le> wMaxLen w"
  shows "TLVWriter_WriteElementWithData ty tag data w =
    (CHIP_NO_ERROR, written (elem_head (wImplicitProfileId w) (ty OR len_field_size (length data)) tag (of_nat (length data)) @ data) w)"
proof -
  let ?h = "elem_head (wImplicitProfileId w) (ty OR len_field_size (length data)) tag (of_nat (length data))"
  have fit: "wLenWritten w + length ?h \<le> wMaxLen w" "wLenWritten w \<le> UINT32_MAX" "wLenWritten w + length ?h \<le> UINT32_MAX"
    using assms(1,5) by (auto simp: free_writer_def)
  have h: "TLVWriter_WriteElementHead (ty OR len_field_size (length data)) tag (of_nat (length data)) w = (CHIP_NO_ERROR, written ?h w)"
    using assms(1,2) fit by (simp add: free_WriteElementHead free_WriteData [OF _ head_small])
  have "free_writer (written ?h w)"
    using grows_free [OF grows_written [OF assms(1) fit(1)]] .
  then have "TLVWriter_WriteData data (written ?h w) = (CHIP_NO_ERROR, written data (written ?h w))"
    using assms(3,5) fit(3) by (simp add: free_WriteData u32_id)
  then show ?thesis
    using h assms(1,4) by (simp add: TLVWriter_WriteElementWithData_def free_writer_def written_append [OF fit(2)])
qed

lemma put_value_free:
  assumes "free_writer w" "tag_allowed (wContainerType w) tag" "putable validate v"
    and "wLenWritten w + length (leaf_code (wImplicitProfileId w) tag v) \<le> wMaxLen w"
  shows "put_value validate tag v w = (CHIP_NO_ERROR, written (leaf_code (wImplicitProfileId w) tag v) w)"
proof -
  consider (string) bs where "v = VString bs" | (bytes) bs where "v = VBytes bs"
    | (scalar) "\<And>bs. v \<noteq> VString bs" "\<And>bs. v \<noteq> VBytes bs"
    by blast
  then show ?thesis
  proof cases
    case string
    then show ?thesis
      using assms free_WriteElementWithData [OF assms(1,2), where data = bs and ty = kTLVType_UTF8String]
      by (auto simp: put_value_def TLVWriter_PutString_CharSpan_def TLVWriter_PutString_def leaf_code_def len_field_size_or putable_def)
  next
    case bytes
    then show ?thesis
      using assms free_WriteElementWithData [OF assms(1,2), where data = bs and ty = kTLVType_ByteString]
      by (auto simp: put_value_def TLVWriter_Put_ByteSpan_def TLVWriter_PutBytes_def leaf_code_def len_field_size_or putable_def)
  next
    case scalar
    obtain et x data where v: "value_code v = (et, x, data)"
      by (metis surj_pair)
    then have "put_value validate tag v w = TLVWriter_WriteElementHead et tag x w" "leaf_code p tag v = elem_head p et tag x" for p
      using put_scalar(1) [OF scalar, of validate tag w] put_scalar(2) [OF scalar] by (simp_all add: leaf_code_def)
    then show ?thesis
      using assms by (simp add: free_WriteElementHead free_WriteData [OF _ head_small])
  qed
qed


lemma free_StartContainer:
  assumes "free_writer w" "tag_allowed (wContainerType w) tag" "TLVTypeIsContainer ty"
    and "wLenWritten w + length (elem_head (wImplicitProfileId w) ty tag 0) \<le> wMaxLen w"
  shows "TLVWriter_StartContainer tag ty w =
    (CHIP_NO_ERROR, Some (wContainerType w), (written (elem_head (wImplicitProfileId w) ty tag 0) w)\<lparr>wContainerType := ty, wContainerOpen := False\<rparr>)"
proof -
  have "reserve_end w = w"
    using assms(1) by (simp add: reserve_end_def free_writer_def)
  then show ?thesis
    using assms by (simp add: TLVWriter_StartContainer_def free_WriteElementHead free_WriteData [OF _ head_small]) (simp add: free_writer_def)
qed

lemma free_EndContainer:
  assumes "free_writer w" "TLVTypeIsContainer (wContainerType w)" "wLenWritten w + 1 \<le> wMaxLen w"
  shows "TLVWriter_EndContainer outer w = (CHIP_NO_ERROR, written [0x18] (w\<lparr>wContainerType := outer\<rparr>))"
proof -
  have "release_end (w\<lparr>wContainerType := outer\<rparr>) = w\<lparr>wContainerType := outer\<rparr>"
    using assms(1) by (simp add: release_end_def free_writer_def)
  moreover have "IsSpecialTag AnonymousTag" "\<not> IsContextTag AnonymousTag"
    by (simp_all add: tlv_tag_eval)
  ultimately show ?thesis
    using assms free_container_type [OF assms(1), of outer]
    by (simp add: TLVWriter_EndContainer_def free_WriteElementHead end_head free_WriteData) (simp add: free_writer_def)
qed

subsection \<open>Entering and leaving containers\<close>

lemma Skip_cleared_reader: "rControlByte r = 0xFFFF \<Longrightarrow> \<exists>q. TLVReader_Skip r = (CHIP_NO_ERROR, q) \<and> rReadPoint q = rReadPoint r"
  by (simp add: TLVReader_Skip_def TLVReader_SkipData_def TLVReader_ElementType_def TLVTypeIsContainer_def TLVTypeHasLength_def)

lemma Exit_cleared:
  assumes "TLVReader_ExitContainer ct r = (CHIP_NO_ERROR, q)" "before p ct bs q"
  shows "rReadPoint q = bs"
proof -
  have "rControlByte q = 0xFFFF"
    using assms(1) by (auto simp: TLVReader_ExitContainer_def split: prod.splits if_splits)
  then show ?thesis
    using assms(2) Skip_cleared_reader [of q] by (auto simp: before_def)
qed

lemma Enter_updater_reader:
  assumes "TLVReader_EnterContainer (updater_reader u) = (CHIP_NO_ERROR, ct, q)"
  shows "\<exists>r. TLVReader_EnterContainer (uReader u) = (CHIP_NO_ERROR, ct, r) \<and> updater_reader (u\<lparr>uReader := r\<rparr>) = q"
  using assms
  by (auto simp: TLVReader_EnterContainer_def TLVReader_ClearElementState_def updater_reader_def TLVReader_ElementType_def Let_def split: if_splits)

lemma Updater_Enter:
  assumes "updater_inv u" "before p ct (elem_head p ty tag 0 @ rest) (updater_reader u)" "tag_allowed ct tag" "api_tag tag"
    and "TLVTypeIsContainer ty" "wImplicitProfileId (uWriter u) = p" "wContainerType (uWriter u) = ct"
  obtains v w where "TLVUpdater_Next u = Some (CHIP_NO_ERROR, v)" "TLVUpdater_EnterContainer v = Some (CHIP_NO_ERROR, Some ct, w)"
    "updater_inv w" "before p ty rest (updater_reader w)" "wBuf (uWriter w) = wBuf (uWriter u) @ elem_head p ty tag 0"
    "wContainerType (uWriter w) = ty" "wImplicitProfileId (uWriter w) = p" "wRemainingLen (uWriter u) \<le> wRemainingLen (uWriter w)"
proof (rule Next_first_part [OF assms(1,2)])
  fix a
  assume a: "updater_inv a" "before p ct (elem_head p ty tag 0 @ rest) (updater_reader a)" "TLVUpdater_Next u = on_reader TLVReader_Next a"
    "rReadPoint (updater_reader a) = elem_head p ty tag 0 @ rest" "uElementStartAddr a = uReadPoint a"
    "wBuf (uWriter a) = wBuf (uWriter u)" "wContainerType (uWriter a) = wContainerType (uWriter u)"
    "wImplicitProfileId (uWriter a) = wImplicitProfileId (uWriter u)" "wRemainingLen (uWriter u) \<le> wRemainingLen (uWriter a)"
  obtain q where q: "reader_inv q" "rImplicitProfileId q = p" "rContainerType q = ct" "length rest \<le> length (rReadPoint q)"
    "TLVReader_Next (updater_reader a) = (CHIP_NO_ERROR, on_element ty tag 0 rest q)"
    using Next_open [OF a(2) assms(3-5)] .
  let ?r = "on_element ty tag 0 rest q"
  obtain v where v: "on_reader TLVReader_Next a = Some (CHIP_NO_ERROR, v)" "updater_inv v" "updater_reader v = ?r" "same_input a v"
    "uWriter v = uWriter a" "uElementStartAddr v = uElementStartAddr a" "uMem v = uMem a" "uReadPoint v = uBufEnd a - length rest"
    using on_reader_ok [OF a(1) reader_op_methods(2) q(5)] by (metis on_element_simps(1))
  let ?b = "adjust_space v"
  note b = Adjust_ok [OF v(2)]
  let ?h = "elem_head p ty tag 0" and ?w = "uWriter ?b"
  have len: "length ?h + length rest = uBufEnd a - uReadPoint a"
    using updater_reader_length [OF a(1)] unfolding a(4) by simp
  have same: "wLenWritten ?w = wLenWritten (uWriter a)" "wImplicitProfileId ?w = p" "wContainerType ?w = ct"
    using updater_invD(6) [OF b(1)] updater_invD(6) [OF a(1)] b(7-9) v(5) a(7,8) assms(6,7) by simp_all
  have room: "wLenWritten ?w + wRemainingLen ?w = wLenWritten (uWriter a) + wRemainingLen (uWriter a) + length ?h"
    using updater_invD(1) [OF b(1)] updater_invD(1,3) [OF a(1)] b(2) v(8) a(5) len by simp
  have free: "free_writer ?w"
    using updater_invD(8) [OF b(1)] .
  then have fit: "wLenWritten ?w + length ?h \<le> wMaxLen ?w"
    using room same(1) by (simp add: free_writer_def)
  let ?w' = "(written ?h ?w)\<lparr>wContainerType := ty, wContainerOpen := False\<rparr>"
  have start: "TLVWriter_StartContainer tag ty ?w = (CHIP_NO_ERROR, Some ct, ?w')"
    using free_StartContainer [OF free, of tag ty] fit same assms(3,5) by simp
  let ?s = "store_writer ?w' ?b"
  note s = store_writer_ok [OF b(1) grows_StartContainer [OF free start]]
  obtain q' where q': "TLVReader_EnterContainer ?r = (CHIP_NO_ERROR, ct, q')" "before p ty rest q'" "TLVReader_GetType ?r = ty"
    "TLVReader_ElementType ?r = ty"
    using Enter_open [OF q(1,4) assms(5), of tag] q(2,3) by metis
  have r: "updater_reader ?s = ?r" "uReader ?s = uReader v"
    using s(3,7) b(3,5) v(3) by simp_all
  obtain q'' where q'': "TLVReader_EnterContainer (uReader ?s) = (CHIP_NO_ERROR, ct, q'')" "updater_reader (?s\<lparr>uReader := q''\<rparr>) = q'"
    using Enter_updater_reader [of ?s ct q'] q'(1) r(1) by metis
  have h: "rElemTag (uReader v) = tag" "TLVReader_GetType (uReader v) = ty" "TLVReader_ElementType (uReader v) = ty"
    using q'(3,4) v(3) by (metis updater_reader_simps(6) on_element_simps(2), metis updater_reader_simps(9), metis updater_reader_simps(8))
  have "TLVTypeIsContainer (int (unat (rControlByte (uReader v) AND 0x1F)))"
    using h(3) assms(5) by (auto simp: TLVReader_ElementType_def TLVTypeIsContainer_def split: if_splits)
  then have "TLVUpdater_EnterContainer v = Some (CHIP_NO_ERROR, Some ct, ?s\<lparr>uReader := q''\<rparr>)"
    using updater_invD(8) [OF v(2)] start s(1) q''(1) h b(5)
    by (simp add: TLVUpdater_EnterContainer_def b(12) not_less free_writer_def)
  moreover have "updater_inv (?s\<lparr>uReader := q''\<rparr>)"
    using updater_inv_reader_state(1) [OF s(2)] q''(1) by (auto simp: TLVReader_EnterContainer_def Let_def split: if_splits)
  moreover have "wBuf (uWriter ?s) = wBuf (uWriter u) @ ?h" "wRemainingLen (uWriter u) \<le> wRemainingLen (uWriter ?s)"
    using s(6) b(7) v(5) a(6,9) room same(1) by simp_all
  ultimately show thesis
    using that [of v "?s\<lparr>uReader := q''\<rparr>"] v(1) a(3) q'(2) q''(2) s(6) same by simp
qed

lemma Updater_Exit:
  assumes "updater_inv u" "TLVReader_ExitContainer outer (updater_reader u) = (CHIP_NO_ERROR, q)" "before p outer rest q"
    and "uElementStartAddr u + length rest < uBufEnd u" "TLVTypeIsContainer (wContainerType (uWriter u))"
  obtains u' where "TLVUpdater_ExitContainer outer u = Some (CHIP_NO_ERROR, u')" "updater_inv u'" "before p outer rest (updater_reader u')"
    "wBuf (uWriter u') = wBuf (uWriter u) @ [0x18]" "wContainerType (uWriter u') = outer"
    "wImplicitProfileId (uWriter u') = wImplicitProfileId (uWriter u)" "wRemainingLen (uWriter u) \<le> wRemainingLen (uWriter u')"
proof -
  have rp: "rReadPoint q = rest"
    using Exit_cleared [OF assms(2,3)] .
  obtain v where v: "on_reader (TLVReader_ExitContainer outer) u = Some (CHIP_NO_ERROR, v)" "updater_inv v" "updater_reader v = q"
    "uWriter v = uWriter u" "uReadPoint v = uBufEnd u - length rest"
    using on_reader_ok [OF assms(1) reader_op_methods(3) assms(2)] rp by metis
  let ?b = "adjust_space v"
  note b = Adjust_ok [OF v(2)]
  let ?w = "uWriter ?b"
  have same: "wLenWritten ?w = wLenWritten (uWriter u)" "wContainerType ?w = wContainerType (uWriter u)"
    using updater_invD(6) [OF b(1)] updater_invD(6) [OF assms(1)] b(7,8) v(4) by simp_all
  have room: "wRemainingLen (uWriter u) + 1 \<le> wRemainingLen ?w"
    using updater_invD(1) [OF b(1)] updater_invD(1) [OF assms(1)] b(2) v(5) assms(4) same(1) by linarith
  have free: "free_writer ?w"
    using updater_invD(8) [OF b(1)] .
  then have e: "TLVWriter_EndContainer outer ?w = (CHIP_NO_ERROR, written [0x18] (?w\<lparr>wContainerType := outer\<rparr>))"
    using room assms(5) same by (intro free_EndContainer) (simp_all add: free_writer_def)
  note o = on_writer_ok [OF b(1) writer_op_EndContainer e]
  note s = store_writer_ok [OF b(1) o(2)]
  have "TLVUpdater_ExitContainer outer u = Some (CHIP_NO_ERROR, store_writer (written [0x18] (?w\<lparr>wContainerType := outer\<rparr>)) ?b)"
    using v(1) o(1) by (simp add: TLVUpdater_ExitContainer_def b(12))
  then show thesis
    using that s(2,3,6) b(3,7,9) v(3,4) assms(3) room by simp
qed

subsection \<open>The edited document\<close>

text \<open>
  The state after a script: the output has grown by \<open>out\<close>, at most \<open>n\<close> bytes of the free space are used up, and the
  reader has met the end before \<open>bs\<close>.
\<close>

definition edits_done :: "32 word \<Rightarrow> TLVType \<Rightarrow> byte list \<Rightarrow> nat \<Rightarrow> byte list \<Rightarrow> tlv_updater \<Rightarrow> tlv_updater \<Rightarrow> bool" where
  "edits_done p ct bs n out u u' \<longleftrightarrow> updater_inv u' \<and> wBuf (uWriter u') = wBuf (uWriter u) @ out \<and>
     wContainerType (uWriter u') = ct \<and> wImplicitProfileId (uWriter u') = p \<and>
     wRemainingLen (uWriter u) \<le> wRemainingLen (uWriter u') + n \<and> uElementStartAddr u' + length bs = uBufEnd u' \<and>
     (\<exists>r. TLVReader_Next r = (CHIP_END_OF_TLV, updater_reader u') \<and> before p ct bs r)"

lemma edits_done_step:
  assumes "edits_done p ct bs n out v u'" "wBuf (uWriter v) = wBuf (uWriter u) @ out0"
    and "wRemainingLen (uWriter u) \<le> wRemainingLen (uWriter v) + n0"
  shows "edits_done p ct bs (n0 + n) (out0 @ out) u u'"
  using assms by (auto simp: edits_done_def)

fun tree_element :: "tlv_tree \<Rightarrow> tlv_element" where
  "tree_element (Value v) = Single v"
| "tree_element (Node ty us) = Whole ty (trees_events us @ [Close])"

lemma encode_tree:
  "encode p (trees_events ((tag, t) # ts)) = encode p (element_events tag (tree_element t)) @ encode p (trees_events ts)"
  by (cases t) (simp_all add: encode_append)

lemma tree_element_ok: "trees_ok ct ((tag, t) # ts) \<Longrightarrow> element_ok (tree_element t) \<and> tag_allowed ct tag \<and> api_tag tag \<and> trees_ok ct ts"
  using contents_trees [of _ _ "[]" "[Close]"] by (cases t) auto

lemma edits_ok:
  assumes "script_ok validate ct xs ts" "updater_inv u" "before p ct (encode p (trees_events ts) @ bs) (updater_reader u)" "trees_ok ct ts"
    and "wImplicitProfileId (uWriter u) = p" "wContainerType (uWriter u) = ct"
    and "inserted_len p xs \<le> wRemainingLen (uWriter u)" "bs = [] \<or> (\<exists>rest. bs = 0x18 # rest \<and> TLVTypeIsContainer ct)"
  shows "\<exists>u'. run_edits validate xs u = Some (CHIP_END_OF_TLV, u') \<and>
    edits_done p ct bs (inserted_len p xs) (encode p (trees_events (edited xs ts))) u u'"
  using assms
proof (induction validate ct xs ts arbitrary: u bs rule: script_ok.induct)
  case (1 validate ct tag v xs ts)
  note inv = updater_invD [OF "1.prems"(2)]
  let ?bs = "leaf_code p tag v" and ?w = "uWriter u"
  have fit: "wLenWritten ?w + length ?bs \<le> wMaxLen ?w"
    using "1.prems"(7) inv(8) by (simp add: free_writer_def)
  have put: "put_value validate tag v ?w = (CHIP_NO_ERROR, written ?bs ?w)"
    using put_value_free [OF inv(8), of tag validate v] "1.prems"(1,5,6) fit by simp
  have op: "writer_op (put_value validate tag v)"
    using "1.prems"(1) by (intro writer_op_put_value) (simp add: putable_def)
  let ?u = "store_writer (written ?bs ?w) u"
  note o = on_writer_ok [OF "1.prems"(2) op put]
  note s = store_writer_ok [OF "1.prems"(2) o(2)]
  have "\<exists>u'. run_edits validate xs ?u = Some (CHIP_END_OF_TLV, u') \<and>
      edits_done p ct bs (inserted_len p xs) (encode p (trees_events (edited xs ts))) ?u u'"
    using "1.prems" s by (intro "1.IH") (auto simp: edits_done_def)
  then obtain u' where u': "run_edits validate xs ?u = Some (CHIP_END_OF_TLV, u')"
    "edits_done p ct bs (inserted_len p xs) (encode p (trees_events (edited xs ts))) ?u u'"
    by blast
  have "wBuf (uWriter ?u) = wBuf (uWriter u) @ ?bs" "wRemainingLen (uWriter u) \<le> wRemainingLen (uWriter ?u) + length ?bs"
    unfolding s(6) by simp_all
  with u'(2) have "edits_done p ct bs (length ?bs + inserted_len p xs) (?bs @ encode p (trees_events (edited xs ts))) u u'"
    by (rule edits_done_step)
  then show ?case
    using u'(1) o(1) by simp
next
  case (2 validate ct xs t ts)
  obtain tag x where t: "t = (tag, x)"
    by force
  let ?e = "encode p (element_events tag (tree_element x))"
  have b: "before p ct (?e @ encode p (trees_events ts) @ bs) (updater_reader u)" "tag_allowed ct tag" "api_tag tag" "element_ok (tree_element x)"
    "trees_ok ct ts"
    using "2.prems"(3,4) tree_element_ok by (simp_all add: t encode_tree)
  obtain v where v: "TLVUpdater_Next u = Some (CHIP_NO_ERROR, v)" "updater_inv v"
    "before p ct (encode p (trees_events ts) @ bs) (updater_reader v)" "wBuf (uWriter v) = wBuf (uWriter u)"
    "wContainerType (uWriter v) = wContainerType (uWriter u)" "wImplicitProfileId (uWriter v) = wImplicitProfileId (uWriter u)"
    "wRemainingLen (uWriter u) \<le> wRemainingLen (uWriter v)" "TLVReader_ElementType (uReader v) \<noteq> ET_EndOfContainer"
    "TLVReader_ElementType (uReader v) \<noteq> ET_NotSpecified"
    "take (uBufEnd v - uElementStartAddr v) (drop (uElementStartAddr v) (uMem v)) = ?e @ encode p (trees_events ts) @ bs"
    using Updater_Next_element [OF "2.prems"(2) b(1-4)] .
  obtain w where w: "TLVUpdater_Move v = Some (CHIP_NO_ERROR, w)" "updater_inv w" "before p ct (encode p (trees_events ts) @ bs) (updater_reader w)"
    "wBuf (uWriter w) = wBuf (uWriter v) @ ?e" "wContainerType (uWriter w) = wContainerType (uWriter v)"
    "wImplicitProfileId (uWriter w) = wImplicitProfileId (uWriter v)" "wRemainingLen (uWriter w) = wRemainingLen (uWriter v)"
    using Move_element [OF v(2,3,8-10)] .
  have "\<exists>u'. run_edits validate xs w = Some (CHIP_END_OF_TLV, u') \<and>
      edits_done p ct bs (inserted_len p xs) (encode p (trees_events (edited xs ts))) w u'"
    using "2.prems" v w b(5) by (intro "2.IH") (auto simp: edits_done_def)
  then obtain u' where u': "run_edits validate xs w = Some (CHIP_END_OF_TLV, u')"
    "edits_done p ct bs (inserted_len p xs) (encode p (trees_events (edited xs ts))) w u'"
    by blast
  then have "edits_done p ct bs (0 + inserted_len p xs) (?e @ encode p (trees_events (edited xs ts))) u u'"
    using v(4,7) w(4,7) by (intro edits_done_step [OF u'(2)]) simp_all
  then show ?case
    using v(1) w(1) u'(1) by (simp add: t encode_tree)
next
  case (3 validate ct xs t ts)
  obtain tag x where t: "t = (tag, x)"
    by force
  let ?e = "encode p (element_events tag (tree_element x))"
  have b: "before p ct (?e @ encode p (trees_events ts) @ bs) (updater_reader u)" "tag_allowed ct tag" "api_tag tag" "element_ok (tree_element x)"
    "trees_ok ct ts"
    using "3.prems"(3,4) tree_element_ok by (simp_all add: t encode_tree)
  obtain v where v: "TLVUpdater_Next u = Some (CHIP_NO_ERROR, v)" "updater_inv v"
    "before p ct (encode p (trees_events ts) @ bs) (updater_reader v)" "wBuf (uWriter v) = wBuf (uWriter u)"
    "wContainerType (uWriter v) = wContainerType (uWriter u)" "wImplicitProfileId (uWriter v) = wImplicitProfileId (uWriter u)"
    "wRemainingLen (uWriter u) \<le> wRemainingLen (uWriter v)"
    using Updater_Next_element [OF "3.prems"(2) b(1-4)] by metis
  have "\<exists>u'. run_edits validate xs v = Some (CHIP_END_OF_TLV, u') \<and>
      edits_done p ct bs (inserted_len p xs) (encode p (trees_events (edited xs ts))) v u'"
    using "3.prems" v b(5) by (intro "3.IH") (auto simp: edits_done_def)
  then obtain u' where u': "run_edits validate xs v = Some (CHIP_END_OF_TLV, u')"
    "edits_done p ct bs (inserted_len p xs) (encode p (trees_events (edited xs ts))) v u'"
    by blast
  then have "edits_done p ct bs (0 + inserted_len p xs) ([] @ encode p (trees_events (edited xs ts))) u u'"
    using v(4,7) by (intro edits_done_step [OF u'(2)]) simp_all
  then show ?case
    using v(1) u'(1) by simp
next
  case (4 validate ct ys xs tag ty us ts)
  let ?h = "elem_head p ty tag 0" and ?rest = "encode p (trees_events ts) @ bs"
  have b: "before p ct (?h @ encode p (trees_events us) @ 0x18 # ?rest) (updater_reader u)"
    "tag_allowed ct tag" "api_tag tag" "TLVTypeIsContainer ty" "trees_ok ty us" "trees_ok ct ts"
    using "4.prems"(3,4) by (simp_all add: encode_append)
  obtain v w where v: "TLVUpdater_Next u = Some (CHIP_NO_ERROR, v)" "TLVUpdater_EnterContainer v = Some (CHIP_NO_ERROR, Some ct, w)"
    and w: "updater_inv w" "before p ty (encode p (trees_events us) @ 0x18 # ?rest) (updater_reader w)"
      "wBuf (uWriter w) = wBuf (uWriter u) @ ?h" "wContainerType (uWriter w) = ty" "wImplicitProfileId (uWriter w) = p"
      "wRemainingLen (uWriter u) \<le> wRemainingLen (uWriter w)"
    using Updater_Enter [OF "4.prems"(2) b(1-4) "4.prems"(5,6)] .
  have "\<exists>u'. run_edits validate ys w = Some (CHIP_END_OF_TLV, u') \<and>
      edits_done p ty (0x18 # ?rest) (inserted_len p ys) (encode p (trees_events (edited ys us))) w u'"
    using "4.prems"(1,7) w b(4,5) by (intro "4.IH"(1)) (auto simp: edits_done_def)
  then obtain a where a: "run_edits validate ys w = Some (CHIP_END_OF_TLV, a)"
    "edits_done p ty (0x18 # ?rest) (inserted_len p ys) (encode p (trees_events (edited ys us))) w a"
    by blast
  obtain r where r: "TLVReader_Next r = (CHIP_END_OF_TLV, updater_reader a)" "before p ty (0x18 # ?rest) r"
    using a(2) by (auto simp: edits_done_def)
  obtain q where q: "TLVReader_ExitContainer ct (updater_reader a) = (CHIP_NO_ERROR, q)" "before p ct ?rest q"
    using Next_close [OF r(2) b(4), of ct] r(1) by (metis prod.inject)
  obtain c where c: "TLVUpdater_ExitContainer ct a = Some (CHIP_NO_ERROR, c)" "updater_inv c" "before p ct ?rest (updater_reader c)"
    "wBuf (uWriter c) = wBuf (uWriter a) @ [0x18]" "wContainerType (uWriter c) = ct"
    "wImplicitProfileId (uWriter c) = wImplicitProfileId (uWriter a)" "wRemainingLen (uWriter a) \<le> wRemainingLen (uWriter c)"
    using Updater_Exit [OF _ q] a(2) b(4) by (auto simp: edits_done_def)
  have "\<exists>u'. run_edits validate xs c = Some (CHIP_END_OF_TLV, u') \<and>
      edits_done p ct bs (inserted_len p xs) (encode p (trees_events (edited xs ts))) c u'"
    using "4.prems"(1,7,8) w(6) a(2) c b(6) by (intro "4.IH"(2)) (auto simp: edits_done_def)
  then obtain u' where u': "run_edits validate xs c = Some (CHIP_END_OF_TLV, u')"
    "edits_done p ct bs (inserted_len p xs) (encode p (trees_events (edited xs ts))) c u'"
    by blast
  have "edits_done p ct bs (inserted_len p ys + inserted_len p xs)
      ((?h @ encode p (trees_events (edited ys us)) @ [0x18]) @ encode p (trees_events (edited xs ts))) u u'"
    using a(2) w(3,6) c(4,7) by (intro edits_done_step [OF u'(2)]) (auto simp: edits_done_def)
  then show ?case
    using v a(1) c(1) u'(1) by (simp add: encode_append)
next
  case (5 validate ct)
  then have "before p ct bs (updater_reader u)"
    by simp
  then obtain u' where "TLVUpdater_Next u = Some (CHIP_END_OF_TLV, u')" "updater_inv u'" "wBuf (uWriter u') = wBuf (uWriter u)"
    "wContainerType (uWriter u') = wContainerType (uWriter u)" "wImplicitProfileId (uWriter u') = wImplicitProfileId (uWriter u)"
    "wRemainingLen (uWriter u) \<le> wRemainingLen (uWriter u')" "uElementStartAddr u' + length bs = uBufEnd u'"
    "\<exists>r. TLVReader_Next r = (CHIP_END_OF_TLV, updater_reader u') \<and> before p ct bs r"
    using Updater_Next_end [OF "5.prems"(2)] "5.prems"(8) by metis
  then show ?case
    using "5.prems"(5,6) by (simp add: edits_done_def)
qed auto

end
