(* ===== verification/MsgCounter.thy ===== *)
theory MsgCounter
  imports ChipError Prelude "HOL-Library.Sublist"
begin

text \<open>
  The counters that protect messages from being replayed (\<^verbatim>\<open>src/transport/PeerMessageCounter.h\<close> and
  \<^verbatim>\<open>src/transport/MessageCounter.h\<close>). The union and the status of a peer counter are one datatype; the bit set is a
  word of 32 bits. \<open>None\<close> stands for \<^verbatim>\<open>VerifyOrDie\<close> and for a use of a member of the union that is not active.
\<close>

subsection \<open>Counters of peers\<close>

definition CHIP_CONFIG_MESSAGE_COUNTER_WINDOW_SIZE :: nat where
  [simp]: "CHIP_CONFIG_MESSAGE_COUNTER_WINDOW_SIZE = 32"

definition kInitialSyncValue :: "32 word" where
  [simp]: "kInitialSyncValue = 0"

record synced =
  mMaxCounter :: "32 word"
  mWindow :: "32 word"

datatype peer_counter = NotSynced | SyncInProcess "byte list" | Synced synced

definition PMC_Reset :: "peer_counter \<Rightarrow> peer_counter" where
  "PMC_Reset c = NotSynced"

definition PMC_IsSynchronizing :: "peer_counter \<Rightarrow> bool" where
  "PMC_IsSynchronizing c = (case c of SyncInProcess ch \<Rightarrow> True | _ \<Rightarrow> False)"

definition PMC_IsSynchronized :: "peer_counter \<Rightarrow> bool" where
  "PMC_IsSynchronized c = (case c of Synced y \<Rightarrow> True | _ \<Rightarrow> False)"

definition PMC_SyncStarting :: "byte list \<Rightarrow> peer_counter \<Rightarrow> peer_counter option" where
  "PMC_SyncStarting challenge c = (if c \<noteq> NotSynced then None else Some (SyncInProcess challenge))"

definition PMC_SyncFailed :: "peer_counter \<Rightarrow> peer_counter" where
  "PMC_SyncFailed c = PMC_Reset c"

definition PMC_VerifyChallenge :: "32 word \<Rightarrow> byte list \<Rightarrow> peer_counter \<Rightarrow> CHIP_ERROR \<times> peer_counter" where
  "PMC_VerifyChallenge counter challenge c =
    (case c of
       SyncInProcess mChallenge \<Rightarrow>
         if mChallenge \<noteq> challenge then (CHIP_ERROR_INVALID_ARGUMENT, c)
         else (CHIP_NO_ERROR, Synced \<lparr>mMaxCounter = counter, mWindow = 0\<rparr>)
     | _ \<Rightarrow> (CHIP_ERROR_INCORRECT_STATE, c))"

definition PMC_SetCounter :: "32 word \<Rightarrow> peer_counter \<Rightarrow> peer_counter" where
  "PMC_SetCounter value c = Synced \<lparr>mMaxCounter = value, mWindow = 0\<rparr>"

definition PMC_GetCounter :: "peer_counter \<Rightarrow> 32 word option" where
  "PMC_GetCounter c = (case c of Synced y \<Rightarrow> Some (mMaxCounter y) | _ \<Rightarrow> None)"

datatype Position = BeforeWindow | InWindow | MaxCounter | FutureCounter

definition ClassifyNonFutureCounter :: "32 word \<Rightarrow> synced \<Rightarrow> Position" where
  "ClassifyNonFutureCounter counter y =
    (if counter = mMaxCounter y then MaxCounter
     else (let offset = mMaxCounter y - counter
           in if unat offset \<le> CHIP_CONFIG_MESSAGE_COUNTER_WINDOW_SIZE then InWindow else BeforeWindow))"

definition ClassifyWithoutRollover :: "32 word \<Rightarrow> synced \<Rightarrow> Position" where
  "ClassifyWithoutRollover counter y = (if mMaxCounter y < counter then FutureCounter else ClassifyNonFutureCounter counter y)"

definition ClassifyWithRollover :: "32 word \<Rightarrow> synced \<Rightarrow> Position" where
  "ClassifyWithRollover counter y =
    (let counterIncrease = counter - mMaxCounter y; futureCounterWindow = 0x80000000 - 1
     in if 1 \<le> counterIncrease \<and> counterIncrease \<le> futureCounterWindow then FutureCounter else ClassifyNonFutureCounter counter y)"

definition VerifyPositionEncrypted :: "Position \<Rightarrow> 32 word \<Rightarrow> synced \<Rightarrow> CHIP_ERROR" where
  "VerifyPositionEncrypted position counter y =
    (case position of
       FutureCounter \<Rightarrow> CHIP_NO_ERROR
     | InWindow \<Rightarrow>
         (let offset = mMaxCounter y - counter
          in if bit (mWindow y) (unat (offset - 1)) then CHIP_ERROR_DUPLICATE_MESSAGE_RECEIVED else CHIP_NO_ERROR)
     | _ \<Rightarrow> CHIP_ERROR_DUPLICATE_MESSAGE_RECEIVED)"

definition VerifyPositionUnencrypted :: "Position \<Rightarrow> 32 word \<Rightarrow> synced \<Rightarrow> CHIP_ERROR" where
  "VerifyPositionUnencrypted position counter y =
    (case position of
       MaxCounter \<Rightarrow> CHIP_ERROR_DUPLICATE_MESSAGE_RECEIVED
     | InWindow \<Rightarrow>
         (let offset = mMaxCounter y - counter
          in if bit (mWindow y) (unat (offset - 1)) then CHIP_ERROR_DUPLICATE_MESSAGE_RECEIVED else CHIP_NO_ERROR)
     | _ \<Rightarrow> CHIP_NO_ERROR)"

definition CommitWithPosition :: "Position \<Rightarrow> 32 word \<Rightarrow> synced \<Rightarrow> synced" where
  "CommitWithPosition position counter y =
    (case position of
       InWindow \<Rightarrow> (let offset = mMaxCounter y - counter in y\<lparr>mWindow := set_bit (unat (offset - 1)) (mWindow y)\<rparr>)
     | MaxCounter \<Rightarrow> y
     | _ \<Rightarrow>
         (let shift = counter - mMaxCounter y; y = y\<lparr>mMaxCounter := counter\<rparr>
          in if CHIP_CONFIG_MESSAGE_COUNTER_WINDOW_SIZE < unat shift then y\<lparr>mWindow := 0\<rparr>
             else y\<lparr>mWindow := set_bit (unat (shift - 1)) (push_bit (unat shift) (mWindow y))\<rparr>))"

definition CommitWithRollover :: "32 word \<Rightarrow> synced \<Rightarrow> synced" where
  "CommitWithRollover counter y = CommitWithPosition (ClassifyWithRollover counter y) counter y"

definition CommitWithoutRollover :: "32 word \<Rightarrow> synced \<Rightarrow> synced" where
  "CommitWithoutRollover counter y = CommitWithPosition (ClassifyWithoutRollover counter y) counter y"

text \<open>Committing is only defined for a synchronized counter.\<close>

definition commit_synced :: "(synced \<Rightarrow> synced) \<Rightarrow> peer_counter \<Rightarrow> peer_counter option" where
  "commit_synced f c = (case c of Synced y \<Rightarrow> Some (Synced (f y)) | _ \<Rightarrow> None)"

definition PMC_VerifyGroup :: "32 word \<Rightarrow> peer_counter \<Rightarrow> CHIP_ERROR" where
  "PMC_VerifyGroup counter c =
    (case c of Synced y \<Rightarrow> VerifyPositionEncrypted (ClassifyWithRollover counter y) counter y | _ \<Rightarrow> CHIP_ERROR_INCORRECT_STATE)"

definition PMC_VerifyOrTrustFirstGroup :: "32 word \<Rightarrow> peer_counter \<Rightarrow> (CHIP_ERROR \<times> peer_counter) option" where
  "PMC_VerifyOrTrustFirstGroup counter c =
    (case c of
       NotSynced \<Rightarrow> Some (CHIP_NO_ERROR, PMC_SetCounter counter c)
     | Synced y \<Rightarrow> Some (PMC_VerifyGroup counter c, c)
     | SyncInProcess ch \<Rightarrow> None)"

definition PMC_CommitGroup :: "32 word \<Rightarrow> peer_counter \<Rightarrow> peer_counter option" where
  "PMC_CommitGroup counter c = commit_synced (CommitWithRollover counter) c"

definition PMC_VerifyEncryptedUnicast :: "32 word \<Rightarrow> peer_counter \<Rightarrow> CHIP_ERROR" where
  "PMC_VerifyEncryptedUnicast counter c =
    (case c of Synced y \<Rightarrow> VerifyPositionEncrypted (ClassifyWithoutRollover counter y) counter y | _ \<Rightarrow> CHIP_ERROR_INCORRECT_STATE)"

definition PMC_CommitEncryptedUnicast :: "32 word \<Rightarrow> peer_counter \<Rightarrow> peer_counter option" where
  "PMC_CommitEncryptedUnicast counter c = commit_synced (CommitWithoutRollover counter) c"

definition PMC_VerifyUnencrypted :: "32 word \<Rightarrow> peer_counter \<Rightarrow> (CHIP_ERROR \<times> peer_counter) option" where
  "PMC_VerifyUnencrypted counter c =
    (case c of
       NotSynced \<Rightarrow> Some (CHIP_NO_ERROR, PMC_SetCounter counter c)
     | Synced y \<Rightarrow> Some (VerifyPositionUnencrypted (ClassifyWithRollover counter y) counter y, c)
     | SyncInProcess ch \<Rightarrow> None)"

definition PMC_CommitUnencrypted :: "32 word \<Rightarrow> peer_counter \<Rightarrow> peer_counter option" where
  "PMC_CommitUnencrypted counter c = commit_synced (CommitWithRollover counter) c"


subsection \<open>Counters for sending\<close>

definition kMessageCounterRandomInitMask :: "32 word" where
  "kMessageCounterRandomInitMask = 0x0FFFFFFF"

definition kMessageCounterMax :: "32 word" where
  "kMessageCounterMax = 0xFFFFFFFF"

text \<open>The argument is the result of \<^verbatim>\<open>Crypto::GetRandU32\<close>.\<close>

definition GetDefaultInitialValuePredecessor :: "32 word \<Rightarrow> 32 word" where
  "GetDefaultInitialValuePredecessor random = random AND kMessageCounterRandomInitMask"

definition Global_AdvanceAndConsume :: "32 word \<Rightarrow> 32 word \<times> 32 word" where
  "Global_AdvanceAndConsume mLastUsedValue = (mLastUsedValue + 1, mLastUsedValue + 1)"

definition Session_AdvanceAndConsume :: "32 word \<Rightarrow> CHIP_ERROR \<times> 32 word option \<times> 32 word" where
  "Session_AdvanceAndConsume mLastUsedValue =
    (if mLastUsedValue = kMessageCounterMax then (CHIP_ERROR_MESSAGE_COUNTER_EXHAUSTED, None, mLastUsedValue)
     else (CHIP_NO_ERROR, Some (mLastUsedValue + 1), mLastUsedValue + 1))"


subsection \<open>Receiving\<close>

text \<open>
  A received message is verified and, if it is not a duplicate, committed (\<^verbatim>\<open>SessionManager.cpp\<close>). The result says whether
  the message was taken as new.
\<close>

definition receive_unicast :: "32 word \<Rightarrow> peer_counter \<Rightarrow> bool \<times> peer_counter" where
  "receive_unicast counter c =
    (if PMC_VerifyEncryptedUnicast counter c = CHIP_NO_ERROR then
       (case PMC_CommitEncryptedUnicast counter c of Some c' \<Rightarrow> (True, c') | None \<Rightarrow> (False, c))
     else (False, c))"

definition receive_group :: "32 word \<Rightarrow> peer_counter \<Rightarrow> bool \<times> peer_counter" where
  "receive_group counter c =
    (case PMC_VerifyOrTrustFirstGroup counter c of
       Some (CHIP_NO_ERROR, c1) \<Rightarrow> (case PMC_CommitGroup counter c1 of Some c' \<Rightarrow> (True, c') | None \<Rightarrow> (False, c1))
     | Some (err, c1) \<Rightarrow> (False, c1)
     | None \<Rightarrow> (False, c))"

definition receive_unencrypted :: "32 word \<Rightarrow> peer_counter \<Rightarrow> bool \<times> peer_counter" where
  "receive_unencrypted counter c =
    (case PMC_VerifyUnencrypted counter c of
       Some (CHIP_NO_ERROR, c1) \<Rightarrow> (case PMC_CommitUnencrypted counter c1 of Some c' \<Rightarrow> (True, c') | None \<Rightarrow> (False, c1))
     | Some (err, c1) \<Rightarrow> (False, c1)
     | None \<Rightarrow> (False, c))"

fun receive_all :: "(32 word \<Rightarrow> peer_counter \<Rightarrow> bool \<times> peer_counter) \<Rightarrow> 32 word list \<Rightarrow> peer_counter \<Rightarrow> bool list" where
  "receive_all recv [] c = []"
| "receive_all recv (n # ns) c = (case recv n c of (new, c) \<Rightarrow> new # receive_all recv ns c)"


subsection \<open>The reference: unbounded counters\<close>

text \<open>
  With unbounded counters a message is new if its counter was not accepted before and is not more than 32 behind the
  largest one. \<open>seen\<close> holds the accepted counters.
\<close>

definition fresh :: "int list \<Rightarrow> int \<Rightarrow> bool" where
  "fresh seen n \<longleftrightarrow> n \<notin> set seen \<and> Max (set seen) \<le> n + 32"

definition accept :: "int list \<Rightarrow> int \<Rightarrow> int list" where
  "accept seen n = n # seen"

text \<open>For unencrypted messages a counter far behind is a peer that has started again.\<close>

definition fresh_or_restarted :: "int list \<Rightarrow> int \<Rightarrow> bool" where
  "fresh_or_restarted seen n \<longleftrightarrow> n \<notin> set seen \<or> n + 32 < Max (set seen)"

definition accept_or_restart :: "int list \<Rightarrow> int \<Rightarrow> int list" where
  "accept_or_restart seen n = (if n + 32 < Max (set seen) then [n] else n # seen)"

fun filter_all :: "(int list \<Rightarrow> int \<Rightarrow> bool) \<Rightarrow> (int list \<Rightarrow> int \<Rightarrow> int list) \<Rightarrow> int list \<Rightarrow> int list \<Rightarrow> bool list" where
  "filter_all ok acc seen [] = []"
| "filter_all ok acc seen (n # ns) = ok seen n # filter_all ok acc (if ok seen n then acc seen n else seen) ns"

text \<open>Every counter is in the range where its reduction to 32 bits can be told from the others.\<close>

fun all_in_range ::
  "(int list \<Rightarrow> int \<Rightarrow> bool) \<Rightarrow> (int list \<Rightarrow> int \<Rightarrow> bool) \<Rightarrow> (int list \<Rightarrow> int \<Rightarrow> int list) \<Rightarrow> int list \<Rightarrow> int list \<Rightarrow> bool" where
  "all_in_range rng ok acc seen [] \<longleftrightarrow> True"
| "all_in_range rng ok acc seen (n # ns) \<longleftrightarrow> rng seen n \<and> all_in_range rng ok acc (if ok seen n then acc seen n else seen) ns"

definition in_32_bits :: "int list \<Rightarrow> int \<Rightarrow> bool" where
  "in_32_bits seen n \<longleftrightarrow> 0 \<le> n \<and> n < 2 ^ 32"

definition in_half_range :: "int list \<Rightarrow> int \<Rightarrow> bool" where
  "in_half_range seen n \<longleftrightarrow> Max (set seen) - 2 ^ 31 \<le> n \<and> n < Max (set seen) + 2 ^ 31"

text \<open>The counter and the window of a peer stand for the accepted counters.\<close>

definition window_of :: "int list \<Rightarrow> synced \<Rightarrow> bool" where
  "window_of seen y \<longleftrightarrow> seen \<noteq> [] \<and> mMaxCounter y = of_int (Max (set seen)) \<and>
     (\<forall>i < 32. bit (mWindow y) i \<longleftrightarrow> Max (set seen) - 1 - int i \<in> set seen)"

definition peer_seen :: "int list \<Rightarrow> peer_counter \<Rightarrow> bool" where
  "peer_seen seen c \<longleftrightarrow> (case c of Synced y \<Rightarrow> window_of seen y | _ \<Rightarrow> False)"

definition peer_seen_32 :: "int list \<Rightarrow> peer_counter \<Rightarrow> bool" where
  "peer_seen_32 seen c \<longleftrightarrow> peer_seen seen c \<and> 0 \<le> Max (set seen) \<and> Max (set seen) < 2 ^ 32"

locale counter_filter =
  fixes recv :: "32 word \<Rightarrow> peer_counter \<Rightarrow> bool \<times> peer_counter"
    and ok :: "int list \<Rightarrow> int \<Rightarrow> bool" and acc :: "int list \<Rightarrow> int \<Rightarrow> int list"
    and rng :: "int list \<Rightarrow> int \<Rightarrow> bool" and rep :: "int list \<Rightarrow> peer_counter \<Rightarrow> bool"
  assumes recv_ok: "rep seen c \<Longrightarrow> rng seen n \<Longrightarrow>
    \<exists>c'. recv (of_int n) c = (ok seen n, c') \<and> rep (if ok seen n then acc seen n else seen) c'"
begin

lemma receive_all_filter:
  "rep seen c \<Longrightarrow> all_in_range rng ok acc seen ns \<Longrightarrow> receive_all recv (map of_int ns) c = filter_all ok acc seen ns"
proof (induction ns arbitrary: seen c)
  case (Cons n ns)
  then obtain c' where c': "recv (of_int n) c = (ok seen n, c')" "rep (if ok seen n then acc seen n else seen) c'"
    using recv_ok [of seen c n] by auto
  then show ?case
    using Cons.IH [of "if ok seen n then acc seen n else seen" c'] Cons.prems by simp
qed simp

end

subsection \<open>Positions\<close>

definition position :: "int \<Rightarrow> int \<Rightarrow> Position" where
  "position M n = (if M < n then FutureCounter else if n = M then MaxCounter else if M - n \<le> 32 then InWindow else BeforeWindow)"

lemma uint_diff: "uint (of_int a - of_int b :: 32 word) = (a - b) mod 2 ^ 32"
proof -
  have "of_int a - of_int b = (of_int (a - b) :: 32 word)"
    by simp
  then show ?thesis
    by (simp only: uint_word_of_int) simp
qed

lemma unat_diff: "0 \<le> a - b \<Longrightarrow> a - b < 2 ^ 32 \<Longrightarrow> unat (of_int a - of_int b :: 32 word) = nat (a - b)"
  by (simp only: unat_eq_nat_uint uint_diff) simp

lemma uint_diff_close:
  assumes "- (2 ^ 31) \<le> a - b" "a - b < 2 ^ 31"
  shows "uint (of_int a - of_int b :: 32 word) = (if b \<le> a then a - b else a - b + 2 ^ 32)"
proof (cases "b \<le> a")
  case True
  then show ?thesis
    using assms unfolding uint_diff by simp
next
  case False
  have "(a - b) mod 2 ^ 32 = (a - b + 2 ^ 32) mod 2 ^ 32"
    by (rule mod_add_self2 [symmetric])
  also have "\<dots> = a - b + 2 ^ 32"
    using assms False by (intro mod_pos_pos_trivial) simp_all
  finally show ?thesis
    using False unfolding uint_diff by simp
qed

lemma of_int_eq_close:
  assumes "- (2 ^ 31) \<le> a - b" "a - b < 2 ^ 31"
  shows "(of_int a :: 32 word) = of_int b \<longleftrightarrow> a = b"
proof
  assume "(of_int a :: 32 word) = of_int b"
  then have "uint (of_int a - of_int b :: 32 word) = 0"
    by simp
  then show "a = b"
    using assms unfolding uint_diff_close [OF assms] by (simp split: if_splits)
qed simp

lemma classify_non_future:
  assumes "mMaxCounter y = of_int M" "- (2 ^ 31) \<le> n - M" "n \<le> M"
  shows "ClassifyNonFutureCounter (of_int n) y = position M n"
  using assms of_int_eq_close [of n M] unat_diff [of M n]
  by (simp add: ClassifyNonFutureCounter_def position_def) linarith

lemma classify_rollover:
  assumes "mMaxCounter y = of_int M" "- (2 ^ 31) \<le> n - M" "n - M < 2 ^ 31"
  shows "ClassifyWithRollover (of_int n) y = position M n"
proof -
  let ?d = "of_int n - of_int M :: 32 word"
  have "1 \<le> ?d \<and> ?d \<le> 0x80000000 - 1 \<longleftrightarrow> M < n"
    using assms(2,3) unfolding word_le_def uint_diff_close [OF assms(2,3)] by auto
  then show ?thesis
    using assms classify_non_future [of y M n] by (auto simp: ClassifyWithRollover_def Let_def position_def)
qed

lemma classify_32:
  assumes "mMaxCounter y = of_int M" "0 \<le> M" "M < 2 ^ 32" "0 \<le> n" "n < 2 ^ 32"
  shows "ClassifyWithoutRollover (of_int n) y = position M n"
proof -
  have u: "uint (of_int n :: 32 word) = n" "uint (of_int M :: 32 word) = M"
    using assms(2-5) by (simp_all add: uint_word_of_int)
  then have "mMaxCounter y < of_int n \<longleftrightarrow> M < n" "of_int n = mMaxCounter y \<longleftrightarrow> n = M"
    unfolding assms(1) by (simp_all add: word_less_def word_uint_eq_iff del: word_of_int_eq_iff)
  moreover have "unat (mMaxCounter y - of_int n) = nat (M - n)" if "n \<le> M"
    using unat_diff [of M n] assms that by simp
  ultimately show ?thesis
    by (auto simp: ClassifyWithoutRollover_def ClassifyNonFutureCounter_def position_def Let_def)
qed

subsection \<open>Verifying and committing\<close>

lemma unat_offset: "n < M \<Longrightarrow> M - n \<le> 2 ^ 32 \<Longrightarrow> unat (of_int M - of_int n - 1 :: 32 word) = nat (M - n - 1)"
  using unat_diff [of M "n + 1"] by (simp add: diff_diff_eq)

lemma window_ofD:
  assumes "window_of seen y" "M = Max (set seen)"
  shows "mMaxCounter y = of_int M" "M \<in> set seen" "i < 32 \<Longrightarrow> bit (mWindow y) i \<longleftrightarrow> M - 1 - int i \<in> set seen" "seen \<noteq> []"
  using assms by (simp_all add: window_of_def)

lemma window_bit:
  assumes "window_of seen y" "M = Max (set seen)" "n < M" "M \<le> n + 32"
  shows "bit (mWindow y) (unat (mMaxCounter y - of_int n - 1)) \<longleftrightarrow> n \<in> set seen"
proof -
  have "unat (mMaxCounter y - of_int n - 1) = nat (M - n - 1)"
    unfolding window_ofD(1) [OF assms(1,2)] using assms(3,4) by (intro unat_offset) simp_all
  moreover have "nat (M - n - 1) < 32" "M - 1 - int (nat (M - n - 1)) = n"
    using assms(3,4) by linarith+
  ultimately show ?thesis
    using assms(1,2) by (simp add: window_of_def)
qed

lemma above_Max: "Max (set seen) < n \<Longrightarrow> n \<notin> set seen"
  by (meson List.finite_set Max_ge leD)

lemma verify_encrypted:
  assumes "window_of seen y" "M = Max (set seen)"
  shows "VerifyPositionEncrypted (position M n) (of_int n) y = (if fresh seen n then CHIP_NO_ERROR else CHIP_ERROR_DUPLICATE_MESSAGE_RECEIVED)"
proof -
  have "M \<in> set seen"
    using assms by (simp add: window_of_def)
  then show ?thesis
    using window_bit [OF assms, of n] above_Max [of seen n] assms(2)
    by (auto simp: VerifyPositionEncrypted_def position_def fresh_def Let_def)
qed

lemma verify_unencrypted:
  assumes "window_of seen y" "M = Max (set seen)"
  shows "VerifyPositionUnencrypted (position M n) (of_int n) y =
    (if fresh_or_restarted seen n then CHIP_NO_ERROR else CHIP_ERROR_DUPLICATE_MESSAGE_RECEIVED)"
proof -
  have "M \<in> set seen"
    using assms by (simp add: window_of_def)
  then show ?thesis
    using window_bit [OF assms, of n] above_Max [of seen n] assms(2)
    by (auto simp: VerifyPositionUnencrypted_def position_def fresh_or_restarted_def Let_def)
qed

lemma Max_accept: "seen \<noteq> [] \<Longrightarrow> Max (set (n # seen)) = max n (Max (set seen))"
  by simp

text \<open>A new largest counter moves the window.\<close>

lemma commit_future:
  assumes "window_of seen y" "M = Max (set seen)" "M < n" "n - M < 2 ^ 32"
  shows "window_of (n # seen) (CommitWithPosition FutureCounter (of_int n) y)"
proof -
  define d where "d = nat (n - M)"
  have d: "0 < d" "n = M + int d"
    using assms(3) by (simp_all add: d_def)
  have u: "unat (of_int n - mMaxCounter y) = d" "unat (of_int n - mMaxCounter y - 1) = d - 1"
    unfolding window_ofD(1) [OF assms(1,2)] d_def using assms(3,4) unat_diff [of n M] unat_offset [of M n] by (simp_all add: nat_diff_distrib)
  have w: "bit (mWindow y) i \<longleftrightarrow> M - 1 - int i \<in> set seen" if "i < 32" for i
    using assms(1,2) that by (simp add: window_of_def)
  have M: "M \<in> set seen" "Max (set (n # seen)) = n"
    using assms Max_accept [of seen n] by (auto simp: window_of_def)
  have in_seen: "n - 1 - int i \<in> set (n # seen) \<longleftrightarrow> i = d - 1 \<or> d \<le> i \<and> M - 1 - int (i - d) \<in> set seen" for i
  proof -
    consider "i < d - 1" | "i = d - 1" | "d \<le> i"
      by linarith
    then show ?thesis
    proof cases
      case 1
      then have "M < n - 1 - int i"
        using d by linarith
      then show ?thesis
        using above_Max [of seen "n - 1 - int i"] assms(2) 1 by auto
    next
      case 2
      then have "n - 1 - int i = M"
        using d by linarith
      then show ?thesis
        using M(1) 2 by simp
    next
      case 3
      then have e: "n - 1 - int i = M - 1 - int (i - d)" "n - 1 - int i \<noteq> n" "i \<noteq> d - 1"
        using d by linarith+
      show ?thesis
        unfolding e(1) using 3 e(2,3) unfolding e(1) by simp
    qed
  qed
  show ?thesis
  proof (cases "32 < d")
    case True
    then show ?thesis
      using in_seen M(2) by (auto simp: window_of_def CommitWithPosition_def Let_def u)
  next
    case False
    then show ?thesis
      using in_seen M(2) w by (auto simp: window_of_def CommitWithPosition_def Let_def u bit_set_bit_iff bit_push_bit_iff)
  qed
qed

lemma commit_in_window:
  assumes "window_of seen y" "M = Max (set seen)" "n < M" "M \<le> n + 32"
  shows "window_of (n # seen) (CommitWithPosition InWindow (of_int n) y)"
proof -
  let ?y = "CommitWithPosition InWindow (of_int n) y" and ?k = "nat (M - n - 1)"
  note y = window_ofD [OF assms(1,2)]
  have "unat (mMaxCounter y - of_int n - 1) = ?k"
    unfolding y(1) using assms(3,4) by (intro unat_offset) simp_all
  then have "?y = y\<lparr>mWindow := set_bit ?k (mWindow y)\<rparr>"
    by (simp add: CommitWithPosition_def Let_def)
  moreover have "Max (set (n # seen)) = M"
    using Max_accept [OF y(4), of n] assms(2,3) by (simp add: max_def)
  moreover have "bit (set_bit ?k (mWindow y)) i \<longleftrightarrow> M - 1 - int i \<in> set (n # seen)" if "i < 32" for i
  proof -
    have "?k = i \<longleftrightarrow> M - 1 - int i = n"
      using assms(3) by linarith
    then show ?thesis
      using y(3) [OF that] that by (auto simp: bit_set_bit_iff)
  qed
  ultimately show ?thesis
    using y(1) unfolding window_of_def by simp
qed

lemma commit_restart:
  assumes "window_of seen y" "M = Max (set seen)" "n + 32 < M" "- (2 ^ 31) \<le> n - M"
  shows "window_of [n] (CommitWithPosition BeforeWindow (of_int n) y)"
proof -
  have "uint (of_int n - mMaxCounter y) = n - M + 2 ^ 32"
    unfolding window_ofD(1) [OF assms(1,2)] using assms(3,4) uint_diff_close [of n M] by simp
  then have "32 < unat (of_int n - mMaxCounter y)"
    using assms(4) unfolding unat_eq_nat_uint by simp
  then show ?thesis
    by (simp add: window_of_def CommitWithPosition_def Let_def)
qed

lemma commit_fresh:
  assumes "window_of seen y" "M = Max (set seen)" "fresh seen n" "n - M < 2 ^ 32"
  shows "window_of (accept seen n) (CommitWithPosition (position M n) (of_int n) y)"
proof -
  have "n \<noteq> M" "M \<le> n + 32"
    using window_ofD(2) [OF assms(1,2)] assms(3) unfolding fresh_def assms(2) [symmetric] by auto
  then have "M < n \<or> n < M \<and> M \<le> n + 32"
    by linarith
  then show ?thesis
    using commit_future [OF assms(1,2)] commit_in_window [OF assms(1,2)] assms(4) by (auto simp: position_def accept_def)
qed

subsection \<open>The receivers are filters\<close>

lemma receive_unicast_ok:
  assumes "peer_seen_32 seen c" "in_32_bits seen n"
  shows "\<exists>c'. receive_unicast (of_int n) c = (fresh seen n, c') \<and> peer_seen_32 (if fresh seen n then accept seen n else seen) c'"
proof -
  define M where "M = Max (set seen)"
  obtain y where c: "c = Synced y" and y: "window_of seen y" and M: "0 \<le> M" "M < 2 ^ 32"
    using assms(1) by (auto simp: peer_seen_32_def peer_seen_def M_def split: peer_counter.splits)
  have cl: "ClassifyWithoutRollover (of_int n) y = position M n"
    using assms(2) M classify_32 [OF window_ofD(1) [OF y M_def]] by (simp add: in_32_bits_def)
  have v: "PMC_VerifyEncryptedUnicast (of_int n) c = CHIP_NO_ERROR \<longleftrightarrow> fresh seen n"
    using verify_encrypted [OF y M_def] by (simp add: PMC_VerifyEncryptedUnicast_def c cl)
  show ?thesis
  proof (cases "fresh seen n")
    case True
    have "window_of (accept seen n) (CommitWithPosition (position M n) (of_int n) y)"
      using commit_fresh [OF y M_def True] assms(2) M by (simp add: in_32_bits_def)
    moreover have "0 \<le> Max (set (accept seen n))" "Max (set (accept seen n)) < 2 ^ 32"
      using Max_accept [OF window_ofD(4) [OF y M_def], of n] M assms(2) by (simp_all add: accept_def M_def in_32_bits_def)
    ultimately show ?thesis
      using v True c cl by (simp add: receive_unicast_def PMC_CommitEncryptedUnicast_def commit_synced_def CommitWithoutRollover_def
          peer_seen_32_def peer_seen_def)
  next
    case False
    then show ?thesis
      using v assms(1) by (simp add: receive_unicast_def)
  qed
qed

lemma classify_half:
  assumes "window_of seen y" "in_half_range seen n"
  shows "ClassifyWithRollover (of_int n) y = position (Max (set seen)) n"
  using assms(2) by (intro classify_rollover [OF window_ofD(1) [OF assms(1) refl]]) (simp_all add: in_half_range_def)

lemma receive_group_ok:
  assumes "peer_seen seen c" "in_half_range seen n"
  shows "\<exists>c'. receive_group (of_int n) c = (fresh seen n, c') \<and> peer_seen (if fresh seen n then accept seen n else seen) c'"
proof -
  define M where "M = Max (set seen)"
  obtain y where c: "c = Synced y" and y: "window_of seen y"
    using assms(1) by (auto simp: peer_seen_def split: peer_counter.splits)
  have cl: "ClassifyWithRollover (of_int n) y = position M n"
    unfolding M_def by (rule classify_half [OF y assms(2)])
  have v: "PMC_VerifyOrTrustFirstGroup (of_int n) c = Some (if fresh seen n then CHIP_NO_ERROR else CHIP_ERROR_DUPLICATE_MESSAGE_RECEIVED, c)"
    using verify_encrypted [OF y M_def] by (simp add: PMC_VerifyOrTrustFirstGroup_def PMC_VerifyGroup_def c cl)
  have "window_of (accept seen n) (CommitWithPosition (position M n) (of_int n) y)" if "fresh seen n"
    using commit_fresh [OF y M_def that] assms(2) by (simp add: in_half_range_def M_def)
  then show ?thesis
    using v assms(1) c cl by (simp add: receive_group_def PMC_CommitGroup_def commit_synced_def CommitWithRollover_def peer_seen_def)
qed

lemma commit_unencrypted:
  assumes "window_of seen y" "M = Max (set seen)" "fresh_or_restarted seen n" "- (2 ^ 31) \<le> n - M" "n - M < 2 ^ 32"
  shows "window_of (accept_or_restart seen n) (CommitWithPosition (position M n) (of_int n) y)"
proof (cases "n + 32 < M")
  case True
  then show ?thesis
    using commit_restart [OF assms(1,2) True assms(4)] assms(2) by (auto simp: accept_or_restart_def position_def)
next
  case False
  then have "fresh seen n"
    using assms(2,3) by (auto simp: fresh_def fresh_or_restarted_def)
  then show ?thesis
    using commit_fresh [OF assms(1,2) _ assms(5)] False assms(2) by (simp add: accept_or_restart_def accept_def)
qed

lemma receive_unencrypted_ok:
  assumes "peer_seen seen c" "in_half_range seen n"
  shows "\<exists>c'. receive_unencrypted (of_int n) c = (fresh_or_restarted seen n, c') \<and>
    peer_seen (if fresh_or_restarted seen n then accept_or_restart seen n else seen) c'"
proof -
  define M where "M = Max (set seen)"
  obtain y where c: "c = Synced y" and y: "window_of seen y"
    using assms(1) by (auto simp: peer_seen_def split: peer_counter.splits)
  have cl: "ClassifyWithRollover (of_int n) y = position M n"
    unfolding M_def by (rule classify_half [OF y assms(2)])
  have v: "PMC_VerifyUnencrypted (of_int n) c =
      Some (if fresh_or_restarted seen n then CHIP_NO_ERROR else CHIP_ERROR_DUPLICATE_MESSAGE_RECEIVED, c)"
    using verify_unencrypted [OF y M_def] by (simp add: PMC_VerifyUnencrypted_def c cl)
  have "window_of (accept_or_restart seen n) (CommitWithPosition (position M n) (of_int n) y)" if "fresh_or_restarted seen n"
    using commit_unencrypted [OF y M_def that] assms(2) by (simp add: in_half_range_def M_def)
  then show ?thesis
    using v assms(1) c cl by (simp add: receive_unencrypted_def PMC_CommitUnencrypted_def commit_synced_def CommitWithRollover_def peer_seen_def)
qed

interpretation unicast: counter_filter receive_unicast fresh accept in_32_bits peer_seen_32
  by unfold_locales (rule receive_unicast_ok)

interpretation group: counter_filter receive_group fresh accept in_half_range peer_seen
  by unfold_locales (rule receive_group_ok)

interpretation unencrypted: counter_filter receive_unencrypted fresh_or_restarted accept_or_restart in_half_range peer_seen
  by unfold_locales (rule receive_unencrypted_ok)

lemma window_of_start: "mMaxCounter y = of_int m \<Longrightarrow> mWindow y = 0 \<Longrightarrow> window_of [m] y"
  by (simp add: window_of_def)

text \<open>After \<^verbatim>\<open>SetCounter\<close> only the value that was set counts as seen.\<close>

lemma SetCounter_seen: "peer_seen [m] (PMC_SetCounter (of_int m) c)" "peer_seen_32 [uint m'] (PMC_SetCounter m' c)"
  using uint_lt2p [of m'] by (simp_all add: PMC_SetCounter_def peer_seen_def peer_seen_32_def window_of_start)

lemma words_in_range: "all_in_range in_32_bits ok acc seen (map uint (cs :: 32 word list))"
proof (induction cs arbitrary: seen)
  case (Cons c cs)
  then show ?case
    using uint_lt2p [of c] by (simp add: in_32_bits_def)
qed simp

lemma receive_unicast_filter:
  "receive_all receive_unicast cs (PMC_SetCounter m c) = filter_all fresh accept [uint m] (map uint cs)"
proof -
  have "receive_all receive_unicast (map of_int (map uint cs)) (PMC_SetCounter m c) = filter_all fresh accept [uint m] (map uint cs)"
    by (rule unicast.receive_all_filter [OF SetCounter_seen(2) words_in_range])
  then show ?thesis
    by (simp add: comp_def)
qed


text \<open>The first counter of a group peer is trusted.\<close>

lemma receive_group_first:
  assumes "all_in_range in_half_range fresh accept [n] ns"
  shows "receive_all receive_group (map of_int (n # ns)) NotSynced = True # filter_all fresh accept [n] ns"
proof -
  have "CommitWithRollover (of_int n) \<lparr>mMaxCounter = of_int n, mWindow = 0\<rparr> = \<lparr>mMaxCounter = of_int n, mWindow = 0\<rparr>"
    by (simp add: CommitWithRollover_def ClassifyWithRollover_def ClassifyNonFutureCounter_def CommitWithPosition_def)
  then have "receive_group (of_int n) NotSynced = (True, PMC_SetCounter (of_int n) NotSynced)"
    by (simp add: receive_group_def PMC_VerifyOrTrustFirstGroup_def PMC_CommitGroup_def commit_synced_def PMC_SetCounter_def)
  then show ?thesis
    using group.receive_all_filter [OF SetCounter_seen(1) assms] by simp
qed


subsection \<open>What the filters accept\<close>

definition accepted :: "'a list \<Rightarrow> bool list \<Rightarrow> 'a list" where
  "accepted ns bs = map fst (filter snd (zip ns bs))"

lemma accepted_simps [simp]: "accepted [] bs = []" "accepted (n # ns) (b # bs) = (if b then n # accepted ns bs else accepted ns bs)"
  by (simp_all add: accepted_def)

lemma accepted_map: "accepted (map f ns) bs = map f (accepted ns bs)"
  by (simp add: accepted_def zip_map1 filter_map comp_def case_prod_unfold)

lemma filter_all_distinct:
  "distinct (accepted ns (filter_all fresh accept seen ns)) \<and> set (accepted ns (filter_all fresh accept seen ns)) \<inter> set seen = {}"
proof (induction ns arbitrary: seen)
  case (Cons n ns)
  then show ?case
    using Cons.IH [of "accept seen n"] by (auto simp: fresh_def accept_def)
qed simp

lemma filter_all_increasing:
  "seen \<noteq> [] \<Longrightarrow> sorted_wrt (<) ns \<Longrightarrow> \<forall>n \<in> set ns. Max (set seen) < n \<Longrightarrow> filter_all fresh accept seen ns = replicate (length ns) True"
proof (induction ns arbitrary: seen)
  case (Cons n ns)
  have "fresh seen n"
    using Cons.prems above_Max [of seen n] by (auto simp: fresh_def)
  moreover have "filter_all fresh accept (accept seen n) ns = replicate (length ns) True"
    using Cons.prems by (intro Cons.IH) (auto simp: accept_def)
  ultimately show ?case
    by simp
qed simp


subsection \<open>The sending side\<close>

fun session_calls :: "nat \<Rightarrow> 32 word \<Rightarrow> 32 word option list" where
  "session_calls 0 v = []"
| "session_calls (Suc k) v = (case Session_AdvanceAndConsume v of (err, fetch, v) \<Rightarrow> fetch # session_calls k v)"

lemma Session_next:
  "Session_AdvanceAndConsume v =
    (if uint v = 2 ^ 32 - 1 then (CHIP_ERROR_MESSAGE_COUNTER_EXHAUSTED, None, v)
     else (CHIP_NO_ERROR, Some (v + 1), v + 1))"
proof -
  have "v = kMessageCounterMax \<longleftrightarrow> uint v = 2 ^ 32 - 1"
    by (simp add: kMessageCounterMax_def word_uint_eq_iff)
  then show ?thesis
    by (simp add: Session_AdvanceAndConsume_def)
qed

lemma session_calls_eq:
  "session_calls k v = map (\<lambda>i. if uint v + int i < 2 ^ 32 then Some (word_of_int (uint v + int i)) else None) [Suc 0..<Suc k]"
proof (induction k arbitrary: v)
  case (Suc k)
  have shift: "map f [Suc 0..<Suc (Suc k)] = f (Suc 0) # map (\<lambda>i. f (Suc i)) [Suc 0..<Suc k]" for f :: "nat \<Rightarrow> 32 word option"
    by (simp add: upt_conv_Cons map_Suc_upt [symmetric] del: upt_Suc map_Suc_upt)
  have v: "uint v < 2 ^ 32"
    using uint_lt2p [of v] by simp
  show ?case
  proof (cases "uint v = 2 ^ 32 - 1")
    case True
    then show ?thesis
      using Suc [of v] by (simp add: Session_next shift del: upt_Suc)
  next
    case False
    then have "uint (v + 1) = uint v + 1"
      using v by (simp add: uint_plus_if')
    then show ?thesis
      using Suc [of "v + 1"] False v by (simp add: Session_next shift algebra_simps del: upt_Suc)
  qed
qed simp

text \<open>The counters that a session sends, and a part of them in their order.\<close>

lemma session_sent:
  "sorted_wrt (<) (map uint (List.map_filter id (session_calls k v))) \<and>
   (\<forall>x \<in> set (List.map_filter id (session_calls k v)). uint v < uint x)"
proof (induction k arbitrary: v)
  case (Suc k)
  show ?case
  proof (cases "uint v = 2 ^ 32 - 1")
    case False
    then have "uint (v + 1) = uint v + 1"
      using uint_lt2p [of v] by (simp add: uint_plus_if')
    then show ?thesis
      using Suc [of "v + 1"] False by (fastforce simp: Session_next List.map_filter_simps)
  qed (use Suc [of v] in \<open>simp add: Session_next List.map_filter_simps\<close>)
qed (simp add: List.map_filter_simps)

lemma subseq_sent: "subseq (map Some cs) ys \<Longrightarrow> subseq cs (List.map_filter id ys)"
proof (induction ys arbitrary: cs)
  case (Cons y ys)
  then show ?case
    by (cases cs; cases y) (auto simp: List.map_filter_simps split: if_splits)
qed (auto simp: List.map_filter_simps dest!: list_emb_Nil2)

lemma sorted_wrt_subseq: "subseq xs ys \<Longrightarrow> sorted_wrt r ys \<Longrightarrow> sorted_wrt r xs"
proof (induction rule: list_emb.induct)
  case (list_emb_Cons2 x y xs ys)
  then show ?case
    using list_emb_set [of "(=)" xs ys] by (auto)
qed simp_all

end
