(* ===== verification/SlotArray.thy ===== *)
theory SlotArray
  imports Main
begin

text \<open>
  Static arrays whose used slots come first, with a key in each slot and a value of the key for free slots: the loops of the
  source that search them, and what adding, changing and removing an entry does to the entries.
\<close>

subsection \<open>Searching\<close>

text \<open>The loops stop at the first slot that is free or has the key.\<close>

fun find_slot :: "('a \<Rightarrow> 'k) \<Rightarrow> 'k \<Rightarrow> 'k \<Rightarrow> 'a list \<Rightarrow> nat option" where
  "find_slot key undef k [] = None"
| "find_slot key undef k (x # xs) = (if key x = undef \<or> key x = k then Some 0 else map_option Suc (find_slot key undef k xs))"

text \<open>Searching a used slot from the end, down to a limit that is not included.\<close>

fun last_used :: "('a \<Rightarrow> 'k) \<Rightarrow> 'k \<Rightarrow> nat \<Rightarrow> nat \<Rightarrow> 'a list \<Rightarrow> nat option" where
  "last_used key undef lo 0 xs = None"
| "last_used key undef lo (Suc i) xs =
    (if i \<le> lo then None else if key (xs ! i) \<noteq> undef then Some i else last_used key undef lo i xs)"

fun find_key :: "('a \<Rightarrow> 'k) \<Rightarrow> 'k \<Rightarrow> 'a list \<Rightarrow> nat option" where
  "find_key key k [] = None"
| "find_key key k (x # xs) = (if key x = k then Some 0 else map_option Suc (find_key key k xs))"

subsection \<open>Arrays whose used slots come first\<close>

definition slots :: "('a \<Rightarrow> 'k) \<Rightarrow> 'a \<Rightarrow> nat \<Rightarrow> 'a list \<Rightarrow> 'a list \<Rightarrow> bool" where
  "slots key dflt n us xs \<longleftrightarrow> xs = us @ replicate (n - length us) dflt \<and> length us \<le> n \<and>
     key dflt \<notin> key ` set us \<and> distinct (map key us)"

lemma slots_length: "slots key dflt n us xs \<Longrightarrow> length xs = n"
  by (simp add: slots_def)

lemma find_slot_append:
  assumes "key dflt \<notin> key ` set us"
  shows "find_slot key (key dflt) k (us @ replicate m dflt) =
    (case find_key key k us of Some i \<Rightarrow> Some i | None \<Rightarrow> if m = 0 then None else Some (length us))"
  using assms
proof (induction us)
  case Nil
  then show ?case
    by (cases m) simp_all
next
  case (Cons x us)
  have "key x \<noteq> key dflt" "key dflt \<notin> key ` set us"
    using Cons.prems by auto
  then show ?case
    using Cons.IH by (auto split: option.splits if_splits)
qed

lemma find_slot_slots:
  assumes "slots key dflt n us xs"
  shows "find_slot key (key dflt) k xs =
    (case find_key key k us of Some i \<Rightarrow> Some i | None \<Rightarrow> if length us < n then Some (length us) else None)"
  using assms find_slot_append [of key dflt us k "n - length us"] by (auto simp: slots_def split: option.splits)

lemma find_key_Some: "find_key key k us = Some i \<Longrightarrow> i < length us \<and> key (us ! i) = k"
  by (induction us arbitrary: i) (auto split: if_splits)

lemma find_key_None: "find_key key k us = None \<longleftrightarrow> k \<notin> key ` set us"
  by (induction us) auto

lemma find_key_append: "k \<notin> key ` set vs \<Longrightarrow> find_key key k (us @ vs) = find_key key k us"
  by (induction us) (auto simp: find_key_None)

lemma find_key_slots:
  assumes "slots key dflt n us xs" "k \<noteq> key dflt"
  shows "find_key key k xs = find_key key k us"
proof -
  have "k \<notin> key ` set (replicate (n - length us) dflt)"
    using assms(2) by auto
  then show ?thesis
    using assms(1) find_key_append by (metis slots_def)
qed

lemma last_used_Some:
  assumes "lo < j" "j < m" "key (xs ! j) \<noteq> undef" "\<forall>i. j < i \<longrightarrow> i < m \<longrightarrow> key (xs ! i) = undef"
  shows "last_used key undef lo m xs = Some j"
  using assms
proof (induction m)
  case (Suc m)
  then show ?case
    by (cases "j = m") simp_all
qed simp

lemma last_used_None:
  assumes "\<forall>i. lo < i \<longrightarrow> i < m \<longrightarrow> key (xs ! i) = undef"
  shows "last_used key undef lo m xs = None"
  using assms by (induction m) simp_all

text \<open>Removing a slot: the last used one takes its place.\<close>

definition drop_slot :: "nat \<Rightarrow> 'a list \<Rightarrow> 'a list" where
  "drop_slot i us = (butlast us)[i := last us]"

lemma drop_slot_simps:
  assumes "i < length us" "distinct (map key us)"
  shows "set (drop_slot i us) = set us - {us ! i}" "distinct (map key (drop_slot i us))" "length (drop_slot i us) = length us - 1"
proof -
  obtain ys y where us: "us = ys @ [y]"
    using assms(1) by (cases us rule: rev_cases) auto
  have d: "distinct (map key ys)" "key y \<notin> key ` set ys" "distinct ys" "y \<notin> set ys"
    using assms(2) us by (auto simp: distinct_map)
  have "set (drop_slot i us) = set us - {us ! i} \<and> distinct (map key (drop_slot i us))"
  proof (cases "i < length ys")
    case True
    then have "us ! i = ys ! i" "ys ! i \<noteq> y" "drop_slot i us = ys[i := y]"
      using us d(4) by (auto simp: nth_append drop_slot_def)
    then show ?thesis
      using True d us by (auto simp: set_update_distinct map_update distinct_list_update)
  next
    case False
    then have "i = length ys"
      using assms(1) us by simp
    then show ?thesis
      using us d by (auto simp: drop_slot_def list_update_beyond)
  qed
  then show "set (drop_slot i us) = set us - {us ! i}" "distinct (map key (drop_slot i us))"
    by simp_all
  show "length (drop_slot i us) = length us - 1"
    by (simp add: drop_slot_def)
qed

text \<open>Emptying a slot and moving the last used one there, as both tables do it.\<close>

definition fill_hole :: "('a \<Rightarrow> 'k) \<Rightarrow> 'a \<Rightarrow> nat \<Rightarrow> 'a list \<Rightarrow> 'a list" where
  "fill_hole key dflt i xs =
    (case last_used key (key dflt) i (length xs) xs of None \<Rightarrow> xs | Some j \<Rightarrow> xs[i := xs ! j, j := dflt])"

lemma fill_hole_slots:
  assumes "slots key dflt n us xs" "i < length us"
  shows "slots key dflt n (drop_slot i us) (fill_hole key dflt i (xs[i := dflt]))"
proof -
  obtain ys y where us: "us = ys @ [y]"
    using assms(2) by (cases us rule: rev_cases) auto
  define r where "r = n - length us"
  have s: "xs = ys @ y # replicate r dflt" "n = length ys + Suc r" "key y \<noteq> key dflt"
    using assms us by (auto simp: slots_def r_def)
  have "fill_hole key dflt i (xs[i := dflt]) = drop_slot i us @ replicate (Suc r) dflt"
  proof (cases "i < length ys")
    case True
    let ?xs = "ys[i := dflt] @ y # replicate r dflt"
    have "last_used key (key dflt) i (length ?xs) ?xs = Some (length ys)"
      using True s(3) by (intro last_used_Some) (auto simp: nth_append nth_Cons')
    then show ?thesis
      using True us by (simp add: fill_hole_def s(1) list_update_append nth_append drop_slot_def)
  next
    case False
    then have i: "i = length ys"
      using assms(2) us by simp
    let ?xs = "ys @ dflt # replicate r dflt"
    have "last_used key (key dflt) i (length ?xs) ?xs = None"
      using i by (intro last_used_None) (auto simp: nth_append nth_Cons')
    then show ?thesis
      using i us by (simp add: fill_hole_def s(1) list_update_append drop_slot_def list_update_beyond)
  qed
  moreover have "n - length (drop_slot i us) = Suc r" "length (drop_slot i us) \<le> n"
    using us s(2) by (simp_all add: drop_slot_def)
  moreover have "key dflt \<notin> key ` set (drop_slot i us)" "distinct (map key (drop_slot i us))"
    using assms drop_slot_simps [of i us key] by (auto simp: slots_def)
  ultimately show ?thesis
    by (simp add: slots_def)
qed

subsection \<open>Entries by their keys\<close>

definition entry :: "('a \<Rightarrow> 'k) \<Rightarrow> 'k \<Rightarrow> 'a list \<Rightarrow> 'a option" where
  "entry key k xs = find (\<lambda>x. key x = k) xs"

lemma entry_simps [simp]: "entry key k [] = None" "entry key k (x # xs) = (if key x = k then Some x else entry key k xs)"
  by (simp_all add: entry_def)

lemma entry_find_key: "entry key k xs = map_option ((!) xs) (find_key key k xs)"
  by (induction xs) (auto simp: option.map_comp comp_def)

lemma entry_None: "entry key k xs = None \<longleftrightarrow> k \<notin> key ` set xs"
  by (induction xs) auto

lemma entry_Some: "distinct (map key xs) \<Longrightarrow> entry key k xs = Some x \<longleftrightarrow> x \<in> set xs \<and> key x = k"
  by (induction xs) auto

lemma entry_append: "entry key k (us @ vs) = (case entry key k us of Some x \<Rightarrow> Some x | None \<Rightarrow> entry key k vs)"
  by (induction us) auto

lemma entry_slots: "slots key dflt n us xs \<Longrightarrow> k \<noteq> key dflt \<Longrightarrow> entry key k xs = entry key k us"
  using entry_None [of key k "replicate (n - length us) dflt"] by (auto simp: slots_def entry_append split: option.splits)

lemma entry_drop_slot:
  assumes "i < length us" "distinct (map key us)"
  shows "entry key k (drop_slot i us) = (if k = key (us ! i) then None else entry key k us)"
proof -
  note r = drop_slot_simps [OF assms]
  have "us ! i \<in> set us"
    using assms(1) by simp
  then have "entry key k (drop_slot i us) = Some x \<longleftrightarrow> k \<noteq> key (us ! i) \<and> entry key k us = Some x" for x
    using entry_Some [OF r(2)] entry_Some [OF assms(2)] r(1) assms(2) by (auto simp: distinct_map inj_on_def)
  then show ?thesis
    by (metis option.exhaust)
qed

lemma entry_update:
  assumes "i < length us" "distinct (map key us)" "key x = key (us ! i)"
  shows "entry key k (us[i := x]) = (if k = key x then Some x else entry key k us)" "map key (us[i := x]) = map key us"
proof -
  show "map key (us[i := x]) = map key us"
    using assms by (simp add: map_update) (metis list_update_id nth_map)
  show "entry key k (us[i := x]) = (if k = key x then Some x else entry key k us)"
    using assms
  proof (induction us arbitrary: i)
    case (Cons u us)
    then show ?case
      by (cases i) (auto simp: image_iff)
  qed simp
qed

subsection \<open>Changing one slot\<close>

lemma slots_nth: "slots key dflt n us xs \<Longrightarrow> i < length us \<Longrightarrow> xs ! i = us ! i"
  by (simp add: slots_def nth_append)

lemma slots_free: "slots key dflt n us xs \<Longrightarrow> length us < n \<Longrightarrow> xs ! length us = dflt"
  by (simp add: slots_def nth_append)

lemma slots_update:
  assumes "slots key dflt n us xs" "i < length us" "key x = key (us ! i)"
  shows "slots key dflt n (us[i := x]) (xs[i := x])"
proof -
  have m: "map key (us[i := x]) = map key us"
    using assms entry_update(2) by (fastforce simp: slots_def)
  then have "key ` set (us[i := x]) = key ` set us"
    by (metis list.set_map)
  then show ?thesis
    using assms m by (simp add: slots_def list_update_append)
qed

lemma slots_add:
  assumes "slots key dflt n us xs" "length us < n" "key x \<noteq> key dflt" "key x \<notin> key ` set us"
  shows "slots key dflt n (us @ [x]) (xs[length us := x])"
proof -
  obtain r where "n - length us = Suc r" "n - length (us @ [x]) = r"
    using assms(2) by (cases "n - length us") auto
  then show ?thesis
    using assms by (auto simp: slots_def list_update_append)
qed

lemma slots_empty: "slots key dflt n [] (replicate n dflt)"
  by (simp add: slots_def)

lemma slots_used: "slots key dflt n us xs \<Longrightarrow> i < length xs \<Longrightarrow> key (xs ! i) \<noteq> key dflt \<Longrightarrow> i < length us"
  by (rule ccontr) (auto simp: slots_def nth_append)

lemma find_slot_Some: "find_slot key undef k xs = Some i \<Longrightarrow> i < length xs \<and> (key (xs ! i) = undef \<or> key (xs ! i) = k)"
  by (induction xs arbitrary: i) (auto split: if_splits)

lemma slots_full: "slots key dflt n us xs \<Longrightarrow> \<not> length us < n \<Longrightarrow> key dflt \<notin> key ` set xs"
  by (simp add: slots_def)

end
