(* ===== verification/GroupPeers.thy ===== *)
theory GroupPeers
  imports MsgCounter SlotArray
begin

text \<open>
  The table of the message counters of group peers (\<^verbatim>\<open>GroupPeerTable\<close> in \<^verbatim>\<open>src/transport/GroupPeerMessageCounter.cpp\<close>). The static
  arrays of fabrics and senders are lists of a fixed length; a pointer to a counter is its position.
\<close>

definition CHIP_CONFIG_MAX_FABRICS :: nat where
  "CHIP_CONFIG_MAX_FABRICS = 16"

definition CHIP_CONFIG_MAX_GROUP_DATA_PEERS :: nat where
  "CHIP_CONFIG_MAX_GROUP_DATA_PEERS = 15"

definition CHIP_CONFIG_MAX_GROUP_CONTROL_PEERS :: nat where
  "CHIP_CONFIG_MAX_GROUP_CONTROL_PEERS = 2"

definition kUndefinedFabricIndex :: "8 word" where
  "kUndefinedFabricIndex = 0"

definition kUndefinedNodeId :: "64 word" where
  "kUndefinedNodeId = 0"

record group_sender =
  mNodeId :: "64 word"
  msgCounter :: peer_counter

definition new_GroupSender :: group_sender where
  "new_GroupSender = \<lparr>mNodeId = kUndefinedNodeId, msgCounter = NotSynced\<rparr>"

record group_fabric =
  mFabricIndex :: "8 word"
  mControlPeerCount :: "8 word"
  mDataPeerCount :: "8 word"
  mDataGroupSenders :: "group_sender list"
  mControlGroupSenders :: "group_sender list"

definition new_GroupFabric :: group_fabric where
  "new_GroupFabric = \<lparr>mFabricIndex = kUndefinedFabricIndex, mControlPeerCount = 0, mDataPeerCount = 0,
     mDataGroupSenders = replicate CHIP_CONFIG_MAX_GROUP_DATA_PEERS new_GroupSender,
     mControlGroupSenders = replicate CHIP_CONFIG_MAX_GROUP_CONTROL_PEERS new_GroupSender\<rparr>"

definition new_GroupPeerTable :: "group_fabric list" where
  "new_GroupPeerTable = replicate CHIP_CONFIG_MAX_FABRICS new_GroupFabric"

text \<open>The senders of one kind and their number.\<close>

definition senders :: "bool \<Rightarrow> group_fabric \<Rightarrow> group_sender list" where
  "senders isControl g = (if isControl then mControlGroupSenders g else mDataGroupSenders g)"

definition set_senders :: "bool \<Rightarrow> group_sender list \<Rightarrow> group_fabric \<Rightarrow> group_fabric" where
  "set_senders isControl xs g = (if isControl then g\<lparr>mControlGroupSenders := xs\<rparr> else g\<lparr>mDataGroupSenders := xs\<rparr>)"

definition add_count :: "bool \<Rightarrow> 8 word \<Rightarrow> group_fabric \<Rightarrow> group_fabric" where
  "add_count isControl d g =
    (if isControl then g\<lparr>mControlPeerCount := mControlPeerCount g + d\<rparr> else g\<lparr>mDataPeerCount := mDataPeerCount g + d\<rparr>)"

definition FindOrAddPeer ::
  "8 word \<Rightarrow> 64 word \<Rightarrow> bool \<Rightarrow> group_fabric list \<Rightarrow> CHIP_ERROR \<times> (nat \<times> bool \<times> nat) option \<times> group_fabric list" where
  "FindOrAddPeer fabricIndex nodeId isControl t =
    (if fabricIndex = kUndefinedFabricIndex \<or> nodeId = kUndefinedNodeId then (CHIP_ERROR_INVALID_ARGUMENT, None, t)
     else
       (case find_slot mFabricIndex kUndefinedFabricIndex fabricIndex t of
          None \<Rightarrow> (CHIP_ERROR_TOO_MANY_PEER_NODES, None, t)
        | Some i \<Rightarrow>
            (let g = t ! i; xs = senders isControl g
             in if mFabricIndex g = kUndefinedFabricIndex then
                  (CHIP_NO_ERROR, Some (i, isControl, 0),
                   t[i := add_count isControl 1 (set_senders isControl (xs[0 := (xs ! 0)\<lparr>mNodeId := nodeId\<rparr>]) (g\<lparr>mFabricIndex := fabricIndex\<rparr>))])
                else
                  (case find_slot mNodeId kUndefinedNodeId nodeId xs of
                     None \<Rightarrow> (CHIP_ERROR_TOO_MANY_PEER_NODES, None, t)
                   | Some j \<Rightarrow>
                       if mNodeId (xs ! j) = kUndefinedNodeId then
                         (CHIP_NO_ERROR, Some (i, isControl, j),
                          t[i := add_count isControl 1 (set_senders isControl (xs[j := (xs ! j)\<lparr>mNodeId := nodeId\<rparr>]) g)])
                       else (CHIP_NO_ERROR, Some (i, isControl, j), t)))))"

definition compact_at :: "nat \<Rightarrow> group_sender list \<Rightarrow> group_sender list" where
  "compact_at peerIndex xs =
    (if mNodeId (xs ! peerIndex) \<noteq> kUndefinedNodeId then xs
     else (case last_used mNodeId kUndefinedNodeId peerIndex (length xs) xs of
             None \<Rightarrow> xs
           | Some i \<Rightarrow> xs[peerIndex := xs ! i, i := new_GroupSender]))"

definition CompactPeers :: "group_sender list \<Rightarrow> group_sender list" where
  "CompactPeers xs = fold compact_at [0..<length xs] xs"

definition RemoveSpecificPeer :: "64 word \<Rightarrow> group_sender list \<Rightarrow> bool \<times> group_sender list" where
  "RemoveSpecificPeer nodeId xs =
    (case find_key mNodeId nodeId xs of
       None \<Rightarrow> (False, xs)
     | Some i \<Rightarrow> (True, CompactPeers (xs[i := \<lparr>mNodeId = kUndefinedNodeId, msgCounter = PMC_Reset (msgCounter (xs ! i))\<rparr>])))"

definition RemoveAndCompactFabric :: "nat \<Rightarrow> group_fabric list \<Rightarrow> group_fabric list" where
  "RemoveAndCompactFabric tableIndex t =
    (if CHIP_CONFIG_MAX_FABRICS \<le> tableIndex then t
     else
       (let t = t[tableIndex := new_GroupFabric]
        in case last_used mFabricIndex kUndefinedFabricIndex tableIndex CHIP_CONFIG_MAX_FABRICS t of
             None \<Rightarrow> t
           | Some i \<Rightarrow> t[tableIndex := t ! i, i := new_GroupFabric]))"

definition RemovePeer :: "8 word \<Rightarrow> 64 word \<Rightarrow> bool \<Rightarrow> group_fabric list \<Rightarrow> CHIP_ERROR \<times> group_fabric list" where
  "RemovePeer fabricIndex nodeId isControl t =
    (if fabricIndex = kUndefinedFabricIndex \<or> nodeId = kUndefinedNodeId then (CHIP_ERROR_INVALID_ARGUMENT, t)
     else
       (case find_key mFabricIndex fabricIndex t of
          None \<Rightarrow> (CHIP_ERROR_NOT_FOUND, t)
        | Some it \<Rightarrow>
            (case RemoveSpecificPeer nodeId (senders isControl (t ! it)) of (removed, xs) \<Rightarrow>
               if \<not> removed then (CHIP_ERROR_NOT_FOUND, t)
               else
                 (let g = add_count isControl (- 1) (set_senders isControl xs (t ! it)); t = t[it := g]
                  in (CHIP_NO_ERROR,
                      if mDataPeerCount g = 0 \<and> mControlPeerCount g = 0 then RemoveAndCompactFabric it t else t)))))"

definition FabricRemoved :: "8 word \<Rightarrow> group_fabric list \<Rightarrow> CHIP_ERROR \<times> group_fabric list" where
  "FabricRemoved fabricIndex t =
    (if fabricIndex = kUndefinedFabricIndex then (CHIP_ERROR_INVALID_ARGUMENT, t)
     else
       (case find_key mFabricIndex fabricIndex t of
          None \<Rightarrow> (CHIP_ERROR_NOT_FOUND, t)
        | Some it \<Rightarrow> (CHIP_NO_ERROR, RemoveAndCompactFabric it t)))"

subsection \<open>Compacting the senders\<close>

lemma node_key: "mNodeId new_GroupSender = kUndefinedNodeId" "msgCounter new_GroupSender = NotSynced"
  by (simp_all add: new_GroupSender_def)

lemma fabric_key: "mFabricIndex new_GroupFabric = kUndefinedFabricIndex"
  by (simp add: new_GroupFabric_def)

lemma compact_at_fill:
  "compact_at i xs = (if mNodeId (xs ! i) \<noteq> mNodeId new_GroupSender then xs else fill_hole mNodeId new_GroupSender i xs)"
  by (simp add: compact_at_def fill_hole_def node_key)

lemma compact_at_slots:
  assumes "slots mNodeId new_GroupSender n us xs" "p < n"
  shows "compact_at p xs = xs"
proof (cases "p < length us")
  case True
  then have "mNodeId (xs ! p) \<in> mNodeId ` set us"
    using slots_nth [OF assms(1)] by simp
  then show ?thesis
    using assms(1) by (auto simp: compact_at_fill slots_def)
next
  case False
  then have "last_used mNodeId (mNodeId new_GroupSender) p (length xs) xs = None"
    using assms by (intro last_used_None) (auto simp: slots_def nth_append)
  then show ?thesis
    by (simp add: compact_at_fill fill_hole_def)
qed

lemma fold_fixed: "(\<And>p. p \<in> set ps \<Longrightarrow> f p x = x) \<Longrightarrow> fold f ps x = x"
  by (induction ps) simp_all

lemma CompactPeers_slots:
  assumes "slots mNodeId new_GroupSender n us xs" "i < length us"
  shows "slots mNodeId new_GroupSender n (drop_slot i us) (CompactPeers (xs[i := new_GroupSender]))"
proof -
  let ?xs = "xs[i := new_GroupSender]" and ?ys = "fill_hole mNodeId new_GroupSender i (xs[i := new_GroupSender])"
  have len: "length xs = n" "i < n"
    using assms by (auto simp: slots_def)
  have ys: "slots mNodeId new_GroupSender n (drop_slot i us) ?ys"
    using assms by (rule fill_hole_slots)
  have "mNodeId (?xs ! p) \<noteq> mNodeId new_GroupSender" if "p < i" for p
  proof -
    have "?xs ! p \<in> set us"
      using that assms slots_nth [OF assms(1), of p] by simp
    then show ?thesis
      using assms(1) unfolding slots_def by (metis imageI)
  qed
  then have "fold compact_at [0..<i] ?xs = ?xs"
    by (intro fold_fixed) (simp add: compact_at_fill)
  moreover have "compact_at i ?xs = ?ys"
    using len by (simp add: compact_at_fill)
  moreover have "fold compact_at [Suc i..<n] ?ys = ?ys"
    by (intro fold_fixed compact_at_slots [OF ys]) simp
  moreover have "[0..<n] = [0..<i] @ i # [Suc i..<n]"
    using len(2) upt_add_eq_append [of 0 i "n - i"] by (simp add: upt_conv_Cons)
  ultimately have "CompactPeers ?xs = ?ys"
    using len(1) by (simp add: CompactPeers_def)
  then show ?thesis
    using ys by simp
qed

lemma RemoveSpecificPeer_slots:
  assumes "slots mNodeId new_GroupSender n us xs" "nodeId \<noteq> kUndefinedNodeId"
  shows "case find_key mNodeId nodeId us of
      None \<Rightarrow> RemoveSpecificPeer nodeId xs = (False, xs)
    | Some i \<Rightarrow> \<exists>ys. RemoveSpecificPeer nodeId xs = (True, ys) \<and> slots mNodeId new_GroupSender n (drop_slot i us) ys"
proof (cases "find_key mNodeId nodeId us")
  case None
  then show ?thesis
    using find_key_slots [OF assms(1), of nodeId] assms(2) by (simp add: RemoveSpecificPeer_def node_key)
next
  case (Some i)
  have "RemoveSpecificPeer nodeId xs = (True, CompactPeers (xs[i := new_GroupSender]))"
    using find_key_slots [OF assms(1), of nodeId] assms(2) Some
    by (simp add: RemoveSpecificPeer_def node_key new_GroupSender_def PMC_Reset_def)
  then show ?thesis
    using Some CompactPeers_slots [OF assms(1)] find_key_Some [OF Some] by simp
qed

lemma RemoveAndCompactFabric_slots:
  assumes "slots mFabricIndex new_GroupFabric CHIP_CONFIG_MAX_FABRICS gs t" "i < length gs"
  shows "slots mFabricIndex new_GroupFabric CHIP_CONFIG_MAX_FABRICS (drop_slot i gs) (RemoveAndCompactFabric i t)"
proof -
  have "i < CHIP_CONFIG_MAX_FABRICS" "length t = CHIP_CONFIG_MAX_FABRICS"
    using assms by (auto simp: slots_def)
  then have "RemoveAndCompactFabric i t = fill_hole mFabricIndex new_GroupFabric i (t[i := new_GroupFabric])"
    by (simp add: RemoveAndCompactFabric_def fill_hole_def fabric_key Let_def)
  then show ?thesis
    using fill_hole_slots [OF assms] by simp
qed

end
