(* ===== verification/GroupTable.thy ===== *)
theory GroupTable
  imports GroupPeers
begin

text \<open>
  The table of group peers refines a bounded map from fabrics and nodes to counters: the invariant of the table, what each
  operation does to the map, and sequences of operations.
\<close>

subsection \<open>The table as a map\<close>

definition capacity :: "bool \<Rightarrow> nat" where
  "capacity isControl = (if isControl then CHIP_CONFIG_MAX_GROUP_CONTROL_PEERS else CHIP_CONFIG_MAX_GROUP_DATA_PEERS)"

definition peer_count :: "bool \<Rightarrow> group_fabric \<Rightarrow> 8 word" where
  "peer_count isControl g = (if isControl then mControlPeerCount g else mDataPeerCount g)"

definition senders_ok :: "bool \<Rightarrow> group_fabric \<Rightarrow> group_sender list \<Rightarrow> bool" where
  "senders_ok isControl g us \<longleftrightarrow>
     slots mNodeId new_GroupSender (capacity isControl) us (senders isControl g) \<and> peer_count isControl g = of_nat (length us)"

definition fabric_ok :: "group_fabric \<Rightarrow> bool" where
  "fabric_ok g \<longleftrightarrow> (\<exists>us. senders_ok True g (us True) \<and> senders_ok False g (us False) \<and> (us True \<noteq> [] \<or> us False \<noteq> []))"

definition group_table_inv :: "group_fabric list \<Rightarrow> bool" where
  "group_table_inv t \<longleftrightarrow> (\<exists>gs. slots mFabricIndex new_GroupFabric CHIP_CONFIG_MAX_FABRICS gs t \<and> (\<forall>g \<in> set gs. fabric_ok g))"

definition fabric_peers :: "group_fabric \<Rightarrow> bool \<times> 64 word \<Rightarrow> peer_counter option" where
  "fabric_peers g = (\<lambda>(isControl, n). if n = kUndefinedNodeId then None else map_option msgCounter (entry mNodeId n (senders isControl g)))"

definition peers :: "group_fabric list \<Rightarrow> 8 word \<times> bool \<times> 64 word \<Rightarrow> peer_counter option" where
  "peers t = (\<lambda>(f, k). if f = kUndefinedFabricIndex then None else Option.bind (entry mFabricIndex f t) (\<lambda>g. fabric_peers g k))"

text \<open>The counter that a result of \<^verbatim>\<open>FindOrAddPeer\<close> points to, and an assignment to it.\<close>

fun counter_at :: "nat \<times> bool \<times> nat \<Rightarrow> group_fabric list \<Rightarrow> peer_counter" where
  "counter_at (i, isControl, j) t = msgCounter (senders isControl (t ! i) ! j)"

fun set_counter_at :: "nat \<times> bool \<times> nat \<Rightarrow> peer_counter \<Rightarrow> group_fabric list \<Rightarrow> group_fabric list" where
  "set_counter_at (i, isControl, j) c t =
     (let xs = senders isControl (t ! i) in t[i := set_senders isControl (xs[j := (xs ! j)\<lparr>msgCounter := c\<rparr>]) (t ! i)])"

lemma senders_simps [simp]:
  "senders c (set_senders c xs g) = xs" "c \<noteq> c' \<Longrightarrow> senders c' (set_senders c xs g) = senders c' g"
  "senders c' (add_count c d g) = senders c' g" "mFabricIndex (set_senders c xs g) = mFabricIndex g"
  "mFabricIndex (add_count c d g) = mFabricIndex g" "senders c (g\<lparr>mFabricIndex := f\<rparr>) = senders c g"
  "peer_count c (add_count c d g) = peer_count c g + d" "c \<noteq> c' \<Longrightarrow> peer_count c' (add_count c d g) = peer_count c' g"
  "peer_count c' (set_senders c xs g) = peer_count c' g" "peer_count c (g\<lparr>mFabricIndex := f\<rparr>) = peer_count c g"
  by (auto simp: senders_def set_senders_def add_count_def peer_count_def)

lemma capacity_bound: "0 < capacity c" "capacity c \<le> 15"
  by (auto simp: capacity_def CHIP_CONFIG_MAX_GROUP_CONTROL_PEERS_def CHIP_CONFIG_MAX_GROUP_DATA_PEERS_def)

lemma fabric_okI:
  assumes "senders_ok c g us" "senders_ok (\<not> c) g vs" "us \<noteq> [] \<or> vs \<noteq> []"
  shows "fabric_ok g"
  unfolding fabric_ok_def by (rule exI [of _ "\<lambda>b. if b = c then us else vs"]) (use assms in \<open>cases c; auto\<close>)

lemma fabric_okE:
  assumes "fabric_ok g"
  obtains us vs where "senders_ok c g us" "senders_ok (\<not> c) g vs" "us \<noteq> [] \<or> vs \<noteq> []"
  using assms unfolding fabric_ok_def by (cases c) auto

text \<open>Replacing one fabric by another with the same index.\<close>

lemma peers_update:
  assumes "slots mFabricIndex new_GroupFabric CHIP_CONFIG_MAX_FABRICS gs t" "i < length gs" "mFabricIndex g = mFabricIndex (gs ! i)"
    and "\<forall>g \<in> set gs. fabric_ok g" "fabric_ok g"
  shows "group_table_inv (t[i := g])" "peers (t[i := g]) (f, k) = (if f = mFabricIndex g then fabric_peers g k else peers t (f, k))"
proof -
  note s = slots_update [OF assms(1-3)]
  have "set (gs[i := g]) \<subseteq> insert g (set gs)"
    by (rule set_update_subset_insert)
  then have "\<forall>x \<in> set (gs[i := g]). fabric_ok x"
    using assms(4,5) by blast
  then show "group_table_inv (t[i := g])"
    using s unfolding group_table_inv_def by blast
  have "mFabricIndex g \<in> mFabricIndex ` set gs"
    using assms(2,3) by simp
  then have "mFabricIndex g \<noteq> kUndefinedFabricIndex"
    using assms(1) by (auto simp: slots_def fabric_key)
  then show "peers (t[i := g]) (f, k) = (if f = mFabricIndex g then fabric_peers g k else peers t (f, k))"
    using entry_slots [OF s, of f] entry_slots [OF assms(1), of f] entry_update(1) [OF assms(2) _ assms(3), of f] assms(1)
    by (auto simp: peers_def fabric_key slots_def)
qed

lemma peers_at:
  assumes "slots mFabricIndex new_GroupFabric CHIP_CONFIG_MAX_FABRICS gs t" "find_key mFabricIndex f gs = Some i" "f \<noteq> kUndefinedFabricIndex"
  shows "peers t (f, k) = fabric_peers (gs ! i) k"
  using assms entry_slots [OF assms(1), of f] by (auto simp: peers_def entry_find_key fabric_key)

text \<open>Changes of the senders of one fabric.\<close>

lemma fabric_peers_senders:
  assumes "senders_ok c g us"
  shows "fabric_peers g (c, n) = (if n = kUndefinedNodeId then None else map_option msgCounter (entry mNodeId n us))"
  using assms entry_slots [of mNodeId new_GroupSender "capacity c" us "senders c g" n] by (simp add: fabric_peers_def senders_ok_def node_key)

lemma senders_ok_add:
  assumes "senders_ok c g us" "length us < capacity c" "n \<noteq> kUndefinedNodeId" "find_key mNodeId n us = None"
  shows "senders_ok c (add_count c 1 (set_senders c ((senders c g)[length us := (senders c g ! length us)\<lparr>mNodeId := n\<rparr>]) g))
    (us @ [\<lparr>mNodeId = n, msgCounter = NotSynced\<rparr>])"
proof -
  have s: "slots mNodeId new_GroupSender (capacity c) us (senders c g)" "peer_count c g = of_nat (length us)"
    using assms(1) by (simp_all add: senders_ok_def)
  have "(senders c g ! length us)\<lparr>mNodeId := n\<rparr> = \<lparr>mNodeId = n, msgCounter = NotSynced\<rparr>"
    using slots_free [OF s(1) assms(2)] by (simp add: new_GroupSender_def)
  moreover have "slots mNodeId new_GroupSender (capacity c) (us @ [\<lparr>mNodeId = n, msgCounter = NotSynced\<rparr>])
      ((senders c g)[length us := \<lparr>mNodeId = n, msgCounter = NotSynced\<rparr>])"
    using assms(3,4) by (intro slots_add [OF s(1) assms(2)]) (simp_all add: node_key find_key_None)
  ultimately show ?thesis
    using s(2) by (simp add: senders_ok_def)
qed

lemma senders_ok_other:
  assumes "senders_ok (\<not> c) g vs"
  shows "senders_ok (\<not> c) (set_senders c xs g) vs" "senders_ok (\<not> c) (add_count c d (set_senders c xs g)) vs"
  using assms by (simp_all add: senders_ok_def)

lemma fabric_peers_other:
  assumes "\<And>n. fabric_peers g' (c, n) = (if n = n0 then x else fabric_peers g (c, n))" "senders (\<not> c) g' = senders (\<not> c) g"
  shows "fabric_peers g' k = (if k = (c, n0) then x else fabric_peers g k)"
proof (cases k)
  case (Pair c' n)
  then show ?thesis
    using assms by (cases "c' = c") (auto simp: fabric_peers_def)
qed

subsection \<open>The operations\<close>

lemma FindOrAddPeer_known:
  assumes "slots mFabricIndex new_GroupFabric CHIP_CONFIG_MAX_FABRICS gs t" "f \<noteq> kUndefinedFabricIndex" "n \<noteq> kUndefinedNodeId"
    and "find_key mFabricIndex f gs = Some i" "senders_ok c (gs ! i) us"
  shows "FindOrAddPeer f n c t =
    (case find_key mNodeId n us of
       Some j \<Rightarrow> (CHIP_NO_ERROR, Some (i, c, j), t)
     | None \<Rightarrow>
         if length us < capacity c then
           (CHIP_NO_ERROR, Some (i, c, length us), t[i := add_count c 1
              (set_senders c ((senders c (gs ! i))[length us := (senders c (gs ! i) ! length us)\<lparr>mNodeId := n\<rparr>]) (gs ! i))])
         else (CHIP_ERROR_TOO_MANY_PEER_NODES, None, t))"
proof -
  have i: "i < length gs" "mFabricIndex (gs ! i) = f" "t ! i = gs ! i"
    using find_key_Some [OF assms(4)] slots_nth [OF assms(1)] by auto
  have g: "find_slot mFabricIndex kUndefinedFabricIndex f t = Some i"
    using find_slot_slots [OF assms(1), of f] assms(4) by (simp add: fabric_key)
  have s: "slots mNodeId new_GroupSender (capacity c) us (senders c (gs ! i))"
    using assms(5) by (simp add: senders_ok_def)
  have n: "find_slot mNodeId kUndefinedNodeId n (senders c (gs ! i)) =
      (case find_key mNodeId n us of Some j \<Rightarrow> Some j | None \<Rightarrow> if length us < capacity c then Some (length us) else None)"
    using find_slot_slots [OF s, of n] by (simp add: node_key)
  have "mNodeId (senders c (gs ! i) ! j) \<noteq> kUndefinedNodeId" if "find_key mNodeId n us = Some j" for j
    using find_key_Some [OF that] slots_nth [OF s] assms(3) by simp
  then show ?thesis
    using assms(2,3) i g n slots_free [OF s] by (auto simp: FindOrAddPeer_def Let_def node_key split: option.splits)
qed

lemma FindOrAddPeer_new:
  assumes "slots mFabricIndex new_GroupFabric CHIP_CONFIG_MAX_FABRICS gs t" "f \<noteq> kUndefinedFabricIndex" "n \<noteq> kUndefinedNodeId"
    and "find_key mFabricIndex f gs = None"
  shows "FindOrAddPeer f n c t =
    (if length gs < CHIP_CONFIG_MAX_FABRICS then
       (CHIP_NO_ERROR, Some (length gs, c, 0), t[length gs := add_count c 1
          (set_senders c ((senders c new_GroupFabric)[0 := (senders c new_GroupFabric ! 0)\<lparr>mNodeId := n\<rparr>]) (new_GroupFabric\<lparr>mFabricIndex := f\<rparr>))])
     else (CHIP_ERROR_TOO_MANY_PEER_NODES, None, t))"
  using assms find_slot_slots [OF assms(1), of f] slots_free [OF assms(1)]
  by (auto simp: FindOrAddPeer_def fabric_key Let_def)

lemma new_fabric_ok:
  assumes "n \<noteq> kUndefinedNodeId"
  shows "\<exists>g. add_count c 1 (set_senders c ((senders c new_GroupFabric)[0 := (senders c new_GroupFabric ! 0)\<lparr>mNodeId := n\<rparr>])
      (new_GroupFabric\<lparr>mFabricIndex := f\<rparr>)) = g \<and> mFabricIndex g = f \<and> fabric_ok g \<and>
    (\<forall>k. fabric_peers g k = (if k = (c, n) then Some NotSynced else None)) \<and> msgCounter (senders c g ! 0) = NotSynced"
proof -
  let ?g = "new_GroupFabric\<lparr>mFabricIndex := f\<rparr>" and ?s = "\<lparr>mNodeId = n, msgCounter = NotSynced\<rparr>"
  have e: "senders_ok c' ?g []" for c'
    by (auto simp: senders_ok_def slots_def senders_def peer_count_def capacity_def new_GroupFabric_def)
  let ?g' = "add_count c 1 (set_senders c ((senders c ?g)[0 := (senders c ?g ! 0)\<lparr>mNodeId := n\<rparr>]) ?g)"
  have "senders_ok c ?g' ([] @ [?s])"
    using senders_ok_add [OF e _ assms, of c] capacity_bound(1) by simp
  then have ok: "senders_ok c ?g' [?s]"
    by simp
  have "senders_ok (\<not> c) ?g' []"
    using senders_ok_other(2) [OF e] .
  then have "fabric_ok ?g'"
    using fabric_okI [OF ok] by simp
  moreover have "fabric_peers ?g' k = (if k = (c, n) then Some NotSynced else fabric_peers ?g k)" for k
    using fabric_peers_senders [OF ok] fabric_peers_senders [OF e, of c] assms by (intro fabric_peers_other) auto
  moreover have "fabric_peers ?g k = None" for k
    using fabric_peers_senders [OF e] by (cases k) simp
  moreover have "msgCounter (senders c ?g' ! 0) = NotSynced"
    using slots_nth [of mNodeId new_GroupSender "capacity c" "[?s]" "senders c ?g'" 0] ok by (simp add: senders_ok_def)
  ultimately show ?thesis
    by simp
qed

definition no_room :: "8 word \<Rightarrow> bool \<Rightarrow> group_fabric list \<Rightarrow> bool" where
  "no_room f c t \<longleftrightarrow>
     (case entry mFabricIndex f t of
        None \<Rightarrow> kUndefinedFabricIndex \<notin> mFabricIndex ` set t
      | Some g \<Rightarrow> kUndefinedNodeId \<notin> mNodeId ` set (senders c g))"

lemma peers_fun_upd:
  assumes "\<And>f' k'. peers t' (f', k') = (if f' = f then (if k' = k then x else peers t (f, k')) else peers t (f', k'))"
  shows "peers t' = (peers t)((f, k) := x)"
  using assms by (auto simp: fun_eq_iff)

lemma add_known:
  fixes c n g us
  defines "g' \<equiv> add_count c 1 (set_senders c ((senders c g)[length us := (senders c g ! length us)\<lparr>mNodeId := n\<rparr>]) g)"
  assumes "fabric_ok g" "senders_ok c g us" "length us < capacity c" "n \<noteq> kUndefinedNodeId" "find_key mNodeId n us = None"
  shows "fabric_ok g'" "fabric_peers g' k = (if k = (c, n) then Some NotSynced else fabric_peers g k)" "mFabricIndex g' = mFabricIndex g"
    "msgCounter (senders c g' ! length us) = NotSynced"
proof -
  let ?s = "\<lparr>mNodeId = n, msgCounter = NotSynced\<rparr>"
  have ok: "senders_ok c g' (us @ [?s])"
    unfolding g'_def using assms by (intro senders_ok_add)
  obtain vs where vs: "senders_ok (\<not> c) g vs"
    using assms(2) by (rule fabric_okE)
  then have "senders_ok (\<not> c) g' vs"
    unfolding g'_def by (rule senders_ok_other)
  then show "fabric_ok g'"
    using fabric_okI [OF ok] by simp
  have "entry mNodeId n us = None"
    using assms(6) by (simp add: entry_find_key)
  then have "fabric_peers g' (c, m) = (if m = n then Some NotSynced else fabric_peers g (c, m))" for m
    using fabric_peers_senders [OF ok, of m] fabric_peers_senders [OF assms(3), of m] assms(5)
    by (cases "entry mNodeId m us") (auto simp: entry_append)
  then show "fabric_peers g' k = (if k = (c, n) then Some NotSynced else fabric_peers g k)"
    by (intro fabric_peers_other) (simp_all add: g'_def)
  show "mFabricIndex g' = mFabricIndex g"
    by (simp add: g'_def)
  show "msgCounter (senders c g' ! length us) = NotSynced"
    using ok slots_nth [of mNodeId new_GroupSender "capacity c" "us @ [?s]" "senders c g'" "length us"] by (simp add: senders_ok_def)
qed

lemma FindOrAddPeer_known_ok:
  assumes gs: "slots mFabricIndex new_GroupFabric CHIP_CONFIG_MAX_FABRICS gs t" "\<forall>g \<in> set gs. fabric_ok g"
    and fn: "f \<noteq> kUndefinedFabricIndex" "n \<noteq> kUndefinedNodeId" and i: "find_key mFabricIndex f gs = Some i"
  shows "(\<exists>p t'. FindOrAddPeer f n c t = (CHIP_NO_ERROR, Some p, t') \<and> group_table_inv t' \<and>
      counter_at p t' = (case peers t (f, c, n) of Some x \<Rightarrow> x | None \<Rightarrow> NotSynced) \<and>
      peers t' = (peers t)((f, c, n) \<mapsto> counter_at p t')) \<or>
    FindOrAddPeer f n c t = (CHIP_ERROR_TOO_MANY_PEER_NODES, None, t) \<and> peers t (f, c, n) = None \<and> no_room f c t"
proof -
  let ?g = "gs ! i"
  have i': "i < length gs" "mFabricIndex ?g = f" "t ! i = ?g" "i < length t"
    using find_key_Some [OF i] slots_nth [OF gs(1)] gs(1) by (auto simp: slots_def)
  have ok: "fabric_ok ?g"
    using gs(2) i'(1) by simp
  obtain us where us: "senders_ok c ?g us"
    using ok by (rule fabric_okE)
  note at = peers_at [OF gs(1) i fn(1)]
  note eq = FindOrAddPeer_known [OF gs(1) fn i us]
  have p: "peers t (f, c, n) = map_option msgCounter (entry mNodeId n us)"
    using at fabric_peers_senders [OF us, of n] fn(2) by simp
  show ?thesis
  proof (cases "find_key mNodeId n us")
    case (Some j)
    have "counter_at (i, c, j) t = msgCounter (us ! j)"
      using us find_key_Some [OF Some] slots_nth i'(3) by (fastforce simp: senders_ok_def)
    moreover have pj: "peers t (f, c, n) = Some (msgCounter (us ! j))"
      using p Some by (simp add: entry_find_key)
    moreover have "peers t = (peers t)((f, c, n) \<mapsto> msgCounter (us ! j))"
      using pj by (simp add: fun_upd_idem)
    moreover have "group_table_inv t"
      using gs by (auto simp: group_table_inv_def)
    ultimately show ?thesis
      using eq Some by (intro disjI1 exI [of _ "(i, c, j)"] exI [of _ t]) simp
  next
    case None
    have none: "peers t (f, c, n) = None"
      using p None by (simp add: entry_find_key)
    show ?thesis
    proof (cases "length us < capacity c")
      case True
      define g where "g = add_count c 1 (set_senders c ((senders c ?g)[length us := (senders c ?g ! length us)\<lparr>mNodeId := n\<rparr>]) ?g)"
      note a = add_known [OF ok us True fn(2) None, folded g_def]
      have u: "group_table_inv (t[i := g])" "peers (t[i := g]) (f', k) = (if f' = mFabricIndex g then fabric_peers g k else peers t (f', k))" for f' k
        using peers_update [OF gs(1) i'(1) _ gs(2) a(1)] a(3) by simp_all
      have "peers (t[i := g]) = (peers t)((f, c, n) := Some NotSynced)"
        using u(2) a(2,3) at i'(2) by (intro peers_fun_upd) simp
      moreover have "counter_at (i, c, length us) (t[i := g]) = NotSynced"
        using a(4) i'(4) by simp
      ultimately show ?thesis
        using eq None True u(1) none by (intro disjI1 exI [of _ "(i, c, length us)"] exI [of _ "t[i := g]"]) (simp add: g_def)
    next
      case False
      have "kUndefinedNodeId \<notin> mNodeId ` set (senders c ?g)"
        using slots_full [of mNodeId new_GroupSender "capacity c" us "senders c ?g"] us False by (simp add: senders_ok_def node_key)
      moreover have "entry mFabricIndex f t = Some ?g"
        using entry_slots [OF gs(1), of f] i fn(1) by (simp add: entry_find_key fabric_key)
      ultimately show ?thesis
        using eq None False none by (simp add: no_room_def)
    qed
  qed
qed

lemma FindOrAddPeer_new_ok:
  assumes gs: "slots mFabricIndex new_GroupFabric CHIP_CONFIG_MAX_FABRICS gs t" "\<forall>g \<in> set gs. fabric_ok g"
    and fn: "f \<noteq> kUndefinedFabricIndex" "n \<noteq> kUndefinedNodeId" and i: "find_key mFabricIndex f gs = None"
  shows "(\<exists>p t'. FindOrAddPeer f n c t = (CHIP_NO_ERROR, Some p, t') \<and> group_table_inv t' \<and>
      counter_at p t' = (case peers t (f, c, n) of Some x \<Rightarrow> x | None \<Rightarrow> NotSynced) \<and>
      peers t' = (peers t)((f, c, n) \<mapsto> counter_at p t')) \<or>
    FindOrAddPeer f n c t = (CHIP_ERROR_TOO_MANY_PEER_NODES, None, t) \<and> peers t (f, c, n) = None \<and> no_room f c t"
proof -
  note eq = FindOrAddPeer_new [OF gs(1) fn i, of c]
  have e: "entry mFabricIndex f gs = None"
    using i by (simp add: entry_find_key)
  have none: "peers t (f, k) = None" for k
    using e entry_slots [OF gs(1), of f] fn(1) by (simp add: peers_def fabric_key)
  show ?thesis
  proof (cases "length gs < CHIP_CONFIG_MAX_FABRICS")
    case True
    obtain g where g: "add_count c 1 (set_senders c ((senders c new_GroupFabric)[0 := (senders c new_GroupFabric ! 0)\<lparr>mNodeId := n\<rparr>])
        (new_GroupFabric\<lparr>mFabricIndex := f\<rparr>)) = g" "mFabricIndex g = f" "fabric_ok g"
      "\<And>k. fabric_peers g k = (if k = (c, n) then Some NotSynced else None)" "msgCounter (senders c g ! 0) = NotSynced"
      using new_fabric_ok [OF fn(2), of c f] by blast
    let ?t = "t[length gs := g]"
    have s: "slots mFabricIndex new_GroupFabric CHIP_CONFIG_MAX_FABRICS (gs @ [g]) ?t"
      using fn(1) g(2) i by (intro slots_add [OF gs(1) True]) (simp_all add: fabric_key find_key_None)
    have "group_table_inv ?t"
      unfolding group_table_inv_def using s gs(2) g(3) by (intro exI [of _ "gs @ [g]"]) auto
    moreover have "peers ?t = (peers t)((f, c, n) := Some NotSynced)"
    proof (rule peers_fun_upd)
      fix f' k'
      have "entry mFabricIndex f' (gs @ [g]) = (if f' = f then Some g else entry mFabricIndex f' gs)"
        using e g(2) by (auto simp: entry_append split: option.splits)
      then show "peers ?t (f', k') = (if f' = f then if k' = (c, n) then Some NotSynced else peers t (f, k') else peers t (f', k'))"
        using entry_slots [OF s, of f'] entry_slots [OF gs(1), of f'] g(4) [of k'] none [of k'] fn(1)
        by (cases "f' = kUndefinedFabricIndex"; cases "f' = f") (simp_all add: peers_def fabric_key)
    qed
    moreover have "counter_at (length gs, c, 0) ?t = NotSynced"
      using g(5) True slots_length [OF gs(1)] by simp
    ultimately show ?thesis
      using eq True g(1) none by (intro disjI1 exI [of _ "(length gs, c, 0)"] exI [of _ ?t]) simp
  next
    case False
    have "kUndefinedFabricIndex \<notin> mFabricIndex ` set t"
      using slots_full [OF gs(1) False] by (simp add: fabric_key)
    then show ?thesis
      using eq False none e entry_slots [OF gs(1), of f] fn(1) by (simp add: no_room_def fabric_key)
  qed
qed

lemma FindOrAddPeer_ok:
  assumes "group_table_inv t" "f \<noteq> kUndefinedFabricIndex" "n \<noteq> kUndefinedNodeId"
  shows "(\<exists>p t'. FindOrAddPeer f n c t = (CHIP_NO_ERROR, Some p, t') \<and> group_table_inv t' \<and>
      counter_at p t' = (case peers t (f, c, n) of Some x \<Rightarrow> x | None \<Rightarrow> NotSynced) \<and>
      peers t' = (peers t)((f, c, n) \<mapsto> counter_at p t')) \<or>
    FindOrAddPeer f n c t = (CHIP_ERROR_TOO_MANY_PEER_NODES, None, t) \<and> peers t (f, c, n) = None \<and> no_room f c t"
proof -
  obtain gs where gs: "slots mFabricIndex new_GroupFabric CHIP_CONFIG_MAX_FABRICS gs t" "\<forall>g \<in> set gs. fabric_ok g"
    using assms(1) by (auto simp: group_table_inv_def)
  show ?thesis
    by (cases "find_key mFabricIndex f gs")
      (use FindOrAddPeer_new_ok [OF gs assms(2,3)] FindOrAddPeer_known_ok [OF gs assms(2,3)] in blast)+
qed

text \<open>Assigning to the counter that was found.\<close>

lemma FindOrAddPeer_ref:
  assumes "group_table_inv t" "FindOrAddPeer f n c t = (CHIP_NO_ERROR, Some p, t')"
  obtains i j where "p = (i, c, j)" "i < length t'" "mFabricIndex (t' ! i) = f" "j < length (senders c (t' ! i))"
    "mNodeId (senders c (t' ! i) ! j) = n"
proof -
  obtain gs where gs: "slots mFabricIndex new_GroupFabric CHIP_CONFIG_MAX_FABRICS gs t"
    using assms(1) by (auto simp: group_table_inv_def)
  have new: "0 < length (senders c (t ! i))" if "i < length t" "mFabricIndex (t ! i) = kUndefinedFabricIndex" for i
  proof -
    have "t ! i \<notin> set gs"
      using gs that(2) by (auto simp: slots_def fabric_key image_iff)
    moreover have "t ! i \<in> set t"
      using that(1) by simp
    ultimately have "t ! i = new_GroupFabric"
      using gs by (auto simp: slots_def)
    then show ?thesis
      by (simp add: new_GroupFabric_def senders_def CHIP_CONFIG_MAX_GROUP_CONTROL_PEERS_def CHIP_CONFIG_MAX_GROUP_DATA_PEERS_def)
  qed
  show thesis
    using assms(2) that new
    by (auto simp: FindOrAddPeer_def Let_def split: if_splits option.splits dest!: find_slot_Some)
qed

lemma set_counter_peers:
  assumes "group_table_inv t" "f \<noteq> kUndefinedFabricIndex" "n \<noteq> kUndefinedNodeId" "i < length t" "mFabricIndex (t ! i) = f"
    and "j < length (senders c (t ! i))" "mNodeId (senders c (t ! i) ! j) = n"
  shows "group_table_inv (set_counter_at (i, c, j) x t)" "peers (set_counter_at (i, c, j) x t) = (peers t)((f, c, n) \<mapsto> x)"
proof -
  obtain gs where gs: "slots mFabricIndex new_GroupFabric CHIP_CONFIG_MAX_FABRICS gs t" "\<forall>g \<in> set gs. fabric_ok g"
    using assms(1) by (auto simp: group_table_inv_def)
  have i: "i < length gs"
    using slots_used [OF gs(1) assms(4)] assms(2,5) by (simp add: fabric_key)
  let ?g = "gs ! i"
  have g: "t ! i = ?g" "fabric_ok ?g"
    using slots_nth [OF gs(1) i] gs(2) i by simp_all
  obtain us vs where us: "senders_ok c ?g us" "senders_ok (\<not> c) ?g vs" "us \<noteq> [] \<or> vs \<noteq> []"
    using g(2) by (rule fabric_okE)
  then have s: "slots mNodeId new_GroupSender (capacity c) us (senders c ?g)"
    by (simp add: senders_ok_def)
  have j: "j < length us"
    using slots_used [OF s] assms(3,6,7) g(1) by (simp add: node_key)
  have u: "senders c ?g ! j = us ! j" "mNodeId (us ! j) = n"
    using slots_nth [OF s j] assms(7) g(1) by simp_all
  let ?s = "(us ! j)\<lparr>msgCounter := x\<rparr>"
  define g' where "g' = set_senders c ((senders c ?g)[j := ?s]) ?g"
  have ok: "senders_ok c g' (us[j := ?s])"
    using us(1) slots_update [OF s j, of ?s] u by (simp add: g'_def senders_ok_def)
  have fok: "fabric_ok g'"
    using senders_ok_other(1) [OF us(2)] us(3) by (intro fabric_okI [OF ok]) (simp_all add: g'_def)
  have idx: "mFabricIndex g' = mFabricIndex ?g"
    by (simp add: g'_def)
  have "fabric_peers g' (c, m) = (if m = n then Some x else fabric_peers ?g (c, m))" for m
    using fabric_peers_senders [OF ok, of m] fabric_peers_senders [OF us(1), of m] entry_update(1) [OF j, of mNodeId ?s m] s u(2) assms(3)
    by (auto simp: slots_def)
  then have p: "fabric_peers g' k = (if k = (c, n) then Some x else fabric_peers ?g k)" for k
    by (intro fabric_peers_other) (simp_all add: g'_def)
  have eq: "set_counter_at (i, c, j) x t = t[i := g']"
    using u g(1) by (simp add: g'_def Let_def)
  note upd = peers_update [OF gs(1) i idx gs(2) fok]
  show "group_table_inv (set_counter_at (i, c, j) x t)"
    unfolding eq by (rule upd(1))
  have e: "entry mFabricIndex f gs = Some ?g"
    using entry_Some [of mFabricIndex gs f ?g] gs(1) i assms(5) g(1) by (simp add: slots_def)
  have at: "peers t (f, k) = fabric_peers ?g k" for k
    using entry_slots [OF gs(1), of f] e assms(2) by (simp add: peers_def fabric_key)
  show "peers (set_counter_at (i, c, j) x t) = (peers t)((f, c, n) \<mapsto> x)"
    unfolding eq using upd(2) p at idx assms(5) g(1) by (intro peers_fun_upd) simp
qed

lemma set_counter_at_ok:
  assumes "group_table_inv t" "f \<noteq> kUndefinedFabricIndex" "n \<noteq> kUndefinedNodeId" "FindOrAddPeer f n c t = (CHIP_NO_ERROR, Some p, t')"
  shows "group_table_inv (set_counter_at p x t')" "peers (set_counter_at p x t') = (peers t)((f, c, n) \<mapsto> x)"
proof -
  obtain i j where p: "p = (i, c, j)" "i < length t'" "mFabricIndex (t' ! i) = f" "j < length (senders c (t' ! i))"
    "mNodeId (senders c (t' ! i) ! j) = n"
    using FindOrAddPeer_ref [OF assms(1,4)] .
  have t': "group_table_inv t'" "peers t' = (peers t)((f, c, n) \<mapsto> counter_at p t')"
    using FindOrAddPeer_ok [OF assms(1-3), of c] assms(4) by auto
  show "group_table_inv (set_counter_at p x t')" "peers (set_counter_at p x t') = (peers t)((f, c, n) \<mapsto> x)"
    using set_counter_peers [OF t'(1) assms(2,3) p(2-5), of x] t'(2) by (simp_all add: p(1))
qed

lemma senders_ok_removed:
  assumes "senders_ok c g us" "slots mNodeId new_GroupSender (capacity c) (drop_slot j us) ys" "j < length us"
  shows "senders_ok c (add_count c (- 1) (set_senders c ys g)) (drop_slot j us)"
proof -
  have "of_nat (length us) + (- 1) = (of_nat (length us - 1) :: 8 word)"
    using assms(3) by (cases us) simp_all
  then show ?thesis
    using assms by (simp add: senders_ok_def drop_slot_def)
qed

lemma count_zero: "senders_ok c g us \<Longrightarrow> peer_count c g = 0 \<longleftrightarrow> us = []"
proof -
  assume *: "senders_ok c g us"
  then have "length us \<le> 15"
    using capacity_bound(2) [of c] by (auto simp: senders_ok_def slots_def)
  then have "(of_nat (length us) :: 8 word) = 0 \<longleftrightarrow> length us = 0"
    by (auto simp: word_of_nat_eq_0_iff dest: dvd_imp_le)
  then show ?thesis
    using * by (simp add: senders_ok_def)
qed

lemma peers_removed:
  assumes "slots mFabricIndex new_GroupFabric CHIP_CONFIG_MAX_FABRICS gs t" "i < length gs" "\<forall>g \<in> set gs. fabric_ok g"
  shows "group_table_inv (RemoveAndCompactFabric i t)"
    "peers (RemoveAndCompactFabric i t) (f, k) = (if f = mFabricIndex (gs ! i) then None else peers t (f, k))"
proof -
  note s = RemoveAndCompactFabric_slots [OF assms(1,2)]
  have d: "distinct (map mFabricIndex gs)"
    using assms(1) by (simp add: slots_def)
  show "group_table_inv (RemoveAndCompactFabric i t)"
    unfolding group_table_inv_def using s drop_slot_simps(1) [OF assms(2) d] assms(3) by (intro exI [of _ "drop_slot i gs"]) auto
  show "peers (RemoveAndCompactFabric i t) (f, k) = (if f = mFabricIndex (gs ! i) then None else peers t (f, k))"
    using entry_slots [OF s, of f] entry_slots [OF assms(1), of f] entry_drop_slot [OF assms(2) d, of f]
    by (auto simp: peers_def fabric_key)
qed

lemma removed_sender:
  fixes c ys g
  defines "g' \<equiv> add_count c (- 1) (set_senders c ys g)"
  assumes "senders_ok c g us" "senders_ok (\<not> c) g vs" "slots mNodeId new_GroupSender (capacity c) (drop_slot j us) ys"
    and "find_key mNodeId n us = Some j"
  shows "fabric_peers g' k = (if k = (c, n) then None else fabric_peers g k)"
    "mDataPeerCount g' = 0 \<and> mControlPeerCount g' = 0 \<Longrightarrow> fabric_peers g' k = None"
    "\<not> (mDataPeerCount g' = 0 \<and> mControlPeerCount g' = 0) \<Longrightarrow> fabric_ok g'" "mFabricIndex g' = mFabricIndex g"
proof -
  have j: "j < length us" "mNodeId (us ! j) = n" and d: "distinct (map mNodeId us)"
    using find_key_Some [OF assms(5)] assms(2) by (simp_all add: senders_ok_def slots_def)
  have ok: "senders_ok c g' (drop_slot j us)" "senders_ok (\<not> c) g' vs"
    unfolding g'_def by (rule senders_ok_removed [OF assms(2,4) j(1)], rule senders_ok_other(2) [OF assms(3)])
  have zero: "mDataPeerCount g' = 0 \<and> mControlPeerCount g' = 0 \<longleftrightarrow> drop_slot j us = [] \<and> vs = []"
    using count_zero [OF ok(1)] count_zero [OF ok(2)] by (cases c) (auto simp: peer_count_def)
  have "fabric_peers g' (c, m) = (if m = n then None else fabric_peers g (c, m))" for m
    using fabric_peers_senders [OF ok(1), of m] fabric_peers_senders [OF assms(2), of m] entry_drop_slot [OF j(1) d, of m] j(2) by auto
  then show "fabric_peers g' k = (if k = (c, n) then None else fabric_peers g k)"
    by (intro fabric_peers_other) (simp_all add: g'_def)
  show "mFabricIndex g' = mFabricIndex g"
    by (simp add: g'_def)
  show "fabric_ok g'" if "\<not> (mDataPeerCount g' = 0 \<and> mControlPeerCount g' = 0)"
    using that zero fabric_okI [OF ok] by blast
  show "fabric_peers g' k = None" if "mDataPeerCount g' = 0 \<and> mControlPeerCount g' = 0"
    using that zero fabric_peers_senders [OF ok(1)] fabric_peers_senders [OF ok(2)] by (cases k; cases "fst k = c") auto
qed

lemma RemoveAndCompactFabric_overwrite: "length t = CHIP_CONFIG_MAX_FABRICS \<Longrightarrow> RemoveAndCompactFabric i (t[i := g]) = RemoveAndCompactFabric i t"
  by (simp add: RemoveAndCompactFabric_def list_update_beyond)

lemma RemovePeer_known:
  assumes gs: "slots mFabricIndex new_GroupFabric CHIP_CONFIG_MAX_FABRICS gs t" "\<forall>g \<in> set gs. fabric_ok g"
    and fn: "f \<noteq> kUndefinedFabricIndex" "n \<noteq> kUndefinedNodeId" and i: "find_key mFabricIndex f gs = Some i"
    and us: "senders_ok c (gs ! i) us" "senders_ok (\<not> c) (gs ! i) vs" and j: "find_key mNodeId n us = Some j"
  shows "\<exists>t'. RemovePeer f n c t = (CHIP_NO_ERROR, t') \<and> group_table_inv t' \<and> peers t' = (peers t)((f, c, n) := None)"
proof -
  let ?g = "gs ! i"
  have i': "i < length gs" "mFabricIndex ?g = f" "t ! i = ?g" "length t = CHIP_CONFIG_MAX_FABRICS"
    using find_key_Some [OF i] slots_nth [OF gs(1)] slots_length [OF gs(1)] by auto
  obtain ys where ys: "RemoveSpecificPeer n (senders c ?g) = (True, ys)" "slots mNodeId new_GroupSender (capacity c) (drop_slot j us) ys"
    using RemoveSpecificPeer_slots [of "capacity c" us "senders c ?g" n] us(1) fn(2) j by (auto simp: senders_ok_def)
  define g' where "g' = add_count c (- 1) (set_senders c ys ?g)"
  note r = removed_sender [OF us ys(2) j, folded g'_def]
  have eq: "RemovePeer f n c t = (CHIP_NO_ERROR,
      if mDataPeerCount g' = 0 \<and> mControlPeerCount g' = 0 then RemoveAndCompactFabric i (t[i := g']) else t[i := g'])"
    using fn find_key_slots [OF gs(1), of f] i i'(3) ys(1) by (simp add: RemovePeer_def g'_def Let_def fabric_key)
  note at = peers_at [OF gs(1) i fn(1)]
  show ?thesis
  proof (cases "mDataPeerCount g' = 0 \<and> mControlPeerCount g' = 0")
    case True
    have "peers (RemoveAndCompactFabric i t) = (peers t)((f, c, n) := None)"
      using peers_removed(2) [OF gs(1) i'(1) gs(2)] r(1,2) True at i'(2) by (intro peers_fun_upd) (metis option.distinct(1))
    then show ?thesis
      using eq True RemoveAndCompactFabric_overwrite [OF i'(4)] peers_removed(1) [OF gs(1) i'(1) gs(2)] by simp
  next
    case False
    note upd = peers_update [OF gs(1) i'(1) r(4) gs(2) r(3) [OF False]]
    have "peers (t[i := g']) = (peers t)((f, c, n) := None)"
      using upd(2) r(1,4) at i'(2) by (intro peers_fun_upd) simp
    then show ?thesis
      using eq False upd(1) by auto
  qed
qed

lemma RemovePeer_ok:
  assumes "group_table_inv t" "f \<noteq> kUndefinedFabricIndex" "n \<noteq> kUndefinedNodeId"
  shows "\<exists>t'. RemovePeer f n c t = (if peers t (f, c, n) = None then CHIP_ERROR_NOT_FOUND else CHIP_NO_ERROR, t') \<and>
    group_table_inv t' \<and> peers t' = (peers t)((f, c, n) := None)"
proof -
  obtain gs where gs: "slots mFabricIndex new_GroupFabric CHIP_CONFIG_MAX_FABRICS gs t" "\<forall>g \<in> set gs. fabric_ok g"
    using assms(1) by (auto simp: group_table_inv_def)
  have k: "find_key mFabricIndex f t = find_key mFabricIndex f gs"
    using find_key_slots [OF gs(1)] assms(2) by (simp add: fabric_key)
  show ?thesis
  proof (cases "find_key mFabricIndex f gs")
    case None
    then have "peers t (f, c, n) = None"
      using entry_slots [OF gs(1), of f] assms(2) by (simp add: peers_def entry_find_key fabric_key)
    then show ?thesis
      using None k assms by (intro exI [of _ t]) (simp add: RemovePeer_def fun_upd_idem)
  next
    case (Some i)
    have i: "gs ! i \<in> set gs" "t ! i = gs ! i"
      using find_key_Some [OF Some] slots_nth [OF gs(1)] by auto
    obtain us vs where us: "senders_ok c (gs ! i) us" "senders_ok (\<not> c) (gs ! i) vs"
      using gs(2) i(1) by (metis fabric_okE)
    have pn: "peers t (f, c, n) = map_option msgCounter (entry mNodeId n us)"
      using peers_at [OF gs(1) Some assms(2)] fabric_peers_senders [OF us(1), of n] assms(3) by simp
    show ?thesis
    proof (cases "find_key mNodeId n us")
      case None
      then have "RemoveSpecificPeer n (senders c (gs ! i)) = (False, senders c (gs ! i))" "peers t (f, c, n) = None"
        using RemoveSpecificPeer_slots [of "capacity c" us "senders c (gs ! i)" n] us(1) assms(3) pn by (simp_all add: entry_find_key senders_ok_def)
      then show ?thesis
        using Some k assms i(2) by (intro exI [of _ t]) (simp add: RemovePeer_def fun_upd_idem)
    next
      case (Some j)
      then have "peers t (f, c, n) \<noteq> None"
        using pn by (simp add: entry_find_key)
      then show ?thesis
        using RemovePeer_known [OF gs assms(2,3) \<open>find_key mFabricIndex f gs = Some i\<close> us Some] by auto
    qed
  qed
qed

lemma FabricRemoved_ok:
  assumes "group_table_inv t" "f \<noteq> kUndefinedFabricIndex"
  shows "\<exists>t'. FabricRemoved f t = (if entry mFabricIndex f t = None then CHIP_ERROR_NOT_FOUND else CHIP_NO_ERROR, t') \<and>
    group_table_inv t' \<and> peers t' = (\<lambda>(f', k). if f' = f then None else peers t (f', k))"
proof -
  obtain gs where gs: "slots mFabricIndex new_GroupFabric CHIP_CONFIG_MAX_FABRICS gs t" "\<forall>g \<in> set gs. fabric_ok g"
    using assms(1) by (auto simp: group_table_inv_def)
  have k: "find_key mFabricIndex f t = find_key mFabricIndex f gs" "entry mFabricIndex f t = entry mFabricIndex f gs"
    using find_key_slots [OF gs(1)] entry_slots [OF gs(1)] assms(2) by (simp_all add: fabric_key)
  show ?thesis
  proof (cases "find_key mFabricIndex f gs")
    case None
    then have "peers t = (\<lambda>(f', k). if f' = f then None else peers t (f', k))"
      using k(2) by (auto simp: fun_eq_iff peers_def entry_find_key)
    then show ?thesis
      using None k assms by (intro exI [of _ t]) (simp add: FabricRemoved_def entry_find_key)
  next
    case (Some i)
    have i: "i < length gs" "mFabricIndex (gs ! i) = f"
      using find_key_Some [OF Some] by simp_all
    have "peers (RemoveAndCompactFabric i t) = (\<lambda>(f', k). if f' = f then None else peers t (f', k))"
      using peers_removed(2) [OF gs(1) i(1) gs(2)] i(2) by (auto simp: fun_eq_iff)
    then show ?thesis
      using Some k assms(2) peers_removed(1) [OF gs(1) i(1) gs(2)]
      by (intro exI [of _ "RemoveAndCompactFabric i t"]) (auto simp: FabricRemoved_def entry_find_key)
  qed
qed

lemma new_group_table_inv: "group_table_inv new_GroupPeerTable" "peers new_GroupPeerTable = Map.empty"
proof -
  have s: "slots mFabricIndex new_GroupFabric CHIP_CONFIG_MAX_FABRICS [] new_GroupPeerTable"
    by (simp add: new_GroupPeerTable_def slots_empty)
  then show "group_table_inv new_GroupPeerTable"
    unfolding group_table_inv_def by (intro exI [of _ "[]"]) simp
  show "peers new_GroupPeerTable = Map.empty"
    using entry_slots [OF s] by (auto simp: fun_eq_iff peers_def fabric_key)
qed

subsection \<open>A bounded map\<close>

text \<open>
  The table refines a map with a bound on the number of fabrics and, for each fabric, on the numbers of control and data peers.
\<close>

definition map_full :: "(8 word \<times> bool \<times> 64 word \<Rightarrow> peer_counter option) \<Rightarrow> 8 word \<Rightarrow> bool \<Rightarrow> bool" where
  "map_full m f c \<longleftrightarrow>
     (if \<exists>k. m (f, k) \<noteq> None then card {n. m (f, c, n) \<noteq> None} = capacity c
      else card {f. \<exists>k. m (f, k) \<noteq> None} = CHIP_CONFIG_MAX_FABRICS)"

datatype peer_cmd = Touch "8 word" "64 word" bool peer_counter | Forget "8 word" "64 word" bool | DropFabric "8 word"

text \<open>\<open>Touch\<close> finds or adds a peer and assigns to its counter.\<close>

fun table_step :: "peer_cmd \<Rightarrow> group_fabric list \<Rightarrow> group_fabric list" where
  "table_step (Touch f n c x) t =
    (case FindOrAddPeer f n c t of (err, Some p, t') \<Rightarrow> set_counter_at p x t' | (err, None, t') \<Rightarrow> t')"
| "table_step (Forget f n c) t = snd (RemovePeer f n c t)"
| "table_step (DropFabric f) t = snd (FabricRemoved f t)"

fun map_step :: "peer_cmd \<Rightarrow> (8 word \<times> bool \<times> 64 word \<Rightarrow> peer_counter option) \<Rightarrow> 8 word \<times> bool \<times> 64 word \<Rightarrow> peer_counter option" where
  "map_step (Touch f n c x) m =
    (if f = kUndefinedFabricIndex \<or> n = kUndefinedNodeId \<or> m (f, c, n) = None \<and> map_full m f c then m else m((f, c, n) \<mapsto> x))"
| "map_step (Forget f n c) m = m((f, c, n) := None)"
| "map_step (DropFabric f) m = (\<lambda>(f', k). if f' = f then None else m (f', k))"

lemma peers_undefined: "peers t (kUndefinedFabricIndex, k) = None" "peers t (f, c, kUndefinedNodeId) = None"
  by (simp_all add: peers_def fabric_peers_def bind_eq_None_conv)

lemma card_keys: "distinct (map key us) \<Longrightarrow> card (key ` set us) = length us"
  by (metis card_image distinct_card distinct_map length_map set_map)

lemma fabric_some_peer:
  assumes "fabric_ok g"
  shows "\<exists>k. fabric_peers g k \<noteq> None"
proof -
  obtain us vs where us: "senders_ok True g us" "senders_ok (\<not> True) g vs" "us \<noteq> [] \<or> vs \<noteq> []"
    using assms by (rule fabric_okE)
  have "fabric_peers g (c, mNodeId u) \<noteq> None" if "senders_ok c g xs" "u \<in> set xs" for c xs u
  proof -
    have "mNodeId u \<noteq> kUndefinedNodeId"
      using that unfolding senders_ok_def slots_def node_key by (metis imageI)
    moreover have "entry mNodeId (mNodeId u) xs \<noteq> None"
      using that(2) by (auto simp: entry_None)
    ultimately show ?thesis
      using fabric_peers_senders [OF that(1)] by simp
  qed
  then show ?thesis
    using us by (metis hd_in_set)
qed

lemma card_nodes:
  assumes "senders_ok c g us"
  shows "card {n. fabric_peers g (c, n) \<noteq> None} = length us"
proof -
  have s: "distinct (map mNodeId us)" "kUndefinedNodeId \<notin> mNodeId ` set us"
    using assms by (auto simp: senders_ok_def slots_def node_key)
  have "{n. fabric_peers g (c, n) \<noteq> None} = mNodeId ` set us"
  proof (intro set_eqI)
    fix n
    show "n \<in> {n. fabric_peers g (c, n) \<noteq> None} \<longleftrightarrow> n \<in> mNodeId ` set us"
      using fabric_peers_senders [OF assms, of n] s(2) entry_None [of mNodeId n us] by (cases "n = kUndefinedNodeId") auto
  qed
  then show ?thesis
    using card_keys [OF s(1)] by simp
qed

lemma known_fabric:
  assumes "slots mFabricIndex new_GroupFabric CHIP_CONFIG_MAX_FABRICS gs t" "\<forall>g \<in> set gs. fabric_ok g" "f \<noteq> kUndefinedFabricIndex"
  shows "(\<exists>k. peers t (f, k) \<noteq> None) \<longleftrightarrow> f \<in> mFabricIndex ` set gs"
proof -
  have e: "entry mFabricIndex f t = entry mFabricIndex f gs"
    using entry_slots [OF assms(1)] assms(3) by (simp add: fabric_key)
  have d: "distinct (map mFabricIndex gs)"
    using assms(1) by (simp add: slots_def)
  show ?thesis
  proof
    assume "f \<in> mFabricIndex ` set gs"
    then obtain g where "entry mFabricIndex f gs = Some g" "g \<in> set gs"
      using entry_Some [OF d] by blast
    then show "\<exists>k. peers t (f, k) \<noteq> None"
      using fabric_some_peer assms(2,3) e by (fastforce simp: peers_def)
  next
    assume "\<exists>k. peers t (f, k) \<noteq> None"
    then have "entry mFabricIndex f gs \<noteq> None"
      using e assms(3) by (cases "entry mFabricIndex f gs") (auto simp: peers_def)
    then show "f \<in> mFabricIndex ` set gs"
      by (simp add: entry_None)
  qed
qed

lemma no_room_map_full:
  assumes "group_table_inv t" "f \<noteq> kUndefinedFabricIndex"
  shows "no_room f c t \<longleftrightarrow> map_full (peers t) f c"
proof -
  obtain gs where gs: "slots mFabricIndex new_GroupFabric CHIP_CONFIG_MAX_FABRICS gs t" "\<forall>g \<in> set gs. fabric_ok g"
    using assms(1) by (auto simp: group_table_inv_def)
  have e: "entry mFabricIndex f t = entry mFabricIndex f gs" and d: "distinct (map mFabricIndex gs)"
    using entry_slots [OF gs(1)] assms(2) gs(1) by (simp_all add: fabric_key slots_def)
  show ?thesis
  proof (cases "entry mFabricIndex f gs")
    case None
    have free: "kUndefinedFabricIndex \<notin> mFabricIndex ` set t \<longleftrightarrow> length gs = CHIP_CONFIG_MAX_FABRICS"
      using gs(1) by (auto simp: slots_def fabric_key)
    have "{f. \<exists>k. peers t (f, k) \<noteq> None} = mFabricIndex ` set gs"
    proof (intro set_eqI)
      fix f'
      show "f' \<in> {f. \<exists>k. peers t (f, k) \<noteq> None} \<longleftrightarrow> f' \<in> mFabricIndex ` set gs"
        using known_fabric [OF gs, of f'] peers_undefined(1) [of t] gs(1)
        by (cases "f' = kUndefinedFabricIndex") (auto simp: slots_def fabric_key)
    qed
    moreover have "\<not> (\<exists>k. peers t (f, k) \<noteq> None)"
      using None known_fabric [OF gs assms(2)] by (simp add: entry_None)
    ultimately have "map_full (peers t) f c \<longleftrightarrow> length gs = CHIP_CONFIG_MAX_FABRICS"
      unfolding map_full_def using card_keys [OF d] by simp
    then show ?thesis
      using None e free by (simp add: no_room_def)
  next
    case (Some g)
    then have g: "g \<in> set gs" "mFabricIndex g = f"
      using entry_Some [OF d] by auto
    obtain us where us: "senders_ok c g us"
      using gs(2) g(1) by (metis fabric_okE)
    have p: "peers t (f, k) = fabric_peers g k" for k
      using Some e assms(2) by (simp add: peers_def)
    have "kUndefinedNodeId \<notin> mNodeId ` set (senders c g) \<longleftrightarrow> length us = capacity c"
      using us by (auto simp: senders_ok_def slots_def node_key)
    then show ?thesis
      using Some e g known_fabric [OF gs assms(2)] card_nodes [OF us] p by (auto simp: no_room_def map_full_def)
  qed
qed

lemma FindOrAddPeer_no_room:
  assumes "group_table_inv t" "f \<noteq> kUndefinedFabricIndex" "n \<noteq> kUndefinedNodeId" "peers t (f, c, n) = None" "no_room f c t"
  shows "FindOrAddPeer f n c t = (CHIP_ERROR_TOO_MANY_PEER_NODES, None, t)"
proof -
  obtain gs where gs: "slots mFabricIndex new_GroupFabric CHIP_CONFIG_MAX_FABRICS gs t" "\<forall>g \<in> set gs. fabric_ok g"
    using assms(1) by (auto simp: group_table_inv_def)
  have e: "entry mFabricIndex f t = map_option ((!) gs) (find_key mFabricIndex f gs)"
    using entry_slots [OF gs(1), of f] assms(2) by (simp add: fabric_key entry_find_key)
  show ?thesis
  proof (cases "find_key mFabricIndex f gs")
    case None
    then have "\<not> length gs < CHIP_CONFIG_MAX_FABRICS"
      using assms(5) e gs(1) by (auto simp: no_room_def slots_def fabric_key)
    then show ?thesis
      using FindOrAddPeer_new [OF gs(1) assms(2,3) None] by simp
  next
    case (Some i)
    have "fabric_ok (gs ! i)"
      using find_key_Some [OF Some] gs(2) by simp
    then obtain us where us: "senders_ok c (gs ! i) us"
      by (rule fabric_okE)
    have "\<not> length us < capacity c"
      using assms(5) e Some us by (auto simp: no_room_def senders_ok_def slots_def node_key)
    moreover have "find_key mNodeId n us = None"
      using peers_at [OF gs(1) Some assms(2)] fabric_peers_senders [OF us, of n] assms(3,4) by (simp add: entry_find_key)
    ultimately show ?thesis
      using FindOrAddPeer_known [OF gs(1) assms(2,3) Some us] by simp
  qed
qed

lemma table_step_refines:
  assumes "group_table_inv t"
  shows "group_table_inv (table_step cmd t) \<and> peers (table_step cmd t) = map_step cmd (peers t)"
proof (cases cmd)
  case (Touch f n c x)
  show ?thesis
  proof (cases "f = kUndefinedFabricIndex \<or> n = kUndefinedNodeId")
    case True
    then show ?thesis
      using assms Touch by (auto simp: FindOrAddPeer_def)
  next
    case False
    then have fn: "f \<noteq> kUndefinedFabricIndex" "n \<noteq> kUndefinedNodeId"
      by simp_all
    from FindOrAddPeer_ok [OF assms fn, of c] show ?thesis
    proof
      assume "\<exists>p t'. FindOrAddPeer f n c t = (CHIP_NO_ERROR, Some p, t') \<and> group_table_inv t' \<and>
          counter_at p t' = (case peers t (f, c, n) of Some x \<Rightarrow> x | None \<Rightarrow> NotSynced) \<and> peers t' = (peers t)((f, c, n) \<mapsto> counter_at p t')"
      then obtain p t' where p: "FindOrAddPeer f n c t = (CHIP_NO_ERROR, Some p, t')"
        by blast
      then have "\<not> (peers t (f, c, n) = None \<and> map_full (peers t) f c)"
        using FindOrAddPeer_no_room [OF assms fn] no_room_map_full [OF assms fn(1), of c] by fastforce
      then show ?thesis
        using set_counter_at_ok [OF assms fn p] fn Touch p by auto
    next
      assume "FindOrAddPeer f n c t = (CHIP_ERROR_TOO_MANY_PEER_NODES, None, t) \<and> peers t (f, c, n) = None \<and> no_room f c t"
      then show ?thesis
        using assms fn Touch no_room_map_full [OF assms fn(1), of c] by simp
    qed
  qed
next
  case (Forget f n c)
  show ?thesis
  proof (cases "f = kUndefinedFabricIndex \<or> n = kUndefinedNodeId")
    case True
    then show ?thesis
      using assms Forget peers_undefined by (auto simp: RemovePeer_def fun_upd_idem)
  next
    case False
    then show ?thesis
      using RemovePeer_ok [OF assms, of f n c] Forget by auto
  qed
next
  case (DropFabric f)
  show ?thesis
  proof (cases "f = kUndefinedFabricIndex")
    case True
    then show ?thesis
      using assms DropFabric peers_undefined(1) by (auto simp: FabricRemoved_def fun_eq_iff)
  next
    case False
    then show ?thesis
      using FabricRemoved_ok [OF assms, of f] DropFabric by auto
  qed
qed

lemma table_refines:
  "group_table_inv t \<Longrightarrow> group_table_inv (fold table_step cmds t) \<and> peers (fold table_step cmds t) = fold map_step cmds (peers t)"
  by (induction cmds arbitrary: t) (simp_all add: table_step_refines)

subsection \<open>Receiving group messages\<close>

text \<open>
  A group message is checked with the counter of its sender (\<^verbatim>\<open>SessionManager::SecureGroupMessageDispatch\<close>); \<open>None\<close> is a message that is dropped
  because there is no place for the counter of its sender.
\<close>

type_synonym group_msg = "(8 word \<times> bool \<times> 64 word) \<times> 32 word"

fun receive_group_message :: "group_msg \<Rightarrow> group_fabric list \<Rightarrow> bool option \<times> group_fabric list" where
  "receive_group_message ((f, c, n), counter) t =
    (case FindOrAddPeer f n c t of
       (err, Some p, t') \<Rightarrow> (case receive_group counter (counter_at p t') of (new, x) \<Rightarrow> (Some new, set_counter_at p x t'))
     | (err, None, t') \<Rightarrow> (None, t'))"

fun group_run :: "group_msg list \<Rightarrow> group_fabric list \<Rightarrow> bool option list" where
  "group_run [] t = []"
| "group_run (m # ms) t = (case receive_group_message m t of (r, t) \<Rightarrow> r # group_run ms t)"

definition of_sender :: "8 word \<times> bool \<times> 64 word \<Rightarrow> group_msg list \<Rightarrow> 'b list \<Rightarrow> 'b list" where
  "of_sender k ms rs = map snd (filter (\<lambda>(m, r). fst m = k) (zip ms rs))"

lemma of_sender_simps [simp]:
  "of_sender k [] rs = []" "of_sender k (m # ms) (r # rs) = (if fst m = k then r # of_sender k ms rs else of_sender k ms rs)"
  by (simp_all add: of_sender_def)

definition known_counter :: "peer_counter option \<Rightarrow> peer_counter" where
  "known_counter x = (case x of Some x \<Rightarrow> x | None \<Rightarrow> NotSynced)"

lemma receive_group_message_ok:
  assumes "group_table_inv t" "receive_group_message ((f, c, n), counter) t = (Some new, t')"
  obtains x where "receive_group counter (known_counter (peers t (f, c, n))) = (new, x)" "group_table_inv t'" "peers t' = (peers t)((f, c, n) \<mapsto> x)"
proof -
  obtain err p t1 where p: "FindOrAddPeer f n c t = (err, Some p, t1)"
    using assms(2) by (auto split: prod.splits option.splits)
  have fn: "f \<noteq> kUndefinedFabricIndex" "n \<noteq> kUndefinedNodeId"
    using p by (auto simp: FindOrAddPeer_def split: if_splits)
  have e: "err = CHIP_NO_ERROR" "counter_at p t1 = known_counter (peers t (f, c, n))"
    using FindOrAddPeer_ok [OF assms(1) fn, of c] p by (auto simp: known_counter_def)
  obtain b x where x: "receive_group counter (counter_at p t1) = (b, x)"
    by fastforce
  then have "b = new" "t' = set_counter_at p x t1"
    using assms(2) p by simp_all
  then show thesis
    using that [of x] x e set_counter_at_ok [OF assms(1) fn p [unfolded e(1)]] by simp
qed

lemma group_run_per_sender:
  assumes "group_table_inv t" "None \<notin> set (group_run ms t)"
  shows "of_sender k ms (group_run ms t) = map Some (receive_all receive_group (of_sender k ms (map snd ms)) (known_counter (peers t k)))"
  using assms
proof (induction ms arbitrary: t)
  case (Cons m ms)
  obtain f c n counter where m: "m = ((f, c, n), counter)"
    by (metis surj_pair)
  obtain r t' where r: "receive_group_message m t = (r, t')"
    by fastforce
  then obtain new where new: "r = Some new"
    using Cons.prems(2) by (cases r) auto
  obtain x where x: "receive_group counter (known_counter (peers t (f, c, n))) = (new, x)" "group_table_inv t'" "peers t' = (peers t)((f, c, n) \<mapsto> x)"
    using receive_group_message_ok [OF Cons.prems(1), of f c n counter new t'] r m new by auto
  have IH: "of_sender k ms (group_run ms t') = map Some (receive_all receive_group (of_sender k ms (map snd ms)) (known_counter (peers t' k)))"
    using Cons.prems(2) r x(2) by (intro Cons.IH) simp_all
  show ?case
    using IH x r m new by (cases "k = (f, c, n)") (auto simp: known_counter_def)
qed simp

end
