(* ===== verification/GroupOutgoing.thy ===== *)
theory GroupOutgoing
  imports MsgCounter
begin

text \<open>
  The counters of outgoing group messages (\<^verbatim>\<open>GroupOutgoingCounters\<close> in \<^verbatim>\<open>src/transport/GroupPeerMessageCounter.cpp\<close>). The counters
  must not be used again after a restart, therefore a value ahead of them is kept in the persistent storage. The storage is an
  interface: its state and its two operations are parameters.
\<close>

definition GROUP_MSG_COUNTER_MIN_INCREMENT :: "32 word" where
  [simp]: "GROUP_MSG_COUNTER_MIN_INCREMENT = 1000"

datatype storage_key = GroupControlCounter | GroupDataCounter

record 's storage_delegate =
  SyncGetKeyValue :: "storage_key \<Rightarrow> 's \<Rightarrow> CHIP_ERROR \<times> 32 word"
  SyncSetKeyValue :: "storage_key \<Rightarrow> 32 word \<Rightarrow> 's \<Rightarrow> CHIP_ERROR \<times> 's"

record outgoing =
  mGroupDataCounter :: "32 word"
  mGroupControlCounter :: "32 word"
  mStorage :: bool \<comment> \<open>whether the pointer is set\<close>

definition new_outgoing :: outgoing where
  "new_outgoing = \<lparr>mGroupDataCounter = 0, mGroupControlCounter = 0, mStorage = False\<rparr>"

text \<open>
  \<open>d\<close> is \<open>None\<close> for a null pointer; \<open>rand1\<close> and \<open>rand2\<close> are the results of \<^verbatim>\<open>GetRandU32\<close>.
\<close>

definition initial_counter :: "32 word \<Rightarrow> CHIP_ERROR \<times> 32 word \<Rightarrow> CHIP_ERROR + 32 word" where
  "initial_counter rand r =
    (case r of (err, temp) \<Rightarrow>
       if err = CHIP_ERROR_PERSISTED_STORAGE_VALUE_NOT_FOUND then Inr ((rand AND kMessageCounterRandomInitMask) + 1)
       else if err \<noteq> CHIP_NO_ERROR then Inl err
       else Inr temp)"

definition Outgoing_Init ::
  "'s storage_delegate option \<Rightarrow> 32 word \<Rightarrow> 32 word \<Rightarrow> outgoing \<Rightarrow> 's \<Rightarrow> CHIP_ERROR \<times> outgoing \<times> 's" where
  "Outgoing_Init storage_delegate rand1 rand2 g s =
    (case storage_delegate of
       None \<Rightarrow> (CHIP_ERROR_INVALID_ARGUMENT, g, s)
     | Some d \<Rightarrow>
         (let g = g\<lparr>mStorage := True\<rparr>
          in case initial_counter rand1 (SyncGetKeyValue d GroupControlCounter s) of
               Inl err \<Rightarrow> (err, g, s)
             | Inr c \<Rightarrow>
                 (let g = g\<lparr>mGroupControlCounter := c\<rparr>
                  in case initial_counter rand2 (SyncGetKeyValue d GroupDataCounter s) of
                       Inl err \<Rightarrow> (err, g, s)
                     | Inr c \<Rightarrow>
                         (let g = g\<lparr>mGroupDataCounter := c\<rparr>
                          in case SyncSetKeyValue d GroupControlCounter (mGroupControlCounter g + GROUP_MSG_COUNTER_MIN_INCREMENT) s of (err, s) \<Rightarrow>
                               if err \<noteq> CHIP_NO_ERROR then (err, g, s)
                               else
                                 (case SyncSetKeyValue d GroupDataCounter (mGroupDataCounter g + GROUP_MSG_COUNTER_MIN_INCREMENT) s of (err, s) \<Rightarrow>
                                    (err, g, s))))))"

definition Outgoing_GetCounter :: "bool \<Rightarrow> outgoing \<Rightarrow> 32 word" where
  "Outgoing_GetCounter isControl g = (if isControl then mGroupControlCounter g else mGroupDataCounter g)"

definition counter_key :: "bool \<Rightarrow> storage_key" where
  "counter_key isControl = (if isControl then GroupControlCounter else GroupDataCounter)"

definition Outgoing_IncrementCounter :: "'s storage_delegate \<Rightarrow> bool \<Rightarrow> outgoing \<Rightarrow> 's \<Rightarrow> CHIP_ERROR \<times> outgoing \<times> 's" where
  "Outgoing_IncrementCounter d isControl g s =
    (let g = (if isControl then g\<lparr>mGroupControlCounter := mGroupControlCounter g + 1\<rparr>
              else g\<lparr>mGroupDataCounter := mGroupDataCounter g + 1\<rparr>);
         key = counter_key isControl; value = Outgoing_GetCounter isControl g
     in if \<not> mStorage g then (CHIP_ERROR_PERSISTED_STORAGE_VALUE_NOT_FOUND, g, s)
        else
          (case SyncGetKeyValue d key s of (err, temp) \<Rightarrow>
             if err \<noteq> CHIP_NO_ERROR then (err, g, s)
             else if temp = value then
               (case SyncSetKeyValue d key (value + GROUP_MSG_COUNTER_MIN_INCREMENT) s of (err, s) \<Rightarrow> (err, g, s))
             else (CHIP_NO_ERROR, g, s)))"

subsection \<open>Use of the counters\<close>

text \<open>
  The session manager puts the counter into the header of a message and then increments it, ignoring the result
  (\<^verbatim>\<open>SessionManager::PrepareMessage\<close>); \<open>Restart\<close> is a reboot at any point between two messages.
\<close>

datatype action = Send bool | Restart "32 word" "32 word"

fun used_counters :: "'s storage_delegate \<Rightarrow> action list \<Rightarrow> outgoing \<Rightarrow> 's \<Rightarrow> (bool \<times> 32 word) list" where
  "used_counters d [] g s = []"
| "used_counters d (Send c # xs) g s =
    (case Outgoing_IncrementCounter d c g s of (err, g', s') \<Rightarrow> (c, Outgoing_GetCounter c g) # used_counters d xs g' s')"
| "used_counters d (Restart r1 r2 # xs) g s =
    (case Outgoing_Init (Some d) r1 r2 new_outgoing s of (err, g', s') \<Rightarrow> used_counters d xs g' s')"

definition used_of :: "bool \<Rightarrow> (bool \<times> 32 word) list \<Rightarrow> 32 word list" where
  "used_of c us = map snd (filter (\<lambda>u. fst u = c) us)"

lemma used_of_simps [simp]: "used_of c [] = []" "used_of c ((c', u) # us) = (if c' = c then u # used_of c us else used_of c us)"
  by (simp_all add: used_of_def)

text \<open>A storage that works: it returns what was stored last.\<close>

definition reliable :: "'s storage_delegate \<Rightarrow> ('s \<Rightarrow> storage_key \<Rightarrow> 32 word option) \<Rightarrow> bool" where
  "reliable d val \<longleftrightarrow>
     (\<forall>k s. case val s k of
        Some v \<Rightarrow> SyncGetKeyValue d k s = (CHIP_NO_ERROR, v)
      | None \<Rightarrow> fst (SyncGetKeyValue d k s) = CHIP_ERROR_PERSISTED_STORAGE_VALUE_NOT_FOUND) \<and>
     (\<forall>k v s. \<exists>s'. SyncSetKeyValue d k v s = (CHIP_NO_ERROR, s') \<and> val s' = (val s)(k \<mapsto> v))"

lemma reliable_get:
  assumes "reliable d val"
  shows "val s k = Some v \<Longrightarrow> SyncGetKeyValue d k s = (CHIP_NO_ERROR, v)"
    "val s k = None \<Longrightarrow> fst (SyncGetKeyValue d k s) = CHIP_ERROR_PERSISTED_STORAGE_VALUE_NOT_FOUND"
proof -
  have "case val s k of Some v \<Rightarrow> SyncGetKeyValue d k s = (CHIP_NO_ERROR, v)
      | None \<Rightarrow> fst (SyncGetKeyValue d k s) = CHIP_ERROR_PERSISTED_STORAGE_VALUE_NOT_FOUND"
    using assms unfolding reliable_def by blast
  then show "val s k = Some v \<Longrightarrow> SyncGetKeyValue d k s = (CHIP_NO_ERROR, v)"
    "val s k = None \<Longrightarrow> fst (SyncGetKeyValue d k s) = CHIP_ERROR_PERSISTED_STORAGE_VALUE_NOT_FOUND"
    by simp_all
qed

lemma reliable_set:
  assumes "reliable d val"
  obtains s' where "SyncSetKeyValue d k v s = (CHIP_NO_ERROR, s')" "val s' = (val s)(k \<mapsto> v)"
  using assms unfolding reliable_def by blast

text \<open>The stored values are ahead of the counters, by at most 1000.\<close>

definition ahead :: "('s \<Rightarrow> storage_key \<Rightarrow> 32 word option) \<Rightarrow> nat \<Rightarrow> bool \<Rightarrow> outgoing \<Rightarrow> 's \<Rightarrow> bool" where
  "ahead val n c g s \<longleftrightarrow> mStorage g \<and>
     (\<exists>T. val s (counter_key c) = Some T \<and> uint (Outgoing_GetCounter c g) < uint T \<and> uint T + 1000 * int n < 2 ^ 32)"

lemma counter_key_inj [simp]: "counter_key c = counter_key c' \<longleftrightarrow> c = c'"
  by (simp add: counter_key_def)

lemma uint_add_small: "uint (x :: 32 word) + k < 2 ^ 32 \<Longrightarrow> 0 \<le> k \<Longrightarrow> uint (x + word_of_int k) = uint x + k"
  using uint_ge_0 [of x] by (simp add: uint_word_ariths(1) uint_word_of_int mod_add_right_eq del: uint_ge_0)

lemma Increment_ok:
  assumes "reliable d val" "mStorage g" "\<And>c. val s (counter_key c) \<noteq> None"
  obtains g' s' where "Outgoing_IncrementCounter d c g s = (CHIP_NO_ERROR, g', s')" "mStorage g'"
    "Outgoing_GetCounter c g' = Outgoing_GetCounter c g + 1" "\<forall>c'. c' \<noteq> c \<longrightarrow> Outgoing_GetCounter c' g' = Outgoing_GetCounter c' g"
    "val s' (counter_key c) = Some (if val s (counter_key c) = Some (Outgoing_GetCounter c g + 1) then Outgoing_GetCounter c g + 1 + 1000
       else the (val s (counter_key c)))"
    "\<forall>c'. c' \<noteq> c \<longrightarrow> val s' (counter_key c') = val s (counter_key c')"
proof -
  obtain T where T: "val s (counter_key c) = Some T"
    using assms(3) by blast
  let ?g = "if c then g\<lparr>mGroupControlCounter := mGroupControlCounter g + 1\<rparr> else g\<lparr>mGroupDataCounter := mGroupDataCounter g + 1\<rparr>"
  have g: "mStorage ?g" "Outgoing_GetCounter c ?g = Outgoing_GetCounter c g + 1" "c' \<noteq> c \<Longrightarrow> Outgoing_GetCounter c' ?g = Outgoing_GetCounter c' g" for c'
    using assms(2) by (auto simp: Outgoing_GetCounter_def)
  obtain s1 where s1: "SyncSetKeyValue d (counter_key c) (Outgoing_GetCounter c g + 1 + 1000) s = (CHIP_NO_ERROR, s1)"
    "val s1 = (val s)(counter_key c \<mapsto> Outgoing_GetCounter c g + 1 + 1000)"
    using reliable_set [OF assms(1)] .
  have "Outgoing_IncrementCounter d c g s =
      (if T = Outgoing_GetCounter c g + 1 then (CHIP_NO_ERROR, ?g, s1) else (CHIP_NO_ERROR, ?g, s))"
    using reliable_get(1) [OF assms(1) T] s1(1) g(1,2) by (auto simp: Outgoing_IncrementCounter_def Let_def)
  then show thesis
    using that [of ?g "if T = Outgoing_GetCounter c g + 1 then s1 else s"] g s1(2) T by simp
qed


lemma Increment_ahead:
  assumes "reliable d val" "ahead val (Suc n) c' g s" "\<And>c. val s (counter_key c) \<noteq> None"
    and "Outgoing_IncrementCounter d c g s = (err, g', s')"
  shows "ahead val n c' g' s'" "uint (Outgoing_GetCounter c' g') = uint (Outgoing_GetCounter c' g) + (if c' = c then 1 else 0)"
    "val s' (counter_key c'') \<noteq> None"
proof -
  obtain T where T: "val s (counter_key c') = Some T" "uint (Outgoing_GetCounter c' g) < uint T" "uint T + 1000 * int (Suc n) < 2 ^ 32" "mStorage g"
    using assms(2) by (auto simp: ahead_def)
  obtain g1 s1 where i: "Outgoing_IncrementCounter d c g s = (CHIP_NO_ERROR, g1, s1)" "mStorage g1"
    "Outgoing_GetCounter c g1 = Outgoing_GetCounter c g + 1" "\<forall>c'. c' \<noteq> c \<longrightarrow> Outgoing_GetCounter c' g1 = Outgoing_GetCounter c' g"
    "val s1 (counter_key c) = Some (if val s (counter_key c) = Some (Outgoing_GetCounter c g + 1) then Outgoing_GetCounter c g + 1 + 1000
       else the (val s (counter_key c)))"
    "\<forall>c'. c' \<noteq> c \<longrightarrow> val s1 (counter_key c') = val s (counter_key c')"
    using Increment_ok [OF assms(1) T(4) assms(3), of c] .
  have eq: "g' = g1" "s' = s1"
    using i(1) assms(4) by simp_all
  let ?x = "Outgoing_GetCounter c' g"
  have x: "uint (?x + 1) = uint ?x + 1"
    using uint_add_small [of ?x 1] T(2,3) by simp
  then show inc: "uint (Outgoing_GetCounter c' g') = uint ?x + (if c' = c then 1 else 0)"
    using i(3,4) eq by auto
  have "uint (?x + 1 + 1000) = uint ?x + 1 + 1000"
    using uint_add_small [of "?x + 1" 1000] T(2,3) x by simp
  moreover have "uint T \<noteq> uint ?x + 1" if "T \<noteq> ?x + 1"
    using that x by (metis word_uint_eq_iff)
  ultimately show "ahead val n c' g' s'"
    using T inc i(2,5,6) eq x by (cases "c' = c") (auto simp: ahead_def)
  show "val s' (counter_key c'') \<noteq> None"
    using i(5,6) assms(3) eq by (cases "c'' = c") auto
qed

lemma Init_ok:
  assumes "reliable d val" "\<And>c. val s (counter_key c) \<noteq> None"
  obtains g' s' where "Outgoing_Init (Some d) r1 r2 g s = (CHIP_NO_ERROR, g', s')" "mStorage g'"
    "\<forall>c. Outgoing_GetCounter c g' = the (val s (counter_key c))" "\<forall>c. val s' (counter_key c) = Some (the (val s (counter_key c)) + 1000)"
proof -
  obtain a b where v: "val s GroupControlCounter = Some a" "val s GroupDataCounter = Some b"
    using assms(2) [of True] assms(2) [of False] by (auto simp: counter_key_def)
  obtain s1 where s1: "SyncSetKeyValue d GroupControlCounter (a + 1000) s = (CHIP_NO_ERROR, s1)" "val s1 = (val s)(GroupControlCounter \<mapsto> a + 1000)"
    using reliable_set [OF assms(1)] .
  obtain s2 where s2: "SyncSetKeyValue d GroupDataCounter (b + 1000) s1 = (CHIP_NO_ERROR, s2)" "val s2 = (val s1)(GroupDataCounter \<mapsto> b + 1000)"
    using reliable_set [OF assms(1)] .
  have "Outgoing_Init (Some d) r1 r2 g s =
      (CHIP_NO_ERROR, g\<lparr>mStorage := True, mGroupControlCounter := a, mGroupDataCounter := b\<rparr>, s2)"
    using reliable_get(1) [OF assms(1) v(1)] reliable_get(1) [OF assms(1) v(2)] s1(1) s2(1)
    by (simp add: Outgoing_Init_def initial_counter_def Let_def)
  then show thesis
    using that [of "g\<lparr>mStorage := True, mGroupControlCounter := a, mGroupDataCounter := b\<rparr>" s2] s1(2) s2(2) v
    by (auto simp: Outgoing_GetCounter_def counter_key_def)
qed

lemma used_increasing:
  assumes "reliable d val" "ahead val (length xs) c g s" "\<And>c. val s (counter_key c) \<noteq> None"
  shows "sorted_wrt (<) (map uint (used_of c (used_counters d xs g s))) \<and>
    (\<forall>u \<in> set (used_of c (used_counters d xs g s)). uint (Outgoing_GetCounter c g) \<le> uint u)"
  using assms(2,3)
proof (induction xs arbitrary: g s)
  case (Cons a xs)
  show ?case
  proof (cases a)
    case (Send c')
    obtain err g' s' where i: "Outgoing_IncrementCounter d c' g s = (err, g', s')"
      by (metis surj_pair)
    have "ahead val (Suc (length xs)) c g s"
      using Cons.prems(1) by simp
    note a = Increment_ahead [OF assms(1) this Cons.prems(2) i]
    note IH = Cons.IH [OF a(1,3)]
    show ?thesis
      using IH a(2) Send i by (cases "c = c'") (fastforce, simp)
  next
    case (Restart r1 r2)
    obtain g' s' where i: "Outgoing_Init (Some d) r1 r2 new_outgoing s = (CHIP_NO_ERROR, g', s')" "mStorage g'"
      "\<forall>c. Outgoing_GetCounter c g' = the (val s (counter_key c))" "\<forall>c. val s' (counter_key c) = Some (the (val s (counter_key c)) + 1000)"
      using Init_ok [OF assms(1) Cons.prems(2), of r1 r2 new_outgoing] .
    obtain T where T: "val s (counter_key c) = Some T" "uint (Outgoing_GetCounter c g) < uint T" "uint T + 1000 * int (length (a # xs)) < 2 ^ 32"
      using Cons.prems(1) by (auto simp: ahead_def)
    have "uint (T + 1000) = uint T + 1000"
      using uint_add_small [of T 1000] T(3) by simp
    then have "ahead val (length xs) c g' s'" "\<And>c. val s' (counter_key c) \<noteq> None"
      using T i(2-4) by (simp_all add: ahead_def)
    note IH = Cons.IH [OF this]
    show ?thesis
      using IH Restart i(1,3) T(1,2) by fastforce
  qed
qed simp


text \<open>The first start, with or without stored values.\<close>

lemma initial_counter_error: "initial_counter r x \<noteq> Inl CHIP_NO_ERROR"
  by (auto simp: initial_counter_def split: prod.splits)

lemma Init_ahead:
  assumes "reliable d val" "Outgoing_Init (Some d) r1 r2 g0 s = (CHIP_NO_ERROR, g, s')"
    and "uint (Outgoing_GetCounter c g) + 1000 * int (Suc n) < 2 ^ 32"
  shows "ahead val n c g s'" "val s' (counter_key c') \<noteq> None"
proof -
  obtain a where a: "initial_counter r1 (SyncGetKeyValue d GroupControlCounter s) = Inr a"
    using assms(2) by (auto simp: Outgoing_Init_def initial_counter_error Let_def split: sum.splits)
  then obtain b where b: "initial_counter r2 (SyncGetKeyValue d GroupDataCounter s) = Inr b"
    using assms(2) by (auto simp: Outgoing_Init_def initial_counter_error Let_def split: sum.splits)
  obtain s1 where s1: "SyncSetKeyValue d GroupControlCounter (a + 1000) s = (CHIP_NO_ERROR, s1)" "val s1 = (val s)(GroupControlCounter \<mapsto> a + 1000)"
    using reliable_set [OF assms(1)] .
  obtain s2 where s2: "SyncSetKeyValue d GroupDataCounter (b + 1000) s1 = (CHIP_NO_ERROR, s2)" "val s2 = (val s1)(GroupDataCounter \<mapsto> b + 1000)"
    using reliable_set [OF assms(1)] .
  have g: "g = g0\<lparr>mStorage := True, mGroupControlCounter := a, mGroupDataCounter := b\<rparr>" "s' = s2"
    using assms(2) a b s1(1) s2(1) by (simp_all add: Outgoing_Init_def Let_def)
  have v: "val s' (counter_key c) = Some (Outgoing_GetCounter c g + 1000)" for c
    using g s1(2) s2(2) by (simp add: counter_key_def Outgoing_GetCounter_def)
  then show "val s' (counter_key c') \<noteq> None"
    by simp
  show "ahead val n c g s'"
    using v [of c] uint_add_small [of "Outgoing_GetCounter c g" 1000] assms(3) by (simp add: ahead_def g)
qed

subsection \<open>A storage in RAM\<close>

text \<open>The list says which of the next writes fail.\<close>

type_synonym ram = "(storage_key \<Rightarrow> 32 word option) \<times> bool list"

definition ram_storage :: "ram storage_delegate" where
  "ram_storage =
    \<lparr>SyncGetKeyValue = (\<lambda>k (m, fs). case m k of None \<Rightarrow> (CHIP_ERROR_PERSISTED_STORAGE_VALUE_NOT_FOUND, 0) | Some v \<Rightarrow> (CHIP_NO_ERROR, v)),
     SyncSetKeyValue = (\<lambda>k v (m, fs). if fs \<noteq> [] \<and> hd fs then (CHIP_ERROR_INTERNAL, (m, tl fs)) else (CHIP_NO_ERROR, (m(k \<mapsto> v), tl fs)))\<rparr>"

definition sound_ram :: "(storage_key \<Rightarrow> 32 word option) storage_delegate" where
  "sound_ram =
    \<lparr>SyncGetKeyValue = (\<lambda>k m. case m k of None \<Rightarrow> (CHIP_ERROR_PERSISTED_STORAGE_VALUE_NOT_FOUND, 0) | Some v \<Rightarrow> (CHIP_NO_ERROR, v)),
     SyncSetKeyValue = (\<lambda>k v m. (CHIP_NO_ERROR, m(k \<mapsto> v)))\<rparr>"

lemma sound_ram_reliable: "reliable sound_ram (\<lambda>m. m)"
  by (simp add: reliable_def sound_ram_def split: option.splits)

lemma failed_write_reuse:
  assumes "m GroupControlCounter = Some T" "m GroupDataCounter = Some T'" "mGroupControlCounter g = T - 1" "mStorage g"
  shows "used_of True (used_counters ram_storage [Send True, Send True, Restart r1 r2, Send True] g (m, [True])) = [T - 1, T, T]"
  using assms by (simp add: ram_storage_def Outgoing_IncrementCounter_def Outgoing_Init_def initial_counter_def Outgoing_GetCounter_def
      counter_key_def Let_def)

end
