(* ===== verification/MsgHeader.thy ===== *)
theory MsgHeader
  imports TlvTypes
begin

text \<open>
  The headers of messages (\<^verbatim>\<open>src/transport/raw/MessageHeader.h\<close> and \<^verbatim>\<open>MessageHeader.cpp\<close>) and the reader they are decoded with
  (\<^verbatim>\<open>src/lib/support/BufferReader.h\<close>): the unencrypted packet header and the encrypted payload header.
\<close>

subsection \<open>Reading a buffer\<close>

text \<open>\<open>bData\<close> holds the bytes that are still available, \<open>bRead\<close> is the number of bytes that were read.\<close>

record buf_reader =
  bData :: "byte list"
  bRead :: nat
  bStatus :: CHIP_ERROR

definition BufferReader :: "byte list \<Rightarrow> buf_reader" where
  "BufferReader data = \<lparr>bData = data, bRead = 0, bStatus = CHIP_NO_ERROR\<rparr>"

definition Reader_Read :: "nat \<Rightarrow> buf_reader \<Rightarrow> nat option \<times> buf_reader" where
  "Reader_Read n r =
    (if bStatus r \<noteq> CHIP_NO_ERROR then (None, r)
     else if length (bData r) < n then (None, r\<lparr>bStatus := CHIP_ERROR_BUFFER_TOO_SMALL, bData := []\<rparr>)
     else (Some (le_value (take n (bData r))), r\<lparr>bData := drop n (bData r), bRead := bRead r + n\<rparr>))"

definition Reader_Skip :: "nat \<Rightarrow> buf_reader \<Rightarrow> buf_reader" where
  "Reader_Skip len r = (let len = min len (length (bData r)) in r\<lparr>bData := drop len (bData r), bRead := bRead r + len\<rparr>)"

text \<open>\<^verbatim>\<open>BitFlags\<close>.\<close>

definition flag_has :: "8 word \<Rightarrow> 8 word \<Rightarrow> bool" where
  "flag_has v flag \<longleftrightarrow> v AND flag \<noteq> 0"

definition flag_set :: "8 word \<Rightarrow> bool \<Rightarrow> 8 word \<Rightarrow> 8 word" where
  "flag_set flag isSet v = (if isSet then v OR flag else v AND NOT flag)"

subsection \<open>The packet header\<close>

abbreviation (input) kUnicastSession :: "8 word" where "kUnicastSession \<equiv> 0"
abbreviation (input) kGroupSession :: "8 word" where "kGroupSession \<equiv> 1"

abbreviation (input) kSourceNodeIdPresent :: "8 word" where "kSourceNodeIdPresent \<equiv> 0x04"
abbreviation (input) kDestinationNodeIdPresent :: "8 word" where "kDestinationNodeIdPresent \<equiv> 0x01"
abbreviation (input) kDestinationGroupIdPresent :: "8 word" where "kDestinationGroupIdPresent \<equiv> 0x02"

abbreviation (input) kControlMsgFlag :: "8 word" where "kControlMsgFlag \<equiv> 0x40"
abbreviation (input) kMsgExtensionFlag :: "8 word" where "kMsgExtensionFlag \<equiv> 0x20"
abbreviation (input) kSessionTypeMask :: "8 word" where "kSessionTypeMask \<equiv> 0x03"

record packet_header =
  mMessageCounter :: "32 word"
  mSourceNodeId :: "64 word option"
  mDestinationNodeId :: "64 word option"
  mDestinationGroupId :: "16 word option"
  mSessionId :: "16 word"
  mSessionType :: "8 word"
  mMsgFlags :: "8 word"
  mSecFlags :: "8 word"

definition new_PacketHeader :: packet_header where
  "new_PacketHeader = \<lparr>mMessageCounter = 0, mSourceNodeId = None, mDestinationNodeId = None, mDestinationGroupId = None,
     mSessionId = 0, mSessionType = kUnicastSession, mMsgFlags = 0, mSecFlags = 0\<rparr>"

definition SetSourceNodeId :: "64 word option \<Rightarrow> packet_header \<Rightarrow> packet_header" where
  "SetSourceNodeId i h = h\<lparr>mSourceNodeId := i, mMsgFlags := flag_set kSourceNodeIdPresent (i \<noteq> None) (mMsgFlags h)\<rparr>"

definition SetDestinationNodeId :: "64 word option \<Rightarrow> packet_header \<Rightarrow> packet_header" where
  "SetDestinationNodeId i h = h\<lparr>mDestinationNodeId := i, mMsgFlags := flag_set kDestinationNodeIdPresent (i \<noteq> None) (mMsgFlags h)\<rparr>"

definition SetDestinationGroupId :: "16 word option \<Rightarrow> packet_header \<Rightarrow> packet_header" where
  "SetDestinationGroupId i h = h\<lparr>mDestinationGroupId := i, mMsgFlags := flag_set kDestinationGroupIdPresent (i \<noteq> None) (mMsgFlags h)\<rparr>"

definition SetSessionType :: "8 word \<Rightarrow> packet_header \<Rightarrow> packet_header" where
  "SetSessionType type h =
     h\<lparr>mSessionType := type, mSecFlags := (mSecFlags h AND NOT kSessionTypeMask) OR (type AND kSessionTypeMask)\<rparr>"

definition SetSecureSessionControlMsg :: "bool \<Rightarrow> packet_header \<Rightarrow> packet_header" where
  "SetSecureSessionControlMsg value h = h\<lparr>mSecFlags := flag_set kControlMsgFlag value (mSecFlags h)\<rparr>"

definition SetSessionId :: "16 word \<Rightarrow> packet_header \<Rightarrow> packet_header" where
  "SetSessionId i h = h\<lparr>mSessionId := i\<rparr>"

definition SetMessageCounter :: "32 word \<Rightarrow> packet_header \<Rightarrow> packet_header" where
  "SetMessageCounter i h = h\<lparr>mMessageCounter := i\<rparr>"

definition SetUnsecured :: "packet_header \<Rightarrow> packet_header" where
  "SetUnsecured h = h\<lparr>mSessionId := 0, mSessionType := kUnicastSession\<rparr>"

definition SetMessageFlags :: "8 word \<Rightarrow> packet_header \<Rightarrow> packet_header" where
  "SetMessageFlags flags h = h\<lparr>mMsgFlags := flags\<rparr>"

definition SetSecurityFlags :: "8 word \<Rightarrow> packet_header \<Rightarrow> packet_header" where
  "SetSecurityFlags securityFlags h = h\<lparr>mSecFlags := securityFlags, mSessionType := securityFlags AND kSessionTypeMask\<rparr>"

definition IsSessionTypeValid :: "packet_header \<Rightarrow> bool" where
  "IsSessionTypeValid h \<longleftrightarrow> mSessionType h = kUnicastSession \<or> mSessionType h = kGroupSession"

definition IsEncrypted :: "packet_header \<Rightarrow> bool" where
  "IsEncrypted h \<longleftrightarrow> \<not> (mSessionId h = 0 \<and> mSessionType h = kUnicastSession)"

definition MICTagLength :: "packet_header \<Rightarrow> nat" where
  "MICTagLength h = (if IsEncrypted h then 16 else 0)"

definition IsSecureSessionControlMsg :: "packet_header \<Rightarrow> bool" where
  "IsSecureSessionControlMsg h \<longleftrightarrow> flag_has (mSecFlags h) kControlMsgFlag"

definition IsValidGroupMsg :: "packet_header \<Rightarrow> bool" where
  "IsValidGroupMsg h \<longleftrightarrow> mSessionType h = kGroupSession \<and> flag_has (mMsgFlags h) kSourceNodeIdPresent \<and>
     flag_has (mMsgFlags h) kDestinationGroupIdPresent \<and> \<not> IsSecureSessionControlMsg h"

definition IsValidMCSPMsg :: "packet_header \<Rightarrow> bool" where
  "IsValidMCSPMsg h \<longleftrightarrow> mSessionType h = kGroupSession \<and> flag_has (mMsgFlags h) kSourceNodeIdPresent \<and>
     flag_has (mMsgFlags h) kDestinationNodeIdPresent \<and> IsSecureSessionControlMsg h"

definition PrivacyHeaderLength :: "packet_header \<Rightarrow> nat" where
  "PrivacyHeaderLength h =
     4 + (if flag_has (mMsgFlags h) kSourceNodeIdPresent then 8 else 0) +
     (if flag_has (mMsgFlags h) kDestinationNodeIdPresent then 8 else if flag_has (mMsgFlags h) kDestinationGroupIdPresent then 2 else 0)"

definition PayloadOffset :: "packet_header \<Rightarrow> nat" where
  "PayloadOffset h = 4 + PrivacyHeaderLength h"

definition Packet_EncodeSizeBytes :: "packet_header \<Rightarrow> nat" where
  "Packet_EncodeSizeBytes h =
     8 + (if mSourceNodeId h \<noteq> None then 8 else 0) +
     (if mDestinationNodeId h \<noteq> None then 8 else if mDestinationGroupId h \<noteq> None then 2 else 0)"

text \<open>The results are the status, the header and the reader or the number of bytes that were decoded.\<close>

definition DecodeFixedCommon :: "buf_reader \<Rightarrow> packet_header \<Rightarrow> CHIP_ERROR \<times> packet_header \<times> buf_reader" where
  "DecodeFixedCommon r h =
    (case Reader_Read 1 r of
       (None, r) \<Rightarrow> (bStatus r, h, r)
     | (Some msgFlags, r) \<Rightarrow>
         (let msgFlags = of_nat msgFlags; version = drop_bit 4 (msgFlags AND 0xF0)
          in if version \<noteq> (0 :: 8 word) then (CHIP_ERROR_VERSION_MISMATCH, h, r)
             else
               (let h = SetMessageFlags msgFlags h
                in case Reader_Read 2 r of
                     (None, r) \<Rightarrow> (bStatus r, h, r)
                   | (Some sessionId, r) \<Rightarrow>
                       (let h = h\<lparr>mSessionId := of_nat sessionId\<rparr>
                        in case Reader_Read 1 r of
                             (None, r) \<Rightarrow> (bStatus r, h, r)
                           | (Some securityFlags, r) \<Rightarrow> (CHIP_NO_ERROR, SetSecurityFlags (of_nat securityFlags) h, r)))))"

definition Packet_DecodeFixed :: "byte list \<Rightarrow> packet_header \<Rightarrow> CHIP_ERROR \<times> packet_header" where
  "Packet_DecodeFixed data h = (case DecodeFixedCommon (BufferReader data) h of (err, h, r) \<Rightarrow> (err, h))"

definition decode_source :: "buf_reader \<Rightarrow> packet_header \<Rightarrow> CHIP_ERROR \<times> packet_header \<times> buf_reader" where
  "decode_source r h =
    (if flag_has (mMsgFlags h) kSourceNodeIdPresent then
       (case Reader_Read 8 r of
          (None, r) \<Rightarrow> (bStatus r, h, r)
        | (Some v, r) \<Rightarrow> (CHIP_NO_ERROR, h\<lparr>mSourceNodeId := Some (of_nat v)\<rparr>, r))
     else (CHIP_NO_ERROR, h\<lparr>mSourceNodeId := None\<rparr>, r))"

definition decode_destination :: "buf_reader \<Rightarrow> packet_header \<Rightarrow> CHIP_ERROR \<times> packet_header \<times> buf_reader" where
  "decode_destination r h =
    (if flag_has (mMsgFlags h) kDestinationNodeIdPresent \<and> flag_has (mMsgFlags h) kDestinationGroupIdPresent
     then (CHIP_ERROR_INTERNAL, h, r)
     else if flag_has (mMsgFlags h) kDestinationNodeIdPresent then
       (case Reader_Read 8 r of
          (None, r) \<Rightarrow> (bStatus r, h, r)
        | (Some v, r) \<Rightarrow> (CHIP_NO_ERROR, h\<lparr>mDestinationNodeId := Some (of_nat v), mDestinationGroupId := None\<rparr>, r))
     else if flag_has (mMsgFlags h) kDestinationGroupIdPresent then
       (if mSessionType h \<noteq> kGroupSession then (CHIP_ERROR_INTERNAL, h, r)
        else
          (case Reader_Read 2 r of
             (None, r) \<Rightarrow> (bStatus r, h, r)
           | (Some v, r) \<Rightarrow> (CHIP_NO_ERROR, h\<lparr>mDestinationNodeId := None, mDestinationGroupId := Some (of_nat v)\<rparr>, r)))
     else (CHIP_NO_ERROR, h\<lparr>mDestinationNodeId := None, mDestinationGroupId := None\<rparr>, r))"

text \<open>Both headers may contain an extension with its length, which is skipped.\<close>

definition skip_extension :: "bool \<Rightarrow> buf_reader \<Rightarrow> CHIP_ERROR \<times> buf_reader" where
  "skip_extension present r =
    (if \<not> present then (CHIP_NO_ERROR, r)
     else
       (case Reader_Read 2 r of
          (None, r) \<Rightarrow> (bStatus r, r)
        | (Some mxLength, r) \<Rightarrow>
            if length (bData r) < mxLength then (CHIP_ERROR_INTERNAL, r) else (CHIP_NO_ERROR, Reader_Skip mxLength r)))"

definition Packet_Decode :: "byte list \<Rightarrow> packet_header \<Rightarrow> CHIP_ERROR \<times> packet_header \<times> nat option" where
  "Packet_Decode data h =
    (case DecodeFixedCommon (BufferReader data) h of (err, h, r) \<Rightarrow>
       if err \<noteq> CHIP_NO_ERROR then (err, h, None)
       else
         (case Reader_Read 4 r of
            (None, r) \<Rightarrow> (bStatus r, h, None)
          | (Some counter, r) \<Rightarrow>
              (case decode_source r (h\<lparr>mMessageCounter := of_nat counter\<rparr>) of (err, h, r) \<Rightarrow>
                 if err \<noteq> CHIP_NO_ERROR then (err, h, None)
                 else if \<not> IsSessionTypeValid h then (CHIP_ERROR_INTERNAL, h, None)
                 else
                   (case decode_destination r h of (err, h, r) \<Rightarrow>
                      if err \<noteq> CHIP_NO_ERROR then (err, h, None)
                      else
                        (case skip_extension (flag_has (mSecFlags h) kMsgExtensionFlag) r of (err, r) \<Rightarrow>
                           if err \<noteq> CHIP_NO_ERROR then (err, h, None) else (CHIP_NO_ERROR, h, Some (u16 (bRead r))))))))"

text \<open>The buffer of a packet is the list of its bytes.\<close>

definition Packet_DecodeAndConsume :: "byte list \<Rightarrow> packet_header \<Rightarrow> CHIP_ERROR \<times> packet_header \<times> byte list" where
  "Packet_DecodeAndConsume buf h =
    (case Packet_Decode buf h of
       (err, h, None) \<Rightarrow> (err, h, buf)
     | (err, h, Some headerSize) \<Rightarrow> (CHIP_NO_ERROR, h, drop headerSize buf))"

text \<open>The result has the bytes that were written at the start of the buffer.\<close>

definition Packet_Encode :: "nat \<Rightarrow> packet_header \<Rightarrow> CHIP_ERROR + byte list" where
  "Packet_Encode bufSize h =
    (if bufSize < Packet_EncodeSizeBytes h then Inl CHIP_ERROR_INVALID_ARGUMENT
     else if mDestinationNodeId h \<noteq> None \<and> mDestinationGroupId h \<noteq> None then Inl CHIP_ERROR_INTERNAL
     else if \<not> IsSessionTypeValid h then Inl CHIP_ERROR_INTERNAL
     else
       (let messageFlags = flag_set kDestinationGroupIdPresent (mDestinationGroupId h \<noteq> None)
              (flag_set kDestinationNodeIdPresent (mDestinationNodeId h \<noteq> None)
                 (flag_set kSourceNodeIdPresent (mSourceNodeId h \<noteq> None) (mMsgFlags h)));
            msgFlags = messageFlags AND 0x07;
            p = EndianPut 1 (ucast msgFlags) @ EndianPut 2 (ucast (mSessionId h)) @ EndianPut 1 (ucast (mSecFlags h)) @
                EndianPut 4 (ucast (mMessageCounter h)) @
                (case mSourceNodeId h of Some i \<Rightarrow> EndianPut 8 i | None \<Rightarrow> []) @
                (case mDestinationNodeId h of
                   Some i \<Rightarrow> EndianPut 8 i
                 | None \<Rightarrow> (case mDestinationGroupId h of Some i \<Rightarrow> EndianPut 2 (ucast i) | None \<Rightarrow> []))
        in if length p \<noteq> Packet_EncodeSizeBytes h then Inl CHIP_ERROR_INTERNAL else Inr p))"

subsection \<open>The payload header\<close>

abbreviation (input) kExchangeFlag_Initiator :: "8 word" where "kExchangeFlag_Initiator \<equiv> 0x01"
abbreviation (input) kExchangeFlag_AckMsg :: "8 word" where "kExchangeFlag_AckMsg \<equiv> 0x02"
abbreviation (input) kExchangeFlag_NeedsAck :: "8 word" where "kExchangeFlag_NeedsAck \<equiv> 0x04"
abbreviation (input) kExchangeFlag_SecuredExtension :: "8 word" where "kExchangeFlag_SecuredExtension \<equiv> 0x08"
abbreviation (input) kExchangeFlag_VendorIdPresent :: "8 word" where "kExchangeFlag_VendorIdPresent \<equiv> 0x10"

record protocol_id =
  mVendorId :: "16 word"
  mProtocolId :: "16 word"

record payload_header =
  mMessageType :: "8 word"
  mExchangeID :: "16 word"
  mProtocolID :: protocol_id
  mExchangeFlags :: "8 word"
  mAckMessageCounter :: "32 word option"

definition HaveVendorId :: "payload_header \<Rightarrow> bool" where
  "HaveVendorId h \<longleftrightarrow> flag_has (mExchangeFlags h) kExchangeFlag_VendorIdPresent"

definition SetProtocol :: "protocol_id \<Rightarrow> payload_header \<Rightarrow> payload_header" where
  "SetProtocol protocol h =
     h\<lparr>mExchangeFlags := flag_set kExchangeFlag_VendorIdPresent (mVendorId protocol \<noteq> 0) (mExchangeFlags h), mProtocolID := protocol\<rparr>"

definition new_PayloadHeader :: payload_header where
  "new_PayloadHeader = SetProtocol \<lparr>mVendorId = 0xFFFF, mProtocolId = 0xFFFF\<rparr>
     \<lparr>mMessageType = 0, mExchangeID = 0, mProtocolID = \<lparr>mVendorId = 0xFFFF, mProtocolId = 0xFFFF\<rparr>, mExchangeFlags = 0,
      mAckMessageCounter = None\<rparr>"

definition SetMessageType :: "protocol_id \<Rightarrow> 8 word \<Rightarrow> payload_header \<Rightarrow> payload_header" where
  "SetMessageType protocol type h = (SetProtocol protocol h)\<lparr>mMessageType := type\<rparr>"

definition SetExchangeID :: "16 word \<Rightarrow> payload_header \<Rightarrow> payload_header" where
  "SetExchangeID i h = h\<lparr>mExchangeID := i\<rparr>"

definition SetInitiator :: "bool \<Rightarrow> payload_header \<Rightarrow> payload_header" where
  "SetInitiator inInitiator h = h\<lparr>mExchangeFlags := flag_set kExchangeFlag_Initiator inInitiator (mExchangeFlags h)\<rparr>"

definition SetAckMessageCounter :: "32 word option \<Rightarrow> payload_header \<Rightarrow> payload_header" where
  "SetAckMessageCounter i h =
     h\<lparr>mAckMessageCounter := i, mExchangeFlags := flag_set kExchangeFlag_AckMsg (i \<noteq> None) (mExchangeFlags h)\<rparr>"

definition SetNeedsAck :: "bool \<Rightarrow> payload_header \<Rightarrow> payload_header" where
  "SetNeedsAck inNeedsAck h = h\<lparr>mExchangeFlags := flag_set kExchangeFlag_NeedsAck inNeedsAck (mExchangeFlags h)\<rparr>"

definition Payload_EncodeSizeBytes :: "payload_header \<Rightarrow> nat" where
  "Payload_EncodeSizeBytes h = 6 + (if HaveVendorId h then 2 else 0) + (if mAckMessageCounter h \<noteq> None then 4 else 0)"

text \<open>The first three fields are read in one chain, so that none of them is assigned when the buffer ends before them.\<close>

definition Payload_Decode :: "byte list \<Rightarrow> payload_header \<Rightarrow> CHIP_ERROR \<times> payload_header \<times> nat option" where
  "Payload_Decode data h =
    (case Reader_Read 1 (BufferReader data) of (header, r) \<Rightarrow>
     case Reader_Read 1 r of (type, r) \<Rightarrow>
     case Reader_Read 2 r of (exchange, r) \<Rightarrow>
       (let h = (case type of Some v \<Rightarrow> h\<lparr>mMessageType := of_nat v\<rparr> | None \<Rightarrow> h);
            h = (case exchange of Some v \<Rightarrow> h\<lparr>mExchangeID := of_nat v\<rparr> | None \<Rightarrow> h)
        in if bStatus r \<noteq> CHIP_NO_ERROR then (bStatus r, h, None)
           else
             (let h = h\<lparr>mExchangeFlags := of_nat (the header)\<rparr>
              in case (if HaveVendorId h then Reader_Read 2 r else (Some 0, r)) of
                   (None, r) \<Rightarrow> (bStatus r, h, None)
                 | (Some vendor_id, r) \<Rightarrow>
                     (case Reader_Read 2 r of
                        (None, r) \<Rightarrow> (bStatus r, h, None)
                      | (Some protocol_id, r) \<Rightarrow>
                          (let h = h\<lparr>mProtocolID := \<lparr>mVendorId = of_nat vendor_id, mProtocolId = of_nat protocol_id\<rparr>\<rparr>
                           in case (if flag_has (mExchangeFlags h) kExchangeFlag_AckMsg
                                    then map_prod (map_option (\<lambda>v. Some (of_nat v))) id (Reader_Read 4 r) else (Some None, r)) of
                                (None, r) \<Rightarrow> (bStatus r, h, None)
                              | (Some ack, r) \<Rightarrow>
                                  (let h = h\<lparr>mAckMessageCounter := ack\<rparr>
                                   in case skip_extension (flag_has (mExchangeFlags h) kExchangeFlag_SecuredExtension) r of (err, r) \<Rightarrow>
                                        if err \<noteq> CHIP_NO_ERROR then (err, h, None) else (CHIP_NO_ERROR, h, Some (u16 (bRead r)))))))))"

definition Payload_DecodeAndConsume :: "byte list \<Rightarrow> payload_header \<Rightarrow> CHIP_ERROR \<times> payload_header \<times> byte list" where
  "Payload_DecodeAndConsume buf h =
    (case Payload_Decode buf h of
       (err, h, None) \<Rightarrow> (err, h, buf)
     | (err, h, Some headerSize) \<Rightarrow> (CHIP_NO_ERROR, h, drop headerSize buf))"

definition Payload_Encode :: "nat \<Rightarrow> payload_header \<Rightarrow> CHIP_ERROR + byte list" where
  "Payload_Encode bufSize h =
    (if bufSize < Payload_EncodeSizeBytes h then Inl CHIP_ERROR_INVALID_ARGUMENT
     else
       (let p = EndianPut 1 (ucast (mExchangeFlags h)) @ EndianPut 1 (ucast (mMessageType h)) @ EndianPut 2 (ucast (mExchangeID h)) @
                (if HaveVendorId h then EndianPut 2 (ucast (mVendorId (mProtocolID h))) else []) @
                EndianPut 2 (ucast (mProtocolId (mProtocolID h))) @
                (case mAckMessageCounter h of Some i \<Rightarrow> EndianPut 4 (ucast i) | None \<Rightarrow> [])
        in if length p \<noteq> Payload_EncodeSizeBytes h then Inl CHIP_ERROR_INTERNAL else Inr p))"

subsection \<open>The authentication tag\<close>

definition MAC_Decode :: "packet_header \<Rightarrow> byte list \<Rightarrow> CHIP_ERROR + byte list" where
  "MAC_Decode h data =
    (let taglen = MICTagLength h
     in if taglen = 0 then Inl CHIP_ERROR_WRONG_ENCRYPTION_TYPE_FROM_PEER
        else if length data < taglen then Inl CHIP_ERROR_INVALID_ARGUMENT
        else Inr (take taglen data))"

definition MAC_Encode :: "packet_header \<Rightarrow> byte list \<Rightarrow> nat \<Rightarrow> CHIP_ERROR + byte list" where
  "MAC_Encode h mTag bufSize =
    (let taglen = MICTagLength h
     in if taglen = 0 then Inl CHIP_ERROR_WRONG_ENCRYPTION_TYPE
        else if bufSize < taglen then Inl CHIP_ERROR_INVALID_ARGUMENT
        else Inr (take taglen mTag))"

subsection \<open>Fields are read back\<close>

lemma field_value:
  fixes x :: "'a :: len word"
  assumes "LENGTH('a) = 8 * n" "n \<le> 8"
  shows "unat (ucast x :: 64 word) mod 256 ^ n = unat x"
proof -
  have "(256 :: nat) ^ n = 2 ^ LENGTH('a)"
    using assms(1) by (simp add: power_mult)
  then show ?thesis
    using unsigned_less [of x, where 'a = nat] assms by (simp add: unat_ucast_64)
qed

lemmas field_values =
  field_value [where 'a = 8 and n = 1, simplified] field_value [where 'a = 16 and n = 2, simplified]
  field_value [where 'a = 32 and n = 4, simplified] field_value [where 'a = 64 and n = 8, simplified]

lemma Reader_Read_put:
  assumes "bStatus r = CHIP_NO_ERROR" "bData r = EndianPut n x @ rest"
  shows "Reader_Read n r = (Some (unat x mod 256 ^ n), r\<lparr>bData := rest, bRead := bRead r + n\<rparr>)"
  using assms by (simp add: Reader_Read_def le_value_EndianPut)

subsection \<open>Encoding and decoding a packet header\<close>

lemma flag_has_bit: "flag_has v 1 \<longleftrightarrow> bit v 0" "flag_has v 2 \<longleftrightarrow> bit v 1" "flag_has v 4 \<longleftrightarrow> bit v 2" 
  "flag_has v 8 \<longleftrightarrow> bit v 3" "flag_has v 0x10 \<longleftrightarrow> bit v 4" "flag_has v 0x20 \<longleftrightarrow> bit v 5" "flag_has v 0x40 \<longleftrightarrow> bit v 6"
  using and_exp_eq_0_iff_not_bit [of v 0] and_exp_eq_0_iff_not_bit [of v 1] and_exp_eq_0_iff_not_bit [of v 2] 
   and_exp_eq_0_iff_not_bit [of v 3] and_exp_eq_0_iff_not_bit [of v 4] and_exp_eq_0_iff_not_bit [of v 5] and_exp_eq_0_iff_not_bit [of v 6]
  by (simp_all add: flag_has_def)

definition wire_flags :: "packet_header \<Rightarrow> 8 word" where
  "wire_flags h = flag_set kDestinationGroupIdPresent (mDestinationGroupId h \<noteq> None)
     (flag_set kDestinationNodeIdPresent (mDestinationNodeId h \<noteq> None)
       (flag_set kSourceNodeIdPresent (mSourceNodeId h \<noteq> None) (mMsgFlags h))) AND 0x07"

lemma wire_flags:
  "flag_has (wire_flags h) kSourceNodeIdPresent \<longleftrightarrow> mSourceNodeId h \<noteq> None"
  "flag_has (wire_flags h) kDestinationNodeIdPresent \<longleftrightarrow> mDestinationNodeId h \<noteq> None"
  "flag_has (wire_flags h) kDestinationGroupIdPresent \<longleftrightarrow> mDestinationGroupId h \<noteq> None"
  "wire_flags h AND 0xF0 = 0"
  by (simp_all add: wire_flags_def flag_set_def flag_has_bit bit_simps and.assoc bit_numeral_rec)

definition packet_ok :: "packet_header \<Rightarrow> bool" where
  "packet_ok h \<longleftrightarrow> mSecFlags h AND kSessionTypeMask = mSessionType h \<and> \<not> flag_has (mSecFlags h) kMsgExtensionFlag \<and>
     (mDestinationGroupId h \<noteq> None \<longrightarrow> mSessionType h = kGroupSession)"

definition packet_bytes :: "packet_header \<Rightarrow> byte list" where
  "packet_bytes h = EndianPut 1 (ucast (wire_flags h)) @ EndianPut 2 (ucast (mSessionId h)) @ EndianPut 1 (ucast (mSecFlags h)) @
     EndianPut 4 (ucast (mMessageCounter h)) @ (case mSourceNodeId h of Some i \<Rightarrow> EndianPut 8 i | None \<Rightarrow> []) @
     (case mDestinationNodeId h of
        Some i \<Rightarrow> EndianPut 8 i
      | None \<Rightarrow> (case mDestinationGroupId h of Some i \<Rightarrow> EndianPut 2 (ucast i) | None \<Rightarrow> []))"

lemma length_packet_bytes: "length (packet_bytes h) = Packet_EncodeSizeBytes h"
  by (simp add: packet_bytes_def Packet_EncodeSizeBytes_def split: option.split)

lemma Packet_Encode_eq:
  "Packet_Encode n h =
    (if n < Packet_EncodeSizeBytes h then Inl CHIP_ERROR_INVALID_ARGUMENT
     else if (mDestinationNodeId h \<noteq> None \<and> mDestinationGroupId h \<noteq> None) \<or> \<not> IsSessionTypeValid h then Inl CHIP_ERROR_INTERNAL
     else Inr (packet_bytes h))"
  unfolding Packet_Encode_def Let_def wire_flags_def [symmetric] packet_bytes_def [symmetric] length_packet_bytes by auto

lemma DecodeFixedCommon_put:
  assumes "bStatus r = CHIP_NO_ERROR" "bData r = EndianPut 1 (ucast f) @ EndianPut 2 (ucast i) @ EndianPut 1 (ucast s) @ rest"
    and "f AND 0xF0 = 0"
  shows "DecodeFixedCommon r h = (CHIP_NO_ERROR,
     h\<lparr>mMsgFlags := f, mSessionId := i, mSecFlags := s, mSessionType := s AND 3\<rparr>, r\<lparr>bData := rest, bRead := bRead r + 4\<rparr>)"
proof -
  have version: "drop_bit 4 (f AND 0xF0) = 0"
    by (subst assms(3)) simp
  show ?thesis
    using assms(1,2) by (simp only: DecodeFixedCommon_def version Let_def)
      (simp add: Reader_Read_put field_values SetMessageFlags_def SetSecurityFlags_def version del: EndianPut.simps One_nat_def drop_bit_and)
qed

lemma decode_source_put:
  assumes "bStatus r = CHIP_NO_ERROR" "bData r = (case i of Some i \<Rightarrow> EndianPut 8 i | None \<Rightarrow> []) @ rest"
    and "flag_has (mMsgFlags h) kSourceNodeIdPresent \<longleftrightarrow> i \<noteq> None"
  shows "decode_source r h = (CHIP_NO_ERROR, h\<lparr>mSourceNodeId := i\<rparr>,
     r\<lparr>bData := rest, bRead := bRead r + (if i = None then 0 else 8)\<rparr>)"
  using assms field_value [where 'a = 64 and n = 8]
  by (cases i) (simp_all add: decode_source_def Reader_Read_put)

lemma decode_destination_put:
  assumes "bStatus r = CHIP_NO_ERROR" and bs: "bData r = (case i of Some i \<Rightarrow> EndianPut 8 i
      | None \<Rightarrow> (case g of Some g \<Rightarrow> EndianPut 2 (ucast g) | None \<Rightarrow> [])) @ rest"
    and "i = None \<or> g = None" and "g \<noteq> None \<longrightarrow> mSessionType h = kGroupSession"
    and "flag_has (mMsgFlags h) kDestinationNodeIdPresent \<longleftrightarrow> i \<noteq> None"
    and "flag_has (mMsgFlags h) kDestinationGroupIdPresent \<longleftrightarrow> g \<noteq> None"
  shows "decode_destination r h = (CHIP_NO_ERROR, h\<lparr>mDestinationNodeId := i, mDestinationGroupId := g\<rparr>,
     r\<lparr>bData := rest, bRead := bRead r + (if i \<noteq> None then 8 else if g \<noteq> None then 2 else 0)\<rparr>)"
  using assms field_value [where 'a = 64 and n = 8] 
  by (cases i; cases g) (simp_all add: decode_destination_def Reader_Read_put field_values)

lemma Packet_roundtrip:
  assumes enc: "Packet_Encode n h = Inr bs" and ok: "packet_ok h"
  shows "Packet_Decode (bs @ rest) h0 = (CHIP_NO_ERROR, h\<lparr>mMsgFlags := wire_flags h\<rparr>, Some (length bs))"
proof -
  have eq: "h0\<lparr>mMsgFlags := f, mSessionId := mSessionId h, mSecFlags := mSecFlags h, mSessionType := mSessionType h,
      mMessageCounter := mMessageCounter h, mSourceNodeId := mSourceNodeId h, mDestinationNodeId := mDestinationNodeId h,
      mDestinationGroupId := mDestinationGroupId h\<rparr> = h\<lparr>mMsgFlags := f\<rparr>" for f
    by (rule packet_header.equality) simp_all
  have bs: "bs = packet_bytes h" and valid: "\<not> (mSessionType h \<noteq> 0 \<and> mSessionType h \<noteq> 1)"
    and one: "mDestinationNodeId h = None \<or> mDestinationGroupId h = None"
    using enc by (auto simp: Packet_Encode_eq IsSessionTypeValid_def split: if_splits)
  have len: "length bs = 8 + (if mSourceNodeId h = None then 0 else 8) +
      (if mDestinationNodeId h \<noteq> None then 8 else if mDestinationGroupId h \<noteq> None then 2 else 0)"
    unfolding bs by (simp add: length_packet_bytes Packet_EncodeSizeBytes_def)
  show ?thesis
    using ok one valid unfolding len
    by (simp add: Packet_Decode_def bs packet_bytes_def BufferReader_def packet_ok_def wire_flags IsSessionTypeValid_def
      DecodeFixedCommon_put decode_source_put decode_destination_put Reader_Read_put field_values skip_extension_def u16_def eq
      del: EndianPut.simps One_nat_def)
qed

subsection \<open>Encoding and decoding a payload header\<close>

definition payload_ok :: "payload_header \<Rightarrow> bool" where
  "payload_ok h \<longleftrightarrow> (HaveVendorId h \<or> mVendorId (mProtocolID h) = 0) \<and>
     (flag_has (mExchangeFlags h) kExchangeFlag_AckMsg \<longleftrightarrow> mAckMessageCounter h \<noteq> None) \<and>
     \<not> flag_has (mExchangeFlags h) kExchangeFlag_SecuredExtension"

lemma payload_ok_setters:
  "payload_ok new_PayloadHeader"
  "payload_ok h \<Longrightarrow> payload_ok (SetProtocol p h)"
  "payload_ok h \<Longrightarrow> payload_ok (SetMessageType p t h)"
  "payload_ok h \<Longrightarrow> payload_ok (SetExchangeID e h)"
  "payload_ok h \<Longrightarrow> payload_ok (SetInitiator b h)"
  "payload_ok h \<Longrightarrow> payload_ok (SetAckMessageCounter a h)"
  "payload_ok h \<Longrightarrow> payload_ok (SetNeedsAck b h)"
  by (simp_all add: payload_ok_def new_PayloadHeader_def SetProtocol_def SetMessageType_def SetExchangeID_def SetInitiator_def
      SetAckMessageCounter_def SetNeedsAck_def HaveVendorId_def flag_has_bit flag_set_def bit_simps bit_numeral_rec)

lemma Payload_roundtrip:
  assumes enc: "Payload_Encode n h = Inr bs" and ok: "payload_ok h"
  shows "Payload_Decode (bs @ rest) h0 = (CHIP_NO_ERROR, h, Some (length bs))"
proof -
  have eq: "h0\<lparr>mMessageType := mMessageType h, mExchangeID := mExchangeID h, mExchangeFlags := mExchangeFlags h,
      mProtocolID := \<lparr>mVendorId = mVendorId (mProtocolID h), mProtocolId = mProtocolId (mProtocolID h)\<rparr>, 
      mAckMessageCounter := mAckMessageCounter h\<rparr> = h"
    by (rule payload_header.equality) simp_all
  have len: "length bs = 6 + (if HaveVendorId h then 2 else 0) + (if mAckMessageCounter h \<noteq> None then 4 else 0)"
    using enc by (auto simp: Payload_Encode_def Payload_EncodeSizeBytes_def Let_def split: if_splits)
  have bytes: "bs = EndianPut 1 (ucast (mExchangeFlags h)) @ EndianPut 1 (ucast (mMessageType h)) @ EndianPut 2 (ucast (mExchangeID h)) @
                (if HaveVendorId h then EndianPut 2 (ucast (mVendorId (mProtocolID h))) else []) @
                EndianPut 2 (ucast (mProtocolId (mProtocolID h))) @
                (case mAckMessageCounter h of Some i \<Rightarrow> EndianPut 4 (ucast i) | None \<Rightarrow> [])"
    using enc unfolding Payload_Encode_def Let_def by (auto split: if_splits simp del: EndianPut.simps)
  show ?thesis
    using ok eq unfolding len by (cases "mAckMessageCounter h"; cases "HaveVendorId h")
     (simp_all add: Payload_Decode_def bytes BufferReader_def Reader_Read_put field_values payload_ok_def skip_extension_def u16_def
         HaveVendorId_def Let_def del: EndianPut.simps One_nat_def)
qed

lemma EndianPut_le_value:
  assumes "LENGTH('a) = 8 * n" "n \<le> 8" "length bs = n"
  shows "EndianPut n (ucast (of_nat (le_value bs) :: 'a::len word)) = bs"
proof (rule le_value_inj)
  have "le_value bs < 2 ^ LENGTH('a)"
    using le_value_less [of bs] assms by (simp add: power_mult)
  then show "le_value (EndianPut n (ucast (of_nat (le_value bs) :: 'a::len word))) = le_value bs"
    using assms by (simp add: le_value_EndianPut field_value unat_of_nat)
qed (simp add: assms)

lemma Reader_ReadD:
  assumes "Reader_Read n r = (Some v, r')"
  shows "bData r = take n (bData r) @ bData r'" "length (take n (bData r)) = n" "bRead r' = bRead r + n"
     "bStatus r' = CHIP_NO_ERROR" "v = le_value (take n (bData r))"
  using assms by (auto simp: Reader_Read_def split: if_splits)

lemma Reader_Read_field:
  assumes "Reader_Read n r = (Some v, r')" "LENGTH('a) = 8 * n" "n \<le> 8"
  shows "bData r = EndianPut n (ucast (of_nat v :: 'a::len word)) @ bData r'"
  using Reader_ReadD [OF assms(1)] EndianPut_le_value [OF assms(2,3)] by simp

subsection \<open>What was decoded is encoded again\<close>

lemma Reader_Read_cases:
  assumes "LENGTH('a) = 8 * n" "n \<le> 8"
  obtains r' where "Reader_Read n r = (None, r')" "bStatus r' \<noteq> CHIP_NO_ERROR"
  | v r' where "Reader_Read n r = (Some v, r')" "bData r = EndianPut n (ucast (of_nat v :: 'a::len word)) @ bData r'"
      "bStatus r' = CHIP_NO_ERROR" "bRead r' = bRead r + n"
proof (cases "Reader_Read n r")
  case (Pair v r')
  show thesis
  proof (cases v)
    case None
    moreover have "bStatus r' \<noteq> CHIP_NO_ERROR"
      using Pair None by (auto simp: Reader_Read_def split: if_splits)
    ultimately show thesis
      using Pair that(1) by simp
  next
    case (Some x)
    then show thesis
      using Pair that(2) Reader_ReadD [of n r x r'] Reader_Read_field [OF _ assms, of r x r'] by simp
  qed
qed

lemmas read8_cases = Reader_Read_cases [where 'a = 8 and n = 1, simplified]
lemmas read16_cases = Reader_Read_cases [where 'a = 16 and n = 2, simplified]
lemmas read32_cases = Reader_Read_cases [where 'a = 32 and n = 4, simplified]
lemmas read64_cases = Reader_Read_cases [where 'a = 64 and n = 8, simplified]

lemma decode_sourceD:
  assumes "decode_source r h0 = (CHIP_NO_ERROR, h, r')" "bStatus r = CHIP_NO_ERROR"
  shows "bData r = (case mSourceNodeId h of Some i \<Rightarrow> EndianPut 8 i | None \<Rightarrow> []) @ bData r' \<and>
    bStatus r' = CHIP_NO_ERROR \<and> bRead r' = bRead r + (if mSourceNodeId h = None then 0 else 8) \<and>
    (flag_has (mMsgFlags h0) kSourceNodeIdPresent \<longleftrightarrow> mSourceNodeId h \<noteq> None) \<and> (\<exists>i. h = h0\<lparr>mSourceNodeId := i\<rparr>)"
  using assms by (cases r rule: read64_cases) (auto simp: decode_source_def split: if_splits)

lemma decode_destinationD:
  assumes "decode_destination r h0 = (CHIP_NO_ERROR, h, r')" "bStatus r = CHIP_NO_ERROR"
  shows "bData r = (case mDestinationNodeId h of
                   Some i \<Rightarrow> EndianPut 8 i
                 | None \<Rightarrow> (case mDestinationGroupId h of Some i \<Rightarrow> EndianPut 2 (ucast i) | None \<Rightarrow> [])) @ bData r' \<and>
    bStatus r' = CHIP_NO_ERROR \<and>
    bRead r' = bRead r + (if mDestinationNodeId h \<noteq> None then 8 else if mDestinationGroupId h \<noteq> None then 2 else 0) \<and>
    (flag_has (mMsgFlags h0) kDestinationNodeIdPresent \<longleftrightarrow> mDestinationNodeId h \<noteq> None) \<and>
    (flag_has (mMsgFlags h0) kDestinationGroupIdPresent \<longleftrightarrow> mDestinationGroupId h \<noteq> None) \<and>
    (mDestinationNodeId h = None \<or> mDestinationGroupId h = None) \<and> 
    (mDestinationGroupId h \<noteq> None \<longrightarrow> mSessionType h0 = kGroupSession) \<and>
    (\<exists>i g. h = h0\<lparr>mDestinationNodeId := i, mDestinationGroupId := g\<rparr>)"
  using assms by (cases r rule: read64_cases; cases r rule: read16_cases) (auto simp: decode_destination_def split: if_splits)

lemma DecodeFixedCommonD:
  assumes "DecodeFixedCommon r h0 = (CHIP_NO_ERROR, h, r')"
  shows "bData r = EndianPut 1 (ucast (mMsgFlags h)) @ EndianPut 2 (ucast (mSessionId h)) @ EndianPut 1 (ucast (mSecFlags h)) @ bData r' \<and>
    bStatus r' = CHIP_NO_ERROR \<and> bRead r' = bRead r + 4 \<and> drop_bit 4 (mMsgFlags h AND 0xF0) = 0 \<and> mSessionType h = mSecFlags h AND 3"
proof (cases r rule: read8_cases)
  case (2 v r1)
  note read_flags = this
  then show ?thesis
  proof (cases r1 rule: read16_cases)
    case (2 w r2)
    then show ?thesis
      using assms read_flags
      by (cases r2 rule: read8_cases) (auto simp: DecodeFixedCommon_def Let_def SetMessageFlags_def SetSecurityFlags_def 
        simp del: drop_bit_and split: if_splits)
  qed (use assms in \<open>auto simp: DecodeFixedCommon_def Let_def split: if_splits\<close>)
qed (use assms in \<open>auto simp: DecodeFixedCommon_def\<close>)

lemma wire_flags_same:
  assumes "flag_has (mMsgFlags h) kSourceNodeIdPresent \<longleftrightarrow> mSourceNodeId h \<noteq> None"
    "flag_has (mMsgFlags h) kDestinationNodeIdPresent \<longleftrightarrow> mDestinationNodeId h \<noteq> None"
    "flag_has (mMsgFlags h) kDestinationGroupIdPresent \<longleftrightarrow> mDestinationGroupId h \<noteq> None"
    "mMsgFlags h AND 0xF8 = 0"
  shows "wire_flags h = mMsgFlags h"
proof (rule bit_word_eqI)
  fix n
  assume "n < LENGTH(8)"
  moreover have "bit (mMsgFlags h AND 0xF8) n \<longleftrightarrow> bit 0 n"
    using assms(4) by simp
  ultimately show "bit (wire_flags h) n = bit (mMsgFlags h) n"
    using assms(1-3) by (auto simp: wire_flags_def flag_set_def flag_has_bit bit_simps bit_numeral_rec less_Suc_eq numeral_eq_Suc)
qed

lemma version_bits:
  fixes f :: "8 word"
  assumes "drop_bit 4 (f AND 0xF0) = 0" "f AND 0x08 = 0"
  shows "f AND 0xF8 = 0"
proof -
  have "\<not> bit (drop_bit 4 (f AND 0xF0)) k" for k
    by (subst assms(1)) simp
  then have high: "\<not> bit (f AND 0xF0) (4 + k)" for k
    by (simp only: bit_drop_bit_eq o_apply) blast
  have low: "\<not> bit (f AND 0x08) 3"
    by (subst assms(2)) simp
  show ?thesis
  proof (rule bit_word_eqI)
    fix n
    assume "n < LENGTH(8)"
    then consider "n = 4" | "n = 5" | "n = 6" | "n = 7" | "n = 3" | "n < 3"
      by (simp, linarith)
    then show "bit (f AND 0xF8) n \<longleftrightarrow> bit 0 n"
      using high [of 0] high [of 1] high [of 2] high [of 3] low
      by cases (auto simp: bit_simps bit_numeral_rec less_Suc_eq numeral_eq_Suc)
  qed
qed

definition packet_inv :: "packet_header \<Rightarrow> bool" where
  "packet_inv h \<longleftrightarrow> packet_ok h \<and>
     (flag_has (mMsgFlags h) kSourceNodeIdPresent \<longleftrightarrow> mSourceNodeId h \<noteq> None) \<and>
     (flag_has (mMsgFlags h) kDestinationNodeIdPresent \<longleftrightarrow> mDestinationNodeId h \<noteq> None) \<and>
     (flag_has (mMsgFlags h) kDestinationGroupIdPresent \<longleftrightarrow> mDestinationGroupId h \<noteq> None) \<and>
     mMsgFlags h AND 0xF8 = 0"

lemma Packet_DecodeD:
  assumes "Packet_Decode data h0 = (CHIP_NO_ERROR, h, Some n)" and "\<not> flag_has (mSecFlags h) kMsgExtensionFlag" 
    and "mMsgFlags h AND 0x08 = 0"
  shows "packet_inv h \<and> Packet_Encode n h = Inr (take n data)"
proof -
  obtain h1 r1 where fx: "DecodeFixedCommon (BufferReader data) h0 = (CHIP_NO_ERROR, h1, r1)"
    using assms(1) by (auto simp: Packet_Decode_def split: prod.splits if_splits)
  obtain c r2 where ct: "Reader_Read 4 r1 = (Some c, r2)" 
    "bData r1 = EndianPut 4 (ucast (of_nat c :: 32 word)) @ bData r2" "bStatus r2 = CHIP_NO_ERROR" "bRead r2 = bRead r1 + 4"
    using assms(1) fx by (cases r1 rule: read32_cases) (auto simp: Packet_Decode_def split: prod.splits if_splits)
  obtain h3 r3 where src: "decode_source r2 (h1\<lparr>mMessageCounter := of_nat c\<rparr>) = (CHIP_NO_ERROR, h3, r3)"
    using assms(1) fx ct by (auto simp: Packet_Decode_def split: prod.splits if_splits)
  have valid: "IsSessionTypeValid h3"
    using assms(1) fx ct src by (auto simp: Packet_Decode_def split: prod.splits if_splits)
  obtain r4 where dst: "decode_destination r3 h3 = (CHIP_NO_ERROR, h, r4)" and n: "n = u16 (bRead r4)"
    using assms valid fx ct src by (auto simp: Packet_Decode_def skip_extension_def split: prod.splits if_splits)
  note D = DecodeFixedCommonD [OF fx] decode_sourceD [OF src ct(3)]
  then have st: "bStatus r3 = CHIP_NO_ERROR"
    by simp
  note D' = decode_destinationD [OF dst st]
  from D D' obtain i j g where eq: "h3 = h1\<lparr>mMessageCounter := of_nat c, mSourceNodeId := i\<rparr>" 
    "h = h3\<lparr>mDestinationNodeId := j, mDestinationGroupId := g\<rparr>"
    by blast
  have inv: "packet_inv h"
    using D D' eq assms(2,3) version_bits [of "mMsgFlags h"] by (simp add: packet_inv_def packet_ok_def)
  then have flags: "wire_flags h = mMsgFlags h"
    by (auto simp: packet_inv_def intro!: wire_flags_same)
  have len: "n = Packet_EncodeSizeBytes h"
    using D D' eq n ct by (simp add: Packet_EncodeSizeBytes_def BufferReader_def u16_def)
  have data: "data = packet_bytes h @ bData r4"
    using D D' eq ct unfolding flags packet_bytes_def by (simp add: BufferReader_def)
  show ?thesis
    using inv valid D' eq length_packet_bytes [of h] unfolding data len by (auto simp: Packet_Encode_eq IsSessionTypeValid_def)
qed

lemma packet_inv_offset: "packet_inv h \<Longrightarrow> PayloadOffset h = Packet_EncodeSizeBytes h"
  by (simp add: packet_inv_def PayloadOffset_def PrivacyHeaderLength_def Packet_EncodeSizeBytes_def)

lemma flags_F8:
  "m \<in> {1, 2, 4} \<Longrightarrow> f AND 0xF8 = 0 \<Longrightarrow> flag_set m b f AND 0xF8 = 0"
  by (auto simp: flag_set_def and.assoc and.left_commute bit.conj_disj_distrib2) 

lemma packet_inv_setters:
  "packet_inv new_PacketHeader"
  "packet_inv h \<Longrightarrow> packet_inv (SetSourceNodeId i h)"
  "packet_inv h \<Longrightarrow> packet_inv (SetDestinationNodeId i h)"
  "packet_inv h \<Longrightarrow> mSessionType h = kGroupSession \<Longrightarrow> packet_inv (SetDestinationGroupId g h)"
  "packet_inv h \<Longrightarrow> packet_inv (SetSessionId k h)"
  "packet_inv h \<Longrightarrow> packet_inv (SetMessageCounter c h)"
  by (simp_all add: packet_inv_def packet_ok_def new_PacketHeader_def SetSourceNodeId_def SetDestinationNodeId_def SetDestinationGroupId_def
    SetSessionId_def SetMessageCounter_def flags_F8) (simp_all add: flag_has_bit flag_set_def bit_simps bit_numeral_rec)

lemma packet_inv_SetSessionType:
  assumes "packet_inv h" "t = kUnicastSession \<and> mDestinationGroupId h = None \<or> t = kGroupSession"
  shows "packet_inv (SetSessionType t h)"
  using assms by (auto simp: packet_inv_def packet_ok_def SetSessionType_def flag_has_bit bit_simps bit_numeral_rec bit.conj_disj_distrib2 and.assoc)

lemma packet_inv_SetSecureSessionControlMsg:
  "packet_inv h \<Longrightarrow> packet_inv (SetSecureSessionControlMsg b h)"
  by (auto simp: packet_inv_def packet_ok_def SetSecureSessionControlMsg_def flag_set_def flag_has_bit bit_simps bit_numeral_rec bit.conj_disj_distrib2 and.assoc)

lemma Packet_roundtrip_inv:
  assumes "Packet_Encode n h = Inr bs" "packet_inv h"
  shows "Packet_Decode (bs @ rest) h0 = (CHIP_NO_ERROR, h, Some (length bs))"
proof -
  have "wire_flags h = mMsgFlags h"
    using assms(2) by (auto simp: packet_inv_def intro!: wire_flags_same)
  then show ?thesis
    using Packet_roundtrip [OF assms(1)] assms(2) by (simp add: packet_inv_def)
qed

subsection \<open>Decoding stays inside the buffer\<close>

definition reader_in :: "byte list \<Rightarrow> buf_reader \<Rightarrow> bool" where
  "reader_in data r \<longleftrightarrow> bRead r + length (bData r) \<le> length data"

lemma reader_in_new: "reader_in data (BufferReader data)"
  by (simp add: reader_in_def BufferReader_def)

lemma reader_in_Read: "Reader_Read n r = (v, r') \<Longrightarrow> reader_in data r \<Longrightarrow> reader_in data r'"
  by (auto simp: Reader_Read_def reader_in_def split: if_splits)

lemma reader_in_Skip: "reader_in data r \<Longrightarrow> reader_in data (Reader_Skip n r)"
  by (auto simp: Reader_Skip_def reader_in_def Let_def)

lemma reader_in_steps:
  "DecodeFixedCommon r h = (err, h', r') \<Longrightarrow> reader_in data r \<Longrightarrow> reader_in data r'"
  "decode_source r h = (err, h', r') \<Longrightarrow> reader_in data r \<Longrightarrow> reader_in data r'"
  "decode_destination r h = (err, h', r') \<Longrightarrow> reader_in data r \<Longrightarrow> reader_in data r'"
  "skip_extension b r = (err, r') \<Longrightarrow> reader_in data r \<Longrightarrow> reader_in data r'"
  by (auto simp: DecodeFixedCommon_def decode_source_def decode_destination_def skip_extension_def Let_def
      split: prod.splits option.splits if_splits dest!: reader_in_Read intro!: reader_in_Skip)

lemma Packet_Decode_inside:
  assumes "Packet_Decode data h0 = (err, h, Some n)" "length data < 65536"
  shows "err = CHIP_NO_ERROR \<and> n \<le> length data"
  using assms reader_in_new [of data]
  by (auto simp: Packet_Decode_def reader_in_def u16_def split: prod.splits option.splits if_splits 
    dest!: reader_in_Read [where data = data] reader_in_steps [where data = data])

lemma Payload_Decode_inside:
  assumes "Payload_Decode data h0 = (err, h, Some n)" "length data < 65536"
  shows "err = CHIP_NO_ERROR \<and> n \<le> length data"
  using assms reader_in_new [of data]
  by (auto simp: Payload_Decode_def reader_in_def u16_def Let_def map_prod_def split: prod.splits option.splits if_splits 
    dest!: reader_in_Read [where data = data] reader_in_steps [where data = data])

end
