(* ===== verification/PacketBuffer.thy ===== *)
theory PacketBuffer
  imports Prelude ChipError
begin

text \<open>
  Packet buffers (\<^verbatim>\<open>src/system/SystemPacketBuffer.h\<close> and \<^verbatim>\<open>SystemPacketBuffer.cpp\<close>) in the variant that takes its memory from the heap,
  with the default sizes and without TCP. A buffer is its block of memory, the offset of the payload in the block and the two lengths;
  a handle is the chain of buffers it owns, the empty list being null. Reference counts are not represented: a chain belongs to
  one handle, as the code checks where it matters (\<^verbatim>\<open>ref == 1\<close>). Lengths are natural numbers; the only length the code
  narrows, the reserved size, is reduced to 16 bits. The allocator is a parameter.
\<close>

record packet_buffer =
  pbBlock :: "byte list"
  pbPayload :: nat
  pbTotLen :: nat
  pbLen :: nat

type_synonym PacketBufferHandle = "packet_buffer list"

definition kDefaultHeaderReserve :: nat where "kDefaultHeaderReserve = 26 + 12 + 0"
definition kMaxSizeWithoutReserve :: nat where "kMaxSizeWithoutReserve = 1583"
definition kMaxSize :: nat where "kMaxSize = kMaxSizeWithoutReserve - kDefaultHeaderReserve"
definition kMaxAllocSize :: nat where "kMaxAllocSize = kMaxSizeWithoutReserve"
definition kRightSizingThreshold :: nat where "kRightSizingThreshold = 16"

lemmas pb_sizes [simp] = kDefaultHeaderReserve_def kMaxSizeWithoutReserve_def kMaxSize_def kMaxAllocSize_def kRightSizingThreshold_def

subsection \<open>One buffer\<close>

definition AllocSize :: "packet_buffer \<Rightarrow> nat" where
  "AllocSize b = length (pbBlock b)"

definition ReservedSize :: "packet_buffer \<Rightarrow> nat" where
  "ReservedSize b = u16 (pbPayload b)"

definition MaxDataLength :: "packet_buffer \<Rightarrow> nat" where
  "MaxDataLength b = AllocSize b - ReservedSize b"

definition AvailableDataLength :: "packet_buffer \<Rightarrow> nat" where
  "AvailableDataLength b = MaxDataLength b - pbLen b"

text \<open>The bytes from \<^verbatim>\<open>Start()\<close> on, \<^verbatim>\<open>DataLength()\<close> of them.\<close>

definition pbData :: "packet_buffer \<Rightarrow> byte list" where
  "pbData b = take (pbLen b) (drop (pbPayload b) (pbBlock b))"

text \<open>Positions are relative to \<^verbatim>\<open>ReserveStart()\<close>; the new start may lie before it.\<close>

definition SetStart :: "int \<Rightarrow> packet_buffer \<Rightarrow> packet_buffer" where
  "SetStart aNewStart b =
    (let kEnd = int (pbPayload b + MaxDataLength b);
         aNewStart = (if aNewStart < 0 then 0 else if kEnd < aNewStart then kEnd else aNewStart);
         lDelta = aNewStart - int (pbPayload b);
         lDelta = (if 0 < lDelta \<and> int (pbLen b) < lDelta then int (pbLen b) else lDelta)
     in b\<lparr>pbLen := nat (int (pbLen b) - lDelta), pbTotLen := nat (int (pbTotLen b) - lDelta), pbPayload := nat aNewStart\<rparr>)"

definition ConsumeHead :: "nat \<Rightarrow> packet_buffer \<Rightarrow> packet_buffer" where
  "ConsumeHead aConsumeLength b =
    (let n = (if pbLen b < aConsumeLength then pbLen b else aConsumeLength)
     in b\<lparr>pbPayload := pbPayload b + n, pbLen := pbLen b - n, pbTotLen := pbTotLen b - n\<rparr>)"

text \<open>The data are moved towards the end of the block; the result of the call comes first.\<close>

definition EnsureReservedSize :: "nat \<Rightarrow> packet_buffer \<Rightarrow> bool \<times> packet_buffer" where
  "EnsureReservedSize aReservedSize b =
    (if aReservedSize \<le> ReservedSize b then (True, b)
     else if AllocSize b < aReservedSize + pbLen b then (False, b)
     else
       (let kMoveLength = u16 (aReservedSize - ReservedSize b)
        in (True, b\<lparr>pbBlock := list_write (pbPayload b + kMoveLength) (pbData b) (pbBlock b), pbPayload := pbPayload b + kMoveLength\<rparr>)))"

text \<open>The address of the block matters for the alignment.\<close>

definition AlignPayload :: "nat \<Rightarrow> nat \<Rightarrow> packet_buffer \<Rightarrow> bool \<times> packet_buffer" where
  "AlignPayload address aAlignBytes b =
    (if aAlignBytes = 0 then (False, b)
     else
       (let kPayloadOffset = (address + pbPayload b) mod aAlignBytes
        in if kPayloadOffset = 0 then (True, b)
           else
             (let kPayloadShift = aAlignBytes - kPayloadOffset
              in if 65535 < ReservedSize b + kPayloadShift then (False, b)
                 else EnsureReservedSize (ReservedSize b + kPayloadShift) b)))"

subsection \<open>Chains\<close>

text \<open>
  \<^verbatim>\<open>SetDataLength\<close> for the buffer at position \<open>i\<close> of a chain, with the head of the chain as argument where \<open>i\<close> is not 0: the total
  lengths of the buffers before it change too.
\<close>

definition SetDataLength :: "nat \<Rightarrow> nat \<Rightarrow> PacketBufferHandle \<Rightarrow> PacketBufferHandle" where
  "SetDataLength aNewLen i c =
    (let b = c ! i;
         aNewLen = (if MaxDataLength b < aNewLen then MaxDataLength b else aNewLen);
         total = (\<lambda>p. p\<lparr>pbTotLen := nat (int (pbTotLen p) + (int aNewLen - int (pbLen b)))\<rparr>)
     in map total (take i c) @ (total b)\<lparr>pbLen := aNewLen\<rparr> # drop (Suc i) c)"

text \<open>The chain that is added starts with the buffer \<open>h\<close>: the code reads its total length, and a null handle is no argument.\<close>

definition AddToEnd :: "PacketBufferHandle \<Rightarrow> packet_buffer \<Rightarrow> PacketBufferHandle \<Rightarrow> PacketBufferHandle" where
  "AddToEnd c h t = map (\<lambda>b. b\<lparr>pbTotLen := pbTotLen b + pbTotLen h\<rparr>) c @ h # t"

function CompactHead_loop :: "nat \<Rightarrow> packet_buffer \<Rightarrow> PacketBufferHandle \<Rightarrow> PacketBufferHandle" where
  "CompactHead_loop lAvailLength b [] = [b]"
| "CompactHead_loop lAvailLength b (n # rest) =
    (if lAvailLength = 0 then b # n # rest
     else
       (let lMoveLength = (if lAvailLength < pbLen n then lAvailLength else pbLen n);
            b = b\<lparr>pbBlock := list_write (pbPayload b + pbLen b) (take lMoveLength (pbData n)) (pbBlock b), pbLen := pbLen b + lMoveLength\<rparr>;
            n = n\<lparr>pbPayload := pbPayload n + lMoveLength, pbLen := pbLen n - lMoveLength, pbTotLen := pbTotLen n - lMoveLength\<rparr>
        in CompactHead_loop (lAvailLength - lMoveLength) b (if pbLen n = 0 then rest else n # rest)))"
  by pat_completeness auto
termination
  by (relation "measure (\<lambda>(a, b, c). a + length c)") (auto simp: Let_def)

fun CompactHead :: "PacketBufferHandle \<Rightarrow> PacketBufferHandle" where
  "CompactHead [] = []"
| "CompactHead (b # rest) =
    (let b = (if pbPayload b \<noteq> 0 then b\<lparr>pbBlock := list_write 0 (pbData b) (pbBlock b), pbPayload := 0\<rparr> else b)
     in CompactHead_loop (AvailableDataLength b) b rest)"

fun Consume :: "nat \<Rightarrow> PacketBufferHandle \<Rightarrow> PacketBufferHandle" where
  "Consume aConsumeLength [] = []"
| "Consume aConsumeLength (b # rest) =
    (if aConsumeLength = 0 then b # rest
     else if pbLen b \<le> aConsumeLength then Consume (aConsumeLength - pbLen b) rest
     else ConsumeHead aConsumeLength b # rest)"

fun Read_loop :: "nat \<Rightarrow> PacketBufferHandle \<Rightarrow> CHIP_ERROR \<times> byte list" where
  "Read_loop aReadLength [] = (if 0 < aReadLength then CHIP_ERROR_INTERNAL else CHIP_NO_ERROR, [])"
| "Read_loop aReadLength (b # rest) =
    (if 0 < aReadLength then
       (let n = (if aReadLength < pbLen b then aReadLength else pbLen b)
        in case Read_loop (aReadLength - n) rest of (err, bs) \<Rightarrow> (err, take n (pbData b) @ bs))
     else (CHIP_NO_ERROR, []))"

definition PacketBuffer_Read :: "nat \<Rightarrow> PacketBufferHandle \<Rightarrow> CHIP_ERROR \<times> byte list" where
  "PacketBuffer_Read aReadLength c =
    (if pbTotLen (hd c) < aReadLength then (CHIP_ERROR_BUFFER_TOO_SMALL, []) else Read_loop aReadLength c)"

subsection \<open>Handles\<close>

text \<open>\<open>alloc n\<close> is the memory of a block with \<open>n\<close> bytes behind the structure, or nothing. Its contents are not known.\<close>

definition Handle_New :: "(nat \<Rightarrow> byte list option) \<Rightarrow> nat \<Rightarrow> nat \<Rightarrow> PacketBufferHandle" where
  "Handle_New alloc aAvailableSize aReservedSize =
    (if 2 ^ 32 \<le> aAvailableSize then []
     else
       (let lAllocSize = aAvailableSize + aReservedSize
        in if kMaxAllocSize < lAllocSize then []
           else (case alloc lAllocSize of
                   None \<Rightarrow> []
                 | Some m \<Rightarrow> [\<lparr>pbBlock = m, pbPayload = aReservedSize, pbTotLen = 0, pbLen = 0\<rparr>])))"

definition Handle_NewWithData :: "(nat \<Rightarrow> byte list option) \<Rightarrow> byte list \<Rightarrow> nat \<Rightarrow> nat \<Rightarrow> PacketBufferHandle" where
  "Handle_NewWithData alloc aData aAdditionalSize aReservedSize =
    map (\<lambda>b. b\<lparr>pbBlock := list_write (pbPayload b) aData (pbBlock b), pbLen := length aData, pbTotLen := length aData\<rparr>)
      (Handle_New alloc (length aData + aAdditionalSize) aReservedSize)"

definition PopHead :: "PacketBufferHandle \<Rightarrow> PacketBufferHandle \<times> PacketBufferHandle" where
  "PopHead c = ([(hd c)\<lparr>pbTotLen := pbLen (hd c)\<rparr>], tl c)"

definition FreeHead :: "PacketBufferHandle \<Rightarrow> PacketBufferHandle" where
  "FreeHead c = tl c"

text \<open>A null handle takes over the argument, null or not; otherwise a null argument is dereferenced, which is \<open>None\<close>.\<close>

definition Handle_AddToEnd :: "PacketBufferHandle \<Rightarrow> PacketBufferHandle \<Rightarrow> PacketBufferHandle option" where
  "Handle_AddToEnd c p = (if c = [] then Some p else case p of [] \<Rightarrow> None | h # t \<Rightarrow> Some (AddToEnd c h t))"

text \<open>A copy of every buffer, with its reserve and its unused bytes as far as they fit.\<close>

definition clone_size :: "packet_buffer \<Rightarrow> nat option" where
  "clone_size b =
    (if kMaxAllocSize < MaxDataLength b + ReservedSize b
     then (if kMaxAllocSize < ReservedSize b + pbLen b then None else Some (kMaxAllocSize - ReservedSize b))
     else Some (MaxDataLength b))"

fun CloneData_loop :: "(nat \<Rightarrow> byte list option) \<Rightarrow> PacketBufferHandle \<Rightarrow> PacketBufferHandle \<Rightarrow> PacketBufferHandle" where
  "CloneData_loop alloc cloneHead [] = cloneHead"
| "CloneData_loop alloc cloneHead (b # rest) =
    (case clone_size b of
       None \<Rightarrow> []
     | Some n \<Rightarrow>
         (case Handle_New alloc n (ReservedSize b) of
            [] \<Rightarrow> []
          | clone # _ \<Rightarrow>
              let clone = clone\<lparr>pbTotLen := pbLen b, pbLen := pbLen b,
                    pbBlock := list_write 0 (take (n + ReservedSize b) (pbBlock b)) (pbBlock clone)\<rparr>
              in CloneData_loop alloc (if cloneHead = [] then [clone] else AddToEnd cloneHead clone []) rest))"

definition CloneData :: "(nat \<Rightarrow> byte list option) \<Rightarrow> PacketBufferHandle \<Rightarrow> PacketBufferHandle" where
  "CloneData alloc c = CloneData_loop alloc [] c"

text \<open>A buffer whose unused end is large is copied to a smaller block.\<close>

definition RightSize :: "(nat \<Rightarrow> byte list option) \<Rightarrow> PacketBufferHandle \<Rightarrow> PacketBufferHandle" where
  "RightSize alloc c =
    (case c of
       [b] \<Rightarrow>
         (let usedSize = pbPayload b + pbLen b
          in if AllocSize b < usedSize + kRightSizingThreshold then c
             else (case alloc usedSize of
                     None \<Rightarrow> c
                   | Some m \<Rightarrow> [b\<lparr>pbBlock := list_write 0 (take usedSize (pbBlock b)) m\<rparr>]))
     | _ \<Rightarrow> c)"

text \<open>A writer behind the data of a packet: the bytes that fit are written, and the length of the packet is set at the end.\<close>

record packet_writer =
  pwPacket :: PacketBufferHandle
  pwNeeded :: nat
  pwSize :: nat

definition PacketBufferWriter :: "PacketBufferHandle \<Rightarrow> packet_writer" where
  "PacketBufferWriter c = \<lparr>pwPacket = c, pwNeeded = 0, pwSize = AvailableDataLength (hd c)\<rparr>"

definition PacketBufferWriter_max :: "PacketBufferHandle \<Rightarrow> nat \<Rightarrow> packet_writer" where
  "PacketBufferWriter_max c aSize = \<lparr>pwPacket = c, pwNeeded = 0, pwSize = min aSize (AvailableDataLength (hd c))\<rparr>"

text \<open>The bytes go behind those written so far and behind the data the packet had at the construction.\<close>

definition PacketBufferWriter_Put :: "byte list \<Rightarrow> packet_writer \<Rightarrow> packet_writer" where
  "PacketBufferWriter_Put bs w =
    (let available = (if pwSize w < pwNeeded w then 0 else pwSize w - pwNeeded w);
         put = (\<lambda>b. b\<lparr>pbBlock := list_write (pbPayload b + pbLen b + pwNeeded w) (take available bs) (pbBlock b)\<rparr>)
     in w\<lparr>pwNeeded := pwNeeded w + length bs,
          pwPacket := (if 0 < available \<and> bs \<noteq> [] then put (hd (pwPacket w)) # tl (pwPacket w) else pwPacket w)\<rparr>)"

definition Finalize :: "packet_writer \<Rightarrow> PacketBufferHandle" where
  "Finalize w = (if pwPacket w \<noteq> [] \<and> pwNeeded w \<le> pwSize w then SetDataLength (pwNeeded w) 0 (pwPacket w) else [])"

subsection \<open>Well-formed chains and the bytes they hold\<close>

definition pb_wf :: "packet_buffer \<Rightarrow> bool" where
  "pb_wf b \<longleftrightarrow> pbPayload b + pbLen b \<le> length (pbBlock b) \<and> pbPayload b < 65536"

definition chain_data :: "PacketBufferHandle \<Rightarrow> byte list" where
  "chain_data c = concat (map pbData c)"

fun chain_wf :: "PacketBufferHandle \<Rightarrow> bool" where
  "chain_wf [] = True"
| "chain_wf (b # rest) \<longleftrightarrow> pb_wf b \<and> pbTotLen b = pbLen b + length (chain_data rest) \<and> chain_wf rest"

lemma length_pbData: "pb_wf b \<Longrightarrow> length (pbData b) = pbLen b"
  by (auto simp: pb_wf_def pbData_def)

lemma chain_data_simps [simp]: "chain_data [] = []" "chain_data (b # c) = pbData b @ chain_data c" "chain_data (c @ c') = chain_data c @ chain_data c'"
  by (simp_all add: chain_data_def)

lemma pbData_cong: "pbBlock b' = pbBlock b \<Longrightarrow> pbPayload b' = pbPayload b \<Longrightarrow> pbLen b' = pbLen b \<Longrightarrow> pbData b' = pbData b"
  by (simp add: pbData_def)

lemma pbData_update [simp]: "pbData (b\<lparr>pbTotLen := n\<rparr>) = pbData b"
  by (rule pbData_cong) simp_all

lemma ReservedSize_wf: "pb_wf b \<Longrightarrow> ReservedSize b = pbPayload b"
  by (simp add: pb_wf_def ReservedSize_def c_arith)

lemma read_list_write: "off + length bs \<le> length xs \<Longrightarrow> take (length bs) (drop off (list_write off bs xs)) = bs"
  by (simp add: list_write_def)

lemma ConsumeHead_wf:
  assumes "pb_wf b" "pbPayload b + n < 65536 \<or> length (pbBlock b) < 65536"
  shows "pb_wf (ConsumeHead n b)" "pbData (ConsumeHead n b) = drop n (pbData b)" "pbTotLen b = pbLen b + k \<Longrightarrow> pbTotLen (ConsumeHead n b) = pbLen (ConsumeHead n b) + k"
  using assms by (auto simp: ConsumeHead_def pb_wf_def pbData_def Let_def drop_take add.commute)

lemma EnsureReservedSize_wf:
  assumes "pb_wf b" "n < 65536" and r: "EnsureReservedSize n b = (ok, b')"
  shows "pb_wf b'" "pbData b' = pbData b" "pbTotLen b' = pbTotLen b" "pbLen b' = pbLen b" "ok \<Longrightarrow> n \<le> pbPayload b'"
    "ok \<longleftrightarrow> n \<le> pbPayload b \<or> n + pbLen b \<le> length (pbBlock b)" "length (pbBlock b') = length (pbBlock b)"
proof -
  note R = ReservedSize_wf [OF assms(1)] and D = length_pbData [OF assms(1)]
  have "pb_wf b' \<and> pbData b' = pbData b \<and> pbTotLen b' = pbTotLen b \<and> pbLen b' = pbLen b \<and> (ok \<longrightarrow> n \<le> pbPayload b') \<and>
    (ok \<longleftrightarrow> n \<le> pbPayload b \<or> n + pbLen b \<le> length (pbBlock b)) \<and> length (pbBlock b') = length (pbBlock b)"
  proof (cases "n \<le> pbPayload b \<or> length (pbBlock b) < n + pbLen b")
    case True
    then show ?thesis
      using r assms(1) by (auto simp: EnsureReservedSize_def R AllocSize_def split: if_splits)
  next
    case False
    let ?b = "b\<lparr>pbBlock := list_write n (pbData b) (pbBlock b), pbPayload := n\<rparr>"
    have "pbPayload b + u16 (n - pbPayload b) = n"
      using False assms(2) by (simp add: c_arith)
    then have e: "ok" "b' = ?b"
      using r False by (auto simp: EnsureReservedSize_def R AllocSize_def Let_def)
    have fit: "n + length (pbData b) \<le> length (pbBlock b)"
      using False D by simp
    have "pbData ?b = pbData b"
      using read_list_write [OF fit] D by (simp add: pbData_def)
    moreover have "pb_wf ?b"
      using fit D assms(2) by (simp add: pb_wf_def)
    ultimately show ?thesis
      using e False fit by simp
  qed
  then show "pb_wf b'" "pbData b' = pbData b" "pbTotLen b' = pbTotLen b" "pbLen b' = pbLen b" "ok \<Longrightarrow> n \<le> pbPayload b'"
    "ok \<longleftrightarrow> n \<le> pbPayload b \<or> n + pbLen b \<le> length (pbBlock b)" "length (pbBlock b') = length (pbBlock b)"
    by blast+
qed

lemma chain_wf_length: "chain_wf c \<Longrightarrow> c \<noteq> [] \<Longrightarrow> pbTotLen (hd c) = length (chain_data c)"
  by (cases c) (simp_all add: length_pbData)

definition segments :: "PacketBufferHandle \<Rightarrow> byte list list" where
  "segments c = map pbData c"

lemma chain_data_segments: "chain_data c = concat (segments c)"
  by (simp add: chain_data_def segments_def)

lemma segments_simps [simp]: "segments [] = []" "segments (b # c) = pbData b # segments c" "segments (c @ c') = segments c @ segments c'"
  "length (segments c) = length c"
  by (simp_all add: segments_def)

lemma segments_totals [simp]: "segments (map (\<lambda>b. b\<lparr>pbTotLen := f b\<rparr>) c) = segments c" "chain_data (map (\<lambda>b. b\<lparr>pbTotLen := f b\<rparr>) c) = chain_data c"
  by (induction c) simp_all

lemma AddToEnd_wf:
  assumes "chain_wf c" "chain_wf (h # t)"
  shows "chain_wf (AddToEnd c h t)" "segments (AddToEnd c h t) = segments c @ segments (h # t)"
proof -
  have "pbTotLen h = length (chain_data (h # t))"
    using chain_wf_length [OF assms(2)] by simp
  then show "chain_wf (AddToEnd c h t)"
    using assms unfolding AddToEnd_def by (induction c) (simp_all add: pb_wf_def)
qed (simp add: AddToEnd_def)

lemma append_to_block:
  assumes "pb_wf b" "pbPayload b + pbLen b + length bs \<le> length (pbBlock b)"
  shows "pbData (b\<lparr>pbBlock := list_write (pbPayload b + pbLen b) bs (pbBlock b), pbLen := pbLen b + length bs\<rparr>) = pbData b @ bs"
proof -
  let ?p = "pbPayload b" and ?l = "pbLen b"
  have "drop ?p (list_write (?p + ?l) bs (pbBlock b)) = pbData b @ bs @ drop (?p + ?l + length bs) (pbBlock b)"
    using assms by (simp add: list_write_def pbData_def drop_take)
  then show ?thesis
    using length_pbData [OF assms(1)] by (simp add: pbData_def [of "_\<lparr>pbLen := _\<rparr>"])
qed

definition blocks_small :: "PacketBufferHandle \<Rightarrow> bool" where
  "blocks_small c \<longleftrightarrow> list_all (\<lambda>b. length (pbBlock b) < 65536) c"

definition fits_head :: "packet_buffer \<Rightarrow> PacketBufferHandle \<Rightarrow> bool" where
  "fits_head b c \<longleftrightarrow> pbTotLen b < length (pbBlock b) \<or> pbTotLen b = length (pbBlock b) \<and> list_all (\<lambda>x. 0 < pbLen x) c"

lemma CompactHead_loop_wf:
  assumes "pb_wf b" "chain_wf c" "pbTotLen b = pbLen b + length (chain_data c)" "pbPayload b = 0" "a = length (pbBlock b) - pbLen b" "blocks_small c"
  shows "chain_wf (CompactHead_loop a b c) \<and> chain_data (CompactHead_loop a b c) = pbData b @ chain_data c \<and>
    (fits_head b c \<longrightarrow> (\<exists>b'. CompactHead_loop a b c = [b'])) \<and> blocks_small (tl (CompactHead_loop a b c)) \<and>
    length (pbBlock (hd (CompactHead_loop a b c))) = length (pbBlock b) \<and> pbPayload (hd (CompactHead_loop a b c)) = 0"
  using assms
proof (induction a b c rule: CompactHead_loop.induct)
  case (1 a b)
  then show ?case by (simp add: blocks_small_def)
next
  case (2 a b n rest)
  have n: "pb_wf n" "pbTotLen n = pbLen n + length (chain_data rest)" "chain_wf rest" "length (pbBlock n) < 65536" "blocks_small rest"
    using "2.prems"(2,6) by (simp_all add: blocks_small_def)
  note Dn = length_pbData [OF n(1)]
  show ?case
  proof (cases "a = 0")
    case True
    then have "\<not> fits_head b (n # rest)"
      using "2.prems"(1,3,5) Dn by (auto simp: fits_head_def pb_wf_def)
    then show ?thesis
      using True "2.prems" by (simp add: blocks_small_def)
  next
    case False
    let ?m = "if a < pbLen n then a else pbLen n"
    let ?b = "b\<lparr>pbBlock := list_write (pbPayload b + pbLen b) (take ?m (pbData n)) (pbBlock b), pbLen := pbLen b + ?m\<rparr>"
    let ?n = "n\<lparr>pbPayload := pbPayload n + ?m, pbLen := pbLen n - ?m, pbTotLen := pbTotLen n - ?m\<rparr>"
    let ?c = "if pbLen ?n = 0 then rest else ?n # rest"
    have m: "length (take ?m (pbData n)) = ?m" "?m \<le> pbLen n" "?m \<le> a" "pbLen b + ?m \<le> length (pbBlock b)"
      using Dn "2.prems"(1,5) by (auto simp: pb_wf_def)
    have run: "CompactHead_loop a b (n # rest) = CompactHead_loop (a - ?m) ?b ?c"
      using False by (simp add: Let_def)
    have db: "pbData ?b = pbData b @ take ?m (pbData n)"
      using append_to_block [OF "2.prems"(1), of "take ?m (pbData n)"] m "2.prems"(4) by simp
    have lb: "length (pbBlock ?b) = length (pbBlock b)"
      using m(1,4) "2.prems"(4) by simp
    have wb: "pb_wf ?b" "pbPayload ?b = 0"
      using m(4) lb "2.prems"(1,4) by (simp_all add: pb_wf_def)
    have dn: "pbData ?n = drop ?m (pbData n)"
      using n(1) by (simp add: pbData_def drop_take add.commute)
    have wn: "pb_wf ?n"
      using n(1,4) m(2) by (auto simp: pb_wf_def)
    have dc: "chain_data ?c = drop ?m (pbData n) @ chain_data rest"
      using dn Dn by auto
    have wc: "chain_wf ?c"
      using n wn m(2) by (auto simp: pb_wf_def)
    have tot: "pbTotLen ?b = pbLen ?b + length (chain_data ?c)"
      using "2.prems"(3) Dn m(2) unfolding dc by simp
    have small: "blocks_small ?c"
      using n(4,5) by (simp add: blocks_small_def)
    have a': "a - ?m = length (pbBlock ?b) - pbLen ?b"
      using "2.prems"(5) lb by simp
    have fits: "fits_head ?b ?c" if "fits_head b (n # rest)"
      using that lb by (auto simp: fits_head_def)
    note IH = "2.IH" [OF False refl refl refl wb(1) wc tot wb(2) a' small]
    show ?thesis
      unfolding run using IH db dc lb fits by simp
  qed
qed

lemma CompactHead_loop_ne: "CompactHead_loop a b c \<noteq> []"
  by (induction a b c rule: CompactHead_loop.induct) (simp_all add: Let_def)

lemma CompactHead_wf:
  assumes "chain_wf c" "blocks_small c"
  shows "chain_wf (CompactHead c)" "chain_data (CompactHead c) = chain_data c" "blocks_small (CompactHead c)"
    "c = b # rest \<Longrightarrow> fits_head b rest \<Longrightarrow> \<exists>b'. CompactHead c = [b'] \<and> length (pbBlock b') = length (pbBlock b) \<and> pbPayload b' = 0"
proof -
  have *: "chain_wf (CompactHead c) \<and> chain_data (CompactHead c) = chain_data c \<and> blocks_small (CompactHead c) \<and>
    (fits_head b rest \<longrightarrow> (\<exists>b'. CompactHead c = [b'] \<and> length (pbBlock b') = length (pbBlock b) \<and> pbPayload b' = 0))"
    if c: "c = b # rest" for b rest
  proof -
    have b: "pb_wf b" "pbTotLen b = pbLen b + length (chain_data rest)" "chain_wf rest" "length (pbBlock b) < 65536" "blocks_small rest"
      using assms c by (simp_all add: blocks_small_def)
    let ?b = "if pbPayload b \<noteq> 0 then b\<lparr>pbBlock := list_write 0 (pbData b) (pbBlock b), pbPayload := 0\<rparr> else b"
    have len: "length (pbData b) = pbLen b" "pbLen b \<le> length (pbBlock b)"
      using length_pbData [OF b(1)] b(1) by (simp_all add: pb_wf_def)
    have b': "pb_wf ?b" "pbData ?b = pbData b" "pbTotLen ?b = pbLen ?b + length (chain_data rest)" "pbPayload ?b = 0"
      "length (pbBlock ?b) = length (pbBlock b)" "fits_head ?b rest = fits_head b rest"
      using b(1,2) len read_list_write [of 0 "pbData b" "pbBlock b"] by (auto simp: pb_wf_def pbData_def fits_head_def)
    have run: "CompactHead c = CompactHead_loop (length (pbBlock ?b) - pbLen ?b) ?b rest"
      using b'(4) unfolding c CompactHead.simps Let_def by (simp add: AvailableDataLength_def MaxDataLength_def AllocSize_def ReservedSize_def u16_def)
    note l = CompactHead_loop_wf [OF b'(1) b(3) b'(3,4) refl b(5)]
    obtain x y where xy: "CompactHead c = x # y"
      unfolding run using CompactHead_loop_ne [of "length (pbBlock ?b) - pbLen ?b" ?b rest] by (cases "CompactHead_loop (length (pbBlock ?b) - pbLen ?b) ?b rest") auto
    have "blocks_small (CompactHead c)"
      using l b(4) b'(5) unfolding run [symmetric] xy by (simp add: blocks_small_def)
    then show ?thesis
      using l b'(2,5,6) unfolding run [symmetric] c by auto
  qed
  show "chain_wf (CompactHead c)" "chain_data (CompactHead c) = chain_data c" "blocks_small (CompactHead c)"
    using * by (cases c; simp add: blocks_small_def)+
  show "c = b # rest \<Longrightarrow> fits_head b rest \<Longrightarrow> \<exists>b'. CompactHead c = [b'] \<and> length (pbBlock b') = length (pbBlock b) \<and> pbPayload b' = 0"
    using * by blast
qed

lemma Consume_wf:
  assumes "chain_wf c" "blocks_small c"
  shows "chain_wf (Consume n c) \<and> chain_data (Consume n c) = drop n (chain_data c) \<and> blocks_small (Consume n c)"
  using assms
proof (induction n c rule: Consume.induct)
  case (2 n b rest)
  have b: "pb_wf b" "pbTotLen b = pbLen b + length (chain_data rest)" "chain_wf rest" "length (pbBlock b) < 65536" "blocks_small rest"
    using "2.prems" by (simp_all add: blocks_small_def)
  note D = length_pbData [OF b(1)]
  have "length (pbBlock (ConsumeHead n b)) = length (pbBlock b)"
    by (simp add: ConsumeHead_def Let_def)
  then show ?case
    using "2.IH" "2.prems" b D ConsumeHead_wf [OF b(1), of n] by (auto simp: blocks_small_def)
qed (simp add: blocks_small_def)

lemma Read_ok:
  assumes "chain_wf c" "c \<noteq> []"
  shows "PacketBuffer_Read n c = (if n \<le> length (chain_data c) then (CHIP_NO_ERROR, take n (chain_data c)) else (CHIP_ERROR_BUFFER_TOO_SMALL, []))"
proof -
  have "Read_loop n c = (CHIP_NO_ERROR, take n (chain_data c))" if "chain_wf c" "n \<le> length (chain_data c)" for n c
    using that
  proof (induction n c rule: Read_loop.induct)
    case (2 n b rest)
    then show ?case
      using length_pbData [of b] by (cases "n < pbLen b") (auto simp: Let_def)
  qed simp
  then show ?thesis
    using assms chain_wf_length [OF assms] by (simp add: PacketBuffer_Read_def)
qed

lemma SetDataLength_head:
  fixes n :: nat assumes "chain_wf (b # rest)"
  defines "n' \<equiv> min n (length (pbBlock b) - pbPayload b)"
  shows "SetDataLength n 0 (b # rest) = b\<lparr>pbLen := n', pbTotLen := n' + length (chain_data rest)\<rparr> # rest" "chain_wf (SetDataLength n 0 (b # rest))"
    "n \<le> pbLen b \<Longrightarrow> chain_data (SetDataLength n 0 (b # rest)) = take n (pbData b) @ chain_data rest"
proof -
  have b: "pb_wf b" "pbTotLen b = pbLen b + length (chain_data rest)"
    using assms by simp_all
  show e: "SetDataLength n 0 (b # rest) = b\<lparr>pbLen := n', pbTotLen := n' + length (chain_data rest)\<rparr> # rest"
    using b by (simp add: SetDataLength_def Let_def MaxDataLength_def AllocSize_def ReservedSize_wf n'_def min_def)
  show "chain_wf (SetDataLength n 0 (b # rest))"
    unfolding e using assms(1) by (auto simp: pb_wf_def n'_def)
  show "chain_data (SetDataLength n 0 (b # rest)) = take n (pbData b) @ chain_data rest" if "n \<le> pbLen b"
    unfolding e using that b(1) by (simp add: pbData_def n'_def pb_wf_def min_def)
qed

text \<open>Moving the start towards the front: the bytes in front of the data become data.\<close>

lemma SetStart_front:
  assumes "pb_wf b" "n \<le> pbPayload b"
  shows "SetStart (int (pbPayload b) - int n) b = b\<lparr>pbPayload := pbPayload b - n, pbLen := pbLen b + n, pbTotLen := pbTotLen b + n\<rparr>"
  using assms by (simp add: SetStart_def Let_def nat_diff_distrib nat_add_distrib)

subsection \<open>Handles hold byte strings\<close>

definition handle_wf :: "PacketBufferHandle \<Rightarrow> bool" where
  "handle_wf c \<longleftrightarrow> chain_wf c \<and> blocks_small c"

lemma AddToEnd_handle:
  assumes "handle_wf c" "handle_wf (h # t)"
  shows "handle_wf (AddToEnd c h t)" "segments (AddToEnd c h t) = segments c @ segments (h # t)"
  using AddToEnd_wf [of c h t] assms by (auto simp: handle_wf_def blocks_small_def AddToEnd_def list_all_iff)

text \<open>What is relied on of the allocator: a block has the size that was asked for.\<close>

locale block_allocator =
  fixes alloc :: "nat \<Rightarrow> byte list option"
  assumes alloc_length: "alloc n = Some m \<Longrightarrow> length m = n"
begin

lemma New_wf:
  assumes "Handle_New alloc a r = c" "c \<noteq> []" "r < 65536"
  obtains b where "c = [b]" "pbPayload b = r" "pbLen b = 0" "pbTotLen b = 0" "length (pbBlock b) = a + r" "a + r \<le> kMaxAllocSize"
  using assms by (auto simp: Handle_New_def Let_def alloc_length split: if_splits option.splits)

lemma NewWithData_wf:
  assumes "Handle_NewWithData alloc bs a r = c" "c \<noteq> []" "r < 65536"
  shows "handle_wf c" "segments c = [bs]"
proof -
  have "Handle_New alloc (length bs + a) r \<noteq> []"
    using assms(1,2) by (auto simp: Handle_NewWithData_def)
  from New_wf [OF refl this assms(3)] obtain b where b: "Handle_New alloc (length bs + a) r = [b]" "pbPayload b = r"
    "length (pbBlock b) = length bs + a + r" "length bs + a + r \<le> 1583"
    by (metis kMaxAllocSize_def kMaxSizeWithoutReserve_def)
  have c: "c = [b\<lparr>pbBlock := list_write r bs (pbBlock b), pbLen := length bs, pbTotLen := length bs\<rparr>]"
    using assms(1) b(1,2) by (simp add: Handle_NewWithData_def)
  show "handle_wf c" "segments c = [bs]"
    using b assms(3) read_list_write [of r bs "pbBlock b"] by (simp_all add: c handle_wf_def pb_wf_def blocks_small_def pbData_def)
qed

lemma clone_buffer:
  assumes "pb_wf b" "length (pbBlock b) < 65536" "clone_size b = Some n" "Handle_New alloc n (ReservedSize b) = x # y"
  defines "x' \<equiv> x\<lparr>pbTotLen := pbLen b, pbLen := pbLen b, pbBlock := list_write 0 (take (n + ReservedSize b) (pbBlock b)) (pbBlock x)\<rparr>"
  shows "handle_wf [x']" "chain_data [x'] = pbData b"
proof -
  note R = ReservedSize_wf [OF assms(1)]
  have n: "pbLen b \<le> n" "n + pbPayload b \<le> length (pbBlock b)"
    using assms(1,3) by (auto simp: clone_size_def MaxDataLength_def AllocSize_def R pb_wf_def split: if_splits)
  have x: "pbPayload x = pbPayload b" "length (pbBlock x) = n + pbPayload b"
    using New_wf [OF assms(4)] assms(1) by (auto simp: R pb_wf_def)
  have blk: "pbBlock x' = take (n + pbPayload b) (pbBlock b)"
    using n(2) x(2) by (simp add: x'_def R list_write_def)
  show "handle_wf [x']" "chain_data [x'] = pbData b"
    using blk n x(1) assms(1,2) by (simp_all add: handle_wf_def pb_wf_def blocks_small_def pbData_def drop_take min_def) (simp_all add: x'_def x(1))
qed


lemma CloneData_loop_wf:
  assumes "handle_wf h" "handle_wf c" "CloneData_loop alloc h c \<noteq> []"
  shows "handle_wf (CloneData_loop alloc h c) \<and> segments (CloneData_loop alloc h c) = segments h @ segments c"
  using assms
proof (induction c arbitrary: h)
  case (Cons b rest)
  have b: "pb_wf b" "length (pbBlock b) < 65536" "handle_wf rest"
    using Cons.prems(2) by (simp_all add: handle_wf_def blocks_small_def)
  obtain n x y where n: "clone_size b = Some n" "Handle_New alloc n (ReservedSize b) = x # y"
    using Cons.prems(3) by (auto split: option.splits list.splits)
  note clone = clone_buffer [OF b(1,2) n]
  let ?x = "x\<lparr>pbTotLen := pbLen b, pbLen := pbLen b, pbBlock := list_write 0 (take (n + ReservedSize b) (pbBlock b)) (pbBlock x)\<rparr>"
  let ?h = "if h = [] then [?x] else AddToEnd h ?x []"
  have "handle_wf ?h \<and> segments ?h = segments h @ [pbData b]"
    using AddToEnd_handle [OF Cons.prems(1) clone(1)] clone by auto
  then show ?case
    using Cons.IH [of ?h] b(3) Cons.prems(3) n by (simp add: Let_def)
qed simp

lemma RightSize_wf:
  assumes "handle_wf c"
  shows "handle_wf (RightSize alloc c) \<and> segments (RightSize alloc c) = segments c"
proof -
  have "handle_wf (RightSize alloc [b]) \<and> segments (RightSize alloc [b]) = [pbData b]" if b: "handle_wf [b]" for b
  proof (cases "length (pbBlock b) < pbPayload b + pbLen b + 16")
    case True
    then show ?thesis using b by (simp add: RightSize_def AllocSize_def)
  next
    case False
    show ?thesis
    proof (cases "alloc (pbPayload b + pbLen b)")
      case None
      then show ?thesis using b False by (simp add: RightSize_def AllocSize_def)
    next
      case (Some m)
      have "list_write 0 (take (pbPayload b + pbLen b) (pbBlock b)) m = take (pbPayload b + pbLen b) (pbBlock b)"
        using alloc_length [OF Some] False by (simp add: list_write_def)
      then show ?thesis
        using Some b False by (simp add: RightSize_def AllocSize_def handle_wf_def pb_wf_def blocks_small_def pbData_def drop_take)
    qed
  qed
  then show ?thesis
    using assms by (cases c rule: remdups_adj.cases) (simp_all add: RightSize_def)
qed

end

lemma Reserve_wf:
  assumes "handle_wf (b # rest)" "n < 65536" "EnsureReservedSize n b = (ok, b')"
  shows "handle_wf (b' # rest) \<and> segments (b' # rest) = segments (b # rest)"
  using assms EnsureReservedSize_wf [OF _ assms(2,3)] by (auto simp: handle_wf_def blocks_small_def)

lemma Align_wf:
  assumes "handle_wf (b # rest)"
  shows "handle_wf (snd (AlignPayload address n b) # rest) \<and> segments (snd (AlignPayload address n b) # rest) = segments (b # rest)"
proof -
  have "handle_wf (snd (EnsureReservedSize k b) # rest) \<and> segments (snd (EnsureReservedSize k b) # rest) = segments (b # rest)"
    if "\<not> 65535 < k" for k
    by (rule Reserve_wf [OF assms, of k "fst (EnsureReservedSize k b)"]) (use that in simp_all)
  then show ?thesis
    using assms unfolding AlignPayload_def Let_def by (auto split: if_splits)
qed

text \<open>Moving the start of the first buffer, within the block.\<close>

lemma SetStart_on:
  assumes "pb_wf b"
  shows "SetStart (int (pbPayload b) + int n) b =
    b\<lparr>pbLen := pbLen b - n, pbTotLen := nat (int (pbTotLen b) - int (min n (pbLen b))), pbPayload := min (pbPayload b + n) (length (pbBlock b))\<rparr>"
  using assms unfolding SetStart_def MaxDataLength_def AllocSize_def ReservedSize_wf [OF assms] Let_def
  by (auto simp: pb_wf_def min_def nat_diff_distrib' nat_add_distrib of_nat_diff intro!: packet_buffer.equality)

lemma SetStart_back:
  fixes n :: nat
  assumes "pb_wf b"
  defines "k \<equiv> min n (pbPayload b)"
  shows "SetStart (int (pbPayload b) - int n) b = b\<lparr>pbPayload := pbPayload b - k, pbLen := pbLen b + k, pbTotLen := pbTotLen b + k\<rparr>"
proof -
  have "SetStart (int (pbPayload b) - int n) b = SetStart (int (pbPayload b) - int k) b"
    using assms(1) unfolding SetStart_def MaxDataLength_def AllocSize_def ReservedSize_wf [OF assms(1)] Let_def
    by (auto simp: pb_wf_def k_def min_def)
  then show ?thesis
    using SetStart_front [OF assms(1), of k] by (simp add: k_def)
qed

lemma SetStart_wf:
  fixes i :: int
  assumes "handle_wf (b # rest)"
  shows "\<exists>d. handle_wf (SetStart (int (pbPayload b) + i) b # rest) \<and> segments (SetStart (int (pbPayload b) + i) b # rest) = d # segments rest \<and>
    (0 \<le> i \<longrightarrow> d = drop (nat i) (pbData b)) \<and> (i < 0 \<longrightarrow> (\<exists>pre. d = pre @ pbData b \<and> length pre \<le> nat (- i)))"
proof -
  have b: "pb_wf b" "pbTotLen b = pbLen b + length (chain_data rest)" "chain_wf rest" "length (pbBlock b) < 65536" "blocks_small rest"
    using assms by (simp_all add: handle_wf_def blocks_small_def)
  show ?thesis
  proof (cases "0 \<le> i")
    case True
    then obtain n where n: "i = int n"
      by (metis nonneg_int_cases)
    let ?b = "SetStart (int (pbPayload b) + i) b"
    have s: "pbLen ?b = pbLen b - n" "pbTotLen ?b = pbLen b - n + length (chain_data rest)" "pbPayload ?b = min (pbPayload b + n) (length (pbBlock b))" "pbBlock ?b = pbBlock b"
      unfolding n SetStart_on [OF b(1)] using b(2) by (auto simp: min_def)
    have "handle_wf (?b # rest)"
      using b s by (auto simp: handle_wf_def pb_wf_def blocks_small_def)
    moreover have "pbData ?b = drop n (pbData b)"
      using b(1) unfolding pbData_def s by (cases "n < pbLen b") (simp_all add: pb_wf_def drop_take add.commute min_def)
    ultimately show ?thesis
      using n by simp
  next
    case False
    then obtain n where n: "i = - int n"
      by (metis int_cases4 less_eq_int_code(1) of_nat_0_le_iff)
    let ?k = "min n (pbPayload b)" and ?b = "SetStart (int (pbPayload b) + i) b"
    have s: "pbLen ?b = pbLen b + ?k" "pbTotLen ?b = pbTotLen b + ?k" "pbPayload ?b = pbPayload b - ?k" "pbBlock ?b = pbBlock b"
      using SetStart_back [OF b(1), of n] by (simp_all add: n)
    have "handle_wf (?b # rest)"
      using b s by (auto simp: handle_wf_def pb_wf_def blocks_small_def)
    moreover have "pbData ?b = take ?k (drop (pbPayload b - ?k) (pbBlock b)) @ pbData b"
      by (simp add: pbData_def s add.commute [of _ ?k] take_add)
    ultimately show ?thesis
      using n False by auto
  qed
qed

text \<open>Setting the length of any buffer of a chain.\<close>

lemma SetDataLength_wf:
  assumes "handle_wf c" "i < length c"
  shows "handle_wf (SetDataLength n i c) \<and>
    (\<exists>d. segments (SetDataLength n i c) = (segments c)[i := d] \<and> length d \<le> n \<and> take (length (segments c ! i)) d = take n (segments c ! i))"
proof -
  obtain pre b post where c: "c = pre @ b # post" "length pre = i"
    using id_take_nth_drop [OF assms(2)] assms(2) by (metis length_take min.absorb4)
  define m where "m = min n (length (pbBlock b) - pbPayload b)"
  let ?tot = "\<lambda>p. p\<lparr>pbTotLen := nat (int (pbTotLen p) + (int m - int (pbLen b)))\<rparr>" and ?b = "b\<lparr>pbLen := m\<rparr>"
  have wf: "chain_wf (pre @ b # post)" "blocks_small c"
    using assms(1) by (simp_all add: handle_wf_def c(1))
  then have b: "chain_wf (b # post)" "pb_wf b"
    by (induction pre) simp_all
  have set: "SetDataLength n i c = map ?tot pre @ (?tot b)\<lparr>pbLen := m\<rparr> # post"
    using b(2) by (simp add: SetDataLength_def Let_def MaxDataLength_def AllocSize_def ReservedSize_wf m_def min_def c(1) c(2) [symmetric])
  have len: "length (pbData b) = pbLen b" "length (pbData ?b) = m"
    using b(2) length_pbData [of b] by (simp_all add: pbData_def pb_wf_def m_def)
  have d: "pbData (b\<lparr>pbTotLen := x, pbLen := m\<rparr>) = pbData ?b" for x
    by (rule pbData_cong) simp_all
  have tail: "chain_wf ((?tot b)\<lparr>pbLen := m\<rparr> # post)"
    using b by (auto simp: pb_wf_def m_def)
  have "chain_wf (map ?tot pre @ (?tot b)\<lparr>pbLen := m\<rparr> # post)"
    using wf(1) tail by (induction pre) (auto simp: pb_wf_def d len)
  moreover have "blocks_small (SetDataLength n i c)"
    using wf(2) unfolding set by (auto simp: blocks_small_def c(1) list_all_iff)
  moreover have "segments (SetDataLength n i c) = (segments c)[i := pbData ?b]"
    unfolding set by (simp add: c(1) c(2) [symmetric] d list_update_append segments_def)
  moreover have "take (length (segments c ! i)) (pbData ?b) = take n (segments c ! i)"
    using len(1) b(2) by (auto simp: c(1) c(2) [symmetric] nth_append segments_def pbData_def m_def pb_wf_def min_def)
  ultimately show ?thesis
    using len(2) unfolding handle_wf_def set [symmetric] by (auto simp: m_def)
qed

text \<open>A writer leaves the data of the packet and puts the bytes that fit behind them.\<close>

lemma Put_packet:
  assumes "pwPacket w = b # rest" "pbPayload b + pbLen b + pwSize w \<le> length (pbBlock b)"
  shows "\<exists>blk. pwPacket (PacketBufferWriter_Put bs w) = b\<lparr>pbBlock := blk\<rparr> # rest \<and> length blk = length (pbBlock b) \<and>
    take (pbPayload b + pbLen b + min (pwNeeded w) (pwSize w)) blk = take (pbPayload b + pbLen b + min (pwNeeded w) (pwSize w)) (pbBlock b) \<and>
    (pwNeeded w \<le> pwSize w \<longrightarrow> take (length bs) (take (pwSize w - pwNeeded w) (drop (pbPayload b + pbLen b + pwNeeded w) blk)) = take (pwSize w - pwNeeded w) bs)"
proof (cases "pwSize w \<le> pwNeeded w \<or> bs = []")
  case True
  then show ?thesis
    using assms(1) by (intro exI [of _ "pbBlock b"]) (auto simp: PacketBufferWriter_Put_def Let_def)
next
  case False
  let ?ofs = "pbPayload b + pbLen b + pwNeeded w" and ?bs = "take (pwSize w - pwNeeded w) bs"
  have "pwPacket (PacketBufferWriter_Put bs w) = b\<lparr>pbBlock := list_write ?ofs ?bs (pbBlock b)\<rparr> # rest"
    using False assms(1) by (simp add: PacketBufferWriter_Put_def Let_def)
  moreover have fits: "?ofs + length ?bs \<le> length (pbBlock b)"
    using False assms(2) by (simp add: min_def) arith
  moreover have "take ?ofs (list_write ?ofs ?bs (pbBlock b)) = take ?ofs (pbBlock b)"
    using fits by (simp add: list_write_def)
  moreover have "take (length bs) (take (pwSize w - pwNeeded w) (drop ?ofs (list_write ?ofs ?bs (pbBlock b)))) = ?bs"
    using read_list_write [OF fits] by (simp add: min.commute)
  ultimately show ?thesis
    using False by (intro exI [of _ "list_write ?ofs ?bs (pbBlock b)"]) (simp add: min_def)
qed

lemma Put_all:
  fixes rest :: PacketBufferHandle
  assumes "pbPayload b + pbLen b + n \<le> length (pbBlock b)"
  defines "w \<equiv> \<lambda>bss. fold PacketBufferWriter_Put bss \<lparr>pwPacket = b # rest, pwNeeded = 0, pwSize = n\<rparr>"
  shows "pwSize (w bss) = n \<and> pwNeeded (w bss) = length (concat bss) \<and>
    (\<exists>blk. pwPacket (w bss) = b\<lparr>pbBlock := blk\<rparr> # rest \<and> length blk = length (pbBlock b) \<and>
       take (pbPayload b + pbLen b) blk = take (pbPayload b + pbLen b) (pbBlock b) \<and>
       (length (concat bss) \<le> n \<longrightarrow> take (length (concat bss)) (drop (pbPayload b + pbLen b) blk) = concat bss))"
proof (induction bss rule: rev_induct)
  case Nil
  then show ?case
    by (intro conjI exI [of _ "pbBlock b"]) (simp_all add: w_def)
next
  case (snoc bs bss)
  let ?p = "pbPayload b + pbLen b" and ?k = "length (concat bss)"
  obtain blk where I: "pwSize (w bss) = n" "pwNeeded (w bss) = ?k" "pwPacket (w bss) = b\<lparr>pbBlock := blk\<rparr> # rest" "length blk = length (pbBlock b)"
    "take ?p blk = take ?p (pbBlock b)" "?k \<le> n \<longrightarrow> take ?k (drop ?p blk) = concat bss"
    using snoc.IH by blast
  have room: "pbPayload (b\<lparr>pbBlock := blk\<rparr>) + pbLen (b\<lparr>pbBlock := blk\<rparr>) + pwSize (w bss) \<le> length (pbBlock (b\<lparr>pbBlock := blk\<rparr>))"
    using assms(1) I(1,4) by simp
  obtain blk' where b': "pwPacket (PacketBufferWriter_Put bs (w bss)) = b\<lparr>pbBlock := blk'\<rparr> # rest" "length blk' = length (pbBlock b)"
    "take (?p + min ?k n) blk' = take (?p + min ?k n) blk" "?k \<le> n \<longrightarrow> take (length bs) (take (n - ?k) (drop (?p + ?k) blk')) = take (n - ?k) bs"
    using Put_packet [OF I(3) room, of bs] I(1,2,4) by auto
  have "take ?p blk' = take ?p blk"
    using arg_cong [OF b'(3), of "take ?p"] by (simp add: min_def)
  moreover have "take (length (concat (bss @ [bs]))) (drop ?p blk') = concat (bss @ [bs])" if fits: "length (concat (bss @ [bs])) \<le> n"
  proof -
    have k: "?k \<le> n" "length bs \<le> n - ?k"
      using fits by simp_all
    have "take ?k (drop ?p blk') = concat bss"
      using arg_cong [OF b'(3), of "drop ?p"] k(1) I(6) by (simp add: min_def take_drop [symmetric] drop_take)
    moreover have "take (length bs) (drop (?k + ?p) blk') = bs"
      using b'(4) k by (simp add: min_def add.commute)
    ultimately show ?thesis
      by (simp add: take_add)
  qed
  moreover have "w (bss @ [bs]) = PacketBufferWriter_Put bs (w bss)"
    by (simp add: w_def)
  moreover have "pwSize (PacketBufferWriter_Put bs (w bss)) = n" "pwNeeded (PacketBufferWriter_Put bs (w bss)) = ?k + length bs"
    using I(1,2) by (simp_all add: PacketBufferWriter_Put_def Let_def)
  ultimately show ?case
    using b'(1,2) I(5) by (intro conjI exI [of _ blk']) simp_all
qed

lemma Finalize_wf:
  fixes bss :: "byte list list"
  assumes "handle_wf (b # rest)" "n \<le> AvailableDataLength b"
  defines "c \<equiv> Finalize (fold PacketBufferWriter_Put bss \<lparr>pwPacket = b # rest, pwNeeded = 0, pwSize = n\<rparr>)"
  shows "handle_wf c \<and> (if length (concat bss) \<le> n then segments c = take (length (concat bss)) (pbData b @ concat bss) # segments rest else c = [])"
proof (cases "length (concat bss) \<le> n")
  case True
  have b: "pb_wf b" "length (pbBlock b) < 65536" "pbTotLen b = pbLen b + length (chain_data rest)"
    using assms(1) by (simp_all add: handle_wf_def blocks_small_def)
  let ?p = "pbPayload b + pbLen b" and ?k = "length (concat bss)"
  have room: "?p + n \<le> length (pbBlock b)"
    using b(1) assms(2) by (simp add: AvailableDataLength_def MaxDataLength_def AllocSize_def ReservedSize_wf pb_wf_def) arith
  obtain blk where I: "fold PacketBufferWriter_Put bss \<lparr>pwPacket = b # rest, pwNeeded = 0, pwSize = n\<rparr> = \<lparr>pwPacket = b\<lparr>pbBlock := blk\<rparr> # rest, pwNeeded = ?k, pwSize = n\<rparr>"
    "length blk = length (pbBlock b)" "take ?p blk = take ?p (pbBlock b)" "take ?k (drop ?p blk) = concat bss"
    using Put_all [OF room, of bss rest] True by (metis packet_writer.surjective old.unit.exhaust)
  let ?b = "b\<lparr>pbBlock := blk\<rparr>"
  have data: "pbData ?b = pbData b"
    using arg_cong [OF I(3), of "drop (pbPayload b)"] by (simp add: pbData_def drop_take)
  have wf: "handle_wf (?b # rest)"
    using assms(1) I(2) b by (simp add: handle_wf_def blocks_small_def pb_wf_def)
  have c: "c = SetDataLength ?k 0 (?b # rest)"
    using True unfolding c_def I(1) by (simp add: Finalize_def)
  have wf': "chain_wf (?b # rest)"
    using wf by (simp add: handle_wf_def)
  have "SetDataLength ?k 0 (?b # rest) = ?b\<lparr>pbLen := ?k, pbTotLen := ?k + length (chain_data rest)\<rparr> # rest"
    using SetDataLength_head(1) [OF wf', of ?k] room True I(2) by (simp add: min_def)
  moreover have "take ?k (drop (pbPayload b) blk) = take ?k (pbData b @ concat bss)"
  proof -
    have "take (pbLen b + ?k) (drop (pbPayload b) blk) = pbData b @ concat bss"
      using data I(4) by (simp add: take_add pbData_def add.commute)
    then show ?thesis
      by (metis le_add2 min.absorb1 take_take)
  qed
  ultimately show ?thesis
    using True SetDataLength_wf [OF wf, of 0 ?k] unfolding c by (simp add: pbData_def)
next
  case False
  have room: "pbPayload b + pbLen b + n \<le> length (pbBlock b)"
    using assms(1,2) by (simp add: AvailableDataLength_def MaxDataLength_def AllocSize_def ReservedSize_wf pb_wf_def handle_wf_def) arith
  have "c = []"
    using Put_all [OF room, of bss rest] False unfolding c_def by (simp add: Finalize_def)
  then show ?thesis
    using False by (simp add: handle_wf_def blocks_small_def)
qed

subsection \<open>Sequences of operations\<close>

text \<open>
  The operations of a handle: \<open>Head\<close> goes on with the buffer that \<^verbatim>\<open>PopHead\<close> returns and \<open>Pop\<close> with what it leaves, \<open>Start\<close> is relative
  to the current start, \<open>Length\<close> has the position of a buffer in the chain, \<open>Clone\<close> goes on with the copy if there is one, and \<open>Write\<close> is
  a writer, perhaps with a limit, its \<^verbatim>\<open>Put\<close> calls and \<^verbatim>\<open>Finalize\<close>. \<open>None\<close> is the use of a null handle.
\<close>

datatype pb_cmd = Append PacketBufferHandle | Compact | Drop nat | Reserve nat | Align nat nat | Shrink | Clone
  | Pop | Head | Free | Start int | Length nat nat | Write "nat option" "byte list list"

fun pb_exec :: "(nat \<Rightarrow> byte list option) \<Rightarrow> pb_cmd \<Rightarrow> PacketBufferHandle \<Rightarrow> PacketBufferHandle option" where
  "pb_exec alloc (Append p) c = Handle_AddToEnd c p"
| "pb_exec alloc Shrink c = Some (RightSize alloc c)"
| "pb_exec alloc Clone c = Some (case CloneData alloc c of [] \<Rightarrow> c | d # rest \<Rightarrow> d # rest)"
| "pb_exec alloc k [] = None"
| "pb_exec alloc Compact c = Some (CompactHead c)"
| "pb_exec alloc (Drop n) c = Some (Consume n c)"
| "pb_exec alloc (Reserve n) (b # rest) = Some (snd (EnsureReservedSize (u16 n) b) # rest)"
| "pb_exec alloc (Align address n) (b # rest) = Some (snd (AlignPayload address (u16 n) b) # rest)"
| "pb_exec alloc Pop c = Some (snd (PopHead c))"
| "pb_exec alloc Head c = Some (fst (PopHead c))"
| "pb_exec alloc Free c = Some (FreeHead c)"
| "pb_exec alloc (Start i) (b # rest) = Some (SetStart (int (pbPayload b) + i) b # rest)"
| "pb_exec alloc (Length i n) c = (if i < length c then Some (SetDataLength n i c) else None)"
| "pb_exec alloc (Write None bss) c = Some (Finalize (fold PacketBufferWriter_Put bss (PacketBufferWriter c)))"
| "pb_exec alloc (Write (Some n) bss) c = Some (Finalize (fold PacketBufferWriter_Put bss (PacketBufferWriter_max c n)))"

fun pb_cmd_ok :: "pb_cmd \<Rightarrow> bool" where
  "pb_cmd_ok (Append p) = handle_wf p"
| "pb_cmd_ok _ = True"

text \<open>
  What an operation does to the byte strings of the buffers of the chain. The bytes that become data when the start is moved towards the front
  or a length is increased are whatever is in the block; a writer cuts the packet to the number of bytes written.
\<close>

fun pb_spec :: "pb_cmd \<Rightarrow> byte list list \<Rightarrow> byte list list \<Rightarrow> bool" where
  "pb_spec (Append p) l l' \<longleftrightarrow> l' = l @ segments p"
| "pb_spec Compact l l' \<longleftrightarrow> concat l' = concat l \<and> length l' \<le> length l"
| "pb_spec (Drop n) l l' \<longleftrightarrow> concat l' = drop n (concat l)"
| "pb_spec Pop l l' \<longleftrightarrow> l' = tl l"
| "pb_spec Free l l' \<longleftrightarrow> l' = tl l"
| "pb_spec Head l l' \<longleftrightarrow> l' = [hd l]"
| "pb_spec (Start i) l l' \<longleftrightarrow> (\<exists>d. l' = d # tl l \<and> (0 \<le> i \<longrightarrow> d = drop (nat i) (hd l)) \<and> (i < 0 \<longrightarrow> (\<exists>pre. d = pre @ hd l \<and> length pre \<le> nat (- i))))"
| "pb_spec (Length i n) l l' \<longleftrightarrow> (\<exists>d. l' = l[i := d] \<and> length d \<le> n \<and> take (length (l ! i)) d = take n (l ! i))"
| "pb_spec (Write lim bss) l l' \<longleftrightarrow> l' = [] \<or> l' = take (length (concat bss)) (hd l @ concat bss) # tl l"
| "pb_spec _ l l' \<longleftrightarrow> l' = l"

text \<open>The uses of null: of a null handle, of a null argument for a chain, and of a buffer that the chain does not have.\<close>

fun uses_null :: "pb_cmd \<Rightarrow> PacketBufferHandle \<Rightarrow> bool" where
  "uses_null (Append p) c \<longleftrightarrow> c \<noteq> [] \<and> p = []"
| "uses_null Shrink c \<longleftrightarrow> False"
| "uses_null Clone c \<longleftrightarrow> False"
| "uses_null (Length i n) c \<longleftrightarrow> length c \<le> i"
| "uses_null _ c \<longleftrightarrow> c = []"

definition reads_back :: "PacketBufferHandle \<Rightarrow> bool" where
  "reads_back c \<longleftrightarrow> c = [] \<or> (\<forall>n. PacketBuffer_Read n c =
     (if n \<le> length (chain_data c) then (CHIP_NO_ERROR, take n (chain_data c)) else (CHIP_ERROR_BUFFER_TOO_SMALL, [])))"

fun pb_run_ok :: "(nat \<Rightarrow> byte list option) \<Rightarrow> pb_cmd list \<Rightarrow> PacketBufferHandle \<Rightarrow> bool" where
  "pb_run_ok alloc [] c \<longleftrightarrow> handle_wf c \<and> reads_back c"
| "pb_run_ok alloc (k # ks) c \<longleftrightarrow> handle_wf c \<and> reads_back c \<and>
     (case pb_exec alloc k c of
        None \<Rightarrow> uses_null k c
      | Some c' \<Rightarrow> \<not> uses_null k c \<and> pb_spec k (segments c) (segments c') \<and> pb_run_ok alloc ks c')"

lemma handle_wf_parts: "handle_wf []" "handle_wf (b # rest) \<Longrightarrow> handle_wf rest" "handle_wf (b # rest) \<Longrightarrow> handle_wf [b\<lparr>pbTotLen := pbLen b\<rparr>]"
  by (simp_all add: handle_wf_def blocks_small_def pb_wf_def)

lemma handle_reads_back: "handle_wf c \<Longrightarrow> reads_back c"
  unfolding reads_back_def handle_wf_def using Read_ok [of c] by blast

lemma CompactHead_length: "length (CompactHead c) \<le> length c"
proof -
  have "length (CompactHead_loop a b c) \<le> Suc (length c)" for a b c
    by (induction a b c rule: CompactHead_loop.induct) (auto simp: Let_def intro: le_SucI)
  then show ?thesis
    by (cases c) (simp_all add: Let_def)
qed

lemma Writer_wf:
  assumes "handle_wf (b # rest)"
  shows "handle_wf (Finalize (fold PacketBufferWriter_Put bss (PacketBufferWriter (b # rest)))) \<and>
      pb_spec (Write None bss) (segments (b # rest)) (segments (Finalize (fold PacketBufferWriter_Put bss (PacketBufferWriter (b # rest)))))"
    "handle_wf (Finalize (fold PacketBufferWriter_Put bss (PacketBufferWriter_max (b # rest) n))) \<and>
      pb_spec (Write (Some n) bss) (segments (b # rest)) (segments (Finalize (fold PacketBufferWriter_Put bss (PacketBufferWriter_max (b # rest) n))))"
  using Finalize_wf [OF assms, of "AvailableDataLength b" bss] Finalize_wf [OF assms, of "min n (AvailableDataLength b)" bss]
  by (auto simp: PacketBufferWriter_def PacketBufferWriter_max_def split: if_splits)

context block_allocator
begin

lemma exec_refines:
  assumes "handle_wf c" "pb_cmd_ok k"
  shows "case pb_exec alloc k c of
      None \<Rightarrow> uses_null k c
    | Some c' \<Rightarrow> \<not> uses_null k c \<and> handle_wf c' \<and> pb_spec k (segments c) (segments c')"
proof (cases c)
  case Nil
  then show ?thesis
    using assms handle_wf_parts(1) by (cases k) (simp_all add: Handle_AddToEnd_def RightSize_def CloneData_def)
next
  case (Cons b rest)
  note wf = assms(1) [unfolded Cons]
  show ?thesis
  proof (cases k)
    case (Append p)
    then show ?thesis
      using assms AddToEnd_handle [OF assms(1)] Cons by (cases p) (simp_all add: Handle_AddToEnd_def)
  next
    case Compact
    have "concat (segments (CompactHead c)) = concat (segments c)" "handle_wf (CompactHead c)" "length (CompactHead c) \<le> length c"
      using CompactHead_wf(1-3) [of c] CompactHead_length [of c] assms(1) unfolding chain_data_segments handle_wf_def by blast+
    then show ?thesis
      using Compact Cons by (simp del: CompactHead.simps)
  next
    case (Drop n)
    have "concat (segments (Consume n c)) = drop n (concat (segments c))" "handle_wf (Consume n c)"
      using Consume_wf [of c n] assms(1) unfolding chain_data_segments handle_wf_def by blast+
    then show ?thesis
      using Drop Cons by (simp del: Consume.simps)
  next
    case (Reserve n)
    then show ?thesis
      using Reserve_wf [OF wf, of "u16 n" "fst (EnsureReservedSize (u16 n) b)"] Cons by simp
  next
    case (Align address n)
    then show ?thesis
      using Align_wf [OF wf, of address "u16 n"] Cons by simp
  next
    case Shrink
    then show ?thesis
      using RightSize_wf [OF assms(1)] Cons by simp
  next
    case Clone
    then show ?thesis
      using assms(1) CloneData_loop_wf [OF handle_wf_parts(1) assms(1)] by (cases "CloneData alloc c") (simp_all add: CloneData_def)
  next
    case Pop
    then show ?thesis
      using handle_wf_parts(2) [OF wf] Cons by (simp add: PopHead_def)
  next
    case Head
    then show ?thesis
      using handle_wf_parts(3) [OF wf] Cons by (simp add: PopHead_def)
  next
    case Free
    then show ?thesis
      using handle_wf_parts(2) [OF wf] Cons by (simp add: FreeHead_def)
  next
    case (Start i)
    then show ?thesis
      using SetStart_wf [OF wf, of i] Cons by auto
  next
    case (Length i n)
    then show ?thesis
      using SetDataLength_wf [OF assms(1), of i n] Cons by (cases "i < length c") (simp_all del: length_Cons)
  next
    case (Write lim bss)
    then show ?thesis
      using Writer_wf [OF wf, of bss] Cons by (cases lim) (simp_all del: pb_spec.simps)
  qed
qed

lemma run_ok:
  assumes "handle_wf c" "list_all pb_cmd_ok ks"
  shows "pb_run_ok alloc ks c"
  using assms
proof (induction ks arbitrary: c)
  case Nil
  then show ?case
    using handle_reads_back by simp
next
  case (Cons k ks)
  then show ?case
    using exec_refines [of c k] handle_reads_back [of c] by (auto split: option.splits)
qed

end

text \<open>A heap that refuses blocks above a limit.\<close>

definition limited_alloc :: "nat \<Rightarrow> nat \<Rightarrow> byte list option" where
  "limited_alloc limit n = (if n \<le> limit then Some (replicate n 0) else None)"

interpretation limited: block_allocator "limited_alloc limit" for limit
  by unfold_locales (auto simp: limited_alloc_def split: if_splits)

end
