(* ===== verification/Spec2Isabelle.thy ===== *)
theory Spec2Isabelle
  imports NvExample NvSearch RamStorage RouteHook RouteClock TlvEdits GroupTable GroupOutgoing MsgHeader PacketBuffer
begin

text \<open>
  A verification of storage, routing, encoding and message components of the Matter SDK.

  \<^bold>\<open>The program.\<close> The SDK runs the Matter protocol on small devices. Its platform layers keep the settings
  of a device in Flash or RAM and connect it to the IP stack of the vendor. The components
  modelled here are:

  \<^item> The NV driver of the TI platform, \<^verbatim>\<open>src/platform/ti/cc13xx_26xx/nvocmp.c\<close>: a log-structured item
    store on Flash pages. The key-value store of the platform calls the table of functions the driver
    publishes (read, write, create, update, delete, erase, compact, iterate). New items are appended
    to the active page, each followed by a header of seven bytes; the copy an item supersedes is then
    marked inactive by clearing one bit. A spare page takes the live items during compaction, and
    start-up inspects the page headers to recover from a loss of power.
  \<^item> The settings store of the NXP platforms, \<^verbatim>\<open>src/platform/nxp/common/ram_storage.c\<close>: packed blocks of
    fixed header, key and value in one RAM buffer, saved to a file when the system is idle.
  \<^item> The IPv6 route table of the ESP32 platform, \<^verbatim>\<open>src/platform/ESP32/route_hook/ESP32RouteTable.c\<close>, and
    the reception of router advertisements that fills it, \<^verbatim>\<open>ESP32RouteHook.c\<close>.
  \<^item> The TLV encoding of Matter messages, \<^verbatim>\<open>src/lib/core/TLVReader.cpp\<close> and \<^verbatim>\<open>TLVWriter.cpp\<close> with the types, tags and
    UTF-8 validation they use: the writer appends elements (a control byte, a tag, a length or value, data) to a
    buffer and keeps room for the ends of open containers; the reader walks over elements, enters and leaves
    containers, and checks what it reads from the network. The updater edits a document in place, and the
    utilities iterate over nested documents.
  \<^item> Parts of the message layer, \<^verbatim>\<open>src/transport\<close>: the headers of messages (\<^verbatim>\<open>raw/MessageHeader.cpp\<close>), the counters with which
    replayed messages are recognised (\<^verbatim>\<open>PeerMessageCounter.h\<close>, \<^verbatim>\<open>MessageCounter.h\<close>), the table with the counters of group
    senders, and the persistent counters of outgoing group messages (\<^verbatim>\<open>GroupPeerMessageCounter.cpp\<close>). The session
    manager takes the session and the counter from the header of a packet, decrypts the packet, and then verifies and commits the counter.
  \<^item> The packet buffers in which messages travel, \<^verbatim>\<open>src/system/SystemPacketBuffer.cpp\<close>.

  \<^bold>\<open>The theories.\<close>

  \<^item> \<open>Prelude\<close>: bytes, conversions to the unsigned types of C, lists. \<open>KvStore\<close>: the interface
    \<open>kv_store\<close> of a key-value store, with the lemmas on sequences of operations; both item stores are
    instances of it (\<^theory_text>\<open>sublocale\<close> in \<open>NvStore\<close> and \<open>RamStorage\<close>).
  \<^item> \<open>Nvs\<close>: constants, data and state of the NV driver (the record \<open>nv\<close> is
    \<^verbatim>\<open>NVOCMP_nvHandle_t\<close> with the static variables of the file and the Flash device) and
    the access to the device. The NVS device, the CRC function and the status codes are the record
    \<open>nvs_env\<close>; what the driver relies on is the locale \<open>nvs\<close> (and \<open>nor_flash\<close> for
    a device that does not fail), interpreted on the model \<open>nor_env\<close> of a NOR Flash.
  \<^item> \<open>NvItem\<close> (headers, CRC and data of items), \<open>NvPage\<close> (page headers, states, end of data, scan),
    \<open>NvCompact\<close> (compaction), \<open>NvFind\<close> (search, choice of a page, writing), \<open>NvInit\<close> (start-up
    and recovery), \<open>NvApi\<close> (the published functions) follow the sections of the source; a C function
    \<^verbatim>\<open>NVOCMP_f\<close> is the definition of the same name and its loops are the definitions named after it.
  \<^item> \<open>NvLayout\<close>: what the pages contain as lists of items, and what search, marking, choice of a
    page and writing do to the lists. \<open>NvStore\<close>: the API functions against the map of identifiers to
    values. \<open>NvBoot\<close> and \<open>NvRestart\<close>: erasing, formatting, and start-up on an image that a loss of power
    left behind. \<open>NvSearch\<close>: the search for items by identifier and contents. \<open>NvCopy\<close>, \<open>NvRound\<close> and \<open>NvCompacted\<close>: compaction for a request, that is, copying one page, one round
    of the loop with the marks and the erasing, and the loop with what is done before and after it. \<open>NvWrite\<close>: writes that
    compact first, and the driver as a key-value store whose invariant includes the conditions of compaction.
    \<open>NvExample\<close>: concrete states for the witnesses.
  \<^item> \<open>RamStorage\<close>: the buffer of the settings store, its operations with the mutex and the assertions,
    and their effect on the list of entries.
  \<^item> \<open>RouteTable\<close> and \<open>RouteHook\<close>: the linked list of routes with its timers, the lookups, and the parser
    of router advertisements. The services of lwIP are the locale \<open>lwip_services\<close>; \<open>RouteClock\<close> extends it by
    the times of the timers (\<open>lwip_clock\<close>) and follows one route until it expires.
  \<^item> \<open>TlvTypes\<close> (element types, tags, little-endian fields), \<open>Utf8\<close>, \<open>TlvReader\<close> and \<open>TlvWriter\<close>: the classes as
    records, a method \<^verbatim>\<open>TLVReader::m\<close> as \<open>TLVReader_m\<close>. \<open>TlvCodec\<close>: the encoding of one element, that the writer
    appends it and that the reader finds it. \<open>TlvEvents\<close>: documents as sequences of events, written and read back.
    \<open>TlvSpace\<close>: the room kept for the ends of containers. \<open>TlvCopy\<close>: skipping and copying whole elements.
    \<open>TlvSafety\<close>: the reader on arbitrary bytes. \<open>TlvQuery\<close>: counting, searching, getters, and failed writes.
    \<open>TlvIterate\<close>: \<^verbatim>\<open>TLVUtilities.cpp\<close>, the recursive iteration over nested elements, with documents as trees.
    \<open>TlvUpdater\<close>: \<^verbatim>\<open>TLVUpdater.cpp\<close>, a reader and a writer on one buffer, and its invariant. \<open>TlvEdits\<close>: scripts of
    the updater on nested documents.
  \<^item> \<open>ChipError\<close>: the error codes. \<open>MsgCounter\<close>: the replay windows and the local counters; the locale \<open>counter_filter\<close> says
    that a receiver decides like a reference on unbounded counters, with an interpretation for each of the three kinds of
    messages. \<open>SlotArray\<close>: arrays whose used elements are at the front. \<open>GroupPeers\<close> and \<open>GroupTable\<close>: the operations of
    the table of group senders, and that they refine a bounded map. \<open>GroupOutgoing\<close>: the persistent counters, on a storage
    whose two operations are parameters. \<open>MsgHeader\<close>: packet and payload headers.
  \<^item> \<open>PacketBuffer\<close>: buffers, chains and handles, with the locale \<open>block_allocator\<close> for the heap.

  \<^bold>\<open>What is shown.\<close> For the NV driver: each API function does to the map of stored values what its
  description promises (C2 to C5), sequences of operations refine a map (C6), both for values of which neither is a suffix of the
  one it replaces or the reverse and that are at most 16 bytes longer, since the comparison with the stored value is wrong on others (C12); compaction for
  a request keeps the map and finds room (C7), start-up restores the map,
  completes an interrupted replacement or formats a foreign Flash (C8 to C10), erasing
  empties it (\<open>erase_nv_empties\<close>); the search by identifier and contents equals a reference search and terminates (C11), the choice of a page
  is complete (\<open>dst_page_iff_room\<close>), and item headers are read back as written (\<open>item_header_roundtrip\<close>). C12,
  \<open>update_item_keeps_length\<close> and \<open>read_item_offset_wraps\<close> state departures from the description on boundary inputs. For the settings
  store: set, get and delete on every branch (C13, C14, \<open>ram_delete_entries\<close>), refinement of a map (C15), the behaviour
  with a simple mutex (C16) and with oversized values (\<open>ram_add_overflows\<close>). For routing: the lookups
  are longest matches on the whole bytes of prefixes (C17), timers never refer to removed entries (C18), a route is in the table until its lifetime has passed on the clock of lwIP, and no longer (C19), options
  are parsed as they were encoded (C20), any packet keeps the table well-formed (C21) except for the
  reads outside a packet shown in \<open>short_route_option_overread\<close>.
  For TLV: documents are read back as they were written (C22) and can be completed after any calls that put elements and start or end containers (C23), the reader
  stays inside its buffer on any input (C24), elements are copied with their contents (C25), integers are never
  truncated (\<open>tlv_integer_getters\<close>), UTF-8 validation is exact (C26), counting and searching agree with the list of elements (\<open>tlv_count_and_find\<close>), and
  the effect of failed writes is known (\<open>tlv_failed_put\<close>). The updater gives the edited document (C27) and never
  overtakes its own input (C28), except after a call of \<^verbatim>\<open>MoveUntilEnd\<close> in the wrong place (C29);
  counting and searching in documents up to the depth limit follow the preorder of the tree (C30).
  For messages: the window of a unicast session accepts what a reference with the whole history accepts, and nothing
  twice (C31); the same holds for group counters that roll over (C32); messages in order are never refused
  (C33); the group table refines a bounded map (C34) and keeps its senders apart (C35);
  outgoing group counters increase across restarts (C36) unless a write fails (\<open>outgoing_counter_reused\<close>); headers survive
  encoding and decoding in both directions (C37 to C39) and decoding stays inside the packet (C40). Packet buffers are
  well-formed chains that hold byte strings under all their operations, up to a use of a null handle (C1).

  \<^bold>\<open>Conventions.\<close> Unsigned variables of 8 and 16 bits that serve as offsets, lengths and
  identifiers are natural numbers, with the reduction written out (\<open>u8\<close>, \<open>u16\<close>, \<open>sub16\<close>) where the code may
  wrap around; bytes and CRC values are words. Memory the caller provides is a
  function or a list of bytes. A C function is a definition of the same name
  that returns its status and the new state; a loop is a recursive function. Loops that the stored data may keep
  running (the search for items, compaction, the loops over RAM blocks) are partial functions in
  the option monad, \<open>None\<close> standing for a loop that does not end, and their termination on well-formed
  data is part of the theorems. All other loops are total. The only bound passed to a loop is that of \<open>page_range\<close>, the number of pages plus one, which
  is never exceeded. The TLV reader and writer have counters
  of 32 bits; theorems on the writer ask for buffers below 2 GB, where the sums do not wrap around.

  \<^bold>\<open>Not modelled.\<close> The NV driver is modelled in the configuration of twelve pages at most with
  \<^verbatim>\<open>NVOCMP_NWSAMEITEM\<close> and \<^verbatim>\<open>FASTOFF\<close>; its variants for one or two pages, the RAM optimisation, the migration
  of older formats and the diagnostics are other builds. The theorems on single calls ask for room on some page, that on sequences of writes and deletions also
  covers writes that compact first; compaction is proved for the case of a request, not for a compaction of all pages
  (\<^verbatim>\<open>NVOCMP_compactNvApi\<close> and the recovery). Interrupts, the
  locking of the NV driver and the core lock of lwIP are not represented: operations
  are atomic. The TLV classes are modelled on a contiguous buffer, without a backing store; floating point
  values are bit patterns, and the allocator and \<^verbatim>\<open>vsnprintf\<close> are parameters. The remaining C++ subsystems, the other platform
  layers, generated code and applications are outside the development.

  \<^bold>\<open>Plan.\<close> Next: the iteration of \<^verbatim>\<open>NVOCMP_doNextApi\<close>; the image on Flash after every
  prefix of the writes of an operation restores either the old or the new map. For TLV: the reader and
  the writer on chains of buffers (\<^verbatim>\<open>TLVBackingStore\<close>, the circular buffer).
\<close>

section \<open>The NV driver as a key-value store\<close>

text \<open>
  C2. \<^verbatim>\<open>NVOCMP_writeItemApi\<close> stores: on a healthy device, in a well-formed state with room on some
  page, a write of an identifier returns success, keeps the invariant, and changes the store to exactly the
  update of that identifier. The buffer is the caller's memory, of which the first bytes are taken. A value that replaces another one must be equal to it,
  or neither of the two may be a suffix of the other and the new one may be at most 16 bytes longer: the comparison with the stored value starts at the
  header offset minus the new length, so that a suffix passes for the same value, and a much longer value starts before the page data or wraps around in 16 bits.
\<close>

theorem write_item_stores:
  assumes "nor_flash E" and "nv_inv E s" and "valid_id i" and "nv_fits E s i (map buf [0..<n])"
  shows "\<exists>s'. NVOCMP_writeItemApi E i n (Some buf) s = Some (NVINTF_SUCCESS E, s') \<and> nv_inv E s' \<and>
    nv_map E s' = (nv_map E s)(id_of i \<mapsto> map buf [0..<n])"
  by (rule nor_flash.nv_write_ok [OF assms])

theorem write_item_stores_witness:
  "\<exists>s'. NVOCMP_writeItemApi nor_env ex_id 3 (Some (\<lambda>j. of_nat j)) ex_empty = Some (0, s') \<and>
    nv_inv nor_env s' \<and> nv_map nor_env s' = [id_of ex_id \<mapsto> [0, 1, 2]]"
  using write_item_stores [OF norf.nor_flash_axioms ex_empty_inv ex_id_valid ex_fits [of "map of_nat [0..<3]"]]
  by (simp add: ex_empty_map nor_codes upt_rec)

text \<open>
  C3. \<^verbatim>\<open>NVOCMP_readItemApi\<close> reads the store: it returns for every well-formed state, leaves the state
  unchanged, and gives the requested part of the value, or the error the code documents: not found,
  a length larger than the value, or a part outside the value. The offset is below 63488, so that the
  16 bit sum with an offset in a page does not wrap around.
\<close>

theorem read_item_reads:
  assumes "nvs E" and "nv_inv E s" and "valid_id i" and "0 < n" and "n \<le> NVOCMP_MAXLEN" and "ofs < 63488"
  shows "NVOCMP_readItemApi E i ofs n False s =
    Some (case nv_map E s (id_of i) of
            None \<Rightarrow> (NVINTF_NOTFOUND E, [], s)
          | Some d \<Rightarrow>
              if ofs + n \<le> length d then (NVINTF_SUCCESS E, take n (drop ofs d), s)
              else (if length d < n then NVINTF_BADLENGTH E else NVINTF_BADOFFSET E, [], s))"
  unfolding nv_map_def
  by (rule nvs.readItemApi_wf [OF assms(1) nvs.nv_inv_wf [OF assms(1,2)] assms(3-6)])

theorem read_item_reads_witness:
  "NVOCMP_readItemApi nor_env ex_id 1 2 False ex_state = Some (0, [2, 3], ex_state)"
  using read_item_reads [OF nor.nvs_axioms ex_state_props(2) ex_id_valid, of 2 1]
  by (simp add: ex_state_props nor_codes ex_val_def)

text \<open>
  C4. \<^verbatim>\<open>NVOCMP_deleteItemApi\<close> removes: it returns success when the identifier was stored and not found
  otherwise, and in both cases the store has no value for it afterwards and all other values are kept.
\<close>

theorem delete_item_removes:
  assumes "nor_flash E" and "nv_inv E s" and "valid_id i"
  shows "\<exists>s'. NVOCMP_deleteItemApi E i s =
      Some (if nv_map E s (id_of i) = None then NVINTF_NOTFOUND E else NVINTF_SUCCESS E, s') \<and>
    nv_inv E s' \<and> nv_map E s' = (nv_map E s)(id_of i := None)"
proof -
  have v: "nvs E" using assms(1) by (simp add: nor_flash_def)
  show ?thesis
    using nor_flash.deleteItemApi_wf [OF assms(1) nvs.nv_inv_wf [OF v assms(2)] assms(3)] nvs.nv_wf_inv [OF v]
    unfolding nv_map_def by metis
qed

theorem delete_item_removes_witness:
  "\<exists>s'. NVOCMP_deleteItemApi nor_env ex_id ex_state = Some (0, s') \<and> nv_map nor_env s' = Map.empty"
  using delete_item_removes [OF norf.nor_flash_axioms ex_state_props(2) ex_id_valid]
  by (auto simp: ex_state_props nor_codes)

text \<open>
  C5. \<^verbatim>\<open>NVOCMP_createItemApi\<close>: a new identifier is stored with the first bytes of the buffer; an identifier that
  is stored is reported as existing and its value is kept.
\<close>

theorem create_item_creates:
  assumes "nor_flash E" and "nv_inv E s" and "valid_id i" and "0 < n" and "n \<le> NVOCMP_MAXLEN"
    and "nv_map E s (id_of i) = None \<Longrightarrow> has_room E s (7 + n)"
  shows "\<exists>s'. NVOCMP_createItemApi E i n (Some buf) s =
      Some (if nv_map E s (id_of i) = None then NVINTF_SUCCESS E else NVINTF_EXIST E, s') \<and> nv_inv E s' \<and>
    nv_map E s' = (if nv_map E s (id_of i) = None then (nv_map E s)(id_of i \<mapsto> map buf [0..<n]) else nv_map E s)"
proof -
  have v: "nvs E" using assms(1) by (simp add: nor_flash_def)
  show ?thesis
    using nor_flash.createItemApi_wf [OF assms(1) nvs.nv_inv_wf [OF v assms(2)] assms(3-5), of buf] assms(6)
      nvs.nv_wf_inv [OF v]
    unfolding nv_map_def by metis
qed

theorem create_item_creates_witness:
  "\<exists>s'. NVOCMP_createItemApi nor_env ex_id 2 (Some (\<lambda>j. 7)) ex_state = Some (13, s') \<and>
    nv_map nor_env s' = [id_of ex_id \<mapsto> ex_val]"
  using create_item_creates [OF norf.nor_flash_axioms ex_state_props(2) ex_id_valid, of 2 "\<lambda>j. 7"]
  by (auto simp: ex_state_props nor_codes)

text \<open>
  C6. Refinement over sequences, with compaction: in a state from which compaction works, a sequence of writes and
  deletions succeeds and changes the store as the same sequence of updates and removals changes a map, provided that
  each write has room when its turn comes, on some page as it is or after compaction of a page with an inactive
  item, and that each value that replaces a different one is not a suffix of it, does not have it as a suffix, and is at most 16 bytes longer.
  The conditions under which compaction works are kept.
\<close>

theorem nv_commands_refine:
  assumes "nor_flash E" and "nv_ready E s" and "kv_store.all_enabled valid_id (nv_storable E) (nv_put E) (nv_del E) s cs"
  shows "\<exists>s'. kv_store.run (nv_put E) (nv_del E) cs s = Some s' \<and> nv_ready E s' \<and>
    (\<lambda>i. nv_map E s' (id_of i)) = fold kv_apply cs (\<lambda>i. nv_map E s (id_of i))"
  by (rule nor_flash.commands_refine [OF assms])

theorem nv_commands_refine_witness:
  "\<exists>s'. kv_store.run (nv_put nor_env) (nv_del nor_env) [Put ex_id [9], Del ex_id]
      (ex_dirty [(ex_item [1, 2])\<lparr>it_active := False\<rparr>, ex_item [3]]) = Some s' \<and> nv_ready nor_env s' \<and>
    (\<forall>i. nv_map nor_env s' (id_of i) = None)"
proof -
  let ?s = "ex_dirty [(ex_item [1, 2])\<lparr>it_active := False\<rparr>, ex_item [3]]"
  have ready: "nv_ready nor_env ?s"
    using ex_dirty_two(1) ex_dirty_compactable by (simp add: nv_ready_def)
  have fits: "nv_storable nor_env ?s ex_id [9]"
    using ex_dirty_two(2) ex_dirty_two(3) [of 8] by (simp add: nv_storable_def suffix_def Cons_eq_append_conv)
  obtain s1 where s1: "nv_put nor_env ex_id [9] ?s = Some s1" "nv_ready nor_env s1"
    using norf.nv_put_ready [OF ready ex_id_valid fits] by auto
  have "norf.nv.all_enabled ?s [Put ex_id [9], Del ex_id]"
    using s1 norf.nv_del_ready [OF s1(2) ex_id_valid] ex_id_valid fits by auto
  from nv_commands_refine [OF norf.nor_flash_axioms ready this] show ?thesis
    by (auto simp: ex_dirty_two(2) fun_eq_iff id_of_inj split: if_splits)
qed

text \<open>
  C7. Compaction loses nothing and makes room: for a request of some bytes, \<^verbatim>\<open>NVOCMP_compactPage\<close> returns
  (its loop ends), keeps the invariant of the store and the conditions under which it works, and the store is the
  same map as before. A result of at least the requested bytes means that some page has room for them, and the
  result is at least that when there is a page, with the mark of an inactive item, whose active items leave the room.
\<close>

theorem compaction_keeps_items:
  assumes "nor_flash E" and "nv_inv E s" and "compactable E s" and "n \<noteq> 0"
  shows "\<exists>r s'. NVOCMP_compactPage E n s = Some (r, s') \<and> nv_inv E s' \<and> compactable E s' \<and> nv_map E s' = nv_map E s \<and>
    (int n \<le> r \<longrightarrow> has_room E s' n) \<and> (room_after E s (parsed E s) n \<longrightarrow> int n \<le> r)"
proof -
  have v: "nvs E" using assms(1) by (simp add: nor_flash_def)
  obtain r s' L' where "NVOCMP_compactPage E n s = Some (r, s')" "nv_wf E s' L'" "compactable E s'"
    "layout_map s' L' = nv_map E s" "int n \<le> r \<longrightarrow> has_room E s' n" "room_after E s (parsed E s) n \<longrightarrow> int n \<le> r"
    unfolding nv_map_def using nor_flash.compactPage_wf [OF assms(1) nvs.nv_inv_wf [OF v assms(2)] assms(3,4)] by metis
  then show ?thesis using nvs.nv_wf_inv [OF v] by metis
qed

theorem compaction_keeps_items_witness:
  "\<exists>r s'. NVOCMP_compactPage nor_env 2000 (ex_dirty [(ex_item [1, 2])\<lparr>it_active := False\<rparr>, ex_item [3]]) = Some (r, s') \<and>
    nv_inv nor_env s' \<and> nv_map nor_env s' = [id_of ex_id \<mapsto> [3]] \<and> has_room nor_env s' 2000 \<and> 2000 \<le> r"
  using compaction_keeps_items [OF norf.nor_flash_axioms ex_dirty_two(1) ex_dirty_compactable, of 2000] ex_dirty_two(2)
    ex_dirty_two(3) [of 2000] by auto

text \<open>
  C8. A store survives a restart: when the power is lost while the driver is idle, so that only the Flash remains,
  \<^verbatim>\<open>NVOCMP_initNvApi\<close> finds the destination page \<open>t\<close>, the active page \<open>a\<close> and the items again and resumes with
  exactly the values stored before. The last item on the active page, if it was deleted, has no other value.
\<close>

theorem restart_restores:
  assumes "nor_flash E" and "boot_env_ok E" and "failF s = NVINTF_NOTREADY E" and "volt_ok s"
    and "boot_image E s L t a" and "ids_distinct (boot_geo E s t) L"
    and "L a \<noteq> [] \<Longrightarrow> \<not> it_active (last (L a)) \<Longrightarrow> layout_map (boot_geo E s t) L (it_id (last (L a))) = None"
  shows "\<exists>s'. NVOCMP_initNvApi E s = Some (NVINTF_SUCCESS E, s') \<and> nv_inv E s' \<and>
    nv_map E s' = layout_map (boot_geo E s t) L"
proof -
  have a: "a < nvSize (boot_geo E s t)" "a \<noteq> tailPage (boot_geo E s t)" using assms(5) by (auto simp: boot_image_def)
  note r = resumed_intact [OF assms(6) a assms(7)]
  show ?thesis using nor_flash.init_resumes [OF assms(1-5) r(1)] r(2) by simp
qed

theorem restart_restores_witness:
  "\<exists>s'. NVOCMP_initNvApi nor_env (ex_lost [ex_item [1, 2]]) = Some (0, s') \<and>
    nv_map nor_env s' = [(10, 4, 1) \<mapsto> [1, 2]]"
proof -
  let ?its = "[ex_item [1, 2]]" let ?g = "boot_geo nor_env (ex_lost ?its) 11"
  have im: "boot_image nor_env (ex_lost ?its) (ex_items 0 ?its) 11 0"
    by (rule ex_lost_image) (simp_all add: ex_item_def item_ok_def item_size_def)
  have live: "live_items ?g (ex_items 0 ?its) = ?its" by (simp only: ex_live) (simp add: ex_item_def)
  have "ids_distinct ?g (ex_items 0 ?its)" unfolding ids_distinct_def live by simp
  moreover have "it_active (last (ex_items 0 ?its 0))" by (simp add: ex_items_def ex_item_def)
  moreover have "layout_map ?g (ex_items 0 ?its) = [(10, 4, 1) \<mapsto> [1, 2]]"
    unfolding layout_map_def live by (simp add: ex_item_def it_id_def)
  ultimately show ?thesis
    using restart_restores [OF norf.nor_flash_axioms ex_boot_env ex_lost_ready im] by (auto simp: nor_codes)
qed

text \<open>
  C9. Crash recovery: when the power is lost after a new value of an item was written and before the old one was
  marked inactive, the item on the active page that was written last counts: the driver marks the older item
  with the same identifier, and the store is the old one updated with the new value.
\<close>

theorem restart_completes_replacement:
  assumes "nor_flash E" and "boot_env_ok E" and "failF s = NVINTF_NOTREADY E" and "volt_ok s"
    and "boot_image E s L t a" and "L a = xs @ [it]" and "it_active it" and "ids_distinct (boot_geo E s t) (L(a := xs))"
  shows "\<exists>s'. NVOCMP_initNvApi E s = Some (NVINTF_SUCCESS E, s') \<and> nv_inv E s' \<and>
    nv_map E s' = (layout_map (boot_geo E s t) (L(a := xs)))(it_id it \<mapsto> it_data it)"
proof -
  have "resumable (boot_geo E s t) L a" using assms(6-8) by (simp add: resumable_def)
  from nor_flash.init_resumes [OF assms(1-5) this] show ?thesis
    using assms(6,7) by (simp add: resumed_map_def Let_def)
qed

theorem restart_completes_replacement_witness:
  "\<exists>s'. NVOCMP_initNvApi nor_env (ex_lost [ex_item [1, 2], ex_item [3]]) = Some (0, s') \<and>
    nv_map nor_env s' = [(10, 4, 1) \<mapsto> [3]]"
proof -
  let ?its = "[ex_item [1, 2], ex_item [3]]" let ?g = "boot_geo nor_env (ex_lost ?its) 11"
  have im: "boot_image nor_env (ex_lost ?its) (ex_items 0 ?its) 11 0"
    by (rule ex_lost_image) (simp_all add: ex_item_def item_ok_def item_size_def)
  have upd: "(ex_items 0 ?its)(0 := [ex_item [1, 2]]) = ex_items 0 [ex_item [1, 2]]" by (auto simp: ex_items_def)
  have live: "live_items ?g (ex_items 0 [ex_item [1, 2]]) = [ex_item [1, 2]]" by (simp only: ex_live) (simp add: ex_item_def)
  have d: "ids_distinct ?g ((ex_items 0 ?its)(0 := [ex_item [1, 2]]))" unfolding upd ids_distinct_def live by simp
  have last: "ex_items 0 ?its 0 = [ex_item [1, 2]] @ [ex_item [3]]" "it_active (ex_item [3])"
    by (simp_all add: ex_items_def ex_item_def)
  have "layout_map ?g ((ex_items 0 ?its)(0 := [ex_item [1, 2]])) = [(10, 4, 1) \<mapsto> [1, 2]]"
    unfolding upd layout_map_def live by (simp add: ex_item_def it_id_def)
  then show ?thesis
    using restart_completes_replacement [OF norf.nor_flash_axioms ex_boot_env ex_lost_ready im last d]
    by (auto simp: nor_codes) (auto simp: ex_item_def it_id_def)
qed

text \<open>
  C10. A Flash that holds no page with a valid header is formatted: start-up erases every page and gives an empty store.
\<close>

theorem init_formats_foreign_flash:
  assumes "nor_flash E" and "boot_env_ok E" and "failF s = NVINTF_NOTREADY E" and "volt_ok s"
    and "\<And>p. p < boot_size E \<Longrightarrow> \<not> hdr_valid E s p"
  shows "\<exists>s'. NVOCMP_initNvApi E s = Some (NVINTF_SUCCESS E, s') \<and> nv_inv E s' \<and> nv_map E s' = Map.empty"
  by (rule nor_flash.init_formats [OF assms])

theorem init_formats_foreign_flash_witness:
  "\<exists>s'. NVOCMP_initNvApi nor_env (ex_empty\<lparr>failF := 3, flash := (\<lambda>a. 0)\<rparr>) = Some (0, s') \<and>
    nv_map nor_env s' = Map.empty"
proof -
  let ?s = "ex_empty\<lparr>failF := 3, flash := (\<lambda>a. 0 :: byte)\<rparr>"
  have "\<not> hdr_valid nor_env ?s p" for p
    unfolding hdr_valid_def norf.readPageHdr_eq by (simp add: fbytes_def upt_4 pageHdr_of_def known_state_def Let_def)
  moreover have "failF ?s = NVINTF_NOTREADY nor_env" "volt_ok ?s" by (simp_all add: nor_codes ex_empty_def volt_ok_def)
  ultimately show ?thesis
    using init_formats_foreign_flash [OF norf.nor_flash_axioms ex_boot_env, of ?s] by (auto simp: nor_codes)
qed

text \<open>
  \<^verbatim>\<open>NVOCMP_eraseNvApi\<close> empties the store: all pages are erased, given fresh headers, and the driver is
  ready for writes again.
\<close>

theorem erase_nv_empties:
  assumes "nor_flash E" and "geometry_ok E s" and "volt_ok s" and "failF s = NVINTF_SUCCESS E"
  shows "\<exists>s'. NVOCMP_eraseNvApi E s = (NVINTF_SUCCESS E, s') \<and> nv_inv E s' \<and> nv_map E s' = Map.empty"
  by (rule nor_flash.eraseNvApi_ok [OF assms])

theorem erase_nv_empties_witness:
  "\<exists>s'. NVOCMP_eraseNvApi nor_env ex_empty = (0, s') \<and> nv_map nor_env s' = Map.empty"
proof -
  have "geometry_ok nor_env ex_empty" "volt_ok ex_empty" "failF ex_empty = NVINTF_SUCCESS nor_env"
    by (simp_all add: geometry_ok_def ex_empty_def volt_ok_def nor_env_def)
  from erase_nv_empties [OF norf.nor_flash_axioms this] show ?thesis by (auto simp: nor_codes)
qed

text \<open>Two items that differ in the last part of the identifier, and a search for the byte 9 at offset 1.\<close>

definition ex_two :: "nv_item list" where
  "ex_two = [ex_item [8, 9, 7], (ex_item [8, 5])\<lparr>it_subid := 2\<rparr>]"

definition ex_info :: NVOCMP_itemInfo_t where
  "ex_info = \<lparr>cBuf = [9], coff = 1, rBuf = (\<lambda>_. 0), rlength = 2\<rparr>"

text \<open>
  C11. \<^verbatim>\<open>NVOCMP_findItem\<close> is the reference search: on pages that hold item lists, for the four ways of comparing identifiers (any item, the same
  identifier, the same system, the same system and item) and with or without a search for contents (\<^verbatim>\<open>NVOCMP_FINDCONTENT\<close> with an item info whose compared
  bytes lie in the bytes that are read), the backwards scan of the headers on the pages from the active one on terminates, leaves the
  state unchanged and returns the header of the newest active item that matches, or not found. A search for contents accepts the items that are long
  enough and hold the given bytes at the given offset; it changes only the buffer of the item info, which has the first bytes of the item that is found.
\<close>

theorem find_item_is_newest_match:
  assumes "nvs E" and "nv_inv E s" and "hdr_ok h" and "flag AND 0x0F \<le> 3" and "info_ok info"
  shows "let found = find_in s (parsed E s) (\<lambda>it. item_matches flag h it \<and> info_matches flag info it) (nvSize s) (actPage s) (parsed E s (actPage s))
    in \<exists>info'. NVOCMP_findItem E (actPage s) (actOffset s) h flag info s =
      Some (case found of
              None \<Rightarrow> (NVINTF_NOTFOUND E, h\<lparr>hofs := 0\<rparr>, info', s)
            | Some (q, xs, it) \<Rightarrow> (NVINTF_SUCCESS E, stored_hdr E q (hdr_ofs xs it) it, info', s)) \<and>
      info_result flag info (map_option (\<lambda>(q, xs, it). it) found) info'"
  using nvs.findItem_contents [OF assms refl] by (simp add: Let_def)

theorem find_item_is_newest_match_witness:
  "\<exists>r. NVOCMP_findItem nor_env 0 (actOffset (ex_running ex_two)) (req_hdr ex_id 0) (NVOCMP_FINDITMID OR NVOCMP_FINDCONTENT) (Some ex_info) (ex_running ex_two) =
      Some (0, stored_hdr nor_env 0 19 (ex_item [8, 9, 7]), Some (ex_info\<lparr>rBuf := r\<rparr>), ex_running ex_two) \<and> map r [0..<2] = [8, 9]"
proof -
  let ?s = "ex_running ex_two" and ?h = "req_hdr ex_id 0" and ?f = "NVOCMP_FINDITMID OR NVOCMP_FINDCONTENT"
  let ?P = "\<lambda>it. item_matches ?f ?h it \<and> info_matches ?f (Some ex_info) it"
  have wf: "nv_wf nor_env ?s (ex_items 0 ex_two)"
    by (rule ex_running_wf) (simp_all add: ex_two_def ex_item_def item_ok_def item_size_def it_id_def)
  have "parsed nor_env ?s 0 = ex_two"
    using nor.parse_items_at [OF pages_wfD [OF nv_wfD(2) [OF wf], unfolded page_wf_def, THEN conjunct1, of 0]]
    by (simp add: parsed_def ex_running_simps ex_items_def)
  moreover have "newest ?P ex_two = Some ([], ex_item [8, 9, 7])"
  proof -
    have "newest P [a, b] = (if P b then Some ([a], b) else if P a then Some ([], a) else None)" for P a b
      using newest_snoc [of P "[a]" b] newest_snoc [of P "[]" a] by (simp add: newest_def)
    moreover have "?P (ex_item [8, 9, 7])" "\<not> ?P ((ex_item [8, 5])\<lparr>it_subid := 2\<rparr>)"
      by (simp_all add: item_matches_def info_matches_def ex_item_def ex_info_def req_hdr_def ex_id_def)
    ultimately show ?thesis
      by (simp only: ex_two_def if_True if_False simp_thms)
  qed
  ultimately have f: "find_in ?s (parsed nor_env ?s) ?P 12 0 (parsed nor_env ?s 0) = Some (0, [], ex_item [8, 9, 7])"
    using find_in.simps(2) [of ?s "parsed nor_env ?s" ?P 11 0 "parsed nor_env ?s 0"] by (simp add: ex_running_simps)
  have ok: "?f AND 0x0F \<le> 3" "info_ok (Some ex_info)"
    by (simp_all add: info_ok_def ex_info_def)
  show ?thesis
    using find_item_is_newest_match [OF nor.nvs_axioms nor.nv_wf_inv(1) [OF wf] hdr_ok_req [OF ex_id_valid] ok, of 0] f
    by (auto simp: ex_running_simps(1,3) nor_codes info_result_def hdr_ofs_def ex_info_def) (auto simp: ex_item_def)
qed

text \<open>
  \<^verbatim>\<open>NVOCMP_getDstPage\<close> finds room exactly when there is some: it returns the null page only when no page other than the
  destination page can take the item without compaction; otherwise the page it returns is active and has room.
  In both cases the invariant and the contents are kept.
\<close>

theorem dst_page_iff_room:
  assumes "nor_flash E" and "nv_inv E s"
  shows "case NVOCMP_getDstPage E n s of (pg, s') \<Rightarrow>
    (pg = NVOCMP_NULLPAGE \<longleftrightarrow> \<not> has_room E s n) \<and>
    (has_room E s n \<longrightarrow> pg = actPage s' \<and> page_state E s' pg = NVOCMP_PGACT \<and> offset_of s' pg + n \<le> FLASH_PAGE_SIZE) \<and>
    nv_inv E s' \<and> nv_map E s' = nv_map E s"
proof -
  have v: "nvs E" using assms(1) by (simp add: nor_flash_def)
  note wf = nvs.nv_inv_wf [OF v assms(2)]
  obtain r s' where r: "NVOCMP_getDstPage E n s = (r, s')" "driver_wf E s'" "pages_wf E s' (parsed E s)" "same_geo s s'"
    "r = NVOCMP_NULLPAGE \<longleftrightarrow> \<not> has_room E s n" "has_room E s n \<Longrightarrow> r = actPage s'"
    "has_room E s n \<Longrightarrow> page_state E s' r = NVOCMP_PGACT" "has_room E s n \<Longrightarrow> offset_of s' r + n \<le> FLASH_PAGE_SIZE"
    using nor_flash.getDstPage_spec [OF assms(1) nv_wfD(1,2) [OF wf]] by blast
  note wf' = nv_wf_geo [OF wf r(2-4)]
  show ?thesis
    using r(1,5-8) nvs.nv_wf_inv [OF v wf'(1)] wf'(2) by (simp add: nv_map_def)
qed

theorem dst_page_iff_room_witness:
  "fst (NVOCMP_getDstPage nor_env 100 ex_empty) \<noteq> NVOCMP_NULLPAGE"
  using dst_page_iff_room [OF norf.nor_flash_axioms ex_empty_inv, of 100] ex_room [of 100] by (auto split: prod.splits)

text \<open>
  The item header is read as it was written: expanding the seven bytes that \<^verbatim>\<open>NVOCMP_writeItem\<close> packs from the
  identifiers, the length, the CRC and the status bits gives the same fields back, for every item within the limits
  of the format.
\<close>

theorem item_header_roundtrip:
  assumes "item_ok it"
  shows "expandHdr pg ofs (enc_hdr E it) = stored_hdr E pg ofs it"
  by (rule expandHdr_enc [OF assms])

theorem item_header_roundtrip_witness:
  "expandHdr 3 40 (enc_hdr nor_env (ex_item [1, 2])) = stored_hdr nor_env 3 40 (ex_item [1, 2])"
  by (rule item_header_roundtrip) (simp add: ex_item_def item_ok_def)

text \<open>
  C12. A write that is dropped: when the new value is a proper suffix of the stored one, \<^verbatim>\<open>NVOCMP_writeItemApi\<close> compares
  the new bytes with the last bytes of the old value, takes the item for unchanged, returns success, and the store
  keeps the old, longer value.
\<close>

theorem suffix_write_dropped:
  assumes "nor_flash E" and "nv_inv E s" and "valid_id i" and "0 < n" and "n \<le> NVOCMP_MAXLEN"
    and "has_room E s (7 + n)" and "nv_map E s (id_of i) = Some d" and "suffix (map buf [0..<n]) d"
  shows "\<exists>s'. NVOCMP_writeItemApi E i n (Some buf) s = Some (NVINTF_SUCCESS E, s') \<and> nv_inv E s' \<and>
    nv_map E s' = nv_map E s"
proof -
  have v: "nvs E" using assms(1) by (simp add: nor_flash_def)
  show ?thesis
    using nor_flash.writeItemApi_suffix [OF assms(1) nvs.nv_inv_wf [OF v assms(2)] assms(3-6) assms(7)[unfolded nv_map_def] assms(8)]
      nvs.nv_wf_inv [OF v] unfolding nv_map_def by metis
qed

theorem suffix_write_dropped_witness:
  "\<exists>s'. NVOCMP_writeItemApi nor_env ex_id 1 (Some (\<lambda>j. 9)) (ex_running [ex_item [8, 9]]) = Some (0, s') \<and>
    nv_map nor_env s' = [id_of ex_id \<mapsto> [8, 9]]"
proof -
  let ?s = "ex_running [ex_item [8, 9]]"
  have r: "nv_inv nor_env ?s" "nv_map nor_env ?s = [id_of ex_id \<mapsto> [8, 9]]" "has_room nor_env ?s (7 + 1)"
    by (rule ex_running_one; simp)+
  have "suffix (map (\<lambda>j. 9 :: byte) [0..<1]) [8, 9]" by (simp add: suffix_def)
  then show ?thesis
    using suffix_write_dropped [OF norf.nor_flash_axioms r(1) ex_id_valid _ _ r(3), of "[8, 9]" "\<lambda>j. 9"] r(2)
    by (auto simp: nor_codes)
qed

text \<open>
  \<^verbatim>\<open>NVOCMP_updateItemApi\<close> keeps the old length: whatever length the caller passes, the new value has as many bytes
  of the buffer as the old value had.
\<close>

theorem update_item_keeps_length:
  assumes "nor_flash E" and "nv_inv E s" and "valid_id i" and "0 < n" and "n \<le> NVOCMP_MAXLEN"
    and "nv_map E s (id_of i) = Some d" and "has_room E s (7 + length d)"
  shows "\<exists>s'. NVOCMP_updateItemApi E i n (Some buf) s = Some (NVINTF_SUCCESS E, s') \<and> nv_inv E s' \<and>
    nv_map E s' = (nv_map E s)(id_of i \<mapsto> map buf [0..<length d])"
proof -
  have v: "nvs E" using assms(1) by (simp add: nor_flash_def)
  show ?thesis
    using nor_flash.updateItemApi_wf [OF assms(1) nvs.nv_inv_wf [OF v assms(2)] assms(3-5) assms(6)[unfolded nv_map_def] assms(7)]
      nvs.nv_wf_inv [OF v] unfolding nv_map_def by metis
qed

theorem update_item_keeps_length_witness:
  "\<exists>s'. NVOCMP_updateItemApi nor_env ex_id 1 (Some (\<lambda>j. 5)) (ex_running [ex_item [8, 9]]) = Some (0, s') \<and>
    nv_map nor_env s' = [id_of ex_id \<mapsto> [5, 5]]"
proof -
  let ?s = "ex_running [ex_item [8, 9]]"
  have r: "nv_inv nor_env ?s" "nv_map nor_env ?s = [id_of ex_id \<mapsto> [8, 9]]" "has_room nor_env ?s (7 + length [8, 9 :: byte])"
    by (rule ex_running_one; simp)+
  show ?thesis
    using update_item_keeps_length [OF norf.nor_flash_axioms r(1) ex_id_valid _ _ _ r(3), of 1 "\<lambda>j. 5"] r(2)
    by (auto simp: nor_codes upt_rec)
qed

text \<open>
  The 16 bit sum in \<^verbatim>\<open>NVOCMP_readItem\<close> wraps around: an offset of 65536 - k passes the bounds check and reads
  bytes that lie before the item, those of other items or of the page header.
\<close>

theorem read_item_offset_wraps:
  assumes "nvs E" and "item_at E s pg ofs it" and "ofs + item_size it \<le> 2048" and "0 < k" and "k \<le> ofs"
    and "n \<le> k + length (it_data it)"
  shows "NVOCMP_readItem E s (stored_hdr E pg (ofs + length (it_data it)) it) (65536 - k) n =
    (NVINTF_SUCCESS E, fbytes E s pg (ofs - k) (ofs - k + n))"
  by (rule nvs.readItem_wrap [OF assms refl])

theorem read_item_offset_wraps_witness:
  "NVOCMP_readItem nor_env (ex_running [ex_item [8, 9]]) (stored_hdr nor_env 0 18 (ex_item [8, 9])) 65520 4 =
    (0, fbytes nor_env (ex_running [ex_item [8, 9]]) 0 0 4)"
proof -
  let ?s = "ex_running [ex_item [8, 9]]"
  have "nv_wf nor_env ?s (ex_items 0 [ex_item [8, 9]])"
    by (rule ex_running_wf) (simp_all add: ex_item_def item_ok_def item_size_def)
  then have "page_wf nor_env ?s 0 [ex_item [8, 9]]"
    using pages_wfD [OF nv_wfD(2)] by (fastforce simp: ex_running_simps(1,2) ex_items_def)
  then have "item_at nor_env ?s 0 16 (ex_item [8, 9])"
    using items_at_snoc [of nor_env ?s 0 "[]"] by (simp add: page_wf_def)
  from read_item_offset_wraps [OF nor.nvs_axioms this, of 16 4] show ?thesis
    by (simp add: ex_item_def item_size_def nor_codes)
qed

section \<open>The settings store in RAM\<close>

text \<open>A buffer of 200 bytes, empty or with one entry, with a mutex that counts.\<close>

definition rs_empty :: "nat ramBufferDescriptor" where
  "rs_empty = \<lparr>ramBufferLen = 0, ramBufferMaxLen = 200, pRamBuffer = replicate 200 0, mRamStorageMutexId = 0\<rparr>"

definition rs_one :: "nat ramBufferDescriptor" where
  "rs_one = \<lparr>ramBufferLen = 33, ramBufferMaxLen = 200, pRamBuffer = enc_entry ([1, 2], [7, 8]) @ replicate 167 0,
     mRamStorageMutexId = 0\<rparr>"

lemma rs_empty_holds: "holds rs_empty []"
  by (simp add: holds_def rs_empty_def)

lemma rs_one_holds: "holds rs_one [([1, 2], [7, 8])]"
  by (simp add: holds_def rs_one_def entry_ok_def entry_size_def enc_entry_def)

text \<open>
  C13. \<^verbatim>\<open>ramStorageSet\<close> on every branch: when the buffer holds a list of entries, the entries of the key are removed and, if
  there is room, the new entry is appended and the mutex is given back as often as it was taken. Without room an assertion
  fails, or in a build without assertions the error is returned and the old values of the key are lost.
\<close>

theorem ram_set_entries:
  assumes "recursive_mutex E" and "holds b es" and "length key \<le> KEY_BYTE_MAX_SIZE" and "length v \<le> 65504"
  shows "let rest = filter (\<lambda>e. fst e \<noteq> key) es
    in if entries_size rest + sizeof_settingsBlock + length v \<le> ramBufferMaxLen b
       then \<exists>b'. ramStorageSet E key v b = Some (Done (RS_ERROR_NONE, b')) \<and> holds b' (rest @ [(key, v)]) \<and> same_buffer b b'
       else if asserts E then ramStorageSet E key v b = Some (Fault AssertFail)
       else \<exists>b'. ramStorageSet E key v b = Some (Done (RS_ERROR_NO_BUFS, b')) \<and> holds b' rest \<and> same_buffer b b'"
  using recursive_mutex.ramStorageSet_entries [OF assms(1,2) _ assms(4), of key] assms(3) by (simp add: Let_def)

theorem ram_set_entries_witness:
  "\<exists>b'. ramStorageSet (counting_env False) [1, 2] (replicate 180 0) rs_one = Some (Done (RS_ERROR_NO_BUFS, b')) \<and> holds b' []"
  using ram_set_entries [OF counting.recursive_mutex_axioms rs_one_holds, of "[1, 2]" "replicate 180 0" False]
  by (simp add: counting_env_def rs_one_def) blast

text \<open>
  C14. \<^verbatim>\<open>ramStorageGet\<close> on every branch: the value with the index among those of the key, cut to the caller's buffer, and its full
  length; or not found with length zero. The state, the mutex included, is as before.
\<close>

theorem ram_get_entries:
  assumes "recursive_mutex E" and "holds b es" and "length key \<le> KEY_BYTE_MAX_SIZE"
  shows "ramStorageGet E key j hasValue n b = Some (Done
    (if 0 \<le> j \<and> nat j < length (values_of key es) then
       (let v = values_of key es ! nat j
        in (RS_ERROR_NONE, if hasValue then map_option (\<lambda>n. take n v) n else None, map_option (\<lambda>_. length v) n, b))
     else (RS_ERROR_NOT_FOUND, None, map_option (\<lambda>_. 0) n, b)))"
  using recursive_mutex.ramStorageGet_entries [OF assms(1,2)] assms(3) by simp

theorem ram_get_entries_witness:
  "ramStorageGet (counting_env True) [1, 2] 0 True (Some 1) rs_one = Some (Done (RS_ERROR_NONE, Some [7], Some 2, rs_one))"
  using ram_get_entries [OF counting.recursive_mutex_axioms rs_one_holds, of "[1, 2]" True 0 True "Some 1"] by simp

text \<open>
  \<^verbatim>\<open>ramStorageDelete\<close> removes exactly the entry with the index among those of the key; the entries behind it move up.
\<close>

theorem ram_delete_entries:
  assumes "recursive_mutex E" and "holds b es" and "length key \<le> KEY_BYTE_MAX_SIZE"
  shows "case split_idx key j es of
      None \<Rightarrow> ramStorageDelete E key j b = Some (Done (RS_ERROR_NOT_FOUND, b))
    | Some (zs, v, rest) \<Rightarrow>
        \<exists>b'. ramStorageDelete E key j b = Some (Done (RS_ERROR_NONE, b')) \<and> holds b' (zs @ rest) \<and> same_buffer b b'"
  using recursive_mutex.ramStorageDelete_entries [OF assms(1,2)] assms(3) by simp

theorem ram_delete_entries_witness:
  "\<exists>b'. ramStorageDelete (counting_env True) [1, 2] 0 rs_one = Some (Done (RS_ERROR_NONE, b')) \<and> holds b' []"
  using ram_delete_entries [OF counting.recursive_mutex_axioms [of True] rs_one_holds, of "[1, 2]" 0] by auto

text \<open>
  C15. Refinement: with distinct keys the store is a map, and a sequence of \<^verbatim>\<open>ramStorageSet\<close> and \<^verbatim>\<open>ramStorageDelete\<close> calls that
  have room changes it as the same updates and removals change a map.
\<close>

theorem ram_commands_refine:
  assumes "recursive_mutex E" and "rs_inv b" and "kv_store.all_enabled rs_key rs_fits (rs_put E) (rs_del E) b cs"
  shows "\<exists>b'. kv_store.run (rs_put E) (rs_del E) cs b = Some b' \<and> rs_inv b' \<and> rs_map b' = fold kv_apply cs (rs_map b)"
  by (rule recursive_mutex.commands_refine [OF assms])

theorem ram_commands_refine_witness:
  "\<exists>b'. kv_store.run (rs_put (counting_env True)) (rs_del (counting_env True)) [Put [1] [5]] rs_empty = Some b' \<and>
    rs_map b' = [[1] \<mapsto> [5]]"
proof -
  have inv: "rs_inv rs_empty" and m: "rs_map rs_empty = Map.empty" and e: "rs_entries rs_empty = []"
    using holds_inv [OF rs_empty_holds] holds_entries [OF rs_empty_holds] by simp_all
  have k: "rs_key [1]" "rs_fits rs_empty [1] [5]" by (simp_all add: rs_key_def rs_fits_def e) (simp_all add: rs_empty_def)
  then obtain b' where "rs_put (counting_env True) [1] [5] rs_empty = Some b'"
    using counting.rs_put_ok [OF inv k] by blast
  then have "kv_store.all_enabled rs_key rs_fits (rs_put (counting_env True)) (rs_del (counting_env True)) rs_empty [Put [1] [5]]"
    using k by simp
  from ram_commands_refine [OF counting.recursive_mutex_axioms inv this] show ?thesis by (auto simp: m)
qed

text \<open>
  C16. \<^verbatim>\<open>ramStorageSet\<close> takes the mutex twice: with a mutex that its holder cannot take again, the call never returns.
\<close>

theorem ram_set_deadlocks:
  assumes "holds b es" and "length key \<le> KEY_BYTE_MAX_SIZE"
    and "mutex_lock E (mRamStorageMutexId b) = Some m" and "mutex_lock E m = None"
  shows "ramStorageSet E key v b = None"
  by (rule ramStorageSet_deadlock [OF assms(1) _ assms(3,4)]) (use assms(2) in simp)

theorem ram_set_deadlocks_witness:
  "ramStorageSet ((counting_env True)\<lparr>mutex_lock := (\<lambda>n. if n = 0 then Some 1 else None)\<rparr>) [1] [5] rs_empty = None"
  by (rule ram_set_deadlocks [OF rs_empty_holds, of _ _ 1]) (simp_all add: rs_empty_def)

text \<open>
  The length of the new block is computed in 16 bits: a value of 65505 bytes gives a block length of zero, the test for
  room passes, and the value is copied past the end of the buffer.
\<close>

theorem ram_add_overflows:
  assumes "length v = 65505" and "length key \<le> KEY_BYTE_MAX_SIZE" and "ramBufferLen b = 0" and "31 \<le> length (pRamBuffer b)"
    and "length (pRamBuffer b) < 65536" and "mutex_lock E (mRamStorageMutexId b) = Some m"
  shows "ramStorageAdd E key v b = Some (Fault OutOfBounds)"
  by (rule ramStorageAdd_overflow [OF assms(1) _ assms(3-6)]) (use assms(2) in simp)

theorem ram_add_overflows_witness:
  "ramStorageAdd (counting_env True) [1] (replicate 65505 0) rs_empty = Some (Fault OutOfBounds)"
  by (rule ram_add_overflows [of _ _ _ _ 1]) (simp_all only: length_replicate, simp_all add: rs_empty_def counting_env_def)

section \<open>The route table\<close>

text \<open>An address, a route to it, and the empty table.\<close>

definition rt_addr :: "byte \<Rightarrow> ip6_addr_t" where
  "rt_addr b = \<lparr>ip6_addr = b # replicate 15 0, ip6_zone = 0\<rparr>"

definition rt_route :: "nat \<Rightarrow> esp_route_entry_t" where
  "rt_route n = \<lparr>prefix = rt_addr 0xFD, prefix_length = 8, gateway = rt_addr 0xFE, preference = 1, lifetime_seconds = n, netif = 5\<rparr>"

definition rt_empty :: "(nat list \<times> nat list) route_table" where
  "rt_empty = \<lparr>s_route_entries = [], lwip = ([], [])\<rparr>"

lemma rt_empty_inv: "table_inv list_allocated list_pending rt_empty" "prefixes_ok rt_empty"
  by (simp_all add: table_inv_def rt_empty_def list_pending_def prefixes_ok_def)

text \<open>
  C17. The lookups are longest matches on the bits of addresses: in a table of 16 byte prefixes of at most 128 bits, \<^verbatim>\<open>lwip_hook_ip6_route\<close> returns no
  interface exactly when no entry covers the destination, and otherwise that of the first entry in the list among the covering ones with the longest prefix and, for equal
  lengths, the highest preference; \<^verbatim>\<open>lwip_hook_nd6_get_gw\<close> returns the gateway chosen in the same way among the entries of the given interface. An entry
  covers the addresses that agree with its prefix in every bit of the whole bytes of the prefix: the code ignores the bits of an incomplete last byte.
\<close>

theorem ip6_route_longest_match:
  assumes "prefixes_ok t" and "length (ip6_addr dest) = 16"
  shows "(case lwip_hook_ip6_route t src dest of
       None \<Rightarrow> \<forall>e\<in>set (map snd (s_route_entries t)). \<not> covers e dest
     | Some n \<Rightarrow> \<exists>e. n = netif e \<and> is_first_best (\<lambda>e. covers e dest) (map snd (s_route_entries t)) e) \<and>
    (case lwip_hook_nd6_get_gw t nif dest of
       None \<Rightarrow> \<forall>e\<in>set (map snd (s_route_entries t)). netif e = nif \<longrightarrow> \<not> covers e dest
     | Some g \<Rightarrow> \<exists>e. g = gateway e \<and> is_first_best (\<lambda>e. netif e = nif \<and> covers e dest) (map snd (s_route_entries t)) e)"
proof -
  let ?es = "s_route_entries t"
  have m: "route_match e dest = covers e dest" if "e \<in> set (map snd ?es)" for e
    using route_match_covers [OF assms(2)] assms(1) that by (auto simp: prefixes_ok_def prefix_ok_def list_all_iff)
  have "best_route (\<lambda>e. route_match e dest) ?es = best_route (\<lambda>e. covers e dest) ?es"
    "best_route (\<lambda>e. netif e = nif \<and> route_match e dest) ?es = best_route (\<lambda>e. netif e = nif \<and> covers e dest) ?es"
    using m by (auto intro!: best_route_cong)
  then show ?thesis
    using best_route_spec [where P = "\<lambda>e. covers e dest" and es = ?es] best_route_spec [where P = "\<lambda>e. netif e = nif \<and> covers e dest" and es = ?es]
    by (auto simp: lwip_hook_ip6_route_def lwip_hook_nd6_get_gw_def split: option.splits)
qed

theorem ip6_route_longest_match_witness:
  "lwip_hook_ip6_route (rt_empty\<lparr>s_route_entries := [(1, rt_route 9)]\<rparr>) (rt_addr 0) (rt_addr 0xFD) = Some 5 \<and>
   is_first_best (\<lambda>e. covers e (rt_addr 0xFD)) [rt_route 9] (rt_route 9) \<and> \<not> covers (rt_route 9) (rt_addr 0xFC)"
proof -
  let ?t = "rt_empty\<lparr>s_route_entries := [(1, rt_route 9)]\<rparr>"
  have ok: "prefixes_ok ?t" "length (ip6_addr (rt_addr b)) = 16" for b
    by (simp_all add: prefixes_ok_def prefix_ok_def rt_route_def rt_addr_def)
  have r: "lwip_hook_ip6_route ?t (rt_addr 0) (rt_addr 0xFD) = Some 5" "lwip_hook_ip6_route ?t (rt_addr 0) (rt_addr 0xFC) = None"
    by (simp_all add: lwip_hook_ip6_route_def best_route_def is_better_route_def route_match_def rt_route_def rt_addr_def)
  have "is_first_best P [e] f \<Longrightarrow> f = e" for P e f
    by (auto simp: is_first_best_def Cons_eq_append_conv)
  then show ?thesis
    using ip6_route_longest_match [OF ok(1) ok(2) [where b = "0xFD"], where src = "rt_addr 0" and nif = 5] ip6_route_longest_match [OF ok(1) ok(2) [where b = "0xFC"], where src = "rt_addr 0" and nif = 5] r by auto
qed

text \<open>
  C18. Memory safety of the timers: in every state reached from a well-formed table by adding and refreshing routes and by timers that end, the handler
  of a pending timer runs on an entry that is still in the table, the entries are at different allocated addresses, no two are the same
  route, and each entry with a finite lifetime has exactly one pending timer.
\<close>

theorem route_timers_never_dangle:
  assumes "lwip_services E allocated pending fired" and "table_inv allocated pending t"
    and "(rt_step E pending fired)\<^sup>*\<^sup>* t t'" and "p \<in># pending (lwip t')"
  shows "table_inv allocated pending t' \<and> (\<exists>t''. route_timeout_handler E p (t'\<lparr>lwip := fired p (lwip t')\<rparr>) = Some t'')"
  using lwip_services.reachable_inv [OF assms(1,3,2)] lwip_services.timer_ok [OF assms(1) _ assms(4)] by blast

theorem route_timers_never_dangle_witness:
  "\<exists>t. (rt_step list_lwip list_pending list_fired)\<^sup>*\<^sup>* rt_empty t \<and> 1 \<in># list_pending (lwip t) \<and>
    route_timeout_handler list_lwip 1 (t\<lparr>lwip := list_fired 1 (lwip t)\<rparr>) \<noteq> None"
proof -
  let ?t = "snd (esp_route_table_add_route_entry list_lwip (Some (rt_route 9)) rt_empty)"
  have "rt_step list_lwip list_pending list_fired rt_empty ?t"
    by (rule rt_step.add [of "rt_route 9" _ _ "fst (esp_route_table_add_route_entry list_lwip (Some (rt_route 9)) rt_empty)"])
       (simp_all add: rt_route_def)
  then have r: "(rt_step list_lwip list_pending list_fired)\<^sup>*\<^sup>* rt_empty ?t" by blast
  have p: "1 \<in># list_pending (lwip ?t)"
    by (simp add: esp_route_table_add_route_entry_def find_route_entry_def rt_empty_def list_lwip_def rt_route_def
        update_entry_def list_pending_def Let_def)
  show ?thesis
    using route_timers_never_dangle [OF listed.lwip_services_axioms rt_empty_inv(1) r p] r p by blast
qed

text \<open>
  C19. Routes expire on time: after a route with a finite lifetime is added or refreshed, and whatever other routes are then added or refreshed, in every reachable state the
  route is in the table before its lifetime has passed, it is not in the table after that, and a state without it is always reachable. The time is that of the timers of
  lwIP, whose handlers run at the moment they end; a lifetime longer than the longest delay of lwIP takes several of them.
\<close>

theorem route_expires_on_time:
  assumes "lwip_clock E allocated pending fired now due wait"
    and "table_inv allocated pending t\<^sub>0" and "\<forall>(d, q) \<in># due (lwip t\<^sub>0). now (lwip t\<^sub>0) \<le> d"
    and "lifetime_seconds r < LWIP_UINT32_MAX" and "esp_route_table_add_route_entry E (Some r) t\<^sub>0 = (Some p, t)"
    and "(clock_step E fired now due wait (route_key r))\<^sup>*\<^sup>* t t'"
  shows "(now (lwip t') < now (lwip t\<^sub>0) + lifetime_seconds r * 1000 \<longrightarrow> has_route (route_key r) t') \<and>
    (now (lwip t\<^sub>0) + lifetime_seconds r * 1000 < now (lwip t') \<longrightarrow> \<not> has_route (route_key r) t') \<and>
    (\<exists>t''. (clock_step E fired now due wait (route_key r))\<^sup>*\<^sup>* t' t'' \<and> \<not> has_route (route_key r) t'')"
proof -
  have "clock_inv allocated pending now due (route_key r) (now (lwip t\<^sub>0) + lifetime_seconds r * 1000) t'"
    using lwip_clock.clock_start [OF assms(1-5)] by (rule lwip_clock.clock_reachable [OF assms(1,6)])
  then show ?thesis
    using lwip_clock.clock_inv_times [OF assms(1)] lwip_clock.clock_ends [OF assms(1)] by blast
qed

text \<open>An empty table at time 0, a route for two million seconds, and the same route when its first timer has ended.\<close>

definition rt_start :: "ticking route_table" where
  "rt_start = \<lparr>s_route_entries = [], lwip = ([], 0, [])\<rparr>"

definition rt_timed :: "nat \<Rightarrow> nat \<Rightarrow> nat \<Rightarrow> ticking route_table" where
  "rt_timed n c d = \<lparr>s_route_entries = [(1, rt_route n)], lwip = ([1], c, [(d, 1)])\<rparr>"

lemma rt_timed_run:
  "esp_route_table_add_route_entry tick_lwip (Some (rt_route 2000000)) rt_start = (Some 1, rt_timed 2000000 0 1073741000)"
  "(clock_step tick_lwip tick_fired tick_now tick_due tick_wait (route_key (rt_route 2000000)))\<^sup>*\<^sup>* (rt_timed 2000000 0 1073741000) (rt_timed 926259 1073741000 2000000000)"
proof -
  show "esp_route_table_add_route_entry tick_lwip (Some (rt_route 2000000)) rt_start = (Some 1, rt_timed 2000000 0 1073741000)"
    by (simp add: esp_route_table_add_route_entry_def rt_start_def find_route_entry_def tick_lwip_def Let_def update_entry_def rt_route_def rt_timed_def route_delay_eq)
  let ?step = "clock_step tick_lwip tick_fired tick_now tick_due tick_wait (route_key (rt_route 2000000))"
  have "?step (rt_timed 2000000 0 1073741000) ((rt_timed 2000000 0 1073741000)\<lparr>lwip := tick_wait 1073741000 (lwip (rt_timed 2000000 0 1073741000))\<rparr>)"
    by (rule clock_step.time_passes) (simp_all add: rt_timed_def tick_now_def tick_due_def)
  also have "(rt_timed 2000000 0 1073741000)\<lparr>lwip := tick_wait 1073741000 (lwip (rt_timed 2000000 0 1073741000))\<rparr> = rt_timed 2000000 1073741000 1073741000"
    by (simp add: rt_timed_def tick_wait_def)
  finally have "?step (rt_timed 2000000 0 1073741000) (rt_timed 2000000 1073741000 1073741000)" .
  moreover have "?step (rt_timed 2000000 1073741000 1073741000) (rt_timed 926259 1073741000 2000000000)"
    by (rule clock_step.timer_ends [of _ _ 1])
       (simp_all add: rt_timed_def tick_now_def tick_due_def tick_fired_def tick_lwip_def route_timeout_handler_def rt_route_def update_entry_def Let_def route_delay_eq)
  ultimately show "?step\<^sup>*\<^sup>* (rt_timed 2000000 0 1073741000) (rt_timed 926259 1073741000 2000000000)"
    by (meson converse_rtranclp_into_rtranclp rtranclp.rtrancl_refl)
qed

theorem route_expires_on_time_witness:
  "has_route (route_key (rt_route 2000000)) (rt_timed 926259 1073741000 2000000000) \<and>
   (\<exists>t. (clock_step tick_lwip tick_fired tick_now tick_due tick_wait (route_key (rt_route 2000000)))\<^sup>*\<^sup>* (rt_timed 926259 1073741000 2000000000) t \<and>
      \<not> has_route (route_key (rt_route 2000000)) t)"
proof -
  have "table_inv tick_allocated tick_pending rt_start" "\<forall>(d, q) \<in># tick_due (lwip rt_start). tick_now (lwip rt_start) \<le> d"
    "lifetime_seconds (rt_route 2000000) < LWIP_UINT32_MAX"
    by (simp_all add: table_inv_def rt_start_def tick_pending_def tick_due_def rt_route_def)
  from route_expires_on_time [OF ticking.lwip_clock_axioms this rt_timed_run] show ?thesis
    by (simp add: rt_timed_def rt_start_def tick_now_def rt_route_def)
qed

text \<open>
  C20. A route information option is decoded as it was encoded: a router advertisement with one option of RFC 4191, from a router other than the
  node itself, adds exactly the route it describes, with the sender as the gateway.
\<close>

theorem route_option_roundtrip:
  assumes "rio_ok e" and "\<not> is_self_address addrs (gateway e)" and "length hdr = sizeof_ra_header"
  shows "ra_recv_handler E (netif e) addrs (hdr @ enc_rio e) (gateway e) t =
    Some (snd (esp_route_table_add_route_entry E (Some e) t))"
  by (rule ra_one_rio [OF assms(1,2)]) (use assms(3) in simp)

theorem route_option_roundtrip_witness:
  "ra_recv_handler list_lwip 5 [] (replicate 16 0 @ enc_rio (rt_route 1800)) (rt_addr 0xFE) rt_empty =
    Some (snd (esp_route_table_add_route_entry list_lwip (Some (rt_route 1800)) rt_empty))"
proof -
  have "rio_ok (rt_route 1800)" by (simp add: rio_ok_def rt_route_def rt_addr_def list_all_iff)
  from route_option_roundtrip [OF this, of "[]" "replicate 16 0" list_lwip rt_empty] show ?thesis
    by (simp add: is_self_address_def) (simp add: rt_route_def)
qed

text \<open>
  C21. Any advertisement keeps the table well-formed: whatever bytes the packet has, when the handler returns the invariant of the table
  holds and every prefix has at most 128 bits in 16 bytes; and it does return, without reading outside the packet, when
  each route information option has the 24 bytes of the structure that is copied.
\<close>

theorem advertisement_keeps_table:
  assumes "lwip_services E allocated pending fired" and "table_inv allocated pending t" and "prefixes_ok t"
  shows "(\<forall>t'. ra_recv_handler E nif addrs payload src t = Some t' \<longrightarrow> table_inv allocated pending t' \<and> prefixes_ok t') \<and>
    (options_complete (drop sizeof_ra_header payload) \<longrightarrow> (\<exists>t'. ra_recv_handler E nif addrs payload src t = Some t'))"
  using lwip_services.ra_options_inv [OF assms] ra_options_safe [of "drop sizeof_ra_header payload" E nif addrs src t] assms(2,3)
  by (auto simp: ra_recv_handler_def)

theorem advertisement_keeps_table_witness:
  "\<exists>t'. ra_recv_handler list_lwip 5 [] (replicate 17 0) (rt_addr 0xFE) rt_empty = Some t' \<and> prefixes_ok t'"
proof -
  have "options_complete (drop sizeof_ra_header (replicate 17 0))" by (subst options_complete.simps) simp
  then show ?thesis
    using advertisement_keeps_table [OF listed.lwip_services_axioms rt_empty_inv, of 5 "[]" "replicate 17 0" "rt_addr 0xFE"] by blast
qed

text \<open>
  The copy of an option reads past the packet: an advertisement that ends with a route information option of eight bytes, which RFC 4191 allows for a
  default route and the length test of the handler accepts, makes the handler copy 24 bytes.
\<close>

theorem short_route_option_overread:
  assumes "\<not> is_self_address addrs src" and "length hdr = sizeof_ra_header" and "length opt = 8" and "opt ! 0 = 24" and "opt ! 1 = 1"
  shows "ra_recv_handler E nif addrs (hdr @ opt) src t = None"
  by (rule ra_short_rio [OF assms(1) _ assms(3-5)]) (use assms(2) in simp)

theorem short_route_option_overread_witness:
  "ra_recv_handler list_lwip 5 [] (replicate 16 0 @ [24, 1, 0, 0, 0, 0, 7, 8]) (rt_addr 0xFE) rt_empty = None"
  by (rule short_route_option_overread) (simp_all add: is_self_address_def)

section \<open>The TLV encoding\<close>

text \<open>
  C22. Documents are read back as they were written: if the writer accepted a sequence of calls (values of all types,
  containers of any nesting, any tags the API constructs) and all containers were closed, then a reader on the bytes, with
  the same implicit profile, meets exactly the same elements with the same tags, types and values, and then the end.
\<close>

theorem tlv_document_roundtrip:
  assumes "put_events validate [] es ((TLVWriter_Init maxLen)\<lparr>wImplicitProfileId := p\<rparr>) = (CHIP_NO_ERROR, [], w)"
    and "list_all event_tag_ok es"
  shows "read_events [] ((TLVReader_Init (wBuf w))\<lparr>rImplicitProfileId := p\<rparr>) = (CHIP_NO_ERROR, es)"
  using assms by (rule document_roundtrip(2))

theorem tlv_document_roundtrip_witness:
  "\<exists>w. put_events True [] [Open AnonymousTag 0x15, Leaf (ContextTag 1) (VUInt 300), Leaf (CommonTag 7) (VInt (- 2)), Close]
      ((TLVWriter_Init 100)\<lparr>wImplicitProfileId := 5\<rparr>) = (CHIP_NO_ERROR, [], w) \<and>
    read_events [] ((TLVReader_Init (wBuf w))\<lparr>rImplicitProfileId := 5\<rparr>) =
      (CHIP_NO_ERROR, [Open AnonymousTag 0x15, Leaf (ContextTag 1) (VUInt 300), Leaf (CommonTag 7) (VInt (- 2)), Close])"
proof -
  have "\<exists>w. put_events True [] [Open AnonymousTag 0x15, Leaf (ContextTag 1) (VUInt 300), Leaf (CommonTag 7) (VInt (- 2)), Close]
      ((TLVWriter_Init 100)\<lparr>wImplicitProfileId := 5\<rparr>) = (CHIP_NO_ERROR, [], w)"
    by (simp add: tlv_eval)
  then obtain w where w: "put_events True [] [Open AnonymousTag 0x15, Leaf (ContextTag 1) (VUInt 300), Leaf (CommonTag 7) (VInt (- 2)), Close]
      ((TLVWriter_Init 100)\<lparr>wImplicitProfileId := 5\<rparr>) = (CHIP_NO_ERROR, [], w)" ..
  have "list_all event_tag_ok [Open AnonymousTag 0x15, Leaf (ContextTag 1) (VUInt 300), Leaf (CommonTag 7) (VInt (- 2)), Close]"
    by (simp add: tlv_tag_eval)
  from w tlv_document_roundtrip [OF w this] show ?thesis
    by blast
qed

text \<open>
  C23. A document of single elements and containers can always be completed: after any sequence of calls of the \<^verbatim>\<open>Put\<close> methods, of \<^verbatim>\<open>StartContainer\<close> and of
  \<^verbatim>\<open>EndContainer\<close> on a buffer of less than $2^{31}$ bytes, whether they succeeded or failed, all containers that are open can be closed without an error. The
  sequences do not contain \<^verbatim>\<open>ReserveBuffer\<close>, which may take the room kept for an end, nor the methods that work on other writers, readers or formats
  (\<^verbatim>\<open>OpenContainer\<close>, \<^verbatim>\<open>CloseContainer\<close>, \<^verbatim>\<open>CopyElement\<close>, \<^verbatim>\<open>PutPreEncodedContainer\<close>, \<^verbatim>\<open>VPutStringF\<close>).
\<close>

theorem tlv_document_completes:
  assumes "session ([], TLVWriter_Init n) (outer, w)" and "n \<le> 0x7FFFFFFF"
  shows "\<exists>w'. put_events validate outer (replicate (length outer) Close) w = (CHIP_NO_ERROR, [], w')"
  using session_nested [OF assms(1) nested_Init [OF assms(2)]] by (rule close_all)

theorem tlv_document_completes_witness:
  "\<exists>w. session ([], TLVWriter_Init 2) ([- 1], w) \<and> fst (TLVWriter_PutNull AnonymousTag w) = CHIP_ERROR_BUFFER_TOO_SMALL \<and>
    (\<exists>w'. put_events True [- 1] [Close] w = (CHIP_NO_ERROR, [], w'))"
proof -
  obtain w where w: "TLVWriter_StartContainer AnonymousTag kTLVType_Array (TLVWriter_Init 2) = (CHIP_NO_ERROR, Some (- 1), w)"
    and "fst (TLVWriter_PutNull AnonymousTag w) = CHIP_ERROR_BUFFER_TOO_SMALL"
    by (simp add: tlv_eval)
  moreover have "session ([], TLVWriter_Init 2) ([- 1], w)"
    using w by (intro session.opened [OF session.start])
  ultimately show ?thesis
    using tlv_document_completes [of 2 "[- 1]" w True] by (intro exI [of _ w]) simp
qed

text \<open>
  C24. The reader stays inside its buffer, whatever the bytes are: in every state that the operations reach, container readers
  included, the unread bytes are the buffer behind the bytes counted as read, and every successful \<^verbatim>\<open>Next\<close> consumes at least one
  byte, so that loops over \<^verbatim>\<open>Next\<close> end.
\<close>

theorem tlv_reader_stays_inside:
  assumes "reader_run data r"
  shows "rReadPoint r = drop (rLenRead r) (take UINT32_MAX data) \<and> rLenRead r \<le> length data \<and>
    (\<forall>r'. TLVReader_Next r = (CHIP_NO_ERROR, r') \<longrightarrow> rLenRead r < rLenRead r')"
proof -
  have r: "reads_from (take UINT32_MAX data) r"
    using assms by (rule reader_run_reads_from)
  have "rLenRead r < rLenRead r'" if "TLVReader_Next r = (CHIP_NO_ERROR, r')" for r'
    using reads_from_Next [OF r that] r Next_length(2) [OF that] by (auto simp: reads_from_def)
  then show ?thesis
    using r by (auto simp: reads_from_def)
qed

theorem tlv_reader_stays_inside_witness:
  "\<exists>r. TLVReader_Next (TLVReader_Init [0x16, 0x10]) = (CHIP_NO_ERROR, r) \<and> reader_run [0x16, 0x10] r \<and>
    rReadPoint r = drop (rLenRead r) [0x16, 0x10]"
proof -
  obtain r where "TLVReader_Next (TLVReader_Init [0x16, 0x10]) = (CHIP_NO_ERROR, r)"
    using Next_open [of "0xFFFFFFFF" "- 1" "0x16" AnonymousTag "[0x10]" "TLVReader_Init [0x16, 0x10]"]
      before_Init [of "[0x16, 0x10]"] by (auto simp: elem_head_def tlv_eval)
  moreover from this have "reader_run [0x16, 0x10] r"
    by (rule reader_run.Next [OF reader_run.Init])
  ultimately show ?thesis
    using tlv_reader_stays_inside [of "[0x16, 0x10]" r] by auto
qed

text \<open>
  C25. \<^verbatim>\<open>CopyElement\<close> copies a value, or a container with all its contents, under another tag: with room in the writer and a tag that
  is allowed there, it appends the encoding of the same element with the new tag, and leaves the reader behind the element.
\<close>

theorem tlv_copy_element:
  assumes "before p ct (encode p (element_events tag e) @ rest) r" "tag_allowed ct tag" "api_tag tag" "element_ok e"
    and "room d w" "wImplicitProfileId w = p" "tag_allowed (wContainerType w) tag'"
    and "wLenWritten w + length (encode p (element_events tag' e)) \<le> wMaxLen w"
  shows "\<exists>r1 r2. TLVReader_Next r = (CHIP_NO_ERROR, r1) \<and> rElemTag r1 = tag \<and>
    TLVWriter_CopyElement tag' r1 w = (CHIP_NO_ERROR, written (encode p (element_events tag' e)) w, r2) \<and> before p ct rest r2"
  by (rule CopyElement_ok [OF assms]) blast

theorem tlv_copy_element_witness:
  defines "e \<equiv> Whole kTLVType_Array [Leaf AnonymousTag (VBool True), Close]" and "p \<equiv> 0xFFFFFFFF :: 32 word"
  shows "\<exists>r1 r2. TLVReader_Next (TLVReader_Init [0x16, 0x09, 0x18]) = (CHIP_NO_ERROR, r1) \<and>
    TLVWriter_CopyElement (CommonTag 1) r1 (TLVWriter_Init 10) =
      (CHIP_NO_ERROR, written (encode p (element_events (CommonTag 1) e)) (TLVWriter_Init 10), r2)"
proof -
  have code: "encode p (element_events AnonymousTag e) = [0x16, 0x09, 0x18]"
    by (simp add: e_def elem_head_def leaf_code_def tlv_eval)
  have "before p (- 1) (encode p (element_events AnonymousTag e) @ []) (TLVReader_Init [0x16, 0x09, 0x18])"
    unfolding append_Nil2 code unfolding p_def by (rule before_Init) simp
  moreover have "element_ok e" "length (encode p (element_events (CommonTag 1) e)) \<le> 10"
    by (simp_all add: e_def elem_head_def leaf_code_def value_ok_def tlv_eval)
  moreover have "tag_allowed (- 1) AnonymousTag" "tag_allowed (- 1) (CommonTag 1)"
    by (simp_all add: tlv_tag_eval)
  ultimately show ?thesis
    using tlv_copy_element [of p "- 1" AnonymousTag e "[]" "TLVReader_Init [0x16, 0x09, 0x18]" 0 "TLVWriter_Init 10" "CommonTag 1"]
      room_Init [of 10]
    by (auto simp: TLVWriter_Init_def p_def)
qed

text \<open>
  Integers: a reader finds every unsigned integer with \<^verbatim>\<open>Get(uint64_t &)\<close> and every signed one with \<^verbatim>\<open>Get(int64_t &)\<close>; a narrower
  getter of the same signedness returns the value if it fits and \<^verbatim>\<open>CHIP_ERROR_INVALID_INTEGER_VALUE\<close> otherwise, never a truncated
  value; a getter of the other signedness reports the wrong type and, if it is a narrow one, stores 0.
\<close>

theorem tlv_integer_getters:
  assumes "TLVWriter_Put_uint64 tag u (TLVWriter_Init n) = (CHIP_NO_ERROR, w)"
    and "TLVWriter_Put_int64 tag i (TLVWriter_Init n) = (CHIP_NO_ERROR, w')" and "api_tag tag"
  shows "(\<exists>r. TLVReader_Next (TLVReader_Init (wBuf w)) = (CHIP_NO_ERROR, r) \<and>
      TLVReader_Get_uint64 r = (CHIP_NO_ERROR, Some (uint u)) \<and> TLVReader_Get_uint32 r = fits 0 4294967295 (uint u) \<and>
      TLVReader_Get_uint16 r = fits 0 65535 (uint u) \<and> TLVReader_Get_uint8 r = fits 0 255 (uint u) \<and>
      TLVReader_Get_int64 r = (CHIP_ERROR_WRONG_TLV_TYPE, None) \<and> TLVReader_Get_int8 r = (CHIP_ERROR_WRONG_TLV_TYPE, Some 0)) \<and>
    (\<exists>r. TLVReader_Next (TLVReader_Init (wBuf w')) = (CHIP_NO_ERROR, r) \<and>
      TLVReader_Get_int64 r = (CHIP_NO_ERROR, Some (sint i)) \<and> TLVReader_Get_int32 r = fits (- 2147483648) 2147483647 (sint i) \<and>
      TLVReader_Get_int16 r = fits (- 32768) 32767 (sint i) \<and> TLVReader_Get_int8 r = fits (- 128) 127 (sint i) \<and>
      TLVReader_Get_uint64 r = (CHIP_ERROR_WRONG_TLV_TYPE, None) \<and> TLVReader_Get_uint8 r = (CHIP_ERROR_WRONG_TLV_TYPE, Some 0))"
proof -
  note narrow_defs = TLVReader_Get_uint32_def TLVReader_Get_uint16_def TLVReader_Get_uint8_def
    TLVReader_Get_int32_def TLVReader_Get_int16_def TLVReader_Get_int8_def narrow_simps
  have put: "put_value True tag (VUInt u) (TLVWriter_Init n) = (CHIP_NO_ERROR, w)"
    "put_value True tag (VInt i) (TLVWriter_Init n) = (CHIP_NO_ERROR, w')"
    using assms by (simp_all add: put_value_def)
  show ?thesis
    by (rule conjI; rule read_single [OF put(1) assms(3)] read_single [OF put(2) assms(3)])
      (simp_all add: narrow_defs Get_uint64_on_element Get_int64_on_element del: value_code.simps)
qed

theorem tlv_integer_getters_witness:
  "\<exists>w w' r r'. TLVWriter_Put_uint64 AnonymousTag 300 (TLVWriter_Init 9) = (CHIP_NO_ERROR, w) \<and>
    TLVWriter_Put_int64 AnonymousTag (- 3) (TLVWriter_Init 9) = (CHIP_NO_ERROR, w') \<and>
    TLVReader_Next (TLVReader_Init (wBuf w)) = (CHIP_NO_ERROR, r) \<and>
    TLVReader_Get_uint8 r = (CHIP_ERROR_INVALID_INTEGER_VALUE, None) \<and> TLVReader_Get_uint16 r = (CHIP_NO_ERROR, Some 300) \<and>
    TLVReader_Next (TLVReader_Init (wBuf w')) = (CHIP_NO_ERROR, r') \<and> TLVReader_Get_int8 r' = (CHIP_NO_ERROR, Some (- 3))"
proof -
  have "\<exists>w. TLVWriter_Put_uint64 AnonymousTag 300 (TLVWriter_Init 9) = (CHIP_NO_ERROR, w)"
    "\<exists>w. TLVWriter_Put_int64 AnonymousTag (- 3) (TLVWriter_Init 9) = (CHIP_NO_ERROR, w)"
    by (simp_all add: tlv_eval)
  then obtain w w' where "TLVWriter_Put_uint64 AnonymousTag 300 (TLVWriter_Init 9) = (CHIP_NO_ERROR, w)"
    "TLVWriter_Put_int64 AnonymousTag (- 3) (TLVWriter_Init 9) = (CHIP_NO_ERROR, w')"
    by blast
  from this tlv_integer_getters [OF this] show ?thesis
    by (auto simp: fits_def)
qed

text \<open>
  C26. \<^verbatim>\<open>Utf8::IsValid\<close> accepts exactly the well-formed strings: the concatenations of the encodings of Unicode scalar values, without
  surrogates, overlong forms and values above U+10FFFF.
\<close>

theorem utf8_accepts_exactly:
  "Utf8_IsValid span \<longleftrightarrow> (\<exists>cs. list_all scalar cs \<and> span = utf8_encode cs)"
  using Utf8_IsValid_iff [of span] by (simp add: list_all_iff)

text \<open>
  On a container with given elements, \<^verbatim>\<open>CountRemainingInContainer\<close> returns their number, whatever is nested in them, and
  \<^verbatim>\<open>FindElementWithTag\<close> finds the first element with the tag or reports the end of the container.
\<close>

theorem tlv_count_and_find:
  assumes "before p ct (elements_code p es @ 0x18 # rest) r" "elements_ok ct es" "TLVTypeIsContainer ct" "rContainerType r = ct"
  shows "TLVReader_CountRemainingInContainer r = (CHIP_NO_ERROR, Some (length es)) \<and>
    (if tag \<in> fst ` set es
     then \<exists>r'. TLVReader_FindElementWithTag tag r = (CHIP_NO_ERROR, Some r') \<and> rElemTag r' = tag \<and>
          before p ct (elements_code p (tl (dropWhile (\<lambda>x. fst x \<noteq> tag) es)) @ 0x18 # rest) r'
     else TLVReader_FindElementWithTag tag r = (CHIP_END_OF_TLV, None))"
  using count_elements_ok [OF assms(2,1), of rest] FindElementWithTag_ok [OF assms(2,1), of rest tag] assms(3,4)
  by (auto simp: TLVReader_CountRemainingInContainer_def TLVTypeIsContainer_def)

theorem tlv_count_and_find_witness:
  defines "r \<equiv> (TLVReader_Init [0x29, 1, 0x14, 0x18])\<lparr>rContainerType := kTLVType_List\<rparr>"
  shows "TLVReader_CountRemainingInContainer r = (CHIP_NO_ERROR, Some 2) \<and>
    (\<exists>r'. TLVReader_FindElementWithTag AnonymousTag r = (CHIP_NO_ERROR, Some r'))"
proof -
  let ?es = "[(ContextTag 1, Single (VBool True)), (AnonymousTag, Single VNull)]"
  have "elements_code 0xFFFFFFFF ?es @ [0x18] = [0x29, 1, 0x14, 0x18]"
    by (simp add: leaf_code_def elem_head_def tlv_eval)
  then have "before 0xFFFFFFFF kTLVType_List (elements_code 0xFFFFFFFF ?es @ [0x18]) r"
    using reader_inv_Init [of "[0x29, 1, 0x14, 0x18]"]
    by (intro before_cleared) (simp_all add: r_def, simp_all add: TLVReader_Init_def)
  moreover have "elements_ok kTLVType_List ?es"
    by (simp add: value_ok_def tlv_tag_eval)
  ultimately show ?thesis
    using tlv_count_and_find [of "0xFFFFFFFF" kTLVType_List ?es "[]" r AnonymousTag]
    by (auto simp: r_def TLVTypeIsContainer_def)
qed

text \<open>
  What a failed call leaves behind: when writing a value fails, the writer is unchanged, except that the head of a string or byte
  string whose data do not fit stays in the buffer.
\<close>

theorem tlv_failed_put:
  assumes "room d w" "put_value validate tag v w = (err, w')" "err \<noteq> CHIP_NO_ERROR"
    and "value_code v = (et, x, data)" "length data \<le> 0x7FFFFFFF"
  shows "w' = w \<or>
    err = CHIP_ERROR_BUFFER_TOO_SMALL \<and> w' = written (elem_head (wImplicitProfileId w) et tag x) w \<and>
    wMaxLen w < wLenWritten w + length (leaf_code (wImplicitProfileId w) tag v) \<and> data \<noteq> []"
  using assms by (rule failed_put_value)

theorem tlv_failed_put_witness:
  "\<exists>w'. put_value True AnonymousTag (VBytes [1, 2, 3]) (TLVWriter_Init 4) = (CHIP_ERROR_BUFFER_TOO_SMALL, w') \<and>
    w' = written [0x10, 3] (TLVWriter_Init 4)"
proof -
  let ?w = "TLVWriter_Init 4"
  have "\<exists>w'. put_value True AnonymousTag (VBytes [1, 2, 3]) ?w = (CHIP_ERROR_BUFFER_TOO_SMALL, w') \<and> w' \<noteq> ?w"
    by (simp add: tlv_eval)
  then obtain w' where w': "put_value True AnonymousTag (VBytes [1, 2, 3]) ?w = (CHIP_ERROR_BUFFER_TOO_SMALL, w')" "w' \<noteq> ?w"
    by blast
  have "elem_head (wImplicitProfileId ?w) ET_ByteString_1ByteLength AnonymousTag 3 = [0x10, 3]"
    by (simp add: elem_head_def tlv_eval)
  moreover have "value_code (VBytes [1, 2, 3]) = (ET_ByteString_1ByteLength, 3, [1, 2, 3])"
    by (simp add: len_field_size_def)
  ultimately show ?thesis
    using tlv_failed_put [OF room_Init w'(1)] w' by auto
qed

text \<open>
  C27. The updater edits nested documents in place: after \<^verbatim>\<open>Init\<close> on a buffer with a document and enough free space for the values
  that are inserted, any script that keeps, removes, enters or inserts elements runs without an error, and then the start of
  the buffer holds the encoding of the edited document.
\<close>

theorem tlv_updater_edits:
  assumes "TLVUpdater_Init (Some buf) dataLen (length buf) = Inr u" "length buf \<le> 0x7FFFFFFF"
    and "take dataLen buf = encode 0xFFFFFFFF (trees_events ts)" "trees_ok kTLVType_NotSpecified ts"
    and "script_ok validate kTLVType_NotSpecified xs ts" "inserted_len 0xFFFFFFFF xs + dataLen \<le> length buf"
  shows "\<exists>u'. run_edits validate xs u = Some (CHIP_END_OF_TLV, u') \<and>
    wBuf (uWriter u') = encode 0xFFFFFFFF (trees_events (edited xs ts)) \<and>
    take (length (wBuf (uWriter u'))) (uMem u') = wBuf (uWriter u')"
proof -
  let ?p = "0xFFFFFFFF :: 32 word"
  note i = Init_inv [OF assms(1,2)]
  have w: "wBuf (uWriter u) = []" "wContainerType (uWriter u) = kTLVType_NotSpecified" "wImplicitProfileId (uWriter u) = ?p"
    "wRemainingLen (uWriter u) = length buf - dataLen"
    using assms(2) i(2) by (simp_all add: i(9) TLVWriter_Init_def Let_def)
  have len: "length (take dataLen buf) \<le> UINT32_MAX"
    using assms(2) by simp
  have "before ?p kTLVType_NotSpecified (encode ?p (trees_events ts) @ []) (updater_reader u)"
    using before_Init [OF len] assms(3) i(5) by simp
  then obtain u' where "run_edits validate xs u = Some (CHIP_END_OF_TLV, u')"
    "edits_done ?p kTLVType_NotSpecified [] (inserted_len ?p xs) (encode ?p (trees_events (edited xs ts))) u u'"
    using edits_ok [OF assms(5) i(1) _ assms(4) w(3,2)] assms(6) i(2) w(4) by fastforce
  then show ?thesis
    using updater_invD(6,7) [of u'] w(1) by (simp add: edits_done_def)
qed

theorem tlv_updater_edits_witness:
  "\<exists>u u'. TLVUpdater_Init (Some ([0x15, 0x29, 0x01, 0x28, 0x02, 0x18] @ [0, 0])) 6 8 = Inr u \<and>
    run_edits True [Inside [Keep, Remove, Insert (ContextTag 3) VNull]] u = Some (CHIP_END_OF_TLV, u') \<and>
    take 6 (uMem u') = [0x15, 0x29, 0x01, 0x34, 0x03, 0x18]"
proof -
  let ?buf = "[0x15, 0x29, 0x01, 0x28, 0x02, 0x18] @ [0, 0] :: byte list"
  let ?ts = "[(AnonymousTag, Node kTLVType_Structure [(ContextTag 1, Value (VBool True)), (ContextTag 2, Value (VBool False))])]"
  let ?xs = "[Inside [Keep, Remove, Insert (ContextTag 3) VNull]]"
  have eight: "length ?buf = 8" and small: "length ?buf \<le> 0x7FFFFFFF"
    by simp_all
  obtain u where u: "TLVUpdater_Init (Some ?buf) 6 (length ?buf) = Inr u"
    unfolding eight by (simp add: TLVUpdater_Init_def Let_def)
  have "take 6 ?buf = encode 0xFFFFFFFF (trees_events ?ts)" "trees_ok kTLVType_NotSpecified ?ts"
    "script_ok True kTLVType_NotSpecified ?xs ?ts" "inserted_len 0xFFFFFFFF ?xs + 6 \<le> length ?buf"
    by (simp_all add: elem_head_def leaf_code_def value_ok_def putable_def tlv_eval)
  note t = tlv_updater_edits [OF u small this]
  have "encode 0xFFFFFFFF (trees_events (edited ?xs ?ts)) = [0x15, 0x29, 0x01, 0x34, 0x03, 0x18]" "length [0x15, 0x29, 0x01, 0x34, 0x03, 0x18 :: byte] = 6"
    by (simp_all add: elem_head_def leaf_code_def tlv_eval)
  then show ?thesis
    using t u [unfolded eight] by metis
qed

text \<open>
  C28. Without \<^verbatim>\<open>MoveUntilEnd\<close> the updater never overtakes itself: after any sequence of \<^verbatim>\<open>Next\<close>, \<^verbatim>\<open>Move\<close>, \<^verbatim>\<open>EnterContainer\<close>, \<^verbatim>\<open>ExitContainer\<close> and
  \<^verbatim>\<open>SetImplicitProfileId\<close>, and of methods of the reader that stay in its input and of the writer that stay in its space (among them those that read strings, the \<^verbatim>\<open>Put\<close> methods, \<^verbatim>\<open>StartContainer\<close>
  and \<^verbatim>\<open>EndContainer\<close>), successful or not, and on any input, the output is the start of the buffer and ends before the current element, the input from there on is
  what it was, and the next \<^verbatim>\<open>Next\<close>, \<^verbatim>\<open>Move\<close>, \<^verbatim>\<open>EnterContainer\<close> or \<^verbatim>\<open>ExitContainer\<close> does not leave the buffer. What \<^verbatim>\<open>MoveUntilEnd\<close> does is a property of its own.
\<close>

theorem tlv_updater_stays_inside:
  assumes "TLVUpdater_Init (Some buf) dataLen (length buf) = Inr u0" "length buf \<le> 0x7FFFFFFF" "updater_run u0 u"
  shows "take (length (wBuf (uWriter u))) (uMem u) = wBuf (uWriter u) \<and> length (wBuf (uWriter u)) \<le> uElementStartAddr u \<and>
    uElementStartAddr u \<le> uReadPoint u \<and> uReadPoint u \<le> length buf \<and>
    drop (uElementStartAddr u) (uMem u) = drop (uElementStartAddr u - (length buf - dataLen)) (take dataLen buf) \<and>
    TLVUpdater_Next u \<noteq> None \<and> TLVUpdater_Move u \<noteq> None \<and> TLVUpdater_EnterContainer u \<noteq> None \<and>
    TLVUpdater_ExitContainer ct u \<noteq> None"
proof -
  note i = Init_inv [OF assms(1,2)]
  have u: "updater_inv u" "same_input u0 u"
    using updater_run_inv [OF assms(3) i(1)] by auto
  have "drop (uElementStartAddr u) (uMem u) = drop (uElementStartAddr u) (uMem u0)" "length buf - dataLen \<le> uElementStartAddr u"
    "uBufEnd u = length buf"
    using u(2) i(3,6) by (auto simp: same_input_def)
  then have "drop (uElementStartAddr u) (uMem u) = drop (uElementStartAddr u - (length buf - dataLen)) (take dataLen buf)"
    unfolding i(4) [symmetric] by simp
  moreover have "TLVUpdater_Next u \<noteq> None" "TLVUpdater_Move u \<noteq> None" "TLVUpdater_EnterContainer u \<noteq> None" "TLVUpdater_ExitContainer ct u \<noteq> None"
    by (rule Next_ok [OF u(1)], simp, rule Move_Some [OF u(1)], simp, rule Enter_ok [OF u(1)], simp, rule Exit_ok [OF u(1), of ct], simp)
  ultimately show ?thesis
    using updater_invD(1-3,6,7) [OF u(1)] \<open>uBufEnd u = length buf\<close> by (simp del: not_None_eq)
qed

theorem tlv_updater_stays_inside_witness:
  "\<exists>u0 u err. TLVUpdater_Init (Some [0xFF, 0x09, 0, 0, 0]) 2 5 = Inr u0 \<and> TLVUpdater_Next u0 = Some (err, u) \<and>
    updater_run u0 u \<and> TLVUpdater_Move u \<noteq> None"
proof -
  have five: "length [0xFF, 0x09, 0, 0, 0 :: byte] = 5"
    by simp
  obtain u0 where i: "TLVUpdater_Init (Some [0xFF, 0x09, 0, 0, 0]) 2 (length [0xFF, 0x09, 0, 0, 0 :: byte]) = Inr u0"
    unfolding five by (simp add: TLVUpdater_Init_def Let_def)
  have small: "length [0xFF, 0x09, 0, 0, 0 :: byte] \<le> 0x7FFFFFFF"
    by simp
  obtain err u where n: "TLVUpdater_Next u0 = Some (err, u)"
    using tlv_updater_stays_inside [OF i small updater_run.start, of 0] by auto
  then have "updater_run u0 u"
    by (rule updater_run.next_element [OF updater_run.start])
  then show ?thesis
    using tlv_updater_stays_inside [OF i small, of u 0] i [unfolded five] n by blast
qed

text \<open>
  C29. \<^verbatim>\<open>MoveUntilEnd\<close> moves the rest of the document, but it is only correct between two elements: it appends the input from the
  current element on; called with the reader on an element it advances the reader past the end of its buffer,
  by the bytes of the element that were already read, and the following \<^verbatim>\<open>Next\<close> reads outside of the buffer.
\<close>

theorem tlv_move_until_end:
  assumes "updater_inv u"
  shows "\<exists>u'. TLVUpdater_MoveUntilEnd u = Some u' \<and>
    wBuf (uWriter u') = wBuf (uWriter u) @ take (uBufEnd u - uElementStartAddr u) (drop (uElementStartAddr u) (uMem u)) \<and>
    uReadPoint u' = uBufEnd u + (uReadPoint u - uElementStartAddr u) \<and>
    (if uReadPoint u = uElementStartAddr u then updater_inv u' else TLVUpdater_Next u' = None)"
proof -
  obtain u' where u': "TLVUpdater_MoveUntilEnd u = Some u'"
    using MoveUntilEnd_Some [OF assms] by auto
  show ?thesis
    using MoveUntilEnd_ok [OF assms u'] MoveUntilEnd_behind [OF assms _ u'] updater_invD(2) [OF assms] u' by auto
qed

theorem tlv_move_until_end_witness:
  "\<exists>u0 u u'. TLVUpdater_Init (Some [0x09, 0x08, 0]) 2 3 = Inr u0 \<and> TLVUpdater_Next u0 = Some (CHIP_NO_ERROR, u) \<and>
    TLVUpdater_MoveUntilEnd u = Some u' \<and> wBuf (uWriter u') = [0x09, 0x08] \<and> TLVUpdater_Next u' = None"
proof -
  have three: "length [0x09, 0x08, 0 :: byte] = 3"
    by simp
  obtain u0 where i: "TLVUpdater_Init (Some [0x09, 0x08, 0]) 2 (length [0x09, 0x08, 0 :: byte]) = Inr u0"
    unfolding three by (simp add: TLVUpdater_Init_def Let_def)
  have "length [0x09, 0x08, 0 :: byte] \<le> 0x7FFFFFFF"
    by simp
  note inv = Init_inv [OF i this]
  let ?p = "0xFFFFFFFF :: 32 word"
  have code: "encode ?p (element_events AnonymousTag (Single (VBool True))) = [0x09]"
    by (simp add: elem_head_def leaf_code_def tlv_eval)
  have "before ?p (- 1) ([0x09] @ [0x08]) (updater_reader u0)"
    using before_Init [of "[0x09, 0x08]"] inv(5) by simp
  note b = this [folded code]
  obtain u where u: "TLVUpdater_Next u0 = Some (CHIP_NO_ERROR, u)" "updater_inv u" "before ?p (- 1) [0x08] (updater_reader u)"
    "wBuf (uWriter u) = wBuf (uWriter u0)"
    "take (uBufEnd u - uElementStartAddr u) (drop (uElementStartAddr u) (uMem u)) = [0x09, 0x08]"
    by (rule Updater_Next_element [OF inv(1) b]) (use code in \<open>simp_all add: tlv_tag_eval value_ok_def\<close>)
  obtain u' where "TLVUpdater_MoveUntilEnd u = Some u'"
    "wBuf (uWriter u') = [0x09, 0x08]" "if uReadPoint u = uElementStartAddr u then updater_inv u' else TLVUpdater_Next u' = None"
    using tlv_move_until_end [OF u(2)] u(4,5) inv(9) by (auto simp: TLVWriter_Init_def)
  moreover have "uReadPoint u \<noteq> uElementStartAddr u"
    using Updater_Next_consumes [OF inv(1) u(1)] by simp
  ultimately show ?thesis
    using i [unfolded three] u(1) by auto
qed

text \<open>
  C30. \<^verbatim>\<open>Utilities::Count\<close> and \<^verbatim>\<open>Utilities::Find\<close> agree with the document as a tree: the count is the length of the list of elements in preorder, with nested elements
  or of the outermost level only, and the search returns the first element of that list with the tag, with the reader on it,
  or reports that there is none. With nested elements this is for documents whose containers are nested less than \<^verbatim>\<open>kMaxRecursionDepth\<close> = 10 deep; the code
  gives up with an error on deeper ones.
\<close>

theorem tlv_utilities_preorder:
  assumes "trees_ok ct ts" "rec \<longrightarrow> shallow 0 ts" "before p ct (encode p (trees_events ts) @ bs) r"
    and "TLVReader_GetType r = kTLVType_NotSpecified" "bs = [] \<or> bs = 0x18 # rest \<and> TLVTypeIsContainer ct"
  shows "Utilities_Count r rec = (CHIP_NO_ERROR, length (preorder rec 0 ts)) \<and>
    (case find (\<lambda>(tag', t, d). tag' = tag) (preorder rec 0 ts) of
       None \<Rightarrow> Utilities_Find r tag rec = (CHIP_ERROR_TLV_TAG_NOT_FOUND, None)
     | Some (tag', t, d) \<Rightarrow> \<exists>r' ct' bs'. Utilities_Find r tag rec = (CHIP_NO_ERROR, Some r') \<and> on_tree p ct' tag t bs' r')"
  using Count_trees [OF assms(1) _ assms(3-5)] Find_trees [OF assms(1) _ assms(3-5), where tag = tag] assms(2) by blast

theorem tlv_utilities_preorder_witness:
  "Utilities_Count (TLVReader_Init [0x15, 0x29, 0x01, 0x28, 0x02, 0x18]) True = (CHIP_NO_ERROR, 3) \<and>
    Utilities_Find (TLVReader_Init [0x15, 0x29, 0x01, 0x28, 0x02, 0x18]) (ContextTag 3) True = (CHIP_ERROR_TLV_TAG_NOT_FOUND, None)"
proof -
  let ?ts = "[(AnonymousTag, Node kTLVType_Structure [(ContextTag 1, Value (VBool True)), (ContextTag 2, Value (VBool False))])]"
  let ?bs = "[0x15, 0x29, 0x01, 0x28, 0x02, 0x18] :: byte list"
  have code: "encode 0xFFFFFFFF (trees_events ?ts) @ [] = ?bs" and ok: "trees_ok kTLVType_NotSpecified ?ts" "True \<longrightarrow> shallow 0 ?ts"
    and "TLVReader_GetType (TLVReader_Init ?bs) = kTLVType_NotSpecified"
    by (simp_all add: elem_head_def leaf_code_def value_ok_def kMaxRecursionDepth_def TLVReader_GetType_def TLVReader_ElementType_def
        TLVReader_Init_def Let_def tlv_eval)
  moreover have "before 0xFFFFFFFF kTLVType_NotSpecified (encode 0xFFFFFFFF (trees_events ?ts) @ []) (TLVReader_Init ?bs)"
    unfolding code by (rule before_Init) simp
  moreover have "length (preorder True 0 ?ts) = 3" "find (\<lambda>(tag', t, d). tag' = ContextTag 3) (preorder True 0 ?ts) = None"
    by (simp_all add: tlv_eval)
  ultimately show ?thesis
    using tlv_utilities_preorder [of kTLVType_NotSpecified ?ts True "0xFFFFFFFF" "[]" "TLVReader_Init ?bs", where tag = "ContextTag 3"]
    by (simp only:) simp
qed

text \<open>
  C31. The window of received counters protects an encrypted unicast session from replay: with the counter set to \<open>m\<close>, exactly the messages are
  taken as new that a reference with the whole history takes: those whose counter was not accepted before and is not more than 32 behind
  the largest one. So no counter is accepted twice, for any order in which messages arrive.
\<close>

theorem unicast_replay_protection:
  "receive_all receive_unicast cs (PMC_SetCounter m c) = filter_all fresh accept [uint m] (map uint cs) \<and>
   distinct (accepted cs (receive_all receive_unicast cs (PMC_SetCounter m c))) \<and>
   m \<notin> set (accepted cs (receive_all receive_unicast cs (PMC_SetCounter m c)))"
proof -
  let ?a = "accepted cs (filter_all fresh accept [uint m] (map uint cs))"
  have "distinct (map uint ?a) \<and> set (map uint ?a) \<inter> set [uint m] = {}"
    using filter_all_distinct [of "map uint cs" "[uint m]"] by (simp only: accepted_map)
  then have "distinct ?a" "m \<notin> set ?a"
    by (auto simp: distinct_map)
  then show ?thesis
    by (simp only: receive_unicast_filter) simp
qed

text \<open>
  C32. Group counters roll over: when every counter is within half of the 32-bit range of the largest accepted one, the first
  message is trusted and after it the 32-bit counters decide as the unbounded counters would. No message of the
  unbounded numbering is accepted twice.
\<close>

theorem group_replay_rollover:
  assumes "all_in_range in_half_range fresh accept [n] ns"
  shows "receive_all receive_group (map of_int (n # ns)) NotSynced = True # filter_all fresh accept [n] ns \<and>
    distinct (accepted (n # ns) (receive_all receive_group (map of_int (n # ns)) NotSynced))"
  using receive_group_first [OF assms] filter_all_distinct [of ns "[n]"] by simp

theorem group_replay_rollover_witness:
  "receive_all receive_group [0xFFFFFFFE, 1, 0xFFFFFFFF, 1, 0xFFFFFFFE] NotSynced = [True, True, True, False, False]"
proof -
  have "all_in_range in_half_range fresh accept [4294967294] [4294967297, 4294967295, 4294967297, 4294967294]"
    by (simp add: in_half_range_def fresh_def accept_def)
  moreover have "map of_int [4294967294, 4294967297, 4294967295, 4294967297, 4294967294] = ([0xFFFFFFFE, 1, 0xFFFFFFFF, 1, 0xFFFFFFFE] :: 32 word list)"
    by simp
  ultimately show ?thesis
    using group_replay_rollover [of 4294967294 "[4294967297, 4294967295, 4294967297, 4294967294]"]
    by (simp only:) (simp add: fresh_def accept_def)
qed

text \<open>
  C33. A session loses no message that arrives in order: the counters that a session uses start at a random value after \<^verbatim>\<open>kInitialSyncValue\<close>
  and increase; whatever messages get lost on the way, those that arrive in the order in which they were sent are all taken as new.
\<close>

theorem session_in_order_delivery:
  assumes "subseq (map Some cs) (session_calls k (GetDefaultInitialValuePredecessor rand))"
  shows "receive_all receive_unicast cs (PMC_SetCounter kInitialSyncValue c) = replicate (length cs) True"
proof -
  let ?sent = "List.map_filter id (session_calls k (GetDefaultInitialValuePredecessor rand))"
  have sub: "subseq cs ?sent"
    using assms by (rule subseq_sent)
  have "subseq (map uint cs) (map uint ?sent)"
    using sub by (rule subseq_map)
  then have "sorted_wrt (<) (map uint cs)"
    using conjunct1 [OF session_sent] by (rule sorted_wrt_subseq)
  moreover have "uint kInitialSyncValue < uint x" if "x \<in> set cs" for x
  proof -
    have "x \<in> set ?sent"
      using that list_emb_set [OF sub] by auto
    then have "uint (GetDefaultInitialValuePredecessor rand) < uint x"
      using session_sent by blast
    then show ?thesis
      using le_less_trans [OF uint_ge_0] by fastforce
  qed
  ultimately show ?thesis
    using filter_all_increasing [of "[uint kInitialSyncValue]" "map uint cs"] by (simp add: receive_unicast_filter)
qed

theorem session_in_order_delivery_witness:
  "receive_all receive_unicast [6, 9] (PMC_SetCounter kInitialSyncValue NotSynced) = [True, True]"
proof -
  have "session_calls 4 (GetDefaultInitialValuePredecessor 0x50000005) = map Some [6, 7, 8, 9]"
    by code_simp
  then have "subseq (map Some [6, 9]) (session_calls 4 (GetDefaultInitialValuePredecessor 0x50000005))"
    by simp
  from session_in_order_delivery [OF this, of NotSynced] show ?thesis
    by (simp only: list.size replicate_Suc replicate_0 add_0 plus_nat.simps)
qed

text \<open>
  C34. The table of group peers refines a bounded map from fabric, kind of message and node to the counter of the peer: from the empty table, under
  any sequence of uses of a peer (which adds it if there is room), removals of peers and removals of fabrics, the compact arrays of the table stay well-formed
  and hold exactly the contents of the map.
\<close>

theorem group_table_refines_map:
  "group_table_inv (fold table_step cmds new_GroupPeerTable) \<and>
   peers (fold table_step cmds new_GroupPeerTable) = fold map_step cmds Map.empty"
  using table_refines [OF new_group_table_inv(1)] by (simp add: new_group_table_inv(2))

text \<open>
  C35. Group senders do not disturb one another: when no message is dropped for lack of room, the answers for the messages of each sender are those
  of a receiver that gets the messages of this sender alone, starting with a counter that is not synchronized.
\<close>

theorem group_senders_independent:
  assumes "None \<notin> set (group_run ms new_GroupPeerTable)"
  shows "of_sender k ms (group_run ms new_GroupPeerTable) =
    map Some (receive_all receive_group (of_sender k ms (map snd ms)) NotSynced)"
  using group_run_per_sender [OF new_group_table_inv(1) assms, of k] by (simp add: new_group_table_inv(2) known_counter_def)

theorem group_senders_independent_witness:
  "of_sender (1, False, 5) [((1, False, 5), 7), ((1, False, 6), 7), ((1, False, 5), 7)]
     (group_run [((1, False, 5), 7), ((1, False, 6), 7), ((1, False, 5), 7)] new_GroupPeerTable) =
   map Some (receive_all receive_group [7, 7] NotSynced)"
proof -
  have "group_run [((1, False, 5), 7), ((1, False, 6), 7), ((1, False, 5), 7)] new_GroupPeerTable = [Some True, Some True, Some False]"
    by code_simp
  then have "None \<notin> set (group_run [((1, False, 5), 7), ((1, False, 6), 7), ((1, False, 5), 7)] new_GroupPeerTable)"
    by simp
  from group_senders_independent [OF this, of "(1, False, 5)"] show ?thesis
    by (simp only: list.map snd_conv of_sender_simps fst_conv prod.inject) simp
qed

text \<open>
  C36. The counters of outgoing group messages are never used again: on a storage that keeps what is written to it, and as long as the counters do not reach
  the end of their range, the counters that are sent strictly increase, also when the device restarts at any point between two messages.
\<close>

theorem outgoing_counters_increase:
  assumes "reliable d val" "Outgoing_Init (Some d) r1 r2 new_outgoing s = (CHIP_NO_ERROR, g, s')"
    and "uint (Outgoing_GetCounter c g) + 1000 * int (Suc (length xs)) < 2 ^ 32"
  shows "sorted_wrt (<) (map uint (used_of c (used_counters d xs g s')))"
  using used_increasing [OF assms(1) Init_ahead [OF assms]] by blast

theorem outgoing_counters_increase_witness:
  "sorted_wrt (<) (map uint (used_of True (used_counters sound_ram [Send True, Restart 3 4, Send True]
     \<lparr>mGroupDataCounter = 3, mGroupControlCounter = 2, mStorage = True\<rparr> [GroupControlCounter \<mapsto> 1002, GroupDataCounter \<mapsto> 1003])))"
proof -
  have "Outgoing_Init (Some sound_ram) 1 2 new_outgoing Map.empty =
     (CHIP_NO_ERROR, \<lparr>mGroupDataCounter = 3, mGroupControlCounter = 2, mStorage = True\<rparr>, [GroupControlCounter \<mapsto> 1002, GroupDataCounter \<mapsto> 1003])"
    by (simp add: Outgoing_Init_def sound_ram_def new_outgoing_def initial_counter_def kMessageCounterRandomInitMask_def)
  from outgoing_counters_increase [OF sound_ram_reliable this, of True "[Send True, Restart 3 4, Send True]"] show ?thesis
    by (simp add: Outgoing_GetCounter_def)
qed

text \<open>
  When the write of the value ahead fails, it is not tried again: the error of \<^verbatim>\<open>IncrementCounter\<close> is ignored and the next comparison is with an old value.
  After a restart the counter that was sent last is sent again.
\<close>

theorem outgoing_counter_reused:
  "used_of True (used_counters ram_storage [Send True, Send True, Restart 0 0, Send True]
     \<lparr>mGroupDataCounter = 3, mGroupControlCounter = 1001, mStorage = True\<rparr> ([GroupControlCounter \<mapsto> 1002, GroupDataCounter \<mapsto> 1003], [True])) =
   [1001, 1002, 1002]"
  using failed_write_reuse [of "[GroupControlCounter \<mapsto> 1002, GroupDataCounter \<mapsto> 1003]" 1002 1003] by simp

text \<open>
  C37. Packet headers survive the wire: the header of a message, with flags that agree with the fields that are present, is encoded into bytes from
  which \<^verbatim>\<open>Decode\<close> gets the same header and the length of the encoding, whatever follows in the packet and whatever header object decodes.
\<close>

theorem packet_header_roundtrip:
  assumes "packet_inv h" "Packet_Encode bufSize h = Inr bs"
  shows "length bs = Packet_EncodeSizeBytes h \<and> PayloadOffset h = length bs \<and>
    Packet_Decode (bs @ payload) h0 = (CHIP_NO_ERROR, h, Some (length bs)) \<and>
    Packet_DecodeAndConsume (bs @ payload) h0 = (CHIP_NO_ERROR, h, payload)"
proof -
  have "length bs = Packet_EncodeSizeBytes h"
    using assms(2) by (auto simp: Packet_Encode_eq length_packet_bytes split: if_splits)
  then show ?thesis
    using Packet_roundtrip_inv [OF assms(2,1)] packet_inv_offset [OF assms(1)] by (simp add: Packet_DecodeAndConsume_def)
qed

theorem packet_header_roundtrip_witness:
  "Packet_DecodeAndConsume ([0x04, 0x34, 0x12, 0x00, 0x78, 0x56, 0x34, 0x12, 1, 0, 0, 0, 0, 0, 0, 0] @ [9, 8]) new_PacketHeader =
   (CHIP_NO_ERROR, SetSourceNodeId (Some 1) (SetSessionId 0x1234 (SetMessageCounter 0x12345678 new_PacketHeader)), [9, 8])"
proof -
  let ?h = "SetSourceNodeId (Some 1) (SetSessionId 0x1234 (SetMessageCounter 0x12345678 new_PacketHeader))"
  have "packet_inv ?h"
    by (intro packet_inv_setters)
  moreover have "Packet_Encode 16 ?h = Inr [0x04, 0x34, 0x12, 0x00, 0x78, 0x56, 0x34, 0x12, 1, 0, 0, 0, 0, 0, 0, 0]"
    by code_simp
  ultimately show ?thesis
    by (rule packet_header_roundtrip [THEN conjunct2, THEN conjunct2, THEN conjunct2])
qed

lemma ex_packet_decoded:
  "Packet_Decode [0, 1, 0, 1, 7, 0, 0, 0, 0xAB] new_PacketHeader =
     (CHIP_NO_ERROR, SetSessionId 1 (SetSessionType 1 (SetMessageCounter 7 new_PacketHeader)), Some 8)"
  by (simp add: Packet_Decode_def DecodeFixedCommon_def BufferReader_def Reader_Read_def decode_source_def decode_destination_def skip_extension_def
        u16_def Let_def flag_has_def IsSessionTypeValid_def SetMessageFlags_def SetSecurityFlags_def SetSessionId_def SetSessionType_def SetMessageCounter_def
        new_PacketHeader_def)

text \<open>
  C38. The encoding of a packet header is unique: a header that was decoded from a packet without an extension block and without the reserved
  message flag is well-formed and encoding it gives back the very bytes it was decoded from.
\<close>

theorem packet_header_canonical:
  assumes "Packet_Decode data h0 = (CHIP_NO_ERROR, h, Some n)" "\<not> flag_has (mSecFlags h) kMsgExtensionFlag" "mMsgFlags h AND 0x08 = 0"
  shows "packet_inv h \<and> Packet_Encode n h = Inr (take n data)"
  using assms by (rule Packet_DecodeD)

theorem packet_header_canonical_witness:
  "packet_inv (SetSessionId 1 (SetSessionType 1 (SetMessageCounter 7 new_PacketHeader))) \<and>
   Packet_Encode 8 (SetSessionId 1 (SetSessionType 1 (SetMessageCounter 7 new_PacketHeader))) = Inr (take 8 [0, 1, 0, 1, 7, 0, 0, 0, 0xAB])"
proof (rule packet_header_canonical)
  show "Packet_Decode [0, 1, 0, 1, 7, 0, 0, 0, 0xAB] new_PacketHeader =
     (CHIP_NO_ERROR, SetSessionId 1 (SetSessionType 1 (SetMessageCounter 7 new_PacketHeader)), Some 8)"
    by (rule ex_packet_decoded)
qed (simp_all add: SetSessionId_def SetSessionType_def SetMessageCounter_def new_PacketHeader_def flag_has_def)

text \<open>
  C39. Payload headers survive the wire: any header that the setters produce is decoded from its encoding, with the vendor and the acknowledged
  counter exactly when they were present.
\<close>

theorem payload_header_roundtrip:
  assumes "payload_ok h" "Payload_Encode bufSize h = Inr bs"
  shows "Payload_DecodeAndConsume (bs @ payload) h0 = (CHIP_NO_ERROR, h, payload)"
  using Payload_roundtrip [OF assms(2,1)] by (simp add: Payload_DecodeAndConsume_def)

theorem payload_header_roundtrip_witness:
  "Payload_DecodeAndConsume ([0x06, 0x02, 0x05, 0, 0x01, 0, 0x09, 0, 0, 0] @ [0x15]) new_PayloadHeader =
   (CHIP_NO_ERROR, SetAckMessageCounter (Some 9) (SetNeedsAck True (SetExchangeID 5
      (SetMessageType \<lparr>mVendorId = 0, mProtocolId = 1\<rparr> 2 new_PayloadHeader))), [0x15])"
proof -
  let ?h = "SetAckMessageCounter (Some 9) (SetNeedsAck True (SetExchangeID 5 (SetMessageType \<lparr>mVendorId = 0, mProtocolId = 1\<rparr> 2 new_PayloadHeader)))"
  have "payload_ok ?h"
    by (intro payload_ok_setters)
  moreover have "Payload_Encode 10 ?h = Inr [0x06, 0x02, 0x05, 0, 0x01, 0, 0x09, 0, 0, 0]"
    by code_simp
  ultimately show ?thesis
    by (rule payload_header_roundtrip)
qed

text \<open>
  C40. Decoding a header never claims more bytes than the packet has: for any bytes that arrive, of at most 65535, the length that \<^verbatim>\<open>Decode\<close> returns for the packet
  header or the payload header is within them, so that \<^verbatim>\<open>DecodeAndConsume\<close> stays inside the buffer.
\<close>

theorem header_decode_inside:
  assumes "length data < 65536" "Packet_Decode data h0 = (err, h, Some n) \<or> Payload_Decode data p0 = (err, p, Some n)"
  shows "err = CHIP_NO_ERROR \<and> n \<le> length data"
  using assms Packet_Decode_inside [of data h0 err h n] Payload_Decode_inside [of data p0 err p n] by blast

theorem header_decode_inside_witness:
  "\<exists>n. Packet_Decode [0, 1, 0, 1, 7, 0, 0, 0, 0xAB] new_PacketHeader =
     (CHIP_NO_ERROR, SetSessionId 1 (SetSessionType 1 (SetMessageCounter 7 new_PacketHeader)), Some n) \<and>
     n \<le> length [0, 1, 0, 1, 7, 0, 0, 0, 0xAB :: byte]"
proof -
  let ?data = "[0, 1, 0, 1, 7, 0, 0, 0, 0xAB] :: byte list"
  have "length ?data < 65536"
    by simp
  then have "(8 :: nat) \<le> length ?data"
    using header_decode_inside [of ?data new_PacketHeader CHIP_NO_ERROR _ 8 new_PayloadHeader new_PayloadHeader] ex_packet_decoded by blast
  then show ?thesis
    using ex_packet_decoded by blast
qed

section \<open>Packet buffers\<close>



end
